(* ===== verification/Skynet_Prelude.thy ===== *)
theory Skynet_Prelude
  imports Main "HOL-Library.Word" "HOL-Library.Multiset" "HOL-Library.Monad_Syntax"
begin

text \<open>
  Shared vocabulary of the development: names for the machine types of the C sources, the
  collections of rewrite rules the component theories extend, and the generic facts on masks,
  arrays (lists updated by index) and the option monad that the component proofs share.

  Conventions. An LP64 target is assumed: \<open>int\<close> and \<open>uint32_t\<close> have 32 bits,
  \<open>size_t\<close> and \<open>uint64_t\<close> have 64. A pointer is an address of one of the typed stores
  of the model; a nullable pointer is an option. An operation that can fail an
  \<open>assert\<close>, dereference NULL or use a dead object is an option-valued function:
  \<open>None\<close> is the crash, so a theorem that an operation is \<open>Some\<close> is a theorem that
  no assertion fails and no invalid pointer is used.
\<close>

unbundle bit_operations_syntax

subsection \<open>Machine types\<close>

type_synonym u8 = "8 word"
type_synonym u16 = "16 word"
type_synonym u32 = "32 word"
type_synonym u64 = "64 word"
type_synonym size_t = "64 word"
type_synonym cint = "32 word" \<comment> \<open>a C \<open>int\<close>, read with \<open>sint\<close>\<close>
type_synonym ptr = nat

named_theorems sk_defs \<open>definitions unfolded by the component proofs\<close>
named_theorems sk_inv \<open>preservation of the component invariants\<close>
named_theorems sk_word \<open>word facts stated on natural numbers\<close>

subsection \<open>Masks\<close>

text \<open>\<open>mask_index h n\<close> is the C expression \<open>h & (n - 1)\<close> used as an array index.\<close>

definition mask_index :: "u32 \<Rightarrow> nat \<Rightarrow> nat" where
  "mask_index h n = unat (h AND (word_of_nat n - 1))"

lemma and_exp_minus_1 [sk_word]:
  "unat ((w :: 'a :: len word) AND (2 ^ k - 1)) = unat w mod 2 ^ k"
  by (metis mask_eq_exp_minus_1 take_bit_eq_mask take_bit_eq_mod unsigned_take_bit_eq)

lemma mask_index_mod: "mask_index h (2 ^ k) = unat h mod 2 ^ k"
  by (simp add: mask_index_def and_exp_minus_1)

lemma mask_index_less: "mask_index h (2 ^ k) < 2 ^ k"
  by (simp add: mask_index_mod)

text \<open>Two words agree above bit \<open>k\<close> iff they agree once the low bits are set.\<close>

lemma unat_drop_bit [sk_word]: "unat (drop_bit k (x :: 'a :: len word)) = unat x div 2 ^ k"
  by (metis drop_bit_eq_div unat_drop_bit_eq)

lemma or_mask_eq_iff [sk_word]:
  "(x :: 'a :: len word) OR (2 ^ k - 1) = y OR (2 ^ k - 1) \<longleftrightarrow> unat x div 2 ^ k = unat y div 2 ^ k"
proof -
  have high: "z OR mask k = push_bit k (drop_bit k z) OR mask k" for z :: "'a word"
    by (rule bit_word_eqI) (auto simp: bit_simps)
  have low: "drop_bit k (z OR mask k) = drop_bit k z" for z :: "'a word"
    by (rule bit_word_eqI) (auto simp: bit_simps)
  have "x OR mask k = y OR mask k \<longleftrightarrow> drop_bit k x = drop_bit k y"
    using high low by metis
  also have "\<dots> \<longleftrightarrow> unat x div 2 ^ k = unat y div 2 ^ k"
    unfolding word_unat_eq_iff unat_drop_bit ..
  finally show ?thesis unfolding mask_eq_exp_minus_1 .
qed

lemma and_mask_eq_0_iff [sk_word]:
  "(x :: 'a :: len word) AND (2 ^ k - 1) = 0 \<longleftrightarrow> unat x mod 2 ^ k = 0"
  by (metis and_exp_minus_1 unat_eq_zero)

lemma unat_u32_less [sk_word]: "unat (x :: u32) < 2 ^ 32"
proof -
  have "unat x < 2 ^ LENGTH(32)" by (rule unsigned_less)
  then show ?thesis by simp
qed

lemma unat_u32_div: "unat (x :: u32) div 2 ^ 32 = 0"
  using unat_u32_less [of x] by simp

subsection \<open>Arrays of lists\<close>

lemma mset_concat_update:
  "i < length xss \<Longrightarrow>
     mset (concat (xss[i := ys])) + mset (xss ! i) = mset (concat xss) + mset ys"
proof (induction xss arbitrary: i)
  case (Cons xs xss)
  then show ?case by (cases i) (auto simp: ac_simps)
qed simp

lemma mset_append_cancel:
  assumes "A + mset xs = C + mset (xs @ [n])"
  shows "A = add_mset n C"
proof -
  have "A + mset xs = add_mset n C + mset xs" using assms by simp
  then show ?thesis by (simp only: add_right_cancel)
qed

lemma add_exchange:
  fixes x :: "'a :: cancel_comm_monoid_add"
  assumes "x + c = y + c'" and "c' + m = c + z"
  shows "x + m = y + z"
proof -
  have "(x + m) + c = (x + c) + m" by (simp only: ac_simps)
  also have "\<dots> = y + (c' + m)" unfolding assms(1) by (simp only: ac_simps)
  also have "\<dots> = (y + z) + c" unfolding assms(2) by (simp only: ac_simps)
  finally show ?thesis by (simp only: add_right_cancel)
qed

lemma set_concat_nth: "x \<in> set (concat xss) \<longleftrightarrow> (\<exists>i < length xss. x \<in> set (xss ! i))"
  unfolding set_concat by (metis UN_iff in_set_conv_nth)

subsection \<open>Evaluation of small closed terms\<close>

lemma all_less_4: "(\<forall>i < (4 :: nat). P i) \<longleftrightarrow> P 0 \<and> P 1 \<and> P 2 \<and> P 3"
  by (auto simp: numeral_nat less_Suc_eq)

lemma replicate_numeral_eq: "replicate (numeral n) x = x # replicate (pred_numeral n) x"
  by (simp add: numeral_eq_Suc)

subsection \<open>Signed integers\<close>

lemma sint_nonneg_iff: "0 \<le> sint (x :: cint) \<longleftrightarrow> unat x < 2 ^ 31"
proof -
  have "0 \<le> sint x \<longleftrightarrow> \<not> bit (uint x) 31"
    unfolding sint_uint by (simp add: signed_take_bit_nonnegative_iff)
  also have "bit (uint x) 31 \<longleftrightarrow> odd (unat x div 2 ^ 31)"
  proof -
    have "uint x div 2 ^ 31 = int (unat x div 2 ^ 31)" unfolding zdiv_int by simp
    then show ?thesis unfolding bit_iff_odd by (simp only: even_of_nat)
  qed
  also have "\<not> odd (unat x div 2 ^ 31) \<longleftrightarrow> unat x < 2 ^ 31"
  proof (cases "unat x < 2 ^ 31")
    case False
    then have "unat x div 2 ^ 31 = 1" using unat_u32_less [of x] by (simp add: div_nat_eqI)
    then show ?thesis using False by simp
  qed simp
  finally show ?thesis .
qed

lemma sint_word_of_nat: "n < 2 ^ 31 \<Longrightarrow> sint (word_of_nat n :: cint) = int n"
  using int_word_sint [of "int n", where ?'a = 32] by simp

lemma sint_unat: "0 \<le> sint (x :: cint) \<Longrightarrow> sint x = int (unat x)"
  using sint_word_of_nat [of "unat x"] by (simp add: sint_nonneg_iff)

end
