(* ===== verification/Skynet_CLib.thy ===== *)
theory Skynet_CLib
  imports Skynet_Prelude "HOL-Library.Char_ord" "HOL-Library.List_Lexorder"
begin

text \<open>
  The functions of the C standard library that the runtime calls on strings. A C string is a
  \<open>string\<close> that holds the characters before the terminating NUL. Only the sign of
  \<open>strcmp\<close> is specified by the C standard, so the model returns -1, 0 or 1.
\<close>

subsection \<open>strcmp\<close>

fun strcmp :: "string \<Rightarrow> string \<Rightarrow> int" where
  "strcmp [] [] = 0"
| "strcmp [] (d # ds) = -1"
| "strcmp (c # cs) [] = 1"
| "strcmp (c # cs) (d # ds) =
     (if (of_char c :: nat) < of_char d then -1
      else if (of_char d :: nat) < of_char c then 1
      else strcmp cs ds)"

lemma strcmp_less [simp]: "strcmp a b < 0 \<longleftrightarrow> a < b"
  by (induction a b rule: strcmp.induct) (auto simp: less_char_def)

lemma strcmp_eq [simp]: "strcmp a b = 0 \<longleftrightarrow> a = b"
  by (induction a b rule: strcmp.induct) auto


subsection \<open>Characters and digits\<close>

lemma of_char_less: "(of_char c :: nat) < 256"
  using of_char_mod_256 [of c, where ?'a = nat] mod_less_divisor [of 256 "of_char c :: nat"] by simp

subsection \<open>The bytes of a 32-bit number\<close>

lemma low_byte: "(w :: u32) AND 0xff = take_bit 8 w"
  by (simp add: take_bit_eq_mask mask_eq_exp_minus_1)

lemma of_char_byte: "(of_char (char_of (unat (w AND 0xff :: u32)) :: char) :: u32) = w AND 0xff"
proof -
  have "unat (w AND 0xff) < 256" unfolding low_byte take_bit_eq_mod by (simp add: unat_mod)
  then have "of_char (char_of (unat (w AND 0xff)) :: char) = unat (w AND 0xff)" by simp
  then have "(of_nat (of_char (char_of (unat (w AND 0xff)) :: char)) :: u32) = w AND 0xff" by (simp del: of_nat_of_char)
  then show ?thesis by (simp only: of_nat_of_char)
qed

lemma bigendian_bits:
  "push_bit 24 (take_bit 8 (drop_bit 24 n)) OR push_bit 16 (take_bit 8 (drop_bit 16 n)) OR push_bit 8 (take_bit 8 (drop_bit 8 n)) OR take_bit 8 n = (n :: u32)"
proof (rule bit_word_eqI)
  fix k assume "k < LENGTH(32)"
  then consider "k < 8" | "8 \<le> k \<and> k < 16" | "16 \<le> k \<and> k < 24" | "24 \<le> k \<and> k < 32" by force
  then show "bit (push_bit 24 (take_bit 8 (drop_bit 24 n)) OR push_bit 16 (take_bit 8 (drop_bit 16 n)) OR push_bit 8 (take_bit 8 (drop_bit 8 n)) OR take_bit 8 n) k = bit n k"
    by cases (auto simp: bit_simps)
qed

subsection \<open>Character classes\<close>

definition isspace :: "char \<Rightarrow> bool" where
  "isspace c \<longleftrightarrow> c = CHR '' '' \<or> (9 \<le> (of_char c :: nat) \<and> (of_char c :: nat) \<le> 13)"

text \<open>The value of a digit of \<open>strtol\<close> and \<open>strtoul\<close>: 36 when the character is none.\<close>

definition digit_val :: "char \<Rightarrow> nat" where
  "digit_val c = (let n = of_char c
     in if 48 \<le> n \<and> n \<le> 57 then n - 48
        else if 97 \<le> n \<and> n \<le> 122 then n - 87
        else if 65 \<le> n \<and> n \<le> 90 then n - 55 else 36)"

definition lower_digit :: "nat \<Rightarrow> char" where
  "lower_digit d = (if d < 10 then char_of (48 + d) else char_of (87 + d))"

definition upper_digit :: "nat \<Rightarrow> char" where
  "upper_digit d = (if d < 10 then char_of (48 + d) else char_of (55 + d))"

subsection \<open>strtol and strtoul\<close>

definition parse_digits :: "nat \<Rightarrow> string \<Rightarrow> nat" where
  "parse_digits base s =
     foldl (\<lambda>a c. a * base + digit_val c) 0 (takeWhile (\<lambda>c. digit_val c < base) s)"

definition has_hex_prefix :: "string \<Rightarrow> bool" where
  "has_hex_prefix s \<longleftrightarrow> (case s of
     z # x # d # _ \<Rightarrow> z = CHR ''0'' \<and> (x = CHR ''x'' \<or> x = CHR ''X'') \<and> digit_val d < 16
   | _ \<Rightarrow> False)"

text \<open>The sign and the magnitude, with the prefixes of base 16 and base 0.\<close>

definition strto_parts :: "nat \<Rightarrow> string \<Rightarrow> bool \<times> nat" where
  "strto_parts base s =
     (let s = dropWhile isspace s;
          neg = (s \<noteq> [] \<and> hd s = CHR ''-'');
          s = (if s \<noteq> [] \<and> (hd s = CHR ''-'' \<or> hd s = CHR ''+'') then tl s else s);
          hex = ((base = 16 \<or> base = 0) \<and> has_hex_prefix s);
          oct = (base = 0 \<and> s \<noteq> [] \<and> hd s = CHR ''0'')
      in (neg, parse_digits (if hex then 16 else if oct then 8 else if base = 0 then 10 else base)
                 (if hex then drop 2 s else s)))"

definition strtoul :: "string \<Rightarrow> nat \<Rightarrow> u64" where
  "strtoul s base =
     (let (neg, n) = strto_parts base s
      in if n \<ge> 2 ^ 64 then - 1 else if neg then - word_of_nat n else word_of_nat n)"

definition strtol :: "string \<Rightarrow> nat \<Rightarrow> int" where
  "strtol s base =
     (let (neg, n) = strto_parts base s
      in if neg then max (- int n) (- (2 ^ 63)) else min (int n) (2 ^ 63 - 1))"

subsection \<open>The conversions of sprintf\<close>

function print_base :: "nat \<Rightarrow> nat \<Rightarrow> string" where
  "print_base b n =
     (if b < 2 \<or> n < b then [lower_digit n] else print_base b (n div b) @ [lower_digit (n mod b)])"
  by pat_completeness auto
termination
  by (relation "measure snd") (auto intro: div_less_dividend)

declare print_base.simps [simp del]

definition fmt_x :: "u32 \<Rightarrow> string" where
  "fmt_x w = print_base 16 (unat w)"

definition fmt_08x :: "u32 \<Rightarrow> string" where
  "fmt_08x w = (let s = fmt_x w in replicate (8 - length s) CHR ''0'' @ s)"

definition fmt_u :: "u32 \<Rightarrow> string" where
  "fmt_u w = print_base 10 (unat w)"

definition fmt_d :: "int \<Rightarrow> string" where
  "fmt_d i = (if i < 0 then CHR ''-'' # print_base 10 (nat (- i)) else print_base 10 (nat i))"

subsection \<open>strsep, strchr, sscanf\<close>

text \<open>\<open>strsep\<close> on a string: the token, and the rest unless no delimiter was found.\<close>

definition strsep :: "string \<Rightarrow> string \<Rightarrow> string \<times> string option" where
  "strsep delim s =
     (let tok = takeWhile (\<lambda>c. c \<notin> set delim) s; rest = dropWhile (\<lambda>c. c \<notin> set delim) s
      in (tok, if rest = [] then None else Some (tl rest)))"

definition strchr :: "string \<Rightarrow> char \<Rightarrow> string option" where
  "strchr s c = (let rest = dropWhile (\<lambda>x. x \<noteq> c) s in if rest = [] then None else Some rest)"

text \<open>The conversion \<open>%s\<close> of \<open>sscanf\<close>: a word and the rest, or no word at the end.\<close>

definition scan_word :: "string \<Rightarrow> (string \<times> string) option" where
  "scan_word s =
     (let s = dropWhile isspace s
      in if s = [] then None
         else Some (takeWhile (\<lambda>c. \<not> isspace c) s, dropWhile (\<lambda>c. \<not> isspace c) s))"

subsection \<open>Printing and parsing\<close>

lemma digit_lower: "d < 16 \<Longrightarrow> digit_val (lower_digit d) = d"
  by (auto simp: digit_val_def lower_digit_def Let_def of_char_of)

lemma digit_upper: "d < 16 \<Longrightarrow> digit_val (upper_digit d) = d"
  by (auto simp: digit_val_def upper_digit_def Let_def of_char_of)

lemma parse_digits_all:
  "(\<And>c. c \<in> set s \<Longrightarrow> digit_val c < b) \<Longrightarrow> parse_digits b s = foldl (\<lambda>a c. a * b + digit_val c) 0 s"
  unfolding parse_digits_def by (simp add: takeWhile_eq_all_conv [THEN iffD2])

lemma print_base_digits:
  assumes "2 \<le> b" and "b \<le> 16"
  shows "(\<forall>c \<in> set (print_base b n). digit_val c < b)
     \<and> foldl (\<lambda>a c. a * b + digit_val c) 0 (print_base b n) = n"
  using assms
proof (induction b n rule: print_base.induct)
  case (1 b n)
  show ?case
  proof (cases "n < b")
    case True
    then show ?thesis using 1 by (subst (1 2) print_base.simps) (simp add: digit_lower)
  next
    case False
    have "n mod b < b" using 1 by simp
    then have d: "digit_val (lower_digit (n mod b)) = n mod b" using 1 by (intro digit_lower) linarith
    from False 1 show ?thesis
      by (subst (1 2) print_base.simps) (auto simp: d)
  qed
qed

lemma parse_print_base:
  assumes "2 \<le> b" and "b \<le> 16"
  shows "parse_digits b (print_base b n) = n"
  using print_base_digits [OF assms, of n] by (simp add: parse_digits_all)

lemma print_base_nonempty: "print_base b n \<noteq> []"
  by (subst print_base.simps) simp


lemma hex_digit_plain:
  assumes "digit_val c < 16"
  shows "\<not> isspace c" "c \<noteq> CHR ''-''" "c \<noteq> CHR ''+''" "c \<noteq> CHR ''x''" "c \<noteq> CHR ''X''"
  using assms by (auto simp: digit_val_def isspace_def Let_def split: if_splits)

lemma strto_parts_hex:
  assumes "\<And>c. c \<in> set s \<Longrightarrow> digit_val c < 16"
  shows "strto_parts 16 s = (False, parse_digits 16 s)"
proof (cases s)
  case (Cons c cs)
  have c: "digit_val c < 16" using assms Cons by simp
  have "\<not> has_hex_prefix s"
    using assms Cons hex_digit_plain(4,5) by (auto simp: has_hex_prefix_def split: list.splits)
  then show ?thesis
    using Cons hex_digit_plain [OF c] by (simp add: strto_parts_def)
qed (simp add: strto_parts_def has_hex_prefix_def)

lemma strtoul_hex:
  assumes "\<And>c. c \<in> set s \<Longrightarrow> digit_val c < 16" and "parse_digits 16 s < 2 ^ 32"
  shows "ucast (strtoul s 16) = (word_of_nat (parse_digits 16 s) :: u32)"
proof -
  define n where "n = parse_digits 16 s"
  have "strto_parts 16 s = (False, n)" unfolding n_def by (rule strto_parts_hex [OF assms(1)])
  then have "strtoul s 16 = word_of_nat n" using assms(2) by (simp add: strtoul_def n_def)
  moreover have "(ucast (word_of_nat n :: u64) :: u32) = word_of_nat n"
  proof -
    have "n < 2 ^ 32" using assms(2) by (simp add: n_def)
    then have "unat (ucast (word_of_nat n :: u64) :: u32) = unat (word_of_nat n :: u32)"
      unfolding unsigned_ucast_eq by (simp add: unat_of_nat take_bit_nat_eq_self)
    then show ?thesis by (simp only: word_unat_eq_iff)
  qed
  ultimately show ?thesis by (simp add: n_def)
qed

text \<open>An address printed with \<open>%x\<close> is read back by \<open>strtoul\<close>.\<close>

lemma strtoul_fmt_x: "ucast (strtoul (fmt_x w) 16) = w"
proof -
  note pb = print_base_digits [of 16 "unat w"] parse_print_base [of 16 "unat w"]
  have "parse_digits 16 (fmt_x w) = unat w" using pb by (simp add: fmt_x_def)
  moreover have "digit_val c < 16" if "c \<in> set (fmt_x w)" for c using pb that by (simp add: fmt_x_def)
  ultimately show ?thesis using strtoul_hex [of "fmt_x w"] unat_u32_less [of w] by simp
qed

text \<open>The nibbles of a number, most significant first.\<close>

lemma nibbles_value:
  "foldl (\<lambda>a c. a * 16 + c) 0 (map (\<lambda>i. n div 16 ^ (k - 1 - i) mod 16) [0..<k]) = n mod (16 :: nat) ^ k"
proof -
  have gen: "foldl (\<lambda>a c. a * 16 + c) 0 (map (\<lambda>i. n div 16 ^ (k + m - 1 - i) mod 16) [0..<k])
      = n div 16 ^ m mod 16 ^ k" for k m
  proof (induction k arbitrary: m)
    case (Suc k)
    have "foldl (\<lambda>a c. a * 16 + c) 0 (map (\<lambda>i. n div 16 ^ (Suc k + m - 1 - i) mod 16) [0..<Suc k])
        = foldl (\<lambda>a c. a * 16 + c) 0 (map (\<lambda>i. n div 16 ^ (k + Suc m - 1 - i) mod 16) [0..<k]) * 16
          + n div 16 ^ m mod 16"
      by simp
    also have "\<dots> = (n div 16 ^ Suc m mod 16 ^ k) * 16 + n div 16 ^ m mod 16"
      unfolding Suc.IH [of "Suc m"] ..
    also have "\<dots> = n div 16 ^ m mod 16 ^ Suc k"
    proof -
      have "n div 16 ^ Suc m = n div 16 ^ m div 16" by (metis div_mult2_eq power_Suc2)
      then show ?thesis using mod_mult2_eq [of "n div 16 ^ m" 16 "16 ^ k"] by simp
    qed
    finally show ?case .
  qed simp
  from gen [of k 0] show ?thesis by simp
qed

end
