(* ===== verification/Skynet_Handle.thy ===== *)
theory Skynet_Handle
  imports Skynet_CLib
begin

text \<open>
  The handle registry of \<^verbatim>\<open>skynet-src/skynet_handle.c\<close>: an open table from 24-bit
  handles to service contexts, grown by doubling, and a sorted array of service names.

  The table stores pointers to contexts; the handle of a context is a field of the context,
  which belongs to \<^verbatim>\<open>skynet_server.c\<close>. Every operation that reads it takes the reader
  \<open>hof\<close> (\<open>skynet_context_handle\<close>) as an argument, \<open>None\<close> for a dead
  pointer. \<open>slot_size\<close> is the length of \<open>slot\<close>, and an entry \<open>None\<close> of
  the name array is an uninitialised one. Each definition is the body between
  \<open>rwlock_wlock\<close> and \<open>rwlock_wunlock\<close> (or the read lock), one atomic step.
\<close>

subsection \<open>Data\<close>

record handle_name =
  hn_name :: string
  hn_handle :: u32

record handle_storage =
  hs_harbor :: u32
  hs_handle_index :: u32
  hs_slot :: "ptr option list"
  hs_name_cap :: nat
  hs_name_count :: nat
  hs_name :: "handle_name option list"

definition HANDLE_MASK :: u32 where
  "HANDLE_MASK = 0xffffff"

definition HANDLE_REMOTE_SHIFT :: nat where
  "HANDLE_REMOTE_SHIFT = 24"

definition DEFAULT_SLOT_SIZE :: nat where
  "DEFAULT_SLOT_SIZE = 4"

definition MAX_SLOT_SIZE :: nat where
  "MAX_SLOT_SIZE = 0x40000000"

subsection \<open>skynet_handle_init\<close>

definition skynet_handle_init :: "cint \<Rightarrow> handle_storage" where
  "skynet_handle_init harbor =
     \<lparr>hs_harbor = push_bit HANDLE_REMOTE_SHIFT (harbor AND 0xff),
      hs_handle_index = 1,
      hs_slot = replicate DEFAULT_SLOT_SIZE None,
      hs_name_cap = 2,
      hs_name_count = 0,
      hs_name = replicate 2 None\<rparr>"

subsection \<open>skynet_handle_register\<close>

text \<open>The scan for a free slot: \<open>n\<close> iterations are left, \<open>handle\<close> is the candidate.\<close>

fun register_scan :: "ptr option list \<Rightarrow> nat \<Rightarrow> u32 \<Rightarrow> (u32 \<times> nat) option" where
  "register_scan slot 0 handle = None"
| "register_scan slot (Suc n) handle =
     (let handle = (if handle > HANDLE_MASK then 1 else handle);
          hash = mask_index handle (length slot)
      in if slot ! hash = None then Some (handle, hash)
         else register_scan slot n (handle + 1))"

text \<open>
  The copy into the doubled table: every old slot is dereferenced, and its new place must be
  free.
\<close>

fun register_rehash ::
  "(ptr \<Rightarrow> u32 option) \<Rightarrow> ptr option list \<Rightarrow> ptr option list \<Rightarrow> ptr option list option" where
  "register_rehash hof [] new_slot = Some new_slot"
| "register_rehash hof (None # old) new_slot = None"
| "register_rehash hof (Some c # old) new_slot =
     (case hof c of
        None \<Rightarrow> None
      | Some h \<Rightarrow>
          (let hash = mask_index h (length new_slot)
           in if new_slot ! hash \<noteq> None then None
              else register_rehash hof old (new_slot[hash := Some c])))"

partial_function (option) skynet_handle_register ::
  "(ptr \<Rightarrow> u32 option) \<Rightarrow> handle_storage \<Rightarrow> ptr \<Rightarrow> (u32 \<times> handle_storage) option" where
  "skynet_handle_register hof s ctx =
     (case register_scan (hs_slot s) (length (hs_slot s)) (hs_handle_index s) of
        Some (handle, hash) \<Rightarrow>
          Some (handle OR hs_harbor s,
                s\<lparr>hs_slot := (hs_slot s)[hash := Some ctx], hs_handle_index := handle + 1\<rparr>)
      | None \<Rightarrow>
          (if \<not> int (length (hs_slot s)) * 2 - 1 \<le> uint HANDLE_MASK then None
           else Option.bind
             (register_rehash hof (hs_slot s) (replicate (length (hs_slot s) * 2) None))
             (\<lambda>new_slot. skynet_handle_register hof (s\<lparr>hs_slot := new_slot\<rparr>) ctx)))"

subsection \<open>skynet_handle_retire and skynet_handle_grab\<close>

text \<open>
  The compaction of the name array: \<open>k\<close> entries are left to visit, \<open>i\<close> is the entry
  read and \<open>j\<close> the entry written.
\<close>

fun retire_names ::
  "u32 \<Rightarrow> nat \<Rightarrow> nat \<Rightarrow> nat \<Rightarrow> handle_name option list \<Rightarrow> nat \<times> handle_name option list" where
  "retire_names handle 0 i j name = (j, name)"
| "retire_names handle (Suc k) i j name =
     (if map_option hn_handle (name ! i) = Some handle then retire_names handle k (i + 1) j name
      else retire_names handle k (i + 1) (j + 1) (if i \<noteq> j then name[j := name ! i] else name))"

text \<open>
  \<open>slot_lookup\<close> is the test \<open>ctx != NULL && skynet_context_handle(ctx) == handle\<close> on
  the slot of \<open>handle\<close>, shared by retire and grab.
\<close>

definition slot_lookup :: "(ptr \<Rightarrow> u32 option) \<Rightarrow> handle_storage \<Rightarrow> u32 \<Rightarrow> ptr option" where
  "slot_lookup hof s handle =
     (case hs_slot s ! mask_index handle (length (hs_slot s)) of
        None \<Rightarrow> None
      | Some ctx \<Rightarrow> if hof ctx = Some handle then Some ctx else None)"

text \<open>
  The locked part of \<open>skynet_handle_retire\<close>: the context whose reference must be dropped
  after the lock is released (the function returns 1 exactly when there is one).
\<close>

definition handle_retire_locked ::
  "(ptr \<Rightarrow> u32 option) \<Rightarrow> handle_storage \<Rightarrow> u32 \<Rightarrow> ptr option \<times> handle_storage" where
  "handle_retire_locked hof s handle =
     (case slot_lookup hof s handle of
        None \<Rightarrow> (None, s)
      | Some ctx \<Rightarrow>
          (let (j, name) = retire_names handle (hs_name_count s) 0 0 (hs_name s)
           in (Some ctx,
               s\<lparr>hs_slot := (hs_slot s)[mask_index handle (length (hs_slot s)) := None],
                 hs_name := name, hs_name_count := j\<rparr>)))"

subsection \<open>Names\<close>

text \<open>
  The binary search loop that \<open>skynet_handle_findname\<close> and \<open>_insert_name\<close> share:
  the index of the entry, or the place where it would go.
\<close>

datatype name_pos = Found nat | Absent int

function name_search :: "handle_name option list \<Rightarrow> string \<Rightarrow> int \<Rightarrow> int \<Rightarrow> name_pos" where
  "name_search name key lo hi =
     (if lo \<le> hi then
        (let mid = (lo + hi) div 2;
             c = strcmp (hn_name (the (name ! nat mid))) key
         in if c = 0 then Found (nat mid)
            else if c < 0 then name_search name key (mid + 1) hi
            else name_search name key lo (mid - 1))
      else Absent lo)"
  by pat_completeness auto
termination
  by (relation "measure (\<lambda>(name, key, lo, hi). nat (hi - lo + 1))") auto

declare name_search.simps [simp del]

definition skynet_handle_findname :: "handle_storage \<Rightarrow> string \<Rightarrow> u32" where
  "skynet_handle_findname s key =
     (case name_search (hs_name s) key 0 (int (hs_name_count s) - 1) of
        Found mid \<Rightarrow> hn_handle (the (hs_name s ! mid))
      | Absent _ \<Rightarrow> 0)"

text \<open>\<open>copy_up k i off src dst\<close> runs \<open>dst[i + off] = src[i]\<close> for \<open>k\<close> indices.\<close>

fun copy_up :: "nat \<Rightarrow> nat \<Rightarrow> nat \<Rightarrow> 'a list \<Rightarrow> 'a list \<Rightarrow> 'a list" where
  "copy_up 0 i off src dst = dst"
| "copy_up (Suc k) i off src dst = copy_up k (i + 1) off src (dst[i + off := src ! i])"

text \<open>\<open>shift_up k i a\<close> runs \<open>a[i] = a[i-1]\<close> for \<open>k\<close> indices, downwards from \<open>i\<close>.\<close>

fun shift_up :: "nat \<Rightarrow> nat \<Rightarrow> 'a list \<Rightarrow> 'a list" where
  "shift_up 0 i a = a"
| "shift_up (Suc k) i a = shift_up k (i - 1) (a[i := a ! (i - 1)])"

definition insert_name_before ::
  "handle_storage \<Rightarrow> string \<Rightarrow> u32 \<Rightarrow> nat \<Rightarrow> handle_storage option" where
  "insert_name_before s key handle before =
     (let n = hs_name_count s;
          grow = (n \<ge> hs_name_cap s);
          cap = (if grow then hs_name_cap s * 2 else hs_name_cap s);
          name = (if grow
                  then copy_up (n - before) before 1 (hs_name s)
                         (copy_up before 0 0 (hs_name s) (replicate cap None))
                  else shift_up (n - before) n (hs_name s))
      in if grow \<and> \<not> cap \<le> MAX_SLOT_SIZE then None
         else Some (s\<lparr>hs_name_cap := cap,
                      hs_name := name[before := Some \<lparr>hn_name = key, hn_handle = handle\<rparr>],
                      hs_name_count := n + 1\<rparr>))"

definition insert_name ::
  "handle_storage \<Rightarrow> string \<Rightarrow> u32 \<Rightarrow> (string option \<times> handle_storage) option" where
  "insert_name s key handle =
     (case name_search (hs_name s) key 0 (int (hs_name_count s) - 1) of
        Found _ \<Rightarrow> Some (None, s)
      | Absent before \<Rightarrow>
          map_option (\<lambda>s'. (Some key, s')) (insert_name_before s key handle (nat before)))"

definition skynet_handle_namehandle ::
  "handle_storage \<Rightarrow> u32 \<Rightarrow> string \<Rightarrow> (string option \<times> handle_storage) option" where
  "skynet_handle_namehandle s handle key = insert_name s key handle"


subsection \<open>Invariants\<close>

text \<open>
  The slot table: its size is a power of two, every occupied slot holds a live context whose
  handle hashes to that slot, carries the node's harbor bits and is not 0 in its low 24 bits.
\<close>

definition slot_ok :: "(ptr \<Rightarrow> u32 option) \<Rightarrow> u32 \<Rightarrow> nat \<Rightarrow> nat \<Rightarrow> ptr option \<Rightarrow> bool" where
  "slot_ok hof harbor n i p =
     (case p of
        None \<Rightarrow> True
      | Some c \<Rightarrow>
          (case hof c of
             None \<Rightarrow> False
           | Some h \<Rightarrow> mask_index h n = i \<and> h AND NOT HANDLE_MASK = harbor
                       \<and> h AND HANDLE_MASK \<noteq> 0))"

definition table_inv :: "(ptr \<Rightarrow> u32 option) \<Rightarrow> handle_storage \<Rightarrow> bool" where
  "table_inv hof s \<longleftrightarrow>
     (\<exists>k \<in> {2..24}. length (hs_slot s) = 2 ^ k)
     \<and> hs_harbor s AND HANDLE_MASK = 0
     \<and> 1 \<le> unat (hs_handle_index s) \<and> unat (hs_handle_index s) \<le> 2 ^ 24
     \<and> (\<forall>i < length (hs_slot s).
          slot_ok hof (hs_harbor s) (length (hs_slot s)) i (hs_slot s ! i))"

text \<open>The live part of the name array, and its invariant: initialised and strictly sorted.\<close>

definition names_of :: "handle_storage \<Rightarrow> handle_name list" where
  "names_of s = map the (take (hs_name_count s) (hs_name s))"

definition names_inv :: "handle_storage \<Rightarrow> bool" where
  "names_inv s \<longleftrightarrow>
     length (hs_name s) = hs_name_cap s \<and> 0 < hs_name_cap s
     \<and> hs_name_count s \<le> hs_name_cap s
     \<and> (\<forall>p \<in> set (take (hs_name_count s) (hs_name s)). p \<noteq> None)
     \<and> sorted_wrt (<) (map hn_name (names_of s))"

subsection \<open>Handle arithmetic\<close>

lemma HANDLE_MASK_mask: "HANDLE_MASK = mask 24"
  by (simp add: HANDLE_MASK_def mask_eq_exp_minus_1)

lemma unat_HANDLE_MASK [simp]: "unat HANDLE_MASK = 2 ^ 24 - 1"
  by (simp add: HANDLE_MASK_def)

lemma handle_le_MASK: "h \<le> HANDLE_MASK \<longleftrightarrow> unat h < 2 ^ 24"
  by (simp add: word_le_nat_alt HANDLE_MASK_def) arith

lemma mask_index_OR_harbor:
  assumes "r AND HANDLE_MASK = 0" and "k \<le> 24"
  shows "mask_index (h OR r) (2 ^ k) = mask_index h (2 ^ k)"
proof -
  have "take_bit k r = take_bit k (take_bit 24 r)"
    using assms(2) by (simp add: take_bit_take_bit min_def)
  also have "take_bit 24 r = 0"
    using assms(1) by (simp add: HANDLE_MASK_mask take_bit_eq_mask)
  finally have "take_bit k (h OR r) = take_bit k h"
    by (simp add: take_bit_or)
  then show ?thesis
    by (simp add: mask_index_def take_bit_eq_mask flip: mask_eq_exp_minus_1)
qed

lemma low_handle_take_bit: "unat h < 2 ^ 24 \<Longrightarrow> take_bit 24 (h :: u32) = h"
  by (simp add: word_unat_eq_iff unsigned_take_bit_eq take_bit_nat_eq_self)

lemma OR_harbor_parts:
  assumes r: "r AND HANDLE_MASK = 0" and h: "unat h < 2 ^ 24"
  shows "(h OR r) AND HANDLE_MASK = h" and "(h OR r) AND NOT HANDLE_MASK = r"
proof -
  from h have hb: "h AND HANDLE_MASK = h"
    by (simp add: HANDLE_MASK_mask low_handle_take_bit flip: take_bit_eq_mask)
  show "(h OR r) AND HANDLE_MASK = h"
    by (simp add: bit.conj_disj_distrib2 hb r)
  have "h AND NOT HANDLE_MASK = 0"
    by (metis hb and.assoc bit.conj_cancel_right bit.conj_zero_right)
  moreover have "r AND NOT HANDLE_MASK = r"
  proof -
    have "r = r AND (HANDLE_MASK OR NOT HANDLE_MASK)" by simp
    also have "\<dots> = r AND NOT HANDLE_MASK"
      by (simp only: bit.conj_disj_distrib r) simp
    finally show ?thesis by simp
  qed
  ultimately show "(h OR r) AND NOT HANDLE_MASK = r"
    by (simp add: bit.conj_disj_distrib2)
qed

lemma handle_eq_parts:
  assumes "h AND HANDLE_MASK = h' AND HANDLE_MASK"
    and "h AND NOT HANDLE_MASK = h' AND NOT HANDLE_MASK"
  shows "(h :: u32) = h'"
proof -
  have "w = (w AND HANDLE_MASK) OR (w AND NOT HANDLE_MASK)" for w
    by (simp flip: bit.conj_disj_distrib)
  then show ?thesis using assms by metis
qed

subsection \<open>The scan for a free slot\<close>

lemma register_scan_Some:
  assumes "register_scan sl n h = Some (h', i)" and "1 \<le> unat h" and "unat h \<le> 2 ^ 24"
  shows "i = mask_index h' (length sl) \<and> sl ! i = None \<and> 1 \<le> unat h' \<and> unat h' < 2 ^ 24"
  using assms
proof (induction sl n h rule: register_scan.induct)
  case (2 sl n h)
  define g where "g = (if h > HANDLE_MASK then 1 else h)"
  have g: "1 \<le> unat g" "unat g < 2 ^ 24"
    using "2.prems" by (auto simp: g_def word_less_nat_alt)
  then have g1: "unat (g + 1) = unat g + 1"
    by (simp add: unat_word_ariths)
  from "2.prems"(1) have step: "(if sl ! mask_index g (length sl) = None
      then Some (g, mask_index g (length sl)) else register_scan sl n (g + 1)) = Some (h', i)"
    by (simp only: register_scan.simps Let_def g_def)
  show ?case
  proof (cases "sl ! mask_index g (length sl) = None")
    case True
    with step g show ?thesis by auto
  next
    case False
    with step have "register_scan sl n (g + 1) = Some (h', i)"
      by simp
    with "2.IH" [OF g_def refl] False g g1 show ?thesis by auto
  qed
qed simp

text \<open>The \<open>j\<close>-th candidate of a scan that starts at \<open>h\<close>: handle 0 is skipped at the wrap.\<close>

definition candidate :: "nat \<Rightarrow> nat \<Rightarrow> nat" where
  "candidate h j = (if h + j < 2 ^ 24 then h + j else h + j + 1 - 2 ^ 24)"

lemma register_scan_None:
  assumes "register_scan sl n h = None" and "unat h \<le> 2 ^ 24" and "n < 2 ^ 24"
    and "length sl = 2 ^ k" and "j < n"
  shows "sl ! (candidate (unat h) j mod 2 ^ k) \<noteq> None"
  using assms
proof (induction sl n h arbitrary: j rule: register_scan.induct)
  case (2 sl n h)
  define g where "g = (if h > HANDLE_MASK then 1 else h)"
  have ug: "unat g = (if unat h < 2 ^ 24 then unat h else 1)"
    using "2.prems"(2) by (auto simp: g_def word_less_nat_alt)
  then have g1: "unat (g + 1) = unat g + 1" "unat g < 2 ^ 24"
    by (auto simp: unat_word_ariths)
  from "2.prems"(1) have full: "sl ! (unat g mod 2 ^ k) \<noteq> None"
    and rest: "register_scan sl n (g + 1) = None"
    using "2.prems"(4) by (auto simp: g_def Let_def mask_index_mod split: if_splits)
  show ?case
  proof (cases j)
    case 0
    have "candidate (unat h) j = unat g"
      using 0 ug "2.prems"(2) by (simp add: candidate_def)
    with full show ?thesis by (simp only: not_False_eq_True)
  next
    case (Suc j')
    have "sl ! (candidate (unat (g + 1)) j' mod 2 ^ k) \<noteq> None"
      using "2.IH" [OF g_def refl] full rest g1 "2.prems" Suc by (simp add: mask_index_mod)
    moreover have "candidate (unat (g + 1)) j' = candidate (unat h) j"
      using "2.prems"(2,3,5) Suc ug g1 by (auto simp: candidate_def)
    ultimately show ?thesis by simp
  qed
qed simp

text \<open>
  A failed scan over the whole table: every slot but slot 0 is taken, and slot 0 too when the
  scan does not cross the end of the handle space.
\<close>

lemma register_scan_full:
  assumes none: "register_scan sl (length sl) h = None" and h: "1 \<le> unat h" "unat h \<le> 2 ^ 24"
    and len: "length sl = 2 ^ k" "2 ^ k < (2 :: nat) ^ 24" and i: "i < length sl"
    and nz: "i \<noteq> 0 \<or> unat h + length sl \<le> 2 ^ 24"
  shows "sl ! i \<noteq> None"
proof -
  define n :: nat where "n = 2 ^ k"
  have k: "k < 24" using len(2) by (rule power_less_imp_less_exp [rotated]) simp
  then have dvd: "n dvd 2 ^ 24" unfolding n_def by (intro le_imp_power_dvd) simp
  have n0: "0 < n" "i < n" using i len by (auto simp: n_def)
  have ex: "\<exists>j<n. candidate (unat h) j mod n = i"
  proof (cases "unat h + n \<le> 2 ^ 24")
    case True
    define j where "j = (i + (n - unat h mod n)) mod n"
    have "j < n" using n0 by (simp add: j_def)
    moreover have "(unat h + j) mod n = i"
    proof -
      have "(unat h + j) mod n = (unat h mod n + (i + (n - unat h mod n))) mod n"
        by (simp add: j_def mod_simps)
      also have "unat h mod n + (i + (n - unat h mod n)) = i + n"
        using mod_less_divisor [OF n0(1), of "unat h"] by linarith
      finally show ?thesis using n0 by simp
    qed
    ultimately show ?thesis using True by (intro exI [of _ j]) (simp add: candidate_def)
  next
    case False
    with nz len have i0: "0 < i" by (simp add: n_def)
    define m where "m = 2 ^ 24 - unat h"
    from False h have m: "m < n" "unat h = 2 ^ 24 - m" "m \<le> 2 ^ 24"
      by (auto simp: m_def)
    show ?thesis
    proof (cases "n - m \<le> i")
      case True
      define j where "j = i - (n - m)"
      have "unat h + j < 2 ^ 24" "j < n" using m n0 True by (auto simp: j_def)
      moreover have "unat h + j = (2 ^ 24 - n) + i"
        using m True n0 dvd_imp_le [OF dvd] by (simp add: j_def)
      moreover have "(2 ^ 24 - n + i) mod n = i"
      proof -
        from dvd have "(2 ^ 24 - n) mod n = 0" by (intro dvd_imp_mod_0 dvd_diff_nat) auto
        then have "(2 ^ 24 - n + i) mod n = (0 + i) mod n" by (metis mod_add_left_eq)
        then show ?thesis using n0 by simp
      qed
      ultimately show ?thesis by (intro exI [of _ j]) (simp add: candidate_def)
    next
      case False
      define j where "j = m + (i - 1)"
      have "candidate (unat h) j = i" "j < n"
        using m False i0 n0 by (auto simp: candidate_def j_def)
      then show ?thesis using n0 by (intro exI [of _ j]) simp
    qed
  qed
  then obtain j where j: "j < n" "candidate (unat h) j mod n = i" by blast
  have "sl ! (candidate (unat h) j mod 2 ^ k) \<noteq> None"
    using none h(2) len j(1) unfolding n_def by (intro register_scan_None [where n = "2 ^ k"]) simp_all
  with j(2) show ?thesis by (simp only: n_def not_False_eq_True)
qed

subsection \<open>Registration\<close>

text \<open>What the invariant says of an occupied slot.\<close>

lemma table_inv_slot:
  assumes "table_inv hof s" and "i < length (hs_slot s)" and "hs_slot s ! i = Some c"
  obtains h where "hof c = Some h" and "mask_index h (length (hs_slot s)) = i"
    and "h AND NOT HANDLE_MASK = hs_harbor s" and "h AND HANDLE_MASK \<noteq> 0"
  using assms by (auto simp: table_inv_def slot_ok_def split: option.splits)

lemma table_inv_size:
  assumes "table_inv hof s"
  obtains k where "length (hs_slot s) = 2 ^ k" and "2 \<le> k" and "k \<le> 24"
  using assms by (auto simp: table_inv_def)

lemma mask_index_bound: "table_inv hof s \<Longrightarrow> mask_index h (length (hs_slot s)) < length (hs_slot s)"
  by (erule table_inv_size) (simp add: mask_index_less)

text \<open>Under the invariant a lookup finds exactly the live contexts of the table.\<close>

lemma slot_lookup_Some_iff:
  assumes "table_inv hof s"
  shows "slot_lookup hof s h = Some c \<longleftrightarrow> Some c \<in> set (hs_slot s) \<and> hof c = Some h"
proof
  assume "slot_lookup hof s h = Some c"
  then show "Some c \<in> set (hs_slot s) \<and> hof c = Some h"
    using mask_index_bound [OF assms, of h]
    by (force simp: slot_lookup_def in_set_conv_nth split: option.splits if_splits)
next
  assume r: "Some c \<in> set (hs_slot s) \<and> hof c = Some h"
  then obtain i where "i < length (hs_slot s)" "hs_slot s ! i = Some c"
    by (auto simp: in_set_conv_nth)
  with assms r have "hs_slot s ! mask_index h (length (hs_slot s)) = Some c"
    by (auto elim: table_inv_slot)
  with r show "slot_lookup hof s h = Some c" by (simp add: slot_lookup_def)
qed

lemma register_place:
  assumes inv: "table_inv hof s"
    and scan: "register_scan (hs_slot s) (length (hs_slot s)) (hs_handle_index s) = Some (g, i)"
    and new: "Some ctx \<notin> set (hs_slot s)"
  defines "h \<equiv> g OR hs_harbor s"
    and "s' \<equiv> s\<lparr>hs_slot := (hs_slot s)[i := Some ctx], hs_handle_index := g + 1\<rparr>"
  shows "table_inv (hof(ctx := Some h)) s'"
    and "slot_lookup (hof(ctx := Some h)) s' = (slot_lookup hof s)(h := Some ctx)"
    and "slot_lookup hof s h = None"
    and "h AND HANDLE_MASK \<noteq> 0" and "h AND NOT HANDLE_MASK = hs_harbor s"
proof -
  obtain k where k: "length (hs_slot s) = 2 ^ k" "2 \<le> k" "k \<le> 24"
    using inv by (rule table_inv_size)
  have idx: "1 \<le> unat (hs_handle_index s)" "unat (hs_handle_index s) \<le> 2 ^ 24"
    and hb: "hs_harbor s AND HANDLE_MASK = 0"
    using inv by (auto simp: table_inv_def)
  from register_scan_Some [OF scan idx] have i: "i = mask_index g (length (hs_slot s))"
    and free: "hs_slot s ! i = None" and g: "1 \<le> unat g" "unat g < 2 ^ 24" by auto
  have hi: "mask_index h (length (hs_slot s)) = i"
    unfolding h_def k(1) i by (rule mask_index_OR_harbor [OF hb k(3)])
  note parts = OR_harbor_parts [OF hb g(2), folded h_def]
  show hm: "h AND HANDLE_MASK \<noteq> 0"
  proof
    assume "h AND HANDLE_MASK = 0"
    with parts(1) g(1) show False by auto
  qed
  show hn: "h AND NOT HANDLE_MASK = hs_harbor s" by (rule parts(2))
  show fresh: "slot_lookup hof s h = None" by (simp add: slot_lookup_def hi free)
  have ib: "i < length (hs_slot s)" using mask_index_bound [OF inv, of h] hi by simp
  have g1: "unat (g + 1) = unat g + 1" using g by (simp add: unat_word_ariths)
  have other: "hs_slot s ! j \<noteq> Some ctx" if "j < length (hs_slot s)" for j
    using new that by (metis nth_mem)
  have "slot_ok (hof(ctx := Some h)) (hs_harbor s) (length (hs_slot s)) j (hs_slot s' ! j)"
    if j: "j < length (hs_slot s)" for j
  proof -
    have "slot_ok hof (hs_harbor s) (length (hs_slot s)) j (hs_slot s ! j)"
      using inv j by (simp add: table_inv_def)
    with other [OF j] hi hn hm ib show ?thesis
      by (cases "j = i") (auto simp: slot_ok_def s'_def split: option.splits)
  qed
  then show inv': "table_inv (hof(ctx := Some h)) s'"
    using inv g g1 by (auto simp: table_inv_def s'_def)
  have rest: "Some c \<in> set (hs_slot s') \<longleftrightarrow> c = ctx \<or> Some c \<in> set (hs_slot s)" for c
  proof -
    have "mset (hs_slot s') = add_mset (Some ctx) (mset (hs_slot s) - {#None#})"
      using ib free by (simp add: s'_def mset_update)
    then have "Some c \<in># mset (hs_slot s') \<longleftrightarrow> Some c \<in># add_mset (Some ctx) (mset (hs_slot s) - {#None#})"
      by simp
    then show ?thesis by (simp add: in_diff_count)
  qed
  show "slot_lookup (hof(ctx := Some h)) s' = (slot_lookup hof s)(h := Some ctx)"
  proof
    fix x
    have "slot_lookup (hof(ctx := Some h)) s' x = Some c
        \<longleftrightarrow> ((slot_lookup hof s)(h := Some ctx)) x = Some c" for c
      using new fresh rest slot_lookup_Some_iff [OF inv, of h]
      by (auto simp: slot_lookup_Some_iff [OF inv'] slot_lookup_Some_iff [OF inv])
    then show "slot_lookup (hof(ctx := Some h)) s' x = ((slot_lookup hof s)(h := Some ctx)) x"
      by (metis not_Some_eq)
  qed
qed

lemma register_rehash_ok:
  assumes "\<forall>c \<in> set cs. hof c = Some (hf c) \<and> mask_index (hf c) (length new) < length new
                     \<and> new ! mask_index (hf c) (length new) = None"
    and "distinct (map (\<lambda>c. mask_index (hf c) (length new)) cs)"
  shows "\<exists>new'. register_rehash hof (map Some cs) new = Some new' \<and> length new' = length new
           \<and> (\<forall>c \<in> set cs. new' ! mask_index (hf c) (length new) = Some c)
           \<and> (\<forall>i. i \<notin> (\<lambda>c. mask_index (hf c) (length new)) ` set cs \<longrightarrow> new' ! i = new ! i)"
  using assms
proof (induction cs arbitrary: new)
  case (Cons c cs)
  let ?ix = "\<lambda>c. mask_index (hf c) (length new)"
  let ?new = "new[?ix c := Some c]"
  from Cons.prems have c: "hof c = Some (hf c)" "?ix c < length new" "new ! ?ix c = None"
    and nin: "?ix c \<notin> ?ix ` set cs" and d: "distinct (map ?ix cs)" by auto
  have "\<forall>c \<in> set cs. hof c = Some (hf c) \<and> mask_index (hf c) (length ?new) < length ?new
          \<and> ?new ! mask_index (hf c) (length ?new) = None"
    using Cons.prems(1) nin by (force simp: nth_list_update)
  with Cons.IH [of ?new] d obtain new' where
    "register_rehash hof (map Some cs) ?new = Some new'" "length new' = length new"
    "\<forall>c \<in> set cs. new' ! ?ix c = Some c" "\<forall>i. i \<notin> ?ix ` set cs \<longrightarrow> new' ! i = ?new ! i"
    by auto
  with c nin show ?case by (auto simp: Let_def)
qed simp

text \<open>
  A full table is doubled: no assertion fails, no NULL slot is read, every lookup gives what
  it gave before, and the next scan succeeds.
\<close>

lemma register_expand:
  assumes inv: "table_inv hof s" and full: "None \<notin> set (hs_slot s)"
    and room: "length (hs_slot s) * 2 < 2 ^ 24"
  shows "\<exists>new. register_rehash hof (hs_slot s) (replicate (length (hs_slot s) * 2) None) = Some new
           \<and> length new = length (hs_slot s) * 2
           \<and> table_inv hof (s\<lparr>hs_slot := new\<rparr>)
           \<and> set new = insert None (set (hs_slot s))
           \<and> (\<exists>i < length new. 0 < i \<and> new ! i = None)"
proof -
  let ?n = "length (hs_slot s)"
  obtain k where k: "?n = 2 ^ k" "2 \<le> k" "k \<le> 24" using inv by (rule table_inv_size)
  have n2: "?n * 2 = 2 ^ Suc k" using k by simp
  define cs where "cs = map the (hs_slot s)"
  define hf where "hf c = the (hof c)" for c
  define ix where "ix c = mask_index (hf c) (?n * 2)" for c
  have slots: "hs_slot s = map Some cs"
    using full by (auto simp: cs_def map_idI [symmetric] o_def intro!: map_idI [symmetric])
       (metis not_None_eq option.sel)
  then have len: "length cs = ?n" by (simp add: cs_def)
  have hf: "hof (cs ! i) = Some (hf (cs ! i)) \<and> mask_index (hf (cs ! i)) ?n = i
      \<and> hf (cs ! i) AND NOT HANDLE_MASK = hs_harbor s \<and> hf (cs ! i) AND HANDLE_MASK \<noteq> 0"
    if "i < ?n" for i
  proof -
    have "hs_slot s ! i = Some (cs ! i)" using that len by (subst slots) simp
    with inv that show ?thesis by (auto elim!: table_inv_slot simp: hf_def)
  qed
  have ix_eq: "ix c = unat (hf c) mod 2 ^ Suc k" for c
    unfolding ix_def n2 by (rule mask_index_mod)
  have n4: "4 \<le> ?n" unfolding k(1) using power_increasing [OF k(2), of "2 :: nat"] by simp
  have ix_mod: "ix (cs ! i) mod ?n = i" if "i < ?n" for i
    using hf [OF that] unfolding ix_eq k(1) mask_index_mod by (simp add: mod_mod_cancel)
  have ix_less: "ix c < ?n * 2" for c
    unfolding ix_eq n2 by simp
  have dist: "distinct (map ix cs)"
    unfolding distinct_conv_nth using len by (auto, metis ix_mod)
  have mem: "\<exists>i < ?n. c = cs ! i" if "c \<in> set cs" for c
    using that len by (metis in_set_conv_nth)
  have hfc: "hof c = Some (hf c) \<and> hf c AND NOT HANDLE_MASK = hs_harbor s
      \<and> hf c AND HANDLE_MASK \<noteq> 0" if "c \<in> set cs" for c
    using mem [OF that] hf by metis
  from register_rehash_ok [of cs hof hf "replicate (?n * 2) None"] dist ix_less mem hf
  obtain new where new: "register_rehash hof (hs_slot s) (replicate (?n * 2) None) = Some new"
    and ln: "length new = ?n * 2" and at: "\<And>c. c \<in> set cs \<Longrightarrow> new ! ix c = Some c"
    and off: "\<And>i. i \<notin> ix ` set cs \<Longrightarrow> i < ?n * 2 \<Longrightarrow> new ! i = None"
    unfolding ix_def [symmetric] length_replicate slots [symmetric] by (metis nth_replicate)
  have shape: "new ! i = None \<or> (\<exists>c \<in> set cs. ix c = i \<and> new ! i = Some c)" if "i < ?n * 2" for i
    using at off [OF _ that] by (cases "i \<in> ix ` set cs") auto
  have inv': "table_inv hof (s\<lparr>hs_slot := new\<rparr>)"
  proof -
    have "(2 :: nat) ^ Suc k < 2 ^ 24" using room unfolding n2 .
    then have "Suc k < 24" by (rule power_less_imp_less_exp [rotated]) simp
    then have "Suc k \<le> 24" by simp
    moreover have "slot_ok hof (hs_harbor s) (?n * 2) i (new ! i)" if "i < ?n * 2" for i
      using shape [OF that] by (auto simp: slot_ok_def hfc ix_def)
    ultimately show ?thesis
      using inv k ln n2 by (auto simp: table_inv_def intro!: bexI [of _ "Suc k"])
  qed
  have gap: "new ! 1 = None \<or> new ! (?n + 1) = None"
  proof (rule ccontr)
    assume "\<not> ?thesis"
    then obtain c d where cd: "c \<in> set cs" "d \<in> set cs" "ix c = 1" "ix d = ?n + 1"
      using shape [of 1] shape [of "?n + 1"] n4 by auto
    then obtain i j where ij: "i < ?n" "j < ?n" "c = cs ! i" "d = cs ! j" using mem by metis
    have "i = 1" using ix_mod [OF ij(1)] ij(3) cd(3) n4 by simp
    moreover have "j = 1" using ix_mod [OF ij(2)] ij(4) cd(4) n4 by (simp add: mod_Suc)
    ultimately show False using ij cd n4 by simp
  qed
  have hole: "\<exists>i < length new. 0 < i \<and> new ! i = None"
    using gap n4 ln by (elim disjE) (auto intro: exI [of _ 1] exI [of _ "?n + 1"])
  show ?thesis
  proof (rule exI [of _ new], intro conjI)
    have "None \<in> set new" using hole by (metis nth_mem)
    moreover have "x \<in> set new \<Longrightarrow> x = None \<or> x \<in> Some ` set cs" for x
      using shape ln unfolding in_set_conv_nth by fastforce
    moreover have "Some c \<in> set new" if "c \<in> set cs" for c
      using at [OF that] ix_less [of c] ln by (metis nth_mem)
    ultimately show "set new = insert None (set (hs_slot s))"
      unfolding slots by auto
  qed (use new ln inv' hole in simp_all)
qed

lemma slot_lookup_cong:
  assumes "table_inv hof s" and "table_inv hof s'"
    and "set (hs_slot s') - {None} = set (hs_slot s) - {None}"
  shows "slot_lookup hof s' = slot_lookup hof s"
proof
  fix h
  have "slot_lookup hof s' h = Some c \<longleftrightarrow> slot_lookup hof s h = Some c" for c
    using assms(3) by (auto simp: slot_lookup_Some_iff assms(1,2))
  then show "slot_lookup hof s' h = slot_lookup hof s h" by (metis not_Some_eq)
qed

lemma register_scan_hole:
  assumes inv: "table_inv hof s" and room: "length (hs_slot s) < 2 ^ 24"
    and hole: "i < length (hs_slot s)" "0 < i" "hs_slot s ! i = None"
  shows "register_scan (hs_slot s) (length (hs_slot s)) (hs_handle_index s) \<noteq> None"
proof
  assume none: "register_scan (hs_slot s) (length (hs_slot s)) (hs_handle_index s) = None"
  obtain k where k: "length (hs_slot s) = 2 ^ k" using inv by (rule table_inv_size)
  have "hs_slot s ! i \<noteq> None"
    using inv hole room none
    by (intro register_scan_full [OF none _ _ k]) (auto simp: table_inv_def k)
  with hole show False by simp
qed

text \<open>The contract of a registration, as a relation between the tables before and after.\<close>

definition registers ::
  "(ptr \<Rightarrow> u32 option) \<Rightarrow> handle_storage \<Rightarrow> ptr \<Rightarrow> u32 \<Rightarrow> handle_storage \<Rightarrow> bool" where
  "registers hof s ctx h s' \<longleftrightarrow>
     table_inv (hof(ctx := Some h)) s'
     \<and> slot_lookup (hof(ctx := Some h)) s' = (slot_lookup hof s)(h := Some ctx)
     \<and> slot_lookup hof s h = None
     \<and> h AND HANDLE_MASK \<noteq> 0 \<and> h AND NOT HANDLE_MASK = hs_harbor s
     \<and> hs_harbor s' = hs_harbor s
     \<and> hs_name s' = hs_name s \<and> hs_name_count s' = hs_name_count s
     \<and> hs_name_cap s' = hs_name_cap s"

lemma register_found:
  assumes inv: "table_inv hof s" and new: "Some ctx \<notin> set (hs_slot s)"
    and scan: "register_scan (hs_slot s) (length (hs_slot s)) (hs_handle_index s) \<noteq> None"
  shows "\<exists>h s'. skynet_handle_register hof s ctx = Some (h, s') \<and> registers hof s ctx h s'"
proof -
  from scan obtain g i where
    gi: "register_scan (hs_slot s) (length (hs_slot s)) (hs_handle_index s) = Some (g, i)" by auto
  from register_place [OF inv gi new] show ?thesis
    by (simp add: skynet_handle_register.simps [of hof s] gi registers_def)
qed

lemma register_ok:
  assumes inv: "table_inv hof s" and new: "Some ctx \<notin> set (hs_slot s)"
    and room: "length (hs_slot s) * 2 < 2 ^ 24"
    and wrap: "hs_slot s ! 0 \<noteq> None \<or> unat (hs_handle_index s) + length (hs_slot s) \<le> 2 ^ 24"
  shows "\<exists>h s'. skynet_handle_register hof s ctx = Some (h, s') \<and> registers hof s ctx h s'"
proof (cases "register_scan (hs_slot s) (length (hs_slot s)) (hs_handle_index s)")
  case (Some a)
  then show ?thesis by (intro register_found [OF inv new]) simp
next
  case None
  obtain k where k: "length (hs_slot s) = 2 ^ k" using inv by (rule table_inv_size)
  have "hs_slot s ! i \<noteq> None" if "i < length (hs_slot s)" for i
    using that wrap
  proof (cases "hs_slot s ! 0 \<noteq> None \<and> i = 0")
    case False
    with that wrap inv room show ?thesis
      by (intro register_scan_full [OF None _ _ k]) (auto simp: table_inv_def k)
  qed simp
  then have "None \<notin> set (hs_slot s)" by (metis in_set_conv_nth)
  from register_expand [OF inv this room] obtain sl where
    sl: "register_rehash hof (hs_slot s) (replicate (length (hs_slot s) * 2) None) = Some sl"
    and len: "length sl = length (hs_slot s) * 2" and inv': "table_inv hof (s\<lparr>hs_slot := sl\<rparr>)"
    and set: "set sl = insert None (set (hs_slot s))"
    and hole: "\<exists>i < length sl. 0 < i \<and> sl ! i = None" by blast
  then obtain i where i: "i < length sl" "0 < i" "sl ! i = None" by blast
  let ?s = "s\<lparr>hs_slot := sl\<rparr>"
  have "register_scan (hs_slot ?s) (length (hs_slot ?s)) (hs_handle_index ?s) \<noteq> None"
    by (rule register_scan_hole [OF inv', of i]) (use i len room in simp_all)
  with new set have "\<exists>h s'. skynet_handle_register hof ?s ctx = Some (h, s') \<and> registers hof ?s ctx h s'"
    by (intro register_found [OF inv']) auto
  moreover have "skynet_handle_register hof s ctx = skynet_handle_register hof ?s ctx"
    using None sl room by (simp add: skynet_handle_register.simps [of hof s] HANDLE_MASK_def)
  moreover have "slot_lookup hof ?s = slot_lookup hof s"
    using set by (intro slot_lookup_cong [OF inv inv']) auto
  ultimately show ?thesis by (auto simp: registers_def)
qed

subsection \<open>Retiring a handle\<close>

lemma retire_names_spec:
  assumes "j \<le> i" and "i + k \<le> length a"
  shows "\<exists>j' a'. retire_names h k i j a = (j', a') \<and> length a' = length a \<and> j' \<le> i + k
           \<and> take j' a' = take j a @ filter (\<lambda>p. map_option hn_handle p \<noteq> Some h) (take k (drop i a))"
  using assms
proof (induction k arbitrary: i j a)
  case (Suc k)
  have cons: "take (Suc k) (drop i a) = a ! i # take k (drop (Suc i) a)"
    using Suc.prems by (simp add: Cons_nth_drop_Suc [symmetric])
  let ?a = "if i \<noteq> j then a[j := a ! i] else a"
  have tl: "drop (Suc i) ?a = drop (Suc i) a" and len: "length ?a = length a"
    using Suc.prems by (auto simp: drop_update_cancel)
  have hd: "take (Suc j) ?a = take j a @ [a ! i]"
    using Suc.prems by (auto simp: take_Suc_conv_app_nth)
  show ?case
  proof (cases "map_option hn_handle (a ! i) = Some h")
    case True
    with Suc.IH [of j "Suc i" a] Suc.prems cons show ?thesis by (auto simp del: map_option_eq_Some)
  next
    case False
    from Suc.IH [of "Suc j" "Suc i" ?a] Suc.prems len obtain j' a' where
      "retire_names h k (Suc i) (Suc j) ?a = (j', a')" "length a' = length a" "j' \<le> Suc i + k"
      "take j' a' = (take j a @ [a ! i])
         @ filter (\<lambda>p. map_option hn_handle p \<noteq> Some h) (take k (drop (Suc i) a))"
      unfolding tl hd by auto
    with False cons show ?thesis by (auto simp del: map_option_eq_Some)
  qed
qed simp

lemma take_names:
  "names_inv s \<Longrightarrow> take (hs_name_count s) (hs_name s) = map Some (names_of s)"
  by (auto simp: names_inv_def names_of_def o_def intro!: map_idI [symmetric])

lemma filter_handle_map_Some:
  "filter (\<lambda>p. map_option hn_handle p \<noteq> Some h) (map Some xs)
     = map Some (filter (\<lambda>e. hn_handle e \<noteq> h) xs)"
  by (induction xs) auto

lemma length_names_of: "names_inv s \<Longrightarrow> length (names_of s) = hs_name_count s"
  by (simp add: names_inv_def names_of_def)

lemma handle_retire_names:
  assumes inv: "names_inv s" and hit: "slot_lookup hof s h = Some c"
  shows "names_of (snd (handle_retire_locked hof s h)) = filter (\<lambda>e. hn_handle e \<noteq> h) (names_of s)"
    and "names_inv (snd (handle_retire_locked hof s h))"
proof -
  let ?n = "hs_name_count s" and ?s = "snd (handle_retire_locked hof s h)"
  have "0 + ?n \<le> length (hs_name s)" using inv by (simp add: names_inv_def)
  from retire_names_spec [OF le0 this, where h = h] obtain j a where
    r: "retire_names h ?n 0 0 (hs_name s) = (j, a)" and len: "length a = length (hs_name s)"
    and j: "j \<le> ?n"
    and take: "take j a = map Some (filter (\<lambda>e. hn_handle e \<noteq> h) (names_of s))"
    by (auto simp: take_names [OF inv] filter_handle_map_Some simp del: map_option_eq_Some)
  have s': "hs_name ?s = a" "hs_name_count ?s = j" "hs_name_cap ?s = hs_name_cap s"
    using hit r by (simp_all add: handle_retire_locked_def)
  show names: "names_of ?s = filter (\<lambda>e. hn_handle e \<noteq> h) (names_of s)"
    unfolding names_of_def [of ?s] s' take by (simp add: o_def)
  have "sorted_wrt (<) (map hn_name (filter (\<lambda>e. hn_handle e \<noteq> h) (names_of s)))"
    using inv by (auto simp: names_inv_def sorted_wrt_map intro: sorted_wrt_filter)
  then show "names_inv ?s"
    using inv s' len j take names by (auto simp: names_inv_def)
qed

lemma handle_retire_table:
  assumes inv: "table_inv hof s" and hit: "slot_lookup hof s h = Some c"
  shows "table_inv hof (snd (handle_retire_locked hof s h))"
    and "slot_lookup hof (snd (handle_retire_locked hof s h)) = (slot_lookup hof s)(h := None)"
    and "Some c \<notin> set (hs_slot (snd (handle_retire_locked hof s h)))"
    and "fst (handle_retire_locked hof s h) = Some c"
proof -
  let ?s = "snd (handle_retire_locked hof s h)" and ?i = "mask_index h (length (hs_slot s))"
  have i: "?i < length (hs_slot s)" using inv by (rule mask_index_bound)
  have at: "hs_slot s ! ?i = Some c" and hc: "hof c = Some h"
    using hit by (auto simp: slot_lookup_def split: option.splits if_splits)
  have slot: "hs_slot ?s = (hs_slot s)[?i := None]"
    and same: "hs_harbor ?s = hs_harbor s" "hs_handle_index ?s = hs_handle_index s"
    using hit by (auto simp: handle_retire_locked_def split: prod.splits)
  show "fst (handle_retire_locked hof s h) = Some c"
    using hit by (auto simp: handle_retire_locked_def split: prod.splits)
  have old: "slot_ok hof (hs_harbor s) (length (hs_slot s)) j (hs_slot s ! j)"
    if "j < length (hs_slot s)" for j using inv that by (simp add: table_inv_def)
  have "slot_ok hof (hs_harbor s) (length (hs_slot s)) j (hs_slot ?s ! j)"
    if "j < length (hs_slot s)" for j
    using old [OF that] that by (cases "j = ?i") (simp_all add: slot slot_ok_def)
  then show inv': "table_inv hof ?s"
    using inv same by (simp add: table_inv_def slot)
  have mem: "Some d \<in> set (hs_slot ?s) \<longleftrightarrow> d \<noteq> c \<and> Some d \<in> set (hs_slot s)" for d
  proof -
    have "Some d \<in> set (hs_slot ?s) \<longleftrightarrow> (\<exists>j < length (hs_slot s). j \<noteq> ?i \<and> hs_slot s ! j = Some d)"
      unfolding slot in_set_conv_nth using i
      by (metis length_list_update nth_list_update_eq nth_list_update_neq option.distinct(1))
    also have "\<dots> \<longleftrightarrow> d \<noteq> c \<and> Some d \<in> set (hs_slot s)"
      unfolding in_set_conv_nth using inv at hc by (metis option.inject table_inv_slot)
    finally show ?thesis .
  qed
  then show "Some c \<notin> set (hs_slot ?s)" by simp
  show "slot_lookup hof ?s = (slot_lookup hof s)(h := None)"
  proof
    fix x
    have uniq: "d = c" if "Some d \<in> set (hs_slot s)" "hof d = Some h" for d
      using slot_lookup_Some_iff [OF inv, of h d] hit that by simp
    have "slot_lookup hof ?s x = Some d \<longleftrightarrow> x \<noteq> h \<and> slot_lookup hof s x = Some d" for d
      unfolding slot_lookup_Some_iff [OF inv] slot_lookup_Some_iff [OF inv'] mem
      using uniq [of d] hc by (cases "x = h") auto
    then show "slot_lookup hof ?s x = ((slot_lookup hof s)(h := None)) x"
      by (metis fun_upd_other fun_upd_same not_Some_eq)
  qed
qed

subsection \<open>Names\<close>

text \<open>The name directory as a partial function, and the value 0 the code returns for an absent name.\<close>

definition name_map :: "handle_storage \<Rightarrow> string \<Rightarrow> u32 option" where
  "name_map s = map_of (map (\<lambda>e. (hn_name e, hn_handle e)) (names_of s))"

lemma name_search_spec:
  assumes "0 \<le> lo" and "hi < int n" and "lo \<le> hi + 1"
    and "\<And>i j. i < j \<Longrightarrow> j < n \<Longrightarrow> hn_name (the (a ! i)) < hn_name (the (a ! j))"
    and "\<And>i. int i < lo \<Longrightarrow> hn_name (the (a ! i)) < key"
    and "\<And>i. hi < int i \<Longrightarrow> i < n \<Longrightarrow> key < hn_name (the (a ! i))"
  shows "case name_search a key lo hi of
           Found m \<Rightarrow> m < n \<and> hn_name (the (a ! m)) = key
         | Absent b \<Rightarrow> 0 \<le> b \<and> b \<le> int n
             \<and> (\<forall>i. int i < b \<longrightarrow> hn_name (the (a ! i)) < key)
             \<and> (\<forall>i < n. b \<le> int i \<longrightarrow> key < hn_name (the (a ! i)))"
  using assms
proof (induction a key lo hi rule: name_search.induct)
  case (1 a key lo hi)
  show ?case
  proof (cases "lo \<le> hi")
    case False
    with "1.prems" show ?thesis by (auto simp: name_search.simps [of a key lo hi])
  next
    case True
    define mid where "mid = (lo + hi) div 2"
    define N where "N = hn_name (the (a ! nat mid))"
    have mid: "lo \<le> mid" "mid \<le> hi" "0 \<le> mid" using True "1.prems"(1) by (auto simp: mid_def)
    then have nm: "nat mid < n" using "1.prems"(2) by simp
    note mono = "1.prems"(4)
    consider "N = key" | "N < key" | "key < N" by (rule linorder_cases)
    then show ?thesis
    proof cases
      case 1
      with True nm show ?thesis by (simp add: name_search.simps [of a key lo hi] mid_def N_def)
    next
      case 2
      then have c: "strcmp (hn_name (the (a ! nat mid))) key \<noteq> 0" "strcmp (hn_name (the (a ! nat mid))) key < 0"
        by (auto simp: N_def)
      have below: "hn_name (the (a ! i)) < key" if "int i < mid + 1" for i
      proof -
        have "i = nat mid \<or> i < nat mid" using that mid by linarith
        then show ?thesis using mono [of i "nat mid"] nm 2 unfolding N_def
          by (auto intro: less_trans)
      qed
      have "name_search a key lo hi = name_search a key (mid + 1) hi"
        using True c by (simp add: name_search.simps [of a key lo hi] mid_def Let_def del: strcmp_less strcmp_eq)
      moreover note "1.IH"(1) [OF True mid_def refl c _ "1.prems"(2) _ mono below "1.prems"(6)]
      ultimately show ?thesis using mid by simp
    next
      case 3
      then have c: "strcmp (hn_name (the (a ! nat mid))) key \<noteq> 0" "\<not> strcmp (hn_name (the (a ! nat mid))) key < 0"
        by (auto simp: N_def)
      have above: "key < hn_name (the (a ! i))" if "mid - 1 < int i" "i < n" for i
      proof -
        have "i = nat mid \<or> nat mid < i" using that mid by linarith
        then show ?thesis using mono [of "nat mid" i] that 3 unfolding N_def
          by (auto intro: less_trans)
      qed
      have "name_search a key lo hi = name_search a key lo (mid - 1)"
        using True c by (simp add: name_search.simps [of a key lo hi] mid_def Let_def del: strcmp_less strcmp_eq)
      moreover note "1.IH"(2) [OF True mid_def refl c "1.prems"(1) _ _ mono "1.prems"(5) above]
      ultimately show ?thesis using mid "1.prems"(2) by simp
    qed
  qed
qed

lemma names_of_nth: "i < hs_name_count s \<Longrightarrow> names_inv s \<Longrightarrow> names_of s ! i = the (hs_name s ! i)"
  by (simp add: names_of_def names_inv_def)

text \<open>The search on the live array: where the name is, or where it has to go.\<close>

lemma name_search_names:
  assumes inv: "names_inv s"
  shows "case name_search (hs_name s) key 0 (int (hs_name_count s) - 1) of
           Found m \<Rightarrow> m < hs_name_count s \<and> hn_name (names_of s ! m) = key
         | Absent b \<Rightarrow> 0 \<le> b \<and> b \<le> int (hs_name_count s)
             \<and> (\<forall>e \<in> set (take (nat b) (names_of s)). hn_name e < key)
             \<and> (\<forall>e \<in> set (drop (nat b) (names_of s)). key < hn_name e)"
proof -
  let ?n = "hs_name_count s"
  have nth: "the (hs_name s ! i) = names_of s ! i" if "i < ?n" for i
    using names_of_nth [OF that inv] by simp
  have len: "length (names_of s) = ?n" using inv by (rule length_names_of)
  have sorted: "hn_name (the (hs_name s ! i)) < hn_name (the (hs_name s ! j))" if "i < j" "j < ?n" for i j
    using inv that len by (simp add: nth names_inv_def sorted_wrt_iff_nth_less)
  have "case name_search (hs_name s) key 0 (int ?n - 1) of
           Found m \<Rightarrow> m < ?n \<and> hn_name (the (hs_name s ! m)) = key
         | Absent b \<Rightarrow> 0 \<le> b \<and> b \<le> int ?n
             \<and> (\<forall>i. int i < b \<longrightarrow> hn_name (the (hs_name s ! i)) < key)
             \<and> (\<forall>i < ?n. b \<le> int i \<longrightarrow> key < hn_name (the (hs_name s ! i)))"
    by (rule name_search_spec) (use sorted in auto)
  then show ?thesis
    by (cases "name_search (hs_name s) key 0 (int ?n - 1)") (auto simp: in_set_conv_nth len nth)
qed

text \<open>\<open>skynet_handle_findname\<close> is the lookup in the directory, 0 for an absent name.\<close>

lemma distinct_names: "names_inv s \<Longrightarrow> distinct (map hn_name (names_of s))"
  by (auto simp: names_inv_def strict_sorted_iff)

lemma name_map_Some_iff:
  "names_inv s \<Longrightarrow>
     name_map s key = Some h \<longleftrightarrow> (\<exists>e \<in> set (names_of s). hn_name e = key \<and> hn_handle e = h)"
  by (auto simp: name_map_def o_def distinct_names)

lemma findname_spec:
  assumes inv: "names_inv s"
  shows "skynet_handle_findname s key = (case name_map s key of None \<Rightarrow> 0 | Some h \<Rightarrow> h)"
proof (cases "name_search (hs_name s) key 0 (int (hs_name_count s) - 1)")
  case (Found m)
  with name_search_names [OF inv, of key] have m: "m < hs_name_count s" "hn_name (names_of s ! m) = key"
    by auto
  let ?e = "names_of s ! m"
  have "?e \<in> set (names_of s)" using m length_names_of [OF inv] by simp
  then have "name_map s key = Some (hn_handle ?e)"
    using m(2) by (auto simp: name_map_Some_iff [OF inv])
  with Found m show ?thesis
    by (simp add: skynet_handle_findname_def names_of_nth [OF m(1) inv])
next
  case (Absent b)
  with name_search_names [OF inv, of key] have
    "\<forall>e \<in> set (take (nat b) (names_of s)) \<union> set (drop (nat b) (names_of s)). hn_name e \<noteq> key" by auto
  then have "\<forall>e \<in> set (names_of s). hn_name e \<noteq> key"
    by (metis append_take_drop_id set_append)
  then have "name_map s key = None" by (auto simp: name_map_def map_of_eq_None_iff)
  with Absent show ?thesis by (simp add: skynet_handle_findname_def)
qed

text \<open>The two array loops of an insertion: copy with a gap, or shift in place.\<close>

lemma length_copy_up [simp]: "length (copy_up k i off src dst) = length dst"
  by (induction k arbitrary: i dst) auto

lemma nth_copy_up:
  "i + off + k \<le> length dst \<Longrightarrow> m < length dst \<Longrightarrow>
     copy_up k i off src dst ! m = (if i + off \<le> m \<and> m < i + off + k then src ! (m - off) else dst ! m)"
  by (induction k arbitrary: i dst) (auto simp: nth_list_update)

lemma length_shift_up [simp]: "length (shift_up k i a) = length a"
  by (induction k arbitrary: i a) auto

lemma nth_shift_up:
  "k \<le> i \<Longrightarrow> i < length a \<Longrightarrow> m < length a \<Longrightarrow>
     shift_up k i a ! m = (if i - k < m \<and> m \<le> i then a ! (m - 1) else a ! m)"
proof (induction k arbitrary: i a)
  case (Suc k)
  then have "shift_up k (i - 1) (a[i := a ! (i - 1)]) ! m =
      (if i - 1 - k < m \<and> m \<le> i - 1 then a[i := a ! (i - 1)] ! (m - 1) else a[i := a ! (i - 1)] ! m)"
    by (intro Suc.IH) auto
  with Suc.prems show ?case by (auto simp: nth_list_update)
qed auto

lemma insert_name_before_spec:
  assumes inv: "names_inv s" and b: "b \<le> hs_name_count s"
    and room: "hs_name_cap s * 2 \<le> MAX_SLOT_SIZE"
  shows "\<exists>s'. insert_name_before s key h b = Some s'
           \<and> length (hs_name s') = hs_name_cap s' \<and> hs_name_cap s \<le> hs_name_cap s'
           \<and> hs_name_count s' = hs_name_count s + 1 \<and> hs_name_count s' \<le> hs_name_cap s'
           \<and> take (hs_name_count s') (hs_name s')
               = map Some (take b (names_of s) @ \<lparr>hn_name = key, hn_handle = h\<rparr> # drop b (names_of s))
           \<and> hs_slot s' = hs_slot s \<and> hs_handle_index s' = hs_handle_index s
           \<and> hs_harbor s' = hs_harbor s"
proof -
  let ?n = "hs_name_count s" and ?e = "\<lparr>hn_name = key, hn_handle = h\<rparr>"
  have lens: "length (hs_name s) = hs_name_cap s" "0 < hs_name_cap s" "?n \<le> hs_name_cap s"
    "length (names_of s) = ?n"
    using inv length_names_of by (auto simp: names_inv_def)
  have old: "hs_name s ! i = Some (names_of s ! i)" if "i < ?n" for i
  proof -
    have "hs_name s ! i = take ?n (hs_name s) ! i" using that by simp
    also have "\<dots> = Some (names_of s ! i)" using that lens by (simp add: take_names [OF inv])
    finally show ?thesis .
  qed
  define grow where "grow \<longleftrightarrow> ?n \<ge> hs_name_cap s"
  define cap where "cap = (if grow then hs_name_cap s * 2 else hs_name_cap s)"
  define name where "name = (if grow
      then copy_up (?n - b) b 1 (hs_name s) (copy_up b 0 0 (hs_name s) (replicate cap None))
      else shift_up (?n - b) ?n (hs_name s))"
  have cap: "?n < cap" using lens by (auto simp: cap_def grow_def)
  have ln: "length name = cap" using lens by (simp add: name_def cap_def)
  have at: "name ! m = (if m < b then hs_name s ! m else hs_name s ! (m - 1))" if "m \<le> ?n" "m \<noteq> b" for m
    using that b cap lens
    by (auto simp: name_def cap_def nth_copy_up nth_shift_up grow_def)
  have "take (?n + 1) (name[b := Some ?e]) = map Some (take b (names_of s) @ ?e # drop b (names_of s))"
  proof (rule nth_equalityI)
    fix i assume "i < length (take (?n + 1) (name[b := Some ?e]))"
    then have i: "i \<le> ?n" using cap ln by simp
    show "take (?n + 1) (name[b := Some ?e]) ! i
        = map Some (take b (names_of s) @ ?e # drop b (names_of s)) ! i"
      using i b cap ln lens at [of i] old
      by (cases "i = b"; cases "i < b") (auto simp: nth_append nth_Cons' min_def)
  qed (use cap ln lens b in simp)
  moreover have "insert_name_before s key h b =
      Some (s\<lparr>hs_name_cap := cap, hs_name := name[b := Some ?e], hs_name_count := ?n + 1\<rparr>)"
    using room by (simp add: insert_name_before_def Let_def cap_def name_def grow_def)
  ultimately show ?thesis using cap ln by (simp add: cap_def)
qed

lemma sorted_insert:
  "sorted_wrt (<) (map f xs @ map f ys) \<Longrightarrow> \<forall>x \<in> set xs. f x < f e \<Longrightarrow> \<forall>y \<in> set ys. f e < f y
     \<Longrightarrow> sorted_wrt (<) (map f (xs @ e # ys) :: 'b :: linorder list)"
  by (auto simp: sorted_wrt_append)

lemma namehandle_spec:
  assumes inv: "names_inv s" and room: "hs_name_cap s * 2 \<le> MAX_SLOT_SIZE"
  shows "case name_map s key of
           Some _ \<Rightarrow> skynet_handle_namehandle s h key = Some (None, s)
         | None \<Rightarrow> (\<exists>s'. skynet_handle_namehandle s h key = Some (Some key, s') \<and> names_inv s'
                     \<and> name_map s' = (name_map s)(key := Some h)
                     \<and> hs_slot s' = hs_slot s \<and> hs_handle_index s' = hs_handle_index s
                     \<and> hs_harbor s' = hs_harbor s)"
proof (cases "name_search (hs_name s) key 0 (int (hs_name_count s) - 1)")
  case (Found m)
  with name_search_names [OF inv, of key] have "m < hs_name_count s" "hn_name (names_of s ! m) = key"
    by auto
  then have "name_map s key = Some (hn_handle (names_of s ! m))"
    using length_names_of [OF inv] by (auto simp: name_map_Some_iff [OF inv])
  with Found show ?thesis by (simp add: skynet_handle_namehandle_def insert_name_def)
next
  case (Absent b)
  let ?e = "\<lparr>hn_name = key, hn_handle = h\<rparr>"
  define xs ys where "xs = take (nat b) (names_of s)" and "ys = drop (nat b) (names_of s)"
  from Absent name_search_names [OF inv, of key] have b: "nat b \<le> hs_name_count s"
    and lo: "\<forall>e \<in> set xs. hn_name e < key" and hi: "\<forall>e \<in> set ys. key < hn_name e"
    by (auto simp: xs_def ys_def)
  have split: "names_of s = xs @ ys" by (simp add: xs_def ys_def)
  from insert_name_before_spec [OF inv b room, of key h] obtain s' where
    ins: "insert_name_before s key h (nat b) = Some s'"
    and shape: "length (hs_name s') = hs_name_cap s'" "hs_name_cap s \<le> hs_name_cap s'"
      "hs_name_count s' \<le> hs_name_cap s'"
    and arr: "take (hs_name_count s') (hs_name s') = map Some (xs @ ?e # ys)"
    and same: "hs_slot s' = hs_slot s" "hs_handle_index s' = hs_handle_index s"
      "hs_harbor s' = hs_harbor s"
    by (auto simp: xs_def ys_def)
  have names: "names_of s' = xs @ ?e # ys" by (simp add: names_of_def arr o_def)
  have "sorted_wrt (<) (map hn_name (xs @ ?e # ys))"
    using inv lo hi by (intro sorted_insert) (auto simp: names_inv_def split)
  then have inv': "names_inv s'"
    using inv shape by (auto simp: names_inv_def arr names)
  have none: "name_map s key = None"
    using lo hi by (auto simp: name_map_def map_of_eq_None_iff split)
  have "name_map s' k = ((name_map s)(key := Some h)) k" for k
  proof -
    have "name_map s' k = Some g \<longleftrightarrow> ((name_map s)(key := Some h)) k = Some g" for g
      using lo hi none by (cases "k = key") (auto simp: name_map_Some_iff inv inv' names split)
    then show ?thesis by (metis not_Some_eq)
  qed
  then have "name_map s' = (name_map s)(key := Some h)" by (rule ext)
  with Absent ins inv' none same show ?thesis
    by (simp add: skynet_handle_namehandle_def insert_name_def)
qed

lemma handle_init_inv:
  "table_inv hof (skynet_handle_init harbor)" "names_inv (skynet_handle_init harbor)"
proof -
  have hb: "hs_harbor (skynet_handle_init harbor) AND HANDLE_MASK = 0"
    by (simp add: skynet_handle_init_def HANDLE_REMOTE_SHIFT_def HANDLE_MASK_mask take_bit_push_bit
        flip: take_bit_eq_mask)
  have sl: "hs_slot (skynet_handle_init harbor) = replicate (2 ^ 2) None"
    by (simp add: skynet_handle_init_def DEFAULT_SLOT_SIZE_def)
  have "hs_handle_index (skynet_handle_init harbor) = 1" by (simp add: skynet_handle_init_def)
  then show "table_inv hof (skynet_handle_init harbor)"
    unfolding table_inv_def sl length_replicate
    by (auto simp: hb slot_ok_def simp del: power_Suc intro!: bexI [of _ 2])
  show "names_inv (skynet_handle_init harbor)"
    by (simp add: names_inv_def skynet_handle_init_def names_of_def)
qed

subsection \<open>Interfaces\<close>

text \<open>
  What the rest of the runtime relies on. A name directory answers lookups and refuses to
  rebind a name; a handle table gives fresh handles and finds exactly the registered ones.
\<close>

locale name_directory =
  fixes find :: "'s \<Rightarrow> string \<Rightarrow> u32"
    and bind_name :: "'s \<Rightarrow> u32 \<Rightarrow> string \<Rightarrow> (string option \<times> 's) option"
    and dir :: "'s \<Rightarrow> string \<Rightarrow> u32 option"
    and inv :: "'s \<Rightarrow> bool"
    and room :: "'s \<Rightarrow> bool"
  assumes find_dir: "inv s \<Longrightarrow> find s key = (case dir s key of None \<Rightarrow> 0 | Some h \<Rightarrow> h)"
    and bind_new: "inv s \<Longrightarrow> room s \<Longrightarrow> dir s key = None \<Longrightarrow>
          \<exists>s'. bind_name s h key = Some (Some key, s') \<and> inv s' \<and> dir s' = (dir s)(key := Some h)"
    and bind_taken: "inv s \<Longrightarrow> room s \<Longrightarrow> dir s key = Some g \<Longrightarrow> bind_name s h key = Some (None, s)"
begin

lemma bind_total: "inv s \<Longrightarrow> room s \<Longrightarrow> \<exists>r s'. bind_name s h key = Some (r, s') \<and> inv s'"
  by (cases "dir s key") (use bind_new bind_taken in blast)+

lemma find_after_bind:
  assumes "inv s" and "room s" and "bind_name s h key = Some (Some r, s')"
  shows "find s' key = h \<and> (\<forall>k. k \<noteq> key \<longrightarrow> find s' k = find s k)"
proof (cases "dir s key")
  case None
  with bind_new [OF assms(1,2) None, of h] assms(3) have "inv s'" "dir s' = (dir s)(key := Some h)" by auto
  then show ?thesis using assms(1) by (simp add: find_dir)
next
  case (Some g)
  with bind_taken [OF assms(1,2) Some, of h] assms(3) show ?thesis by simp
qed

lemma first_binding_wins:
  assumes "inv s" and "room s" and "find s key \<noteq> 0"
  shows "bind_name s h key = Some (None, s)"
  using assms bind_taken by (auto simp: find_dir split: option.splits)

end

interpretation names: name_directory skynet_handle_findname skynet_handle_namehandle name_map
  names_inv "\<lambda>s. hs_name_cap s * 2 \<le> MAX_SLOT_SIZE"
proof (unfold_locales, goal_cases)
  case (1 s key) then show ?case by (rule findname_spec)
next
  case (2 s key h)
  from namehandle_spec [OF 2(1,2), where key = key and h = h] 2(3) show ?case by auto
next
  case (3 s key g h)
  from namehandle_spec [OF 3(1,2), where key = key and h = h] 3(3) show ?case by simp
qed

text \<open>
  The table as \<open>skynet_context_new\<close> and \<open>skynet_handle_retire\<close> use it: the state is the
  storage together with the handles of the live contexts, and a registration ends with the
  assignment \<open>ctx->handle = skynet_handle_register(ctx)\<close>.
\<close>

type_synonym handle_table = "(ptr \<Rightarrow> u32 option) \<times> handle_storage"

definition table_register :: "handle_table \<Rightarrow> ptr \<Rightarrow> (u32 \<times> handle_table) option" where
  "table_register t ctx =
     map_option (\<lambda>(h, s'). (h, ((fst t)(ctx := Some h), s')))
       (skynet_handle_register (fst t) (snd t) ctx)"

definition table_retire :: "handle_table \<Rightarrow> u32 \<Rightarrow> ptr option \<times> handle_table" where
  "table_retire t h =
     (let (c, s') = handle_retire_locked (fst t) (snd t) h in (c, (fst t, s')))"

definition table_ready :: "handle_table \<Rightarrow> ptr \<Rightarrow> bool" where
  "table_ready t ctx \<longleftrightarrow>
     Some ctx \<notin> set (hs_slot (snd t)) \<and> length (hs_slot (snd t)) * 2 < 2 ^ 24
     \<and> (hs_slot (snd t) ! 0 \<noteq> None
        \<or> unat (hs_handle_index (snd t)) + length (hs_slot (snd t)) \<le> 2 ^ 24)"

locale handle_registry =
  fixes lookup :: "'t \<Rightarrow> u32 \<Rightarrow> ptr option"
    and register :: "'t \<Rightarrow> ptr \<Rightarrow> (u32 \<times> 't) option"
    and retire :: "'t \<Rightarrow> u32 \<Rightarrow> ptr option \<times> 't"
    and inv :: "'t \<Rightarrow> bool"
    and ready :: "'t \<Rightarrow> ptr \<Rightarrow> bool"
  assumes register_new: "inv t \<Longrightarrow> ready t c \<Longrightarrow>
          \<exists>h t'. register t c = Some (h, t') \<and> inv t' \<and> lookup t h = None
                 \<and> lookup t' = (lookup t)(h := Some c)"
    and retire_hit: "inv t \<Longrightarrow> lookup t h = Some c \<Longrightarrow>
          fst (retire t h) = Some c \<and> inv (snd (retire t h))
          \<and> lookup (snd (retire t h)) = (lookup t)(h := None)"
    and retire_miss: "inv t \<Longrightarrow> lookup t h = None \<Longrightarrow> retire t h = (None, t)"
    and lookup_inj: "inv t \<Longrightarrow> lookup t g = Some c \<Longrightarrow> lookup t h = Some c \<Longrightarrow> g = h"
begin

lemma register_retire_restores:
  assumes "inv t" and "ready t c"
  shows "\<exists>h t'. register t c = Some (h, t') \<and> fst (retire t' h) = Some c
           \<and> lookup (snd (retire t' h)) = lookup t"
proof -
  from register_new [OF assms] obtain h t' where r: "register t c = Some (h, t')" "inv t'"
    "lookup t h = None" "lookup t' = (lookup t)(h := Some c)" by blast
  moreover from r retire_hit [of t' h c] have "fst (retire t' h) = Some c"
    "lookup (snd (retire t' h)) = (lookup t')(h := None)" by auto
  ultimately show ?thesis by (auto simp: fun_upd_idem)
qed

lemma retire_twice:
  assumes "inv t"
  shows "fst (retire (snd (retire t h)) h) = None"
proof (cases "lookup t h")
  case None
  with assms show ?thesis by (simp add: retire_miss)
next
  case (Some c)
  with retire_hit [OF assms Some] have "inv (snd (retire t h))" "lookup (snd (retire t h)) h = None" by auto
  then show ?thesis by (simp add: retire_miss)
qed

lemma registered_handles_distinct:
  assumes "inv t" and "ready t c" and "register t c = Some (g, t')" and "lookup t h = Some d"
  shows "g \<noteq> h"
  using register_new [OF assms(1,2)] assms(3,4) by auto

end

interpretation registry: handle_registry "\<lambda>t. slot_lookup (fst t) (snd t)" table_register
  table_retire "\<lambda>t. table_inv (fst t) (snd t)" table_ready
proof (unfold_locales, goal_cases)
  case (1 t c)
  then show ?case
    using register_ok [of "fst t" "snd t" c]
    by (auto simp: table_ready_def table_register_def registers_def)
next
  case (2 t h c)
  then show ?case
    using handle_retire_table [of "fst t" "snd t" h c]
    by (simp add: table_retire_def case_prod_beta Let_def)
next
  case (3 t h)
  then show ?case by (cases t) (simp add: table_retire_def handle_retire_locked_def)
next
  case (4 t g c h)
  then show ?case by (simp add: slot_lookup_Some_iff)
qed

subsection \<open>Properties of the handle registry\<close>

lemma register_step_found:
  "register_scan (hs_slot s) (length (hs_slot s)) (hs_handle_index s) = Some (g, i) \<Longrightarrow>
   skynet_handle_register hof s ctx =
     Some (g OR hs_harbor s, s\<lparr>hs_slot := (hs_slot s)[i := Some ctx], hs_handle_index := g + 1\<rparr>)"
  by (simp add: skynet_handle_register.simps [of hof s])

lemma register_step_full:
  "register_scan (hs_slot s) (length (hs_slot s)) (hs_handle_index s) = None \<Longrightarrow>
   length (hs_slot s) * 2 \<le> 2 ^ 24 \<Longrightarrow>
   skynet_handle_register hof s ctx =
     Option.bind (register_rehash hof (hs_slot s) (replicate (length (hs_slot s) * 2) None))
       (\<lambda>new_slot. skynet_handle_register hof (s\<lparr>hs_slot := new_slot\<rparr>) ctx)"
  by (simp add: skynet_handle_register.simps [of hof s] HANDLE_MASK_def)

text \<open>
  C1. Registration succeeds and is sound. In a well-formed table with room to grow, and
  unless the scan crosses the end of the handle space with slot 0 free,
  \<open>skynet_handle_register\<close> returns (its loop ends, no assertion fails, no NULL slot is
  read) a handle that was not in use, that is not 0 in its low 24 bits and carries the harbor
  bits; afterwards that handle finds the context and every other handle finds what it found
  before, also when the table was doubled.
\<close>

theorem handle_register_fresh:
  assumes "table_inv hof s" and "Some ctx \<notin> set (hs_slot s)"
    and "length (hs_slot s) * 2 < 2 ^ 24"
    and "hs_slot s ! 0 \<noteq> None \<or> unat (hs_handle_index s) + length (hs_slot s) \<le> 2 ^ 24"
  shows "\<exists>h s'. skynet_handle_register hof s ctx = Some (h, s')
           \<and> slot_lookup hof s h = None
           \<and> h AND HANDLE_MASK \<noteq> 0 \<and> h AND NOT HANDLE_MASK = hs_harbor s
           \<and> slot_lookup (hof(ctx := Some h)) s' = (slot_lookup hof s)(h := Some ctx)
           \<and> table_inv (hof(ctx := Some h)) s' \<and> names_of s' = names_of s"
  using register_ok [OF assms] by (auto simp: registers_def names_of_def)

theorem handle_register_fresh_witness:
  "\<exists>h s'. skynet_handle_register (\<lambda>_. None) (skynet_handle_init 1) 7 = Some (h, s')
     \<and> slot_lookup ((\<lambda>_. None)(7 := Some h)) s' h = Some 7 \<and> h AND NOT HANDLE_MASK = 0x01000000"
proof -
  have "Some 7 \<notin> set (hs_slot (skynet_handle_init 1))"
    "length (hs_slot (skynet_handle_init 1)) * 2 < 2 ^ 24"
    "unat (hs_handle_index (skynet_handle_init 1)) + length (hs_slot (skynet_handle_init 1)) \<le> 2 ^ 24"
    by (simp_all add: skynet_handle_init_def DEFAULT_SLOT_SIZE_def)
  moreover have "hs_harbor (skynet_handle_init 1) = 0x01000000"
    by (simp add: skynet_handle_init_def HANDLE_REMOTE_SHIFT_def)
  ultimately show ?thesis
    using handle_register_fresh [OF handle_init_inv(1) [of "\<lambda>_. None" 1], of 7] by auto
qed

text \<open>
  C2. Retiring a handle. A registered handle is removed with its context and with exactly the
  names bound to it, everything else stays, and a second retirement of it finds nothing.
\<close>

theorem handle_retire_exact:
  assumes "table_inv hof s" and "names_inv s" and "slot_lookup hof s h = Some c"
  shows "\<exists>s'. handle_retire_locked hof s h = (Some c, s')
           \<and> table_inv hof s' \<and> names_inv s'
           \<and> slot_lookup hof s' = (slot_lookup hof s)(h := None)
           \<and> names_of s' = filter (\<lambda>e. hn_handle e \<noteq> h) (names_of s)
           \<and> fst (handle_retire_locked hof s' h) = None"
proof -
  let ?s = "snd (handle_retire_locked hof s h)"
  note t = handle_retire_table [OF assms(1,3)]
  have "fst (handle_retire_locked hof ?s h) = None"
    using t(2) by (simp add: handle_retire_locked_def [of hof ?s])
  with t handle_retire_names [OF assms(2,3)] show ?thesis
    by (intro exI [of _ ?s]) (simp add: prod_eq_iff)
qed

definition demo_storage :: handle_storage where
  "demo_storage = (skynet_handle_init 1)\<lparr>hs_slot := [None, Some 7, None, None], hs_handle_index := 2,
     hs_name_count := 2,
     hs_name := [Some \<lparr>hn_name = ''a'', hn_handle = 0x01000001\<rparr>,
                 Some \<lparr>hn_name = ''b'', hn_handle = 0x01000002\<rparr>]\<rparr>"

definition wrap_storage :: handle_storage where
  "wrap_storage = (skynet_handle_init 0)\<lparr>hs_slot := [None, Some 11, Some 12, Some 13],
     hs_handle_index := 0xfffffe\<rparr>"

definition race_storage :: handle_storage where
  "race_storage = (skynet_handle_init 0)\<lparr>hs_slot := [None, Some 11, Some 12, Some 13],
     hs_handle_index := 4\<rparr>"

lemma demo_names: "names_of demo_storage = [\<lparr>hn_name = ''a'', hn_handle = 0x01000001\<rparr>,
    \<lparr>hn_name = ''b'', hn_handle = 0x01000002\<rparr>]"
  by (simp add: names_of_def demo_storage_def)

lemma demo_storage_inv: "table_inv [7 \<mapsto> 0x01000001] demo_storage" "names_inv demo_storage"
proof -
  have "\<forall>i < 4. slot_ok [7 \<mapsto> 0x01000001] 0x01000000 4 i (hs_slot demo_storage ! i)"
    by (simp add: all_less_4 demo_storage_def slot_ok_def mask_index_def HANDLE_MASK_def)
  moreover have "length (hs_slot demo_storage) = 4" "hs_harbor demo_storage = 0x01000000"
    "hs_handle_index demo_storage = 2"
    by (simp_all add: demo_storage_def skynet_handle_init_def HANDLE_REMOTE_SHIFT_def)
  ultimately show "table_inv [7 \<mapsto> 0x01000001] demo_storage"
    by (auto simp: table_inv_def HANDLE_MASK_def intro!: bexI [of _ 2])
  show "names_inv demo_storage"
    by (simp add: names_inv_def demo_storage_def skynet_handle_init_def names_of_def less_char_def)
qed

theorem handle_retire_exact_witness:
  "\<exists>s'. handle_retire_locked [7 \<mapsto> 0x01000001] demo_storage 0x01000001 = (Some 7, s')
     \<and> map hn_name (names_of s') = [''b'']"
proof -
  have "slot_lookup [7 \<mapsto> 0x01000001] demo_storage 0x01000001 = Some 7"
    by (simp add: slot_lookup_def demo_storage_def mask_index_def)
  from handle_retire_exact [OF demo_storage_inv this] show ?thesis
    by (auto simp: demo_names)
qed

text \<open>
  C3. \<open>skynet_handle_findname\<close>: the binary search over the name array is the lookup in
  the directory of names, and returns 0 exactly where no entry is.
\<close>

theorem findname_is_lookup:
  assumes "names_inv s"
  shows "skynet_handle_findname s key = (case name_map s key of None \<Rightarrow> 0 | Some h \<Rightarrow> h)"
  by (rule names.find_dir [OF assms])

theorem findname_is_lookup_witness:
  "skynet_handle_findname demo_storage ''b'' = 0x01000002
   \<and> skynet_handle_findname demo_storage ''zz'' = 0"
  using findname_is_lookup [OF demo_storage_inv(2), of "''b''"]
    findname_is_lookup [OF demo_storage_inv(2), of "''zz''"]
  by (simp add: name_map_def demo_names)

text \<open>
  C4. \<open>skynet_handle_namehandle\<close>: a new name is inserted so that it is found, every other
  name keeps its handle, the array stays sorted and initialised (also when it is
  reallocated); a name that is taken is refused and nothing changes.
\<close>

theorem namehandle_inserts:
  assumes "names_inv s" and "hs_name_cap s * 2 \<le> MAX_SLOT_SIZE"
  shows "\<exists>r s'. skynet_handle_namehandle s h key = Some (r, s') \<and> names_inv s'
           \<and> (if name_map s key = None
              then r = Some key \<and> name_map s' = (name_map s)(key := Some h)
              else r = None \<and> s' = s)
           \<and> hs_slot s' = hs_slot s \<and> hs_handle_index s' = hs_handle_index s"
  using namehandle_spec [OF assms, where key = key and h = h] assms(1) by (auto split: option.splits)

theorem namehandle_inserts_witness:
  "(\<exists>s'. skynet_handle_namehandle demo_storage 5 ''aa'' = Some (Some ''aa'', s')
        \<and> name_map s' ''aa'' = Some 5 \<and> name_map s' ''b'' = Some 0x01000002)
   \<and> skynet_handle_namehandle demo_storage 5 ''b'' = Some (None, demo_storage)"
proof -
  have "hs_name_cap demo_storage * 2 \<le> MAX_SLOT_SIZE"
    by (simp add: demo_storage_def skynet_handle_init_def MAX_SLOT_SIZE_def)
  note w = namehandle_inserts [OF demo_storage_inv(2) this]
  show ?thesis using w [of 5 "''aa''"] w [of 5 "''b''"] by (auto simp: name_map_def [of demo_storage] demo_names)
qed



end
