(* ===== verification/Skynet_MQ.thy ===== *)
theory Skynet_MQ
  imports Skynet_Prelude
begin

text \<open>
  The message queues of \<^verbatim>\<open>skynet-src/skynet_mq.c\<close>: one ring buffer of messages per
  service, and the global queue, a linked list of the message queues that wait for a worker.

  A queue lives at an address of the store \<open>mqs\<close>; \<open>next\<close>, \<open>head\<close> and
  \<open>tail\<close> of the global list are such addresses. A cell \<open>None\<close> of the ring is
  uninitialised memory. The flags \<open>release\<close> and \<open>in_global\<close> hold 0 or 1 only and
  are booleans. Each operation is the body of its spin-locked section, one atomic step;
  \<open>None\<close> is a failed assertion, a dead queue or a read of an uninitialised cell.
\<close>

subsection \<open>Data\<close>

record skynet_message =
  msg_source :: u32
  msg_session :: cint
  msg_data :: "ptr option"
  msg_sz :: size_t

record message_queue =
  mq_handle :: u32
  mq_cap :: nat
  mq_head :: nat
  mq_tail :: nat
  mq_release :: bool
  mq_in_global :: bool
  mq_overload :: int
  mq_overload_threshold :: int
  mq_queue :: "skynet_message option list"
  mq_next :: "ptr option"

record mq_state =
  mqs :: "ptr \<Rightarrow> message_queue option"
  gq_head :: "ptr option"
  gq_tail :: "ptr option"

definition DEFAULT_QUEUE_SIZE :: nat where
  "DEFAULT_QUEUE_SIZE = 64"

definition MQ_OVERLOAD :: int where
  "MQ_OVERLOAD = 1024"

definition MESSAGE_TYPE_SHIFT :: nat where
  "MESSAGE_TYPE_SHIFT = 56"

definition MESSAGE_TYPE_MASK :: size_t where
  "MESSAGE_TYPE_MASK = drop_bit 8 (- 1)"

subsection \<open>The global queue\<close>

definition skynet_mq_init :: "mq_state \<Rightarrow> mq_state" where
  "skynet_mq_init st = st\<lparr>gq_head := None, gq_tail := None\<rparr>"

definition skynet_globalmq_push :: "mq_state \<Rightarrow> ptr \<Rightarrow> mq_state option" where
  "skynet_globalmq_push st p = do {
     q \<leftarrow> mqs st p;
     if mq_next q \<noteq> None then None
     else (case gq_tail st of
             Some t \<Rightarrow> do {
               tq \<leftarrow> mqs st t;
               Some (st\<lparr>mqs := (mqs st)(t \<mapsto> tq\<lparr>mq_next := Some p\<rparr>), gq_tail := Some p\<rparr>) }
           | None \<Rightarrow> Some (st\<lparr>gq_head := Some p, gq_tail := Some p\<rparr>)) }"

definition skynet_globalmq_pop :: "mq_state \<Rightarrow> (ptr option \<times> mq_state) option" where
  "skynet_globalmq_pop st =
     (case gq_head st of
        None \<Rightarrow> Some (None, st)
      | Some p \<Rightarrow> do {
          q \<leftarrow> mqs st p;
          if mq_next q = None \<and> gq_tail st \<noteq> Some p then None
          else Some (Some p,
                 st\<lparr>gq_head := mq_next q,
                    gq_tail := (if mq_next q = None then None else gq_tail st),
                    mqs := (mqs st)(p \<mapsto> q\<lparr>mq_next := None\<rparr>)\<rparr>) })"

subsection \<open>One message queue\<close>

definition skynet_mq_create :: "u32 \<Rightarrow> message_queue" where
  "skynet_mq_create handle =
     \<lparr>mq_handle = handle, mq_cap = DEFAULT_QUEUE_SIZE, mq_head = 0, mq_tail = 0,
      mq_release = False, mq_in_global = True, mq_overload = 0,
      mq_overload_threshold = MQ_OVERLOAD,
      mq_queue = replicate DEFAULT_QUEUE_SIZE None, mq_next = None\<rparr>"

definition mq_length :: "message_queue \<Rightarrow> int" where
  "mq_length q =
     (if mq_head q \<le> mq_tail q then int (mq_tail q) - int (mq_head q)
      else int (mq_tail q) + int (mq_cap q) - int (mq_head q))"

definition mq_take_overload :: "message_queue \<Rightarrow> int \<times> message_queue" where
  "mq_take_overload q =
     (if mq_overload q \<noteq> 0 then (mq_overload q, q\<lparr>mq_overload := 0\<rparr>) else (0, q))"

text \<open>The loop that doubles the threshold until the length is below it.\<close>

partial_function (option) overload_loop :: "int \<Rightarrow> int \<Rightarrow> int \<Rightarrow> (int \<times> int) option" where
  "overload_loop len overload threshold =
     (if len > threshold then overload_loop len len (threshold * 2)
      else Some (overload, threshold))"

text \<open>\<open>skynet_mq_pop\<close>: the message, or no message when the C function returns 1.\<close>

definition mq_pop :: "message_queue \<Rightarrow> (skynet_message option \<times> message_queue) option" where
  "mq_pop q =
     (if mq_head q \<noteq> mq_tail q then do {
        message \<leftarrow> mq_queue q ! mq_head q;
        let head = (if mq_head q + 1 \<ge> mq_cap q then 0 else mq_head q + 1);
        let length = int (mq_tail q) - int head;
        let length = (if length < 0 then length + int (mq_cap q) else length);
        (overload, threshold) \<leftarrow> overload_loop length (mq_overload q) (mq_overload_threshold q);
        Some (Some message,
              q\<lparr>mq_head := head, mq_overload := overload, mq_overload_threshold := threshold\<rparr>) }
      else Some (None, q\<lparr>mq_overload_threshold := MQ_OVERLOAD, mq_in_global := False\<rparr>))"

definition expand_queue :: "message_queue \<Rightarrow> message_queue" where
  "expand_queue q =
     q\<lparr>mq_queue := map (\<lambda>i. mq_queue q ! ((mq_head q + i) mod mq_cap q)) [0..<mq_cap q]
                  @ replicate (mq_cap q) None,
       mq_head := 0, mq_tail := mq_cap q, mq_cap := mq_cap q * 2\<rparr>"

text \<open>The part of \<open>skynet_mq_push\<close> that stores the message in the ring.\<close>

definition mq_store :: "message_queue \<Rightarrow> skynet_message \<Rightarrow> message_queue" where
  "mq_store q message =
     (let q = q\<lparr>mq_queue := (mq_queue q)[mq_tail q := Some message],
                mq_tail := (if mq_tail q + 1 \<ge> mq_cap q then 0 else mq_tail q + 1)\<rparr>
      in if mq_head q = mq_tail q then expand_queue q else q)"

subsection \<open>Operations on a queue of the store\<close>

definition skynet_mq_push :: "mq_state \<Rightarrow> ptr \<Rightarrow> skynet_message \<Rightarrow> mq_state option" where
  "skynet_mq_push st p message = do {
     q \<leftarrow> mqs st p;
     let q = mq_store q message;
     if \<not> mq_in_global q
     then skynet_globalmq_push (st\<lparr>mqs := (mqs st)(p \<mapsto> q\<lparr>mq_in_global := True\<rparr>)\<rparr>) p
     else Some (st\<lparr>mqs := (mqs st)(p \<mapsto> q)\<rparr>) }"

definition skynet_mq_pop :: "mq_state \<Rightarrow> ptr \<Rightarrow> (skynet_message option \<times> mq_state) option" where
  "skynet_mq_pop st p = do {
     q \<leftarrow> mqs st p;
     (m, q) \<leftarrow> mq_pop q;
     Some (m, st\<lparr>mqs := (mqs st)(p \<mapsto> q)\<rparr>) }"

definition skynet_mq_length :: "mq_state \<Rightarrow> ptr \<Rightarrow> int option" where
  "skynet_mq_length st p = map_option mq_length (mqs st p)"

definition skynet_mq_overload :: "mq_state \<Rightarrow> ptr \<Rightarrow> (int \<times> mq_state) option" where
  "skynet_mq_overload st p = do {
     q \<leftarrow> mqs st p;
     let (n, q) = mq_take_overload q;
     Some (n, st\<lparr>mqs := (mqs st)(p \<mapsto> q)\<rparr>) }"

definition skynet_mq_handle :: "mq_state \<Rightarrow> ptr \<Rightarrow> u32 option" where
  "skynet_mq_handle st p = map_option mq_handle (mqs st p)"

definition skynet_mq_mark_release :: "mq_state \<Rightarrow> ptr \<Rightarrow> mq_state option" where
  "skynet_mq_mark_release st p = do {
     q \<leftarrow> mqs st p;
     if mq_release q then None
     else (let st = st\<lparr>mqs := (mqs st)(p \<mapsto> q\<lparr>mq_release := True\<rparr>)\<rparr>
           in if \<not> mq_in_global q then skynet_globalmq_push st p else Some st) }"

text \<open>\<open>_release\<close>: the queue must not be in the global list; it is freed.\<close>

definition mq_free :: "mq_state \<Rightarrow> ptr \<Rightarrow> mq_state option" where
  "mq_free st p = do {
     q \<leftarrow> mqs st p;
     if mq_next q \<noteq> None then None else Some (st\<lparr>mqs := (mqs st)(p := None)\<rparr>) }"

subsection \<open>The ring buffer as a list\<close>

definition mq_cells :: "message_queue \<Rightarrow> skynet_message option list" where
  "mq_cells q =
     (if mq_head q \<le> mq_tail q then drop (mq_head q) (take (mq_tail q) (mq_queue q))
      else drop (mq_head q) (mq_queue q) @ take (mq_tail q) (mq_queue q))"

definition mq_list :: "message_queue \<Rightarrow> skynet_message list" where
  "mq_list q = map the (mq_cells q)"

definition mq_inv :: "message_queue \<Rightarrow> bool" where
  "mq_inv q \<longleftrightarrow> length (mq_queue q) = mq_cap q \<and> mq_head q < mq_cap q \<and> mq_tail q < mq_cap q
     \<and> 0 < mq_overload_threshold q \<and> None \<notin> set (mq_cells q)"

lemma mq_create_inv [sk_inv]: "mq_inv (skynet_mq_create h)" "mq_list (skynet_mq_create h) = []"
  by (simp_all add: mq_inv_def mq_list_def mq_cells_def skynet_mq_create_def DEFAULT_QUEUE_SIZE_def MQ_OVERLOAD_def)

lemma mq_length_list: "mq_inv q \<Longrightarrow> mq_length q = int (length (mq_list q))"
  by (auto simp: mq_length_def mq_list_def mq_cells_def mq_inv_def)

lemma expand_cells:
  assumes "mq_head q < length xs" and "length xs = n"
  shows "map (\<lambda>i. xs ! ((mq_head q + i) mod n)) [0..<n] = drop (mq_head q) xs @ take (mq_head q) xs"
proof -
  have "map (\<lambda>i. xs ! ((mq_head q + i) mod n)) [0..<n] = rotate (mq_head q) xs"
    using assms by (intro nth_equalityI) (auto simp: nth_rotate add.commute)
  then show ?thesis using assms by (simp add: rotate_drop_take)
qed

lemma mq_store_cells:
  assumes "mq_inv q"
  shows "mq_cells (mq_store q m) = mq_cells q @ [Some m]"
proof -
  let ?h = "mq_head q" and ?t = "mq_tail q" and ?xs = "mq_queue q"
  have b: "length ?xs = mq_cap q" "?h < length ?xs" "?t < length ?xs"
    using assms by (auto simp: mq_inv_def)
  have up: "take (Suc ?t) (?xs[?t := Some m]) = take ?t ?xs @ [Some m]"
    using b by (simp add: take_Suc_conv_app_nth)
  show ?thesis
  proof (cases "?h \<le> ?t")
    case True
    then have old: "mq_cells q @ [Some m] = drop ?h (take (Suc ?t) (?xs[?t := Some m]))"
      using b up by (simp add: mq_cells_def)
    show ?thesis
    proof (cases "Suc ?t < mq_cap q")
      case True
      with \<open>?h \<le> ?t\<close> old show ?thesis by (simp add: mq_store_def mq_cells_def)
    next
      case False
      then have "take (Suc ?t) (?xs[?t := Some m]) = ?xs[?t := Some m]" using b by simp
      with False old b \<open>?h \<le> ?t\<close> expand_cells [of q "?xs[?t := Some m]" "mq_cap q"] show ?thesis
        by (auto simp: mq_store_def mq_cells_def expand_queue_def Let_def)
    qed
  next
    case False
    then have dr: "drop ?h (?xs[?t := Some m]) = drop ?h ?xs" by simp
    have old: "mq_cells q @ [Some m] = drop ?h (?xs[?t := Some m]) @ take (Suc ?t) (?xs[?t := Some m])"
      using False up dr by (simp add: mq_cells_def)
    have "Suc ?t < mq_cap q" using False b by simp
    with old False b expand_cells [of q "?xs[?t := Some m]" "mq_cap q"] show ?thesis
      by (auto simp: mq_store_def mq_cells_def expand_queue_def Let_def)
  qed
qed

lemma mq_store_ok:
  assumes "mq_inv q"
  shows "mq_inv (mq_store q m)" and "mq_list (mq_store q m) = mq_list q @ [m]"
proof -
  show "mq_list (mq_store q m) = mq_list q @ [m]"
    by (simp add: mq_list_def mq_store_cells [OF assms])
  show "mq_inv (mq_store q m)"
    using assms mq_store_cells [OF assms, of m]
    by (auto simp: mq_inv_def mq_store_def expand_queue_def Let_def)
qed

lemma overload_loop_total:
  "0 < threshold \<Longrightarrow> \<exists>o' t'. overload_loop len ov threshold = Some (o', t') \<and> 0 < t' \<and> len \<le> t'
     \<and> (o' = ov \<or> o' = len)"
proof (induction "nat (len - threshold)" arbitrary: ov threshold rule: less_induct)
  case less
  show ?case
  proof (cases "len > threshold")
    case True
    with less.prems have "nat (len - threshold * 2) < nat (len - threshold)" by simp
    from less.hyps [OF this, of len] less.prems True show ?thesis
      unfolding overload_loop.simps [of len ov] by auto
  qed (use less.prems in \<open>simp add: overload_loop.simps [of len ov]\<close>)
qed

text \<open>Fields that do not affect the contents.\<close>

lemma mq_cells_flags [simp]:
  "mq_cells (q\<lparr>mq_overload_threshold := t\<rparr>) = mq_cells q"
  "mq_cells (q\<lparr>mq_in_global := g\<rparr>) = mq_cells q" "mq_cells (q\<lparr>mq_release := r\<rparr>) = mq_cells q"
  "mq_cells (q\<lparr>mq_next := n\<rparr>) = mq_cells q" "mq_cells (q\<lparr>mq_overload := v\<rparr>) = mq_cells q"
  by (simp_all add: mq_cells_def)

lemma mq_flags [simp]:
  "mq_inv (q\<lparr>mq_in_global := g\<rparr>) = mq_inv q" "mq_inv (q\<lparr>mq_release := r\<rparr>) = mq_inv q"
  "mq_inv (q\<lparr>mq_next := n\<rparr>) = mq_inv q" "mq_inv (q\<lparr>mq_overload := v\<rparr>) = mq_inv q"
  "mq_list (q\<lparr>mq_in_global := g\<rparr>) = mq_list q" "mq_list (q\<lparr>mq_release := r\<rparr>) = mq_list q"
  "mq_list (q\<lparr>mq_next := n\<rparr>) = mq_list q" "mq_list (q\<lparr>mq_overload := v\<rparr>) = mq_list q"
  by (simp_all add: mq_inv_def mq_list_def)

lemma mq_store_flags [simp]:
  "mq_handle (mq_store q m) = mq_handle q" "mq_release (mq_store q m) = mq_release q"
  "mq_in_global (mq_store q m) = mq_in_global q" "mq_next (mq_store q m) = mq_next q"
  by (simp_all add: mq_store_def expand_queue_def Let_def)

lemma mq_pop_empty:
  "mq_inv q \<Longrightarrow> mq_list q = [] \<Longrightarrow>
     mq_pop q = Some (None, q\<lparr>mq_overload_threshold := MQ_OVERLOAD, mq_in_global := False\<rparr>)"
  by (auto simp: mq_pop_def mq_list_def mq_cells_def mq_inv_def split: if_splits)

lemma mq_cells_Cons:
  assumes "mq_inv q" and "mq_head q \<noteq> mq_tail q"
  shows "mq_cells q = mq_queue q ! mq_head q
           # mq_cells (q\<lparr>mq_head := if mq_head q + 1 \<ge> mq_cap q then 0 else mq_head q + 1\<rparr>)"
proof -
  let ?h = "mq_head q" and ?t = "mq_tail q" and ?xs = "mq_queue q"
  have b: "length ?xs = mq_cap q" "?h < length ?xs" "?t < length ?xs"
    using assms by (auto simp: mq_inv_def)
  show ?thesis
  proof (cases "?h \<le> ?t")
    case True
    then have "?h < length (take ?t ?xs)" using b assms by simp
    from Cons_nth_drop_Suc [OF this] True b assms(2) show ?thesis
      by (auto simp: mq_cells_def)
  next
    case False
    with Cons_nth_drop_Suc [OF b(2)] b show ?thesis by (auto simp: mq_cells_def)
  qed
qed

lemma mq_pop_nonempty:
  assumes inv: "mq_inv q" and list: "mq_list q = m # ms"
  shows "\<exists>q'. mq_pop q = Some (Some m, q') \<and> mq_inv q' \<and> mq_list q' = ms
           \<and> mq_handle q' = mq_handle q \<and> mq_release q' = mq_release q
           \<and> mq_in_global q' = mq_in_global q \<and> mq_next q' = mq_next q
           \<and> mq_length q' \<le> mq_overload_threshold q'"
proof -
  have ne: "mq_head q \<noteq> mq_tail q" using list by (auto simp: mq_list_def mq_cells_def)
  define h where "h = (if mq_head q + 1 \<ge> mq_cap q then 0 else mq_head q + 1)"
  define len where "len = int (mq_tail q) - int h"
  define len' where "len' = (if len < 0 then len + int (mq_cap q) else len)"
  note cells = mq_cells_Cons [OF inv ne, folded h_def]
  have cell: "mq_queue q ! mq_head q = Some m"
    using list cells inv by (auto simp: mq_list_def mq_inv_def)
  obtain ov th where ol: "overload_loop len' (mq_overload q) (mq_overload_threshold q) = Some (ov, th)"
    "0 < th" "len' \<le> th"
    using overload_loop_total [of "mq_overload_threshold q" len' "mq_overload q"] inv
    by (auto simp: mq_inv_def)
  define q' where "q' = q\<lparr>mq_head := h, mq_overload := ov, mq_overload_threshold := th\<rparr>"
  have same: "mq_cells q' = mq_cells (q\<lparr>mq_head := h\<rparr>)" by (simp add: q'_def mq_cells_def)
  have "mq_pop q = Some (Some m, q')"
    unfolding mq_pop_def Let_def h_def [symmetric] len_def [symmetric] len'_def [symmetric] q'_def
    using ne cell ol(1) by simp
  moreover have "mq_inv q'"
    using inv cells same ol(2) by (auto simp: mq_inv_def q'_def h_def)
  moreover have "mq_list q' = ms"
    using list cells same by (simp add: mq_list_def)
  moreover have "mq_length q' = len'"
    using inv by (auto simp: mq_length_def q'_def len'_def len_def h_def mq_inv_def)
  ultimately show ?thesis using ol(3) by (auto simp: q'_def)
qed

subsection \<open>The interface of a queue\<close>

text \<open>
  What the dispatcher relies on, with its consequence for any sequence of operations: a queue
  delivers the messages in the order in which they were pushed, each once.
\<close>

locale fifo =
  fixes store :: "'q \<Rightarrow> 'm \<Rightarrow> 'q"
    and pop :: "'q \<Rightarrow> ('m option \<times> 'q) option"
    and contents :: "'q \<Rightarrow> 'm list"
    and inv :: "'q \<Rightarrow> bool"
  assumes store_inv: "inv q \<Longrightarrow> inv (store q m)"
    and store_contents: "inv q \<Longrightarrow> contents (store q m) = contents q @ [m]"
    and pop_nil: "inv q \<Longrightarrow> contents q = [] \<Longrightarrow>
          \<exists>q'. pop q = Some (None, q') \<and> inv q' \<and> contents q' = []"
    and pop_cons: "inv q \<Longrightarrow> contents q = m # ms \<Longrightarrow>
          \<exists>q'. pop q = Some (Some m, q') \<and> inv q' \<and> contents q' = ms"
begin

text \<open>A run of pushes (\<open>Some m\<close>) and pops (\<open>None\<close>) with the messages it delivers.\<close>

fun run :: "'q \<Rightarrow> 'm option list \<Rightarrow> ('m list \<times> 'q) option" where
  "run q [] = Some ([], q)"
| "run q (Some m # ops) = run (store q m) ops"
| "run q (None # ops) = do {
     (r, q) \<leftarrow> pop q;
     (out, q) \<leftarrow> run q ops;
     Some (case r of None \<Rightarrow> out | Some m \<Rightarrow> m # out, q) }"

lemma run_fifo:
  assumes "inv q"
  shows "\<exists>out q'. run q ops = Some (out, q') \<and> inv q'
           \<and> contents q @ List.map_filter id ops = out @ contents q'"
  using assms
proof (induction q ops rule: run.induct)
  case (1 q)
  then show ?case by (simp add: List.map_filter_def)
next
  case (2 q m ops)
  from "2.IH" [OF store_inv [OF "2.prems"]] "2.prems" show ?case
    by (auto simp: store_contents List.map_filter_def)
next
  case (3 q ops)
  show ?case
  proof (cases "contents q")
    case Nil
    from pop_nil [OF "3.prems" Nil] obtain q1 where
      q1: "pop q = Some (None, q1)" "inv q1" "contents q1 = []" by blast
    from "3.IH" [OF q1(1) refl q1(2)] q1 Nil show ?thesis by (auto simp: List.map_filter_def)
  next
    case (Cons m ms)
    from pop_cons [OF "3.prems" Cons] obtain q1 where
      q1: "pop q = Some (Some m, q1)" "inv q1" "contents q1 = ms" by blast
    from "3.IH" [OF q1(1) refl q1(2)] q1 Cons show ?thesis by (auto simp: List.map_filter_def)
  qed
qed

end

interpretation ring: fifo mq_store mq_pop mq_list mq_inv
proof (unfold_locales, goal_cases)
  case (1 q m) then show ?case by (rule mq_store_ok)
next
  case (2 q m) then show ?case by (rule mq_store_ok)
next
  case (3 q)
  then show ?case
    by (simp add: mq_pop_empty mq_inv_def MQ_OVERLOAD_def mq_list_def)
next
  case (4 q m ms) then show ?case using mq_pop_nonempty by blast
qed

subsection \<open>The global queue as a list of addresses\<close>

text \<open>The cells reached from an address by \<open>next\<close>, up to NULL, as in a linked list.\<close>

fun gq_seg :: "(ptr \<Rightarrow> message_queue option) \<Rightarrow> ptr option \<Rightarrow> ptr list \<Rightarrow> ptr option \<Rightarrow> bool" where
  "gq_seg h a [] b \<longleftrightarrow> a = b"
| "gq_seg h a (x # xs) b \<longleftrightarrow> a = Some x \<and> (\<exists>q. h x = Some q \<and> gq_seg h (mq_next q) xs b)"

definition gq_inv :: "mq_state \<Rightarrow> ptr list \<Rightarrow> bool" where
  "gq_inv st xs \<longleftrightarrow>
     gq_seg (mqs st) (gq_head st) xs None \<and> distinct xs
     \<and> gq_tail st = (if xs = [] then None else Some (last xs))
     \<and> (\<forall>p q. mqs st p = Some q \<longrightarrow> p \<notin> set xs \<longrightarrow> mq_next q = None)"

text \<open>Two stores that differ in \<open>next\<close> fields only.\<close>

definition mq_core :: "message_queue \<Rightarrow> message_queue" where
  "mq_core q = q\<lparr>mq_next := None\<rparr>"

definition same_core :: "mq_state \<Rightarrow> mq_state \<Rightarrow> bool" where
  "same_core st st' \<longleftrightarrow> (\<forall>x. map_option mq_core (mqs st' x) = map_option mq_core (mqs st x))"

lemma mq_core_next [simp]: "mq_core (q\<lparr>mq_next := n\<rparr>) = mq_core q"
  by (simp add: mq_core_def)

lemma same_core_lookup:
  assumes "same_core st st'" and "mqs st x = Some q"
  obtains n where "mqs st' x = Some (q\<lparr>mq_next := n\<rparr>)"
proof -
  from assms have "map_option mq_core (mqs st' x) = Some (mq_core q)"
    by (simp add: same_core_def)
  then obtain q' where q': "mqs st' x = Some q'" "mq_core q' = mq_core q" by auto
  then have "q' = q\<lparr>mq_next := mq_next q'\<rparr>"
    unfolding mq_core_def by (cases q; cases q') simp
  with q' that show ?thesis by metis
qed

lemma same_core_None: "same_core st st' \<Longrightarrow> mqs st' x = None \<longleftrightarrow> mqs st x = None"
  unfolding same_core_def by (metis option.map_disc_iff)

lemma gq_seg_append:
  "gq_seg h a (xs @ ys) b \<longleftrightarrow> (\<exists>m. gq_seg h a xs m \<and> gq_seg h m ys b)"
  by (induction xs arbitrary: a) auto

lemma gq_seg_cong:
  "(\<And>x. x \<in> set xs \<Longrightarrow> map_option mq_next (h' x) = map_option mq_next (h x)) \<Longrightarrow>
     gq_seg h' a xs b = gq_seg h a xs b"
proof (induction xs arbitrary: a)
  case (Cons x xs)
  then have "map_option mq_next (h' x) = map_option mq_next (h x)" by simp
  with Cons show ?case by (cases "h x"; cases "h' x") auto
qed simp

lemma gq_seg_mapped: "gq_seg h a xs b \<Longrightarrow> x \<in> set xs \<Longrightarrow> \<exists>q. h x = Some q"
  by (induction xs arbitrary: a) auto

lemma gq_inv_cong:
  assumes "\<And>x. map_option mq_next (mqs st' x) = map_option mq_next (mqs st x)"
    and "gq_head st' = gq_head st" and "gq_tail st' = gq_tail st"
  shows "gq_inv st' xs = gq_inv st xs"
proof -
  have "(\<forall>q. mqs st' p = Some q \<longrightarrow> p \<notin> set xs \<longrightarrow> mq_next q = None)
      = (\<forall>q. mqs st p = Some q \<longrightarrow> p \<notin> set xs \<longrightarrow> mq_next q = None)" for p
    using assms(1) [of p] by (cases "mqs st p"; cases "mqs st' p") auto
  then show ?thesis
    using assms gq_seg_cong [of xs "mqs st'" "mqs st"] by (simp add: gq_inv_def)
qed

lemma globalmq_push_ok:
  assumes inv: "gq_inv st xs" and p: "mqs st p = Some q" "p \<notin> set xs"
  shows "\<exists>st'. skynet_globalmq_push st p = Some st' \<and> gq_inv st' (xs @ [p]) \<and> same_core st st'"
proof -
  have nx: "mq_next q = None" using inv p by (auto simp: gq_inv_def)
  show ?thesis
  proof (cases xs rule: rev_cases)
    case Nil
    with inv p nx show ?thesis
      by (auto simp: skynet_globalmq_push_def gq_inv_def same_core_def)
  next
    case (snoc ys t)
    with inv obtain m tq where seg: "gq_seg (mqs st) (gq_head st) ys m" "m = Some t"
      and tq: "mqs st t = Some tq" "mq_next tq = None" and d: "distinct (ys @ [t])"
      and tl: "gq_tail st = Some t"
      by (auto simp: gq_inv_def gq_seg_append)
    let ?h = "(mqs st)(t \<mapsto> tq\<lparr>mq_next := Some p\<rparr>)"
    have "gq_seg ?h (gq_head st) ys (Some t)"
      using seg d by (subst gq_seg_cong [where h = "mqs st"]) auto
    then have "gq_seg ?h (gq_head st) (xs @ [p]) None"
      using p nx snoc by (auto simp: gq_seg_append)
    then have "gq_inv (st\<lparr>mqs := ?h, gq_tail := Some p\<rparr>) (xs @ [p])"
      using inv p snoc by (auto simp: gq_inv_def)
    moreover have "same_core st (st\<lparr>mqs := ?h, gq_tail := Some p\<rparr>)"
      using tq by (auto simp: same_core_def)
    ultimately show ?thesis
      using p nx tl tq by (simp add: skynet_globalmq_push_def)
  qed
qed

lemma globalmq_pop_nil: "gq_inv st [] \<Longrightarrow> skynet_globalmq_pop st = Some (None, st)"
  by (simp add: gq_inv_def skynet_globalmq_pop_def)

lemma globalmq_pop_cons:
  assumes inv: "gq_inv st (x # xs)"
  shows "\<exists>st'. skynet_globalmq_pop st = Some (Some x, st') \<and> gq_inv st' xs \<and> same_core st st'"
proof -
  from inv obtain q where hd: "gq_head st = Some x" and q: "mqs st x = Some q"
    and seg: "gq_seg (mqs st) (mq_next q) xs None" and d: "x \<notin> set xs" "distinct xs"
    and tl: "gq_tail st = Some (last (x # xs))"
    by (auto simp: gq_inv_def split: if_splits)
  let ?h = "(mqs st)(x \<mapsto> q\<lparr>mq_next := None\<rparr>)"
  let ?st = "st\<lparr>gq_head := mq_next q, gq_tail := if mq_next q = None then None else gq_tail st, mqs := ?h\<rparr>"
  have nil: "mq_next q = None \<longleftrightarrow> xs = []"
    using seg by (cases xs) auto
  have "gq_seg ?h (mq_next q) xs None"
    using seg d by (subst gq_seg_cong [where h = "mqs st"]) auto
  then have "gq_inv ?st xs"
    using inv d tl nil by (auto simp: gq_inv_def)
  moreover have "same_core st ?st" using q by (auto simp: same_core_def)
  moreover have "skynet_globalmq_pop st = Some (Some x, ?st)"
    using hd q tl nil by (auto simp: skynet_globalmq_pop_def)
  ultimately show ?thesis by blast
qed

subsection \<open>Properties of the message queues\<close>

text \<open>A run of pushes (\<open>Some m\<close>) and pops (\<open>None\<close>) on one queue, with the messages delivered.\<close>

fun mq_run :: "message_queue \<Rightarrow> skynet_message option list \<Rightarrow> (skynet_message list \<times> message_queue) option" where
  "mq_run q [] = Some ([], q)"
| "mq_run q (Some m # ops) = mq_run (mq_store q m) ops"
| "mq_run q (None # ops) = do {
     (r, q) \<leftarrow> mq_pop q;
     (out, q) \<leftarrow> mq_run q ops;
     Some (case r of None \<Rightarrow> out | Some m \<Rightarrow> m # out, q) }"

lemma mq_run_ring: "mq_run q ops = ring.run q ops"
proof (induction q ops rule: mq_run.induct)
  case (3 q ops)
  then show ?case by (cases "mq_pop q") auto
qed simp_all

text \<open>
  C7. A service receives its messages in the order they were pushed, each exactly once. For any
  sequence of pushes and pops on a well-formed queue, through wrap-around and growth of the
  ring, no operation reads an uninitialised cell, the overload loop ends, and the messages that
  were in the queue followed by those pushed are the messages delivered followed by those
  still in the queue.
\<close>

theorem mq_fifo:
  assumes "mq_inv q"
  shows "\<exists>out q'. mq_run q ops = Some (out, q') \<and> mq_inv q'
           \<and> mq_list q @ List.map_filter id ops = out @ mq_list q'"
  unfolding mq_run_ring by (rule ring.run_fifo [OF assms])

theorem mq_fifo_witness:
  "\<exists>out q'. mq_run (skynet_mq_create 5)
       [Some \<lparr>msg_source = 1, msg_session = 1, msg_data = None, msg_sz = 0\<rparr>,
        Some \<lparr>msg_source = 2, msg_session = 1, msg_data = None, msg_sz = 0\<rparr>, None] = Some (out, q')
     \<and> \<lparr>msg_source = 1, msg_session = 1, msg_data = None, msg_sz = 0\<rparr> \<in> set (out @ mq_list q')"
proof -
  let ?ops = "[Some \<lparr>msg_source = 1, msg_session = 1, msg_data = None, msg_sz = 0\<rparr>,
        Some \<lparr>msg_source = 2, msg_session = 1, msg_data = None, msg_sz = 0\<rparr>, None]"
  obtain out q' where r: "mq_run (skynet_mq_create 5) ?ops = Some (out, q')"
    and "List.map_filter id ?ops = out @ mq_list q'"
    using mq_fifo [OF mq_create_inv(1) [of 5], of ?ops] mq_create_inv(2) [of 5] by auto
  from this(2) [symmetric] have "set (out @ mq_list q') = set (List.map_filter id ?ops)" by simp
  then have "\<lparr>msg_source = 1, msg_session = 1, msg_data = None, msg_sz = 0\<rparr> \<in> set (out @ mq_list q')"
    by (simp add: List.map_filter_def)
  with r show ?thesis by blast
qed

text \<open>
  The length and the overload report. \<open>skynet_mq_length\<close> is the number of messages in
  the ring, and after every pop that delivers a message the length is at most the overload
  threshold, so one burst is reported once.
\<close>

theorem mq_length_threshold:
  assumes "mq_inv q" and "mq_pop q = Some (Some m, q')"
  shows "mq_length q = int (length (mq_list q)) \<and> mq_length q' = mq_length q - 1
           \<and> mq_length q' \<le> mq_overload_threshold q'"
proof (cases "mq_list q")
  case Nil
  with mq_pop_empty [OF assms(1) Nil] assms(2) show ?thesis by simp
next
  case (Cons a ms)
  from mq_pop_nonempty [OF assms(1) Cons] assms(2) have "mq_inv q'" "mq_list q' = ms"
    "mq_length q' \<le> mq_overload_threshold q'" by auto
  then show ?thesis using Cons by (simp add: mq_length_list [OF assms(1)] mq_length_list)
qed

theorem mq_length_threshold_witness:
  "\<exists>m q'. mq_pop (mq_store (skynet_mq_create 5)
       \<lparr>msg_source = 1, msg_session = 1, msg_data = None, msg_sz = 0\<rparr>) = Some (Some m, q')
     \<and> mq_length q' = 0 \<and> mq_length q' \<le> mq_overload_threshold q'"
proof -
  let ?m = "\<lparr>msg_source = 1, msg_session = 1, msg_data = None, msg_sz = 0\<rparr>"
  let ?q = "mq_store (skynet_mq_create 5) ?m"
  have inv: "mq_inv ?q" and list: "mq_list ?q = [?m]" using mq_create_inv by (simp_all add: mq_store_ok)
  from mq_pop_nonempty [OF inv list] obtain q' where pop: "mq_pop ?q = Some (Some ?m, q')" by blast
  from mq_length_threshold [OF inv pop] list pop show ?thesis by auto
qed

end
