(* ===== verification/Skynet_Sched.thy ===== *)
theory Skynet_Sched
  imports Skynet_MQ
begin

text \<open>
  How the worker threads share the message queues: the critical sections of
  \<open>skynet_context_message_dispatch\<close>, \<open>skynet_context_new\<close>,
  \<open>skynet_context_release\<close> and of the senders, interleaved in any order.

  A state holds the queue store, the queues each thread has taken out of the global list
  (\<open>held\<close>: the queue a worker dispatches, the two queues it has between popping the next
  one and pushing its own back, or the queue a thread is creating) and the set of queues whose
  context has not been deleted (\<open>alive\<close>). Every rule is one spin-locked section of the
  code, so an interleaving of rules is an interleaving of threads.
\<close>

record sched =
  sy :: mq_state
  held :: "nat \<Rightarrow> ptr list"
  alive :: "ptr set"

definition sched_init :: sched where
  "sched_init = \<lparr>sy = \<lparr>mqs = (\<lambda>_. None), gq_head = None, gq_tail = None\<rparr>,
                 held = (\<lambda>_. []), alive = {}\<rparr>"

inductive sched_step :: "sched \<Rightarrow> sched \<Rightarrow> bool" where
  create: "mqs (sy s) p = None \<Longrightarrow> held s w = [] \<Longrightarrow>
     sched_step s (s\<lparr>sy := (sy s)\<lparr>mqs := (mqs (sy s))(p \<mapsto> skynet_mq_create h)\<rparr>,
                     held := (held s)(w := [p]), alive := insert p (alive s)\<rparr>)"
| requeue: "held s w = [p] \<Longrightarrow> skynet_globalmq_push (sy s) p = Some y \<Longrightarrow>
     sched_step s (s\<lparr>sy := y, held := (held s)(w := [])\<rparr>)"
| push: "p \<in> alive s \<Longrightarrow> skynet_mq_push (sy s) p m = Some y \<Longrightarrow> sched_step s (s\<lparr>sy := y\<rparr>)"
| take: "held s w = [] \<Longrightarrow> skynet_globalmq_pop (sy s) = Some (Some p, y) \<Longrightarrow>
     sched_step s (s\<lparr>sy := y, held := (held s)(w := [p])\<rparr>)"
| work: "held s w = [p] \<Longrightarrow> skynet_mq_pop (sy s) p = Some (Some m, y) \<Longrightarrow>
     sched_step s (s\<lparr>sy := y\<rparr>)"
| idle: "held s w = [p] \<Longrightarrow> p \<in> alive s \<Longrightarrow> skynet_mq_pop (sy s) p = Some (None, y) \<Longrightarrow>
     sched_step s (s\<lparr>sy := y, held := (held s)(w := [])\<rparr>)"
| take_next: "held s w = [p] \<Longrightarrow> skynet_globalmq_pop (sy s) = Some (Some n, y) \<Longrightarrow>
     sched_step s (s\<lparr>sy := y, held := (held s)(w := [p, n])\<rparr>)"
| push_back: "held s w = [p, n] \<Longrightarrow> skynet_globalmq_push (sy s) p = Some y \<Longrightarrow>
     sched_step s (s\<lparr>sy := y, held := (held s)(w := [n])\<rparr>)"
| mark: "p \<in> alive s \<Longrightarrow> skynet_mq_mark_release (sy s) p = Some y \<Longrightarrow>
     sched_step s (s\<lparr>sy := y, alive := alive s - {p}\<rparr>)"
| drop: "held s w = [p] \<Longrightarrow> p \<notin> alive s \<Longrightarrow> skynet_mq_pop (sy s) p = Some (None, y) \<Longrightarrow>
     mq_free y p = Some y' \<Longrightarrow>
     sched_step s (s\<lparr>sy := y', held := (held s)(w := [])\<rparr>)"

inductive sched_reachable :: "sched \<Rightarrow> bool" where
  init: "sched_reachable sched_init"
| step: "sched_reachable s \<Longrightarrow> sched_step s t \<Longrightarrow> sched_reachable t"

inductive_cases sched_stepE: "sched_step s t"

subsection \<open>The invariant\<close>

text \<open>A queue is owned when it is in the global list or held by a thread.\<close>

definition owned :: "(nat \<Rightarrow> ptr list) \<Rightarrow> ptr list \<Rightarrow> ptr \<Rightarrow> bool" where
  "owned ho xs p \<longleftrightarrow> p \<in> set xs \<or> (\<exists>w. p \<in> set (ho w))"

definition exclusive :: "(nat \<Rightarrow> ptr list) \<Rightarrow> ptr list \<Rightarrow> bool" where
  "exclusive ho xs \<longleftrightarrow>
     distinct xs \<and> (\<forall>w. distinct (ho w)) \<and> (\<forall>w. set (ho w) \<inter> set xs = {})
     \<and> (\<forall>w w'. w \<noteq> w' \<longrightarrow> set (ho w) \<inter> set (ho w') = {})"

definition queue_ok :: "bool \<Rightarrow> bool \<Rightarrow> message_queue \<Rightarrow> bool" where
  "queue_ok own live q \<longleftrightarrow> mq_inv q \<and> (live \<longleftrightarrow> \<not> mq_release q)
     \<and> (if own then mq_in_global q \<or> mq_release q
        else \<not> mq_in_global q \<and> \<not> mq_release q \<and> mq_list q = [])"

definition sched_inv :: "sched \<Rightarrow> ptr list \<Rightarrow> bool" where
  "sched_inv s xs \<longleftrightarrow> gq_inv (sy s) xs \<and> exclusive (held s) xs
     \<and> (\<forall>p. case mqs (sy s) p of
             None \<Rightarrow> \<not> owned (held s) xs p \<and> p \<notin> alive s
           | Some q \<Rightarrow> queue_ok (owned (held s) xs p) (p \<in> alive s) q)"

lemma queue_ok_core [simp]: "queue_ok own live (q\<lparr>mq_next := n\<rparr>) = queue_ok own live q"
  by (simp add: queue_ok_def)

lemma sched_inv_init: "sched_inv sched_init []"
  by (simp add: sched_inv_def sched_init_def gq_inv_def exclusive_def owned_def)

text \<open>
  A step changes the contents or the ownership of at most one queue \<open>p\<close>; for all others
  only \<open>next\<close> may change.
\<close>

lemma sched_inv_update:
  assumes inv: "sched_inv s xs" and gq: "gq_inv y ys" and ex: "exclusive ho ys"
    and frame: "\<And>x. x \<noteq> p \<Longrightarrow> map_option mq_core (mqs y x) = map_option mq_core (mqs (sy s) x)"
    and own: "\<And>x. x \<noteq> p \<Longrightarrow> owned ho ys x = owned (held s) xs x"
    and al: "\<And>x. x \<noteq> p \<Longrightarrow> x \<in> al \<longleftrightarrow> x \<in> alive s"
    and p: "case mqs y p of None \<Rightarrow> \<not> owned ho ys p \<and> p \<notin> al
            | Some q \<Rightarrow> queue_ok (owned ho ys p) (p \<in> al) q"
  shows "sched_inv (s\<lparr>sy := y, held := ho, alive := al\<rparr>) ys"
proof -
  have "case mqs y x of None \<Rightarrow> \<not> owned ho ys x \<and> x \<notin> al
      | Some q \<Rightarrow> queue_ok (owned ho ys x) (x \<in> al) q" if "x \<noteq> p" for x
  proof -
    have old: "case mqs (sy s) x of None \<Rightarrow> \<not> owned (held s) xs x \<and> x \<notin> alive s
        | Some q \<Rightarrow> queue_ok (owned (held s) xs x) (x \<in> alive s) q"
      using inv by (simp add: sched_inv_def)
    show ?thesis
    proof (cases "mqs (sy s) x")
      case None
      with frame [OF that] have "mqs y x = None" by simp
      with None old own [OF that] al [OF that] show ?thesis by simp
    next
      case (Some q)
      with frame [OF that] obtain q' where q': "mqs y x = Some q'" "mq_core q' = mq_core q" by auto
      have "queue_ok o' l q' = queue_ok o' l q" for o' l
        using q'(2) queue_ok_core unfolding mq_core_def by metis
      with q' Some old own [OF that] al [OF that] show ?thesis by simp
    qed
  qed
  with p have "\<forall>x. case mqs y x of None \<Rightarrow> \<not> owned ho ys x \<and> x \<notin> al
      | Some q \<Rightarrow> queue_ok (owned ho ys x) (x \<in> al) q" by metis
  with gq ex show ?thesis by (simp add: sched_inv_def cong: option.case_cong)
qed

lemma sched_inv_queue:
  assumes "sched_inv s xs" and "owned (held s) xs p \<or> p \<in> alive s"
  obtains q where "mqs (sy s) p = Some q" and "queue_ok (owned (held s) xs p) (p \<in> alive s) q"
  using assms by (auto simp: sched_inv_def split: option.splits dest!: spec [of _ p])

subsection \<open>Ownership transfers\<close>

text \<open>The list and the held queues after one queue moves.\<close>

lemma ex_held_split: "(\<exists>v. x \<in> set (ho v)) \<longleftrightarrow> x \<in> set (ho w) \<or> (\<exists>v. v \<noteq> w \<and> x \<in> set (ho v))"
  by metis

lemma ex_held_upd:
  "(\<exists>v. x \<in> set ((ho(w := ps)) v)) \<longleftrightarrow> x \<in> set ps \<or> (\<exists>v. v \<noteq> w \<and> x \<in> set (ho v))"
  by (subst ex_held_split [of x _ w]) auto

lemma exclusive_release:
  assumes "exclusive ho xs" and "ho w = p # ps"
  shows "exclusive (ho(w := ps)) (xs @ [p])" and "exclusive (ho(w := ps)) xs"
    and "owned (ho(w := ps)) (xs @ [p]) x = owned ho xs x"
    and "owned (ho(w := ps)) xs x \<longleftrightarrow> owned ho xs x \<and> x \<noteq> p"
    and "p \<notin> set xs"
proof -
  have d: "distinct xs" "\<And>v. distinct (ho v)" "\<And>v. set (ho v) \<inter> set xs = {}"
    "\<And>v v'. v \<noteq> v' \<Longrightarrow> set (ho v) \<inter> set (ho v') = {}"
    using assms(1) by (auto simp: exclusive_def)
  have w: "p \<notin> set ps" "distinct ps" "p \<notin> set xs" "set ps \<inter> set xs = {}"
    using d(2) [of w] d(3) [of w] assms(2) by auto
  have o: "p \<notin> set (ho v)" "set ps \<inter> set (ho v) = {}" if "v \<noteq> w" for v
    using d(4) [of w v] that assms(2) by auto
  show "p \<notin> set xs" by (rule w)
  show "exclusive (ho(w := ps)) (xs @ [p])" "exclusive (ho(w := ps)) xs"
    unfolding exclusive_def using d w o by (auto simp: Int_commute)
  show "owned (ho(w := ps)) (xs @ [p]) x = owned ho xs x"
    unfolding owned_def ex_held_upd ex_held_split [of x ho w] using assms(2) by auto
  show "owned (ho(w := ps)) xs x \<longleftrightarrow> owned ho xs x \<and> x \<noteq> p"
    unfolding owned_def ex_held_upd ex_held_split [of x ho w] using assms(2) w o by auto
qed

lemma exclusive_acquire:
  assumes "exclusive ho (p # xs)"
  shows "exclusive (ho(w := ho w @ [p])) xs"
    and "owned (ho(w := ho w @ [p])) xs x = owned ho (p # xs) x"
proof -
  have d: "distinct (p # xs)" "\<And>v. distinct (ho v)" "\<And>v. set (ho v) \<inter> set (p # xs) = {}"
    "\<And>v v'. v \<noteq> v' \<Longrightarrow> set (ho v) \<inter> set (ho v') = {}"
    using assms by (auto simp: exclusive_def)
  have p: "p \<notin> set (ho v)" "set (ho v) \<inter> set xs = {}" for v using d(3) [of v] by auto
  show "exclusive (ho(w := ho w @ [p])) xs"
    unfolding exclusive_def using d p by (auto simp: Int_commute)
  show "owned (ho(w := ho w @ [p])) xs x = owned ho (p # xs) x"
    unfolding owned_def ex_held_upd ex_held_split [of x ho w] by auto
qed

lemma exclusive_append: "exclusive ho xs \<Longrightarrow> \<not> owned ho xs p \<Longrightarrow> exclusive ho (xs @ [p])"
  by (auto simp: exclusive_def owned_def)

lemma owned_append: "owned ho (xs @ [p]) x \<longleftrightarrow> owned ho xs x \<or> x = p"
  by (auto simp: owned_def)

lemma same_core_frame: "same_core st st' \<Longrightarrow> map_option mq_core (mqs st' x) = map_option mq_core (mqs st x)"
  by (simp add: same_core_def)

text \<open>Replacing one queue by one with the same \<open>next\<close> leaves the global list as it is.\<close>

lemma gq_inv_replace:
  assumes "gq_inv st xs" and "mqs st p = Some q" and "mq_next q' = mq_next q"
  shows "gq_inv (st\<lparr>mqs := (mqs st)(p \<mapsto> q')\<rparr>) xs"
  using assms(1) by (rule gq_inv_cong [THEN iffD2, rotated 3]) (use assms in auto)

lemma sched_inv_parts:
  assumes "sched_inv s xs"
  shows "gq_inv (sy s) xs" and "exclusive (held s) xs"
  using assms by (auto simp: sched_inv_def)

subsection \<open>Every step keeps the invariant\<close>

lemma inv_give_back:
  assumes inv: "sched_inv s xs" and w: "held s w = p # ps"
    and push: "skynet_globalmq_push (sy s) p = Some y"
  shows "\<exists>ys. sched_inv (s\<lparr>sy := y, held := (held s)(w := ps)\<rparr>) ys"
proof -
  note ex = exclusive_release [OF sched_inv_parts(2) [OF inv] w]
  have own: "owned (held s) xs p" using w by (auto simp: owned_def intro: exI [of _ w])
  then obtain q where q: "mqs (sy s) p = Some q" "queue_ok True (p \<in> alive s) q"
    using sched_inv_queue [OF inv, of p] by auto
  from globalmq_push_ok [OF sched_inv_parts(1) [OF inv] q(1) ex(5)] push
  have gq: "gq_inv y (xs @ [p])" and sc: "same_core (sy s) y" by auto
  obtain n where "mqs y p = Some (q\<lparr>mq_next := n\<rparr>)" using same_core_lookup [OF sc q(1)] .
  with q own ex have "case mqs y p of
        None \<Rightarrow> \<not> owned ((held s)(w := ps)) (xs @ [p]) p \<and> p \<notin> alive s
      | Some q \<Rightarrow> queue_ok (owned ((held s)(w := ps)) (xs @ [p]) p) (p \<in> alive s) q" by simp
  with sched_inv_update [OF inv gq ex(1), of p "alive s"] same_core_frame [OF sc] ex(3)
  show ?thesis by auto
qed

lemma inv_take:
  assumes inv: "sched_inv s xs" and pop: "skynet_globalmq_pop (sy s) = Some (Some p, y)"
  shows "\<exists>ys. sched_inv (s\<lparr>sy := y, held := (held s)(w := held s w @ [p])\<rparr>) ys"
proof -
  from pop globalmq_pop_nil sched_inv_parts(1) [OF inv] obtain x ys where "xs = x # ys"
    by (cases xs) auto
  with globalmq_pop_cons sched_inv_parts(1) [OF inv] pop have xs: "xs = p # ys"
    and gq: "gq_inv y ys" and sc: "same_core (sy s) y" by fastforce+
  note ex = exclusive_acquire [OF sched_inv_parts(2) [OF inv, unfolded xs], where w = w]
  have own: "owned (held s) xs p" by (simp add: owned_def xs)
  then obtain q where q: "mqs (sy s) p = Some q" "queue_ok True (p \<in> alive s) q"
    using sched_inv_queue [OF inv, of p] by auto
  obtain n where "mqs y p = Some (q\<lparr>mq_next := n\<rparr>)" using same_core_lookup [OF sc q(1)] .
  with q own ex(2) xs have "case mqs y p of
        None \<Rightarrow> \<not> owned ((held s)(w := held s w @ [p])) ys p \<and> p \<notin> alive s
      | Some q \<Rightarrow> queue_ok (owned ((held s)(w := held s w @ [p])) ys p) (p \<in> alive s) q" by simp
  with sched_inv_update [OF inv gq ex(1), of p "alive s"] same_core_frame [OF sc] ex(2) xs
  show ?thesis by auto
qed

text \<open>The store is changed at one queue only, which keeps its \<open>next\<close> and its owner.\<close>

lemma inv_replace:
  assumes inv: "sched_inv s xs" and q: "mqs (sy s) p = Some q" and nx: "mq_next q' = mq_next q"
    and ok: "queue_ok (owned (held s) xs p) (p \<in> al) q'"
    and al: "\<And>x. x \<noteq> p \<Longrightarrow> x \<in> al \<longleftrightarrow> x \<in> alive s"
  shows "sched_inv (s\<lparr>sy := (sy s)\<lparr>mqs := (mqs (sy s))(p \<mapsto> q')\<rparr>, alive := al\<rparr>) xs"
  using sched_inv_update [OF inv gq_inv_replace [OF sched_inv_parts(1) [OF inv] q nx]
      sched_inv_parts(2) [OF inv], of p al] ok al by simp

text \<open>A queue nobody owns is changed and appended to the global list.\<close>

lemma inv_wake:
  assumes inv: "sched_inv s xs" and q: "mqs (sy s) p = Some q" and nx: "mq_next q' = mq_next q"
    and no: "\<not> owned (held s) xs p" and ok: "queue_ok True (p \<in> al) q'"
    and al: "\<And>x. x \<noteq> p \<Longrightarrow> x \<in> al \<longleftrightarrow> x \<in> alive s"
  shows "\<exists>y. skynet_globalmq_push ((sy s)\<lparr>mqs := (mqs (sy s))(p \<mapsto> q')\<rparr>) p = Some y
           \<and> sched_inv (s\<lparr>sy := y, alive := al\<rparr>) (xs @ [p])"
proof -
  let ?y = "(sy s)\<lparr>mqs := (mqs (sy s))(p \<mapsto> q')\<rparr>"
  have "mqs ?y p = Some q'" "p \<notin> set xs" using no by (auto simp: owned_def)
  from globalmq_push_ok [OF gq_inv_replace [OF sched_inv_parts(1) [OF inv] q nx] this] obtain y where
    y: "skynet_globalmq_push ?y p = Some y" and gq: "gq_inv y (xs @ [p])" and sc: "same_core ?y y"
    by blast
  obtain n where "mqs y p = Some (q'\<lparr>mq_next := n\<rparr>)" using same_core_lookup [OF sc, of p q'] by auto
  with ok have "case mqs y p of
        None \<Rightarrow> \<not> owned (held s) (xs @ [p]) p \<and> p \<notin> al
      | Some q \<Rightarrow> queue_ok (owned (held s) (xs @ [p]) p) (p \<in> al) q" by (simp add: owned_append)
  with sched_inv_update [OF inv gq exclusive_append [OF sched_inv_parts(2) [OF inv] no], of p al]
    same_core_frame [OF sc] al y
  show ?thesis by (auto simp: owned_append)
qed

lemma inv_push:
  assumes inv: "sched_inv s xs" and live: "p \<in> alive s"
  shows "\<exists>y ys. skynet_mq_push (sy s) p m = Some y \<and> sched_inv (s\<lparr>sy := y\<rparr>) ys"
proof -
  obtain q where q: "mqs (sy s) p = Some q" "queue_ok (owned (held s) xs p) True q"
    using sched_inv_queue [OF inv, of p] live by auto
  have store: "mq_inv (mq_store q m)" using q by (auto simp: queue_ok_def mq_store_ok)
  show ?thesis
  proof (cases "mq_in_global q")
    case True
    with q store have "queue_ok (owned (held s) xs p) (p \<in> alive s) (mq_store q m)"
      using live by (auto simp: queue_ok_def split: if_splits)
    from inv_replace [OF inv q(1) _ this] True q(1) show ?thesis
      by (auto simp: skynet_mq_push_def)
  next
    case False
    with q have no: "\<not> owned (held s) xs p" by (auto simp: queue_ok_def)
    have "queue_ok True (p \<in> alive s) (mq_store q m\<lparr>mq_in_global := True\<rparr>)"
      using q store live by (auto simp: queue_ok_def)
    from inv_wake [OF inv q(1) _ no this] False q(1) show ?thesis
      by (fastforce simp: skynet_mq_push_def)
  qed
qed

lemma inv_mark:
  assumes inv: "sched_inv s xs" and live: "p \<in> alive s"
  shows "\<exists>y ys. skynet_mq_mark_release (sy s) p = Some y
           \<and> sched_inv (s\<lparr>sy := y, alive := alive s - {p}\<rparr>) ys"
proof -
  obtain q where q: "mqs (sy s) p = Some q" "queue_ok (owned (held s) xs p) True q"
    using sched_inv_queue [OF inv, of p] live by auto
  have rel: "\<not> mq_release q" "mq_inv q" using q by (auto simp: queue_ok_def)
  show ?thesis
  proof (cases "mq_in_global q")
    case True
    with q have "queue_ok (owned (held s) xs p) (p \<in> alive s - {p}) (q\<lparr>mq_release := True\<rparr>)"
      by (auto simp: queue_ok_def split: if_splits)
    from inv_replace [OF inv q(1) _ this] True rel q(1) show ?thesis
      by (auto simp: skynet_mq_mark_release_def)
  next
    case False
    with q have no: "\<not> owned (held s) xs p" by (auto simp: queue_ok_def)
    have "queue_ok True (p \<in> alive s - {p}) (q\<lparr>mq_release := True\<rparr>)"
      using rel by (auto simp: queue_ok_def)
    from inv_wake [OF inv q(1) _ no this] False rel q(1) show ?thesis
      by (fastforce simp: skynet_mq_mark_release_def)
  qed
qed

lemma inv_work:
  assumes inv: "sched_inv s xs" and own: "owned (held s) xs p"
    and pop: "skynet_mq_pop (sy s) p = Some (Some m, y)"
  shows "sched_inv (s\<lparr>sy := y\<rparr>) xs"
proof -
  obtain q where q: "mqs (sy s) p = Some q" "queue_ok True (p \<in> alive s) q"
    using sched_inv_queue [OF inv, of p] own by auto
  then have iq: "mq_inv q" by (simp add: queue_ok_def)
  with pop q(1) mq_pop_empty [OF iq] obtain m' ms where "mq_list q = m' # ms"
    by (cases "mq_list q") (auto simp: skynet_mq_pop_def)
  from mq_pop_nonempty [OF iq this] pop q(1) obtain q' where
    y: "y = (sy s)\<lparr>mqs := (mqs (sy s))(p \<mapsto> q')\<rparr>" and q': "mq_inv q'" "mq_release q' = mq_release q"
      "mq_in_global q' = mq_in_global q" "mq_next q' = mq_next q"
    by (auto simp: skynet_mq_pop_def)
  from q q' own have "queue_ok (owned (held s) xs p) (p \<in> alive s) q'" by (auto simp: queue_ok_def)
  from inv_replace [OF inv q(1) q'(4) this] show ?thesis by (simp add: y)
qed

lemma mq_pop_None_empty:
  assumes "mq_inv q" and "mq_pop q = Some (None, q')"
  shows "mq_list q = [] \<and> q' = q\<lparr>mq_overload_threshold := MQ_OVERLOAD, mq_in_global := False\<rparr>"
proof (cases "mq_list q")
  case Nil
  with mq_pop_empty [OF assms(1) Nil] assms(2) show ?thesis by simp
next
  case (Cons m ms)
  with mq_pop_nonempty [OF assms(1) Cons] assms(2) show ?thesis by auto
qed

lemma inv_empty_pop:
  assumes inv: "sched_inv s xs" and w: "held s w = [p]"
    and pop: "skynet_mq_pop (sy s) p = Some (None, y)"
  shows "p \<in> alive s \<Longrightarrow> sched_inv (s\<lparr>sy := y, held := (held s)(w := [])\<rparr>) xs"
    and "p \<notin> alive s \<Longrightarrow> \<exists>y'. mq_free y p = Some y'
           \<and> sched_inv (s\<lparr>sy := y', held := (held s)(w := [])\<rparr>) xs"
proof -
  note ex = exclusive_release [OF sched_inv_parts(2) [OF inv] w]
  have own: "owned (held s) xs p" using w by (auto simp: owned_def intro: exI [of _ w])
  obtain q where q: "mqs (sy s) p = Some q" "queue_ok True (p \<in> alive s) q"
    using sched_inv_queue [OF inv, of p] own by auto
  then have iq: "mq_inv q" by (simp add: queue_ok_def)
  from pop q(1) obtain q' where y: "y = (sy s)\<lparr>mqs := (mqs (sy s))(p \<mapsto> q')\<rparr>"
    and "mq_pop q = Some (None, q')" by (auto simp: skynet_mq_pop_def split: bind_splits)
  with mq_pop_None_empty [OF iq] have nil: "mq_list q = []"
    and q': "q' = q\<lparr>mq_overload_threshold := MQ_OVERLOAD, mq_in_global := False\<rparr>" by auto
  have gq: "gq_inv y xs"
    unfolding y by (rule gq_inv_replace [OF sched_inv_parts(1) [OF inv] q(1)]) (simp add: q')
  have core: "map_option mq_core (mqs y x) = map_option mq_core (mqs (sy s) x)" if "x \<noteq> p" for x
    using that by (simp add: y)
  {
    assume "p \<in> alive s"
    with q nil have "queue_ok False (p \<in> alive s) q'"
      by (auto simp: queue_ok_def q' mq_inv_def mq_list_def MQ_OVERLOAD_def)
    then show "sched_inv (s\<lparr>sy := y, held := (held s)(w := [])\<rparr>) xs"
      using sched_inv_update [OF inv gq ex(2), of p "alive s"] core ex(4) by (simp add: y)
  }
  {
    assume dead: "p \<notin> alive s"
    let ?y = "y\<lparr>mqs := (mqs y)(p := None)\<rparr>"
    have "mqs y p = Some q'" by (simp add: y)
    with gq ex(5) have nx: "mq_next q' = None" unfolding gq_inv_def by blast
    then have "mq_free y p = Some ?y" by (simp add: mq_free_def y)
    moreover have "gq_seg (mqs ?y) (gq_head ?y) xs None"
      using gq ex(5) by (subst gq_seg_cong [where h = "mqs y"]) (auto simp: gq_inv_def)
    then have "gq_inv ?y xs" using gq by (auto simp: gq_inv_def)
    then have "sched_inv (s\<lparr>sy := ?y, held := (held s)(w := [])\<rparr>) xs"
      using sched_inv_update [OF inv _ ex(2), of ?y p "alive s"] core ex(4) dead by simp
    ultimately show "\<exists>y'. mq_free y p = Some y'
        \<and> sched_inv (s\<lparr>sy := y', held := (held s)(w := [])\<rparr>) xs" by blast
  }
qed

lemma inv_create:
  assumes inv: "sched_inv s xs" and new: "mqs (sy s) p = None" and w: "held s w = []"
  shows "sched_inv (s\<lparr>sy := (sy s)\<lparr>mqs := (mqs (sy s))(p \<mapsto> skynet_mq_create h)\<rparr>,
           held := (held s)(w := [p]), alive := insert p (alive s)\<rparr>) xs"
proof -
  let ?y = "(sy s)\<lparr>mqs := (mqs (sy s))(p \<mapsto> skynet_mq_create h)\<rparr>"
  have no: "\<not> owned (held s) xs p"
    using inv new by (auto simp: sched_inv_def dest!: spec [of _ p])
  have ex: "exclusive ((held s)(w := [p])) xs"
    using sched_inv_parts(2) [OF inv] no by (auto simp: exclusive_def owned_def)
  have own: "owned ((held s)(w := [p])) xs x \<longleftrightarrow> owned (held s) xs x \<or> x = p" for x
    unfolding owned_def ex_held_upd ex_held_split [of x "held s" w] using w by auto
  have "p \<notin> set xs" using no by (simp add: owned_def)
  then have "gq_seg (mqs ?y) (gq_head ?y) xs None"
    using sched_inv_parts(1) [OF inv] by (subst gq_seg_cong [where h = "mqs (sy s)"]) (auto simp: gq_inv_def)
  then have gq: "gq_inv ?y xs"
    using sched_inv_parts(1) [OF inv] by (auto simp: gq_inv_def skynet_mq_create_def)
  have "queue_ok True True (skynet_mq_create h)"
    using mq_create_inv by (simp add: queue_ok_def skynet_mq_create_def)
  then show ?thesis
    using sched_inv_update [OF inv gq ex, of p "insert p (alive s)"] own by simp
qed

lemma sched_step_inv:
  assumes "sched_step s t" and "sched_inv s xs"
  shows "\<exists>ys. sched_inv t ys"
  using assms
proof (induction rule: sched_step.induct)
  case (create s p w h) then show ?case using inv_create by blast
next
  case (requeue s w p y) then show ?case using inv_give_back by blast
next
  case (push p s m y) then show ?case using inv_push [of s xs p m] by auto
next
  case (take s w p y) then show ?case using inv_take [of s xs p y w] by simp
next
  case (work s w p m y)
  then have "owned (held s) xs p" by (auto simp: owned_def intro: exI [of _ w])
  with work show ?case using inv_work by blast
next
  case (idle s w p y) then show ?case using inv_empty_pop(1) by blast
next
  case (take_next s w p n y) then show ?case using inv_take [of s xs n y w] by simp
next
  case (push_back s w p n y) then show ?case using inv_give_back by blast
next
  case (mark p s y) then show ?case using inv_mark [of s xs p] by auto
next
  case (drop s w p y y') then show ?case using inv_empty_pop(2) [of s xs w p y] by auto
qed

lemma sched_reachable_inv: "sched_reachable s \<Longrightarrow> \<exists>xs. sched_inv s xs"
  by (induction rule: sched_reachable.induct) (use sched_inv_init sched_step_inv in blast)+

subsection \<open>Properties of the scheduler\<close>

text \<open>
  C13. One worker per service. In every reachable state a message queue is held by at most one
  thread, at most once, and a held queue is not in the global list (no other worker can pop
  it): the messages of a service are never dispatched by two workers at the same time.
\<close>

theorem queue_held_once:
  assumes "sched_reachable s" and "p \<in> set (held s w)"
  shows "distinct (held s w) \<and> (\<forall>v. p \<in> set (held s v) \<longrightarrow> v = w)
           \<and> (\<exists>xs. gq_inv (sy s) xs \<and> p \<notin> set xs)"
proof -
  obtain xs where "sched_inv s xs" using sched_reachable_inv [OF assms(1)] by blast
  then have "gq_inv (sy s) xs" "exclusive (held s) xs" by (auto simp: sched_inv_parts)
  with assms(2) show ?thesis unfolding exclusive_def by blast
qed

text \<open>
  C8. No message is stranded. In every reachable state a queue that holds a message, and every
  queue whose context has been deleted, is in the global list or held by a thread, so it will
  be dispatched or dropped: the emptiness test of \<open>skynet_mq_pop\<close> and the wake-up of
  \<open>skynet_mq_push\<close> lose no notification.
\<close>

theorem no_lost_wakeup:
  assumes "sched_reachable s" and "mqs (sy s) p = Some q" and "mq_list q \<noteq> [] \<or> mq_release q"
  shows "\<exists>xs. gq_inv (sy s) xs \<and> (p \<in> set xs \<or> (\<exists>w. p \<in> set (held s w)))"
proof -
  obtain xs where inv: "sched_inv s xs" using sched_reachable_inv [OF assms(1)] by blast
  then have "queue_ok (owned (held s) xs p) (p \<in> alive s) q"
    using assms(2) by (auto simp: sched_inv_def dest!: spec [of _ p])
  with assms(3) have "owned (held s) xs p" by (auto simp: queue_ok_def split: if_splits)
  with sched_inv_parts [OF inv] show ?thesis by (auto simp: owned_def)
qed


text \<open>A run: a queue is created, published, gets a message and is taken by worker 1.\<close>

definition demo_msg :: skynet_message where
  "demo_msg = \<lparr>msg_source = 1, msg_session = 7, msg_data = None, msg_sz = 0\<rparr>"

definition demo_queue :: message_queue where
  "demo_queue = mq_store (skynet_mq_create 5) demo_msg"

definition demo_sched :: sched where
  "demo_sched = \<lparr>sy = \<lparr>mqs = [9 \<mapsto> demo_queue], gq_head = None, gq_tail = None\<rparr>,
                 held = (\<lambda>_. [])(1 := [9]), alive = {9}\<rparr>"

lemma demo_queue_flags:
  "mq_next demo_queue = None" "mq_in_global demo_queue" "mq_list demo_queue = [demo_msg]"
  using mq_create_inv by (simp_all add: demo_queue_def mq_store_ok) (simp_all add: skynet_mq_create_def)

lemma demo_sched_reachable: "sched_reachable demo_sched"
proof -
  define q0 where "q0 = skynet_mq_create 5"
  define y1 where "y1 = \<lparr>mqs = [9 \<mapsto> q0], gq_head = None, gq_tail = None\<rparr>"
  define y2 where "y2 = \<lparr>mqs = [9 \<mapsto> q0], gq_head = Some 9, gq_tail = Some 9\<rparr>"
  define y3 where "y3 = \<lparr>mqs = [9 \<mapsto> demo_queue], gq_head = Some 9, gq_tail = Some 9\<rparr>"
  have q0: "mq_next q0 = None" "mq_in_global q0" by (simp_all add: q0_def skynet_mq_create_def)
  have 1: "sched_reachable \<lparr>sy = y1, held = (\<lambda>_. [])(1 := [9]), alive = {9}\<rparr>"
    using sched_reachable.step [OF sched_reachable.init sched_step.create [of sched_init 9 1 5]]
    by (simp add: sched_init_def y1_def q0_def)
  have "skynet_globalmq_push y1 9 = Some y2"
    using q0 by (simp add: skynet_globalmq_push_def y1_def y2_def)
  then have 2: "sched_reachable \<lparr>sy = y2, held = (\<lambda>_. []), alive = {9}\<rparr>"
    using sched_reachable.step [OF 1 sched_step.requeue [of _ 1 9 y2]]
    by (simp add: fun_upd_idem)
  have "skynet_mq_push y2 9 demo_msg = Some y3"
    using q0 by (simp add: skynet_mq_push_def y2_def y3_def demo_queue_def q0_def)
  then have 3: "sched_reachable \<lparr>sy = y3, held = (\<lambda>_. []), alive = {9}\<rparr>"
    using sched_reachable.step [OF 2 sched_step.push [of 9 _ demo_msg y3]] by simp
  have "skynet_globalmq_pop y3 = Some (Some 9, sy demo_sched)"
  proof -
    have e: "demo_queue\<lparr>mq_next := None\<rparr> = demo_queue"
      using demo_queue_flags(1) by (cases demo_queue) simp
    show ?thesis by (simp add: skynet_globalmq_pop_def y3_def demo_sched_def demo_queue_flags(1) e)
  qed
  then show ?thesis
    using sched_reachable.step [OF 3 sched_step.take [of _ 1 9 "sy demo_sched"]]
    by (simp add: demo_sched_def)
qed

theorem queue_held_once_witness:
  "9 \<in> set (held demo_sched 1) \<and> distinct (held demo_sched 1)
   \<and> 9 \<notin> set (held demo_sched 2)"
  using queue_held_once [OF demo_sched_reachable, of 9 1] by (simp add: demo_sched_def)

theorem no_lost_wakeup_witness:
  "\<exists>xs. gq_inv (sy demo_sched) xs \<and> (9 \<in> set xs \<or> (\<exists>w. 9 \<in> set (held demo_sched w)))"
  using no_lost_wakeup [OF demo_sched_reachable, of 9 demo_queue] demo_queue_flags
  by (simp add: demo_sched_def)


end
