(* ===== verification/Skynet_Timer.thy ===== *)
theory Skynet_Timer
  imports Skynet_MQ Skynet_CLib
begin

text \<open>
  The timer wheel of \<^verbatim>\<open>skynet-src/skynet_timer.c\<close>: 256 lists for the current window of
  256 ticks and four levels of 64 lists for later windows, cascaded as the 32-bit time advances.

  A \<open>link_list\<close> is the HOL list of its nodes from \<open>head.next\<close> on; a node carries the
  event stored behind it. Delivering an event calls \<open>skynet_context_push\<close>, which belongs to
  \<^verbatim>\<open>skynet_server.c\<close> and changes the rest of the runtime: it is the argument
  \<open>push\<close> of the operations that deliver, a function on the state \<open>'s\<close> of that rest
  with the return code of the C function. The clock readings are arguments.
\<close>

subsection \<open>Data\<close>

record timer_event =
  te_handle :: u32
  te_session :: cint

record timer_node =
  tn_expire :: u32
  tn_event :: timer_event

record timer =
  tm_near :: "timer_node list list"
  tm_t :: "timer_node list list list"
  tm_time :: u32
  tm_starttime :: u32
  tm_current :: u64
  tm_current_point :: u64

definition TIME_NEAR_SHIFT :: nat where "TIME_NEAR_SHIFT = 8"
definition TIME_NEAR :: u32 where "TIME_NEAR = push_bit TIME_NEAR_SHIFT 1"
definition TIME_LEVEL_SHIFT :: nat where "TIME_LEVEL_SHIFT = 6"
definition TIME_LEVEL :: u32 where "TIME_LEVEL = push_bit TIME_LEVEL_SHIFT 1"
definition TIME_NEAR_MASK :: u32 where "TIME_NEAR_MASK = TIME_NEAR - 1"
definition TIME_LEVEL_MASK :: u32 where "TIME_LEVEL_MASK = TIME_LEVEL - 1"

definition PTYPE_RESPONSE :: size_t where "PTYPE_RESPONSE = 1"

subsection \<open>Linking nodes\<close>

definition link_near :: "timer \<Rightarrow> nat \<Rightarrow> timer_node \<Rightarrow> timer" where
  "link_near T j node = T\<lparr>tm_near := (tm_near T)[j := tm_near T ! j @ [node]]\<rparr>"

definition link_level :: "timer \<Rightarrow> nat \<Rightarrow> nat \<Rightarrow> timer_node \<Rightarrow> timer" where
  "link_level T i j node =
     T\<lparr>tm_t := (tm_t T)[i := (tm_t T ! i)[j := tm_t T ! i ! j @ [node]]]\<rparr>"

text \<open>The loop of \<open>add_node\<close> that looks for the level: \<open>k\<close> iterations are left.\<close>

fun find_level :: "u32 \<Rightarrow> u32 \<Rightarrow> nat \<Rightarrow> nat \<Rightarrow> u32 \<Rightarrow> nat" where
  "find_level time current_time 0 i msk = i"
| "find_level time current_time (Suc k) i msk =
     (if time OR (msk - 1) = current_time OR (msk - 1) then i
      else find_level time current_time k (i + 1) (push_bit TIME_LEVEL_SHIFT msk))"

definition add_node :: "timer \<Rightarrow> timer_node \<Rightarrow> timer" where
  "add_node T node =
     (let time = tn_expire node; current_time = tm_time T
      in if time OR TIME_NEAR_MASK = current_time OR TIME_NEAR_MASK
         then link_near T (unat (time AND TIME_NEAR_MASK)) node
         else (let i = find_level time current_time 3 0 (push_bit TIME_LEVEL_SHIFT TIME_NEAR)
               in link_level T i
                    (unat (drop_bit (TIME_NEAR_SHIFT + i * TIME_LEVEL_SHIFT) time AND TIME_LEVEL_MASK))
                    node))"

definition timer_add :: "timer \<Rightarrow> timer_event \<Rightarrow> cint \<Rightarrow> timer" where
  "timer_add T arg time = add_node T \<lparr>tn_expire = time + tm_time T, tn_event = arg\<rparr>"

definition move_list :: "timer \<Rightarrow> nat \<Rightarrow> nat \<Rightarrow> timer" where
  "move_list T level idx =
     (let current = tm_t T ! level ! idx
      in foldl add_node (T\<lparr>tm_t := (tm_t T)[level := (tm_t T ! level)[idx := []]]\<rparr>) current)"

text \<open>
  The loop of \<open>timer_shift\<close>: \<open>k\<close> levels of the wheel are left, \<open>None\<close> is an
  access beyond the last one.
\<close>

fun shift_loop :: "nat \<Rightarrow> timer \<Rightarrow> u32 \<Rightarrow> u32 \<Rightarrow> nat \<Rightarrow> u32 \<Rightarrow> timer option" where
  "shift_loop 0 T ct time i msk = None"
| "shift_loop (Suc k) T ct time i msk =
     (if ct AND (msk - 1) = 0
      then (let idx = unat (time AND TIME_LEVEL_MASK)
            in if idx \<noteq> 0 then Some (move_list T i idx)
               else shift_loop k T ct (drop_bit TIME_LEVEL_SHIFT time) (i + 1)
                      (push_bit TIME_LEVEL_SHIFT msk))
      else Some T)"

definition timer_shift :: "timer \<Rightarrow> timer option" where
  "timer_shift T =
     (let ct = tm_time T + 1; T = T\<lparr>tm_time := ct\<rparr>
      in if ct = 0 then Some (move_list T 3 0)
         else shift_loop 4 T ct (drop_bit TIME_NEAR_SHIFT ct) 0 TIME_NEAR)"

subsection \<open>Delivery\<close>

definition timer_message :: "cint \<Rightarrow> skynet_message" where
  "timer_message session =
     \<lparr>msg_source = 0, msg_session = session, msg_data = None,
      msg_sz = push_bit MESSAGE_TYPE_SHIFT PTYPE_RESPONSE\<rparr>"

fun dispatch_list ::
  "(u32 \<Rightarrow> skynet_message \<Rightarrow> 's \<Rightarrow> (int \<times> 's) option) \<Rightarrow> timer_node list \<Rightarrow> 's \<Rightarrow> 's option" where
  "dispatch_list push [] s = Some s"
| "dispatch_list push (current # rest) s = do {
     (_, s) \<leftarrow> push (te_handle (tn_event current))
                   (timer_message (te_session (tn_event current))) s;
     dispatch_list push rest s }"

function timer_execute ::
  "(u32 \<Rightarrow> skynet_message \<Rightarrow> 's \<Rightarrow> (int \<times> 's) option) \<Rightarrow> timer \<Rightarrow> 's \<Rightarrow> (timer \<times> 's) option" where
  "timer_execute push T s =
     (let idx = unat (tm_time T AND TIME_NEAR_MASK)
      in if idx < length (tm_near T) \<and> tm_near T ! idx \<noteq> [] then do {
           s \<leftarrow> dispatch_list push (tm_near T ! idx) s;
           timer_execute push (T\<lparr>tm_near := (tm_near T)[idx := []]\<rparr>) s }
         else Some (T, s))"
  by pat_completeness auto
termination
  by (relation "measure (\<lambda>(push, T, s).
        length (tm_near T ! unat (tm_time T AND TIME_NEAR_MASK)))") auto

declare timer_execute.simps [simp del]

definition timer_update ::
  "(u32 \<Rightarrow> skynet_message \<Rightarrow> 's \<Rightarrow> (int \<times> 's) option) \<Rightarrow> timer \<Rightarrow> 's \<Rightarrow> (timer \<times> 's) option" where
  "timer_update push T s = do {
     (T, s) \<leftarrow> timer_execute push T s;
     T \<leftarrow> timer_shift T;
     timer_execute push T s }"

definition timer_create_timer :: timer where
  "timer_create_timer =
     \<lparr>tm_near = replicate 256 [], tm_t = replicate 4 (replicate 64 []),
      tm_time = 0, tm_starttime = 0, tm_current = 0, tm_current_point = 0\<rparr>"

definition skynet_timeout ::
  "(u32 \<Rightarrow> skynet_message \<Rightarrow> 's \<Rightarrow> (int \<times> 's) option) \<Rightarrow> timer \<Rightarrow> 's \<Rightarrow> u32 \<Rightarrow> cint \<Rightarrow> cint
     \<Rightarrow> (cint \<times> timer \<times> 's) option" where
  "skynet_timeout push T s handle time session =
     (if sint time \<le> 0 then do {
        (r, s) \<leftarrow> push handle (timer_message session) s;
        Some (if r \<noteq> 0 then -1 else session, T, s) }
      else Some (session, timer_add T \<lparr>te_handle = handle, te_session = session\<rparr> time, s))"

subsection \<open>The clock\<close>

text \<open>\<open>systime\<close> and \<open>gettime\<close> on a \<open>struct timespec\<close> of non-negative seconds and nanoseconds.\<close>

definition systime :: "nat \<Rightarrow> nat \<Rightarrow> u32 \<times> u32" where
  "systime tv_sec tv_nsec = (word_of_nat tv_sec, word_of_nat (tv_nsec div 10000000))"

definition gettime :: "nat \<Rightarrow> nat \<Rightarrow> u64" where
  "gettime tv_sec tv_nsec = word_of_nat tv_sec * 100 + word_of_nat (tv_nsec div 10000000)"

fun update_loop ::
  "(u32 \<Rightarrow> skynet_message \<Rightarrow> 's \<Rightarrow> (int \<times> 's) option) \<Rightarrow> nat \<Rightarrow> timer \<Rightarrow> 's \<Rightarrow> (timer \<times> 's) option" where
  "update_loop push 0 T s = Some (T, s)"
| "update_loop push (Suc n) T s = do {
     (T, s) \<leftarrow> timer_update push T s;
     update_loop push n T s }"

text \<open>\<open>err\<close> is \<open>skynet_error(NULL, ...)\<close> on the text of the message.\<close>

definition skynet_updatetime ::
  "(u32 \<Rightarrow> skynet_message \<Rightarrow> 's \<Rightarrow> (int \<times> 's) option) \<Rightarrow> (u64 \<Rightarrow> u64 \<Rightarrow> 's \<Rightarrow> 's option)
     \<Rightarrow> u64 \<Rightarrow> timer \<Rightarrow> 's \<Rightarrow> (timer \<times> 's) option" where
  "skynet_updatetime push err cp T s =
     (if cp < tm_current_point T then do {
        s \<leftarrow> err cp (tm_current_point T) s;
        Some (T\<lparr>tm_current_point := cp\<rparr>, s) }
      else if cp \<noteq> tm_current_point T
      then (let diff = (ucast (cp - tm_current_point T) :: u32)
            in update_loop push (unat diff)
                 (T\<lparr>tm_current_point := cp, tm_current := tm_current T + ucast diff\<rparr>) s)
      else Some (T, s))"

definition skynet_starttime :: "timer \<Rightarrow> u32" where
  "skynet_starttime T = tm_starttime T"

definition skynet_now :: "timer \<Rightarrow> u64" where
  "skynet_now T = tm_current T"

definition skynet_timer_init :: "u32 \<times> u32 \<Rightarrow> u64 \<Rightarrow> timer" where
  "skynet_timer_init wall cp =
     timer_create_timer\<lparr>tm_starttime := fst wall, tm_current := ucast (snd wall),
                        tm_current_point := cp\<rparr>"

definition skynet_thread_time :: "nat \<Rightarrow> nat \<Rightarrow> u64" where
  "skynet_thread_time tv_sec tv_nsec =
     word_of_nat tv_sec * 1000000 + word_of_nat tv_nsec div (1000000000 div 1000000)"

subsection \<open>The masks as divisions\<close>

lemma time_consts [sk_word]:
  "TIME_NEAR = 2 ^ 8" "TIME_NEAR_MASK = 2 ^ 8 - 1" "TIME_LEVEL_MASK = 2 ^ 6 - 1"
  "TIME_NEAR_SHIFT = 8" "TIME_LEVEL_SHIFT = 6" "push_bit 6 (2 ^ 8) = (2 ^ 14 :: u32)"
  by (simp_all add: TIME_NEAR_def TIME_NEAR_SHIFT_def TIME_NEAR_MASK_def TIME_LEVEL_MASK_def
      TIME_LEVEL_def TIME_LEVEL_SHIFT_def)

text \<open>The field of a time that selects the list of level \<open>i\<close>.\<close>

definition fld :: "nat \<Rightarrow> nat \<Rightarrow> nat" where
  "fld i e = e div 2 ^ (8 + 6 * i) mod 64"

lemma fld_less: "fld i e < 64"
  by (simp add: fld_def)

lemma fld_word: "unat (drop_bit (8 + i * 6) x AND TIME_LEVEL_MASK) = fld i (unat (x :: u32))"
  unfolding time_consts and_exp_minus_1 unat_drop_bit fld_def by (simp add: mult.commute)

lemma find_level_spec:
  "find_level e c 3 0 (2 ^ 14) =
     (if unat e div 2 ^ 14 = unat c div 2 ^ 14 then 0
      else if unat e div 2 ^ 20 = unat c div 2 ^ 20 then 1
      else if unat e div 2 ^ 26 = unat c div 2 ^ 26 then 2 else 3)"
proof -
  have p: "push_bit 6 (2 ^ 14) = (2 ^ 20 :: u32)" "push_bit 6 (2 ^ 20) = (2 ^ 26 :: u32)" by simp_all
  have "find_level e c 3 0 (2 ^ 14) = find_level e c (Suc (Suc (Suc 0))) 0 (2 ^ 14)"
    by (simp only: numeral_3_eq_3)
  then show ?thesis
    by (simp only: find_level.simps time_consts p or_mask_eq_iff) simp
qed

subsection \<open>Where a node is\<close>

definition near_ok :: "nat \<Rightarrow> nat \<Rightarrow> bool" where
  "near_ok e c \<longleftrightarrow> e div 2 ^ 8 = c div 2 ^ 8"

definition level_ok :: "nat \<Rightarrow> nat \<Rightarrow> nat \<Rightarrow> bool" where
  "level_ok i e c \<longleftrightarrow> e div 2 ^ (14 + 6 * i) = c div 2 ^ (14 + 6 * i)
     \<and> e div 2 ^ (8 + 6 * i) \<noteq> c div 2 ^ (8 + 6 * i)"

definition timer_shape :: "timer \<Rightarrow> bool" where
  "timer_shape T \<longleftrightarrow> length (tm_near T) = 256 \<and> length (tm_t T) = 4
     \<and> (\<forall>i < 4. length (tm_t T ! i) = 64)"

definition placed :: "timer \<Rightarrow> bool" where
  "placed T \<longleftrightarrow> timer_shape T
     \<and> (\<forall>j < 256. \<forall>n \<in> set (tm_near T ! j).
          near_ok (unat (tn_expire n)) (unat (tm_time T)) \<and> unat (tn_expire n) mod 2 ^ 8 = j)
     \<and> (\<forall>i < 4. \<forall>j < 64. \<forall>n \<in> set (tm_t T ! i ! j).
          level_ok i (unat (tn_expire n)) (unat (tm_time T)) \<and> fld i (unat (tn_expire n)) = j)"

lemma level_ok_cases:
  "level_ok 0 e c \<longleftrightarrow> e div 2 ^ 14 = c div 2 ^ 14 \<and> e div 2 ^ 8 \<noteq> c div 2 ^ 8"
  "level_ok 1 e c \<longleftrightarrow> e div 2 ^ 20 = c div 2 ^ 20 \<and> e div 2 ^ 14 \<noteq> c div 2 ^ 14"
  "level_ok 2 e c \<longleftrightarrow> e div 2 ^ 26 = c div 2 ^ 26 \<and> e div 2 ^ 20 \<noteq> c div 2 ^ 20"
  "level_ok 3 e c \<longleftrightarrow> e div 2 ^ 32 = c div 2 ^ 32 \<and> e div 2 ^ 26 \<noteq> c div 2 ^ 26"
  by (simp_all add: level_ok_def)

text \<open>The level \<open>add_node\<close> chooses for an expiry time outside the near window.\<close>

definition level_of :: "nat \<Rightarrow> nat \<Rightarrow> nat" where
  "level_of e c = (if e div 2 ^ 14 = c div 2 ^ 14 then 0
     else if e div 2 ^ 20 = c div 2 ^ 20 then 1 else if e div 2 ^ 26 = c div 2 ^ 26 then 2 else 3)"

lemma level_of_ok:
  assumes "\<not> near_ok e c" and "e div 2 ^ 32 = c div 2 ^ 32"
  shows "level_of e c < 4" and "level_ok (level_of e c) e c"
proof -
  show "level_of e c < 4" by (simp add: level_of_def)
  define D where "D m \<longleftrightarrow> e div 2 ^ m = c div 2 ^ m" for m
  show "level_ok (level_of e c) e c"
    using assms unfolding level_of_def near_ok_def D_def [symmetric]
    by (auto simp only: level_ok_cases D_def [symmetric] if_True if_False split: if_split)
qed

lemma div_coarser: "e div 2 ^ m = c div 2 ^ m \<Longrightarrow> m \<le> n \<Longrightarrow> e div 2 ^ n = c div (2 :: nat) ^ n"
  by (metis div_mult2_eq le_add_diff_inverse power_add)

lemma level_of_unique:
  assumes "level_ok i e c" and "i < 4"
  shows "\<not> near_ok e c" and "level_of e c = i"
proof -
  have diff: "e div 2 ^ m \<noteq> c div 2 ^ m" if "m \<le> 8 + 6 * i" for m
  proof
    assume "e div 2 ^ m = c div 2 ^ m"
    from div_coarser [OF this that] assms(1) show False by (simp add: level_ok_def)
  qed
  have eq: "e div 2 ^ (14 + 6 * i) = c div 2 ^ (14 + 6 * i)"
    using assms(1) by (simp add: level_ok_def)
  show "\<not> near_ok e c" using diff [of 8] by (simp add: near_ok_def)
  from assms(2) consider "i = 0" | "i = 1" | "i = 2" | "i = 3" by linarith
  then show "level_of e c = i"
    using eq diff [of 14] diff [of 20] diff [of 26] by cases (simp_all add: level_of_def)
qed

lemma placedI:
  assumes "timer_shape T"
    and "\<And>j n. j < 256 \<Longrightarrow> n \<in> set (tm_near T ! j) \<Longrightarrow>
           near_ok (unat (tn_expire n)) (unat (tm_time T)) \<and> unat (tn_expire n) mod 2 ^ 8 = j"
    and "\<And>i j n. i < 4 \<Longrightarrow> j < 64 \<Longrightarrow> n \<in> set (tm_t T ! i ! j) \<Longrightarrow>
           level_ok i (unat (tn_expire n)) (unat (tm_time T)) \<and> fld i (unat (tn_expire n)) = j"
  shows "placed T"
  using assms unfolding placed_def by blast

lemma placed_near:
  "placed T \<Longrightarrow> j < 256 \<Longrightarrow> n \<in> set (tm_near T ! j) \<Longrightarrow>
     near_ok (unat (tn_expire n)) (unat (tm_time T)) \<and> unat (tn_expire n) mod 2 ^ 8 = j"
  unfolding placed_def by blast

lemma placed_level:
  "placed T \<Longrightarrow> i < 4 \<Longrightarrow> j < 64 \<Longrightarrow> n \<in> set (tm_t T ! i ! j) \<Longrightarrow>
     level_ok i (unat (tn_expire n)) (unat (tm_time T)) \<and> fld i (unat (tn_expire n)) = j"
  unfolding placed_def by blast

text \<open>The pending nodes, and the ticks until a node is due.\<close>

definition timer_nodes :: "timer \<Rightarrow> timer_node multiset" where
  "timer_nodes T = mset (concat (tm_near T)) + mset (concat (concat (tm_t T)))"

definition ticks_left :: "timer \<Rightarrow> timer_node \<Rightarrow> nat" where
  "ticks_left T n = unat (tn_expire n - tm_time T)"

definition timer_inv :: "timer \<Rightarrow> bool" where
  "timer_inv T \<longleftrightarrow> placed T \<and> (\<forall>n. n \<in># timer_nodes T \<longrightarrow> 0 < ticks_left T n \<and> ticks_left T n < 2 ^ 31)"

lemma timer_nodes_iff:
  assumes "timer_shape T"
  shows "n \<in># timer_nodes T \<longleftrightarrow>
     (\<exists>j < 256. n \<in> set (tm_near T ! j)) \<or> (\<exists>i < 4. \<exists>j < 64. n \<in> set (tm_t T ! i ! j))"
proof -
  have "n \<in> set (concat (concat (tm_t T))) \<longleftrightarrow> (\<exists>i < 4. \<exists>j < 64. n \<in> set (tm_t T ! i ! j))"
  proof -
    have "n \<in> set (concat (concat (tm_t T))) \<longleftrightarrow> (\<exists>l \<in> set (tm_t T). n \<in> set (concat l))"
      by auto
    also have "\<dots> \<longleftrightarrow> (\<exists>i < 4. n \<in> set (concat (tm_t T ! i)))"
      using assms by (metis in_set_conv_nth timer_shape_def)
    also have "\<dots> \<longleftrightarrow> (\<exists>i < 4. \<exists>j < 64. n \<in> set (tm_t T ! i ! j))"
      using assms set_concat_nth [of n] unfolding timer_shape_def by metis
    finally show ?thesis .
  qed
  moreover have "n \<in> set (concat (tm_near T)) \<longleftrightarrow> (\<exists>j < 256. n \<in> set (tm_near T ! j))"
    using assms unfolding set_concat_nth by (simp add: timer_shape_def)
  ultimately show ?thesis unfolding timer_nodes_def by simp
qed

subsection \<open>Adding nodes\<close>

lemma link_near_nodes:
  assumes "timer_shape T" and "j < 256"
  shows "timer_nodes (link_near T j n) = add_mset n (timer_nodes T)"
    and "timer_shape (link_near T j n)" and "tm_time (link_near T j n) = tm_time T"
    and "tm_t (link_near T j n) = tm_t T"
    and "tm_near (link_near T j n) ! k = (if k = j then tm_near T ! k @ [n] else tm_near T ! k)"
proof -
  have j: "j < length (tm_near T)" using assms by (simp add: timer_shape_def)
  have "mset (concat ((tm_near T)[j := tm_near T ! j @ [n]])) = add_mset n (mset (concat (tm_near T)))"
    by (rule mset_append_cancel) (rule mset_concat_update [OF j])
  then show "timer_nodes (link_near T j n) = add_mset n (timer_nodes T)"
    by (simp add: timer_nodes_def link_near_def)
  show "tm_near (link_near T j n) ! k = (if k = j then tm_near T ! k @ [n] else tm_near T ! k)"
    using j by (simp add: link_near_def)
qed (use assms in \<open>simp_all add: link_near_def timer_shape_def\<close>)

text \<open>Replacing one list of one level.\<close>

lemma mset_level_update:
  assumes "timer_shape T" and "i < 4" and "j < 64"
  shows "mset (concat (concat ((tm_t T)[i := (tm_t T ! i)[j := ys]]))) + mset (tm_t T ! i ! j)
      = mset (concat (concat (tm_t T))) + mset ys"
proof -
  let ?l = "tm_t T ! i"
  have b: "i < length (tm_t T)" "j < length ?l" using assms by (auto simp: timer_shape_def)
  have inner: "mset (concat (?l[j := ys])) + mset (?l ! j) = mset (concat ?l) + mset ys"
    by (rule mset_concat_update [OF b(2)])
  have cc: "concat (concat xss) = concat (map concat xss)" for xss :: "timer_node list list list"
    by (induction xss) auto
  have "mset (concat ((map concat (tm_t T))[i := concat (?l[j := ys])])) + mset (concat ?l)
      = mset (concat (map concat (tm_t T))) + mset (concat (?l[j := ys]))"
    using mset_concat_update [of i "map concat (tm_t T)" "concat (?l[j := ys])"] b by simp
  then have outer: "mset (concat (concat ((tm_t T)[i := ?l[j := ys]]))) + mset (concat ?l)
      = mset (concat (concat (tm_t T))) + mset (concat (?l[j := ys]))"
    unfolding cc by (simp add: map_update)
  show ?thesis by (rule add_exchange [OF outer inner])
qed

lemma level_update_lists:
  assumes "timer_shape T" and "i < 4" and "j < 64"
  shows "timer_shape (T\<lparr>tm_t := (tm_t T)[i := (tm_t T ! i)[j := ys]]\<rparr>)"
    and "i' < 4 \<Longrightarrow> j' < 64 \<Longrightarrow> (tm_t T)[i := (tm_t T ! i)[j := ys]] ! i' ! j' =
           (if i' = i \<and> j' = j then ys else tm_t T ! i' ! j')"
  using assms by (auto simp: timer_shape_def nth_list_update)

lemma link_level_nodes:
  assumes "timer_shape T" and "i < 4" and "j < 64"
  shows "timer_nodes (link_level T i j n) = add_mset n (timer_nodes T)"
proof -
  let ?t = "(tm_t T)[i := (tm_t T ! i)[j := tm_t T ! i ! j @ [n]]]"
  have "mset (concat (concat ?t)) = add_mset n (mset (concat (concat (tm_t T))))"
    by (rule mset_append_cancel) (rule mset_level_update [OF assms])
  then show ?thesis by (simp add: timer_nodes_def link_level_def)
qed

lemma add_node_eq:
  "add_node T n =
     (let e = unat (tn_expire n); c = unat (tm_time T); i = level_of e c
      in if near_ok e c then link_near T (e mod 2 ^ 8) n else link_level T i (fld i e) n)"
  unfolding add_node_def Let_def time_consts or_mask_eq_iff and_exp_minus_1 near_ok_def find_level_spec
    level_of_def [symmetric] fld_word [unfolded time_consts and_exp_minus_1] by (rule refl)

lemma link_near_placed:
  assumes "placed T" and "near_ok (unat (tn_expire n)) (unat (tm_time T))"
  shows "placed (link_near T (unat (tn_expire n) mod 2 ^ 8) n)"
proof -
  have "timer_shape T" using assms(1) by (simp add: placed_def)
  note l = link_near_nodes [OF this, of "unat (tn_expire n) mod 2 ^ 8" n]
  show ?thesis
  proof (rule placedI)
    fix k m assume k: "k < 256" and "m \<in> set (tm_near (link_near T (unat (tn_expire n) mod 2 ^ 8) n) ! k)"
    then have "m \<in> set (tm_near T ! k) \<or> (m = n \<and> k = unat (tn_expire n) mod 2 ^ 8)"
      using l(5) by (auto split: if_splits)
    then show "near_ok (unat (tn_expire m)) (unat (tm_time (link_near T (unat (tn_expire n) mod 2 ^ 8) n)))
        \<and> unat (tn_expire m) mod 2 ^ 8 = k"
      using placed_near [OF assms(1) k] assms(2) l(3) by auto
  qed (use l placed_level [OF assms(1)] in auto)
qed

lemma link_level_placed:
  assumes "placed T" and i: "i < 4" and lv: "level_ok i (unat (tn_expire n)) (unat (tm_time T))"
  shows "placed (link_level T i (fld i (unat (tn_expire n))) n)" (is "placed ?T")
proof -
  let ?j = "fld i (unat (tn_expire n))"
  have shape: "timer_shape T" using assms(1) by (simp add: placed_def)
  note lists = level_update_lists [OF shape i fld_less [of i "unat (tn_expire n)"],
      where ys = "tm_t T ! i ! ?j @ [n]"]
  show ?thesis
  proof (rule placedI)
    show "timer_shape ?T" unfolding link_level_def by (rule lists)
  next
    fix k m assume "k < 256" "m \<in> set (tm_near ?T ! k)"
    then show "near_ok (unat (tn_expire m)) (unat (tm_time ?T)) \<and> unat (tn_expire m) mod 2 ^ 8 = k"
      using placed_near [OF assms(1)] by (simp add: link_level_def)
  next
    fix i' j' m assume ij: "i' < 4" "j' < 64" and "m \<in> set (tm_t ?T ! i' ! j')"
    then have "m \<in> set (tm_t T ! i' ! j') \<or> (m = n \<and> i' = i \<and> j' = ?j)"
      using lists(2) [OF ij] by (auto simp: link_level_def split: if_splits)
    then show "level_ok i' (unat (tn_expire m)) (unat (tm_time ?T)) \<and> fld i' (unat (tn_expire m)) = j'"
      using placed_level [OF assms(1) ij] lv by (auto simp: link_level_def)
  qed
qed

lemma add_node_placed:
  assumes "placed T"
  shows "placed (add_node T n)" and "timer_nodes (add_node T n) = add_mset n (timer_nodes T)"
    and "tm_time (add_node T n) = tm_time T"
proof -
  let ?e = "unat (tn_expire n)" and ?c = "unat (tm_time T)"
  have shape: "timer_shape T" using assms by (simp add: placed_def)
  have top: "?e div 2 ^ 32 = ?c div 2 ^ 32"
    using unat_u32_div [of "tn_expire n"] unat_u32_div [of "tm_time T"] by simp
  have "placed (add_node T n) \<and> timer_nodes (add_node T n) = add_mset n (timer_nodes T)
      \<and> tm_time (add_node T n) = tm_time T"
  proof (cases "near_ok ?e ?c")
    case True
    then show ?thesis
      using link_near_placed [OF assms True] link_near_nodes [OF shape, of "?e mod 2 ^ 8" n]
      by (simp add: add_node_eq)
  next
    case False
    note lv = level_of_ok [OF False top]
    from False show ?thesis
      using link_level_placed [OF assms lv] link_level_nodes [OF shape lv(1) fld_less]
      by (simp add: add_node_eq Let_def link_level_def)
  qed
  then show "placed (add_node T n)" "timer_nodes (add_node T n) = add_mset n (timer_nodes T)"
    "tm_time (add_node T n) = tm_time T" by auto
qed

lemma foldl_add_node:
  assumes "placed T"
  shows "placed (foldl add_node T ns) \<and> timer_nodes (foldl add_node T ns) = timer_nodes T + mset ns
      \<and> tm_time (foldl add_node T ns) = tm_time T"
  using assms
proof (induction ns arbitrary: T)
  case (Cons n ns)
  from Cons.IH [OF add_node_placed(1) [OF Cons.prems]] add_node_placed [OF Cons.prems] show ?case
    by simp
qed simp

subsection \<open>Cascading\<close>

lemma move_list_placed:
  assumes shape: "timer_shape T" and b: "l < 4" "k < 64"
    and rest: "placed (T\<lparr>tm_t := (tm_t T)[l := (tm_t T ! l)[k := []]]\<rparr>)"
  shows "placed (move_list T l k) \<and> timer_nodes (move_list T l k) = timer_nodes T
      \<and> tm_time (move_list T l k) = tm_time T"
proof -
  let ?T = "T\<lparr>tm_t := (tm_t T)[l := (tm_t T ! l)[k := []]]\<rparr>"
  have "timer_nodes ?T + mset (tm_t T ! l ! k) = timer_nodes T"
    using mset_level_update [OF shape b, of "[]"] by (simp add: timer_nodes_def add.assoc)
  with foldl_add_node [OF rest, of "tm_t T ! l ! k"] show ?thesis
    by (simp add: move_list_def Let_def)
qed

text \<open>Carries: what \<open>c + 1\<close> does to the windows of \<open>c\<close>.\<close>

lemma no_carry: "0 < m \<Longrightarrow> (c + 1) mod m \<noteq> 0 \<Longrightarrow> (c + 1) div m = c div (m :: nat)"
  by (simp add: div_Suc mod_Suc split: if_splits)

lemma last_of_window:
  assumes "(c + 1) mod m = 0" and "e div m = c div m" and "0 < (m :: nat)"
  shows "e \<le> c"
proof -
  have "c mod m = m - 1" using assms(1,3) by (simp add: mod_Suc split: if_splits)
  moreover have "e mod m \<le> m - 1" using mod_less_divisor [OF assms(3), of e] by simp
  ultimately show ?thesis using assms(2) by (metis add_le_mono1 div_mult_mod_eq mult.commute nat_add_left_cancel_le)
qed

lemma later_in_window:
  fixes e c :: u32
  assumes "unat e div 2 ^ m = unat c div 2 ^ m" and "m \<le> 26" and "unat (e - c) < 2 ^ 31" and "e \<noteq> c"
  shows "unat c < unat e"
proof (rule ccontr)
  assume "\<not> ?thesis"
  with assms(4) have lt: "unat e < unat c" using word_unat_eq_iff [of e c] by linarith
  then have "unat (e - c) = 2 ^ 32 + unat e - unat c"
    by (simp add: unat_sub_if' word_le_nat_alt)
  moreover have "unat c - unat e < 2 ^ 26"
  proof -
    have "unat c mod 2 ^ m < 2 ^ m" by simp
    also have "(2 :: nat) ^ m \<le> 2 ^ 26" using assms(2) by (rule power_increasing) simp
    finally have "unat c mod 2 ^ m < 2 ^ 26" .
    moreover have "unat c - unat e \<le> unat c mod 2 ^ m"
      using assms(1) by (metis div_mult_mod_eq diff_le_mono2 le_add1 add_diff_cancel_left')
    ultimately show ?thesis by linarith
  qed
  ultimately show False using assms(3) lt unat_u32_less [of c] by simp
qed

lemma same_window:
  fixes c :: u32
  assumes "(unat c + 1) mod 2 ^ m \<noteq> 0 \<or> 32 \<le> m"
  shows "unat (c + 1) div 2 ^ m = unat c div 2 ^ m"
proof (cases "32 \<le> m")
  case True
  then have "(2 :: nat) ^ 32 \<le> 2 ^ m" by (rule power_increasing) simp
  then show ?thesis using unat_u32_less [of c] unat_u32_less [of "c + 1"] by simp
next
  case False
  with assms have nz: "(unat c + 1) mod 2 ^ m \<noteq> 0" by simp
  have "unat c + 1 \<noteq> 2 ^ 32"
  proof
    assume "unat c + 1 = 2 ^ 32"
    moreover have "(2 :: nat) ^ 32 mod 2 ^ m = 0"
      using False by (intro dvd_imp_mod_0 le_imp_power_dvd) simp
    ultimately show False using nz by simp
  qed
  then have "unat (c + 1) = unat c + 1"
    using unat_u32_less [of c] unat_add_lem [of c 1] by simp
  then show ?thesis using no_carry [OF _ nz] by simp
qed

lemma window_mult: "d mod 2 ^ n = 0 \<Longrightarrow> m \<le> n \<Longrightarrow> (d :: nat) mod 2 ^ m = 0"
  by (meson dvd_trans le_imp_power_dvd mod_0_imp_dvd dvd_imp_mod_0)

text \<open>No node of a window that ends with this tick is left behind.\<close>

lemma window_empty:
  fixes e c :: u32
  assumes "(unat c + 1) mod 2 ^ m = 0" and "m \<le> 26" and "unat e div 2 ^ m = unat c div 2 ^ m"
    and "unat (e - c) < 2 ^ 31" and "e \<noteq> c"
  shows False
  using later_in_window [OF assms(3,2,4,5)] last_of_window [OF assms(1,3)] by simp

lemma fld_of_window:
  assumes "e div 2 ^ (8 + 6 * i) = c div 2 ^ (8 + 6 * i)"
  shows "fld i e = fld i c"
  using assms by (simp add: fld_def)

text \<open>A tick without carry keeps every node where it is.\<close>

lemma tick_placed:
  assumes pl: "placed T" and nc: "(unat (tm_time T) + 1) mod 2 ^ 8 \<noteq> 0"
  shows "placed (T\<lparr>tm_time := tm_time T + 1\<rparr>)"
proof -
  have w: "unat (tm_time T + 1) div 2 ^ m = unat (tm_time T) div 2 ^ m" if "8 \<le> m" for m
  proof (rule same_window)
    show "(unat (tm_time T) + 1) mod 2 ^ m \<noteq> 0 \<or> 32 \<le> m"
      using nc window_mult [OF _ that, of "unat (tm_time T) + 1"] by argo
  qed
  show ?thesis
  proof (rule placedI)
    show "timer_shape (T\<lparr>tm_time := tm_time T + 1\<rparr>)"
      using pl by (simp add: placed_def timer_shape_def)
  next
    fix j n assume "j < 256" "n \<in> set (tm_near (T\<lparr>tm_time := tm_time T + 1\<rparr>) ! j)"
    then show "near_ok (unat (tn_expire n)) (unat (tm_time (T\<lparr>tm_time := tm_time T + 1\<rparr>)))
        \<and> unat (tn_expire n) mod 2 ^ 8 = j"
      using placed_near [OF pl] w [of 8] by (simp add: near_ok_def)
  next
    fix i j n assume "i < 4" "j < 64" "n \<in> set (tm_t (T\<lparr>tm_time := tm_time T + 1\<rparr>) ! i ! j)"
    then show "level_ok i (unat (tn_expire n)) (unat (tm_time (T\<lparr>tm_time := tm_time T + 1\<rparr>)))
        \<and> fld i (unat (tn_expire n)) = j"
      using placed_level [OF pl] w [of "8 + 6 * i"] w [of "14 + 6 * i"] by (simp add: level_ok_def)
  qed
qed

text \<open>A tick that carries into level \<open>l\<close> leaves only one list to be moved.\<close>

lemma carry_placed:
  defines "ct \<equiv> \<lambda>T. tm_time T + 1"
  assumes pl: "placed T" and l: "l < 4"
    and ahead: "\<And>n. n \<in># timer_nodes T \<Longrightarrow> unat (tn_expire n - tm_time T) < 2 ^ 31 \<and> tn_expire n \<noteq> tm_time T"
    and carry: "(unat (tm_time T) + 1) mod 2 ^ (8 + 6 * l) = 0"
    and stop: "(unat (tm_time T) + 1) mod 2 ^ (14 + 6 * l) \<noteq> 0 \<or> l = 3"
  shows "placed (T\<lparr>tm_time := ct T, tm_t := (tm_t T)[l := (tm_t T ! l)[fld l (unat (ct T)) := []]]\<rparr>)"
    (is "placed ?T")
proof -
  have shape: "timer_shape T" using pl by (simp add: placed_def)
  note lists = level_update_lists [OF shape l fld_less, where ys = "[]"]
  have w: "unat (ct T) div 2 ^ m = unat (tm_time T) div 2 ^ m" if "14 + 6 * l \<le> m" for m
    unfolding ct_def
  proof (rule same_window)
    show "(unat (tm_time T) + 1) mod 2 ^ m \<noteq> 0 \<or> 32 \<le> m"
    proof (cases "l = 3")
      case False
      with stop show ?thesis using window_mult [OF _ that, of "unat (tm_time T) + 1"] by argo
    qed (use that in simp)
  qed
  have gone: False
    if "unat (tn_expire n) div 2 ^ m = unat (tm_time T) div 2 ^ m" "m \<le> 8 + 6 * l" "n \<in># timer_nodes T" for n m
    using window_empty [OF window_mult [OF carry that(2)] _ that(1)] ahead [OF that(3)] that(2) l by simp
  show ?thesis
  proof (rule placedI)
    show "timer_shape ?T" using lists(1) [of l "unat (ct T)"] by (simp add: timer_shape_def)
  next
    fix j n assume j: "j < 256" and n: "n \<in> set (tm_near ?T ! j)"
    then have "n \<in># timer_nodes T" unfolding timer_nodes_iff [OF shape] by auto
    moreover have "unat (tn_expire n) div 2 ^ 8 = unat (tm_time T) div 2 ^ 8"
      using placed_near [OF pl j] n by (simp add: near_ok_def)
    ultimately have False using gone [of n 8] by simp
    then show "near_ok (unat (tn_expire n)) (unat (tm_time ?T)) \<and> unat (tn_expire n) mod 2 ^ 8 = j" ..
  next
    fix i j n assume ij: "i < 4" "j < 64" and "n \<in> set (tm_t ?T ! i ! j)"
    then have n: "n \<in> set (tm_t T ! i ! j)" and moved: "\<not> (i = l \<and> j = fld l (unat (ct T)))"
      using lists(2) [OF ij] by (auto split: if_splits)
    let ?e = "unat (tn_expire n)"
    from placed_level [OF pl ij n] have lv: "level_ok i ?e (unat (tm_time T))" and f: "fld i ?e = j" by auto
    have nodes: "n \<in># timer_nodes T" using n ij unfolding timer_nodes_iff [OF shape] by blast
    have il: "l \<le> i"
    proof (rule ccontr)
      assume "\<not> l \<le> i"
      then show False using gone [of n "14 + 6 * i"] lv nodes by (simp add: level_ok_def)
    qed
    have "?e div 2 ^ (14 + 6 * i) = unat (ct T) div 2 ^ (14 + 6 * i)"
      using lv w [of "14 + 6 * i"] il by (simp add: level_ok_def)
    moreover have "?e div 2 ^ (8 + 6 * i) \<noteq> unat (ct T) div 2 ^ (8 + 6 * i)"
    proof (cases "i = l")
      case True
      with moved f show ?thesis using fld_of_window by metis
    next
      case False
      with il have "14 + 6 * l \<le> 8 + 6 * i" by simp
      then show ?thesis using lv w [of "8 + 6 * i"] by (simp add: level_ok_def)
    qed
    ultimately show "level_ok i ?e (unat (tm_time ?T)) \<and> fld i ?e = j"
      using f by (simp add: level_ok_def)
  qed
qed


subsection \<open>The shift\<close>

lemma fld_mask: "unat (drop_bit (8 + 6 * i) x AND TIME_LEVEL_MASK) = fld i (unat (x :: u32))"
  using fld_word [of i x] by (simp add: mult.commute)

lemma fld_zero_mod:
  assumes "d mod 2 ^ (8 + 6 * i) = 0"
  shows "fld i d = 0 \<longleftrightarrow> d mod 2 ^ (14 + 6 * i) = 0"
proof -
  have "d mod (2 ^ (8 + 6 * i) * 2 ^ 6) = 2 ^ (8 + 6 * i) * (d div 2 ^ (8 + 6 * i) mod 2 ^ 6)
      + d mod 2 ^ (8 + 6 * i)"
    by (rule mod_mult2_eq)
  moreover have "(2 :: nat) ^ (8 + 6 * i) * 2 ^ 6 = 2 ^ (14 + 6 * i)"
    unfolding power_add [symmetric] by (rule arg_cong [where f = "(^) 2"]) simp
  ultimately show ?thesis using assms by (simp add: fld_def)
qed

text \<open>
  The loop stops at the first level whose field of the new time is not zero: it never runs over
  the four levels, because the time itself is not zero.
\<close>

lemma shift_loop_spec:
  assumes "unat ct mod 2 ^ (8 + 6 * i) = 0 \<Longrightarrow> unat ct mod 2 ^ 32 \<noteq> 0" and "i + k = 4" and "0 < k"
  shows "(unat ct mod 2 ^ (8 + 6 * i) \<noteq> 0 \<and>
            shift_loop k T ct (drop_bit (8 + 6 * i) ct) i (2 ^ (8 + 6 * i)) = Some T)
      \<or> (\<exists>l. i \<le> l \<and> l < 4 \<and> unat ct mod 2 ^ (8 + 6 * l) = 0 \<and> unat ct mod 2 ^ (14 + 6 * l) \<noteq> 0
            \<and> shift_loop k T ct (drop_bit (8 + 6 * i) ct) i (2 ^ (8 + 6 * i))
                = Some (move_list T l (fld l (unat ct))))"
  using assms
proof (induction k arbitrary: i)
  case (Suc k)
  show ?case
  proof (cases "unat ct mod 2 ^ (8 + 6 * i) = 0")
    case False
    then show ?thesis by (simp add: and_mask_eq_0_iff)
  next
    case True
    show ?thesis
    proof (cases "fld i (unat ct) = 0")
      case False
      with True Suc.prems show ?thesis
        by (intro disjI2 exI [of _ i])
          (simp only: shift_loop.simps and_mask_eq_0_iff fld_mask Let_def if_True if_False, simp add: fld_zero_mod)
    next
      case fz: True
      with True have up: "unat ct mod 2 ^ (8 + 6 * Suc i) = 0"
        using fld_zero_mod [OF True] by (simp add: add.commute)
      have k: "0 < k"
      proof (rule ccontr)
        assume "\<not> 0 < k"
        with Suc.prems(2) have "i = 3" by simp
        with up Suc.prems(1) [OF True] show False by simp
      qed
      have p: "push_bit 6 (2 ^ (8 + 6 * i)) = (2 ^ (8 + 6 * Suc i) :: u32)"
        unfolding push_bit_eq_mult power_add [symmetric] by (rule arg_cong [where f = "(^) 2"]) simp
      have d: "drop_bit 6 (drop_bit (8 + 6 * i) ct) = drop_bit (8 + 6 * Suc i) ct"
        by (simp add: drop_bit_drop_bit)
      have step: "shift_loop (Suc k) T ct (drop_bit (8 + 6 * i) ct) i (2 ^ (8 + 6 * i))
          = shift_loop k T ct (drop_bit (8 + 6 * Suc i) ct) (Suc i) (2 ^ (8 + 6 * Suc i))"
        using True fz
        by (simp only: shift_loop.simps and_mask_eq_0_iff fld_mask Let_def if_True if_False)
           (simp only: time_consts p d, simp)
      from Suc.IH [OF _ _ k, of "Suc i"] Suc.prems up True show ?thesis
        unfolding step by (metis Suc_leD add_Suc_shift)
    qed
  qed
qed simp


subsection \<open>The pending timeouts of a tick\<close>

text \<open>The lists of the wheel, and the one a node with a given expiry time is in.\<close>

datatype slot = Near nat | Level nat nat

fun at_slot :: "timer \<Rightarrow> slot \<Rightarrow> timer_node list" where
  "at_slot T (Near j) = tm_near T ! j"
| "at_slot T (Level i j) = tm_t T ! i ! j"

fun valid_slot :: "slot \<Rightarrow> bool" where
  "valid_slot (Near j) \<longleftrightarrow> j < 256"
| "valid_slot (Level i j) \<longleftrightarrow> i < 4 \<and> j < 64"

definition slot_of :: "u32 \<Rightarrow> u32 \<Rightarrow> slot" where
  "slot_of e c = (let i = level_of (unat e) (unat c)
     in if near_ok (unat e) (unat c) then Near (unat e mod 2 ^ 8) else Level i (fld i (unat e)))"

text \<open>The nodes due at a time, in the order they were added.\<close>

definition pending :: "timer \<Rightarrow> u32 \<Rightarrow> timer_node list" where
  "pending T e = filter (\<lambda>n. tn_expire n = e) (at_slot T (slot_of e (tm_time T)))"

lemma slot_of_valid: "valid_slot (slot_of e c)"
  using fld_less by (simp add: slot_of_def Let_def level_of_def)

lemma timer_nodes_slot:
  assumes "timer_shape T"
  shows "n \<in># timer_nodes T \<longleftrightarrow> (\<exists>p. valid_slot p \<and> n \<in> set (at_slot T p))"
proof
  assume "n \<in># timer_nodes T"
  then consider j where "j < 256" "n \<in> set (tm_near T ! j)"
    | i j where "i < 4" "j < 64" "n \<in> set (tm_t T ! i ! j)"
    unfolding timer_nodes_iff [OF assms] by blast
  then show "\<exists>p. valid_slot p \<and> n \<in> set (at_slot T p)"
    by cases (metis at_slot.simps(1) valid_slot.simps(1), metis at_slot.simps(2) valid_slot.simps(2))
next
  assume "\<exists>p. valid_slot p \<and> n \<in> set (at_slot T p)"
  then obtain p where p: "valid_slot p" "n \<in> set (at_slot T p)" by blast
  then show "n \<in># timer_nodes T"
    unfolding timer_nodes_iff [OF assms] by (cases p) auto
qed

lemma placed_slot:
  assumes "placed T" and "valid_slot p" and "n \<in> set (at_slot T p)"
  shows "slot_of (tn_expire n) (tm_time T) = p"
proof (cases p)
  case (Near j)
  with placed_near [OF assms(1), of j n] assms(2,3) show ?thesis by (simp add: slot_of_def)
next
  case (Level i j)
  with assms(2,3) have "level_ok i (unat (tn_expire n)) (unat (tm_time T))" "fld i (unat (tn_expire n)) = j" "i < 4"
    using placed_level [OF assms(1), of i j n] by auto
  with level_of_unique Level show ?thesis by (simp add: slot_of_def)
qed

lemma pending_mem:
  assumes "placed T"
  shows "n \<in> set (pending T e) \<longleftrightarrow> n \<in># timer_nodes T \<and> tn_expire n = e"
proof -
  have "timer_shape T" using assms by (simp add: placed_def)
  then show ?thesis unfolding timer_nodes_slot [OF \<open>timer_shape T\<close>] pending_def
    using placed_slot [OF assms] slot_of_valid by (simp only: set_filter mem_Collect_eq) metis
qed

text \<open>A list that is not touched keeps the order of its nodes, wherever the time has moved.\<close>

lemma pending_keep:
  assumes "placed T" and "placed C" and "\<And>n. n \<in># timer_nodes C \<Longrightarrow> n \<in># timer_nodes T"
    and same: "at_slot C (slot_of e (tm_time T)) = at_slot T (slot_of e (tm_time T))"
  shows "pending C e = pending T e"
proof (cases "pending T e")
  case Nil
  then have "n \<notin> set (pending C e)" for n
    using pending_mem [OF assms(1), of n e] pending_mem [OF assms(2), of n e] assms(3) [of n] by auto
  then have "pending C e = []" by (metis list.set_intros(1) neq_Nil_conv)
  with Nil show ?thesis by simp
next
  case (Cons n ns)
  then have "n \<in> set (pending T e)" by simp
  then have "n \<in> set (at_slot C (slot_of e (tm_time T)))" and e: "tn_expire n = e"
    using same by (auto simp: pending_def)
  from placed_slot [OF assms(2) slot_of_valid this(1)] e
  have "slot_of e (tm_time C) = slot_of e (tm_time T)" by simp
  with same show ?thesis by (simp add: pending_def)
qed

lemma at_slot_add_node:
  assumes "placed T" and "valid_slot p"
  shows "at_slot (add_node T n) p =
    at_slot T p @ (if p = slot_of (tn_expire n) (tm_time T) then [n] else [])"
proof -
  let ?x = "unat (tn_expire n)" and ?c = "unat (tm_time T)"
  have shape: "timer_shape T" using assms by (simp add: placed_def)
  note lists = level_update_lists(2) [OF shape level_of_ok(1) fld_less]
  show ?thesis
  proof (cases "near_ok ?x ?c")
    case True
    then show ?thesis using link_near_nodes(4,5) [OF shape, of "?x mod 2 ^ 8" n]
      by (cases p) (simp_all add: add_node_eq Let_def slot_of_def)
  next
    case False
    have l: "level_of ?x ?c < 4" by (simp add: level_of_def)
    show ?thesis
    proof (cases p)
      case (Level i j)
      with False assms(2) show ?thesis
        using level_update_lists(2) [OF shape l fld_less, of i j "level_of ?x ?c" ?x]
        by (simp add: add_node_eq Let_def slot_of_def link_level_def)
    qed (use False in \<open>simp add: add_node_eq Let_def slot_of_def link_level_def\<close>)
  qed
qed

lemma pending_add_node:
  assumes "placed T"
  shows "pending (add_node T n) e = pending T e @ (if tn_expire n = e then [n] else [])"
  using at_slot_add_node [OF assms slot_of_valid, of n e "tm_time T"] add_node_placed(3) [OF assms, of n]
  by (auto simp: pending_def)

lemma pending_foldl_add_node:
  assumes "placed T"
  shows "pending (foldl add_node T ns) e = pending T e @ filter (\<lambda>n. tn_expire n = e) ns"
  using assms
proof (induction ns arbitrary: T)
  case (Cons n ns)
  then show ?case using add_node_placed [OF Cons.prems] pending_add_node [OF Cons.prems] by simp
qed simp

text \<open>Clearing one list and adding its nodes again keeps the order per expiry time.\<close>

lemma pending_cleared:
  assumes "placed T" and "placed C" and "valid_slot q"
    and "\<And>p. valid_slot p \<Longrightarrow> at_slot C p = (if p = q then [] else at_slot T p)"
  shows "pending C e @ filter (\<lambda>n. tn_expire n = e) (at_slot T q) = pending T e"
proof -
  have shape: "timer_shape T" "timer_shape C" using assms(1,2) by (simp_all add: placed_def)
  have sub: "n \<in># timer_nodes T" if "n \<in># timer_nodes C" for n
    using that assms(4) unfolding shape [THEN timer_nodes_slot] by (metis empty_iff list.set(1))
  show ?thesis
  proof (cases "slot_of e (tm_time T) = q")
    case True
    have "n \<notin> set (pending C e)" for n
    proof
      assume "n \<in> set (pending C e)"
      then have n: "tn_expire n = e" "n \<in># timer_nodes C" by (simp_all add: pending_mem [OF assms(2)])
      then obtain p where p: "valid_slot p" "n \<in> set (at_slot C p)"
        unfolding timer_nodes_slot [OF shape(2)] by blast
      then have "p \<noteq> q" "n \<in> set (at_slot T p)" using assms(4) [OF p(1)] by (auto split: if_splits)
      with placed_slot [OF assms(1) p(1), of n] n True show False by metis
    qed
    then have "pending C e = []" by (metis list.set_intros(1) neq_Nil_conv)
    with True show ?thesis by (simp add: pending_def)
  next
    case False
    then have "pending C e = pending T e"
      using assms(4) [OF slot_of_valid] by (intro pending_keep [OF assms(1,2) sub]) simp_all
    moreover have "filter (\<lambda>n. tn_expire n = e) (at_slot T q) = []"
      using placed_slot [OF assms(1,3)] False by (auto simp: filter_empty_conv)
    ultimately show ?thesis by simp
  qed
qed

text \<open>
  One shift moves every node whose window opens, and keeps all of them in their order: the lists
  before the shift are those of \<open>T\<close>, the list to be moved is empty in \<open>?C l\<close>.
\<close>

lemma timer_shift_placed:
  assumes pl: "placed T"
    and ahead: "\<And>n. n \<in># timer_nodes T \<Longrightarrow> unat (tn_expire n - tm_time T) < 2 ^ 31 \<and> tn_expire n \<noteq> tm_time T"
  obtains T' where "timer_shift T = Some T'" "placed T'" "timer_nodes T' = timer_nodes T"
    "tm_time T' = tm_time T + 1" "\<And>e. pending T' e = pending T e"
proof -
  note result = that
  let ?c = "tm_time T" and ?T = "T\<lparr>tm_time := tm_time T + 1\<rparr>"
  let ?C = "\<lambda>l. ?T\<lparr>tm_t := (tm_t ?T)[l := (tm_t ?T ! l)[fld l (unat (?c + 1)) := []]]\<rparr>"
  have shape: "timer_shape T" "timer_shape ?T" using pl by (simp_all add: placed_def timer_shape_def)
  have nodes: "timer_nodes ?T = timer_nodes T" by (simp add: timer_nodes_def)
  have move: thesis if "timer_shift T = Some (move_list ?T l (fld l (unat (?c + 1))))" and l: "l < 4"
    and c: "(unat ?c + 1) mod 2 ^ (8 + 6 * l) = 0" "(unat ?c + 1) mod 2 ^ (14 + 6 * l) \<noteq> 0 \<or> l = 3" for l
  proof -
    have C: "placed (?C l)"
      using carry_placed [OF pl l ahead c] by simp
    have "at_slot (?C l) p = (if p = Level l (fld l (unat (?c + 1))) then [] else at_slot T p)"
      if "valid_slot p" for p
    proof (cases p)
      case (Level i j)
      with that show ?thesis
        using level_update_lists(2) [OF shape(1) l fld_less, of i j l "unat (?c + 1)" "[]"] by simp
    qed simp
    from pending_cleared [OF pl C _ this] l fld_less
    have pe: "pending (?C l) e @ filter (\<lambda>n. tn_expire n = e) (tm_t T ! l ! fld l (unat (?c + 1)))
        = pending T e" for e by simp
    have "pending (move_list ?T l (fld l (unat (?c + 1)))) e = pending T e" for e
      using pe [of e] pending_foldl_add_node [OF C, of _ e] by (simp add: move_list_def)
    with move_list_placed [OF shape(2) l fld_less C] nodes show thesis
      by (intro result [OF that(1)]) simp_all
  qed
  show thesis
  proof (cases "?c + 1 = 0")
    case True
    then have "unat ?c + 1 = 2 ^ 32"
      using unat_u32_less [of ?c] unat_add_lem [of ?c 1] by (cases "unat ?c + 1 < 2 ^ 32") auto
    then have "(unat ?c + 1) mod 2 ^ (8 + 6 * 3) = 0" by simp
    with True show thesis by (intro move [of 3]) (simp_all add: timer_shift_def fld_def)
  next
    case False
    then have u: "unat (?c + 1) = unat ?c + 1"
      by (simp add: unatSuc add.commute)
    have nz: "unat (?c + 1) mod 2 ^ 32 \<noteq> 0"
      using False unat_u32_less [of "?c + 1"] by (simp add: unat_eq_zero)
    have sh: "timer_shift T = shift_loop 4 ?T (?c + 1) (drop_bit (8 + 6 * 0) (?c + 1)) 0 (2 ^ (8 + 6 * 0))"
      using False by (simp add: timer_shift_def time_consts Let_def)
    from shift_loop_spec [of "?c + 1" 0 4 ?T] nz
    consider "unat (?c + 1) mod 2 ^ (8 + 6 * 0) \<noteq> 0" "timer_shift T = Some ?T"
      | l where "l < 4" "unat (?c + 1) mod 2 ^ (8 + 6 * l) = 0" "unat (?c + 1) mod 2 ^ (14 + 6 * l) \<noteq> 0"
        "timer_shift T = Some (move_list ?T l (fld l (unat (?c + 1))))"
      unfolding sh by auto
    then show thesis
    proof cases
      case 1
      then have pT: "placed ?T" using tick_placed [OF pl] u by simp
      have "at_slot ?T p = at_slot T p" for p by (cases p) simp_all
      then have "pending ?T e = pending T e" for e
        using nodes by (intro pending_keep [OF pl pT]) simp_all
      with 1 nodes pT show thesis by (intro result [of ?T]) simp_all
    next
      case 2
      then show thesis by (intro move [of l]) (simp_all add: u)
    qed
  qed
qed


subsection \<open>Ticks\<close>

definition expired :: "timer \<Rightarrow> timer" where
  "expired T = T\<lparr>tm_near := (tm_near T)[unat (tm_time T) mod 2 ^ 8 := []]\<rparr>"

lemma near_self: "near_ok c c"
  by (simp add: near_ok_def)

lemma slot_of_now:
  "slot_of e c = Near (unat c mod 2 ^ 8) \<longleftrightarrow> e = c"
proof
  assume "slot_of e c = Near (unat c mod 2 ^ 8)"
  then have "near_ok (unat e) (unat c)" and "unat e mod 2 ^ 8 = unat c mod 2 ^ 8"
    by (auto simp: slot_of_def Let_def split: if_splits)
  then have "unat e = unat c" unfolding near_ok_def by (metis div_mult_mod_eq)
  then show "e = c" by (simp only: word_unat_eq_iff)
qed (simp add: slot_of_def near_self)

lemma pending_now:
  assumes "placed T"
  shows "pending T (tm_time T) = tm_near T ! (unat (tm_time T) mod 2 ^ 8)"
proof -
  have "tn_expire n = tm_time T" if "n \<in> set (tm_near T ! (unat (tm_time T) mod 2 ^ 8))" for n
    using placed_slot [OF assms, of "Near (unat (tm_time T) mod 2 ^ 8)" n] that
    by (simp add: slot_of_now [simplified])
  then show ?thesis
    using slot_of_now [of "tm_time T" "tm_time T"] unfolding pending_def
    by (simp add: filter_id_conv)
qed

lemma expired_placed:
  assumes "placed T"
  shows "placed (expired T)" and "tm_time (expired T) = tm_time T"
    and "pending (expired T) e = (if e = tm_time T then [] else pending T e)"
proof -
  let ?q = "Near (unat (tm_time T) mod 2 ^ 8)"
  have len: "length (tm_near T) = 256" using assms by (simp add: placed_def timer_shape_def)
  have lists: "at_slot (expired T) p = (if p = ?q then [] else at_slot T p)" for p
    using len by (cases p) (auto simp: expired_def nth_list_update)
  show time: "tm_time (expired T) = tm_time T" by (simp add: expired_def)
  show pl: "placed (expired T)"
  proof (rule placedI)
    show "timer_shape (expired T)" using assms by (simp add: placed_def timer_shape_def expired_def)
  next
    fix j n assume "j < 256" "n \<in> set (tm_near (expired T) ! j)"
    then show "near_ok (unat (tn_expire n)) (unat (tm_time (expired T))) \<and> unat (tn_expire n) mod 2 ^ 8 = j"
      using placed_near [OF assms, of j n] lists [of "Near j"] time by (auto split: if_splits)
  next
    fix i j n assume "i < 4" "j < 64" "n \<in> set (tm_t (expired T) ! i ! j)"
    then show "level_ok i (unat (tn_expire n)) (unat (tm_time (expired T))) \<and> fld i (unat (tn_expire n)) = j"
      using placed_level [OF assms, of i j n] by (simp add: expired_def)
  qed
  show "pending (expired T) e = (if e = tm_time T then [] else pending T e)"
    using lists [of "slot_of e (tm_time T)"] time slot_of_now [of e "tm_time T"]
    by (simp add: pending_def)
qed

lemma timer_execute_eq:
  assumes "placed T"
  shows "timer_execute push T s = map_option (Pair (expired T)) (dispatch_list push (pending T (tm_time T)) s)"
proof -
  let ?i = "unat (tm_time T) mod 2 ^ 8"
  have i: "unat (tm_time T AND TIME_NEAR_MASK) = ?i" by (simp only: time_consts and_exp_minus_1)
  have len: "?i < length (tm_near T)" using assms by (simp add: placed_def timer_shape_def)
  have step: "timer_execute push T s =
    (if tm_near T ! ?i \<noteq> [] then dispatch_list push (tm_near T ! ?i) s \<bind> timer_execute push (expired T)
     else Some (T, s))"
    using len by (subst timer_execute.simps) (simp only: Let_def i expired_def, simp)
  have stop: "timer_execute push (expired T) s' = Some (expired T, s')" for s'
  proof -
    have "tm_near (expired T) ! ?i = []" "unat (tm_time (expired T) AND TIME_NEAR_MASK) = ?i"
      using len i by (simp_all add: expired_def)
    then show ?thesis by (subst timer_execute.simps) (simp only: Let_def simp_thms if_False)
  qed
  have same: "expired T = T" if "tm_near T ! ?i = []"
    using that by (simp add: expired_def) (metis list_update_id timer.surjective timer.update_convs(1))
  show ?thesis
    unfolding pending_now [OF assms] using step stop same
    by (cases "dispatch_list push (tm_near T ! ?i) s") (auto simp: fun_eq_iff)
qed


lemma timer_inv_iff:
  assumes "placed T"
  shows "timer_inv T \<longleftrightarrow> (\<forall>e. pending T e \<noteq> [] \<longrightarrow> 0 < unat (e - tm_time T) \<and> unat (e - tm_time T) < 2 ^ 31)"
proof -
  have "(\<exists>n. n \<in># timer_nodes T \<and> tn_expire n = e) \<longleftrightarrow> pending T e \<noteq> []" for e
    using pending_mem [OF assms, of _ e] by (metis list.set_intros(1) list.set(1) empty_iff neq_Nil_conv)
  with assms show ?thesis unfolding timer_inv_def ticks_left_def by metis
qed

text \<open>The wheel is a queue per tick: an update delivers the nodes due at the next tick and nothing else.\<close>

lemma timer_update_spec:
  assumes "timer_inv T"
  obtains T' where "timer_inv T'" and "tm_time T' = tm_time T + 1"
    and "\<And>e. pending T' e = (if e = tm_time T + 1 then [] else pending T e)"
    and "\<And>push s. timer_update push T s
           = map_option (Pair T') (dispatch_list push (pending T (tm_time T + 1)) (s :: 's))"
proof -
  have pl: "placed T" using assms by (simp add: timer_inv_def)
  from assms have win: "pending T e \<noteq> [] \<Longrightarrow> 0 < unat (e - tm_time T) \<and> unat (e - tm_time T) < 2 ^ 31" for e
    unfolding timer_inv_iff [OF pl] by blast
  have now: "pending T (tm_time T) = []" using win [of "tm_time T"] by (cases "pending T (tm_time T)") auto
  then have idle: "timer_execute push T s = Some (T, s)" for push and s :: 's
    unfolding timer_execute_eq [OF pl]
    using pending_now [OF pl] by (simp add: expired_def) (metis list_update_id timer.surjective timer.update_convs(1))
  have ahead: "unat (tn_expire n - tm_time T) < 2 ^ 31 \<and> tn_expire n \<noteq> tm_time T" if "n \<in># timer_nodes T" for n
    using assms that unfolding timer_inv_def ticks_left_def by (metis diff_self unat_0 less_irrefl)
  obtain S where S: "timer_shift T = Some S" "placed S" "timer_nodes S = timer_nodes T"
    "tm_time S = tm_time T + 1" "\<And>e. pending S e = pending T e"
    by (rule timer_shift_placed [OF pl ahead]) (assumption, rule that)
  note ex = expired_placed [OF S(2)]
  have pe: "pending (expired S) e = (if e = tm_time T + 1 then [] else pending T e)" for e
    using ex(3) S(4,5) by simp
  have "timer_inv (expired S)"
    unfolding timer_inv_iff [OF ex(1)] ex(2) S(4)
  proof (intro allI impI)
    fix e assume "pending (expired S) e \<noteq> []"
    then have "pending T e \<noteq> []" and ne: "e \<noteq> tm_time T + 1" using pe [of e] by (auto split: if_splits)
    from win [OF this(1)] have w: "0 < unat (e - tm_time T)" "unat (e - tm_time T) < 2 ^ 31" by auto
    have ne0: "e - tm_time T \<noteq> 0" using w(1) by auto
    have "unat (e - (tm_time T + 1)) = unat (e - tm_time T) - 1"
      using unat_minus_one [OF ne0] by (simp add: algebra_simps)
    moreover have "unat (e - (tm_time T + 1)) \<noteq> 0"
      using ne by (simp add: unat_eq_zero algebra_simps)
    ultimately show "0 < unat (e - (tm_time T + 1)) \<and> unat (e - (tm_time T + 1)) < 2 ^ 31"
      using w by linarith
  qed
  moreover have "timer_update push T s
      = map_option (Pair (expired S)) (dispatch_list push (pending T (tm_time T + 1)) s)" for push and s :: 's
    using timer_execute_eq [OF S(2), of push s] by (simp add: timer_update_def idle S)
  ultimately show thesis using that [of "expired S"] ex(2) S(4) pe by simp
qed


lemma timer_add_spec:
  assumes "timer_inv T" and "0 < sint d"
  shows "timer_inv (timer_add T ev d)" and "tm_time (timer_add T ev d) = tm_time T"
    and "pending (timer_add T ev d) e =
      pending T e @ (if e = d + tm_time T then [\<lparr>tn_expire = e, tn_event = ev\<rparr>] else [])"
proof -
  have pl: "placed T" using assms by (simp add: timer_inv_def)
  let ?n = "\<lparr>tn_expire = d + tm_time T, tn_event = ev\<rparr>"
  show time: "tm_time (timer_add T ev d) = tm_time T"
    using add_node_placed(3) [OF pl] by (simp add: timer_add_def)
  show "pending (timer_add T ev d) e =
      pending T e @ (if e = d + tm_time T then [\<lparr>tn_expire = e, tn_event = ev\<rparr>] else [])" for e
    using pending_add_node [OF pl, of ?n e] by (auto simp: timer_add_def)
  have "0 < unat d \<and> unat d < 2 ^ 31"
  proof -
    have lt: "sint d < 2 ^ 31" using sint_less [of d] by simp
    define m where "m = nat (sint d)"
    have "d = word_of_nat m" using assms(2) by (simp add: m_def)
    moreover have "0 < m" "m < 2 ^ 31" using lt assms(2) by (simp_all add: m_def)
    moreover from this have "unat (word_of_nat m :: u32) = m" by (simp add: unat_of_nat take_bit_nat_eq_self)
    ultimately show ?thesis by simp
  qed
  with assms(1) show "timer_inv (timer_add T ev d)"
    unfolding timer_inv_def timer_add_def using add_node_placed [OF pl, of ?n]
    by (auto simp: ticks_left_def)
qed

lemma timer_create_inv: "timer_inv timer_create_timer" and timer_create_pending: "pending timer_create_timer e = []"
proof -
  have shape: "timer_shape timer_create_timer" by (simp add: timer_shape_def timer_create_timer_def)
  have empty: "valid_slot p \<Longrightarrow> at_slot timer_create_timer p = []" for p
    by (cases p) (simp_all add: timer_create_timer_def)
  have "placed timer_create_timer"
    by (rule placedI [OF shape]) (simp_all add: timer_create_timer_def)
  then show "timer_inv timer_create_timer"
    using empty by (auto simp: timer_inv_def timer_nodes_slot [OF shape])
  show "pending timer_create_timer e = []"
    using empty slot_of_valid by (simp add: pending_def)
qed

lemma dispatch_append:
  "dispatch_list push (xs @ ys) s = dispatch_list push xs s \<bind> dispatch_list push ys"
  by (induction xs arbitrary: s) (auto split: bind_splits)

lemma ticks_shift:
  fixes e c :: u32
  assumes "Suc k < 2 ^ 32"
  shows "0 < unat (e - c) \<and> unat (e - c) \<le> Suc k \<longleftrightarrow>
     e = c + 1 \<or> (0 < unat (e - (c + 1)) \<and> unat (e - (c + 1)) \<le> k)"
proof (cases "e - c = 0")
  case True
  then have "e - (c + 1) = - 1" by simp
  then have "unat (e - (c + 1)) = 2 ^ 32 - 1" by (simp add: unsigned_minus_1_eq_mask mask_eq_exp_minus_1)
  with True assms show ?thesis by auto
next
  case False
  have "unat (e - (c + 1)) = unat (e - c) - 1"
    using unat_minus_one [OF False] by (simp add: algebra_simps)
  moreover have "e = c + 1 \<longleftrightarrow> unat (e - c) = 1"
    by (metis add.commute diff_add_cancel add_diff_cancel_left' unat_1 word_unat_eq_iff)
  moreover have "0 < unat (e - c)" using False by (simp add: unat_gt_0)
  ultimately show ?thesis by linarith
qed

lemma update_loop_spec:
  assumes "timer_inv T" and "k < 2 ^ 32"
  shows "\<exists>T'. timer_inv T' \<and> tm_time T' = tm_time T + word_of_nat k
     \<and> (\<forall>e. pending T' e = (if 0 < unat (e - tm_time T) \<and> unat (e - tm_time T) \<le> k then [] else pending T e))
     \<and> (\<forall>push (s :: 's). update_loop push k T s = map_option (Pair T')
          (dispatch_list push (concat (map (\<lambda>i. pending T (tm_time T + word_of_nat (Suc i))) [0..<k])) s))"
  using assms
proof (induction k arbitrary: T)
  case 0
  then show ?case by (intro exI [of _ T]) auto
next
  case (Suc k)
  let ?c = "tm_time T"
  from Suc.prems(1) obtain S where S: "timer_inv S" "tm_time S = ?c + 1"
    "\<And>e. pending S e = (if e = ?c + 1 then [] else pending T e)"
    "\<And>push (s :: 's). timer_update push T s
       = map_option (Pair S) (dispatch_list push (pending T (?c + 1)) s)"
    by (rule timer_update_spec) blast
  from Suc.IH [OF S(1)] Suc.prems(2) obtain T' where T': "timer_inv T'"
    "tm_time T' = tm_time S + word_of_nat k"
    "\<And>e. pending T' e = (if 0 < unat (e - tm_time S) \<and> unat (e - tm_time S) \<le> k then [] else pending S e)"
    "\<And>push (s :: 's). update_loop push k S s = map_option (Pair T')
       (dispatch_list push (concat (map (\<lambda>i. pending S (tm_time S + word_of_nat (Suc i))) [0..<k])) s)"
    by auto
  have later: "pending S (tm_time S + word_of_nat (Suc i)) = pending T (?c + word_of_nat (Suc (Suc i)))"
    if "i < k" for i
  proof -
    have "(word_of_nat (Suc i) :: u32) \<noteq> 0"
      using that Suc.prems(2) by (simp add: word_of_nat_eq_0_iff nat_dvd_not_less del: of_nat_Suc)
    then show ?thesis using S(2,3) by (simp add: algebra_simps)
  qed
  have due: "concat (map (\<lambda>i. pending T (?c + word_of_nat (Suc i))) [0..<Suc k])
      = pending T (?c + 1) @ concat (map (\<lambda>i. pending S (tm_time S + word_of_nat (Suc i))) [0..<k])"
  proof -
    have "[0..<Suc k] = 0 # map Suc [0..<k]" by (simp only: map_Suc_upt upt_conv_Cons zero_less_Suc)
    moreover have "map (\<lambda>i. pending S (tm_time S + word_of_nat (Suc i))) [0..<k]
        = map (\<lambda>i. pending T (?c + word_of_nat (Suc (Suc i)))) [0..<k]"
      using later by simp
    moreover have "?c + word_of_nat (Suc 0) = ?c + 1" by simp
    ultimately show ?thesis by (simp only: list.map map_map comp_def concat.simps)
  qed
  have gone: "pending T' e = (if 0 < unat (e - ?c) \<and> unat (e - ?c) \<le> Suc k then [] else pending T e)" for e
    using ticks_shift [where e = e and c = ?c and k = k] Suc.prems(2) T'(3) [of e] S(2,3) by auto
  have "update_loop push (Suc k) T s = map_option (Pair T')
      (dispatch_list push (concat (map (\<lambda>i. pending T (?c + word_of_nat (Suc i))) [0..<Suc k])) s)"
    for push and s :: 's
    unfolding due by (simp add: S(4) T'(4) dispatch_append option.map_comp comp_def split: bind_splits)
  with T'(1,2) S(2) gone show ?case by (intro exI [of _ T']) (simp add: algebra_simps)
qed


subsection \<open>The clock fields\<close>

definition same_clock :: "timer \<Rightarrow> timer \<Rightarrow> bool" where
  "same_clock T T' \<longleftrightarrow> tm_starttime T' = tm_starttime T \<and> tm_current T' = tm_current T
     \<and> tm_current_point T' = tm_current_point T"

lemma same_clock_refl: "same_clock T T"
  by (simp add: same_clock_def)

lemma same_clock_trans: "same_clock T T' \<Longrightarrow> same_clock T' T'' \<Longrightarrow> same_clock T T''"
  by (simp add: same_clock_def)

lemma add_node_clock: "same_clock T (add_node T n)"
  by (simp add: same_clock_def add_node_def link_near_def link_level_def Let_def)

lemma move_list_clock: "same_clock T (move_list T l k)"
proof -
  have "same_clock T' (foldl add_node T' ns)" for T' ns
    by (induction ns arbitrary: T') (auto intro: same_clock_refl same_clock_trans add_node_clock)
  from this [of "T\<lparr>tm_t := (tm_t T)[l := (tm_t T ! l)[k := []]]\<rparr>"] show ?thesis
    by (simp add: move_list_def same_clock_def)
qed

lemma shift_loop_clock: "shift_loop k T ct time i msk = Some T' \<Longrightarrow> same_clock T T'"
  by (induction k T ct time i msk rule: shift_loop.induct)
    (auto simp: Let_def same_clock_refl move_list_clock split: if_splits)

lemma timer_shift_clock: "timer_shift T = Some T' \<Longrightarrow> same_clock T T'"
  using shift_loop_clock [of 4 "T\<lparr>tm_time := tm_time T + 1\<rparr>"]
    move_list_clock [of "T\<lparr>tm_time := tm_time T + 1\<rparr>" 3 0]
  by (auto simp: timer_shift_def Let_def same_clock_def split: if_splits)

lemma timer_update_clock:
  assumes "timer_update push T s = Some (T', s')"
  shows "same_clock T T'"
proof -
  have exec: "same_clock A B" if "timer_execute push A x = Some (B, y)" for A B x y
    using that
  proof (induction push A x arbitrary: B y rule: timer_execute.induct)
    case (1 push A x)
    let ?i = "unat (tm_time A AND TIME_NEAR_MASK)"
    have c: "same_clock A (A\<lparr>tm_near := (tm_near A)[?i := []]\<rparr>)" by (simp add: same_clock_def)
    from 1 show ?case
      by (subst (asm) (2) timer_execute.simps)
        (auto simp: Let_def same_clock_refl split: if_splits bind_splits intro: same_clock_trans [OF c])
  qed
  from assms show ?thesis
    by (auto simp: timer_update_def split: bind_splits dest!: exec timer_shift_clock)
      (metis same_clock_trans)
qed


lemma update_loop_clock: "update_loop push k T s = Some (T', s') \<Longrightarrow> same_clock T T'"
proof (induction k arbitrary: T s)
  case (Suc k)
  then show ?case
    by (auto split: bind_splits dest!: timer_update_clock) (metis same_clock_trans)
qed (simp add: same_clock_refl)

lemma clock_diff:
  fixes x :: u64
  assumes "unat x < 2 ^ 32"
  shows "unat (ucast x :: u32) = unat x" "ucast (ucast x :: u32) = x" "word_of_nat (unat x) = (ucast x :: u32)"
proof -
  show u: "unat (ucast x :: u32) = unat x"
    using assms by (simp add: unsigned_ucast_eq take_bit_nat_eq_self)
  show "word_of_nat (unat x) = (ucast x :: u32)" by simp
  have "unat (ucast (ucast x :: u32) :: u64) = unat x"
    unfolding unsigned_ucast_eq [where w = "ucast x :: u32"] u
    using assms by (simp add: take_bit_nat_eq_self)
  then show "ucast (ucast x :: u32) = x" by (simp only: word_unat_eq_iff)
qed

subsection \<open>The properties\<close>

text \<open>
  A timeout with a positive delay is queued for exactly that many ticks from now, behind the
  timeouts already set for the same tick; nothing else in the wheel changes, and a delay that is
  not positive is delivered at once.
\<close>

theorem skynet_timeout_queues:
  fixes push :: "u32 \<Rightarrow> skynet_message \<Rightarrow> 's \<Rightarrow> (int \<times> 's) option"
  assumes "timer_inv T"
  shows "(0 < sint d \<longrightarrow>
      (\<exists>T'. skynet_timeout push T s h d session = Some (session, T', s)
        \<and> timer_inv T' \<and> tm_time T' = tm_time T
        \<and> (\<forall>e. pending T' e = pending T e @ (if e - tm_time T = d
             then [\<lparr>tn_expire = e, tn_event = \<lparr>te_handle = h, te_session = session\<rparr>\<rparr>] else []))))
    \<and> (sint d \<le> 0 \<longrightarrow> skynet_timeout push T s h d session =
         map_option (\<lambda>(r, s). (if r \<noteq> 0 then -1 else session, T, s)) (push h (timer_message session) s))"
proof -
  let ?T = "timer_add T \<lparr>te_handle = h, te_session = session\<rparr> d"
  have "skynet_timeout push T s h d session = Some (session, ?T, s)" if "0 < sint d"
    using that by (simp add: skynet_timeout_def)
  moreover have "pending ?T e = pending T e @ (if e - tm_time T = d
       then [\<lparr>tn_expire = e, tn_event = \<lparr>te_handle = h, te_session = session\<rparr>\<rparr>] else [])"
    if "0 < sint d" for e
    using timer_add_spec(3) [OF assms that] by (auto simp: algebra_simps)
  moreover have "skynet_timeout push T s h d session =
      map_option (\<lambda>(r, s). (if r \<noteq> 0 then -1 else session, T, s)) (push h (timer_message session) s)"
    if "sint d \<le> 0"
    using that by (simp add: skynet_timeout_def map_conv_bind_option case_prod_unfold comp_def)
  ultimately show ?thesis using timer_add_spec(1,2) [OF assms] by blast
qed

theorem skynet_timeout_queues_witness:
  "\<exists>T'. skynet_timeout (\<lambda>_ _ s. Some (0, s)) timer_create_timer (0 :: nat) 16 300 7 = Some (7, T', 0)
     \<and> pending T' 300 = [\<lparr>tn_expire = 300, tn_event = \<lparr>te_handle = 16, te_session = 7\<rparr>\<rparr>]"
proof -
  have t: "tm_time timer_create_timer = 0" by (simp add: timer_create_timer_def)
  have d: "0 < sint (300 :: cint)" by simp
  show ?thesis
    using skynet_timeout_queues [OF timer_create_inv, where d = 300 and h = 16 and session = 7
        and push = "\<lambda>_ _ s. Some (0, s)" and s = "0 :: nat"] d
    by (auto simp: timer_create_pending t)
qed

text \<open>
  C9. \<open>k\<close> ticks of the timer deliver exactly the timeouts due within them, tick by tick and in
  the order they were set within a tick; every later timeout stays queued for its tick, and the
  wheel never indexes beyond its lists. The wheel of five levels thus refines one queue per tick,
  also when the 32-bit time wraps around.
\<close>

theorem timer_ticks_exact:
  assumes "timer_inv T" and "k < 2 ^ 32"
  shows "\<exists>T'. timer_inv T' \<and> tm_time T' = tm_time T + word_of_nat k
     \<and> (\<forall>e. pending T' e = (if 0 < unat (e - tm_time T) \<and> unat (e - tm_time T) \<le> k then [] else pending T e))
     \<and> (\<forall>push (s :: 's). update_loop push k T s = map_option (Pair T')
          (dispatch_list push (concat (map (\<lambda>i. pending T (tm_time T + word_of_nat (Suc i))) [0..<k])) s))"
  by (rule update_loop_spec [OF assms])

theorem timer_ticks_exact_witness:
  "\<exists>T'. update_loop (\<lambda>h m s. Some (0, s @ [(h, msg_session m)])) 2
       (timer_add timer_create_timer \<lparr>te_handle = 16, te_session = 7\<rparr> 2) [] = Some (T', [(16, 7)])"
proof -
  let ?T = "timer_add timer_create_timer \<lparr>te_handle = 16, te_session = 7\<rparr> 2"
  have d: "0 < sint (2 :: cint)" by simp
  note spec = timer_add_spec [OF timer_create_inv d, where ev = "\<lparr>te_handle = 16, te_session = 7\<rparr>"]
  have t: "tm_time ?T = 0" unfolding spec(2) by (simp add: timer_create_timer_def)
  have p: "pending ?T e = (if e = 2 then [\<lparr>tn_expire = e, tn_event = \<lparr>te_handle = 16, te_session = 7\<rparr>\<rparr>] else [])" for e
    unfolding spec(3) using t by (simp add: timer_create_pending spec(2))
  have two: "concat (map (\<lambda>i. pending ?T (0 + word_of_nat (Suc i))) [0..<2]) = pending ?T 1 @ pending ?T 2"
    by (simp add: upt_rec)
  show ?thesis
    using timer_ticks_exact [OF spec(1), of 2, where 's = "(u32 \<times> cint) list"]
    unfolding t two by (auto simp: p timer_message_def)
qed


text \<open>
  When the clock has moved forward, \<open>skynet_updatetime\<close> runs one tick per elapsed
  centisecond: the node time \<open>skynet_now\<close> and the wheel advance by the same amount, and the
  timeouts delivered are those due in between.
\<close>

theorem skynet_updatetime_catches_up:
  assumes "timer_inv T" and "tm_current_point T \<le> cp" and "unat (cp - tm_current_point T) < 2 ^ 32"
  shows "\<exists>T'. timer_inv T' \<and> skynet_now T' = skynet_now T + (cp - tm_current_point T)
     \<and> tm_time T' = tm_time T + ucast (cp - tm_current_point T) \<and> tm_current_point T' = cp
     \<and> (\<forall>push err (s :: 's). skynet_updatetime push err cp T s = map_option (Pair T')
          (dispatch_list push (concat (map (\<lambda>i. pending T (tm_time T + word_of_nat (Suc i)))
             [0..<unat (cp - tm_current_point T)])) s))"
proof -
  define diff where "diff = (ucast (cp - tm_current_point T) :: u32)"
  define n where "n = unat (cp - tm_current_point T)"
  let ?S = "T\<lparr>tm_current_point := cp, tm_current := tm_current T + ucast diff\<rparr>"
  have diff: "unat diff = n" "ucast diff = cp - tm_current_point T" "word_of_nat n = diff"
    using assms(3) by (simp_all add: diff_def n_def clock_diff)
  have nodes: "timer_nodes ?S = timer_nodes T" by (simp add: timer_nodes_def)
  have shape: "timer_shape ?S \<longleftrightarrow> timer_shape T" by (simp add: timer_shape_def)
  have inv: "timer_inv ?S"
    using assms(1) by (simp add: timer_inv_def placed_def shape nodes ticks_left_def)
  have "at_slot ?S p = at_slot T p" for p by (cases p) simp_all
  then have pend: "pending ?S e = pending T e" for e by (simp add: pending_def)
  have eq: "skynet_updatetime push err cp T s = update_loop push n ?S s" for push err and s :: 's
  proof (cases "cp = tm_current_point T")
    case True
    then show ?thesis using diff by (simp add: skynet_updatetime_def n_def)
  next
    case False
    moreover have "\<not> cp < tm_current_point T" using assms(2) by simp
    ultimately show ?thesis
      using diff(1) by (simp add: skynet_updatetime_def diff_def [symmetric] Let_def)
  qed
  from update_loop_spec [OF inv, of n] assms(3) obtain T' where T': "timer_inv T'"
    "tm_time T' = tm_time T + word_of_nat n"
    "\<And>push (s :: 's). update_loop push n ?S s = map_option (Pair T')
          (dispatch_list push (concat (map (\<lambda>i. pending T (tm_time T + word_of_nat (Suc i))) [0..<n])) s)"
    unfolding n_def [symmetric] pend by auto
  have "dispatch_list (\<lambda>_ _ s. Some (0, s)) ns s = Some s" for ns and s :: 's
    by (induction ns) simp_all
  with T'(3) have "update_loop (\<lambda>_ _ s. Some (0, s)) n ?S undefined = Some (T', undefined :: 's)" by simp
  from update_loop_clock [OF this] have "tm_current T' = tm_current T + ucast diff" "tm_current_point T' = cp"
    by (simp_all add: same_clock_def)
  with T' show ?thesis unfolding eq n_def [symmetric] diff_def [symmetric]
    by (intro exI [of _ T']) (simp add: skynet_now_def diff)
qed

theorem skynet_updatetime_catches_up_witness:
  "\<exists>T'. skynet_updatetime (\<lambda>_ _ s. Some (0, s)) (\<lambda>_ _. Some) 105 (skynet_timer_init (9, 42) 100) (0 :: nat)
     = Some (T', 0) \<and> skynet_now T' = 47"
proof -
  let ?T = "skynet_timer_init (9, 42) 100"
  have nodes: "timer_nodes ?T = timer_nodes timer_create_timer" by (simp add: timer_nodes_def skynet_timer_init_def)
  have inv: "timer_inv ?T"
    using timer_create_inv unfolding timer_inv_def placed_def timer_shape_def nodes
    by (simp add: skynet_timer_init_def ticks_left_def)
  have c: "tm_current_point ?T = 100" "skynet_now ?T = 42" by (simp_all add: skynet_timer_init_def skynet_now_def)
  have d: "dispatch_list (\<lambda>_ _ s. Some (0, s)) ns s = Some s" for ns and s :: nat
    by (induction ns) simp_all
  from skynet_updatetime_catches_up [OF inv, of 105, where 's = nat] show ?thesis
    unfolding c by (auto simp: d)
qed

end
