(* ===== verification/Skynet_Module.thy ===== *)
theory Skynet_Module
  imports Skynet_CLib
begin

text \<open>
  The table of C service modules of \<^verbatim>\<open>skynet-src/skynet_module.c\<close>. The dynamic linker
  is an argument: \<open>dlopen\<close> from a file name to a library, \<open>dlsym\<close> from a library
  and a symbol to a function pointer, which is a number here. \<open>None\<close> as the result of an
  operation is \<open>exit(1)\<close>, a failed assertion or a read of an uninitialised entry.
\<close>

subsection \<open>Data\<close>

record skynet_module =
  mod_name :: string
  mod_module :: ptr
  mod_create :: "nat option"
  mod_init :: "nat option"
  mod_release :: "nat option"
  mod_signal :: "nat option"

definition MAX_MODULE_TYPE :: nat where
  "MAX_MODULE_TYPE = 32"

record modules =
  md_count :: nat
  md_path :: string
  md_m :: "skynet_module option list"

subsection \<open>Opening a library\<close>

text \<open>
  One round of the search: the file name built in \<open>tmp\<close> from the segment \<open>seg\<close> of
  the path, \<open>None\<close> when the segment has no question mark.
\<close>

definition try_candidate :: "string \<Rightarrow> string \<Rightarrow> string option" where
  "try_candidate seg name =
     (let pre = takeWhile (\<lambda>c. c \<noteq> CHR ''?'') seg
      in if length pre < length seg then Some (pre @ name @ drop (length pre + 1) seg) else None)"

text \<open>The segments the loop visits.\<close>

function try_open :: "(string \<Rightarrow> ptr option) \<Rightarrow> string \<Rightarrow> string \<Rightarrow> ptr option option" where
  "try_open dlopen path name =
     (let path = dropWhile (\<lambda>c. c = CHR '';'') path
      in if path = [] then Some None
         else do {
           tmp \<leftarrow> try_candidate (takeWhile (\<lambda>c. c \<noteq> CHR '';'') path) name;
           case dlopen tmp of
             Some dl \<Rightarrow> Some (Some dl)
           | None \<Rightarrow> try_open dlopen (dropWhile (\<lambda>c. c \<noteq> CHR '';'') path) name })"
  by pat_completeness auto

lemma dropWhile_progress:
  assumes "dropWhile P s \<noteq> []"
  shows "length (dropWhile (\<lambda>c. \<not> P c) (dropWhile P s)) < length s"
proof -
  obtain c cs where c: "dropWhile P s = c # cs" using assms by (cases "dropWhile P s") auto
  then have "\<not> P c" using hd_dropWhile [OF assms] by simp
  then have "length (dropWhile (\<lambda>c. \<not> P c) (c # cs)) \<le> length cs"
    using length_dropWhile_le [of "\<lambda>c. \<not> P c" cs] by simp
  moreover have "length (c # cs) \<le> length s" using length_dropWhile_le [of P s] by (simp add: c)
  ultimately show ?thesis unfolding c by simp
qed

termination try_open
  by (relation "measure (\<lambda>(dlopen, path, name). length path)") (auto intro: dropWhile_progress)

declare try_open.simps [simp del]

subsection \<open>The table\<close>

text \<open>\<open>_query\<close>: \<open>k\<close> entries are left, \<open>i\<close> is the entry compared.\<close>

fun query_from :: "skynet_module option list \<Rightarrow> string \<Rightarrow> nat \<Rightarrow> nat \<Rightarrow> nat option option" where
  "query_from m name 0 i = Some None"
| "query_from m name (Suc k) i = do {
     e \<leftarrow> m ! i;
     if strcmp (mod_name e) name = 0 then Some (Some i) else query_from m name k (i + 1) }"

definition module_query :: "modules \<Rightarrow> string \<Rightarrow> nat option option" where
  "module_query M name = query_from (md_m M) name (md_count M) 0"

text \<open>\<open>ptr\<close> of \<open>get_api\<close>: what follows the last dot of the symbol name.\<close>

definition after_last_dot :: "string \<Rightarrow> string" where
  "after_last_dot s = rev (takeWhile (\<lambda>c. c \<noteq> CHR ''.'') (rev s))"

definition get_api :: "(ptr \<Rightarrow> string \<Rightarrow> nat option) \<Rightarrow> skynet_module \<Rightarrow> string \<Rightarrow> nat option" where
  "get_api dlsym md api_name = dlsym (mod_module md) (after_last_dot (mod_name md @ api_name))"

definition open_sym :: "(ptr \<Rightarrow> string \<Rightarrow> nat option) \<Rightarrow> skynet_module \<Rightarrow> bool \<times> skynet_module" where
  "open_sym dlsym md =
     (let md = md\<lparr>mod_create := get_api dlsym md ''_create'', mod_init := get_api dlsym md ''_init'',
                  mod_release := get_api dlsym md ''_release'', mod_signal := get_api dlsym md ''_signal''\<rparr>
      in (mod_init md = None, md))"

definition skynet_module_query ::
  "(string \<Rightarrow> ptr option) \<Rightarrow> (ptr \<Rightarrow> string \<Rightarrow> nat option) \<Rightarrow> modules \<Rightarrow> string
     \<Rightarrow> (nat option \<times> modules) option" where
  "skynet_module_query dlopen dlsym M name = do {
     result \<leftarrow> module_query M name;
     if result \<noteq> None then Some (result, M)
     else do {
       result \<leftarrow> module_query M name;
       if result = None \<and> md_count M < MAX_MODULE_TYPE then do {
         let index = md_count M;
         dl \<leftarrow> try_open dlopen (md_path M) name;
         case dl of
           None \<Rightarrow> Some (None, M)
         | Some dl \<Rightarrow>
             (let (failed, md) = open_sym dlsym \<lparr>mod_name = name, mod_module = dl, mod_create = None,
                                   mod_init = None, mod_release = None, mod_signal = None\<rparr>;
                  M = M\<lparr>md_m := (md_m M)[index := Some md]\<rparr>
              in if failed then Some (None, M)
                 else Some (Some index, M\<lparr>md_count := md_count M + 1\<rparr>)) }
       else Some (result, M) } }"

definition skynet_module_insert :: "modules \<Rightarrow> skynet_module \<Rightarrow> modules option" where
  "skynet_module_insert M md = do {
     m \<leftarrow> module_query M (mod_name md);
     if m = None \<and> md_count M < MAX_MODULE_TYPE
     then Some (M\<lparr>md_m := (md_m M)[md_count M := Some md], md_count := md_count M + 1\<rparr>)
     else None }"

definition skynet_module_init :: "string \<Rightarrow> modules" where
  "skynet_module_init path =
     \<lparr>md_count = 0, md_path = path, md_m = replicate MAX_MODULE_TYPE None\<rparr>"

subsection \<open>The search buffer\<close>

lemma candidate_length:
  assumes "try_candidate seg name = Some tmp"
  shows "length tmp + 1 = length seg + length name"
  using assms by (auto simp: try_candidate_def Let_def split: if_splits)

lemma candidate_fits:
  assumes "try_candidate (takeWhile (\<lambda>c. c \<noteq> CHR '';'') path) name = Some tmp"
  shows "length tmp < length path + length name"
  using candidate_length [OF assms] length_takeWhile_le [of "\<lambda>c. c \<noteq> CHR '';''" path] by linarith

lemma try_open_cong:
  assumes "\<And>f. length f < length path + length name \<Longrightarrow> dl1 f = dl2 f"
  shows "try_open dl1 path name = try_open dl2 path name"
  using assms
proof (induction dl1 path name rule: try_open.induct)
  case (1 dl1 path name)
  let ?p = "dropWhile (\<lambda>c. c = CHR '';'') path"
  have le: "length ?p \<le> length path" by (rule length_dropWhile_le)
  show ?case
  proof (cases "?p = [] \<or> try_candidate (takeWhile (\<lambda>c. c \<noteq> CHR '';'') ?p) name = None")
    case True
    then show ?thesis by (subst (1 2) try_open.simps) (auto simp: Let_def)
  next
    case False
    then obtain tmp where tmp: "try_candidate (takeWhile (\<lambda>c. c \<noteq> CHR '';'') ?p) name = Some tmp" by blast
    from candidate_fits [OF this] le have eq: "dl1 tmp = dl2 tmp" by (intro "1.prems") linarith
    let ?r = "dropWhile (\<lambda>c. c \<noteq> CHR '';'') ?p"
    have "length ?r \<le> length path" using le length_dropWhile_le [of "\<lambda>c. c \<noteq> CHR '';''" ?p] by linarith
    with False tmp eq "1.IH" [OF refl _ tmp] "1.prems" show ?thesis
      by (subst (1 2) try_open.simps) (auto simp: Let_def split: option.split)
  qed
qed


subsection \<open>The table as a map from names\<close>

definition mod_inv :: "modules \<Rightarrow> bool" where
  "mod_inv M \<longleftrightarrow> length (md_m M) = MAX_MODULE_TYPE \<and> md_count M \<le> MAX_MODULE_TYPE
     \<and> (\<forall>i < md_count M. \<exists>e. md_m M ! i = Some e \<and> mod_init e \<noteq> None)
     \<and> (\<forall>i < md_count M. \<forall>j < md_count M.
          map_option mod_name (md_m M ! i) = map_option mod_name (md_m M ! j) \<longrightarrow> i = j)"

definition mod_at :: "modules \<Rightarrow> string \<Rightarrow> nat \<Rightarrow> bool" where
  "mod_at M name i \<longleftrightarrow> i < md_count M \<and> map_option mod_name (md_m M ! i) = Some name"

lemma query_from_spec:
  assumes "\<And>j. j < i + k \<Longrightarrow> m ! j \<noteq> None"
  shows "\<exists>r. query_from m name k i = Some r \<and>
     (case r of None \<Rightarrow> \<forall>j. i \<le> j \<and> j < i + k \<longrightarrow> map_option mod_name (m ! j) \<noteq> Some name
      | Some j \<Rightarrow> i \<le> j \<and> j < i + k \<and> map_option mod_name (m ! j) = Some name)"
  using assms
proof (induction k arbitrary: i)
  case (Suc k)
  from Suc.prems [of i] obtain e where e: "m ! i = Some e" by auto
  show ?case
  proof (cases "mod_name e = name")
    case True
    then show ?thesis by (intro exI [of _ "Some i"]) (simp add: e)
  next
    case False
    from Suc.IH [of "Suc i"] Suc.prems obtain r where r: "query_from m name k (Suc i) = Some r"
      "case r of None \<Rightarrow> \<forall>j. Suc i \<le> j \<and> j < Suc i + k \<longrightarrow> map_option mod_name (m ! j) \<noteq> Some name
       | Some j \<Rightarrow> Suc i \<le> j \<and> j < Suc i + k \<and> map_option mod_name (m ! j) = Some name" by auto
    have i: "map_option mod_name (m ! i) \<noteq> Some name" using e False by simp
    show ?thesis
    proof (cases r)
      case None
      have "map_option mod_name (m ! j) \<noteq> Some name" if "i \<le> j" "j < i + Suc k" for j
      proof (cases "i = j")
        case False
        with that have "Suc i \<le> j" "j < Suc i + k" by simp_all
        with r(2) None show ?thesis by simp
      qed (use i in simp)
      with None r(1) e False show ?thesis by (intro exI [of _ r]) auto
    qed (use r e False in auto)
  qed
qed auto

lemma module_query_spec:
  assumes "mod_inv M"
  obtains r where "module_query M name = Some r"
    and "case r of None \<Rightarrow> \<forall>i. \<not> mod_at M name i | Some i \<Rightarrow> mod_at M name i"
proof -
  have "md_m M ! j \<noteq> None" if "j < 0 + md_count M" for j using assms that by (auto simp: mod_inv_def)
  from query_from_spec [of 0 "md_count M" "md_m M" name, OF this] obtain r where r: "module_query M name = Some r"
    "case r of None \<Rightarrow> \<forall>j. j < md_count M \<longrightarrow> map_option mod_name (md_m M ! j) \<noteq> Some name
     | Some j \<Rightarrow> j < md_count M \<and> map_option mod_name (md_m M ! j) = Some name"
    unfolding module_query_def by (auto split: option.splits)
  then show thesis by (intro that [OF r(1)]) (auto simp: mod_at_def split: option.splits)
qed

lemma mod_inv_extend:
  assumes "mod_inv M" and "md_count M < MAX_MODULE_TYPE" and "mod_init md \<noteq> None"
    and fresh: "\<And>i. i < md_count M \<Longrightarrow> map_option mod_name (md_m M ! i) \<noteq> Some (mod_name md)"
  shows "mod_inv (M\<lparr>md_m := (md_m M)[md_count M := Some md], md_count := md_count M + 1\<rparr>)" (is "mod_inv ?M")
proof -
  have len: "md_count M < length (md_m M)" using assms(1,2) by (simp add: mod_inv_def)
  have at: "md_m ?M ! i = (if i = md_count M then Some md else md_m M ! i)" for i
    using len by simp
  have "\<exists>e. md_m ?M ! i = Some e \<and> mod_init e \<noteq> None" if "i < md_count M + 1" for i
    unfolding at using that assms(1,3) by (cases "i = md_count M") (auto simp: mod_inv_def)
  moreover have "i = j" if "i < md_count M + 1" "j < md_count M + 1"
    "map_option mod_name (md_m ?M ! i) = map_option mod_name (md_m ?M ! j)" for i j
  proof -
    have "i < md_count M \<Longrightarrow> j < md_count M \<Longrightarrow> i = j"
      using that(3) assms(1) unfolding at mod_inv_def by simp
    then show ?thesis using that fresh [of i] fresh [of j] unfolding at
      by (cases "i = md_count M"; cases "j = md_count M") simp_all
  qed
  ultimately show ?thesis using assms(1,2) unfolding mod_inv_def by simp
qed

text \<open>
  C15. A query of the module table under its invariant either finds the module of that name or
  loads it: it returns an entry with that name whose init function is present, the entries
  already in use are unchanged, the table never holds more than 32 modules or two modules of one
  name, and asking again finds the same entry without the dynamic linker.
\<close>

theorem module_query_loads_once:
  assumes "mod_inv M" and "skynet_module_query dlopen dlsym M name = Some (r, M')"
  shows "mod_inv M' \<and> md_count M \<le> md_count M' \<and> (\<forall>i < md_count M. md_m M' ! i = md_m M ! i)
     \<and> (case r of
          None \<Rightarrow> md_count M' = md_count M
        | Some i \<Rightarrow> mod_at M' name i
            \<and> (\<forall>dlopen' dlsym'. skynet_module_query dlopen' dlsym' M' name = Some (Some i, M')))"
proof -
  obtain q where q: "module_query M name = Some q"
    "case q of None \<Rightarrow> \<forall>i. \<not> mod_at M name i | Some i \<Rightarrow> mod_at M name i"
    by (rule module_query_spec [OF assms(1)])
  have again: "skynet_module_query dlopen' dlsym' N name = Some (Some i, N)"
    if inv: "mod_inv N" and i: "mod_at N name i" for dlopen' dlsym' N i
  proof -
    obtain s where s: "module_query N name = Some s"
      "case s of None \<Rightarrow> \<forall>i. \<not> mod_at N name i | Some i \<Rightarrow> mod_at N name i"
      by (rule module_query_spec [OF inv])
    with i obtain j where j: "s = Some j" "mod_at N name j" by (cases s) auto
    with i inv have "j = i" unfolding mod_at_def mod_inv_def by metis
    with s j show ?thesis by (simp add: skynet_module_query_def)
  qed
  show ?thesis
  proof (cases q)
    case (Some i)
    with q assms(2) have "r = Some i" "M' = M" by (auto simp: skynet_module_query_def)
    with q Some assms(1) again show ?thesis by simp
  next
    case None
    show ?thesis
    proof (cases "\<exists>dl md. md_count M < MAX_MODULE_TYPE \<and> try_open dlopen (md_path M) name = Some (Some dl)
        \<and> mod_name md = name \<and> mod_init md \<noteq> None
        \<and> M' = M\<lparr>md_m := (md_m M)[md_count M := Some md], md_count := md_count M + 1\<rparr> \<and> r = Some (md_count M)")
      case True
      then obtain md where md: "md_count M < MAX_MODULE_TYPE" "mod_name md = name" "mod_init md \<noteq> None"
        "M' = M\<lparr>md_m := (md_m M)[md_count M := Some md], md_count := md_count M + 1\<rparr>" "r = Some (md_count M)"
        by blast
      have fresh: "i < md_count M \<Longrightarrow> map_option mod_name (md_m M ! i) \<noteq> Some name" for i
        using q None by (auto simp: mod_at_def)
      have inv: "mod_inv M'"
        using mod_inv_extend [OF assms(1) md(1,3)] fresh md(2,4) by simp
      have "mod_at M' name (md_count M)"
        using md assms(1) by (simp add: mod_at_def mod_inv_def)
      with inv again md show ?thesis by simp
    next
      case False
      with None q assms(2) have "r = None \<and> md_count M' = md_count M \<and>
          (M' = M \<or> md_count M < MAX_MODULE_TYPE \<and> (\<exists>md. M' = M\<lparr>md_m := (md_m M)[md_count M := Some md]\<rparr>))"
        by (auto simp: skynet_module_query_def Let_def open_sym_def split: option.splits if_splits bind_splits)
      moreover have "mod_inv M'" if "M' = M\<lparr>md_m := (md_m M)[md_count M := Some md]\<rparr>" for md
        using assms(1) that unfolding mod_inv_def by simp
      ultimately show ?thesis using assms(1) by auto
    qed
  qed
qed


theorem module_query_loads_once_witness:
  "\<exists>M'. skynet_module_query (\<lambda>f. if f = ''./cservice/gate.so'' then Some 7 else None)
       (\<lambda>dl s. if s = ''gate_init'' then Some 1 else None) (skynet_module_init ''./cservice/?.so'') ''gate''
       = Some (Some 0, M') \<and> mod_at M' ''gate'' 0"
proof -
  let ?M = "skynet_module_init ''./cservice/?.so''"
  let ?o = "\<lambda>f. if f = ''./cservice/gate.so'' then Some (7 :: ptr) else None"
  let ?s = "\<lambda>(dl :: ptr) s. if s = ''gate_init'' then Some (1 :: nat) else None"
  have inv: "mod_inv ?M" by (simp add: mod_inv_def skynet_module_init_def)
  have "try_open ?o ''./cservice/?.so'' ''gate'' = Some (Some 7)"
    by (subst try_open.simps) (simp add: try_candidate_def)
  then obtain M' where run: "skynet_module_query ?o ?s ?M ''gate'' = Some (Some 0, M')"
    by (simp add: skynet_module_query_def module_query_def skynet_module_init_def MAX_MODULE_TYPE_def
        open_sym_def get_api_def after_last_dot_def)
  from module_query_loads_once [OF inv run] run show ?thesis by simp
qed

text \<open>
  The buffer of \<open>_try_open\<close>, as long as the search path and the name together, is large
  enough for every file name the search builds: a linker that is never asked for a longer name
  gives the same result.
\<close>

theorem try_open_buffer_fits:
  "try_open (\<lambda>f. if length f < length path + length name then dlopen f else None) path name
     = try_open dlopen path name"
  by (rule try_open_cong) simp

end
