(* ===== verification/Skynet_Node.thy ===== *)
theory Skynet_Node
  imports Skynet_Handle Skynet_Timer Skynet_Module
begin

text \<open>
  The state of a node and the part of \<^verbatim>\<open>skynet-src/skynet_server.c\<close>,
  \<^verbatim>\<open>skynet_error.c\<close>, \<^verbatim>\<open>skynet_harbor.c\<close> and \<^verbatim>\<open>skynet_handle.c\<close>
  that moves messages: contexts and their reference counts, \<open>skynet_context_push\<close>,
  \<open>skynet_error\<close>, \<open>skynet_send\<close> and the release of queues.

  \<open>node\<close> collects the statics of these files and the heap, with one store per kind of
  object. Addresses come from the counter \<open>nd_brk\<close> and are never used again. An
  operation is a function from the node to \<open>(result \<times> node) option\<close>; \<open>None\<close> is a
  failed assertion, an access to a dead or uninitialised object, a double free or an overrun
  buffer. The operations are the sequential code of one thread: each is a composition of the
  locked sections whose interleavings are studied in \<open>Skynet_Sched\<close>.

  \<open>world\<close> is what the runtime calls and does not contain: the functions of the service
  modules and the callbacks of the services (on the function pointers of
  \<open>Skynet_Module\<close>), the thread clock, the dynamic linker, \<open>fopen\<close>,
  \<open>ctime\<close>, the conversion \<open>%lf\<close> and the bytes of a C struct in memory
  (\<open>w_raw\<close>). They receive and return the whole node,
  since they call the runtime in turn.
\<close>

subsection \<open>Data\<close>

record remote_message =
  rm_name :: string
  rm_handle :: u32
  rm_message :: "ptr option"
  rm_sz :: size_t
  rm_type :: cint

text \<open>The text that may follow a \<open>skynet_socket_message\<close> in its block is \<open>ssm_tail\<close>.\<close>

record skynet_socket_message =
  ssm_type :: cint
  ssm_id :: cint
  ssm_ud :: cint
  ssm_buffer :: "ptr option"
  ssm_tail :: string

datatype cdata = Bytes string | Remote remote_message | Sock skynet_socket_message

record skynet_context =
  ctx_instance :: ptr
  ctx_mod :: nat
  ctx_cb_ud :: "ptr option"
  ctx_cb :: "nat option"
  ctx_queue :: "ptr option"
  ctx_logfile :: "ptr option"
  ctx_cpu_cost :: u64
  ctx_cpu_start :: u64
  ctx_result :: string
  ctx_handle :: u32
  ctx_session_id :: cint
  ctx_ref :: int
  ctx_message_count :: cint
  ctx_init :: bool
  ctx_endless :: bool
  ctx_profile :: bool

record node =
  nd_ctx :: "ptr \<Rightarrow> skynet_context option"
  nd_mq :: mq_state
  nd_handle :: handle_storage
  nd_timer :: timer
  nd_env :: "string \<Rightarrow> string option"
  nd_modules :: modules
  nd_mem :: "ptr \<Rightarrow> cdata option"
  nd_files :: "ptr \<Rightarrow> string option"
  nd_brk :: ptr
  nd_total :: int
  nd_init :: bool
  nd_monitor_exit :: u32
  nd_handle_key :: u32
  nd_profile :: bool
  nd_remote :: "ptr option"
  nd_harbor :: u32
  nd_logger :: u32

record world =
  w_create :: "nat \<Rightarrow> node \<Rightarrow> (ptr option \<times> node) option"
  w_init :: "nat \<Rightarrow> ptr \<Rightarrow> ptr \<Rightarrow> string option \<Rightarrow> node \<Rightarrow> (int \<times> node) option"
  w_release :: "nat \<Rightarrow> ptr \<Rightarrow> node \<Rightarrow> node option"
  w_signal :: "nat \<Rightarrow> ptr \<Rightarrow> cint \<Rightarrow> node \<Rightarrow> node option"
  w_cb :: "nat \<Rightarrow> ptr \<Rightarrow> ptr option \<Rightarrow> cint \<Rightarrow> cint \<Rightarrow> u32 \<Rightarrow> ptr option \<Rightarrow> size_t
             \<Rightarrow> node \<Rightarrow> (int \<times> node) option"
  w_thread_time :: "node \<Rightarrow> u64"
  w_dlopen :: "string \<Rightarrow> ptr option"
  w_dlsym :: "ptr \<Rightarrow> string \<Rightarrow> nat option"
  w_fopen :: "string \<Rightarrow> node \<Rightarrow> bool"
  w_ctime :: "u64 \<Rightarrow> string"
  w_lf :: "u64 \<Rightarrow> string"
  w_raw :: "cdata \<Rightarrow> string"

definition PTYPE_TEXT :: cint where "PTYPE_TEXT = 0"
definition PTYPE_CLIENT :: cint where "PTYPE_CLIENT = 3"
definition PTYPE_SYSTEM :: cint where "PTYPE_SYSTEM = 4"
definition PTYPE_HARBOR :: cint where "PTYPE_HARBOR = 5"
definition PTYPE_SOCKET :: cint where "PTYPE_SOCKET = 6"
definition PTYPE_ERROR :: cint where "PTYPE_ERROR = 7"
definition PTYPE_TAG_DONTCOPY :: cint where "PTYPE_TAG_DONTCOPY = 0x10000"
definition PTYPE_TAG_ALLOCSESSION :: cint where "PTYPE_TAG_ALLOCSESSION = 0x20000"
definition GLOBALNAME_LENGTH :: nat where "GLOBALNAME_LENGTH = 16"
definition LOG_MESSAGE_SIZE :: nat where "LOG_MESSAGE_SIZE = 256"
definition REMOTE_MESSAGE_SIZE :: size_t where "REMOTE_MESSAGE_SIZE = 48"

subsection \<open>The heap\<close>

definition skynet_malloc :: "node \<Rightarrow> cdata \<Rightarrow> ptr \<times> node" where
  "skynet_malloc nd v =
     (nd_brk nd, nd\<lparr>nd_mem := (nd_mem nd)(nd_brk nd \<mapsto> v), nd_brk := nd_brk nd + 1\<rparr>)"

definition skynet_free :: "node \<Rightarrow> ptr option \<Rightarrow> node option" where
  "skynet_free nd p =
     (case p of
        None \<Rightarrow> Some nd
      | Some a \<Rightarrow> (if nd_mem nd a = None then None else Some (nd\<lparr>nd_mem := (nd_mem nd)(a := None)\<rparr>)))"

definition fclose :: "node \<Rightarrow> ptr \<Rightarrow> node option" where
  "fclose nd f = (if nd_files nd f = None then None else Some (nd\<lparr>nd_files := (nd_files nd)(f := None)\<rparr>))"

definition ctx_update :: "node \<Rightarrow> ptr \<Rightarrow> (skynet_context \<Rightarrow> skynet_context) \<Rightarrow> node option" where
  "ctx_update nd c f = do {
     ctx \<leftarrow> nd_ctx nd c;
     Some (nd\<lparr>nd_ctx := (nd_ctx nd)(c \<mapsto> f ctx)\<rparr>) }"

subsection \<open>Contexts\<close>

definition skynet_context_total :: "node \<Rightarrow> int" where
  "skynet_context_total nd = nd_total nd"

definition context_inc :: "node \<Rightarrow> node" where
  "context_inc nd = nd\<lparr>nd_total := nd_total nd + 1\<rparr>"

definition context_dec :: "node \<Rightarrow> node" where
  "context_dec nd = nd\<lparr>nd_total := nd_total nd - 1\<rparr>"

definition skynet_context_handle :: "node \<Rightarrow> ptr \<Rightarrow> u32 option" where
  "skynet_context_handle nd c = map_option ctx_handle (nd_ctx nd c)"

text \<open>\<open>++ctx->session_id\<close> at the largest \<open>int\<close> wraps around on the machines the code runs on.\<close>

definition skynet_context_newsession :: "node \<Rightarrow> ptr \<Rightarrow> (cint \<times> node) option" where
  "skynet_context_newsession nd c = do {
     ctx \<leftarrow> nd_ctx nd c;
     let session = ctx_session_id ctx + 1;
     let session = (if sint session \<le> 0 then 1 else session);
     nd \<leftarrow> ctx_update nd c (\<lambda>ctx. ctx\<lparr>ctx_session_id := session\<rparr>);
     Some (session, nd) }"

definition skynet_context_grab :: "node \<Rightarrow> ptr \<Rightarrow> node option" where
  "skynet_context_grab nd c = ctx_update nd c (\<lambda>ctx. ctx\<lparr>ctx_ref := ctx_ref ctx + 1\<rparr>)"

definition skynet_context_reserve :: "node \<Rightarrow> ptr \<Rightarrow> node option" where
  "skynet_context_reserve nd c = do {
     nd \<leftarrow> skynet_context_grab nd c;
     Some (context_dec nd) }"

definition module_of :: "node \<Rightarrow> nat \<Rightarrow> skynet_module option" where
  "module_of nd m = (if m < md_count (nd_modules nd) then md_m (nd_modules nd) ! m else None)"

definition skynet_module_instance_release :: "world \<Rightarrow> node \<Rightarrow> nat \<Rightarrow> ptr \<Rightarrow> node option" where
  "skynet_module_instance_release w nd m inst = do {
     md \<leftarrow> module_of nd m;
     case mod_release md of Some f \<Rightarrow> w_release w f inst nd | None \<Rightarrow> Some nd }"

definition delete_context :: "world \<Rightarrow> node \<Rightarrow> ptr \<Rightarrow> node option" where
  "delete_context w nd c = do {
     ctx \<leftarrow> nd_ctx nd c;
     nd \<leftarrow> (case ctx_logfile ctx of Some f \<Rightarrow> fclose nd f | None \<Rightarrow> Some nd);
     nd \<leftarrow> skynet_module_instance_release w nd (ctx_mod ctx) (ctx_instance ctx);
     ctx \<leftarrow> nd_ctx nd c;
     q \<leftarrow> ctx_queue ctx;
     mq \<leftarrow> skynet_mq_mark_release (nd_mq nd) q;
     Some (context_dec (nd\<lparr>nd_mq := mq, nd_ctx := (nd_ctx nd)(c := None)\<rparr>)) }"

definition skynet_context_release :: "world \<Rightarrow> node \<Rightarrow> ptr \<Rightarrow> (ptr option \<times> node) option" where
  "skynet_context_release w nd c = do {
     ctx \<leftarrow> nd_ctx nd c;
     nd \<leftarrow> ctx_update nd c (\<lambda>ctx. ctx\<lparr>ctx_ref := ctx_ref ctx - 1\<rparr>);
     if ctx_ref ctx = 1 then do {
       nd \<leftarrow> delete_context w nd c;
       Some (None, nd) }
     else Some (Some c, nd) }"

definition skynet_handle_grab :: "node \<Rightarrow> u32 \<Rightarrow> (ptr option \<times> node) option" where
  "skynet_handle_grab nd handle =
     (case slot_lookup (skynet_context_handle nd) (nd_handle nd) handle of
        None \<Rightarrow> Some (None, nd)
      | Some c \<Rightarrow> do {
          nd \<leftarrow> skynet_context_grab nd c;
          Some (Some c, nd) })"

definition skynet_context_push :: "world \<Rightarrow> node \<Rightarrow> u32 \<Rightarrow> skynet_message \<Rightarrow> (int \<times> node) option" where
  "skynet_context_push w nd handle message = do {
     (r, nd) \<leftarrow> skynet_handle_grab nd handle;
     case r of
       None \<Rightarrow> Some (-1, nd)
     | Some c \<Rightarrow> do {
         ctx \<leftarrow> nd_ctx nd c;
         q \<leftarrow> ctx_queue ctx;
         mq \<leftarrow> skynet_mq_push (nd_mq nd) q message;
         (_, nd) \<leftarrow> skynet_context_release w (nd\<lparr>nd_mq := mq\<rparr>) c;
         Some (0, nd) } }"

definition skynet_context_endless :: "world \<Rightarrow> node \<Rightarrow> u32 \<Rightarrow> node option" where
  "skynet_context_endless w nd handle = do {
     (r, nd) \<leftarrow> skynet_handle_grab nd handle;
     case r of
       None \<Rightarrow> Some nd
     | Some c \<Rightarrow> do {
         nd \<leftarrow> ctx_update nd c (\<lambda>ctx. ctx\<lparr>ctx_endless := True\<rparr>);
         (_, nd) \<leftarrow> skynet_context_release w nd c;
         Some nd } }"

subsection \<open>skynet_error\<close>

text \<open>
  The text of a message is the output of \<open>vsnprintf\<close> without a bound, \<open>None\<close> when
  \<open>vsnprintf\<close> fails. A buffer of size \<open>n\<close> receives the first \<open>n - 1\<close>
  characters and a NUL.
\<close>

definition NUL :: char where "NUL = char_of (0 :: nat)"

definition vsnprintf_len :: "string option \<Rightarrow> int" where
  "vsnprintf_len txt = (case txt of None \<Rightarrow> -1 | Some s \<Rightarrow> int (length s))"

definition vsnprintf_buf :: "string option \<Rightarrow> nat \<Rightarrow> cdata" where
  "vsnprintf_buf txt n = Bytes (case txt of None \<Rightarrow> [] | Some s \<Rightarrow> take (n - 1) s @ [NUL])"

partial_function (option) error_loop :: "node \<Rightarrow> string option \<Rightarrow> nat \<Rightarrow> (ptr \<times> node) option" where
  "error_loop nd txt max_size =
     (let max_size = max_size * 2;
          (data, nd) = skynet_malloc nd (vsnprintf_buf txt max_size)
      in if vsnprintf_len txt < int max_size then Some (data, nd)
         else Option.bind (skynet_free nd (Some data)) (\<lambda>nd. error_loop nd txt max_size))"

definition skynet_error :: "world \<Rightarrow> node \<Rightarrow> ptr option \<Rightarrow> string option \<Rightarrow> node option" where
  "skynet_error w nd context txt =
     (let nd = (if nd_logger nd = 0
                then nd\<lparr>nd_logger := skynet_handle_findname (nd_handle nd) ''logger''\<rparr> else nd);
          len = vsnprintf_len txt
      in if nd_logger nd = 0 then Some nd
         else do {
           (data, nd) \<leftarrow> (if 0 \<le> len \<and> len < int LOG_MESSAGE_SIZE
                          then Some (skynet_malloc nd (vsnprintf_buf txt LOG_MESSAGE_SIZE))
                          else error_loop nd txt LOG_MESSAGE_SIZE);
           if len < 0 then skynet_free nd (Some data)
           else do {
             source \<leftarrow> (case context of None \<Rightarrow> Some 0 | Some c \<Rightarrow> skynet_context_handle nd c);
             (_, nd) \<leftarrow> skynet_context_push w nd (nd_logger nd)
               \<lparr>msg_source = source, msg_session = 0, msg_data = Some data,
                msg_sz = word_of_int len OR push_bit MESSAGE_TYPE_SHIFT (scast PTYPE_TEXT)\<rparr>;
             Some nd } })"


subsection \<open>The harbor\<close>

definition invalid_type :: "cint \<Rightarrow> bool" where
  "invalid_type type \<longleftrightarrow> type \<noteq> PTYPE_SYSTEM \<and> type \<noteq> PTYPE_HARBOR"

definition skynet_context_send ::
  "node \<Rightarrow> ptr \<Rightarrow> ptr option \<Rightarrow> size_t \<Rightarrow> u32 \<Rightarrow> cint \<Rightarrow> cint \<Rightarrow> node option" where
  "skynet_context_send nd c msg sz source type session = do {
     ctx \<leftarrow> nd_ctx nd c;
     q \<leftarrow> ctx_queue ctx;
     mq \<leftarrow> skynet_mq_push (nd_mq nd) q
       \<lparr>msg_source = source, msg_session = session, msg_data = msg,
        msg_sz = sz OR push_bit MESSAGE_TYPE_SHIFT (scast type)\<rparr>;
     Some (nd\<lparr>nd_mq := mq\<rparr>) }"

definition skynet_harbor_send :: "node \<Rightarrow> remote_message \<Rightarrow> ptr \<Rightarrow> u32 \<Rightarrow> cint \<Rightarrow> node option" where
  "skynet_harbor_send nd rmsg p source session =
     (if \<not> invalid_type (rm_type rmsg) then None
      else do {
        c \<leftarrow> nd_remote nd;
        skynet_context_send nd c (Some p) REMOTE_MESSAGE_SIZE source PTYPE_SYSTEM session })"

definition skynet_harbor_message_isremote :: "node \<Rightarrow> u32 \<Rightarrow> bool option" where
  "skynet_harbor_message_isremote nd handle =
     (if nd_harbor nd = - 1 then None
      else (let h = handle AND NOT HANDLE_MASK in Some (h \<noteq> nd_harbor nd \<and> h \<noteq> 0)))"

definition skynet_harbor_init :: "node \<Rightarrow> cint \<Rightarrow> node" where
  "skynet_harbor_init nd harbor = nd\<lparr>nd_harbor := push_bit HANDLE_REMOTE_SHIFT harbor\<rparr>"

definition skynet_harbor_start :: "node \<Rightarrow> ptr \<Rightarrow> node option" where
  "skynet_harbor_start nd c = do {
     nd \<leftarrow> skynet_context_reserve nd c;
     Some (nd\<lparr>nd_remote := Some c\<rparr>) }"

definition skynet_harbor_exit :: "world \<Rightarrow> node \<Rightarrow> node option" where
  "skynet_harbor_exit w nd =
     (case nd_remote nd of
        None \<Rightarrow> Some nd
      | Some c \<Rightarrow> do {
          (_, nd) \<leftarrow> skynet_context_release w (nd\<lparr>nd_remote := None\<rparr>) c;
          Some nd })"

text \<open>The harbor number is \<open>int\<close>; the first of the pair is the C result.\<close>

definition skynet_isremote :: "node \<Rightarrow> u32 \<Rightarrow> (bool \<times> cint) option" where
  "skynet_isremote nd handle = do {
     ret \<leftarrow> skynet_harbor_message_isremote nd handle;
     Some (ret, drop_bit HANDLE_REMOTE_SHIFT handle) }"

subsection \<open>Sending\<close>

text \<open>
  \<open>_filter_args\<close>: the session, the data and the size that are sent. Copying reads
  \<open>sz\<close> bytes of the data.
\<close>

definition filter_copy :: "node \<Rightarrow> ptr \<Rightarrow> size_t \<Rightarrow> (ptr \<times> node) option" where
  "filter_copy nd p sz =
     (case nd_mem nd p of
        Some (Bytes bs) \<Rightarrow>
          (if unat sz \<le> length bs then Some (skynet_malloc nd (Bytes (take (unat sz) bs @ [NUL]))) else None)
      | _ \<Rightarrow> None)"

definition filter_args ::
  "node \<Rightarrow> ptr option \<Rightarrow> cint \<Rightarrow> cint \<Rightarrow> ptr option \<Rightarrow> size_t
     \<Rightarrow> ((cint \<times> ptr option \<times> size_t) \<times> node) option" where
  "filter_args nd context type session data sz = do {
     let needcopy = (type AND PTYPE_TAG_DONTCOPY = 0);
     let allocsession = (type AND PTYPE_TAG_ALLOCSESSION \<noteq> 0);
     let type = type AND 0xff;
     (session, nd) \<leftarrow> (if allocsession then
         (if session \<noteq> 0 then None
          else Option.bind context (skynet_context_newsession nd))
       else Some (session, nd));
     (data, nd) \<leftarrow> (case data of
         Some p \<Rightarrow> (if needcopy then map_option (\<lambda>(q, nd). (Some q, nd)) (filter_copy nd p sz)
                   else Some (data, nd))
       | None \<Rightarrow> Some (None, nd));
     Some ((session, data, sz OR push_bit MESSAGE_TYPE_SHIFT (scast type)), nd) }"

definition skynet_send ::
  "world \<Rightarrow> node \<Rightarrow> ptr option \<Rightarrow> u32 \<Rightarrow> u32 \<Rightarrow> cint \<Rightarrow> cint \<Rightarrow> ptr option \<Rightarrow> size_t
     \<Rightarrow> (cint \<times> node) option" where
  "skynet_send w nd context source destination type session data sz =
     (if sz AND MESSAGE_TYPE_MASK \<noteq> sz then do {
        nd \<leftarrow> skynet_error w nd context
          (Some (''The message to '' @ fmt_x destination @ '' is too large''));
        nd \<leftarrow> (if type AND PTYPE_TAG_DONTCOPY \<noteq> 0 then skynet_free nd data else Some nd);
        Some (- 2, nd) }
      else do {
        ((session, data, sz), nd) \<leftarrow> filter_args nd context type session data sz;
        source \<leftarrow> (if source = 0 then Option.bind context (skynet_context_handle nd) else Some source);
        if destination = 0 then
          (if data \<noteq> None then do {
             nd \<leftarrow> skynet_error w nd context (Some ''Destination address can't be 0'');
             nd \<leftarrow> skynet_free nd data;
             Some (- 1, nd) }
           else Some (session, nd))
        else do {
          remote \<leftarrow> skynet_harbor_message_isremote nd destination;
          if remote then do {
            let rmsg = \<lparr>rm_name = [], rm_handle = destination, rm_message = data,
                        rm_sz = sz AND MESSAGE_TYPE_MASK, rm_type = ucast (drop_bit MESSAGE_TYPE_SHIFT sz)\<rparr>;
            let (p, nd) = skynet_malloc nd (Remote rmsg);
            nd \<leftarrow> skynet_harbor_send nd rmsg p source session;
            Some (session, nd) }
          else do {
            (r, nd) \<leftarrow> skynet_context_push w nd destination
              \<lparr>msg_source = source, msg_session = session, msg_data = data, msg_sz = sz\<rparr>;
            if r \<noteq> 0 then do {
              nd \<leftarrow> skynet_free nd data;
              Some (- 1, nd) }
            else Some (session, nd) } } })"

definition copy_name :: "string \<Rightarrow> string" where
  "copy_name addr = (let s = take GLOBALNAME_LENGTH addr
     in s @ replicate (GLOBALNAME_LENGTH - length s) NUL)"

text \<open>The first character of a C string, NUL for the empty one.\<close>

definition char0 :: "string \<Rightarrow> char" where
  "char0 s = (case s of [] \<Rightarrow> NUL | c # _ \<Rightarrow> c)"

definition skynet_sendname ::
  "world \<Rightarrow> node \<Rightarrow> ptr option \<Rightarrow> u32 \<Rightarrow> string \<Rightarrow> cint \<Rightarrow> cint \<Rightarrow> ptr option \<Rightarrow> size_t
     \<Rightarrow> (cint \<times> node) option" where
  "skynet_sendname w nd context source addr type session data sz = do {
     source \<leftarrow> (if source = 0 then Option.bind context (skynet_context_handle nd) else Some source);
     if char0 addr = CHR '':'' then
       skynet_send w nd context source (ucast (strtoul (tl addr) 16)) type session data sz
     else if char0 addr = CHR ''.'' then
       (let des = skynet_handle_findname (nd_handle nd) (tl addr)
        in if des = 0 then do {
             nd \<leftarrow> (if type AND PTYPE_TAG_DONTCOPY \<noteq> 0 then skynet_free nd data else Some nd);
             Some (- 1, nd) }
           else skynet_send w nd context source des type session data sz)
     else if sz AND MESSAGE_TYPE_MASK \<noteq> sz then do {
       nd \<leftarrow> skynet_error w nd context (Some (''The message to '' @ addr @ '' is too large''));
       nd \<leftarrow> (if type AND PTYPE_TAG_DONTCOPY \<noteq> 0 then skynet_free nd data else Some nd);
       Some (- 2, nd) }
     else do {
       ((session, data, sz), nd) \<leftarrow> filter_args nd context type session data sz;
       let rmsg = \<lparr>rm_name = copy_name addr, rm_handle = 0, rm_message = data,
                   rm_sz = sz AND MESSAGE_TYPE_MASK, rm_type = ucast (drop_bit MESSAGE_TYPE_SHIFT sz)\<rparr>;
       let (p, nd) = skynet_malloc nd (Remote rmsg);
       nd \<leftarrow> skynet_harbor_send nd rmsg p source session;
       Some (session, nd) } }"

subsection \<open>Releasing queues and handles\<close>

definition drop_message :: "world \<Rightarrow> node \<Rightarrow> skynet_message \<Rightarrow> u32 \<Rightarrow> node option" where
  "drop_message w nd msg handle = do {
     nd \<leftarrow> skynet_free nd (msg_data msg);
     if handle = 0 then None
     else do {
       (_, nd) \<leftarrow> skynet_send w nd None handle (msg_source msg) PTYPE_ERROR 0 None 0;
       Some nd } }"

partial_function (option) drop_queue :: "world \<Rightarrow> node \<Rightarrow> ptr \<Rightarrow> u32 \<Rightarrow> node option" where
  "drop_queue w nd q handle =
     Option.bind (skynet_mq_pop (nd_mq nd) q) (\<lambda>(r, mq).
       (case r of
          None \<Rightarrow> map_option (\<lambda>mq. nd\<lparr>nd_mq := mq\<rparr>) (mq_free mq q)
        | Some msg \<Rightarrow> Option.bind (drop_message w (nd\<lparr>nd_mq := mq\<rparr>) msg handle)
                        (\<lambda>nd. drop_queue w nd q handle)))"

definition skynet_mq_release :: "world \<Rightarrow> node \<Rightarrow> ptr \<Rightarrow> u32 \<Rightarrow> node option" where
  "skynet_mq_release w nd q handle = do {
     mq \<leftarrow> mqs (nd_mq nd) q;
     if mq_release mq then drop_queue w nd q handle
     else map_option (\<lambda>mq. nd\<lparr>nd_mq := mq\<rparr>) (skynet_globalmq_push (nd_mq nd) q) }"

definition skynet_handle_retire :: "world \<Rightarrow> node \<Rightarrow> u32 \<Rightarrow> (int \<times> node) option" where
  "skynet_handle_retire w nd handle =
     (let (r, hs) = handle_retire_locked (skynet_context_handle nd) (nd_handle nd) handle;
          nd = nd\<lparr>nd_handle := hs\<rparr>
      in case r of
           None \<Rightarrow> Some (0, nd)
         | Some c \<Rightarrow> do {
             (_, nd) \<leftarrow> skynet_context_release w nd c;
             Some (1, nd) })"

text \<open>One pass of \<open>skynet_handle_retireall\<close> over the slots from \<open>i\<close> on, and the passes.\<close>

partial_function (option) retireall_pass :: "world \<Rightarrow> node \<Rightarrow> nat \<Rightarrow> int \<Rightarrow> (int \<times> node) option" where
  "retireall_pass w nd i n =
     (if i < length (hs_slot (nd_handle nd)) then
        Option.bind (case hs_slot (nd_handle nd) ! i of
            None \<Rightarrow> Some 0
          | Some c \<Rightarrow> skynet_context_handle nd c) (\<lambda>handle.
        if handle \<noteq> 0 then
          Option.bind (skynet_handle_retire w nd handle) (\<lambda>(r, nd).
            retireall_pass w nd (i + 1) (if r \<noteq> 0 then n + 1 else n))
        else retireall_pass w nd (i + 1) n)
      else Some (n, nd))"

partial_function (option) skynet_handle_retireall :: "world \<Rightarrow> node \<Rightarrow> node option" where
  "skynet_handle_retireall w nd =
     Option.bind (retireall_pass w nd 0 0) (\<lambda>(n, nd).
       if n = 0 then Some nd else skynet_handle_retireall w nd)"

end
