(* ===== verification/Skynet_Mailbox.thy ===== *)
theory Skynet_Mailbox
  imports Skynet_MQ
begin

text \<open>
  What the server code needs of the message queues: a store of mailboxes. The view of a queue is
  its handle, its release mark and the list of its messages; the ring, the overload counters and
  the links of the global list are hidden. The laws are stated as a locale and discharged for the
  operations of \<open>Skynet_MQ\<close>.
\<close>

type_synonym mailbox = "u32 \<times> bool \<times> skynet_message list"

definition queue_view :: "mq_state \<Rightarrow> ptr \<Rightarrow> mailbox option" where
  "queue_view st p = map_option (\<lambda>q. (mq_handle q, mq_release q, mq_list q)) (mqs st p)"

text \<open>\<open>xs\<close> are the queues of the global list; a live queue of the list has its flag set.\<close>

definition mqs_ok :: "ptr list \<Rightarrow> mq_state \<Rightarrow> bool" where
  "mqs_ok xs st \<longleftrightarrow> gq_inv st xs
     \<and> (\<forall>p q. mqs st p = Some q \<longrightarrow> mq_inv q \<and> (p \<in> set xs \<longrightarrow> mq_in_global q \<or> mq_release q))"

lemma queue_view_Some:
  "queue_view st p = Some (h, r, ms) \<longleftrightarrow>
     (\<exists>q. mqs st p = Some q \<and> mq_handle q = h \<and> mq_release q = r \<and> mq_list q = ms)"
  by (auto simp: queue_view_def)

lemma mq_list_next [simp]: "mq_list (q\<lparr>mq_next := n\<rparr>) = mq_list q"
  by (simp add: mq_list_def mq_cells_def)

lemma mq_inv_next [simp]: "mq_inv (q\<lparr>mq_next := n\<rparr>) = mq_inv q"
  by (simp add: mq_inv_def mq_cells_def)

lemma same_core_view: "same_core st st' \<Longrightarrow> queue_view st' = queue_view st"
proof
  fix p assume sc: "same_core st st'"
  show "queue_view st' p = queue_view st p"
  proof (cases "mqs st p")
    case None
    then show ?thesis using same_core_None [OF sc, of p] by (simp add: queue_view_def)
  next
    case (Some q)
    from same_core_lookup [OF sc Some] obtain n where "mqs st' p = Some (q\<lparr>mq_next := n\<rparr>)" .
    then show ?thesis using Some by (simp add: queue_view_def)
  qed
qed

lemma mqs_ok_same_core:
  assumes "mqs_ok xs st" and "same_core st st'" and "gq_inv st' ys"
    and "\<And>p q. p \<in> set ys \<Longrightarrow> mqs st p = Some q \<Longrightarrow> p \<notin> set xs \<Longrightarrow> mq_in_global q \<or> mq_release q"
  shows "mqs_ok ys st'"
proof -
  have "mq_inv q \<and> (p \<in> set ys \<longrightarrow> mq_in_global q \<or> mq_release q)" if q: "mqs st' p = Some q" for p q
  proof -
    from q same_core_None [OF assms(2), of p] obtain q0 where q0: "mqs st p = Some q0" by (cases "mqs st p") auto
    from same_core_lookup [OF assms(2) q0] q obtain n where "q = q0\<lparr>mq_next := n\<rparr>" by auto
    with assms(1,4) q0 show ?thesis by (cases "p \<in> set xs") (auto simp: mqs_ok_def)
  qed
  with assms(3) show ?thesis by (simp add: mqs_ok_def)
qed

text \<open>Replacing the contents of one queue, its links kept.\<close>

lemma mqs_ok_update:
  assumes "mqs_ok xs st" and "mqs st p = Some q" and "mq_next q' = mq_next q" and "mq_inv q'"
    and "p \<in> set xs \<Longrightarrow> mq_in_global q' \<or> mq_release q'"
  shows "mqs_ok xs (st\<lparr>mqs := (mqs st)(p \<mapsto> q')\<rparr>)"
proof -
  have "gq_inv (st\<lparr>mqs := (mqs st)(p \<mapsto> q')\<rparr>) xs = gq_inv st xs"
    by (rule gq_inv_cong) (use assms(2,3) in auto)
  with assms show ?thesis by (auto simp: mqs_ok_def)
qed

lemma queue_view_update:
  "queue_view (st\<lparr>mqs := (mqs st)(p \<mapsto> q)\<rparr>) =
     (queue_view st)(p \<mapsto> (mq_handle q, mq_release q, mq_list q))"
  by (auto simp: queue_view_def)

lemma globalmq_push_view:
  assumes "mqs_ok xs st" and "mqs st p = Some q" and "p \<notin> set xs" and "mq_in_global q \<or> mq_release q"
  shows "\<exists>st'. skynet_globalmq_push st p = Some st' \<and> mqs_ok (xs @ [p]) st' \<and> queue_view st' = queue_view st"
proof -
  from assms(1) have "gq_inv st xs" by (simp add: mqs_ok_def)
  from globalmq_push_ok [OF this assms(2,3)] obtain st' where st': "skynet_globalmq_push st p = Some st'"
    "gq_inv st' (xs @ [p])" "same_core st st'" by blast
  have "mqs_ok (xs @ [p]) st'"
    by (rule mqs_ok_same_core [OF assms(1) st'(3,2)]) (use assms in auto)
  with st' same_core_view show ?thesis by blast
qed


lemma mq_store_frame [simp]:
  "mq_handle (mq_store q m) = mq_handle q" "mq_release (mq_store q m) = mq_release q"
  "mq_in_global (mq_store q m) = mq_in_global q" "mq_next (mq_store q m) = mq_next q"
  by (simp_all add: mq_store_def expand_queue_def Let_def)

lemma mq_list_flag [simp]:
  "mq_list (q\<lparr>mq_in_global := b\<rparr>) = mq_list q" "mq_list (q\<lparr>mq_release := b\<rparr>) = mq_list q"
  "mq_list (q\<lparr>mq_overload_threshold := n\<rparr>) = mq_list q" "mq_list (q\<lparr>mq_overload := n\<rparr>) = mq_list q"
  by (simp_all add: mq_list_def mq_cells_def)

lemma mq_inv_flag [simp]:
  "mq_inv (q\<lparr>mq_in_global := b\<rparr>) = mq_inv q" "mq_inv (q\<lparr>mq_release := b\<rparr>) = mq_inv q"
  "mq_inv (q\<lparr>mq_overload := n\<rparr>) = mq_inv q"
  by (simp_all add: mq_inv_def mq_cells_def)

text \<open>\<open>L\<close> is the set of the queues in the global list.\<close>

definition boxes_ok :: "ptr set \<Rightarrow> mq_state \<Rightarrow> bool" where
  "boxes_ok L st \<longleftrightarrow> (\<exists>xs. set xs = L \<and> mqs_ok xs st)"

lemma boxes_okE:
  assumes "boxes_ok L st"
  obtains xs where "set xs = L" and "mqs_ok xs st"
  using assms by (auto simp: boxes_ok_def)

lemma mq_push_view:
  assumes ok: "boxes_ok L st" and v: "queue_view st p = Some (h, False, ms)"
  shows "\<exists>st' L'. skynet_mq_push st p m = Some st' \<and> boxes_ok L' st' \<and> L \<subseteq> L' \<and> L' \<subseteq> insert p L
      \<and> queue_view st' = (queue_view st)(p \<mapsto> (h, False, ms @ [m]))"
proof -
  obtain xs where xs: "set xs = L" "mqs_ok xs st" by (rule boxes_okE [OF ok])
  from v obtain q where q: "mqs st p = Some q" "mq_handle q = h" "\<not> mq_release q" "mq_list q = ms"
    by (auto simp: queue_view_Some)
  have inv: "mq_inv q" and lst: "p \<in> set xs \<Longrightarrow> mq_in_global q" using xs(2) q by (auto simp: mqs_ok_def)
  note st = mq_store_ok [OF inv, of m]
  show ?thesis
  proof (cases "mq_in_global q")
    case True
    let ?st = "st\<lparr>mqs := (mqs st)(p \<mapsto> mq_store q m)\<rparr>"
    have "mqs_ok xs ?st" by (rule mqs_ok_update [OF xs(2) q(1)]) (use st True in auto)
    moreover have "skynet_mq_push st p m = Some ?st" using q(1) True by (simp add: skynet_mq_push_def)
    ultimately show ?thesis
      using xs(1) q st(2) by (intro exI [of _ ?st] exI [of _ L]) (auto simp: boxes_ok_def queue_view_update)
  next
    case False
    with lst have out: "p \<notin> set xs" by blast
    let ?q = "(mq_store q m)\<lparr>mq_in_global := True\<rparr>"
    let ?st = "st\<lparr>mqs := (mqs st)(p \<mapsto> ?q)\<rparr>"
    have ok': "mqs_ok xs ?st" by (rule mqs_ok_update [OF xs(2) q(1)]) (use st in auto)
    from globalmq_push_view [OF ok' _ out, of ?q] obtain st' where st': "skynet_globalmq_push ?st p = Some st'"
      "mqs_ok (xs @ [p]) st'" "queue_view st' = queue_view ?st" by auto
    have "skynet_mq_push st p m = Some st'" using q(1) False st'(1) by (simp add: skynet_mq_push_def)
    moreover have "boxes_ok (insert p L) st'" using st'(2) xs(1) unfolding boxes_ok_def by (intro exI [of _ "xs @ [p]"]) auto
    ultimately show ?thesis
      using st'(3) q st(2) by (intro exI [of _ st'] exI [of _ "insert p L"]) (auto simp: queue_view_update)
  qed
qed

lemma mq_pop_view:
  assumes ok: "boxes_ok L st" and v: "queue_view st p = Some (h, r, m # ms)"
  shows "\<exists>st'. skynet_mq_pop st p = Some (Some m, st') \<and> boxes_ok L st'
      \<and> queue_view st' = (queue_view st)(p \<mapsto> (h, r, ms))"
proof -
  obtain xs where xs: "set xs = L" "mqs_ok xs st" by (rule boxes_okE [OF ok])
  from v obtain q where q: "mqs st p = Some q" "mq_handle q = h" "mq_release q = r" "mq_list q = m # ms"
    by (auto simp: queue_view_Some)
  have inv: "mq_inv q" and lst: "p \<in> set xs \<Longrightarrow> mq_in_global q \<or> mq_release q"
    using xs(2) q(1) by (auto simp: mqs_ok_def)
  from mq_pop_nonempty [OF inv q(4)] obtain q' where q': "mq_pop q = Some (Some m, q')" "mq_inv q'"
    "mq_list q' = ms" "mq_handle q' = mq_handle q" "mq_release q' = mq_release q"
    "mq_in_global q' = mq_in_global q" "mq_next q' = mq_next q" by blast
  have "mqs_ok xs (st\<lparr>mqs := (mqs st)(p \<mapsto> q')\<rparr>)"
    by (rule mqs_ok_update [OF xs(2) q(1) q'(7,2)]) (use lst q' in simp)
  moreover have "skynet_mq_pop st p = Some (Some m, st\<lparr>mqs := (mqs st)(p \<mapsto> q')\<rparr>)"
    using q(1) q'(1) by (simp add: skynet_mq_pop_def)
  ultimately show ?thesis
    using xs(1) q q' by (intro exI [of _ "st\<lparr>mqs := (mqs st)(p \<mapsto> q')\<rparr>"]) (auto simp: boxes_ok_def queue_view_update)
qed

lemma mq_pop_empty_view:
  assumes ok: "boxes_ok L st" and v: "queue_view st p = Some (h, r, [])" and out: "r \<or> p \<notin> L"
  shows "\<exists>st'. skynet_mq_pop st p = Some (None, st') \<and> boxes_ok L st' \<and> queue_view st' = queue_view st"
proof -
  obtain xs where xs: "set xs = L" "mqs_ok xs st" by (rule boxes_okE [OF ok])
  from v obtain q where q: "mqs st p = Some q" "mq_handle q = h" "mq_release q = r" "mq_list q = []"
    by (auto simp: queue_view_Some)
  have inv: "mq_inv q" using xs(2) q(1) by (auto simp: mqs_ok_def)
  let ?q = "q\<lparr>mq_overload_threshold := MQ_OVERLOAD, mq_in_global := False\<rparr>"
  have inv': "mq_inv ?q" using inv by (auto simp: mq_inv_def mq_cells_def MQ_OVERLOAD_def split: if_splits)
  have "mqs_ok xs (st\<lparr>mqs := (mqs st)(p \<mapsto> ?q)\<rparr>)"
    by (rule mqs_ok_update [OF xs(2) q(1) _ inv']) (use out xs(1) q in auto)
  moreover have "skynet_mq_pop st p = Some (None, st\<lparr>mqs := (mqs st)(p \<mapsto> ?q)\<rparr>)"
    using q(1) mq_pop_empty [OF inv q(4)] by (simp add: skynet_mq_pop_def)
  ultimately show ?thesis
    using xs(1) q v by (intro exI [of _ "st\<lparr>mqs := (mqs st)(p \<mapsto> ?q)\<rparr>"]) (auto simp: boxes_ok_def queue_view_update)
qed

lemma mq_mark_view:
  assumes ok: "boxes_ok L st" and v: "queue_view st p = Some (h, False, ms)"
  shows "\<exists>st' L'. skynet_mq_mark_release st p = Some st' \<and> boxes_ok L' st' \<and> L \<subseteq> L' \<and> L' \<subseteq> insert p L
      \<and> queue_view st' = (queue_view st)(p \<mapsto> (h, True, ms))"
proof -
  obtain xs where xs: "set xs = L" "mqs_ok xs st" by (rule boxes_okE [OF ok])
  from v obtain q where q: "mqs st p = Some q" "mq_handle q = h" "\<not> mq_release q" "mq_list q = ms"
    by (auto simp: queue_view_Some)
  have inv: "mq_inv q" and lst: "p \<in> set xs \<Longrightarrow> mq_in_global q" using xs(2) q by (auto simp: mqs_ok_def)
  let ?st = "st\<lparr>mqs := (mqs st)(p \<mapsto> q\<lparr>mq_release := True\<rparr>)\<rparr>"
  have ok': "mqs_ok xs ?st" by (rule mqs_ok_update [OF xs(2) q(1)]) (use inv in auto)
  have view: "queue_view ?st = (queue_view st)(p \<mapsto> (h, True, ms))" using q by (simp add: queue_view_update)
  show ?thesis
  proof (cases "mq_in_global q")
    case True
    then have "skynet_mq_mark_release st p = Some ?st" using q by (simp add: skynet_mq_mark_release_def)
    with ok' view xs(1) show ?thesis by (intro exI [of _ ?st] exI [of _ L]) (auto simp: boxes_ok_def)
  next
    case False
    with lst have out: "p \<notin> set xs" by blast
    from globalmq_push_view [OF ok' _ out, of "q\<lparr>mq_release := True\<rparr>"] obtain st' where
      st': "skynet_globalmq_push ?st p = Some st'" "mqs_ok (xs @ [p]) st'" "queue_view st' = queue_view ?st" by auto
    have "skynet_mq_mark_release st p = Some st'" using q False st'(1) by (simp add: skynet_mq_mark_release_def)
    moreover have "boxes_ok (insert p L) st'" using st'(2) xs(1) unfolding boxes_ok_def by (intro exI [of _ "xs @ [p]"]) auto
    ultimately show ?thesis
      using st'(3) view by (intro exI [of _ st'] exI [of _ "insert p L"]) auto
  qed
qed

lemma mq_free_view:
  assumes ok: "boxes_ok L st" and v: "queue_view st p = Some b" and out: "p \<notin> L"
  shows "\<exists>st'. mq_free st p = Some st' \<and> boxes_ok L st' \<and> queue_view st' = (queue_view st)(p := None)"
proof -
  obtain xs where xs: "set xs = L" "mqs_ok xs st" by (rule boxes_okE [OF ok])
  from v obtain q where q: "mqs st p = Some q" by (auto simp: queue_view_def)
  have gq: "gq_inv st xs" using xs(2) by (simp add: mqs_ok_def)
  then have nx: "mq_next q = None" using q out xs(1) by (auto simp: gq_inv_def)
  let ?st = "st\<lparr>mqs := (mqs st)(p := None)\<rparr>"
  have "gq_seg ((mqs st)(p := None)) (gq_head st) xs None"
    using gq out xs(1) by (subst gq_seg_cong [where h = "mqs st"]) (auto simp: gq_inv_def)
  then have "mqs_ok xs ?st" using gq xs(2) by (auto simp: mqs_ok_def gq_inv_def)
  moreover have "queue_view ?st = (queue_view st)(p := None)" by (auto simp: queue_view_def)
  ultimately show ?thesis
    using q nx xs(1) by (intro exI [of _ ?st]) (auto simp: mq_free_def boxes_ok_def)
qed

subsection \<open>The interface\<close>

locale mailbox_store =
  fixes view :: "'s \<Rightarrow> ptr \<Rightarrow> mailbox option"
    and push :: "'s \<Rightarrow> ptr \<Rightarrow> skynet_message \<Rightarrow> 's option"
    and pop :: "'s \<Rightarrow> ptr \<Rightarrow> (skynet_message option \<times> 's) option"
    and ok :: "ptr set \<Rightarrow> 's \<Rightarrow> bool"
  assumes push_law: "ok L s \<Longrightarrow> view s p = Some (h, False, ms) \<Longrightarrow>
      \<exists>s' L'. push s p m = Some s' \<and> ok L' s' \<and> L \<subseteq> L' \<and> L' \<subseteq> insert p L
        \<and> view s' = (view s)(p \<mapsto> (h, False, ms @ [m]))"
    and pop_law: "ok L s \<Longrightarrow> view s p = Some (h, r, m # ms) \<Longrightarrow>
      \<exists>s'. pop s p = Some (Some m, s') \<and> ok L s' \<and> view s' = (view s)(p \<mapsto> (h, r, ms))"
begin

text \<open>A message pushed behind others is popped after exactly those.\<close>

fun pops :: "nat \<Rightarrow> 's \<Rightarrow> ptr \<Rightarrow> (skynet_message list \<times> 's) option" where
  "pops 0 s p = Some ([], s)"
| "pops (Suc n) s p = do {
     (r, s) \<leftarrow> pop s p;
     m \<leftarrow> r;
     (ms, s) \<leftarrow> pops n s p;
     Some (m # ms, s) }"

lemma pops_view:
  assumes "ok L s" and "view s p = Some (h, r, xs @ ys)"
  shows "\<exists>s'. pops (length xs) s p = Some (xs, s') \<and> ok L s' \<and> view s' = (view s)(p \<mapsto> (h, r, ys))"
  using assms
proof (induction xs arbitrary: s)
  case Nil
  then show ?case by (auto simp: fun_upd_idem)
next
  case (Cons x xs)
  from pop_law [OF Cons.prems(1)] Cons.prems(2) obtain t where t: "pop s p = Some (Some x, t)" "ok L t"
    "view t = (view s)(p \<mapsto> (h, r, xs @ ys))" by fastforce
  have "view t p = Some (h, r, xs @ ys)" using t(3) by simp
  from Cons.IH [OF t(2) this] obtain s' where "pops (length xs) t p = Some (xs, s')" "ok L s'"
    "view s' = (view t)(p \<mapsto> (h, r, ys))" by blast
  with t show ?case by auto
qed

lemma pushed_arrives:
  assumes "ok L s" and "view s p = Some (h, False, ms)" and "push s p m = Some s'"
  shows "\<exists>L' s''. pops (length ms + 1) s' p = Some (ms @ [m], s'') \<and> ok L' s''
      \<and> view s'' = (view s)(p \<mapsto> (h, False, []))"
proof -
  from push_law [OF assms(1,2), of m] assms(3) obtain L' where s': "ok L' s'"
    "view s' = (view s)(p \<mapsto> (h, False, ms @ [m]))" by auto
  then have "view s' p = Some (h, False, (ms @ [m]) @ [])" by simp
  from pops_view [OF s'(1) this] s'(2) show ?thesis by auto
qed

end

interpretation boxes: mailbox_store queue_view skynet_mq_push skynet_mq_pop boxes_ok
  by unfold_locales (rule mq_push_view mq_pop_view; assumption)+

end
