(* ===== verification/Skynet_Send.thy ===== *)
theory Skynet_Send
  imports Skynet_Node Skynet_Mailbox
begin

text \<open>
  The message path of the node, proved on the definitions of \<open>Skynet_Node\<close>. The abstract
  state is \<open>inbox\<close>: the list of messages that wait for a handle. The operations are
  shown to be total on a well-formed node and to change the inboxes and the heap as intended.
\<close>

subsection \<open>Well-formed nodes\<close>

abbreviation ctx_lookup :: "node \<Rightarrow> u32 \<Rightarrow> ptr option" where
  "ctx_lookup nd h \<equiv> slot_lookup (skynet_context_handle nd) (nd_handle nd) h"

definition box_live :: "node \<Rightarrow> skynet_context \<Rightarrow> bool" where
  "box_live nd ctx \<longleftrightarrow> (\<exists>p h ms. ctx_queue ctx = Some p \<and> queue_view (nd_mq nd) p = Some (h, False, ms))"

definition node_ok :: "ptr set \<Rightarrow> node \<Rightarrow> bool" where
  "node_ok L nd \<longleftrightarrow> boxes_ok L (nd_mq nd)
     \<and> table_inv (skynet_context_handle nd) (nd_handle nd)
     \<and> (\<forall>c ctx. nd_ctx nd c = Some ctx \<longrightarrow> 1 \<le> ctx_ref ctx \<and> box_live nd ctx)
     \<and> (\<forall>c d x y. nd_ctx nd c = Some x \<longrightarrow> nd_ctx nd d = Some y \<longrightarrow> ctx_queue x = ctx_queue y \<longrightarrow> c = d)
     \<and> (\<forall>a. nd_brk nd \<le> a \<longrightarrow> nd_mem nd a = None)"

text \<open>The messages that wait for a handle, \<open>None\<close> when no service has it.\<close>

definition inbox :: "node \<Rightarrow> u32 \<Rightarrow> skynet_message list option" where
  "inbox nd h = do {
     c \<leftarrow> ctx_lookup nd h;
     ctx \<leftarrow> nd_ctx nd c;
     p \<leftarrow> ctx_queue ctx;
     b \<leftarrow> queue_view (nd_mq nd) p;
     Some (snd (snd b)) }"

lemma slot_lookup_live: "slot_lookup hof s h = Some c \<Longrightarrow> hof c = Some h"
  by (auto simp: slot_lookup_def split: option.splits if_splits)

lemma ctx_lookupE:
  assumes "node_ok L nd" and "ctx_lookup nd h = Some c"
  obtains ctx p g ms where "nd_ctx nd c = Some ctx" "ctx_handle ctx = h" "1 \<le> ctx_ref ctx"
    "ctx_queue ctx = Some p" "queue_view (nd_mq nd) p = Some (g, False, ms)" "inbox nd h = Some ms"
proof -
  from slot_lookup_live [OF assms(2)] obtain ctx where ctx: "nd_ctx nd c = Some ctx" "ctx_handle ctx = h"
    by (auto simp: skynet_context_handle_def)
  with assms(1) obtain p g ms where "1 \<le> ctx_ref ctx" "ctx_queue ctx = Some p"
    "queue_view (nd_mq nd) p = Some (g, False, ms)" unfolding node_ok_def box_live_def by blast
  with ctx assms(2) that show thesis by (simp add: inbox_def)
qed

lemma inbox_None_iff:
  assumes "node_ok L nd"
  shows "inbox nd h = None \<longleftrightarrow> ctx_lookup nd h = None"
proof (cases "ctx_lookup nd h")
  case None
  then show ?thesis by (simp add: inbox_def)
next
  case (Some c)
  from ctx_lookupE [OF assms Some] show ?thesis using Some by (metis option.distinct(1))
qed

text \<open>Putting a message into one live mailbox keeps the node well-formed.\<close>

lemma node_ok_push:
  assumes ok: "node_ok L nd" and mq: "boxes_ok L' mq"
    and v: "queue_view (nd_mq nd) p = Some (g, False, ms)"
    and v': "queue_view mq = (queue_view (nd_mq nd))(p \<mapsto> (g, False, ms'))"
  shows "node_ok L' (nd\<lparr>nd_mq := mq\<rparr>)"
proof -
  have hof: "skynet_context_handle (nd\<lparr>nd_mq := mq\<rparr>) = skynet_context_handle nd"
    by (simp add: skynet_context_handle_def fun_eq_iff)
  have "box_live (nd\<lparr>nd_mq := mq\<rparr>) ctx" if "box_live nd ctx" for ctx
    using that v' unfolding box_live_def by auto
  with ok mq hof show ?thesis by (simp add: node_ok_def)
qed

lemma inbox_push:
  assumes ok: "node_ok L nd" and h: "ctx_lookup nd h = Some c" "nd_ctx nd c = Some ctx" "ctx_queue ctx = Some p"
    and v': "queue_view mq = (queue_view (nd_mq nd))(p \<mapsto> (g, r, ms'))"
  shows "inbox (nd\<lparr>nd_mq := mq\<rparr>) = (inbox nd)(h \<mapsto> ms')"
proof
  fix k
  have hof: "skynet_context_handle (nd\<lparr>nd_mq := mq\<rparr>) = skynet_context_handle nd"
    by (simp add: skynet_context_handle_def fun_eq_iff)
  show "inbox (nd\<lparr>nd_mq := mq\<rparr>) k = ((inbox nd)(h \<mapsto> ms')) k"
  proof (cases "ctx_lookup nd k")
    case None
    with h(1) have "k \<noteq> h" by auto
    with None show ?thesis by (simp add: inbox_def hof)
  next
    case (Some d)
    from ctx_lookupE [OF ok Some] obtain y p' where y: "nd_ctx nd d = Some y" "ctx_handle y = k" "ctx_queue y = Some p'"
      by metis
    have "ctx_handle ctx = h" using slot_lookup_live [OF h(1)] h(2) by (simp add: skynet_context_handle_def)
    moreover have "p' = p \<Longrightarrow> d = c" using ok y h unfolding node_ok_def by metis
    ultimately have "p' = p \<Longrightarrow> k = h" using y h(2) by auto
    with Some y h v' show ?thesis by (cases "k = h") (auto simp: inbox_def hof)
  qed
qed

subsection \<open>skynet_context_push\<close>

lemma context_push_unknown:
  "ctx_lookup nd h = None \<Longrightarrow> skynet_context_push w nd h m = Some (-1, nd)"
  by (simp add: skynet_context_push_def skynet_handle_grab_def)

lemma context_push_eq:
  assumes "ctx_lookup nd h = Some c" and "nd_ctx nd c = Some ctx" and "1 \<le> ctx_ref ctx" and "ctx_queue ctx = Some p"
  shows "skynet_context_push w nd h m =
    map_option (\<lambda>mq. (0, nd\<lparr>nd_mq := mq\<rparr>)) (skynet_mq_push (nd_mq nd) p m)"
proof -
  have restore: "(nd_ctx nd)(c \<mapsto> ctx\<lparr>ctx_ref := ctx_ref ctx\<rparr>) = nd_ctx nd"
    using assms(2) by (auto simp: fun_eq_iff)
  show ?thesis
    using assms restore
    by (cases "skynet_mq_push (nd_mq nd) p m")
      (simp_all add: skynet_context_push_def skynet_handle_grab_def skynet_context_grab_def ctx_update_def
        skynet_context_release_def)
qed

lemma context_push_inbox:
  assumes ok: "node_ok L nd" and i: "inbox nd h = Some ms"
  obtains mq L' p where "skynet_context_push w nd h m = Some (0, nd\<lparr>nd_mq := mq\<rparr>)" "node_ok L' (nd\<lparr>nd_mq := mq\<rparr>)"
    "inbox (nd\<lparr>nd_mq := mq\<rparr>) = (inbox nd)(h \<mapsto> ms @ [m])" "L \<subseteq> L'" "L' \<subseteq> insert p L"
    "queue_view (nd_mq nd) p \<noteq> None" "snd (snd (the (queue_view (nd_mq nd) p))) = ms"
    "\<not> fst (snd (the (queue_view (nd_mq nd) p)))"
    "\<And>x. x \<noteq> p \<Longrightarrow> queue_view mq x = queue_view (nd_mq nd) x"
proof -
  from i obtain c where c: "ctx_lookup nd h = Some c" by (auto simp: inbox_def split: bind_splits)
  from ctx_lookupE [OF ok c] i obtain ctx p g where ctx: "nd_ctx nd c = Some ctx" "1 \<le> ctx_ref ctx"
    "ctx_queue ctx = Some p" "queue_view (nd_mq nd) p = Some (g, False, ms)" by (metis option.inject)
  have "boxes_ok L (nd_mq nd)" using ok by (simp add: node_ok_def)
  from boxes.push_law [OF this ctx(4), of m] obtain mq L' where mq: "skynet_mq_push (nd_mq nd) p m = Some mq"
    "boxes_ok L' mq" "L \<subseteq> L'" "L' \<subseteq> insert p L"
    "queue_view mq = (queue_view (nd_mq nd))(p \<mapsto> (g, False, ms @ [m]))" by blast
  show thesis
  proof (rule that [of mq L' p])
    show "skynet_context_push w nd h m = Some (0, nd\<lparr>nd_mq := mq\<rparr>)"
      using context_push_eq [OF c ctx(1,2,3)] mq(1) by simp
    show "node_ok L' (nd\<lparr>nd_mq := mq\<rparr>)" by (rule node_ok_push [OF ok mq(2) ctx(4) mq(5)])
    show "inbox (nd\<lparr>nd_mq := mq\<rparr>) = (inbox nd)(h \<mapsto> ms @ [m])" by (rule inbox_push [OF ok c ctx(1,3) mq(5)])
  qed (use mq ctx in auto)
qed


subsection \<open>The heap\<close>

lemma hof_frame [simp]:
  "skynet_context_handle (nd\<lparr>nd_mem := m\<rparr>) = skynet_context_handle nd"
  "skynet_context_handle (nd\<lparr>nd_brk := b\<rparr>) = skynet_context_handle nd"
  "skynet_context_handle (nd\<lparr>nd_logger := l\<rparr>) = skynet_context_handle nd"
  "skynet_context_handle (nd\<lparr>nd_mq := q\<rparr>) = skynet_context_handle nd"
  "skynet_context_handle (nd\<lparr>nd_handle := hs\<rparr>) = skynet_context_handle nd"
  "skynet_context_handle (nd\<lparr>nd_monitor_exit := x\<rparr>) = skynet_context_handle nd"
  "skynet_context_handle (nd\<lparr>nd_handle_key := x\<rparr>) = skynet_context_handle nd"
  "skynet_context_handle (nd\<lparr>nd_timer := T\<rparr>) = skynet_context_handle nd"
  by (simp_all add: skynet_context_handle_def fun_eq_iff)

lemma inbox_frame [simp]:
  "inbox (nd\<lparr>nd_mem := m\<rparr>) = inbox nd" "inbox (nd\<lparr>nd_brk := b\<rparr>) = inbox nd"
  "inbox (nd\<lparr>nd_logger := l\<rparr>) = inbox nd" "inbox (nd\<lparr>nd_timer := T\<rparr>) = inbox nd"
  "inbox (nd\<lparr>nd_handle_key := x\<rparr>) = inbox nd" "inbox (nd\<lparr>nd_monitor_exit := x\<rparr>) = inbox nd"
  by (simp_all add: inbox_def fun_eq_iff)

lemma box_live_frame [simp]:
  "box_live (nd\<lparr>nd_mem := m\<rparr>) ctx = box_live nd ctx" "box_live (nd\<lparr>nd_brk := b\<rparr>) ctx = box_live nd ctx"
  "box_live (nd\<lparr>nd_logger := l\<rparr>) ctx = box_live nd ctx" "box_live (nd\<lparr>nd_handle := hs\<rparr>) ctx = box_live nd ctx"
  "box_live (nd\<lparr>nd_ctx := cs\<rparr>) ctx = box_live nd ctx" "box_live (nd\<lparr>nd_timer := T\<rparr>) ctx = box_live nd ctx"
  by (simp_all add: box_live_def)

lemma node_ok_logger: "node_ok L nd \<Longrightarrow> node_ok L (nd\<lparr>nd_logger := l\<rparr>)"
  by (simp add: node_ok_def)

lemma malloc_ok:
  assumes "node_ok L nd" and "skynet_malloc nd v = (p, nd')"
  shows "node_ok L nd'" "inbox nd' = inbox nd" "nd_mem nd p = None" "p = nd_brk nd"
    "nd' = nd\<lparr>nd_mem := (nd_mem nd)(p \<mapsto> v), nd_brk := p + 1\<rparr>"
  using assms by (auto simp: skynet_malloc_def node_ok_def)

lemma free_ok:
  assumes "node_ok L nd" and "nd_mem nd p \<noteq> None"
  shows "skynet_free nd (Some p) = Some (nd\<lparr>nd_mem := (nd_mem nd)(p := None)\<rparr>)"
    "node_ok L (nd\<lparr>nd_mem := (nd_mem nd)(p := None)\<rparr>)"
  using assms by (auto simp: skynet_free_def node_ok_def)

subsection \<open>Steps that only add messages and data\<close>

text \<open>
  \<open>grows\<close>: no data is freed, no service and no handle changes, the inboxes get longer, and
  a released queue keeps its messages and is not put into the global list.
\<close>

definition grows :: "ptr set \<Rightarrow> node \<Rightarrow> ptr set \<Rightarrow> node \<Rightarrow> bool" where
  "grows L nd L' nd' \<longleftrightarrow> node_ok L' nd' \<and> L \<subseteq> L'
     \<and> (\<exists>mq mem brk lg. nd' = nd\<lparr>nd_mq := mq, nd_mem := mem, nd_brk := brk, nd_logger := lg\<rparr>)
     \<and> (\<forall>a. nd_mem nd a \<noteq> None \<longrightarrow> nd_mem nd' a = nd_mem nd a)
     \<and> (\<forall>p h ms. queue_view (nd_mq nd) p = Some (h, True, ms) \<longrightarrow>
          queue_view (nd_mq nd') p = Some (h, True, ms) \<and> (p \<in> L' \<longrightarrow> p \<in> L))
     \<and> (\<forall>h. case inbox nd h of None \<Rightarrow> inbox nd' h = None | Some ms \<Rightarrow> \<exists>ns. inbox nd' h = Some (ms @ ns))"

lemma grows_refl:
  assumes "node_ok L nd"
  shows "grows L nd L nd"
proof -
  have "\<exists>mq mem brk lg. nd = nd\<lparr>nd_mq := mq, nd_mem := mem, nd_brk := brk, nd_logger := lg\<rparr>"
    by (intro exI [of _ "nd_mq nd"] exI [of _ "nd_mem nd"] exI [of _ "nd_brk nd"] exI [of _ "nd_logger nd"]) simp
  with assms show ?thesis unfolding grows_def by (auto split: option.splits)
qed

lemma grows_frame:
  assumes "grows L nd L' nd'"
  shows "nd_ctx nd' = nd_ctx nd" "nd_handle nd' = nd_handle nd" "nd_harbor nd' = nd_harbor nd"
    "nd_remote nd' = nd_remote nd" "nd_monitor_exit nd' = nd_monitor_exit nd" "nd_total nd' = nd_total nd"
    "nd_timer nd' = nd_timer nd" "skynet_context_handle nd' = skynet_context_handle nd"
    "nd_env nd' = nd_env nd" "nd_modules nd' = nd_modules nd"
  using assms by (auto simp: grows_def)

lemma grows_trans:
  assumes "grows L nd L' nd'" and "grows L' nd' L'' nd''"
  shows "grows L nd L'' nd''"
proof -
  have box: "case inbox nd h of None \<Rightarrow> inbox nd'' h = None | Some ms \<Rightarrow> \<exists>ns. inbox nd'' h = Some (ms @ ns)" for h
  proof -
    have "case inbox nd h of None \<Rightarrow> inbox nd' h = None | Some ms \<Rightarrow> \<exists>ns. inbox nd' h = Some (ms @ ns)"
      "case inbox nd' h of None \<Rightarrow> inbox nd'' h = None | Some ms \<Rightarrow> \<exists>ns. inbox nd'' h = Some (ms @ ns)"
      using assms unfolding grows_def by blast+
    then show ?thesis by (cases "inbox nd h") auto
  qed
  have frame: "\<exists>mq mem brk lg. nd'' = nd\<lparr>nd_mq := mq, nd_mem := mem, nd_brk := brk, nd_logger := lg\<rparr>"
  proof -
    obtain a b c d where 1: "nd' = nd\<lparr>nd_mq := a, nd_mem := b, nd_brk := c, nd_logger := d\<rparr>"
      using assms(1) unfolding grows_def by blast
    obtain e f g h where "nd'' = nd'\<lparr>nd_mq := e, nd_mem := f, nd_brk := g, nd_logger := h\<rparr>"
      using assms(2) unfolding grows_def by blast
    with 1 have "nd'' = nd\<lparr>nd_mq := e, nd_mem := f, nd_brk := g, nd_logger := h\<rparr>" by simp
    then show ?thesis by blast
  qed
  have mem: "nd_mem nd'' a = nd_mem nd a" if "nd_mem nd a \<noteq> None" for a
    using assms that unfolding grows_def by metis
  have rel: "queue_view (nd_mq nd'') p = Some (h, True, ms) \<and> (p \<in> L'' \<longrightarrow> p \<in> L)"
    if "queue_view (nd_mq nd) p = Some (h, True, ms)" for p h ms
    using assms that unfolding grows_def by blast
  have "node_ok L'' nd''" "L \<subseteq> L''" using assms unfolding grows_def by auto
  with box frame mem rel show ?thesis unfolding grows_def by blast
qed

lemma malloc_grows:
  assumes "node_ok L nd" and "skynet_malloc nd v = (p, nd')"
  shows "grows L nd L nd'"
proof -
  note m = malloc_ok [OF assms]
  have "\<exists>mq mem brk lg. nd' = nd\<lparr>nd_mq := mq, nd_mem := mem, nd_brk := brk, nd_logger := lg\<rparr>"
    using m(5) by (intro exI [of _ "nd_mq nd"] exI [of _ "(nd_mem nd)(p \<mapsto> v)"] exI [of _ "p + 1"] exI [of _ "nd_logger nd"]) simp
  with m show ?thesis unfolding grows_def by (auto split: option.splits)
qed

lemma logger_grows:
  assumes "node_ok L nd"
  shows "grows L nd L (nd\<lparr>nd_logger := l\<rparr>)"
proof -
  have "\<exists>mq mem brk lg. nd\<lparr>nd_logger := l\<rparr> = nd\<lparr>nd_mq := mq, nd_mem := mem, nd_brk := brk, nd_logger := lg\<rparr>"
    by (intro exI [of _ "nd_mq nd"] exI [of _ "nd_mem nd"] exI [of _ "nd_brk nd"] exI [of _ l]) simp
  with node_ok_logger [OF assms] show ?thesis unfolding grows_def by (auto split: option.splits)
qed

lemma context_push_grows:
  assumes ok: "node_ok L nd"
  shows "\<exists>r nd' L'. skynet_context_push w nd h m = Some (r, nd') \<and> grows L nd L' nd' \<and> nd_mem nd' = nd_mem nd
     \<and> nd_logger nd' = nd_logger nd
     \<and> (case inbox nd h of
          None \<Rightarrow> r = -1 \<and> nd' = nd
        | Some ms \<Rightarrow> r = 0 \<and> inbox nd' = (inbox nd)(h \<mapsto> ms @ [m]))"
proof (cases "inbox nd h")
  case None
  then have "ctx_lookup nd h = None" using inbox_None_iff [OF ok, of h] by simp
  from context_push_unknown [OF this, of w m] None grows_refl [OF ok] show ?thesis by auto
next
  case (Some ms)
  from context_push_inbox [OF ok Some, of w m] obtain mq L' p where r:
    "skynet_context_push w nd h m = Some (0, nd\<lparr>nd_mq := mq\<rparr>)" "node_ok L' (nd\<lparr>nd_mq := mq\<rparr>)"
    "inbox (nd\<lparr>nd_mq := mq\<rparr>) = (inbox nd)(h \<mapsto> ms @ [m])" "L \<subseteq> L'" "L' \<subseteq> insert p L"
    "\<not> fst (snd (the (queue_view (nd_mq nd) p)))"
    "\<And>x. x \<noteq> p \<Longrightarrow> queue_view mq x = queue_view (nd_mq nd) x" by metis
  have "\<exists>mq' mem brk lg. nd\<lparr>nd_mq := mq\<rparr> = nd\<lparr>nd_mq := mq', nd_mem := mem, nd_brk := brk, nd_logger := lg\<rparr>"
    by (intro exI [of _ mq] exI [of _ "nd_mem nd"] exI [of _ "nd_brk nd"] exI [of _ "nd_logger nd"]) simp
  moreover have "queue_view mq x = Some (g, True, ns) \<and> (x \<in> L' \<longrightarrow> x \<in> L)"
    if "queue_view (nd_mq nd) x = Some (g, True, ns)" for x g ns
    using that r(5,6,7) by (cases "x = p") auto
  ultimately have "grows L nd L' (nd\<lparr>nd_mq := mq\<rparr>)"
    unfolding grows_def using r(2,3,4) Some by (auto split: option.splits)
  with r Some show ?thesis by auto
qed

subsection \<open>skynet_error\<close>

text \<open>The loop over growing buffers ends: the first power of two beyond the text is enough.\<close>

lemma error_loop_fits:
  assumes "node_ok L nd" and "vsnprintf_len txt < int (n * 2)"
  shows "\<exists>p nd'. error_loop nd txt n = Some (p, nd') \<and> node_ok L nd' \<and> inbox nd' = inbox nd
     \<and> nd_brk nd \<le> p \<and> vsnprintf_len txt < int (n * 2)
     \<and> nd' = nd\<lparr>nd_mem := (nd_mem nd)(p \<mapsto> vsnprintf_buf txt (n * 2)), nd_brk := p + 1\<rparr>"
proof -
  obtain p nd' where m: "skynet_malloc nd (vsnprintf_buf txt (n * 2)) = (p, nd')"
    by (cases "skynet_malloc nd (vsnprintf_buf txt (n * 2))")
  have "error_loop nd txt n = Some (p, nd')"
    using assms(2) by (subst error_loop.simps) (simp add: m)
  moreover have "nd_brk nd \<le> p" using malloc_ok(4) [OF assms(1) m] by simp
  ultimately show ?thesis using malloc_ok [OF assms(1) m] assms(2) by blast
qed

lemma error_loop_ok:
  assumes "node_ok L nd" and "0 < n" and "vsnprintf_len txt < int (n * 2 ^ k)"
  shows "\<exists>p nd' m. error_loop nd txt n = Some (p, nd') \<and> node_ok L nd' \<and> inbox nd' = inbox nd
     \<and> nd_brk nd \<le> p \<and> vsnprintf_len txt < int m
     \<and> nd' = nd\<lparr>nd_mem := (nd_mem nd)(p \<mapsto> vsnprintf_buf txt m), nd_brk := p + 1\<rparr>"
  using assms
proof (induction k arbitrary: nd n)
  case 0
  then have "vsnprintf_len txt < int (n * 2)" by simp
  from error_loop_fits [OF 0(1) this] show ?case by blast
next
  case (Suc k)
  show ?case
  proof (cases "vsnprintf_len txt < int (n * 2)")
    case True
    from error_loop_fits [OF Suc.prems(1) True] show ?thesis by blast
  next
    case False
    obtain p nd' where m: "skynet_malloc nd (vsnprintf_buf txt (n * 2)) = (p, nd')"
      by (cases "skynet_malloc nd (vsnprintf_buf txt (n * 2))")
    note mo = malloc_ok [OF Suc.prems(1) m]
    let ?nd = "nd'\<lparr>nd_mem := (nd_mem nd')(p := None)\<rparr>"
    have live: "nd_mem nd' p \<noteq> None" using mo(5) by simp
    note fr = free_ok [OF mo(1) live]
    have step: "error_loop nd txt n = error_loop ?nd txt (n * 2)"
      using False by (subst error_loop.simps) (simp add: m fr(1))
    have mem: "(nd_mem nd')(p := None) = nd_mem nd" using mo(3,5) by (simp add: fun_upd_idem)
    have "0 < n * 2" "vsnprintf_len txt < int (n * 2 * 2 ^ k)" using Suc.prems by (simp_all add: ac_simps)
    from Suc.IH [OF fr(2) this] obtain q nd'' j where q: "error_loop ?nd txt (n * 2) = Some (q, nd'')" "node_ok L nd''"
      "inbox nd'' = inbox ?nd" "nd_brk ?nd \<le> q" "vsnprintf_len txt < int j"
      "nd'' = ?nd\<lparr>nd_mem := (nd_mem ?nd)(q \<mapsto> vsnprintf_buf txt j), nd_brk := q + 1\<rparr>" by blast
    have "nd'' = nd\<lparr>nd_mem := (nd_mem nd)(q \<mapsto> vsnprintf_buf txt j), nd_brk := q + 1\<rparr>"
      using q(6) mo(5) mem by simp
    moreover have "inbox nd'' = inbox nd" using q(3) mo(2) by simp
    moreover have "nd_brk nd \<le> q" using q(4) mo(4,5) by simp
    ultimately show ?thesis unfolding step using q(1,2,5) by blast
  qed
qed

lemma error_loop_grows:
  assumes "node_ok L nd"
  shows "\<exists>p nd'. error_loop nd (Some s) LOG_MESSAGE_SIZE = Some (p, nd') \<and> grows L nd L nd'
     \<and> inbox nd' = inbox nd \<and> nd_mem nd p = None \<and> nd_mem nd' = (nd_mem nd)(p \<mapsto> Bytes (s @ [NUL]))
     \<and> nd_logger nd' = nd_logger nd"
proof -
  have "length s < LOG_MESSAGE_SIZE * 2 ^ length s"
    by (rule less_le_trans [OF less_exp]) (simp add: LOG_MESSAGE_SIZE_def)
  then have "vsnprintf_len (Some s) < int (LOG_MESSAGE_SIZE * 2 ^ length s)"
    unfolding vsnprintf_len_def option.case by (simp only: of_nat_less_iff)
  from error_loop_ok [OF assms _ this] obtain p nd' m where r: "error_loop nd (Some s) LOG_MESSAGE_SIZE = Some (p, nd')"
    "node_ok L nd'" "inbox nd' = inbox nd" "nd_brk nd \<le> p" "vsnprintf_len (Some s) < int m"
    "nd' = nd\<lparr>nd_mem := (nd_mem nd)(p \<mapsto> vsnprintf_buf (Some s) m), nd_brk := p + 1\<rparr>"
    by (auto simp: LOG_MESSAGE_SIZE_def)
  have buf: "vsnprintf_buf (Some s) m = Bytes (s @ [NUL])"
    using r(5) by (simp add: vsnprintf_buf_def vsnprintf_len_def)
  have fresh: "nd_mem nd p = None" using assms r(4) by (simp add: node_ok_def)
  have "\<exists>mq mem brk lg. nd' = nd\<lparr>nd_mq := mq, nd_mem := mem, nd_brk := brk, nd_logger := lg\<rparr>"
    using r(6) by (intro exI [of _ "nd_mq nd"] exI [of _ "nd_mem nd'"] exI [of _ "p + 1"] exI [of _ "nd_logger nd"]) simp
  with r(2,3,6) fresh have "grows L nd L nd'" unfolding grows_def by (auto split: option.splits)
  with r fresh buf show ?thesis by auto
qed


lemma inbox_0:
  assumes "node_ok L nd"
  shows "inbox nd 0 = None"
proof -
  have "ctx_lookup nd 0 \<noteq> Some c" for c
  proof
    assume a: "ctx_lookup nd 0 = Some c"
    have inv: "table_inv (skynet_context_handle nd) (nd_handle nd)" using assms by (simp add: node_ok_def)
    from a have "Some c \<in> set (hs_slot (nd_handle nd))" "skynet_context_handle nd c = Some 0"
      by (simp_all add: slot_lookup_Some_iff [OF inv])
    then show False by (auto simp: in_set_conv_nth elim!: table_inv_slot [OF inv])
  qed
  then show ?thesis using inbox_None_iff [OF assms] by auto
qed

text \<open>The logger \<open>skynet_error\<close> uses: the cached handle, or the name looked up once.\<close>

definition logger_of :: "node \<Rightarrow> u32" where
  "logger_of nd = (if nd_logger nd = 0 then skynet_handle_findname (nd_handle nd) ''logger'' else nd_logger nd)"

definition source_of :: "node \<Rightarrow> ptr option \<Rightarrow> u32" where
  "source_of nd cx = (case cx of None \<Rightarrow> 0 | Some c \<Rightarrow> the (skynet_context_handle nd c))"

definition log_message :: "node \<Rightarrow> ptr option \<Rightarrow> string \<Rightarrow> ptr \<Rightarrow> skynet_message" where
  "log_message nd cx s p =
     \<lparr>msg_source = source_of nd cx, msg_session = 0, msg_data = Some p, msg_sz = word_of_nat (length s)\<rparr>"

definition ctx_arg_ok :: "node \<Rightarrow> ptr option \<Rightarrow> bool" where
  "ctx_arg_ok nd cx \<longleftrightarrow> (\<forall>c. cx = Some c \<longrightarrow> nd_ctx nd c \<noteq> None)"

lemma skynet_error_ok:
  assumes ok: "node_ok L nd" and ctx: "ctx_arg_ok nd cx"
  shows "\<exists>nd' L'. skynet_error w nd cx (Some s) = Some nd' \<and> grows L nd L' nd' \<and> nd_logger nd' = logger_of nd
     \<and> (if logger_of nd = 0 then nd' = nd\<lparr>nd_logger := 0\<rparr>
        else \<exists>p. nd_mem nd p = None \<and> nd_mem nd' = (nd_mem nd)(p \<mapsto> Bytes (s @ [NUL]))
             \<and> inbox nd' = (case inbox nd (logger_of nd) of None \<Rightarrow> inbox nd
                 | Some ms \<Rightarrow> (inbox nd)(logger_of nd \<mapsto> ms @ [log_message nd cx s p])))"
proof -
  let ?lg = "logger_of nd"
  let ?nd1 = "nd\<lparr>nd_logger := ?lg\<rparr>"
  have cache: "(if nd_logger nd = 0 then nd\<lparr>nd_logger := skynet_handle_findname (nd_handle nd) ''logger''\<rparr> else nd) = ?nd1"
    by (simp add: logger_of_def)
  note ok1 = node_ok_logger [OF ok, of ?lg] and g1 = logger_grows [OF ok, of ?lg]
  show ?thesis
  proof (cases "?lg = 0")
    case True
    then have "skynet_error w nd cx (Some s) = Some ?nd1" unfolding skynet_error_def cache by simp
    with True g1 show ?thesis by auto
  next
    case False
    have "\<exists>p nd2. (if 0 \<le> vsnprintf_len (Some s) \<and> vsnprintf_len (Some s) < int LOG_MESSAGE_SIZE
          then Some (skynet_malloc ?nd1 (vsnprintf_buf (Some s) LOG_MESSAGE_SIZE))
          else error_loop ?nd1 (Some s) LOG_MESSAGE_SIZE) = Some (p, nd2)
        \<and> grows L ?nd1 L nd2 \<and> inbox nd2 = inbox nd \<and> nd_mem nd p = None
        \<and> nd_mem nd2 = (nd_mem nd)(p \<mapsto> Bytes (s @ [NUL])) \<and> nd_logger nd2 = ?lg"
    proof (cases "length s < LOG_MESSAGE_SIZE")
      case True
      obtain p nd2 where m: "skynet_malloc ?nd1 (vsnprintf_buf (Some s) LOG_MESSAGE_SIZE) = (p, nd2)"
        by (cases "skynet_malloc ?nd1 (vsnprintf_buf (Some s) LOG_MESSAGE_SIZE)")
      have "vsnprintf_buf (Some s) LOG_MESSAGE_SIZE = Bytes (s @ [NUL])"
        using True by (simp add: vsnprintf_buf_def)
      with True malloc_ok [OF ok1 m] malloc_grows [OF ok1 m] m show ?thesis
        by (auto simp: vsnprintf_len_def)
    next
      case False
      then have "\<not> (0 \<le> vsnprintf_len (Some s) \<and> vsnprintf_len (Some s) < int LOG_MESSAGE_SIZE)"
        by (simp add: vsnprintf_len_def)
      with error_loop_grows [OF ok1, of s] show ?thesis by auto
    qed
    then obtain p nd2 where alloc: "(if 0 \<le> vsnprintf_len (Some s) \<and> vsnprintf_len (Some s) < int LOG_MESSAGE_SIZE
          then Some (skynet_malloc ?nd1 (vsnprintf_buf (Some s) LOG_MESSAGE_SIZE))
          else error_loop ?nd1 (Some s) LOG_MESSAGE_SIZE) = Some (p, nd2)"
      and n2: "grows L ?nd1 L nd2" "inbox nd2 = inbox nd" "nd_mem nd p = None"
        "nd_mem nd2 = (nd_mem nd)(p \<mapsto> Bytes (s @ [NUL]))" "nd_logger nd2 = ?lg" by blast
    have ok2: "node_ok L nd2" using n2(1) by (simp add: grows_def)
    have src: "(case cx of None \<Rightarrow> Some 0 | Some c \<Rightarrow> skynet_context_handle nd2 c) = Some (source_of nd cx)"
      using ctx grows_frame(8) [OF n2(1)] unfolding source_of_def ctx_arg_ok_def
      by (cases "cx") (auto simp: skynet_context_handle_def)
    let ?m = "log_message nd cx s p"
    have msg: "\<lparr>msg_source = source_of nd cx, msg_session = 0, msg_data = Some p,
        msg_sz = word_of_int (vsnprintf_len (Some s)) OR push_bit MESSAGE_TYPE_SHIFT (scast PTYPE_TEXT)\<rparr> = ?m"
      by (simp add: log_message_def vsnprintf_len_def PTYPE_TEXT_def)
    from context_push_grows [OF ok2, of w ?lg ?m] obtain r nd' L' where push:
      "skynet_context_push w nd2 ?lg ?m = Some (r, nd')" "grows L nd2 L' nd'" "nd_mem nd' = nd_mem nd2"
      "nd_logger nd' = nd_logger nd2"
      "case inbox nd2 ?lg of None \<Rightarrow> r = -1 \<and> nd' = nd2 | Some ms \<Rightarrow> r = 0 \<and> inbox nd' = (inbox nd2)(?lg \<mapsto> ms @ [?m])"
      by blast
    have "skynet_error w nd cx (Some s) = Some nd'"
      unfolding skynet_error_def cache Let_def using False alloc src msg push(1) n2(5)
      by (simp add: vsnprintf_len_def)
    moreover have "grows L nd L' nd'" using g1 n2(1) push(2) by (blast intro: grows_trans)
    moreover have "inbox nd' = (case inbox nd ?lg of None \<Rightarrow> inbox nd | Some ms \<Rightarrow> (inbox nd)(?lg \<mapsto> ms @ [?m]))"
      using push(5) n2(2) by (auto split: option.splits)
    ultimately show ?thesis using False n2 push by auto
  qed
qed


subsection \<open>skynet_send to a local service\<close>

lemma mask_sz: "sz AND MESSAGE_TYPE_MASK = sz \<longleftrightarrow> take_bit 56 sz = sz"
proof -
  have "MESSAGE_TYPE_MASK = mask 56" unfolding MESSAGE_TYPE_MASK_def by (simp add: mask_eq_exp_minus_1)
  then show ?thesis by (simp add: take_bit_eq_mask)
qed

lemma filter_args_move:
  assumes "type AND PTYPE_TAG_ALLOCSESSION = 0" and "data = None \<or> type AND PTYPE_TAG_DONTCOPY \<noteq> 0"
  shows "filter_args nd cx type session data sz =
    Some ((session, data, sz OR push_bit MESSAGE_TYPE_SHIFT (scast (type AND 0xff))), nd)"
  using assms by (cases data) (auto simp: filter_args_def)

lemma filter_args_copy:
  assumes "type AND PTYPE_TAG_ALLOCSESSION = 0" and "type AND PTYPE_TAG_DONTCOPY = 0"
    and "nd_mem nd p = Some (Bytes bs)" and "unat sz \<le> length bs"
    and "skynet_malloc nd (Bytes (take (unat sz) bs @ [NUL])) = (q, nd')"
  shows "filter_args nd cx type session (Some p) sz =
    Some ((session, Some q, sz OR push_bit MESSAGE_TYPE_SHIFT (scast (type AND 0xff))), nd')"
  using assms by (simp add: filter_args_def filter_copy_def)

text \<open>The part of \<open>skynet_send\<close> after the arguments are filtered, for a local destination.\<close>

lemma skynet_send_local:
  assumes "sz AND MESSAGE_TYPE_MASK = sz" and "source \<noteq> 0" and "destination \<noteq> 0"
    and "filter_args nd cx type session data sz = Some ((session', data', sz'), nd1)"
    and "skynet_harbor_message_isremote nd1 destination = Some False"
  shows "skynet_send w nd cx source destination type session data sz = do {
     (r, nd) \<leftarrow> skynet_context_push w nd1 destination
       \<lparr>msg_source = source, msg_session = session', msg_data = data', msg_sz = sz'\<rparr>;
     if r \<noteq> 0 then do { nd \<leftarrow> skynet_free nd data'; Some (- 1, nd) } else Some (session', nd) }"
  using assms by (simp add: skynet_send_def)

lemma send_local_inbox:
  fixes source destination
  assumes ok: "node_ok L nd1" and data: "data' = None \<or> (\<exists>a. data' = Some a \<and> nd_mem nd1 a \<noteq> None)"
    and s: "sz AND MESSAGE_TYPE_MASK = sz" "source \<noteq> 0" "destination \<noteq> 0"
      "filter_args nd cx type session data sz = Some ((session', data', sz'), nd1)"
      "skynet_harbor_message_isremote nd1 destination = Some False"
  defines "msg \<equiv> \<lparr>msg_source = source, msg_session = session', msg_data = data', msg_sz = sz'\<rparr>"
  shows "case inbox nd1 destination of
     None \<Rightarrow> \<exists>nd'. skynet_send w nd cx source destination type session data sz = Some (- 1, nd')
       \<and> node_ok L nd' \<and> inbox nd' = inbox nd1 \<and> nd_mem nd' = (case data' of None \<Rightarrow> nd_mem nd1 | Some a \<Rightarrow> (nd_mem nd1)(a := None))
   | Some ms \<Rightarrow> \<exists>nd' L'. skynet_send w nd cx source destination type session data sz = Some (session', nd')
       \<and> grows L nd1 L' nd' \<and> nd_mem nd' = nd_mem nd1 \<and> inbox nd' = (inbox nd1)(destination \<mapsto> ms @ [msg])"
proof -
  note send = skynet_send_local [OF s, of w, folded msg_def]
  from context_push_grows [OF ok, of w destination msg] obtain r nd2 L' where p:
    "skynet_context_push w nd1 destination msg = Some (r, nd2)" "grows L nd1 L' nd2" "nd_mem nd2 = nd_mem nd1"
    "case inbox nd1 destination of None \<Rightarrow> r = -1 \<and> nd2 = nd1
     | Some ms \<Rightarrow> r = 0 \<and> inbox nd2 = (inbox nd1)(destination \<mapsto> ms @ [msg])" by blast
  show ?thesis
  proof (cases "inbox nd1 destination")
    case None
    with p have r: "r = -1" "nd2 = nd1" by auto
    show ?thesis
    proof (cases data')
      case None': None
      with r p(1) have "skynet_send w nd cx source destination type session data sz = Some (- 1, nd1)"
        unfolding send by (simp add: skynet_free_def)
      with None None' ok show ?thesis by simp
    next
      case (Some a)
      with data have "nd_mem nd1 a \<noteq> None" by simp
      note f = free_ok [OF ok this]
      have "skynet_send w nd cx source destination type session data sz
          = Some (- 1, nd1\<lparr>nd_mem := (nd_mem nd1)(a := None)\<rparr>)"
        unfolding send using r p(1) Some f(1) by simp
      with None Some f(2) show ?thesis by simp
    qed
  next
    case (Some ms)
    with p have r: "r = 0" "inbox nd2 = (inbox nd1)(destination \<mapsto> ms @ [msg])" by auto
    then have "skynet_send w nd cx source destination type session data sz = Some (session', nd2)"
      unfolding send using p(1) by simp
    with Some p r show ?thesis by auto
  qed
qed

lemma grows_inbox_ok: "grows L nd L' nd' \<Longrightarrow> node_ok L' nd'"
  by (simp add: grows_def)

text \<open>
  C10. Sending a copy to a local service. The receiver's inbox gets one message at its end with
  the source, the session, the size and the type of the call and a fresh copy of the data that
  is terminated by a NUL; every other inbox and all data already on the heap are unchanged, and
  the session is returned. When no service has the handle, -1 is returned and the copy is freed
  again: the heap and all inboxes are as before.
\<close>

theorem skynet_send_copies:
  assumes "node_ok L nd" and "sz AND MESSAGE_TYPE_MASK = sz" and "source \<noteq> 0" and "destination \<noteq> 0"
    and "type AND PTYPE_TAG_ALLOCSESSION = 0" and "type AND PTYPE_TAG_DONTCOPY = 0"
    and "skynet_harbor_message_isremote nd destination = Some False"
    and "nd_mem nd p = Some (Bytes bs)" and "unat sz \<le> length bs"
  shows "case inbox nd destination of
     None \<Rightarrow> \<exists>nd'. skynet_send w nd cx source destination type session (Some p) sz = Some (- 1, nd')
       \<and> node_ok L nd' \<and> inbox nd' = inbox nd \<and> nd_mem nd' = nd_mem nd
   | Some ms \<Rightarrow> \<exists>nd' L' q. skynet_send w nd cx source destination type session (Some p) sz = Some (session, nd')
       \<and> node_ok L' nd' \<and> nd_mem nd q = None \<and> nd_mem nd' = (nd_mem nd)(q \<mapsto> Bytes (take (unat sz) bs @ [NUL]))
       \<and> inbox nd' = (inbox nd)(destination \<mapsto> ms @
           [\<lparr>msg_source = source, msg_session = session, msg_data = Some q,
             msg_sz = sz OR push_bit MESSAGE_TYPE_SHIFT (scast (type AND 0xff))\<rparr>])"
proof -
  obtain q nd1 where m: "skynet_malloc nd (Bytes (take (unat sz) bs @ [NUL])) = (q, nd1)"
    by (cases "skynet_malloc nd (Bytes (take (unat sz) bs @ [NUL]))")
  note mo = malloc_ok [OF assms(1) m]
  have live: "nd_mem nd1 q \<noteq> None" using mo(5) by simp
  have rem: "skynet_harbor_message_isremote nd1 destination = Some False"
    using assms(7) mo(5) by (simp add: skynet_harbor_message_isremote_def split: if_splits)
  have mem: "(nd_mem nd1)(q := None) = nd_mem nd" "nd_mem nd1 = (nd_mem nd)(q \<mapsto> Bytes (take (unat sz) bs @ [NUL]))"
    using mo(3,5) by (simp_all add: fun_upd_idem)
  note fl = filter_args_copy [OF assms(5,6,8,9) m, where session = session and cx = "cx"]
  from send_local_inbox [OF mo(1) _ assms(2,3,4) fl rem, of w] live
  have "case inbox nd destination of
     None \<Rightarrow> \<exists>nd'. skynet_send w nd cx source destination type session (Some p) sz = Some (- 1, nd')
       \<and> node_ok L nd' \<and> inbox nd' = inbox nd \<and> nd_mem nd' = (nd_mem nd1)(q := None)
   | Some ms \<Rightarrow> \<exists>nd' L'. skynet_send w nd cx source destination type session (Some p) sz = Some (session, nd')
       \<and> grows L nd1 L' nd' \<and> nd_mem nd' = nd_mem nd1 \<and> inbox nd' = (inbox nd)(destination \<mapsto> ms @
           [\<lparr>msg_source = source, msg_session = session, msg_data = Some q,
             msg_sz = sz OR push_bit MESSAGE_TYPE_SHIFT (scast (type AND 0xff))\<rparr>])"
    unfolding mo(2) option.case by simp
  then show ?thesis using mem mo(3) grows_inbox_ok unfolding mem(1)
    by (cases "inbox nd destination") (simp_all, blast)
qed


text \<open>A node with one service, and a buffer to send.\<close>

definition demo_context :: skynet_context where
  "demo_context =
     \<lparr>ctx_instance = 5, ctx_mod = 0, ctx_cb_ud = None, ctx_cb = None, ctx_queue = Some 20,
      ctx_logfile = None, ctx_cpu_cost = 0, ctx_cpu_start = 0, ctx_result = [], ctx_handle = 0x01000001,
      ctx_session_id = 0, ctx_ref = 1, ctx_message_count = 0, ctx_init = True, ctx_endless = False,
      ctx_profile = False\<rparr>"

definition demo_node :: node where
  "demo_node =
     \<lparr>nd_ctx = [10 \<mapsto> demo_context],
      nd_mq = \<lparr>mqs = [20 \<mapsto> skynet_mq_create 0x01000001], gq_head = None, gq_tail = None\<rparr>,
      nd_handle = (skynet_handle_init 1)\<lparr>hs_slot := [None, Some 10, None, None], hs_handle_index := 2\<rparr>,
      nd_timer = timer_create_timer, nd_env = (\<lambda>_. None), nd_modules = skynet_module_init [],
      nd_mem = [30 \<mapsto> Bytes ''hello''], nd_files = (\<lambda>_. None), nd_brk = 31, nd_total = 1, nd_init = True,
      nd_monitor_exit = 0, nd_handle_key = 0, nd_profile = False, nd_remote = None,
      nd_harbor = 0x01000000, nd_logger = 0\<rparr>"

lemma demo_hof: "skynet_context_handle demo_node = [10 \<mapsto> 0x01000001]"
  by (auto simp: skynet_context_handle_def demo_node_def demo_context_def fun_eq_iff)

lemma demo_table: "table_inv [10 \<mapsto> 0x01000001] (nd_handle demo_node)"
proof -
  have "\<forall>i < 4. slot_ok [10 \<mapsto> 0x01000001] 0x01000000 4 i (hs_slot (nd_handle demo_node) ! i)"
    by (simp add: all_less_4 demo_node_def slot_ok_def mask_index_def HANDLE_MASK_def)
  moreover have "length (hs_slot (nd_handle demo_node)) = 4" "hs_harbor (nd_handle demo_node) = 0x01000000"
    "hs_handle_index (nd_handle demo_node) = 2"
    by (simp_all add: demo_node_def skynet_handle_init_def HANDLE_REMOTE_SHIFT_def)
  ultimately show ?thesis
    by (auto simp: table_inv_def HANDLE_MASK_def intro!: bexI [of _ 2])
qed

lemma demo_node_ok: "node_ok {} demo_node" and demo_inbox: "inbox demo_node 0x01000001 = Some []"
proof -
  have view: "queue_view (nd_mq demo_node) 20 = Some (0x01000001, False, [])"
    using mq_create_inv by (simp add: queue_view_def demo_node_def skynet_mq_create_def)
  have "mqs_ok [] (nd_mq demo_node)"
    using mq_create_inv(1) by (auto simp: mqs_ok_def gq_inv_def demo_node_def skynet_mq_create_def split: if_splits)
  then have "boxes_ok {} (nd_mq demo_node)" by (auto simp: boxes_ok_def)
  moreover have "nd_ctx demo_node = [10 \<mapsto> demo_context]" "nd_brk demo_node = 31" "nd_mem demo_node = [30 \<mapsto> Bytes ''hello'']"
    by (simp_all add: demo_node_def)
  moreover have "ctx_queue demo_context = Some 20" "ctx_ref demo_context = 1" by (simp_all add: demo_context_def)
  ultimately show ok: "node_ok {} demo_node"
    using demo_table view unfolding node_ok_def demo_hof box_live_def by (auto split: if_splits)
  have "ctx_lookup demo_node 0x01000001 = Some 10"
    using slot_lookup_Some_iff [OF demo_table] unfolding demo_hof by (simp add: demo_node_def)
  then show "inbox demo_node 0x01000001 = Some []"
    using view by (simp add: inbox_def demo_node_def demo_context_def)
qed

lemma demo_local: "skynet_harbor_message_isremote demo_node 0x01000001 = Some False"
  by (simp add: skynet_harbor_message_isremote_def demo_node_def HANDLE_MASK_def)

theorem skynet_send_copies_witness:
  "\<forall>w. \<exists>nd' q. skynet_send w demo_node None 9 0x01000001 0 7 (Some 30) 5 = Some (7, nd')
     \<and> nd_mem nd' q = Some (Bytes (''hello'' @ [NUL]))"
proof
  fix w
  have h: "nd_mem demo_node 30 = Some (Bytes ''hello'')" by (simp add: demo_node_def)
  have sz: "(5 :: size_t) AND MESSAGE_TYPE_MASK = 5" by (simp add: mask_sz)
  from skynet_send_copies [OF demo_node_ok sz _ _ _ _ demo_local h, where source = 9 and type = 0
      and session = 7 and w = w and cx = None] demo_inbox
  obtain nd' q where "skynet_send w demo_node None 9 0x01000001 0 7 (Some 30) 5 = Some (7, nd')"
    "nd_mem nd' = (nd_mem demo_node)(q \<mapsto> Bytes (take (unat (5 :: size_t)) ''hello'' @ [NUL]))" by auto
  then show "\<exists>nd' q. skynet_send w demo_node None 9 0x01000001 0 7 (Some 30) 5 = Some (7, nd')
     \<and> nd_mem nd' q = Some (Bytes (''hello'' @ [NUL]))" by auto
qed




text \<open>
  The size word of a message carries the type in its high byte: for a size that passes the
  check of \<open>skynet_send\<close>, \<open>dispatch_message\<close> gets back the low byte of the type and
  the size of the call, unchanged.
\<close>

theorem message_size_encoding:
  assumes "sz AND MESSAGE_TYPE_MASK = sz"
    and "filter_args nd cx type session data sz = Some ((session', data', sz'), nd')"
  shows "ucast (drop_bit MESSAGE_TYPE_SHIFT sz') = type AND 0xff \<and> sz' AND MESSAGE_TYPE_MASK = sz"
proof -
  have sz: "take_bit 56 sz = sz" using assms(1) by (simp add: mask_sz)
  have ff: "type AND 0xff = take_bit 8 type" by (simp add: take_bit_eq_mask mask_eq_exp_minus_1)
  have low: "bit sz n \<Longrightarrow> n < 56" for n using sz by (metis bit_take_bit_iff)
  have sz': "sz' = sz OR push_bit 56 (scast (take_bit 8 type))"
    using assms(2) by (auto simp: filter_args_def MESSAGE_TYPE_SHIFT_def ff Let_def split: bind_splits)
  have "ucast (drop_bit MESSAGE_TYPE_SHIFT sz') = take_bit 8 type"
    by (rule bit_word_eqI) (use low in \<open>fastforce simp: sz' MESSAGE_TYPE_SHIFT_def bit_simps\<close>)
  moreover have "take_bit 56 sz' = sz"
    by (rule bit_word_eqI) (use low in \<open>auto simp: sz' bit_simps\<close>)
  moreover have "sz' AND MESSAGE_TYPE_MASK = take_bit 56 sz'"
    unfolding MESSAGE_TYPE_MASK_def by (simp add: take_bit_eq_mask mask_eq_exp_minus_1)
  ultimately show ?thesis using ff by simp
qed

theorem message_size_encoding_witness:
  "\<exists>sz' nd'. filter_args demo_node None 0x1000A 7 (Some 30) 5 = Some ((7, Some 30, sz'), nd')
     \<and> ucast (drop_bit MESSAGE_TYPE_SHIFT sz') = (0xA :: cint)"
proof -
  have "filter_args demo_node None 0x1000A 7 (Some 30) 5 =
      Some ((7, Some 30, 5 OR push_bit MESSAGE_TYPE_SHIFT (scast (0x1000A AND (0xff :: cint)))), demo_node)"
    by (rule filter_args_move) (simp_all add: PTYPE_TAG_ALLOCSESSION_def PTYPE_TAG_DONTCOPY_def)
  from message_size_encoding [OF _ this] this show ?thesis by (auto simp: mask_sz)
qed


subsection \<open>Dropping a released queue\<close>

text \<open>Changing or freeing a released queue does not concern the services.\<close>

lemma node_ok_released:
  assumes ok: "node_ok L nd" and mq: "boxes_ok L mq" and q: "queue_view (nd_mq nd) q = Some (h, True, ms)"
    and v: "\<And>x. x \<noteq> q \<Longrightarrow> queue_view mq x = queue_view (nd_mq nd) x"
  shows "node_ok L (nd\<lparr>nd_mq := mq\<rparr>)" and "inbox (nd\<lparr>nd_mq := mq\<rparr>) = inbox nd"
proof -
  have live: "\<exists>p g ns. ctx_queue ctx = Some p \<and> p \<noteq> q \<and> queue_view mq p = queue_view (nd_mq nd) p
      \<and> queue_view (nd_mq nd) p = Some (g, False, ns)" if "nd_ctx nd c = Some ctx" for c ctx
  proof -
    from ok that obtain p g ns where p: "ctx_queue ctx = Some p" "queue_view (nd_mq nd) p = Some (g, False, ns)"
      unfolding node_ok_def box_live_def by blast
    with q have "p \<noteq> q" by auto
    with p v show ?thesis by blast
  qed
  then have "box_live (nd\<lparr>nd_mq := mq\<rparr>) ctx" if "nd_ctx nd c = Some ctx" for c ctx
    using that unfolding box_live_def by fastforce
  with ok mq show "node_ok L (nd\<lparr>nd_mq := mq\<rparr>)" unfolding node_ok_def by simp
  show "inbox (nd\<lparr>nd_mq := mq\<rparr>) = inbox nd"
  proof
    fix k
    show "inbox (nd\<lparr>nd_mq := mq\<rparr>) k = inbox nd k"
    proof (cases "ctx_lookup nd k")
      case (Some c)
      from ctx_lookupE [OF ok Some] obtain ctx where ctx: "nd_ctx nd c = Some ctx" by blast
      from live [OF ctx] Some ctx show ?thesis by (auto simp: inbox_def)
    qed (simp add: inbox_def)
  qed
qed

text \<open>The report that \<open>drop_message\<close> sends to the source of a message.\<close>

definition error_report :: "u32 \<Rightarrow> skynet_message" where
  "error_report handle = \<lparr>msg_source = handle, msg_session = 0, msg_data = None,
     msg_sz = push_bit MESSAGE_TYPE_SHIFT (scast PTYPE_ERROR)\<rparr>"

definition local_source :: "node \<Rightarrow> u32 \<Rightarrow> bool" where
  "local_source nd h \<longleftrightarrow> h = 0 \<or> skynet_harbor_message_isremote nd h = Some False"

lemma drop_report_ok:
  assumes ok: "node_ok L nd" and h: "handle \<noteq> 0" and dst: "local_source nd d"
  shows "\<exists>r nd' L'. skynet_send w nd None handle d PTYPE_ERROR 0 None 0 = Some (r, nd') \<and> grows L nd L' nd'
     \<and> nd_mem nd' = nd_mem nd
     \<and> inbox nd' = (case inbox nd d of None \<Rightarrow> inbox nd | Some ms \<Rightarrow> (inbox nd)(d \<mapsto> ms @ [error_report handle]))"
proof -
  have mask: "(0 :: size_t) AND MESSAGE_TYPE_MASK = 0" by simp
  have fl: "filter_args nd None PTYPE_ERROR 0 None 0 =
      Some ((0, None, 0 OR push_bit MESSAGE_TYPE_SHIFT (scast (PTYPE_ERROR AND 0xff))), nd)"
    by (rule filter_args_move) (simp_all add: PTYPE_ERROR_def PTYPE_TAG_ALLOCSESSION_def)
  have ty: "0 OR push_bit MESSAGE_TYPE_SHIFT (scast (PTYPE_ERROR AND 0xff)) = push_bit MESSAGE_TYPE_SHIFT (scast PTYPE_ERROR :: size_t)"
    by (simp add: PTYPE_ERROR_def)
  show ?thesis
  proof (cases "d = 0")
    case True
    with fl h have "skynet_send w nd None handle d PTYPE_ERROR 0 None 0 = Some (0, nd)"
      by (simp add: skynet_send_def)
    with True inbox_0 [OF ok] grows_refl [OF ok] show ?thesis by auto
  next
    case False
    with dst have rem: "skynet_harbor_message_isremote nd d = Some False" by (simp add: local_source_def)
    have f: "skynet_free x None = Some x" for x by (simp add: skynet_free_def)
    from context_push_grows [OF ok, of w d "error_report handle"] obtain r nd2 L' where p:
      "skynet_context_push w nd d (error_report handle) = Some (r, nd2)" "grows L nd L' nd2" "nd_mem nd2 = nd_mem nd"
      "case inbox nd d of None \<Rightarrow> r = -1 \<and> nd2 = nd
       | Some ms \<Rightarrow> r = 0 \<and> inbox nd2 = (inbox nd)(d \<mapsto> ms @ [error_report handle])" by blast
    have "\<exists>x. skynet_send w nd None handle d PTYPE_ERROR 0 None 0 = Some (x, nd2)"
      unfolding skynet_send_local [OF mask h False fl rem, of w] ty error_report_def [symmetric] p(1)
      by (simp add: f)
    moreover have "inbox nd2 = (case inbox nd d of None \<Rightarrow> inbox nd | Some ms \<Rightarrow> (inbox nd)(d \<mapsto> ms @ [error_report handle]))"
      using p(4) by (auto split: option.splits)
    ultimately show ?thesis using p by blast
  qed
qed


lemma drop_message_ok:
  assumes ok: "node_ok L nd" and h: "handle \<noteq> 0" and src: "local_source nd (msg_source m)"
    and data: "\<And>a. msg_data m = Some a \<Longrightarrow> nd_mem nd a \<noteq> None"
  shows "\<exists>nd' L'. drop_message w nd m handle = Some nd' \<and> node_ok L' nd' \<and> L \<subseteq> L' \<and> nd_harbor nd' = nd_harbor nd
     \<and> (\<forall>p g ms. queue_view (nd_mq nd) p = Some (g, True, ms) \<longrightarrow>
          queue_view (nd_mq nd') p = Some (g, True, ms) \<and> (p \<in> L' \<longrightarrow> p \<in> L))
     \<and> nd_mem nd' = (\<lambda>a. if msg_data m = Some a then None else nd_mem nd a)
     \<and> inbox nd' = (case inbox nd (msg_source m) of None \<Rightarrow> inbox nd
          | Some ms \<Rightarrow> (inbox nd)(msg_source m \<mapsto> ms @ [error_report handle]))"
proof -
  define nd1 where "nd1 = nd\<lparr>nd_mem := (\<lambda>a. if msg_data m = Some a then None else nd_mem nd a)\<rparr>"
  have f: "skynet_free nd (msg_data m) = Some nd1"
  proof (cases "msg_data m")
    case None
    then show ?thesis by (simp add: skynet_free_def nd1_def)
  next
    case (Some a)
    have "(nd_mem nd)(a := None) = (\<lambda>x. if msg_data m = Some x then None else nd_mem nd x)"
      using Some by (auto simp: fun_eq_iff)
    with Some data free_ok(1) [OF ok] show ?thesis by (simp add: nd1_def)
  qed
  have ok1: "node_ok L nd1" using ok unfolding node_ok_def nd1_def by auto
  have "local_source nd1 (msg_source m)"
    using src by (auto simp: local_source_def skynet_harbor_message_isremote_def nd1_def split: if_splits)
  from drop_report_ok [OF ok1 h this, of w] obtain r nd' L' where s:
    "skynet_send w nd1 None handle (msg_source m) PTYPE_ERROR 0 None 0 = Some (r, nd')" "grows L nd1 L' nd'"
    "nd_mem nd' = nd_mem nd1"
    "inbox nd' = (case inbox nd1 (msg_source m) of None \<Rightarrow> inbox nd1
       | Some ms \<Rightarrow> (inbox nd1)(msg_source m \<mapsto> ms @ [error_report handle]))" by blast
  have "drop_message w nd m handle = Some nd'" unfolding drop_message_def f using h s(1) by simp
  moreover have "nd_mq nd1 = nd_mq nd" "nd_harbor nd1 = nd_harbor nd" by (simp_all add: nd1_def)
  moreover have in1: "inbox nd1 = inbox nd" by (simp add: nd1_def)
  moreover have "nd_mem nd1 = (\<lambda>a. if msg_data m = Some a then None else nd_mem nd a)" by (simp add: nd1_def)
  ultimately show ?thesis
    using s(2,3) s(4) [unfolded in1] grows_frame(3) [OF s(2)] unfolding grows_def
    by (intro exI [of _ nd'] exI [of _ L']) simp
qed

lemma drop_queue_ok:
  assumes "node_ok L nd" and "queue_view (nd_mq nd) q = Some (g, True, ms)" and "q \<notin> L" and "handle \<noteq> 0"
    and "\<And>m. m \<in> set ms \<Longrightarrow> local_source nd (msg_source m)"
    and "\<And>m a. m \<in> set ms \<Longrightarrow> msg_data m = Some a \<Longrightarrow> nd_mem nd a \<noteq> None"
    and "distinct (List.map_filter msg_data ms)"
  shows "\<exists>nd' L'. drop_queue w nd q handle = Some nd' \<and> node_ok L' nd' \<and> queue_view (nd_mq nd') q = None
     \<and> nd_mem nd' = (\<lambda>a. if a \<in> set (List.map_filter msg_data ms) then None else nd_mem nd a)
     \<and> (\<forall>k. inbox nd' k = map_option (\<lambda>ns. ns @
          replicate (length (filter (\<lambda>m. msg_source m = k) ms)) (error_report handle)) (inbox nd k))"
  using assms
proof (induction ms arbitrary: nd L)
  case Nil
  have bo: "boxes_ok L (nd_mq nd)" using Nil(1) by (simp add: node_ok_def)
  from mq_pop_empty_view [OF bo Nil(2)] obtain mq where mq: "skynet_mq_pop (nd_mq nd) q = Some (None, mq)"
    "boxes_ok L mq" "queue_view mq = queue_view (nd_mq nd)" by auto
  from mq_free_view [OF mq(2) _ Nil(3)] mq(3) Nil(2) obtain mq' where mq': "mq_free mq q = Some mq'" "boxes_ok L mq'"
    "queue_view mq' = (queue_view (nd_mq nd))(q := None)" by auto
  have "node_ok L (nd\<lparr>nd_mq := mq'\<rparr>)" "inbox (nd\<lparr>nd_mq := mq'\<rparr>) = inbox nd"
    by (rule node_ok_released [OF Nil(1) mq'(2) Nil(2)]; simp add: mq'(3))+
  moreover have "drop_queue w nd q handle = Some (nd\<lparr>nd_mq := mq'\<rparr>)"
    by (subst drop_queue.simps) (simp add: mq mq')
  ultimately show ?case
    using mq'(3) by (intro exI [of _ "nd\<lparr>nd_mq := mq'\<rparr>"] exI [of _ L]) (simp add: List.map_filter_def option.map_ident)
next
  case (Cons m ms)
  have bo: "boxes_ok L (nd_mq nd)" using Cons(2) by (simp add: node_ok_def)
  from boxes.pop_law [OF bo Cons(3)] obtain mq where mq: "skynet_mq_pop (nd_mq nd) q = Some (Some m, mq)"
    "boxes_ok L mq" "queue_view mq = (queue_view (nd_mq nd))(q \<mapsto> (g, True, ms))" by blast
  let ?nd1 = "nd\<lparr>nd_mq := mq\<rparr>"
  have ok1: "node_ok L ?nd1" and in1: "inbox ?nd1 = inbox nd"
    by (rule node_ok_released [OF Cons(2) mq(2) Cons(3)]; simp add: mq(3))+
  have loc: "local_source ?nd1 h = local_source nd h" for h
    by (simp add: local_source_def skynet_harbor_message_isremote_def)
  have dat: "nd_mem ?nd1 a \<noteq> None" if "msg_data m = Some a" for a using Cons(7) [of m a] that by simp
  have src: "local_source ?nd1 (msg_source m)" using Cons(6) [of m] loc by simp
  have q1: "queue_view (nd_mq ?nd1) q = Some (g, True, ms)" by (simp add: mq(3))
  from drop_message_ok [OF ok1 Cons(5) src dat, where w = w, unfolded in1] obtain nd2 L2 where d:
    "drop_message w ?nd1 m handle = Some nd2" "node_ok L2 nd2" "nd_harbor nd2 = nd_harbor ?nd1"
    "queue_view (nd_mq nd2) q = Some (g, True, ms) \<and> (q \<in> L2 \<longrightarrow> q \<in> L)"
    "nd_mem nd2 = (\<lambda>a. if msg_data m = Some a then None else nd_mem ?nd1 a)"
    "inbox nd2 = (case inbox nd (msg_source m) of None \<Rightarrow> inbox nd
       | Some ns \<Rightarrow> (inbox nd)(msg_source m \<mapsto> ns @ [error_report handle]))"
    using q1 by blast
  have d4: "queue_view (nd_mq nd2) q = Some (g, True, ms)" "q \<notin> L2" using d(4) Cons(4) by auto
  have loc2: "local_source nd2 h = local_source nd h" for h
    using d(3) by (simp add: local_source_def skynet_harbor_message_isremote_def)
  have other: "nd_mem nd2 a \<noteq> None" if "m' \<in> set ms" "msg_data m' = Some a" for m' a
  proof -
    have "a \<in> set (List.map_filter msg_data ms)" using that by (force simp: List.map_filter_def)
    then have "msg_data m \<noteq> Some a" using Cons(8) by (auto simp: map_filter_simps split: option.splits)
    with d(5) Cons(7) [of m' a] that show ?thesis by simp
  qed
  have dist: "distinct (List.map_filter msg_data ms)"
    using Cons(8) by (auto simp: List.map_filter_def split: option.splits if_splits)
  have src2: "local_source nd2 (msg_source m')" if "m' \<in> set ms" for m' using Cons(6) loc2 that by simp
  have "\<exists>nd' L'. drop_queue w nd2 q handle = Some nd' \<and> node_ok L' nd' \<and> queue_view (nd_mq nd') q = None
     \<and> nd_mem nd' = (\<lambda>a. if a \<in> set (List.map_filter msg_data ms) then None else nd_mem nd2 a)
     \<and> (\<forall>k. inbox nd' k = map_option (\<lambda>ns. ns @
          replicate (length (filter (\<lambda>m. msg_source m = k) ms)) (error_report handle)) (inbox nd2 k))"
    by (rule Cons.IH [OF d(2) d4 Cons(5) src2 _ dist]) (assumption, rule other)
  then obtain nd' L' where r:
    "drop_queue w nd2 q handle = Some nd'" "node_ok L' nd'" "queue_view (nd_mq nd') q = None"
    "nd_mem nd' = (\<lambda>a. if a \<in> set (List.map_filter msg_data ms) then None else nd_mem nd2 a)"
    "\<And>k. inbox nd' k = map_option (\<lambda>ns. ns @
        replicate (length (filter (\<lambda>m. msg_source m = k) ms)) (error_report handle)) (inbox nd2 k)" by blast
  have "drop_queue w nd q handle = Some nd'"
    by (subst drop_queue.simps) (simp add: mq(1) d(1) r(1))
  moreover have "nd_mem nd' = (\<lambda>a. if a \<in> set (List.map_filter msg_data (m # ms)) then None else nd_mem nd a)"
    unfolding r(4) d(5) by (auto simp: List.map_filter_def fun_eq_iff split: option.splits)
  moreover have "inbox nd' k = map_option (\<lambda>ns. ns @
        replicate (length (filter (\<lambda>m. msg_source m = k) (m # ms))) (error_report handle)) (inbox nd k)" for k
    unfolding r(5) d(6) by (auto split: option.splits simp: option.map_comp comp_def replicate_app_Cons_same)
  ultimately show ?case using r(2,3) by blast
qed


text \<open>
  C12. Dropping the queue of a deleted service. \<open>skynet_mq_release\<close> on a queue marked for
  release ends, frees the queue and the data of every message in it, each once, and reports one
  \<open>PTYPE_ERROR\<close> per dropped message to its source, if that is still alive; no other data
  and no other message changes.
\<close>

theorem mq_release_drops:
  assumes "node_ok L nd" and "queue_view (nd_mq nd) q = Some (g, True, ms)" and "q \<notin> L" and "handle \<noteq> 0"
    and "\<And>m. m \<in> set ms \<Longrightarrow> local_source nd (msg_source m)"
    and "\<And>m a. m \<in> set ms \<Longrightarrow> msg_data m = Some a \<Longrightarrow> nd_mem nd a \<noteq> None"
    and "distinct (List.map_filter msg_data ms)"
  shows "\<exists>nd' L'. skynet_mq_release w nd q handle = Some nd' \<and> node_ok L' nd' \<and> queue_view (nd_mq nd') q = None
     \<and> nd_mem nd' = (\<lambda>a. if a \<in> set (List.map_filter msg_data ms) then None else nd_mem nd a)
     \<and> (\<forall>k. inbox nd' k = map_option (\<lambda>ns. ns @
          replicate (length (filter (\<lambda>m. msg_source m = k) ms)) (error_report handle)) (inbox nd k))"
proof -
  from assms(2) obtain mq where "mqs (nd_mq nd) q = Some mq" "mq_release mq" by (auto simp: queue_view_Some)
  then have "skynet_mq_release w nd q handle = drop_queue w nd q handle" by (simp add: skynet_mq_release_def)
  with drop_queue_ok [OF assms(1-5) _ assms(7), of w] assms(6) show ?thesis by presburger
qed


text \<open>The queue of a deleted service that holds one message of the live one.\<close>

definition demo_dropped :: skynet_message where
  "demo_dropped = \<lparr>msg_source = 0x01000001, msg_session = 3, msg_data = Some 30, msg_sz = 5\<rparr>"

definition demo_mq :: mq_state where
  "demo_mq = \<lparr>mqs = [20 \<mapsto> skynet_mq_create 0x01000001,
     21 \<mapsto> mq_store ((skynet_mq_create 9)\<lparr>mq_release := True\<rparr>) demo_dropped], gq_head = None, gq_tail = None\<rparr>"

lemma demo_mq_ok:
  "boxes_ok {} demo_mq" "queue_view demo_mq 20 = Some (0x01000001, False, [])"
  "queue_view demo_mq 21 = Some (9, True, [demo_dropped])"
proof -
  have inv: "mq_inv ((skynet_mq_create 9)\<lparr>mq_release := True\<rparr>)" using mq_create_inv(1) by simp
  note st = mq_store_ok [OF inv, of demo_dropped]
  have "mqs_ok [] demo_mq"
    using mq_create_inv(1) st(1)
    by (auto simp: mqs_ok_def gq_inv_def demo_mq_def skynet_mq_create_def split: if_splits)
  then show "boxes_ok {} demo_mq" by (auto simp: boxes_ok_def)
  show "queue_view demo_mq 20 = Some (0x01000001, False, [])"
    using mq_create_inv(2) by (simp add: queue_view_def demo_mq_def skynet_mq_create_def)
  show "queue_view demo_mq 21 = Some (9, True, [demo_dropped])"
    using st(2) mq_create_inv(2) [of 9] by (simp add: queue_view_def demo_mq_def, simp add: skynet_mq_create_def)
qed

lemma demo_node_mq:
  assumes "boxes_ok L mq" and "queue_view mq 20 = Some (0x01000001, False, ms)"
  shows "node_ok L (demo_node\<lparr>nd_mq := mq\<rparr>)" and "inbox (demo_node\<lparr>nd_mq := mq\<rparr>) 0x01000001 = Some ms"
proof -
  have c: "nd_ctx demo_node = [10 \<mapsto> demo_context]" "ctx_queue demo_context = Some 20" "ctx_ref demo_context = 1"
    by (simp_all add: demo_node_def demo_context_def)
  then have "1 \<le> ctx_ref ctx \<and> box_live (demo_node\<lparr>nd_mq := mq\<rparr>) ctx" if "nd_ctx demo_node k = Some ctx" for k ctx
    using that assms(2) by (auto simp: box_live_def split: if_splits)
  with demo_node_ok assms(1) show "node_ok L (demo_node\<lparr>nd_mq := mq\<rparr>)"
    unfolding node_ok_def by simp
  have "ctx_lookup demo_node 0x01000001 = Some 10"
    using slot_lookup_Some_iff [OF demo_table] unfolding demo_hof by (simp add: demo_node_def)
  then show "inbox (demo_node\<lparr>nd_mq := mq\<rparr>) 0x01000001 = Some ms"
    using assms(2) c by (simp add: inbox_def)
qed

theorem mq_release_drops_witness:
  "\<forall>w. \<exists>nd'. skynet_mq_release w (demo_node\<lparr>nd_mq := demo_mq\<rparr>) 21 9 = Some nd'
     \<and> nd_mem nd' 30 = None \<and> inbox nd' 0x01000001 = Some [error_report 9]"
proof
  fix w
  let ?nd = "demo_node\<lparr>nd_mq := demo_mq\<rparr>"
  note nd = demo_node_mq [OF demo_mq_ok(1,2)]
  have q: "queue_view (nd_mq ?nd) 21 = Some (9, True, [demo_dropped])" using demo_mq_ok(3) by simp
  have src: "local_source ?nd (msg_source m)" if "m \<in> set [demo_dropped]" for m
    using that by (simp add: local_source_def demo_dropped_def skynet_harbor_message_isremote_def demo_node_def HANDLE_MASK_def)
  have dat: "nd_mem ?nd a \<noteq> None" if "m \<in> set [demo_dropped]" "msg_data m = Some a" for m a
    using that by (simp add: demo_dropped_def demo_node_def)
  have dis: "distinct (List.map_filter msg_data [demo_dropped])" by (simp add: map_filter_simps split: option.split)
  have "\<exists>nd' L'. skynet_mq_release w ?nd 21 9 = Some nd' \<and> node_ok L' nd' \<and> queue_view (nd_mq nd') 21 = None
     \<and> nd_mem nd' = (\<lambda>a. if a \<in> set (List.map_filter msg_data [demo_dropped]) then None else nd_mem ?nd a)
     \<and> (\<forall>k. inbox nd' k = map_option (\<lambda>ns. ns @
          replicate (length (filter (\<lambda>m. msg_source m = k) [demo_dropped])) (error_report 9)) (inbox ?nd k))"
    by (rule mq_release_drops [OF nd(1) q _ _ src _ dis]) (use dat in auto)
  then obtain nd' where "skynet_mq_release w ?nd 21 9 = Some nd'"
    "nd_mem nd' = (\<lambda>a. if a \<in> set (List.map_filter msg_data [demo_dropped]) then None else nd_mem ?nd a)"
    "inbox nd' 0x01000001 = map_option (\<lambda>ns. ns @
       replicate (length (filter (\<lambda>m. msg_source m = 0x01000001) [demo_dropped])) (error_report 9)) (inbox ?nd 0x01000001)"
    by blast
  with nd(2) show "\<exists>nd'. skynet_mq_release w ?nd 21 9 = Some nd' \<and> nd_mem nd' 30 = None
      \<and> inbox nd' 0x01000001 = Some [error_report 9]"
    by (simp add: demo_dropped_def map_filter_simps)
qed

end
