(* ===== verification/Skynet_Service.thy ===== *)
theory Skynet_Service
  imports Skynet_Node
begin

text \<open>
  Services: the environment (\<^verbatim>\<open>skynet_env.c\<close>), the message log
  (\<^verbatim>\<open>skynet_log.c\<close>), the worker monitors (\<^verbatim>\<open>skynet_monitor.c\<close>), the
  messages of the socket thread (\<^verbatim>\<open>skynet_socket.c\<close>) and, of
  \<^verbatim>\<open>skynet_server.c\<close>, the creation of a service and the dispatch of its messages.

  The environment is a Lua state that holds only the strings set through
  \<open>skynet_setenv\<close>; it is a map. A log file is the text written since it was opened.
\<close>

subsection \<open>The environment\<close>

definition skynet_env_init :: "node \<Rightarrow> node" where
  "skynet_env_init nd = nd\<lparr>nd_env := (\<lambda>_. None)\<rparr>"

definition skynet_getenv :: "node \<Rightarrow> string \<Rightarrow> string option" where
  "skynet_getenv nd key = nd_env nd key"

definition skynet_setenv :: "node \<Rightarrow> string \<Rightarrow> string \<Rightarrow> node option" where
  "skynet_setenv nd key value =
     (if nd_env nd key \<noteq> None then None else Some (nd\<lparr>nd_env := (nd_env nd)(key \<mapsto> value)\<rparr>))"

subsection \<open>The message log\<close>

definition fprintf :: "node \<Rightarrow> ptr \<Rightarrow> string \<Rightarrow> node option" where
  "fprintf nd f s = do {
     old \<leftarrow> nd_files nd f;
     Some (nd\<lparr>nd_files := (nd_files nd)(f \<mapsto> old @ s)\<rparr>) }"

definition newline :: string where
  "newline = [char_of (10 :: nat)]"

definition log_file_name :: "string \<Rightarrow> u32 \<Rightarrow> string" where
  "log_file_name logpath handle = logpath @ ''/'' @ fmt_08x handle @ ''.log''"

definition skynet_log_open :: "world \<Rightarrow> node \<Rightarrow> ptr option \<Rightarrow> u32 \<Rightarrow> (ptr option \<times> node) option" where
  "skynet_log_open w nd ctx handle =
     (case skynet_getenv nd ''logpath'' of
        None \<Rightarrow> Some (None, nd)
      | Some logpath \<Rightarrow>
          (let tmp = log_file_name logpath handle
           in if length tmp \<ge> length logpath + 16 then None
              else if w_fopen w tmp nd then do {
                let f = nd_brk nd;
                let nd = nd\<lparr>nd_files := (nd_files nd)(f \<mapsto> []), nd_brk := f + 1\<rparr>;
                let starttime = skynet_starttime (nd_timer nd);
                let currenttime = skynet_now (nd_timer nd);
                nd \<leftarrow> skynet_error w nd ctx (Some (''Open log file '' @ tmp));
                nd \<leftarrow> fprintf nd f (''open time: '' @ fmt_u (ucast currenttime) @ '' ''
                        @ w_ctime w (ucast starttime + currenttime div 100));
                Some (Some f, nd) }
              else do {
                nd \<leftarrow> skynet_error w nd ctx (Some (''Open log file '' @ tmp @ '' fail''));
                Some (None, nd) }))"

definition skynet_log_close :: "world \<Rightarrow> node \<Rightarrow> ptr option \<Rightarrow> ptr \<Rightarrow> u32 \<Rightarrow> node option" where
  "skynet_log_close w nd ctx f handle = do {
     nd \<leftarrow> skynet_error w nd ctx (Some (''Close log file :'' @ fmt_08x handle));
     nd \<leftarrow> fprintf nd f (''close time: '' @ fmt_u (ucast (skynet_now (nd_timer nd))) @ newline);
     fclose nd f }"

definition fmt_02x :: "char \<Rightarrow> string" where
  "fmt_02x c = [lower_digit (of_char c div 16), lower_digit (of_char c mod 16)]"

definition log_blob :: "world \<Rightarrow> node \<Rightarrow> ptr \<Rightarrow> ptr option \<Rightarrow> nat \<Rightarrow> node option" where
  "log_blob w nd f buffer sz =
     (if sz = 0 then Some nd
      else do {
        p \<leftarrow> buffer;
        d \<leftarrow> nd_mem nd p;
        let bs = (case d of Bytes bs \<Rightarrow> bs | _ \<Rightarrow> w_raw w d);
        if sz \<le> length bs then fprintf nd f (concat (map fmt_02x (take sz bs))) else None })"

definition SOCKET_MESSAGE_SIZE :: nat where
  "SOCKET_MESSAGE_SIZE = 24"

text \<open>
  \<open>%*s\<close> prints the text up to its NUL, padded on the left: without a NUL it reads beyond
  the block, \<open>None\<close>.
\<close>

definition fmt_star_s :: "int \<Rightarrow> string \<Rightarrow> string option" where
  "fmt_star_s width mem =
     (if NUL \<notin> set mem then None
      else (let s = takeWhile (\<lambda>c. c \<noteq> NUL) mem
            in Some (replicate (nat width - length s) CHR '' '' @ s)))"

definition log_socket :: "world \<Rightarrow> node \<Rightarrow> ptr \<Rightarrow> ptr option \<Rightarrow> nat \<Rightarrow> node option" where
  "log_socket w nd f buffer sz = do {
     p \<leftarrow> buffer;
     case nd_mem nd p of
       Some (Sock m) \<Rightarrow> do {
         nd \<leftarrow> fprintf nd f (''[socket] '' @ fmt_d (sint (ssm_type m)) @ '' '' @ fmt_d (sint (ssm_id m))
                            @ '' '' @ fmt_d (sint (ssm_ud m)) @ '' '');
         nd \<leftarrow> (case ssm_buffer m of
             None \<Rightarrow> do {
               let sz = sz - SOCKET_MESSAGE_SIZE;
               let sz = (if NUL \<in> set (take sz (ssm_tail m))
                         then length (takeWhile (\<lambda>c. c \<noteq> NUL) (ssm_tail m)) else sz);
               s \<leftarrow> fmt_star_s (int sz) (ssm_tail m);
               fprintf nd f (''['' @ s @ '']'') }
           | Some b \<Rightarrow> log_blob w nd f (Some b) (unat (ssm_ud m)));
         fprintf nd f newline }
     | _ \<Rightarrow> None }"

definition skynet_log_output ::
  "world \<Rightarrow> node \<Rightarrow> ptr \<Rightarrow> u32 \<Rightarrow> cint \<Rightarrow> cint \<Rightarrow> ptr option \<Rightarrow> nat \<Rightarrow> node option" where
  "skynet_log_output w nd f source type session buffer sz =
     (if type = PTYPE_SOCKET then log_socket w nd f buffer sz
      else do {
        let ti = (ucast (skynet_now (nd_timer nd)) :: u32);
        nd \<leftarrow> fprintf nd f ('':'' @ fmt_08x source @ '' '' @ fmt_d (sint type) @ '' '' @ fmt_d (sint session)
                            @ '' '' @ fmt_u ti @ '' '');
        nd \<leftarrow> log_blob w nd f buffer sz;
        fprintf nd f newline })"

subsection \<open>Monitors\<close>

record skynet_monitor =
  mon_version :: cint
  mon_check_version :: cint
  mon_source :: u32
  mon_destination :: u32

definition skynet_monitor_new :: skynet_monitor where
  "skynet_monitor_new = \<lparr>mon_version = 0, mon_check_version = 0, mon_source = 0, mon_destination = 0\<rparr>"

definition skynet_monitor_trigger :: "skynet_monitor \<Rightarrow> u32 \<Rightarrow> u32 \<Rightarrow> skynet_monitor" where
  "skynet_monitor_trigger sm source destination =
     sm\<lparr>mon_source := source, mon_destination := destination, mon_version := mon_version sm + 1\<rparr>"

definition skynet_monitor_check :: "world \<Rightarrow> node \<Rightarrow> skynet_monitor \<Rightarrow> (skynet_monitor \<times> node) option" where
  "skynet_monitor_check w nd sm =
     (if mon_version sm = mon_check_version sm then
        (if mon_destination sm \<noteq> 0 then do {
           nd \<leftarrow> skynet_context_endless w nd (mon_destination sm);
           nd \<leftarrow> skynet_error w nd None (Some (''A message from [ :'' @ fmt_08x (mon_source sm) @ '' ] to [ :''
                   @ fmt_08x (mon_destination sm) @ '' ] maybe in an endless loop (version = ''
                   @ fmt_d (sint (mon_version sm)) @ '')''));
           Some (sm, nd) }
         else Some (sm, nd))
      else Some (sm\<lparr>mon_check_version := mon_version sm\<rparr>, nd))"

subsection \<open>Messages of the socket thread\<close>

record socket_message =
  so_id :: cint
  so_opaque :: u64
  so_ud :: cint
  so_text :: "string option"
  so_data :: "ptr option"

text \<open>
  The field \<open>data\<close> of a \<open>socket_message\<close> is a C string for the events with padding
  (\<open>so_text\<close>) and a block of the heap for the others (\<open>so_data\<close>).
\<close>

definition forward_message :: "world \<Rightarrow> node \<Rightarrow> cint \<Rightarrow> bool \<Rightarrow> socket_message \<Rightarrow> node option" where
  "forward_message w nd type padding result = do {
     let msg_sz = (if padding then (case so_text result of Some s \<Rightarrow> min (length s) 128 | None \<Rightarrow> 0) else 0);
     let sz = SOCKET_MESSAGE_SIZE + msg_sz;
     let sm = \<lparr>ssm_type = type, ssm_id = so_id result, ssm_ud = so_ud result,
               ssm_buffer = (if padding then None else so_data result),
               ssm_tail = (if padding then take msg_sz (case so_text result of Some s \<Rightarrow> s | None \<Rightarrow> []) else [])\<rparr>;
     let (p, nd) = skynet_malloc nd (Sock sm);
     (r, nd) \<leftarrow> skynet_context_push w nd (ucast (so_opaque result))
       \<lparr>msg_source = 0, msg_session = 0, msg_data = Some p,
        msg_sz = word_of_nat sz OR push_bit MESSAGE_TYPE_SHIFT (scast PTYPE_SOCKET)\<rparr>;
     if r \<noteq> 0 then do {
       nd \<leftarrow> skynet_free nd (ssm_buffer sm);
       skynet_free nd (Some p) }
     else Some nd }"

subsection \<open>Creating a service\<close>

definition skynet_module_instance_create :: "world \<Rightarrow> node \<Rightarrow> nat \<Rightarrow> (ptr option \<times> node) option" where
  "skynet_module_instance_create w nd m = do {
     md \<leftarrow> module_of nd m;
     case mod_create md of Some f \<Rightarrow> w_create w f nd | None \<Rightarrow> Some (Some (2 ^ 64 - 1), nd) }"

definition skynet_module_instance_init ::
  "world \<Rightarrow> node \<Rightarrow> nat \<Rightarrow> ptr \<Rightarrow> ptr \<Rightarrow> string option \<Rightarrow> (int \<times> node) option" where
  "skynet_module_instance_init w nd m inst ctx parm = do {
     md \<leftarrow> module_of nd m;
     f \<leftarrow> mod_init md;
     w_init w f inst ctx parm nd }"

definition skynet_module_instance_signal :: "world \<Rightarrow> node \<Rightarrow> nat \<Rightarrow> ptr \<Rightarrow> cint \<Rightarrow> node option" where
  "skynet_module_instance_signal w nd m inst sig = do {
     md \<leftarrow> module_of nd m;
     case mod_signal md of Some f \<Rightarrow> w_signal w f inst sig nd | None \<Rightarrow> Some nd }"

text \<open>The context as \<open>skynet_context_new\<close> fills it before registration.\<close>

definition new_context :: "node \<Rightarrow> nat \<Rightarrow> ptr \<Rightarrow> skynet_context" where
  "new_context nd m inst =
     \<lparr>ctx_instance = inst, ctx_mod = m, ctx_cb_ud = None, ctx_cb = None, ctx_queue = None,
      ctx_logfile = None, ctx_cpu_cost = 0, ctx_cpu_start = 0, ctx_result = [], ctx_handle = 0,
      ctx_session_id = 0, ctx_ref = 2, ctx_message_count = 0, ctx_init = False, ctx_endless = False,
      ctx_profile = nd_profile nd\<rparr>"

text \<open>Registration of the new context: its address, its handle and its queue.\<close>

definition register_context :: "node \<Rightarrow> nat \<Rightarrow> ptr \<Rightarrow> ((ptr \<times> u32 \<times> ptr) \<times> node) option" where
  "register_context nd m inst = do {
     let c = nd_brk nd;
     let nd = nd\<lparr>nd_ctx := (nd_ctx nd)(c \<mapsto> new_context nd m inst), nd_brk := c + 1\<rparr>;
     (handle, hs) \<leftarrow> skynet_handle_register (skynet_context_handle nd) (nd_handle nd) c;
     let q = nd_brk nd;
     let nd = nd\<lparr>nd_handle := hs, nd_brk := q + 1,
                 nd_mq := (nd_mq nd)\<lparr>mqs := (mqs (nd_mq nd))(q \<mapsto> skynet_mq_create handle)\<rparr>\<rparr>;
     nd \<leftarrow> ctx_update nd c (\<lambda>ctx. ctx\<lparr>ctx_handle := handle, ctx_queue := Some q\<rparr>);
     Some ((c, handle, q), context_inc nd) }"

definition skynet_context_new :: "world \<Rightarrow> node \<Rightarrow> string \<Rightarrow> string option \<Rightarrow> (ptr option \<times> node) option" where
  "skynet_context_new w nd name param = do {
     (m, ms) \<leftarrow> skynet_module_query (w_dlopen w) (w_dlsym w) (nd_modules nd) name;
     let nd = nd\<lparr>nd_modules := ms\<rparr>;
     case m of
       None \<Rightarrow> Some (None, nd)
     | Some m \<Rightarrow> do {
         (inst, nd) \<leftarrow> skynet_module_instance_create w nd m;
         case inst of
           None \<Rightarrow> Some (None, nd)
         | Some inst \<Rightarrow> do {
             ((c, handle, q), nd) \<leftarrow> register_context nd m inst;
             (r, nd) \<leftarrow> skynet_module_instance_init w nd m inst c param;
             if r = 0 then do {
               (ret, nd) \<leftarrow> skynet_context_release w nd c;
               nd \<leftarrow> (if ret \<noteq> None then ctx_update nd c (\<lambda>ctx. ctx\<lparr>ctx_init := True\<rparr>) else Some nd);
               mq \<leftarrow> skynet_globalmq_push (nd_mq nd) q;
               let nd = nd\<lparr>nd_mq := mq\<rparr>;
               nd \<leftarrow> (if ret \<noteq> None
                      then skynet_error w nd ret (Some (''LAUNCH '' @ name @ '' '' @ (case param of Some p \<Rightarrow> p | None \<Rightarrow> [])))
                      else Some nd);
               Some (ret, nd) }
             else do {
               nd \<leftarrow> skynet_error w nd (Some c) (Some (''FAILED launch '' @ name));
               handle \<leftarrow> skynet_context_handle nd c;
               (_, nd) \<leftarrow> skynet_context_release w nd c;
               (_, nd) \<leftarrow> skynet_handle_retire w nd handle;
               nd \<leftarrow> skynet_mq_release w nd q handle;
               Some (None, nd) } } } }"


subsection \<open>Dispatching\<close>

definition skynet_initthread :: "node \<Rightarrow> cint \<Rightarrow> node" where
  "skynet_initthread nd m = nd\<lparr>nd_handle_key := - m\<rparr>"

definition THREAD_WORKER :: cint where "THREAD_WORKER = 0"
definition THREAD_MAIN :: cint where "THREAD_MAIN = 1"
definition THREAD_SOCKET :: cint where "THREAD_SOCKET = 2"
definition THREAD_TIMER :: cint where "THREAD_TIMER = 3"
definition THREAD_MONITOR :: cint where "THREAD_MONITOR = 4"

definition skynet_current_handle :: "node \<Rightarrow> u32" where
  "skynet_current_handle nd = (if nd_init nd then nd_handle_key nd else - THREAD_MAIN)"

definition skynet_globalinit :: "node \<Rightarrow> node" where
  "skynet_globalinit nd = skynet_initthread (nd\<lparr>nd_total := 0, nd_monitor_exit := 0, nd_init := True\<rparr>) THREAD_MAIN"

definition skynet_profile_enable :: "node \<Rightarrow> cint \<Rightarrow> node" where
  "skynet_profile_enable nd enable = nd\<lparr>nd_profile := (enable \<noteq> 0)\<rparr>"

definition skynet_callback :: "node \<Rightarrow> ptr \<Rightarrow> ptr option \<Rightarrow> nat option \<Rightarrow> node option" where
  "skynet_callback nd c ud cb = ctx_update nd c (\<lambda>ctx. ctx\<lparr>ctx_cb := cb, ctx_cb_ud := ud\<rparr>)"

text \<open>The call of \<open>ctx->cb\<close>, with the profile around it.\<close>

definition call_cb :: "world \<Rightarrow> node \<Rightarrow> ptr \<Rightarrow> skynet_message \<Rightarrow> cint \<Rightarrow> size_t \<Rightarrow> (int \<times> node) option" where
  "call_cb w nd c msg type sz = do {
     ctx \<leftarrow> nd_ctx nd c;
     cb \<leftarrow> ctx_cb ctx;
     w_cb w cb c (ctx_cb_ud ctx) type (msg_session msg) (msg_source msg) (msg_data msg) sz nd }"

definition dispatch_message :: "world \<Rightarrow> node \<Rightarrow> ptr \<Rightarrow> skynet_message \<Rightarrow> node option" where
  "dispatch_message w nd c msg = do {
     ctx \<leftarrow> nd_ctx nd c;
     if \<not> ctx_init ctx then None
     else do {
       let nd = nd\<lparr>nd_handle_key := ctx_handle ctx\<rparr>;
       let type = (ucast (drop_bit MESSAGE_TYPE_SHIFT (msg_sz msg)) :: cint);
       let sz = msg_sz msg AND MESSAGE_TYPE_MASK;
       nd \<leftarrow> (case ctx_logfile ctx of
           Some f \<Rightarrow> skynet_log_output w nd f (msg_source msg) type (msg_session msg) (msg_data msg) (unat sz)
         | None \<Rightarrow> Some nd);
       nd \<leftarrow> ctx_update nd c (\<lambda>ctx. ctx\<lparr>ctx_message_count := ctx_message_count ctx + 1\<rparr>);
       (reserve_msg, nd) \<leftarrow> (if ctx_profile ctx then do {
           let t0 = w_thread_time w nd;
           nd \<leftarrow> ctx_update nd c (\<lambda>ctx. ctx\<lparr>ctx_cpu_start := t0\<rparr>);
           (r, nd) \<leftarrow> call_cb w nd c msg type sz;
           let t1 = w_thread_time w nd;
           nd \<leftarrow> ctx_update nd c (\<lambda>ctx. ctx\<lparr>ctx_cpu_cost := ctx_cpu_cost ctx + (t1 - ctx_cpu_start ctx)\<rparr>);
           Some (r, nd) }
         else call_cb w nd c msg type sz);
       if reserve_msg = 0 then skynet_free nd (msg_data msg) else Some nd } }"

partial_function (option) dispatchall_loop :: "world \<Rightarrow> node \<Rightarrow> ptr \<Rightarrow> ptr \<Rightarrow> node option" where
  "dispatchall_loop w nd c q =
     Option.bind (skynet_mq_pop (nd_mq nd) q) (\<lambda>(r, mq).
       (case r of
          None \<Rightarrow> Some (nd\<lparr>nd_mq := mq\<rparr>)
        | Some msg \<Rightarrow> Option.bind (dispatch_message w (nd\<lparr>nd_mq := mq\<rparr>) c msg)
                        (\<lambda>nd. dispatchall_loop w nd c q)))"

definition skynet_context_dispatchall :: "world \<Rightarrow> node \<Rightarrow> ptr \<Rightarrow> node option" where
  "skynet_context_dispatchall w nd c = do {
     ctx \<leftarrow> nd_ctx nd c;
     q \<leftarrow> ctx_queue ctx;
     dispatchall_loop w nd c q }"

text \<open>One iteration of the loop of \<open>skynet_context_message_dispatch\<close> after the pop.\<close>

definition dispatch_one ::
  "world \<Rightarrow> skynet_monitor \<Rightarrow> node \<Rightarrow> ptr \<Rightarrow> ptr \<Rightarrow> u32 \<Rightarrow> skynet_message \<Rightarrow> (skynet_monitor \<times> node) option" where
  "dispatch_one w sm nd q c handle msg = do {
     (overload, mq) \<leftarrow> skynet_mq_overload (nd_mq nd) q;
     let nd = nd\<lparr>nd_mq := mq\<rparr>;
     nd \<leftarrow> (if overload \<noteq> 0
            then skynet_error w nd (Some c) (Some (''May overload, message queue length = '' @ fmt_d overload))
            else Some nd);
     let sm = skynet_monitor_trigger sm (msg_source msg) handle;
     ctx \<leftarrow> nd_ctx nd c;
     nd \<leftarrow> (if ctx_cb ctx = None then skynet_free nd (msg_data msg) else dispatch_message w nd c msg);
     Some (skynet_monitor_trigger sm 0 0, nd) }"

text \<open>The loop; the first of the result says that the queue was found empty.\<close>

partial_function (option) dispatch_loop ::
  "world \<Rightarrow> skynet_monitor \<Rightarrow> node \<Rightarrow> ptr \<Rightarrow> ptr \<Rightarrow> u32 \<Rightarrow> int \<Rightarrow> int \<Rightarrow> int
     \<Rightarrow> (bool \<times> skynet_monitor \<times> node) option" where
  "dispatch_loop w sm nd q c handle weight i n =
     (if i < n then
        Option.bind (skynet_mq_pop (nd_mq nd) q) (\<lambda>(r, mq).
          (case r of
             None \<Rightarrow> Some (True, sm, nd\<lparr>nd_mq := mq\<rparr>)
           | Some msg \<Rightarrow>
               Option.bind (if i = 0 \<and> weight \<ge> 0
                            then map_option (drop_bit (nat weight)) (skynet_mq_length mq q) else Some n) (\<lambda>n.
               Option.bind (dispatch_one w sm (nd\<lparr>nd_mq := mq\<rparr>) q c handle msg) (\<lambda>(sm, nd).
                 dispatch_loop w sm nd q c handle weight (i + 1) n))))
      else Some (False, sm, nd))"

definition skynet_context_message_dispatch ::
  "world \<Rightarrow> skynet_monitor \<Rightarrow> node \<Rightarrow> ptr option \<Rightarrow> int \<Rightarrow> (ptr option \<times> skynet_monitor \<times> node) option" where
  "skynet_context_message_dispatch w sm nd q weight = do {
     (q, mq) \<leftarrow> (if q = None then skynet_globalmq_pop (nd_mq nd) else Some (q, nd_mq nd));
     let nd = nd\<lparr>nd_mq := mq\<rparr>;
     case q of
       None \<Rightarrow> Some (None, sm, nd)
     | Some q \<Rightarrow> do {
         handle \<leftarrow> skynet_mq_handle (nd_mq nd) q;
         (r, nd) \<leftarrow> skynet_handle_grab nd handle;
         case r of
           None \<Rightarrow> do {
             nd \<leftarrow> skynet_mq_release w nd q handle;
             (nq, mq) \<leftarrow> skynet_globalmq_pop (nd_mq nd);
             Some (nq, sm, nd\<lparr>nd_mq := mq\<rparr>) }
         | Some c \<Rightarrow> do {
             (empty, sm, nd) \<leftarrow> dispatch_loop w sm nd q c handle weight 0 1;
             if empty then do {
               (_, nd) \<leftarrow> skynet_context_release w nd c;
               (nq, mq) \<leftarrow> skynet_globalmq_pop (nd_mq nd);
               Some (nq, sm, nd\<lparr>nd_mq := mq\<rparr>) }
             else do {
               ctx \<leftarrow> nd_ctx nd c;
               if ctx_queue ctx \<noteq> Some q then None
               else do {
                 (nq, mq) \<leftarrow> skynet_globalmq_pop (nd_mq nd);
                 mq \<leftarrow> (if nq \<noteq> None then skynet_globalmq_push mq q else Some mq);
                 (_, nd) \<leftarrow> skynet_context_release w (nd\<lparr>nd_mq := mq\<rparr>) c;
                 Some (if nq \<noteq> None then nq else Some q, sm, nd) } } } } }"

end
