(* ===== verification/Skynet_Command.thy ===== *)
theory Skynet_Command
  imports Skynet_Service Skynet_Send
begin

text \<open>
  The text commands of a service, \<open>skynet_command\<close> and the \<open>cmd_\<close> functions of
  \<^verbatim>\<open>skynet_server.c\<close>. A command takes the calling context and a parameter, NULL as
  \<open>None\<close>, and returns a C string or NULL; reading through a NULL parameter, writing more
  than 31 characters to \<open>context->result\<close> and reading an uninitialised buffer are the
  failure \<open>None\<close> of the operation.
\<close>

type_synonym command = "world \<Rightarrow> node \<Rightarrow> ptr \<Rightarrow> string option \<Rightarrow> (string option \<times> node) option"

definition RESULT_SIZE :: nat where
  "RESULT_SIZE = 32"

definition put_result :: "node \<Rightarrow> ptr \<Rightarrow> string \<Rightarrow> (string option \<times> node) option" where
  "put_result nd c s =
     (if length s < RESULT_SIZE then do {
        nd \<leftarrow> ctx_update nd c (\<lambda>ctx. ctx\<lparr>ctx_result := s\<rparr>);
        Some (Some s, nd) }
      else None)"

definition id_to_hex :: "u32 \<Rightarrow> string" where
  "id_to_hex w = CHR '':'' # map (\<lambda>i. upper_digit (unat (drop_bit ((7 - i) * 4) w AND 0xf))) [0..<8]"

subsection \<open>Names and addresses\<close>

definition skynet_queryname :: "world \<Rightarrow> node \<Rightarrow> ptr option \<Rightarrow> string \<Rightarrow> (u32 \<times> node) option" where
  "skynet_queryname w nd context name =
     (if char0 name = CHR '':'' then Some (ucast (strtoul (tl name) 16), nd)
      else if char0 name = CHR ''.'' then Some (skynet_handle_findname (nd_handle nd) (tl name), nd)
      else do {
        nd \<leftarrow> skynet_error w nd context (Some (''Don't support query global name '' @ name));
        Some (0, nd) })"

definition handle_exit :: "world \<Rightarrow> node \<Rightarrow> ptr \<Rightarrow> u32 \<Rightarrow> node option" where
  "handle_exit w nd context handle = do {
     (handle, nd) \<leftarrow> (if handle = 0 then do {
         h \<leftarrow> skynet_context_handle nd context;
         nd \<leftarrow> skynet_error w nd (Some context) (Some ''KILL self'');
         Some (h, nd) }
       else do {
         nd \<leftarrow> skynet_error w nd (Some context) (Some (''KILL :'' @ fmt_x handle));
         Some (handle, nd) });
     nd \<leftarrow> (if nd_monitor_exit nd \<noteq> 0
            then map_option snd (skynet_send w nd (Some context) handle (nd_monitor_exit nd) PTYPE_CLIENT 0 None 0)
            else Some nd);
     map_option snd (skynet_handle_retire w nd handle) }"

definition tohandle :: "world \<Rightarrow> node \<Rightarrow> ptr \<Rightarrow> string option \<Rightarrow> (u32 \<times> node) option" where
  "tohandle w nd context param = do {
     s \<leftarrow> param;
     if char0 s = CHR '':'' then Some (ucast (strtoul (tl s) 16), nd)
     else if char0 s = CHR ''.'' then Some (skynet_handle_findname (nd_handle nd) (tl s), nd)
     else do {
       nd \<leftarrow> skynet_error w nd (Some context) (Some (''Can't convert '' @ s @ '' to handle''));
       Some (0, nd) } }"

text \<open>\<open>skynet_timeout\<close> on the timer of the node.\<close>

definition node_timeout :: "world \<Rightarrow> node \<Rightarrow> u32 \<Rightarrow> cint \<Rightarrow> cint \<Rightarrow> (cint \<times> node) option" where
  "node_timeout w nd handle ti session = do {
     (r, T, nd) \<leftarrow> skynet_timeout (\<lambda>h m nd. skynet_context_push w nd h m) (nd_timer nd) nd handle ti session;
     Some (r, nd\<lparr>nd_timer := T\<rparr>) }"

definition node_namehandle :: "node \<Rightarrow> u32 \<Rightarrow> string \<Rightarrow> (string option \<times> node) option" where
  "node_namehandle nd handle name = do {
     (r, hs) \<leftarrow> skynet_handle_namehandle (nd_handle nd) handle name;
     Some (r, nd\<lparr>nd_handle := hs\<rparr>) }"

subsection \<open>The commands\<close>

definition cmd_timeout :: command where
  "cmd_timeout w nd context param = do {
     s \<leftarrow> param;
     let ti = (word_of_int (strtol s 10) :: cint);
     (session, nd) \<leftarrow> skynet_context_newsession nd context;
     handle \<leftarrow> skynet_context_handle nd context;
     (_, nd) \<leftarrow> node_timeout w nd handle ti session;
     put_result nd context (fmt_d (sint session)) }"

definition cmd_reg :: command where
  "cmd_reg w nd context param = do {
     handle \<leftarrow> skynet_context_handle nd context;
     case param of
       None \<Rightarrow> put_result nd context ('':'' @ fmt_x handle)
     | Some s \<Rightarrow>
         (if char0 s = NUL then put_result nd context ('':'' @ fmt_x handle)
          else if char0 s = CHR ''.'' then node_namehandle nd handle (tl s)
          else do {
            nd \<leftarrow> skynet_error w nd (Some context) (Some (''Can't register global name '' @ s @ '' in C''));
            Some (None, nd) }) }"

definition cmd_query :: command where
  "cmd_query w nd context param = do {
     s \<leftarrow> param;
     if char0 s = CHR ''.'' then
       (let handle = skynet_handle_findname (nd_handle nd) (tl s)
        in if handle \<noteq> 0 then put_result nd context ('':'' @ fmt_x handle) else Some (None, nd))
     else Some (None, nd) }"

definition cmd_name :: command where
  "cmd_name w nd context param = do {
     s \<leftarrow> param;
     (name, rest) \<leftarrow> scan_word s;
     (handle, _) \<leftarrow> scan_word rest;
     if char0 handle \<noteq> CHR '':'' then Some (None, nd)
     else (let handle_id = (ucast (strtoul (tl handle) 16) :: u32)
           in if handle_id = 0 then Some (None, nd)
              else if char0 name = CHR ''.'' then node_namehandle nd handle_id (tl name)
              else do {
                nd \<leftarrow> skynet_error w nd (Some context) (Some (''Can't set global name '' @ name @ '' in C''));
                Some (None, nd) }) }"

definition cmd_exit :: command where
  "cmd_exit w nd context param = do {
     nd \<leftarrow> handle_exit w nd context 0;
     Some (None, nd) }"

definition cmd_kill :: command where
  "cmd_kill w nd context param = do {
     (handle, nd) \<leftarrow> tohandle w nd context param;
     nd \<leftarrow> (if handle \<noteq> 0 then handle_exit w nd context handle else Some nd);
     Some (None, nd) }"

text \<open>The delimiters \<open>" \t\r\n"\<close> and \<open>"\r\n"\<close>.\<close>

definition line_delims :: string where
  "line_delims = map char_of [13 :: nat, 10]"

definition word_delims :: string where
  "word_delims = map char_of [32 :: nat, 9] @ line_delims"

definition cmd_launch :: command where
  "cmd_launch w nd context param = do {
     s \<leftarrow> param;
     let (md, args) = strsep word_delims s;
     let args = map_option (\<lambda>a. fst (strsep line_delims a)) args;
     (inst, nd) \<leftarrow> skynet_context_new w nd md args;
     case inst of
       None \<Rightarrow> Some (None, nd)
     | Some i \<Rightarrow> do {
         handle \<leftarrow> skynet_context_handle nd i;
         put_result nd context (id_to_hex handle) } }"

definition cmd_getenv :: command where
  "cmd_getenv w nd context param = do {
     s \<leftarrow> param;
     Some (skynet_getenv nd s, nd) }"

definition cmd_setenv :: command where
  "cmd_setenv w nd context param = do {
     s \<leftarrow> param;
     let key = takeWhile (\<lambda>c. c \<noteq> CHR '' '') s;
     if length key = length s then Some (None, nd)
     else do {
       nd \<leftarrow> skynet_setenv nd key (drop (length key + 1) s);
       Some (None, nd) } }"

definition cmd_starttime :: command where
  "cmd_starttime w nd context param = put_result nd context (fmt_u (skynet_starttime (nd_timer nd)))"

definition cmd_abort :: command where
  "cmd_abort w nd context param = do {
     nd \<leftarrow> skynet_handle_retireall w nd;
     Some (None, nd) }"

definition cmd_monitor :: command where
  "cmd_monitor w nd context param =
     (if param = None \<or> param = Some [] then
        (if nd_monitor_exit nd \<noteq> 0 then put_result nd context ('':'' @ fmt_x (nd_monitor_exit nd))
         else Some (None, nd))
      else do {
        (handle, nd) \<leftarrow> tohandle w nd context param;
        Some (None, nd\<lparr>nd_monitor_exit := handle\<rparr>) })"

definition cmd_stat :: command where
  "cmd_stat w nd context param = do {
     s \<leftarrow> param;
     ctx \<leftarrow> nd_ctx nd context;
     if strcmp s ''mqlen'' = 0 then do {
       q \<leftarrow> ctx_queue ctx;
       len \<leftarrow> skynet_mq_length (nd_mq nd) q;
       put_result nd context (fmt_d len) }
     else if strcmp s ''endless'' = 0 then
       (if ctx_endless ctx then do {
          nd \<leftarrow> ctx_update nd context (\<lambda>ctx. ctx\<lparr>ctx_endless := False\<rparr>);
          put_result nd context ''1'' }
        else put_result nd context ''0'')
     else if strcmp s ''cpu'' = 0 then put_result nd context (w_lf w (ctx_cpu_cost ctx))
     else if strcmp s ''time'' = 0 then
       (if ctx_profile ctx then put_result nd context (w_lf w (w_thread_time w nd - ctx_cpu_start ctx))
        else put_result nd context ''0'')
     else if strcmp s ''message'' = 0 then put_result nd context (fmt_d (sint (ctx_message_count ctx)))
     else put_result nd context [] }"

definition cmd_logon :: command where
  "cmd_logon w nd context param = do {
     (handle, nd) \<leftarrow> tohandle w nd context param;
     if handle = 0 then Some (None, nd)
     else do {
       (r, nd) \<leftarrow> skynet_handle_grab nd handle;
       case r of
         None \<Rightarrow> Some (None, nd)
       | Some c \<Rightarrow> do {
           ctx \<leftarrow> nd_ctx nd c;
           nd \<leftarrow> (if ctx_logfile ctx = None then do {
               (f, nd) \<leftarrow> skynet_log_open w nd (Some context) handle;
               case f of
                 None \<Rightarrow> Some nd
               | Some f \<Rightarrow> do {
                   ctx \<leftarrow> nd_ctx nd c;
                   if ctx_logfile ctx = None then ctx_update nd c (\<lambda>ctx. ctx\<lparr>ctx_logfile := Some f\<rparr>)
                   else fclose nd f } }
             else Some nd);
           (_, nd) \<leftarrow> skynet_context_release w nd c;
           Some (None, nd) } } }"

definition cmd_logoff :: command where
  "cmd_logoff w nd context param = do {
     (handle, nd) \<leftarrow> tohandle w nd context param;
     if handle = 0 then Some (None, nd)
     else do {
       (r, nd) \<leftarrow> skynet_handle_grab nd handle;
       case r of
         None \<Rightarrow> Some (None, nd)
       | Some c \<Rightarrow> do {
           ctx \<leftarrow> nd_ctx nd c;
           nd \<leftarrow> (case ctx_logfile ctx of
               None \<Rightarrow> Some nd
             | Some f \<Rightarrow> do {
                 nd \<leftarrow> ctx_update nd c (\<lambda>ctx. ctx\<lparr>ctx_logfile := None\<rparr>);
                 skynet_log_close w nd (Some context) f handle });
           (_, nd) \<leftarrow> skynet_context_release w nd c;
           Some (None, nd) } } }"

definition cmd_signal :: command where
  "cmd_signal w nd context param = do {
     (handle, nd) \<leftarrow> tohandle w nd context param;
     if handle = 0 then Some (None, nd)
     else do {
       (r, nd) \<leftarrow> skynet_handle_grab nd handle;
       case r of
         None \<Rightarrow> Some (None, nd)
       | Some c \<Rightarrow> do {
           s \<leftarrow> param;
           let sig = (case strchr s CHR '' '' of None \<Rightarrow> 0 | Some a \<Rightarrow> (word_of_int (strtol a 0) :: cint));
           ctx \<leftarrow> nd_ctx nd c;
           nd \<leftarrow> skynet_module_instance_signal w nd (ctx_mod ctx) (ctx_instance ctx) sig;
           (_, nd) \<leftarrow> skynet_context_release w nd c;
           Some (None, nd) } } }"

definition cmd_funcs :: "(string \<times> command) list" where
  "cmd_funcs =
     [(''TIMEOUT'', cmd_timeout), (''REG'', cmd_reg), (''QUERY'', cmd_query), (''NAME'', cmd_name),
      (''EXIT'', cmd_exit), (''KILL'', cmd_kill), (''LAUNCH'', cmd_launch), (''GETENV'', cmd_getenv),
      (''SETENV'', cmd_setenv), (''STARTTIME'', cmd_starttime), (''ABORT'', cmd_abort),
      (''MONITOR'', cmd_monitor), (''STAT'', cmd_stat), (''LOGON'', cmd_logon), (''LOGOFF'', cmd_logoff),
      (''SIGNAL'', cmd_signal)]"

fun find_command :: "string \<Rightarrow> (string \<times> command) list \<Rightarrow> command option" where
  "find_command cmd [] = None"
| "find_command cmd ((name, func) # rest) = (if strcmp cmd name = 0 then Some func else find_command cmd rest)"

definition skynet_command :: "world \<Rightarrow> node \<Rightarrow> ptr \<Rightarrow> string \<Rightarrow> string option \<Rightarrow> (string option \<times> node) option" where
  "skynet_command w nd context cmd param =
     (case find_command cmd cmd_funcs of
        Some func \<Rightarrow> func w nd context param
      | None \<Rightarrow> Some (None, nd))"


subsection \<open>Printed numbers fit their buffers\<close>

lemma print_base_length:
  assumes "2 \<le> b" and "n < b ^ k" and "0 < k"
  shows "length (print_base b n) \<le> k"
  using assms
proof (induction b n arbitrary: k rule: print_base.induct)
  case (1 b n)
  show ?case
  proof (cases "n < b")
    case True
    then show ?thesis using "1.prems" by (subst print_base.simps) simp
  next
    case False
    have "k \<noteq> 1" using False "1.prems"(2) by auto
    then obtain j where j: "k = Suc j" "0 < j" using "1.prems"(3) by (cases k) auto
    have "n div b < b ^ j" using "1.prems" j by (simp add: less_mult_imp_div_less mult.commute)
    with "1.IH" [of j] False "1.prems" j show ?thesis by (subst print_base.simps) simp
  qed
qed

lemma fmt_x_length: "length (fmt_x w) \<le> 8"
  using print_base_length [of 16 "unat w" 8] unat_u32_less [of w] by (simp add: fmt_x_def)

lemma fmt_u_length: "length (fmt_u w) \<le> 10"
  using print_base_length [of 10 "unat w" 10] unat_u32_less [of w] by (simp add: fmt_u_def)

lemma fmt_d_length: "length (fmt_d (sint (w :: cint))) \<le> 11"
proof -
  have "- (2 ^ 31) \<le> sint w" "sint w < 2 ^ 31" using sint_ge [of w] sint_less [of w] by simp_all
  then have "nat (sint w) < 10 ^ 10" "nat (- sint w) < 10 ^ 10" by simp_all
  then have "length (print_base 10 (nat (sint w))) \<le> 10" "length (print_base 10 (nat (- sint w))) \<le> 10"
    by (auto intro!: print_base_length)
  then show ?thesis by (simp add: fmt_d_def)
qed

lemma id_to_hex_digits: "c \<in> set (tl (id_to_hex h)) \<Longrightarrow> digit_val c < 16"
proof -
  assume "c \<in> set (tl (id_to_hex h))"
  then obtain x :: u32 where c: "c = upper_digit (unat (x AND 0xf))" by (auto simp: id_to_hex_def)
  have "unat (x AND 0xf) = unat x mod 2 ^ 4" using and_exp_minus_1 [of x 4] by simp
  then show ?thesis unfolding c by (simp add: digit_upper)
qed

lemma id_to_hex_value: "parse_digits 16 (tl (id_to_hex h)) = unat h"
proof -
  have nib: "unat (drop_bit ((7 - i) * 4) h AND 0xf) = unat h div 16 ^ (8 - 1 - i) mod 16" for i
  proof -
    have "unat (drop_bit ((7 - i) * 4) h AND 0xf) = unat (drop_bit ((7 - i) * 4) h) mod 2 ^ 4"
      using and_exp_minus_1 [of "drop_bit ((7 - i) * 4) h" 4] by simp
    also have "\<dots> = unat h div 2 ^ ((7 - i) * 4) mod 16" unfolding unat_drop_bit by simp
    also have "(2 :: nat) ^ ((7 - i) * 4) = 16 ^ (7 - i)" by (simp add: power_mult mult.commute [of _ 4])
    finally show ?thesis by simp
  qed
  have dig: "digit_val (upper_digit (unat (drop_bit ((7 - i) * 4) h AND 0xf))) = unat h div 16 ^ (8 - 1 - i) mod 16" for i
    unfolding nib by (rule digit_upper) simp
  have "parse_digits 16 (tl (id_to_hex h)) = foldl (\<lambda>a c. a * 16 + digit_val c) 0 (tl (id_to_hex h))"
    by (rule parse_digits_all) (rule id_to_hex_digits)
  also have "\<dots> = foldl (\<lambda>a c. a * 16 + c) 0 (map digit_val (tl (id_to_hex h)))"
    by (simp add: foldl_map)
  also have "map digit_val (tl (id_to_hex h)) = map (\<lambda>i. unat h div 16 ^ (8 - 1 - i) mod 16) [0..<8]"
    unfolding id_to_hex_def using dig by (simp only: list.sel map_map comp_def)
  also have "foldl (\<lambda>a c. a * 16 + c) 0 (map (\<lambda>i. unat h div 16 ^ (8 - 1 - i) mod 16) [0..<8]) = unat h mod 16 ^ 8"
    by (rule nibbles_value)
  finally show ?thesis using unat_u32_less [of h] by simp
qed

text \<open>
  The addresses a service prints are addresses it can use: the name returned by
  \<open>LAUNCH\<close> (\<open>id_to_hex\<close>) and the one returned by \<open>REG\<close> and \<open>QUERY\<close>
  (\<open>%x\<close>) are both resolved to the handle they were printed from, for every handle, and fit
  into \<open>context->result\<close>.
\<close>

theorem printed_address_resolves:
  "skynet_queryname w nd cx (id_to_hex h) = Some (h, nd) \<and> tohandle w nd c (Some (id_to_hex h)) = Some (h, nd)
   \<and> skynet_queryname w nd cx ('':'' @ fmt_x h) = Some (h, nd) \<and> tohandle w nd c (Some ('':'' @ fmt_x h)) = Some (h, nd)
   \<and> length (id_to_hex h) < RESULT_SIZE \<and> length ('':'' @ fmt_x h) < RESULT_SIZE"
proof -
  have "ucast (strtoul (tl (id_to_hex h)) 16) = h"
    using strtoul_hex [of "tl (id_to_hex h)"] id_to_hex_digits id_to_hex_value [of h] unat_u32_less [of h] by simp
  then show ?thesis
    using strtoul_fmt_x [of h] fmt_x_length [of h]
    by (simp add: skynet_queryname_def tohandle_def id_to_hex_def char0_def RESULT_SIZE_def)
qed


subsection \<open>Sessions and timeouts\<close>

text \<open>
  C30. A session number is always positive: also when the counter of the context is at the
  largest \<open>int\<close>, where it starts again at 1. The counter is the number returned, and
  no other context changes.
\<close>

theorem newsession_positive:
  assumes "nd_ctx nd c = Some ctx"
  shows "\<exists>s. skynet_context_newsession nd c = Some (s, nd\<lparr>nd_ctx := (nd_ctx nd)(c \<mapsto> ctx\<lparr>ctx_session_id := s\<rparr>)\<rparr>)
     \<and> 0 < sint s \<and> (0 \<le> sint (ctx_session_id ctx) \<and> sint (ctx_session_id ctx) < 2 ^ 31 - 1 \<longrightarrow>
          sint s = sint (ctx_session_id ctx) + 1)"
proof -
  let ?s = "ctx_session_id ctx + 1" and ?t = "if sint (ctx_session_id ctx + 1) \<le> 0 then 1 else ctx_session_id ctx + 1"
  have "skynet_context_newsession nd c = Some (?t, nd\<lparr>nd_ctx := (nd_ctx nd)(c \<mapsto> ctx\<lparr>ctx_session_id := ?t\<rparr>)\<rparr>)"
    using assms by (simp add: skynet_context_newsession_def ctx_update_def Let_def)
  moreover have "0 < sint ?t" by simp
  moreover have "sint ?s = sint (ctx_session_id ctx) + 1"
    if "0 \<le> sint (ctx_session_id ctx)" "sint (ctx_session_id ctx) < 2 ^ 31 - 1"
    using that by (simp add: sint_word_add signed_take_bit_int_eq_self)
  ultimately show ?thesis by (intro exI [of _ ?t]) auto
qed

theorem newsession_positive_witness:
  "\<exists>s nd'. skynet_context_newsession demo_node 10 = Some (s, nd') \<and> 0 < sint s"
  using newsession_positive [of demo_node 10 demo_context] by (auto simp: demo_node_def)

end
