(* ===== verification/Skynet_Socket_Base.thy ===== *)
theory Skynet_Socket_Base
  imports Skynet_Service Skynet_Send
begin

text \<open>
  The data of \<^verbatim>\<open>skynet-src/socket_server.c\<close>, the system calls it makes and the
  functions on one socket that the request handlers and the poll loop share: write buffers,
  locks, the reservation of an id, \<open>force_close\<close> and \<open>new_fd\<close>; with
  \<^verbatim>\<open>socket_poll.h\<close> and \<^verbatim>\<open>socket_epoll.h\<close>.

  A state of the socket server (\<open>sstate\<close>) is the node (its heap and its logger), the
  structure \<open>socket_server\<close>, the kernel and the \<open>socket_message\<close> that the functions
  fill through the pointer \<open>result\<close>. The kernel is a value of an arbitrary type; a system
  call is a function of the record \<open>sys\<close> on it. The table of 65536 sockets is a function,
  a \<open>struct socket *\<close> is an index of it. A \<open>wb_list\<close> is the list of its buffers, whose
  \<open>tail\<close> pointer is the last one. The control pipe is the FIFO list of the packages written
  to it. The fields \<open>p.size\<close> (TCP) and \<open>p.udp_address\<close> (UDP) of the union are two fields.

  The lock of a socket is taken by another thread when \<open>s_dw_lock\<close> holds at the beginning of
  an operation: then \<open>socket_trylock\<close> fails; an operation that would have to wait for it
  has no result here.
\<close>

subsection \<open>Constants\<close>

definition SOCKET_DATA :: int where "SOCKET_DATA = 0"
definition SOCKET_CLOSE :: int where "SOCKET_CLOSE = 1"
definition SOCKET_OPEN :: int where "SOCKET_OPEN = 2"
definition SOCKET_ACCEPT :: int where "SOCKET_ACCEPT = 3"
definition SOCKET_ERR :: int where "SOCKET_ERR = 4"
definition SOCKET_EXIT :: int where "SOCKET_EXIT = 5"
definition SOCKET_UDP :: int where "SOCKET_UDP = 6"
definition SOCKET_WARNING :: int where "SOCKET_WARNING = 7"
definition SOCKET_RST :: int where "SOCKET_RST = 8"
definition SOCKET_MORE :: int where "SOCKET_MORE = 9"

lemmas socket_codes =
  SOCKET_DATA_def SOCKET_CLOSE_def SOCKET_OPEN_def SOCKET_ACCEPT_def SOCKET_ERR_def
  SOCKET_EXIT_def SOCKET_UDP_def SOCKET_WARNING_def SOCKET_RST_def SOCKET_MORE_def

definition MAX_INFO :: nat where "MAX_INFO = 128"
definition MAX_SOCKET :: nat where "MAX_SOCKET = 65536"
definition MAX_EVENT :: nat where "MAX_EVENT = 64"
definition MIN_READ_BUFFER :: int where "MIN_READ_BUFFER = 64"
definition UDP_ADDRESS_SIZE :: nat where "UDP_ADDRESS_SIZE = 19"
definition MAX_UDP_PACKAGE :: nat where "MAX_UDP_PACKAGE = 65535"
definition WARNING_SIZE :: int where "WARNING_SIZE = 1024 * 1024"
definition USEROBJECT :: size_t where "USEROBJECT = - 1"

datatype socket_type =
    SOCKET_TYPE_INVALID | SOCKET_TYPE_RESERVE | SOCKET_TYPE_PLISTEN | SOCKET_TYPE_LISTEN
  | SOCKET_TYPE_CONNECTING | SOCKET_TYPE_CONNECTED | SOCKET_TYPE_HALFCLOSE_READ
  | SOCKET_TYPE_HALFCLOSE_WRITE | SOCKET_TYPE_PACCEPT | SOCKET_TYPE_BIND

datatype priority = PRIORITY_HIGH | PRIORITY_LOW

definition PROTOCOL_TCP :: nat where "PROTOCOL_TCP = 0"
definition PROTOCOL_UDP :: nat where "PROTOCOL_UDP = 1"
definition PROTOCOL_UDPv6 :: nat where "PROTOCOL_UDPv6 = 2"
definition PROTOCOL_UNKNOWN :: nat where "PROTOCOL_UNKNOWN = 255"

lemmas protocol_codes = PROTOCOL_TCP_def PROTOCOL_UDP_def PROTOCOL_UDPv6_def PROTOCOL_UNKNOWN_def

definition HASH_ID :: "cint \<Rightarrow> nat" where
  "HASH_ID i = unat i mod MAX_SOCKET"

definition ID_TAG16 :: "cint \<Rightarrow> u64" where
  "ID_TAG16 i = ucast (signed_drop_bit 16 i AND 0xffff)"

subsection \<open>Structures\<close>

text \<open>A \<open>char *\<close> into a block of the heap is the block and an offset.\<close>

record write_buffer =
  wb_buffer :: ptr
  wb_ptr :: "ptr \<times> nat"
  wb_sz :: nat
  wb_userobject :: bool
  wb_udp_address :: string

record socket_stat =
  stat_rtime :: u64
  stat_wtime :: u64
  stat_rbytes :: u64
  stat_wbytes :: u64

record socket =
  s_opaque :: u64
  s_high :: "write_buffer list"
  s_low :: "write_buffer list"
  s_wb_size :: int
  s_stat :: socket_stat
  s_sending :: u64
  s_fd :: int
  s_id :: cint
  s_type :: socket_type
  s_protocol :: nat
  s_reading :: bool
  s_writing :: bool
  s_closing :: bool
  s_udpconnecting :: int
  s_warn_size :: int
  s_size :: int
  s_udp_address :: string
  s_dw_lock :: bool
  s_dw_offset :: nat
  s_dw_buffer :: "ptr option"
  s_dw_size :: size_t

record event =
  ev_s :: "nat option"
  ev_read :: bool
  ev_write :: bool
  ev_error :: bool
  ev_eof :: bool

text \<open>The packages of the control pipe, with the fields of the \<open>request_\<close> structures.\<close>

datatype request =
    Req_R (rq_id: cint) (rq_opaque: u64)
  | Req_S (rq_id: cint) (rq_opaque: u64)
  | Req_B (rq_id: cint) int (rq_opaque: u64)
  | Req_L (rq_id: cint) int (rq_opaque: u64)
  | Req_K (rq_id: cint) bool (rq_opaque: u64)
  | Req_O (rq_id: cint) int (rq_opaque: u64) string
  | Req_X
  | Req_W (rq_id: cint)
  | Req_D (rq_id: cint) ptr size_t
  | Req_P (rq_id: cint) ptr size_t
  | Req_A (rq_id: cint) ptr size_t string
  | Req_C (rq_id: cint) string
  | Req_T (rq_id: cint) int int
  | Req_U (rq_id: cint) int nat (rq_opaque: u64)

record socket_server =
  ss_time :: u64
  ss_checkctrl :: bool
  ss_alloc_id :: cint
  ss_event_n :: nat
  ss_event_index :: nat
  ss_ev :: "event list"
  ss_slot :: "nat \<Rightarrow> socket"
  ss_pipe :: "request list"
  ss_soi :: bool

text \<open>\<open>ss_soi\<close> says that \<open>socket_server_userobject\<close> has set the functions of \<open>soi\<close>.\<close>

record sockaddr =
  sa_family :: nat
  sa_port :: string
  sa_addr :: string

definition AF_INET :: nat where "AF_INET = 2"
definition AF_INET6 :: nat where "AF_INET6 = 10"

datatype errno = EINTR | EAGAIN | EINPROGRESS | EMFILE | ENFILE | Errno nat

text \<open>
  The system calls and the functions of the C library, on the kernel \<open>'k\<close>. A call returns
  \<open>Inl\<close> the value of \<open>errno\<close> or \<open>Inr\<close> its result; \<open>sys_errno\<close> is
  the current \<open>errno\<close>. The three functions of \<open>soi\<close> belong to the owner of user objects.
\<close>

record 'k sys =
  sys_write :: "int \<Rightarrow> string \<Rightarrow> 'k \<Rightarrow> (errno + nat) \<times> 'k"
  sys_read :: "int \<Rightarrow> nat \<Rightarrow> 'k \<Rightarrow> (errno + string) \<times> 'k"
  sys_sendto :: "int \<Rightarrow> string \<Rightarrow> sockaddr \<Rightarrow> 'k \<Rightarrow> (errno + nat) \<times> 'k"
  sys_recvfrom :: "int \<Rightarrow> nat \<Rightarrow> 'k \<Rightarrow> (errno + string \<times> sockaddr) \<times> 'k"
  sys_close :: "int \<Rightarrow> 'k \<Rightarrow> 'k"
  sys_shutdown_wr :: "int \<Rightarrow> 'k \<Rightarrow> 'k"
  sys_shutdown_rd :: "int \<Rightarrow> 'k \<Rightarrow> 'k"
  sys_accept :: "int \<Rightarrow> 'k \<Rightarrow> (errno + int \<times> sockaddr) \<times> 'k"
  sys_getsockopt_error :: "int \<Rightarrow> 'k \<Rightarrow> (errno + errno option) \<times> 'k"
  sys_setsockopt :: "int \<Rightarrow> int \<Rightarrow> int \<Rightarrow> 'k \<Rightarrow> bool \<times> 'k"
  sys_keepalive :: "int \<Rightarrow> 'k \<Rightarrow> 'k"
  sys_nonblocking :: "int \<Rightarrow> 'k \<Rightarrow> 'k"
  sys_getpeername :: "int \<Rightarrow> 'k \<Rightarrow> sockaddr option"
  sys_getsockname :: "int \<Rightarrow> 'k \<Rightarrow> sockaddr option"
  sys_inet_ntop :: "sockaddr \<Rightarrow> string option"
  sys_getaddrinfo :: "string \<Rightarrow> string \<Rightarrow> bool \<Rightarrow> 'k \<Rightarrow> (string + sockaddr list) \<times> 'k"
  sys_socket :: "nat \<Rightarrow> bool \<Rightarrow> 'k \<Rightarrow> (errno + int) \<times> 'k"
  sys_connect :: "int \<Rightarrow> sockaddr \<Rightarrow> 'k \<Rightarrow> errno option \<times> 'k"
  sys_bind :: "int \<Rightarrow> sockaddr \<Rightarrow> 'k \<Rightarrow> bool \<times> 'k"
  sys_reuseaddr :: "int \<Rightarrow> 'k \<Rightarrow> bool \<times> 'k"
  sys_listen :: "int \<Rightarrow> int \<Rightarrow> 'k \<Rightarrow> bool \<times> 'k"
  sys_epoll_add :: "int \<Rightarrow> nat option \<Rightarrow> 'k \<Rightarrow> bool \<times> 'k"
  sys_epoll_del :: "int \<Rightarrow> 'k \<Rightarrow> 'k"
  sys_epoll_mod :: "int \<Rightarrow> nat \<Rightarrow> u32 \<Rightarrow> 'k \<Rightarrow> bool \<times> 'k"
  sys_epoll_wait :: "nat \<Rightarrow> 'k \<Rightarrow> (errno + (nat option \<times> u32) list) \<times> 'k"
  sys_strerror :: "errno \<Rightarrow> string"
  sys_errno :: "'k \<Rightarrow> errno"
  soi_buffer :: "ptr \<Rightarrow> node \<Rightarrow> ptr"
  soi_size :: "ptr \<Rightarrow> node \<Rightarrow> size_t"
  soi_free :: "ptr \<Rightarrow> node \<Rightarrow> node option"

record 'k sstate =
  st_nd :: node
  st_ss :: socket_server
  st_k :: 'k
  st_res :: socket_message

abbreviation slot :: "'k sstate \<Rightarrow> nat \<Rightarrow> socket" where
  "slot st i \<equiv> ss_slot (st_ss st) i"

definition upd_slot :: "'k sstate \<Rightarrow> nat \<Rightarrow> (socket \<Rightarrow> socket) \<Rightarrow> 'k sstate" where
  "upd_slot st i f =
     st\<lparr>st_ss := (st_ss st)\<lparr>ss_slot := (ss_slot (st_ss st))(i := f (ss_slot (st_ss st) i))\<rparr>\<rparr>"

definition set_result :: "'k sstate \<Rightarrow> cint \<Rightarrow> u64 \<Rightarrow> cint \<Rightarrow> string option \<Rightarrow> ptr option \<Rightarrow> 'k sstate" where
  "set_result st i opaque ud txt data =
     st\<lparr>st_res := \<lparr>so_id = i, so_opaque = opaque, so_ud = ud, so_text = txt, so_data = data\<rparr>\<rparr>"

definition socket_error :: "world \<Rightarrow> 'k sstate \<Rightarrow> string \<Rightarrow> 'k sstate option" where
  "socket_error w st txt = do {
     nd \<leftarrow> skynet_error w (st_nd st) None (Some txt);
     Some (st\<lparr>st_nd := nd\<rparr>) }"

text \<open>\<open>sz\<close> bytes from a pointer, when they are inside its block.\<close>

definition mem_load :: "node \<Rightarrow> ptr \<times> nat \<Rightarrow> nat \<Rightarrow> string option" where
  "mem_load nd p sz =
     (case nd_mem nd (fst p) of
        Some (Bytes bs) \<Rightarrow> (if snd p + sz \<le> length bs then Some (take sz (drop (snd p) bs)) else None)
      | _ \<Rightarrow> None)"

subsection \<open>Polling\<close>

definition EPOLLIN :: u32 where "EPOLLIN = 1"
definition EPOLLOUT :: u32 where "EPOLLOUT = 4"
definition EPOLLERR :: u32 where "EPOLLERR = 8"
definition EPOLLHUP :: u32 where "EPOLLHUP = 16"

text \<open>\<open>True\<close> is the error 1 of \<open>sp_add\<close> and \<open>sp_enable\<close>.\<close>

definition sp_add :: "'k sys \<Rightarrow> 'k sstate \<Rightarrow> int \<Rightarrow> nat \<Rightarrow> bool \<times> 'k sstate" where
  "sp_add sys st fd i = (let (err, k) = sys_epoll_add sys fd (Some i) (st_k st) in (err, st\<lparr>st_k := k\<rparr>))"

definition sp_del :: "'k sys \<Rightarrow> 'k sstate \<Rightarrow> int \<Rightarrow> 'k sstate" where
  "sp_del sys st fd = st\<lparr>st_k := sys_epoll_del sys fd (st_k st)\<rparr>"

definition sp_enable :: "'k sys \<Rightarrow> 'k sstate \<Rightarrow> int \<Rightarrow> nat \<Rightarrow> bool \<Rightarrow> bool \<Rightarrow> bool \<times> 'k sstate" where
  "sp_enable sys st fd i read_enable write_enable =
     (let (err, k) = sys_epoll_mod sys fd i
            ((if read_enable then EPOLLIN else 0) OR (if write_enable then EPOLLOUT else 0)) (st_k st)
      in (err, st\<lparr>st_k := k\<rparr>))"

definition sp_event :: "nat option \<times> u32 \<Rightarrow> event" where
  "sp_event e =
     \<lparr>ev_s = fst e, ev_read = (snd e AND EPOLLIN \<noteq> 0), ev_write = (snd e AND EPOLLOUT \<noteq> 0),
      ev_error = (snd e AND EPOLLERR \<noteq> 0), ev_eof = (snd e AND EPOLLHUP \<noteq> 0)\<rparr>"

definition sp_wait :: "'k sys \<Rightarrow> nat \<Rightarrow> 'k \<Rightarrow> (errno + event list) \<times> 'k" where
  "sp_wait sys mx k =
     (let (r, k) = sys_epoll_wait sys mx k
      in (case r of Inl e \<Rightarrow> Inl e | Inr evs \<Rightarrow> Inr (map sp_event evs), k))"

subsection \<open>Locks\<close>

text \<open>The count of a \<open>socket_lock\<close> is passed as a number.\<close>

definition socket_lock :: "'k sstate \<Rightarrow> nat \<Rightarrow> nat \<Rightarrow> ('k sstate \<times> nat) option" where
  "socket_lock st i cnt =
     (if cnt = 0 then
        (if s_dw_lock (slot st i) then None
         else Some (upd_slot st i (\<lambda>s. s\<lparr>s_dw_lock := True\<rparr>), 1))
      else Some (st, cnt + 1))"

definition socket_trylock :: "'k sstate \<Rightarrow> nat \<Rightarrow> nat \<Rightarrow> bool \<times> 'k sstate \<times> nat" where
  "socket_trylock st i cnt =
     (if cnt = 0 then
        (if s_dw_lock (slot st i) then (False, st, 0)
         else (True, upd_slot st i (\<lambda>s. s\<lparr>s_dw_lock := True\<rparr>), 1))
      else (True, st, cnt + 1))"

definition socket_unlock :: "'k sstate \<Rightarrow> nat \<Rightarrow> nat \<Rightarrow> ('k sstate \<times> nat) option" where
  "socket_unlock st i cnt =
     (if cnt = 0 then None
      else if cnt = 1 then Some (upd_slot st i (\<lambda>s. s\<lparr>s_dw_lock := False\<rparr>), 0)
      else Some (st, cnt - 1))"

definition socket_invalid :: "socket \<Rightarrow> cint \<Rightarrow> bool" where
  "socket_invalid s i \<longleftrightarrow> s_id s \<noteq> i \<or> s_type s = SOCKET_TYPE_INVALID"

subsection \<open>Buffers\<close>

datatype free_func = FREE | SOI_FREE | DUMMY_FREE

record send_object =
  sob_buffer :: ptr
  sob_sz :: nat
  sob_free :: free_func

text \<open>A user object needs the functions of \<open>soi\<close>; they are NULL until they are set.\<close>

definition send_object_init :: "'k sys \<Rightarrow> 'k sstate \<Rightarrow> ptr \<Rightarrow> size_t \<Rightarrow> (bool \<times> send_object) option" where
  "send_object_init sys st object sz =
     (if sz = USEROBJECT then
        (if ss_soi (st_ss st)
         then Some (True, \<lparr>sob_buffer = soi_buffer sys object (st_nd st),
                           sob_sz = unat (soi_size sys object (st_nd st)), sob_free = SOI_FREE\<rparr>)
         else None)
      else Some (False, \<lparr>sob_buffer = object, sob_sz = unat sz, sob_free = FREE\<rparr>))"

definition run_free :: "'k sys \<Rightarrow> 'k sstate \<Rightarrow> free_func \<Rightarrow> ptr \<Rightarrow> 'k sstate option" where
  "run_free sys st f p =
     map_option (\<lambda>nd. st\<lparr>st_nd := nd\<rparr>)
       (case f of
          FREE \<Rightarrow> skynet_free (st_nd st) (Some p)
        | SOI_FREE \<Rightarrow> (if ss_soi (st_ss st) then soi_free sys p (st_nd st) else None)
        | DUMMY_FREE \<Rightarrow> Some (st_nd st))"

datatype buffer_type = SOCKET_BUFFER_MEMORY | SOCKET_BUFFER_OBJECT | SOCKET_BUFFER_RAWPOINTER

record socket_sendbuffer =
  sb_id :: cint
  sb_type :: buffer_type
  sb_buffer :: ptr
  sb_sz :: size_t

definition send_object_init_from_sendbuffer ::
  "'k sys \<Rightarrow> 'k sstate \<Rightarrow> socket_sendbuffer \<Rightarrow> send_object option" where
  "send_object_init_from_sendbuffer sys st buf =
     (case sb_type buf of
        SOCKET_BUFFER_MEMORY \<Rightarrow> map_option snd (send_object_init sys st (sb_buffer buf) (sb_sz buf))
      | SOCKET_BUFFER_OBJECT \<Rightarrow> map_option snd (send_object_init sys st (sb_buffer buf) USEROBJECT)
      | SOCKET_BUFFER_RAWPOINTER \<Rightarrow>
          Some \<lparr>sob_buffer = sb_buffer buf, sob_sz = unat (sb_sz buf), sob_free = DUMMY_FREE\<rparr>)"

definition write_buffer_free :: "'k sys \<Rightarrow> 'k sstate \<Rightarrow> write_buffer \<Rightarrow> 'k sstate option" where
  "write_buffer_free sys st wb = run_free sys st (if wb_userobject wb then SOI_FREE else FREE) (wb_buffer wb)"

fun free_wb_list :: "'k sys \<Rightarrow> 'k sstate \<Rightarrow> write_buffer list \<Rightarrow> 'k sstate option" where
  "free_wb_list sys st [] = Some st"
| "free_wb_list sys st (wb # wbs) = do {
     st \<leftarrow> write_buffer_free sys st wb;
     free_wb_list sys st wbs }"

definition free_buffer :: "'k sys \<Rightarrow> 'k sstate \<Rightarrow> socket_sendbuffer \<Rightarrow> 'k sstate option" where
  "free_buffer sys st buf =
     run_free sys st
       (case sb_type buf of SOCKET_BUFFER_MEMORY \<Rightarrow> FREE | SOCKET_BUFFER_OBJECT \<Rightarrow> SOI_FREE
        | SOCKET_BUFFER_RAWPOINTER \<Rightarrow> DUMMY_FREE) (sb_buffer buf)"

definition clone_buffer :: "'k sstate \<Rightarrow> socket_sendbuffer \<Rightarrow> (ptr \<times> size_t \<times> 'k sstate) option" where
  "clone_buffer st buf =
     (case sb_type buf of
        SOCKET_BUFFER_MEMORY \<Rightarrow> Some (sb_buffer buf, sb_sz buf, st)
      | SOCKET_BUFFER_OBJECT \<Rightarrow> Some (sb_buffer buf, USEROBJECT, st)
      | SOCKET_BUFFER_RAWPOINTER \<Rightarrow> do {
          bs \<leftarrow> mem_load (st_nd st) (sb_buffer buf, 0) (unat (sb_sz buf));
          let (p, nd) = skynet_malloc (st_nd st) (Bytes bs);
          Some (p, sb_sz buf, st\<lparr>st_nd := nd\<rparr>) })"

subsection \<open>Ids\<close>

text \<open>
  \<open>ATOM_FINC\<close> returns the old value. The compare and swap cannot fail inside one operation.
\<close>

fun reserve_loop :: "nat \<Rightarrow> 'k sstate \<Rightarrow> cint \<times> 'k sstate" where
  "reserve_loop 0 st = (- 1, st)"
| "reserve_loop (Suc n) st =
     (let i = ss_alloc_id (st_ss st) + 1;
          st = st\<lparr>st_ss := (st_ss st)\<lparr>ss_alloc_id := i\<rparr>\<rparr>;
          (i, st) = (if sint i < 0
                     then (i AND 0x7fffffff, st\<lparr>st_ss := (st_ss st)\<lparr>ss_alloc_id := i AND 0x7fffffff\<rparr>\<rparr>)
                     else (i, st))
      in if s_type (slot st (HASH_ID i)) = SOCKET_TYPE_INVALID
         then (i, upd_slot st (HASH_ID i) (\<lambda>s. s\<lparr>s_type := SOCKET_TYPE_RESERVE, s_id := i,
                    s_protocol := PROTOCOL_UNKNOWN, s_udpconnecting := 0, s_fd := - 1\<rparr>))
         else reserve_loop n st)"

definition reserve_id :: "'k sstate \<Rightarrow> cint \<times> 'k sstate" where
  "reserve_id st = reserve_loop MAX_SOCKET st"

subsection \<open>Closing and opening a slot\<close>

definition force_close :: "'k sys \<Rightarrow> 'k sstate \<Rightarrow> nat \<Rightarrow> nat \<Rightarrow> 'k sstate option" where
  "force_close sys st i l = do {
     let s = slot st i;
     let st = set_result st (s_id s) (s_opaque s) 0 None None;
     if s_type s = SOCKET_TYPE_INVALID then Some st
     else if s_type s = SOCKET_TYPE_RESERVE then None
     else do {
       st \<leftarrow> free_wb_list sys st (s_high s);
       st \<leftarrow> free_wb_list sys st (s_low s);
       let st = upd_slot st i (\<lambda>s. s\<lparr>s_high := [], s_low := []\<rparr>);
       let st = sp_del sys st (s_fd s);
       (st, l) \<leftarrow> socket_lock st i l;
       let st = (if s_type s \<noteq> SOCKET_TYPE_BIND then st\<lparr>st_k := sys_close sys (s_fd s) (st_k st)\<rparr> else st);
       let st = upd_slot st i (\<lambda>s. s\<lparr>s_type := SOCKET_TYPE_INVALID\<rparr>);
       st \<leftarrow> (case s_dw_buffer s of
           None \<Rightarrow> Some st
         | Some p \<Rightarrow> do {
             st \<leftarrow> free_buffer sys st
               \<lparr>sb_id = s_id s,
                sb_type = (if s_dw_size s = USEROBJECT then SOCKET_BUFFER_OBJECT else SOCKET_BUFFER_MEMORY),
                sb_buffer = p, sb_sz = s_dw_size s\<rparr>;
             Some (upd_slot st i (\<lambda>s. s\<lparr>s_dw_buffer := None\<rparr>)) });
       (st, _) \<leftarrow> socket_unlock st i l;
       Some st } }"

definition enable_write :: "'k sys \<Rightarrow> 'k sstate \<Rightarrow> nat \<Rightarrow> bool \<Rightarrow> bool \<times> 'k sstate" where
  "enable_write sys st i enable =
     (if s_writing (slot st i) \<noteq> enable
      then sp_enable sys (upd_slot st i (\<lambda>s. s\<lparr>s_writing := enable\<rparr>)) (s_fd (slot st i)) i
             (s_reading (slot st i)) enable
      else (False, st))"

definition enable_read :: "'k sys \<Rightarrow> 'k sstate \<Rightarrow> nat \<Rightarrow> bool \<Rightarrow> bool \<times> 'k sstate" where
  "enable_read sys st i enable =
     (if s_reading (slot st i) \<noteq> enable
      then sp_enable sys (upd_slot st i (\<lambda>s. s\<lparr>s_reading := enable\<rparr>)) (s_fd (slot st i)) i
             enable (s_writing (slot st i))
      else (False, st))"

text \<open>The fields that \<open>new_fd\<close> sets.\<close>

definition init_socket :: "cint \<Rightarrow> int \<Rightarrow> nat \<Rightarrow> u64 \<Rightarrow> socket \<Rightarrow> socket" where
  "init_socket i fd protocol opaque s =
     s\<lparr>s_id := i, s_fd := fd, s_reading := True, s_writing := False, s_closing := False,
       s_sending := push_bit 16 (ID_TAG16 i), s_protocol := protocol, s_size := MIN_READ_BUFFER,
       s_opaque := opaque, s_wb_size := 0, s_warn_size := 0, s_dw_buffer := None, s_dw_size := 0,
       s_stat := \<lparr>stat_rtime = 0, stat_wtime = 0, stat_rbytes = 0, stat_wbytes = 0\<rparr>\<rparr>"

text \<open>The first of the result says that a socket was returned; \<open>None\<close> is a failed assertion.\<close>

definition new_fd :: "'k sys \<Rightarrow> 'k sstate \<Rightarrow> cint \<Rightarrow> int \<Rightarrow> nat \<Rightarrow> u64 \<Rightarrow> bool \<Rightarrow> (bool \<times> 'k sstate) option" where
  "new_fd sys st i fd protocol opaque reading =
     (let h = HASH_ID i; invalid = (\<lambda>s :: socket. s\<lparr>s_type := SOCKET_TYPE_INVALID\<rparr>)
      in if s_type (slot st h) \<noteq> SOCKET_TYPE_RESERVE then None
         else (let (err, st) = sp_add sys st fd h
               in if err then Some (False, upd_slot st h invalid)
                  else if s_high (slot st h) \<noteq> [] \<or> s_low (slot st h) \<noteq> [] then None
                  else (let st = upd_slot st h (init_socket i fd protocol opaque);
                            (err, st) = enable_read sys st h reading
                        in if err then Some (False, upd_slot st h invalid) else Some (True, st))))"

definition stat_read :: "'k sstate \<Rightarrow> nat \<Rightarrow> nat \<Rightarrow> 'k sstate" where
  "stat_read st i n =
     upd_slot st i (\<lambda>s. s\<lparr>s_stat := (s_stat s)\<lparr>stat_rbytes := stat_rbytes (s_stat s) + word_of_nat n,
                                          stat_rtime := ss_time (st_ss st)\<rparr>\<rparr>)"

definition stat_write :: "'k sstate \<Rightarrow> nat \<Rightarrow> nat \<Rightarrow> 'k sstate" where
  "stat_write st i n =
     upd_slot st i (\<lambda>s. s\<lparr>s_stat := (s_stat s)\<lparr>stat_wbytes := stat_wbytes (s_stat s) + word_of_nat n,
                                          stat_wtime := ss_time (st_ss st)\<rparr>\<rparr>)"

definition report_error :: "'k sstate \<Rightarrow> nat \<Rightarrow> string \<Rightarrow> int \<times> 'k sstate" where
  "report_error st i err = (SOCKET_ERR, set_result st (s_id (slot st i)) (s_opaque (slot st i)) 0 (Some err) None)"

definition send_buffer_empty :: "socket \<Rightarrow> bool" where
  "send_buffer_empty s \<longleftrightarrow> s_high s = [] \<and> s_low s = []"

definition nomore_sending_data :: "socket \<Rightarrow> bool" where
  "nomore_sending_data s \<longleftrightarrow>
     (send_buffer_empty s \<and> s_dw_buffer s = None \<and> s_sending s AND 0xffff = 0)
     \<or> s_type s = SOCKET_TYPE_HALFCLOSE_WRITE"

definition halfclose_read :: "socket \<Rightarrow> bool" where
  "halfclose_read s \<longleftrightarrow> s_type s = SOCKET_TYPE_HALFCLOSE_READ"

definition close_read :: "'k sys \<Rightarrow> 'k sstate \<Rightarrow> nat \<Rightarrow> 'k sstate" where
  "close_read sys st i =
     (let st = upd_slot st i (\<lambda>s. s\<lparr>s_type := SOCKET_TYPE_HALFCLOSE_READ\<rparr>);
          (_, st) = enable_read sys st i False;
          st = st\<lparr>st_k := sys_shutdown_rd sys (s_fd (slot st i)) (st_k st)\<rparr>
      in set_result st (s_id (slot st i)) (s_opaque (slot st i)) 0 None None)"

subsection \<open>The reservation of ids\<close>

lemma slot_upd [simp]: "slot (upd_slot st i f) j = (if j = i then f (slot st i) else slot st j)"
  by (simp add: upd_slot_def)

lemma upd_slot_frame [simp]:
  "st_nd (upd_slot st i f) = st_nd st" "st_k (upd_slot st i f) = st_k st" "st_res (upd_slot st i f) = st_res st"
  "ss_pipe (st_ss (upd_slot st i f)) = ss_pipe (st_ss st)" "ss_soi (st_ss (upd_slot st i f)) = ss_soi (st_ss st)"
  "ss_alloc_id (st_ss (upd_slot st i f)) = ss_alloc_id (st_ss st)"
  "ss_time (st_ss (upd_slot st i f)) = ss_time (st_ss st)"
  by (simp_all add: upd_slot_def)

definition next_id :: "cint \<Rightarrow> cint" where
  "next_id a = (let i = a + 1 in if sint i < 0 then i AND 0x7fffffff else i)"

lemma next_id_unat:
  assumes "0 \<le> sint a"
  shows "unat (next_id a) = (unat a + 1) mod 2 ^ 31"
proof -
  have a: "unat a < 2 ^ 31" using assms sint_nonneg_iff by simp
  then have s: "unat (a + 1) = unat a + 1" by (simp add: unat_word_ariths)
  have "unat ((a + 1) AND 0x7fffffff) = (unat a + 1) mod 2 ^ 31"
    using and_exp_minus_1 [of "a + 1" 31] s by simp
  moreover have "sint (a + 1) < 0 \<longleftrightarrow> \<not> unat a + 1 < 2 ^ 31"
    using sint_nonneg_iff [of "a + 1"] s by linarith
  ultimately show ?thesis using s by (auto simp: next_id_def Let_def)
qed

lemma next_id_nonneg: "0 \<le> sint a \<Longrightarrow> 0 \<le> sint (next_id a)"
  by (simp add: sint_nonneg_iff next_id_unat)

lemma HASH_next_id:
  assumes "0 \<le> sint a"
  shows "HASH_ID (next_id a) = Suc (unat a) mod MAX_SOCKET"
proof -
  have "(unat a + 1) mod 2 ^ 31 mod 65536 = (unat a + 1) mod 65536"
    by (rule mod_mod_cancel) simp
  then show ?thesis using assms by (simp add: HASH_ID_def MAX_SOCKET_def next_id_unat)
qed

definition reserved :: "cint \<Rightarrow> socket \<Rightarrow> socket" where
  "reserved i s = s\<lparr>s_type := SOCKET_TYPE_RESERVE, s_id := i, s_protocol := PROTOCOL_UNKNOWN,
                    s_udpconnecting := 0, s_fd := - 1\<rparr>"

definition set_alloc :: "'k sstate \<Rightarrow> cint \<Rightarrow> 'k sstate" where
  "set_alloc st a = st\<lparr>st_ss := (st_ss st)\<lparr>ss_alloc_id := a\<rparr>\<rparr>"

lemma set_alloc_simps [simp]:
  "slot (set_alloc st a) j = slot st j" "ss_alloc_id (st_ss (set_alloc st a)) = a"
  "st_nd (set_alloc st a) = st_nd st" "st_k (set_alloc st a) = st_k st"
  "ss_pipe (st_ss (set_alloc st a)) = ss_pipe (st_ss st)" "set_alloc (set_alloc st b) a = set_alloc st a"
  by (simp_all add: set_alloc_def)

lemma reserve_loop_Suc:
  "reserve_loop (Suc n) st =
     (let i = next_id (ss_alloc_id (st_ss st)); st = set_alloc st i
      in if s_type (slot st (HASH_ID i)) = SOCKET_TYPE_INVALID
         then (i, upd_slot st (HASH_ID i) (reserved i)) else reserve_loop n st)"
  by (simp add: next_id_def set_alloc_def reserved_def [abs_def] Let_def split: prod.split)

text \<open>The loop visits the \<open>n\<close> slots after the one of the last id.\<close>

lemma reserve_loop_spec:
  assumes "0 \<le> sint (ss_alloc_id (st_ss st))"
  shows "\<exists>a. 0 \<le> sint a \<and>
     ((\<exists>j < n. s_type (slot st (Suc (unat (ss_alloc_id (st_ss st)) + j) mod MAX_SOCKET)) = SOCKET_TYPE_INVALID)
        \<and> s_type (slot st (HASH_ID a)) = SOCKET_TYPE_INVALID
        \<and> reserve_loop n st = (a, upd_slot (set_alloc st a) (HASH_ID a) (reserved a))
      \<or> (\<forall>j < n. s_type (slot st (Suc (unat (ss_alloc_id (st_ss st)) + j) mod MAX_SOCKET)) \<noteq> SOCKET_TYPE_INVALID)
        \<and> reserve_loop n st = (- 1, set_alloc st a))"
  using assms
proof (induction n arbitrary: st)
  case 0
  have "set_alloc st (ss_alloc_id (st_ss st)) = st" by (simp add: set_alloc_def)
  then show ?case using 0 by (intro exI [of _ "ss_alloc_id (st_ss st)"]) simp
next
  case (Suc n)
  let ?a = "ss_alloc_id (st_ss st)" and ?i = "next_id (ss_alloc_id (st_ss st))"
  have i: "0 \<le> sint ?i" using Suc.prems by (rule next_id_nonneg)
  have h: "HASH_ID ?i = Suc (unat ?a) mod MAX_SOCKET" using Suc.prems by (rule HASH_next_id)
  show ?case
  proof (cases "s_type (slot st (HASH_ID ?i)) = SOCKET_TYPE_INVALID")
    case True
    then have "\<exists>j < Suc n. s_type (slot st (Suc (unat ?a + j) mod MAX_SOCKET)) = SOCKET_TYPE_INVALID"
      using h by (intro exI [of _ 0]) simp
    moreover have "reserve_loop (Suc n) st = (?i, upd_slot (set_alloc st ?i) (HASH_ID ?i) (reserved ?i))"
      using True by (simp add: reserve_loop_Suc Let_def del: reserve_loop.simps)
    ultimately show ?thesis using i True by blast
  next
    case False
    have step: "Suc (unat ?i + j) mod MAX_SOCKET = Suc (unat ?a + Suc j) mod MAX_SOCKET" for j
    proof -
      have "unat ?i mod MAX_SOCKET = Suc (unat ?a) mod MAX_SOCKET" using h by (simp add: HASH_ID_def)
      then have "(unat ?i + Suc j) mod MAX_SOCKET = (Suc (unat ?a) + Suc j) mod MAX_SOCKET"
        by (metis mod_add_left_eq)
      then show ?thesis by simp
    qed
    have ex: "(\<exists>j < Suc n. s_type (slot st (Suc (unat ?a + j) mod MAX_SOCKET)) = SOCKET_TYPE_INVALID)
        \<longleftrightarrow> (\<exists>j < n. s_type (slot st (Suc (unat ?i + j) mod MAX_SOCKET)) = SOCKET_TYPE_INVALID)"
      using False h unfolding step Ex_less_Suc2 by simp
    have eq: "reserve_loop (Suc n) st = reserve_loop n (set_alloc st ?i)"
      using False by (simp add: reserve_loop_Suc Let_def del: reserve_loop.simps)
    from Suc.IH [of "set_alloc st ?i"] i show ?thesis unfolding eq using ex by auto
  qed
qed

lemma all_slots_visited:
  assumes "h < MAX_SOCKET"
  shows "\<exists>j < MAX_SOCKET. Suc (a + j) mod MAX_SOCKET = h"
proof -
  let ?m = MAX_SOCKET
  have m: "0 < ?m" by (simp add: MAX_SOCKET_def)
  let ?j = "(h + (?m - Suc a mod ?m)) mod ?m"
  have "Suc (a + ?j) mod ?m = (Suc a + (h + (?m - Suc a mod ?m))) mod ?m"
    by (metis add_Suc mod_add_right_eq)
  also have "\<dots> = (Suc a mod ?m + (h + (?m - Suc a mod ?m))) mod ?m"
    by (metis mod_add_left_eq)
  also have "Suc a mod ?m + (h + (?m - Suc a mod ?m)) = h + ?m"
    using mod_less_divisor [OF m, of "Suc a"] by linarith
  finally have "Suc (a + ?j) mod ?m = h" using assms by simp
  then show ?thesis using m by (intro exI [of _ ?j]) simp
qed

text \<open>
  C18. \<open>reserve_id\<close> finds a free slot whenever the table of 65536 sockets has one, through
  the wrap-around of the ids at \<open>2 ^ 31\<close>: it returns a non-negative id, changes a slot that
  was free to reserved under that id, and no other. With no free slot it returns -1 and
  changes no slot.
\<close>

theorem reserve_id_fresh:
  assumes "0 \<le> sint (ss_alloc_id (st_ss st))"
  shows "case reserve_id st of (i, st') \<Rightarrow>
     0 \<le> sint (ss_alloc_id (st_ss st')) \<and> ss_pipe (st_ss st') = ss_pipe (st_ss st) \<and>
     (if \<exists>h < MAX_SOCKET. s_type (slot st h) = SOCKET_TYPE_INVALID
      then 0 \<le> sint i \<and> s_type (slot st (HASH_ID i)) = SOCKET_TYPE_INVALID
           \<and> s_type (slot st' (HASH_ID i)) = SOCKET_TYPE_RESERVE \<and> s_id (slot st' (HASH_ID i)) = i
           \<and> ss_slot (st_ss st') = (ss_slot (st_ss st))(HASH_ID i := slot st' (HASH_ID i))
      else i = - 1 \<and> ss_slot (st_ss st') = ss_slot (st_ss st))"
proof -
  let ?a = "ss_alloc_id (st_ss st)"
  have free: "(\<exists>j < MAX_SOCKET. s_type (slot st (Suc (unat ?a + j) mod MAX_SOCKET)) = SOCKET_TYPE_INVALID)
      \<longleftrightarrow> (\<exists>h < MAX_SOCKET. s_type (slot st h) = SOCKET_TYPE_INVALID)"
    using all_slots_visited [of _ "unat ?a"] mod_less_divisor [of MAX_SOCKET]
    by (metis MAX_SOCKET_def zero_less_numeral)
  obtain a where a: "0 \<le> sint a" and
    r: "(\<exists>h < MAX_SOCKET. s_type (slot st h) = SOCKET_TYPE_INVALID)
        \<and> s_type (slot st (HASH_ID a)) = SOCKET_TYPE_INVALID
        \<and> reserve_id st = (a, upd_slot (set_alloc st a) (HASH_ID a) (reserved a))
      \<or> \<not> (\<exists>h < MAX_SOCKET. s_type (slot st h) = SOCKET_TYPE_INVALID)
        \<and> reserve_id st = (- 1, set_alloc st a)"
    using reserve_loop_spec [OF assms, of MAX_SOCKET] free unfolding reserve_id_def by blast
  from r show ?thesis
    using a by (elim disjE conjE) (auto simp: reserved_def upd_slot_def set_alloc_def)
qed


subsection \<open>An example state\<close>

text \<open>
  A server whose slots are free and a kernel that is the text written to each descriptor and
  takes at most three bytes at a time; they instantiate the theorems.
\<close>

definition demo_socket :: socket where
  "demo_socket =
     \<lparr>s_opaque = 0, s_high = [], s_low = [], s_wb_size = 0,
      s_stat = \<lparr>stat_rtime = 0, stat_wtime = 0, stat_rbytes = 0, stat_wbytes = 0\<rparr>, s_sending = 0, s_fd = - 1,
      s_id = 0, s_type = SOCKET_TYPE_INVALID, s_protocol = PROTOCOL_UNKNOWN, s_reading = False, s_writing = False,
      s_closing = False, s_udpconnecting = 0, s_warn_size = 0, s_size = 64, s_udp_address = [], s_dw_lock = False,
      s_dw_offset = 0, s_dw_buffer = None, s_dw_size = 0\<rparr>"

definition demo_server :: socket_server where
  "demo_server =
     \<lparr>ss_time = 0, ss_checkctrl = True, ss_alloc_id = 0, ss_event_n = 0, ss_event_index = 0, ss_ev = [],
      ss_slot = (\<lambda>_. demo_socket), ss_pipe = [], ss_soi = False\<rparr>"

type_synonym demo_kernel = "int \<Rightarrow> string"

definition demo_sys :: "demo_kernel sys" where
  "demo_sys =
     \<lparr>sys_write = (\<lambda>fd bs k. (Inr (min 3 (length bs)), k(fd := k fd @ take (min 3 (length bs)) bs))),
      sys_read = (\<lambda>fd n k. (Inl EAGAIN, k)), sys_sendto = (\<lambda>fd bs sa k. (Inl EAGAIN, k)),
      sys_recvfrom = (\<lambda>fd n k. (Inl EAGAIN, k)), sys_close = (\<lambda>fd k. k), sys_shutdown_wr = (\<lambda>fd k. k),
      sys_shutdown_rd = (\<lambda>fd k. k), sys_accept = (\<lambda>fd k. (Inl EAGAIN, k)),
      sys_getsockopt_error = (\<lambda>fd k. (Inr None, k)), sys_setsockopt = (\<lambda>fd what v k. (False, k)),
      sys_keepalive = (\<lambda>fd k. k), sys_nonblocking = (\<lambda>fd k. k), sys_getpeername = (\<lambda>fd k. None),
      sys_getsockname = (\<lambda>fd k. None), sys_inet_ntop = (\<lambda>sa. None),
      sys_getaddrinfo = (\<lambda>host port tcp k. (Inl ''fail'', k)), sys_socket = (\<lambda>family tcp k. (Inl EMFILE, k)),
      sys_connect = (\<lambda>fd sa k. (Some EINPROGRESS, k)), sys_bind = (\<lambda>fd sa k. (False, k)),
      sys_reuseaddr = (\<lambda>fd k. (False, k)), sys_listen = (\<lambda>fd n k. (False, k)),
      sys_epoll_add = (\<lambda>fd i k. (False, k)), sys_epoll_del = (\<lambda>fd k. k),
      sys_epoll_mod = (\<lambda>fd i ev k. (False, k)), sys_epoll_wait = (\<lambda>n k. (Inl EINTR, k)),
      sys_strerror = (\<lambda>e. ''error''), sys_errno = (\<lambda>k. EAGAIN),
      soi_buffer = (\<lambda>p nd. p + 1), soi_size = (\<lambda>p nd. 1), soi_free = (\<lambda>p nd. Some nd)\<rparr>"

definition demo_sstate :: "demo_kernel sstate" where
  "demo_sstate =
     \<lparr>st_nd = demo_node, st_ss = demo_server, st_k = (\<lambda>_. []),
      st_res = \<lparr>so_id = 0, so_opaque = 0, so_ud = 0, so_text = None, so_data = None\<rparr>\<rparr>"

theorem reserve_id_fresh_witness:
  "case reserve_id demo_sstate of (i, st') \<Rightarrow> 0 \<le> sint i \<and> s_id (slot st' (HASH_ID i)) = i"
proof -
  have "\<exists>h < MAX_SOCKET. s_type (slot demo_sstate h) = SOCKET_TYPE_INVALID"
    by (intro exI [of _ 0]) (simp add: MAX_SOCKET_def demo_sstate_def demo_server_def demo_socket_def)
  moreover have "0 \<le> sint (ss_alloc_id (st_ss demo_sstate))"
    by (simp add: demo_sstate_def demo_server_def)
  ultimately show ?thesis using reserve_id_fresh [of demo_sstate] by (auto split: prod.splits)
qed

end
