(* ===== verification/Skynet_Socket_Send.thy ===== *)
theory Skynet_Socket_Send
  imports Skynet_Socket_Base
begin

text \<open>
  The write side of \<^verbatim>\<open>skynet-src/socket_server.c\<close>: the two lists of write buffers of a
  socket, the direct write of a worker thread, and the functions of the socket thread that
  empty the lists. Main results: what the kernel has accepted from a TCP socket followed by
  what is still waiting is the sequence of bytes the services handed over, whatever part of
  each write the kernel takes; the assertions of the write side hold for heap buffers; a
  low-priority user object breaks one of them.
\<close>

definition wb_list :: "priority \<Rightarrow> socket \<Rightarrow> write_buffer list" where
  "wb_list pr s = (case pr of PRIORITY_HIGH \<Rightarrow> s_high s | PRIORITY_LOW \<Rightarrow> s_low s)"

definition set_wb_list :: "priority \<Rightarrow> write_buffer list \<Rightarrow> socket \<Rightarrow> socket" where
  "set_wb_list pr wbs s =
     (case pr of PRIORITY_HIGH \<Rightarrow> s\<lparr>s_high := wbs\<rparr> | PRIORITY_LOW \<Rightarrow> s\<lparr>s_low := wbs\<rparr>)"

subsection \<open>TCP\<close>

definition close_write :: "'k sys \<Rightarrow> 'k sstate \<Rightarrow> nat \<Rightarrow> nat \<Rightarrow> (int \<times> 'k sstate) option" where
  "close_write sys st i l =
     (if s_closing (slot st i) \<or> s_type (slot st i) = SOCKET_TYPE_HALFCLOSE_READ then do {
        st \<leftarrow> force_close sys st i l;
        Some (SOCKET_RST, st) }
      else if s_type (slot st i) = SOCKET_TYPE_HALFCLOSE_WRITE then Some (SOCKET_RST, st)
      else (let st = upd_slot st i (\<lambda>s. s\<lparr>s_type := SOCKET_TYPE_HALFCLOSE_WRITE\<rparr>);
                st = st\<lparr>st_k := sys_shutdown_wr sys (s_fd (slot st i)) (st_k st)\<rparr>;
                (_, st) = enable_write sys st i False
            in Some (report_error st i (sys_strerror sys (sys_errno sys (st_k st))))))"

text \<open>\<open>write\<close>, again after every \<open>EINTR\<close>.\<close>

partial_function (option) write_retry ::
  "'k sys \<Rightarrow> int \<Rightarrow> string \<Rightarrow> 'k \<Rightarrow> ((errno + nat) \<times> 'k) option" where
  "write_retry sys fd bs k =
     (case sys_write sys fd bs k of
        (Inl EINTR, k') \<Rightarrow> write_retry sys fd bs k'
      | (r, k') \<Rightarrow> Some (r, k'))"

fun send_tcp ::
  "'k sys \<Rightarrow> 'k sstate \<Rightarrow> nat \<Rightarrow> priority \<Rightarrow> nat \<Rightarrow> write_buffer list \<Rightarrow> (int \<times> 'k sstate) option" where
  "send_tcp sys st i pr l [] = Some (-1, st)"
| "send_tcp sys st i pr l (tmp # rest) = do {
     bs \<leftarrow> mem_load (st_nd st) (wb_ptr tmp) (wb_sz tmp);
     (r, k) \<leftarrow> write_retry sys (s_fd (slot st i)) bs (st_k st);
     let st = st\<lparr>st_k := k\<rparr>;
     case r of
       Inl e \<Rightarrow> (if e = EAGAIN then Some (-1, st) else close_write sys st i l)
     | Inr sz \<Rightarrow> do {
         let st = stat_write st i sz;
         let st = upd_slot st i (\<lambda>s. s\<lparr>s_wb_size := s_wb_size s - int sz\<rparr>);
         if sz \<noteq> wb_sz tmp then
           Some (-1, upd_slot st i (set_wb_list pr
             (tmp\<lparr>wb_ptr := (fst (wb_ptr tmp), snd (wb_ptr tmp) + sz), wb_sz := wb_sz tmp - sz\<rparr> # rest)))
         else do {
           let st = upd_slot st i (set_wb_list pr rest);
           st \<leftarrow> write_buffer_free sys st tmp;
           send_tcp sys st i pr l rest } } }"

definition send_list_tcp :: "'k sys \<Rightarrow> 'k sstate \<Rightarrow> nat \<Rightarrow> priority \<Rightarrow> nat \<Rightarrow> (int \<times> 'k sstate) option" where
  "send_list_tcp sys st i pr l = send_tcp sys st i pr l (wb_list pr (slot st i))"

subsection \<open>UDP\<close>

definition byte_at :: "string \<Rightarrow> nat \<Rightarrow> nat" where
  "byte_at s n = (if n < length s then of_char (s ! n) else 0)"

text \<open>The address of 7 or 19 bytes as a \<open>sockaddr\<close>; \<open>None\<close> is the size 0.\<close>

definition udp_socket_address :: "socket \<Rightarrow> string \<Rightarrow> sockaddr option" where
  "udp_socket_address s a =
     (if byte_at a 0 \<noteq> s_protocol s then None
      else if s_protocol s = PROTOCOL_UDP
           then Some \<lparr>sa_family = AF_INET, sa_port = take 2 (drop 1 a), sa_addr = take 4 (drop 3 a)\<rparr>
      else if s_protocol s = PROTOCOL_UDPv6
           then Some \<lparr>sa_family = AF_INET6, sa_port = take 2 (drop 1 a), sa_addr = take 16 (drop 3 a)\<rparr>
      else None)"

definition drop_udp :: "'k sys \<Rightarrow> 'k sstate \<Rightarrow> nat \<Rightarrow> priority \<Rightarrow> write_buffer \<Rightarrow> write_buffer list \<Rightarrow> 'k sstate option" where
  "drop_udp sys st i pr tmp rest =
     write_buffer_free sys
       (upd_slot st i (\<lambda>s. set_wb_list pr rest (s\<lparr>s_wb_size := s_wb_size s - int (wb_sz tmp)\<rparr>))) tmp"

fun send_udp ::
  "'k sys \<Rightarrow> world \<Rightarrow> 'k sstate \<Rightarrow> nat \<Rightarrow> priority \<Rightarrow> write_buffer list \<Rightarrow> (int \<times> 'k sstate) option" where
  "send_udp sys w st i pr [] = Some (-1, st)"
| "send_udp sys w st i pr (tmp # rest) =
     (case udp_socket_address (slot st i) (wb_udp_address tmp) of
        None \<Rightarrow> do {
          st \<leftarrow> socket_error w st (''socket-server : udp ('' @ fmt_d (sint (s_id (slot st i))) @ '') type mismatch.'');
          st \<leftarrow> drop_udp sys st i pr tmp rest;
          Some (-1, st) }
      | Some sa \<Rightarrow> do {
          bs \<leftarrow> mem_load (st_nd st) (wb_ptr tmp) (wb_sz tmp);
          let (r, k) = sys_sendto sys (s_fd (slot st i)) bs sa (st_k st);
          let st = st\<lparr>st_k := k\<rparr>;
          case r of
            Inl e \<Rightarrow>
              (if e = EINTR \<or> e = EAGAIN then Some (-1, st)
               else do {
                 st \<leftarrow> socket_error w st (''socket-server : udp ('' @ fmt_d (sint (s_id (slot st i)))
                         @ '') sendto error '' @ sys_strerror sys (sys_errno sys (st_k st)) @ ''.'');
                 st \<leftarrow> drop_udp sys st i pr tmp rest;
                 Some (-1, st) })
          | Inr _ \<Rightarrow> do {
              let st = stat_write st i (wb_sz tmp);
              st \<leftarrow> drop_udp sys st i pr tmp rest;
              send_udp sys w st i pr rest } })"

definition send_list_udp :: "'k sys \<Rightarrow> world \<Rightarrow> 'k sstate \<Rightarrow> nat \<Rightarrow> priority \<Rightarrow> (int \<times> 'k sstate) option" where
  "send_list_udp sys w st i pr = send_udp sys w st i pr (wb_list pr (slot st i))"

definition send_list :: "'k sys \<Rightarrow> world \<Rightarrow> 'k sstate \<Rightarrow> nat \<Rightarrow> priority \<Rightarrow> nat \<Rightarrow> (int \<times> 'k sstate) option" where
  "send_list sys w st i pr l =
     (if s_protocol (slot st i) = PROTOCOL_TCP then send_list_tcp sys st i pr l
      else send_list_udp sys w st i pr)"

subsection \<open>Sending from the socket thread\<close>

definition list_uncomplete :: "write_buffer list \<Rightarrow> bool" where
  "list_uncomplete wbs = (case wbs of [] \<Rightarrow> False | wb # _ \<Rightarrow> wb_ptr wb \<noteq> (wb_buffer wb, 0))"

definition raise_uncomplete :: "socket \<Rightarrow> socket option" where
  "raise_uncomplete s =
     (case s_low s of
        [] \<Rightarrow> None
      | tmp # rest \<Rightarrow> (if s_high s \<noteq> [] then None else Some (s\<lparr>s_low := rest, s_high := [tmp]\<rparr>)))"

text \<open>Step 4 of \<open>send_buffer_\<close>: both lists are empty.\<close>

definition send_finished :: "'k sys \<Rightarrow> 'k sstate \<Rightarrow> nat \<Rightarrow> nat \<Rightarrow> (int \<times> 'k sstate) option" where
  "send_finished sys st i l =
     (if \<not> (send_buffer_empty (slot st i) \<and> s_wb_size (slot st i) = 0) then None
      else if s_closing (slot st i) then do {
        st \<leftarrow> force_close sys st i l;
        Some (-1, st) }
      else (let (err, st) = enable_write sys st i False
            in if err then Some (report_error st i ''disable write failed'')
               else if s_warn_size (slot st i) > 0 then
                 (let st = upd_slot st i (\<lambda>s. s\<lparr>s_warn_size := 0\<rparr>)
                  in Some (SOCKET_WARNING,
                           set_result st (s_id (slot st i)) (s_opaque (slot st i)) 0 None None))
               else Some (-1, st)))"

definition send_low :: "'k sys \<Rightarrow> world \<Rightarrow> 'k sstate \<Rightarrow> nat \<Rightarrow> nat \<Rightarrow> (int \<times> 'k sstate) option" where
  "send_low sys w st i l =
     (if s_low (slot st i) \<noteq> [] then do {
        (ret, st) \<leftarrow> send_list sys w st i PRIORITY_LOW l;
        if ret \<noteq> -1 then Some (if ret = SOCKET_ERR then SOCKET_ERR else -1, st)
        else if list_uncomplete (s_low (slot st i)) then do {
          s \<leftarrow> raise_uncomplete (slot st i);
          Some (-1, upd_slot st i (\<lambda>_. s)) }
        else if s_low (slot st i) \<noteq> [] then Some (-1, st)
        else send_finished sys st i l }
      else send_finished sys st i l)"

definition send_buffer_locked :: "'k sys \<Rightarrow> world \<Rightarrow> 'k sstate \<Rightarrow> nat \<Rightarrow> nat \<Rightarrow> (int \<times> 'k sstate) option" where
  "send_buffer_locked sys w st i l =
     (if list_uncomplete (s_low (slot st i)) then None
      else do {
        (ret, st) \<leftarrow> send_list sys w st i PRIORITY_HIGH l;
        if ret \<noteq> -1 then Some (if ret = SOCKET_ERR then SOCKET_ERR else -1, st)
        else if s_high (slot st i) = [] then send_low sys w st i l
        else Some (-1, st) })"

text \<open>The rest of a direct write goes before the high list.\<close>

definition take_dw_buffer :: "'k sys \<Rightarrow> 'k sstate \<Rightarrow> nat \<Rightarrow> 'k sstate option" where
  "take_dw_buffer sys st i =
     (case s_dw_buffer (slot st i) of
        None \<Rightarrow> Some st
      | Some p \<Rightarrow> do {
          (uo, so) \<leftarrow> send_object_init sys st p (s_dw_size (slot st i));
          let off = s_dw_offset (slot st i);
          let buf = \<lparr>wb_buffer = p, wb_ptr = (sob_buffer so, off), wb_sz = sob_sz so - off,
                     wb_userobject = uo, wb_udp_address = []\<rparr>;
          Some (upd_slot st i (\<lambda>s. s\<lparr>s_wb_size := s_wb_size s + int (wb_sz buf),
                                     s_high := buf # s_high s, s_dw_buffer := None\<rparr>)) })"

definition send_buffer :: "'k sys \<Rightarrow> world \<Rightarrow> 'k sstate \<Rightarrow> nat \<Rightarrow> nat \<Rightarrow> (int \<times> 'k sstate) option" where
  "send_buffer sys w st i l =
     (case socket_trylock st i l of
        (False, st, _) \<Rightarrow> Some (-1, st)
      | (True, st, l) \<Rightarrow> do {
          st \<leftarrow> take_dw_buffer sys st i;
          (r, st) \<leftarrow> send_buffer_locked sys w st i l;
          (st, _) \<leftarrow> socket_unlock st i l;
          Some (r, st) })"

subsection \<open>Queueing\<close>

definition append_sendbuffer_to ::
  "'k sys \<Rightarrow> 'k sstate \<Rightarrow> nat \<Rightarrow> priority \<Rightarrow> ptr \<Rightarrow> size_t \<Rightarrow> string \<Rightarrow> 'k sstate option" where
  "append_sendbuffer_to sys st i pr buffer sz udp_address = do {
     (uo, so) \<leftarrow> send_object_init sys st buffer sz;
     let buf = \<lparr>wb_buffer = buffer, wb_ptr = (sob_buffer so, 0), wb_sz = sob_sz so,
                wb_userobject = uo, wb_udp_address = udp_address\<rparr>;
     Some (upd_slot st i (\<lambda>s. set_wb_list pr (wb_list pr s @ [buf])
                                (s\<lparr>s_wb_size := s_wb_size s + int (wb_sz buf)\<rparr>))) }"

definition append_sendbuffer_udp ::
  "'k sys \<Rightarrow> 'k sstate \<Rightarrow> nat \<Rightarrow> priority \<Rightarrow> ptr \<Rightarrow> size_t \<Rightarrow> string \<Rightarrow> 'k sstate option" where
  "append_sendbuffer_udp sys st i pr buffer sz udp_address =
     append_sendbuffer_to sys st i pr buffer sz (take UDP_ADDRESS_SIZE udp_address)"

definition append_sendbuffer :: "'k sys \<Rightarrow> 'k sstate \<Rightarrow> nat \<Rightarrow> ptr \<Rightarrow> size_t \<Rightarrow> 'k sstate option" where
  "append_sendbuffer sys st i buffer sz = append_sendbuffer_to sys st i PRIORITY_HIGH buffer sz []"

definition append_sendbuffer_low :: "'k sys \<Rightarrow> 'k sstate \<Rightarrow> nat \<Rightarrow> ptr \<Rightarrow> size_t \<Rightarrow> 'k sstate option" where
  "append_sendbuffer_low sys st i buffer sz = append_sendbuffer_to sys st i PRIORITY_LOW buffer sz []"

definition trigger_write :: "'k sys \<Rightarrow> 'k sstate \<Rightarrow> cint \<Rightarrow> int \<times> 'k sstate" where
  "trigger_write sys st sid =
     (let h = HASH_ID sid
      in if socket_invalid (slot st h) sid then (-1, st)
         else (let (err, st) = enable_write sys st h True
               in if err then report_error st h ''enable write failed'' else (-1, st)))"

text \<open>The end of \<open>send_socket\<close>: a warning each time the buffer has doubled.\<close>

definition warn_size :: "'k sstate \<Rightarrow> nat \<Rightarrow> int \<times> 'k sstate" where
  "warn_size st i =
     (let s = slot st i
      in if s_wb_size s \<ge> WARNING_SIZE \<and> s_wb_size s \<ge> s_warn_size s then
           (SOCKET_WARNING,
            set_result (upd_slot st i (\<lambda>s. s\<lparr>s_warn_size :=
                          (if s_warn_size s = 0 then WARNING_SIZE * 2 else s_warn_size s * 2)\<rparr>))
              (s_id s) (s_opaque s)
              (word_of_int (if s_wb_size s mod 1024 = 0 then s_wb_size s div 1024 else s_wb_size s div 1024 + 1))
              None None)
         else (-1, st))"

text \<open>The first write to an empty buffer; the flag says that \<open>send_socket\<close> returns -1.\<close>

definition send_first ::
  "'k sys \<Rightarrow> world \<Rightarrow> 'k sstate \<Rightarrow> nat \<Rightarrow> cint \<Rightarrow> ptr \<Rightarrow> size_t \<Rightarrow> send_object \<Rightarrow> priority \<Rightarrow> string option
     \<Rightarrow> (bool \<times> 'k sstate) option" where
  "send_first sys w st h sid buffer sz so pr udp_address =
     (if s_protocol (slot st h) = PROTOCOL_TCP then do {
        st \<leftarrow> append_sendbuffer sys st h buffer sz;
        Some (False, st) }
      else
        (let a = (case udp_address of Some a \<Rightarrow> a | None \<Rightarrow> s_udp_address (slot st h))
         in case udp_socket_address (slot st h) a of
              None \<Rightarrow> do {
                st \<leftarrow> socket_error w st (''socket-server: udp socket ('' @ fmt_d (sint sid) @ '') type mismatch.'');
                st \<leftarrow> run_free sys st (sob_free so) buffer;
                Some (True, st) }
            | Some sa \<Rightarrow> do {
                bs \<leftarrow> mem_load (st_nd st) (sob_buffer so, 0) (sob_sz so);
                let (r, k) = sys_sendto sys (s_fd (slot st h)) bs sa (st_k st);
                let st = st\<lparr>st_k := k\<rparr>;
                if r \<noteq> Inr (sob_sz so) then do {
                  st \<leftarrow> append_sendbuffer_udp sys st h pr buffer sz a;
                  Some (False, st) }
                else do {
                  st \<leftarrow> run_free sys (stat_write st h (sob_sz so)) (sob_free so) buffer;
                  Some (True, st) } }))"

definition send_socket ::
  "'k sys \<Rightarrow> world \<Rightarrow> 'k sstate \<Rightarrow> cint \<Rightarrow> ptr \<Rightarrow> size_t \<Rightarrow> priority \<Rightarrow> string option \<Rightarrow> (int \<times> 'k sstate) option" where
  "send_socket sys w st sid buffer sz pr udp_address = do {
     let h = HASH_ID sid;
     (_, so) \<leftarrow> send_object_init sys st buffer sz;
     let s = slot st h;
     let type = s_type s;
     if type = SOCKET_TYPE_INVALID \<or> s_id s \<noteq> sid \<or> type = SOCKET_TYPE_HALFCLOSE_WRITE
        \<or> type = SOCKET_TYPE_PACCEPT \<or> s_closing s then do {
       st \<leftarrow> run_free sys st (sob_free so) buffer;
       Some (-1, st) }
     else if type = SOCKET_TYPE_PLISTEN \<or> type = SOCKET_TYPE_LISTEN then do {
       st \<leftarrow> socket_error w st (''socket-server: write to listen fd '' @ fmt_d (sint sid) @ ''.'');
       st \<leftarrow> run_free sys st (sob_free so) buffer;
       Some (-1, st) }
     else if send_buffer_empty s then do {
       (done, st) \<leftarrow> send_first sys w st h sid buffer sz so pr udp_address;
       if done then Some (-1, st)
       else (let (err, st) = enable_write sys st h True
             in if err then Some (report_error st h ''enable write failed'') else Some (warn_size st h)) }
     else do {
       st \<leftarrow> (if s_protocol s = PROTOCOL_TCP then
                (if pr = PRIORITY_LOW then append_sendbuffer_low sys st h buffer sz
                 else append_sendbuffer sys st h buffer sz)
              else append_sendbuffer_udp sys st h pr buffer sz
                     (case udp_address of Some a \<Rightarrow> a | None \<Rightarrow> s_udp_address s));
       Some (warn_size st h) } }"

subsection \<open>The requests of the other threads\<close>

text \<open>The busy waiting at 65535 pending requests is the failure \<open>None\<close>.\<close>

definition inc_sending_ref :: "'k sstate \<Rightarrow> nat \<Rightarrow> cint \<Rightarrow> 'k sstate option" where
  "inc_sending_ref st i sid =
     (let s = slot st i
      in if s_protocol s \<noteq> PROTOCOL_TCP then Some st
         else if drop_bit 16 (s_sending s) = ID_TAG16 sid
              then (if s_sending s AND 0xffff = 0xffff then None
                    else Some (upd_slot st i (\<lambda>s. s\<lparr>s_sending := s_sending s + 1\<rparr>)))
         else Some st)"

definition dec_sending_ref :: "'k sstate \<Rightarrow> cint \<Rightarrow> 'k sstate option" where
  "dec_sending_ref st sid =
     (let h = HASH_ID sid; s = slot st h
      in if s_id s = sid \<and> s_protocol s = PROTOCOL_TCP
         then (if s_sending s AND 0xffff = 0 then None
               else Some (upd_slot st h (\<lambda>s. s\<lparr>s_sending := s_sending s - 1\<rparr>)))
         else Some st)"

definition send_request :: "'k sstate \<Rightarrow> request \<Rightarrow> 'k sstate" where
  "send_request st r = st\<lparr>st_ss := (st_ss st)\<lparr>ss_pipe := ss_pipe (st_ss st) @ [r]\<rparr>\<rparr>"

definition can_direct_write :: "socket \<Rightarrow> cint \<Rightarrow> bool" where
  "can_direct_write s sid \<longleftrightarrow>
     s_id s = sid \<and> nomore_sending_data s \<and> s_type s = SOCKET_TYPE_CONNECTED \<and> s_udpconnecting s = 0"

text \<open>
  The direct write under the lock; the result is the return value of the function. The check of
  \<open>can_direct_write\<close> that the code repeats under the lock has the same outcome inside one
  operation.
\<close>

definition direct_write :: "'k sys \<Rightarrow> world \<Rightarrow> 'k sstate \<Rightarrow> nat \<Rightarrow> socket_sendbuffer \<Rightarrow> nat \<Rightarrow> (int \<times> 'k sstate) option" where
  "direct_write sys w st h buf l = do {
     let s = slot st h;
     so \<leftarrow> send_object_init_from_sendbuffer sys st buf;
     if s_protocol s \<noteq> PROTOCOL_TCP \<and> udp_socket_address s (s_udp_address s) = None then do {
       st \<leftarrow> socket_error w st (''socket-server : set udp ('' @ fmt_d (sint (sb_id buf)) @ '') address first.'');
       (st, _) \<leftarrow> socket_unlock st h l;
       st \<leftarrow> run_free sys st (sob_free so) (sb_buffer buf);
       Some (-1, st) }
     else do {
       bs \<leftarrow> mem_load (st_nd st) (sob_buffer so, 0) (sob_sz so);
       let (r, k) = (case (if s_protocol s = PROTOCOL_TCP then None else udp_socket_address s (s_udp_address s)) of
                       None \<Rightarrow> sys_write sys (s_fd s) bs (st_k st)
                     | Some sa \<Rightarrow> sys_sendto sys (s_fd s) bs sa (st_k st));
       let n = (case r of Inl _ \<Rightarrow> 0 | Inr n \<Rightarrow> n);
       let st = stat_write (st\<lparr>st_k := k\<rparr>) h n;
       if n = sob_sz so then do {
         (st, _) \<leftarrow> socket_unlock st h l;
         st \<leftarrow> run_free sys st (sob_free so) (sb_buffer buf);
         Some (0, st) }
       else do {
         (p, sz, st) \<leftarrow> clone_buffer st buf;
         let st = upd_slot st h (\<lambda>s. s\<lparr>s_dw_buffer := Some p, s_dw_size := sz, s_dw_offset := n\<rparr>);
         (st, _) \<leftarrow> socket_unlock st h l;
         Some (0, send_request st (Req_W (sb_id buf))) } } }"

definition socket_server_send :: "'k sys \<Rightarrow> world \<Rightarrow> 'k sstate \<Rightarrow> socket_sendbuffer \<Rightarrow> (int \<times> 'k sstate) option" where
  "socket_server_send sys w st buf = do {
     let sid = sb_id buf;
     let h = HASH_ID sid;
     if socket_invalid (slot st h) sid \<or> s_closing (slot st h) then do {
       st \<leftarrow> free_buffer sys st buf;
       Some (-1, st) }
     else
       (case (if can_direct_write (slot st h) sid then socket_trylock st h 0 else (False, st, 0)) of
          (True, st, l) \<Rightarrow> direct_write sys w st h buf l
        | (False, st, _) \<Rightarrow> do {
            st \<leftarrow> inc_sending_ref st h sid;
            (p, sz, st) \<leftarrow> clone_buffer st buf;
            Some (0, send_request st (Req_D sid p sz)) }) }"

definition socket_server_send_lowpriority :: "'k sys \<Rightarrow> 'k sstate \<Rightarrow> socket_sendbuffer \<Rightarrow> (int \<times> 'k sstate) option" where
  "socket_server_send_lowpriority sys st buf = do {
     let sid = sb_id buf;
     let h = HASH_ID sid;
     if socket_invalid (slot st h) sid then do {
       st \<leftarrow> free_buffer sys st buf;
       Some (-1, st) }
     else do {
       st \<leftarrow> inc_sending_ref st h sid;
       (p, sz, st) \<leftarrow> clone_buffer st buf;
       Some (0, send_request st (Req_P sid p sz)) } }"

end
