(* ===== verification/Skynet_Socket_Server.thy ===== *)
theory Skynet_Socket_Server
  imports Skynet_Socket_Send
begin

text \<open>
  The rest of \<^verbatim>\<open>skynet-src/socket_server.c\<close>: the handlers of the requests on the control
  pipe (\<open>ctrl_cmd\<close>), the handlers of the events of a socket, the loop
  \<open>socket_server_poll\<close>, and the functions the other threads call; with the wrappers of
  \<^verbatim>\<open>skynet_socket.c\<close>.
\<close>

subsection \<open>Requests\<close>

text \<open>
  The loop over the results of \<open>getaddrinfo\<close>: the socket, whether it is connected already,
  and its address.
\<close>

fun open_loop :: "'k sys \<Rightarrow> 'k \<Rightarrow> sockaddr list \<Rightarrow> (int \<times> bool \<times> sockaddr) option \<times> 'k" where
  "open_loop sys k [] = (None, k)"
| "open_loop sys k (ai # ais) =
     (case sys_socket sys (sa_family ai) True k of
        (Inl _, k) \<Rightarrow> open_loop sys k ais
      | (Inr sock, k) \<Rightarrow>
          (case sys_connect sys sock ai (sys_nonblocking sys sock (sys_keepalive sys sock k)) of
             (None, k) \<Rightarrow> (Some (sock, True, ai), k)
           | (Some e, k) \<Rightarrow> (if e = EINPROGRESS then (Some (sock, False, ai), k)
                             else open_loop sys (sys_close sys sock k) ais)))"

definition set_type :: "'k sstate \<Rightarrow> nat \<Rightarrow> socket_type \<Rightarrow> 'k sstate" where
  "set_type st i t = upd_slot st i (\<lambda>s. s\<lparr>s_type := t\<rparr>)"

definition set_text :: "'k sstate \<Rightarrow> string option \<Rightarrow> 'k sstate" where
  "set_text st txt = st\<lparr>st_res := (st_res st)\<lparr>so_text := txt\<rparr>\<rparr>"

definition open_socket :: "'k sys \<Rightarrow> 'k sstate \<Rightarrow> cint \<Rightarrow> int \<Rightarrow> u64 \<Rightarrow> string \<Rightarrow> (int \<times> 'k sstate) option" where
  "open_socket sys st sid port opaque host =
     (let h = HASH_ID sid;
          st = set_result st sid opaque 0 None None;
          failed = (\<lambda>st txt. Some (SOCKET_ERR, set_type (set_text st (Some txt)) h SOCKET_TYPE_INVALID));
          (r, k) = sys_getaddrinfo sys host (fmt_d port) True (st_k st);
          st = st\<lparr>st_k := k\<rparr>
      in case r of
           Inl txt \<Rightarrow> failed st txt
         | Inr ais \<Rightarrow>
             (case open_loop sys (st_k st) ais of
                (None, k) \<Rightarrow> failed (st\<lparr>st_k := k\<rparr>) (sys_strerror sys (sys_errno sys k))
              | (Some (sock, connected, ai), k) \<Rightarrow> do {
                  (ok, st) \<leftarrow> new_fd sys (st\<lparr>st_k := k\<rparr>) sid sock PROTOCOL_TCP opaque True;
                  if \<not> ok then
                    failed (st\<lparr>st_k := sys_close sys sock (st_k st)\<rparr>) ''reach skynet socket number limit''
                  else if connected then
                    (let st = set_type st h SOCKET_TYPE_CONNECTED
                     in Some (SOCKET_OPEN, (case sys_inet_ntop sys ai of None \<Rightarrow> st | Some txt \<Rightarrow> set_text st (Some txt))))
                  else
                    (let (err, st) = enable_write sys (set_type st h SOCKET_TYPE_CONNECTING) h True
                     in if err then failed st ''enable write failed'' else Some (-1, st)) }))"

definition listen_socket :: "'k sys \<Rightarrow> 'k sstate \<Rightarrow> cint \<Rightarrow> int \<Rightarrow> u64 \<Rightarrow> (int \<times> 'k sstate) option" where
  "listen_socket sys st sid listen_fd opaque = do {
     (ok, st) \<leftarrow> new_fd sys st sid listen_fd PROTOCOL_TCP opaque False;
     if ok then Some (-1, set_type st (HASH_ID sid) SOCKET_TYPE_PLISTEN)
     else Some (SOCKET_ERR,
       set_type (set_result (st\<lparr>st_k := sys_close sys listen_fd (st_k st)\<rparr>) sid opaque 0
                   (Some ''reach skynet socket number limit'') None) (HASH_ID sid) SOCKET_TYPE_INVALID) }"

definition close_socket :: "'k sys \<Rightarrow> 'k sstate \<Rightarrow> cint \<Rightarrow> bool \<Rightarrow> (int \<times> 'k sstate) option" where
  "close_socket sys st sid shutdown =
     (let h = HASH_ID sid; s = slot st h
      in if socket_invalid s sid then Some (-1, st)
         else (let shutdown_read = halfclose_read s
               in if shutdown \<or> nomore_sending_data s then do {
                    st \<leftarrow> force_close sys st h 0;
                    Some (if shutdown_read then -1 else SOCKET_CLOSE, st) }
                  else (let st = upd_slot st h (\<lambda>s. s\<lparr>s_closing := True\<rparr>)
                        in if \<not> shutdown_read then Some (SOCKET_CLOSE, close_read sys st h)
                           else Some (-1, st))))"

definition bind_socket :: "'k sys \<Rightarrow> 'k sstate \<Rightarrow> cint \<Rightarrow> int \<Rightarrow> u64 \<Rightarrow> (int \<times> 'k sstate) option" where
  "bind_socket sys st sid fd opaque = do {
     (ok, st) \<leftarrow> new_fd sys st sid fd PROTOCOL_TCP opaque True;
     if \<not> ok then Some (SOCKET_ERR, set_result st sid opaque 0 (Some ''reach skynet socket number limit'') None)
     else Some (SOCKET_OPEN,
       set_result (set_type (st\<lparr>st_k := sys_nonblocking sys fd (st_k st)\<rparr>) (HASH_ID sid) SOCKET_TYPE_BIND)
         sid opaque 0 (Some ''binding'') None) }"

definition resume_socket :: "'k sys \<Rightarrow> 'k sstate \<Rightarrow> cint \<Rightarrow> u64 \<Rightarrow> int \<times> 'k sstate" where
  "resume_socket sys st sid opaque =
     (let h = HASH_ID sid;
          st = set_result st sid opaque 0 None None;
          set_opaque = (\<lambda>s :: socket. s\<lparr>s_opaque := opaque\<rparr>)
      in if socket_invalid (slot st h) sid then (SOCKET_ERR, set_text st (Some ''invalid socket''))
         else if halfclose_read (slot st h) then (SOCKET_ERR, set_text st (Some ''socket closed''))
         else (let (err, st) = enable_read sys st h True; type = s_type (slot st h)
               in if err then (SOCKET_ERR, set_text st (Some ''enable read failed''))
                  else if type = SOCKET_TYPE_PACCEPT \<or> type = SOCKET_TYPE_PLISTEN then
                    (SOCKET_OPEN, set_text (upd_slot (set_type st h
                       (if type = SOCKET_TYPE_PACCEPT then SOCKET_TYPE_CONNECTED else SOCKET_TYPE_LISTEN))
                       h set_opaque) (Some ''start''))
                  else if type = SOCKET_TYPE_CONNECTED then
                    (SOCKET_OPEN, set_text (upd_slot st h set_opaque) (Some ''transfer''))
                  else (-1, st)))"

definition pause_socket :: "'k sys \<Rightarrow> 'k sstate \<Rightarrow> cint \<Rightarrow> int \<times> 'k sstate" where
  "pause_socket sys st sid =
     (let h = HASH_ID sid
      in if socket_invalid (slot st h) sid then (-1, st)
         else (let (err, st) = enable_read sys st h False
               in if err then report_error st h ''enable read failed'' else (-1, st)))"

definition setopt_socket :: "'k sys \<Rightarrow> 'k sstate \<Rightarrow> cint \<Rightarrow> int \<Rightarrow> int \<Rightarrow> 'k sstate" where
  "setopt_socket sys st sid what v =
     (let h = HASH_ID sid
      in if socket_invalid (slot st h) sid then st
         else st\<lparr>st_k := snd (sys_setsockopt sys (s_fd (slot st h)) what v (st_k st))\<rparr>)"

definition has_cmd :: "'k sstate \<Rightarrow> bool" where
  "has_cmd st \<longleftrightarrow> ss_pipe (st_ss st) \<noteq> []"

definition add_udp_socket :: "'k sys \<Rightarrow> 'k sstate \<Rightarrow> cint \<Rightarrow> int \<Rightarrow> nat \<Rightarrow> u64 \<Rightarrow> 'k sstate option" where
  "add_udp_socket sys st sid fd family opaque = do {
     let h = HASH_ID sid;
     (ok, st) \<leftarrow> new_fd sys st sid fd (if family = AF_INET6 then PROTOCOL_UDPv6 else PROTOCOL_UDP) opaque True;
     if \<not> ok then Some (set_type (st\<lparr>st_k := sys_close sys fd (st_k st)\<rparr>) h SOCKET_TYPE_INVALID)
     else Some (upd_slot (set_type st h SOCKET_TYPE_CONNECTED) h
                  (\<lambda>s. s\<lparr>s_udp_address := replicate UDP_ADDRESS_SIZE NUL\<rparr>)) }"

definition set_udp_address :: "'k sstate \<Rightarrow> cint \<Rightarrow> string \<Rightarrow> int \<times> 'k sstate" where
  "set_udp_address st sid address =
     (let h = HASH_ID sid; s = slot st h; type = byte_at address 0; n = (if type = PROTOCOL_UDP then 7 else 19)
      in if socket_invalid s sid then (-1, st)
         else if type \<noteq> s_protocol s then report_error st h ''protocol mismatch''
         else (-1, upd_slot st h (\<lambda>s. s\<lparr>s_udp_address := take n address @ drop n (s_udp_address s),
                                        s_udpconnecting := s_udpconnecting s - 1\<rparr>)))"

definition run_request :: "'k sys \<Rightarrow> world \<Rightarrow> 'k sstate \<Rightarrow> request \<Rightarrow> (int \<times> 'k sstate) option" where
  "run_request sys w st r =
     (case r of
        Req_R sid opaque \<Rightarrow> Some (resume_socket sys st sid opaque)
      | Req_S sid opaque \<Rightarrow> Some (pause_socket sys st sid)
      | Req_B sid fd opaque \<Rightarrow> bind_socket sys st sid fd opaque
      | Req_L sid fd opaque \<Rightarrow> listen_socket sys st sid fd opaque
      | Req_K sid shutdown opaque \<Rightarrow> close_socket sys st sid shutdown
      | Req_O sid port opaque host \<Rightarrow> open_socket sys st sid port opaque host
      | Req_X \<Rightarrow> Some (SOCKET_EXIT, set_result st 0 0 0 None None)
      | Req_W sid \<Rightarrow> Some (trigger_write sys st sid)
      | Req_D sid buffer sz \<Rightarrow> do {
          (ret, st) \<leftarrow> send_socket sys w st sid buffer sz PRIORITY_HIGH None;
          st \<leftarrow> dec_sending_ref st sid;
          Some (ret, st) }
      | Req_P sid buffer sz \<Rightarrow> do {
          (ret, st) \<leftarrow> send_socket sys w st sid buffer sz PRIORITY_LOW None;
          st \<leftarrow> dec_sending_ref st sid;
          Some (ret, st) }
      | Req_A sid buffer sz address \<Rightarrow> send_socket sys w st sid buffer sz PRIORITY_HIGH (Some address)
      | Req_C sid address \<Rightarrow> Some (set_udp_address st sid address)
      | Req_T sid what v \<Rightarrow> Some (-1, setopt_socket sys st sid what v)
      | Req_U sid fd family opaque \<Rightarrow> do {
          st \<leftarrow> add_udp_socket sys st sid fd family opaque;
          Some (-1, st) })"

definition ctrl_cmd :: "'k sys \<Rightarrow> world \<Rightarrow> 'k sstate \<Rightarrow> (int \<times> 'k sstate) option" where
  "ctrl_cmd sys w st =
     (case ss_pipe (st_ss st) of
        [] \<Rightarrow> None
      | r # rs \<Rightarrow> run_request sys w (st\<lparr>st_ss := (st_ss st)\<lparr>ss_pipe := rs\<rparr>\<rparr>) r)"

subsection \<open>Events\<close>

definition mem_store :: "'k sstate \<Rightarrow> ptr \<Rightarrow> string \<Rightarrow> 'k sstate" where
  "mem_store st p bs = st\<lparr>st_nd := (st_nd st)\<lparr>nd_mem := (nd_mem (st_nd st))(p \<mapsto> Bytes bs)\<rparr>\<rparr>"

definition forward_message_tcp :: "'k sys \<Rightarrow> 'k sstate \<Rightarrow> nat \<Rightarrow> nat \<Rightarrow> (int \<times> 'k sstate) option" where
  "forward_message_tcp sys st i l = do {
     let sz = s_size (slot st i);
     let (buffer, nd) = skynet_malloc (st_nd st) (Bytes []);
     let (r, k) = sys_read sys (s_fd (slot st i)) (nat sz) (st_k st);
     let st = st\<lparr>st_nd := nd, st_k := k\<rparr>;
     case r of
       Inl e \<Rightarrow> do {
         st \<leftarrow> run_free sys st FREE buffer;
         if e = EINTR \<or> e = EAGAIN then Some (-1, st)
         else Some (report_error st i (sys_strerror sys e)) }
     | Inr bs \<Rightarrow>
         (if bs = [] then do {
            st \<leftarrow> run_free sys st FREE buffer;
            if s_closing (slot st i) then
              (if nomore_sending_data (slot st i) then do {
                 st \<leftarrow> force_close sys st i l;
                 Some (-1, st) }
               else Some (-1, st))
            else if s_type (slot st i) = SOCKET_TYPE_HALFCLOSE_READ then Some (-1, st)
            else if s_type (slot st i) = SOCKET_TYPE_HALFCLOSE_WRITE then do {
              st \<leftarrow> force_close sys st i l;
              Some (SOCKET_CLOSE, st) }
            else Some (SOCKET_CLOSE, close_read sys st i) }
          else if halfclose_read (slot st i) then do {
            st \<leftarrow> run_free sys st FREE buffer;
            Some (-1, st) }
          else
            (let st = stat_read (mem_store st buffer bs) i (length bs);
                 st = set_result st (s_id (slot st i)) (s_opaque (slot st i)) (word_of_nat (length bs)) None (Some buffer)
             in if int (length bs) = sz then Some (SOCKET_MORE, upd_slot st i (\<lambda>s. s\<lparr>s_size := s_size s * 2\<rparr>))
                else if sz > MIN_READ_BUFFER \<and> int (length bs) * 2 < sz
                     then Some (SOCKET_DATA, upd_slot st i (\<lambda>s. s\<lparr>s_size := s_size s div 2\<rparr>))
                else Some (SOCKET_DATA, st))) }"

definition gen_udp_address :: "nat \<Rightarrow> sockaddr \<Rightarrow> string" where
  "gen_udp_address protocol sa =
     (if protocol = PROTOCOL_UDP then char_of protocol # take 2 (sa_port sa) @ take 4 (sa_addr sa)
      else char_of protocol # take 2 (sa_port sa) @ take 16 (sa_addr sa))"

text \<open>\<open>slen\<close> is \<open>sizeof(sa.v4)\<close> for an address of the family \<open>AF_INET\<close>.\<close>

definition forward_message_udp :: "'k sys \<Rightarrow> 'k sstate \<Rightarrow> nat \<Rightarrow> nat \<Rightarrow> (int \<times> 'k sstate) option" where
  "forward_message_udp sys st i l =
     (case sys_recvfrom sys (s_fd (slot st i)) MAX_UDP_PACKAGE (st_k st) of
        (Inl e, k) \<Rightarrow>
          (if e = EINTR \<or> e = EAGAIN then Some (-1, st\<lparr>st_k := k\<rparr>)
           else do {
             st \<leftarrow> force_close sys (st\<lparr>st_k := k\<rparr>) i l;
             Some (SOCKET_ERR, set_text st (Some (sys_strerror sys e))) })
      | (Inr (bs, sa), k) \<Rightarrow>
          (let st = stat_read (st\<lparr>st_k := k\<rparr>) i (length bs);
               protocol = (if sa_family sa = AF_INET then PROTOCOL_UDP else PROTOCOL_UDPv6)
           in if s_protocol (slot st i) \<noteq> protocol then Some (-1, st)
              else (let (data, nd) = skynet_malloc (st_nd st) (Bytes (bs @ gen_udp_address protocol sa))
                    in Some (SOCKET_UDP, set_result (st\<lparr>st_nd := nd\<rparr>) (s_id (slot st i)) (s_opaque (slot st i))
                         (word_of_nat (length bs)) None (Some data)))))"

definition report_connect :: "'k sys \<Rightarrow> 'k sstate \<Rightarrow> nat \<Rightarrow> nat \<Rightarrow> (int \<times> 'k sstate) option" where
  "report_connect sys st i l =
     (let (r, k) = sys_getsockopt_error sys (s_fd (slot st i)) (st_k st);
          st = st\<lparr>st_k := k\<rparr>;
          failed = (case r of Inl e \<Rightarrow> Some e | Inr e \<Rightarrow> e)
      in case failed of
           Some e \<Rightarrow> do {
             st \<leftarrow> force_close sys st i l;
             Some (SOCKET_ERR, set_text st (Some (sys_strerror sys e))) }
         | None \<Rightarrow>
             (let st = set_type st i SOCKET_TYPE_CONNECTED;
                  st = set_result st (s_id (slot st i)) (s_opaque (slot st i)) 0 (so_text (st_res st)) (so_data (st_res st));
                  (err, st) = (if nomore_sending_data (slot st i) then enable_write sys st i False else (False, st))
              in if err then do {
                   st \<leftarrow> force_close sys st i l;
                   Some (SOCKET_ERR, set_text st (Some ''disable write failed'')) }
                 else Some (SOCKET_OPEN,
                   st\<lparr>st_res := (st_res st)\<lparr>so_data := None,
                      so_text := (case sys_getpeername sys (s_fd (slot st i)) (st_k st) of
                                    None \<Rightarrow> None | Some u \<Rightarrow> sys_inet_ntop sys u)\<rparr>\<rparr>)))"

definition ntohs :: "string \<Rightarrow> nat" where
  "ntohs p = byte_at p 0 * 256 + byte_at p 1"

text \<open>\<open>snprintf\<close> into a buffer of \<open>sz\<close> bytes.\<close>

definition getname :: "'k sys \<Rightarrow> sockaddr \<Rightarrow> nat \<Rightarrow> string option" where
  "getname sys u sz =
     (case sys_inet_ntop sys u of
        None \<Rightarrow> None
      | Some tmp \<Rightarrow> Some (take (sz - 1) (tmp @ '':'' @ fmt_d (int (ntohs (sa_port u))))))"

definition report_accept :: "'k sys \<Rightarrow> 'k sstate \<Rightarrow> nat \<Rightarrow> (int \<times> 'k sstate) option" where
  "report_accept sys st i =
     (case sys_accept sys (s_fd (slot st i)) (st_k st) of
        (Inl e, k) \<Rightarrow>
          (let st = st\<lparr>st_k := k\<rparr>
           in if e = EMFILE \<or> e = ENFILE
              then Some (-1, set_result st (s_id (slot st i)) (s_opaque (slot st i)) 0 (Some (sys_strerror sys e)) None)
              else Some (0, st))
      | (Inr (client_fd, u), k) \<Rightarrow>
          (let (sid, st) = reserve_id (st\<lparr>st_k := k\<rparr>)
           in if sint sid < 0 then Some (0, st\<lparr>st_k := sys_close sys client_fd (st_k st)\<rparr>)
              else do {
                let st = st\<lparr>st_k := sys_nonblocking sys client_fd (sys_keepalive sys client_fd (st_k st))\<rparr>;
                (ok, st) \<leftarrow> new_fd sys st sid client_fd PROTOCOL_TCP (s_opaque (slot st i)) False;
                if \<not> ok then Some (0, st\<lparr>st_k := sys_close sys client_fd (st_k st)\<rparr>)
                else do {
                  let st = set_type (stat_read st i 1) (HASH_ID sid) SOCKET_TYPE_PACCEPT;
                  Some (1, set_result st (s_id (slot st i)) (s_opaque (slot st i)) sid (getname sys u MAX_INFO) None) } }))"

text \<open>The events that follow of a socket that is gone are not delivered.\<close>

function clear_event :: "'k sstate \<Rightarrow> cint \<Rightarrow> nat \<Rightarrow> nat \<Rightarrow> event list \<Rightarrow> event list" where
  "clear_event st sid n i ev =
     (if i < n then
        (case ev_s (ev ! i) of
           None \<Rightarrow> clear_event st sid n (i + 1) ev
         | Some s \<Rightarrow> (if socket_invalid (slot st s) sid \<and> s_id (slot st s) = sid
                      then ev[i := (ev ! i)\<lparr>ev_s := None\<rparr>]
                      else clear_event st sid n (i + 1) ev))
      else ev)"
  by pat_completeness auto
termination
  by (relation "measure (\<lambda>(st, sid, n, i, ev). n - i)") auto

declare clear_event.simps [simp del]

definition clear_closed_event :: "'k sstate \<Rightarrow> int \<Rightarrow> 'k sstate" where
  "clear_closed_event st type =
     (if type = SOCKET_CLOSE \<or> type = SOCKET_ERR
      then st\<lparr>st_ss := (st_ss st)\<lparr>ss_ev :=
             clear_event st (so_id (st_res st)) (ss_event_n (st_ss st)) (ss_event_index (st_ss st)) (ss_ev (st_ss st))\<rparr>\<rparr>
      else st)"

definition set_index :: "'k sstate \<Rightarrow> nat \<Rightarrow> 'k sstate" where
  "set_index st n = st\<lparr>st_ss := (st_ss st)\<lparr>ss_event_index := n\<rparr>\<rparr>"

text \<open>
  The events of a socket that is neither connecting nor listening; -1 when the loop goes on.
  \<open>idx\<close> is the index of the event, already passed.
\<close>

definition socket_event :: "'k sys \<Rightarrow> world \<Rightarrow> 'k sstate \<Rightarrow> nat \<Rightarrow> nat \<Rightarrow> event \<Rightarrow> (int \<times> 'k sstate) option" where
  "socket_event sys w st idx i e =
     (if ev_read e then do {
        let tcp = (s_protocol (slot st i) = PROTOCOL_TCP);
        (type, st) \<leftarrow> (if tcp then forward_message_tcp sys st i 0 else forward_message_udp sys st i 0);
        if tcp \<and> type = SOCKET_MORE then Some (SOCKET_DATA, set_index st idx)
        else if \<not> tcp \<and> type = SOCKET_UDP then Some (SOCKET_UDP, set_index st idx)
        else if ev_write e \<and> type \<noteq> SOCKET_CLOSE \<and> type \<noteq> SOCKET_ERR then
          Some (type, set_index (st\<lparr>st_ss := (st_ss st)\<lparr>ss_ev := (ss_ev (st_ss st))[idx := e\<lparr>ev_read := False\<rparr>]\<rparr>\<rparr>) idx)
        else Some (type, st) }
      else if ev_write e then send_buffer sys w st i 0
      else if ev_error e then
        (let (r, k) = sys_getsockopt_error sys (s_fd (slot st i)) (st_k st);
             st = st\<lparr>st_k := k\<rparr>
         in Some (report_error st i (case r of
              Inl e \<Rightarrow> sys_strerror sys e
            | Inr (Some e) \<Rightarrow> sys_strerror sys e
            | Inr None \<Rightarrow> ''Unknown error'')))
      else if ev_eof e then do {
        let halfclose = halfclose_read (slot st i);
        st \<leftarrow> force_close sys st i 0;
        Some (if halfclose then -1 else SOCKET_CLOSE, st) }
      else Some (-1, st))"

text \<open>One event; -1 when the loop of \<open>socket_server_poll\<close> goes on.\<close>

definition poll_event :: "'k sys \<Rightarrow> world \<Rightarrow> 'k sstate \<Rightarrow> (int \<times> 'k sstate) option" where
  "poll_event sys w st = do {
     let idx = ss_event_index (st_ss st);
     let e = ss_ev (st_ss st) ! idx;
     let st = set_index st (idx + 1);
     case ev_s e of
       None \<Rightarrow> Some (-1, st)
     | Some i \<Rightarrow>
         (case s_type (slot st i) of
            SOCKET_TYPE_CONNECTING \<Rightarrow> report_connect sys st i 0
          | SOCKET_TYPE_LISTEN \<Rightarrow> do {
              (r, st) \<leftarrow> report_accept sys st i;
              Some (if r > 0 then SOCKET_ACCEPT else if r < 0 then SOCKET_ERR else -1, st) }
          | SOCKET_TYPE_INVALID \<Rightarrow> do {
              st \<leftarrow> socket_error w st ''socket-server: invalid socket'';
              Some (-1, st) }
          | _ \<Rightarrow> socket_event sys w st idx i e) }"

definition poll_wait :: "'k sys \<Rightarrow> world \<Rightarrow> 'k sstate \<Rightarrow> (bool \<times> 'k sstate) option" where
  "poll_wait sys w st =
     (let (r, k) = sp_wait sys MAX_EVENT (st_k st);
          evs = (case r of Inl _ \<Rightarrow> [] | Inr evs \<Rightarrow> evs);
          st = st\<lparr>st_k := k, st_ss := (st_ss st)\<lparr>ss_ev := (case r of Inl _ \<Rightarrow> ss_ev (st_ss st) | Inr evs \<Rightarrow> evs),
                                                ss_event_n := length evs, ss_checkctrl := True,
                                                ss_event_index := 0\<rparr>\<rparr>
      in if evs = [] then
           (if sys_errno sys k \<noteq> EINTR
            then map_option (Pair False) (socket_error w st (''socket-server: '' @ sys_strerror sys (sys_errno sys k)))
            else Some (False, st))
         else Some (True, st))"

text \<open>
  One iteration of the loop: the return value, -1 when the loop goes on, and whether
  \<open>sp_wait\<close> was called, which clears \<open>more\<close>.
\<close>

definition poll_step :: "'k sys \<Rightarrow> world \<Rightarrow> 'k sstate \<Rightarrow> (int \<times> bool \<times> 'k sstate) option" where
  "poll_step sys w st =
     (if ss_checkctrl (st_ss st) \<and> has_cmd st then do {
        (type, st) \<leftarrow> ctrl_cmd sys w st;
        Some (type, False, if type \<noteq> -1 then clear_closed_event st type else st) }
      else do {
        let st = st\<lparr>st_ss := (st_ss st)\<lparr>ss_checkctrl := False\<rparr>\<rparr>;
        if ss_event_index (st_ss st) = ss_event_n (st_ss st) then do {
          (ok, st) \<leftarrow> poll_wait sys w st;
          if ok then do {
            (type, st) \<leftarrow> poll_event sys w st;
            Some (type, True, st) }
          else Some (-1, True, st) }
        else do {
          (type, st) \<leftarrow> poll_event sys w st;
          Some (type, False, st) } })"

partial_function (option) socket_server_poll ::
  "'k sys \<Rightarrow> world \<Rightarrow> 'k sstate \<Rightarrow> bool \<Rightarrow> (int \<times> bool \<times> 'k sstate) option" where
  "socket_server_poll sys w st mr =
     Option.bind (poll_step sys w st) (\<lambda>(type, waited, st).
       (if type \<noteq> -1 then Some (type, mr \<and> \<not> waited, st)
        else socket_server_poll sys w st (mr \<and> \<not> waited)))"

subsection \<open>The interface to the other threads\<close>

definition REQUEST_OPEN_SIZE :: nat where
  "REQUEST_OPEN_SIZE = 24"

definition open_request :: "world \<Rightarrow> 'k sstate \<Rightarrow> string \<Rightarrow> (cint option \<times> 'k sstate) option" where
  "open_request w st addr =
     (if length addr + REQUEST_OPEN_SIZE \<ge> 256 then do {
        st \<leftarrow> socket_error w st (''socket-server : Invalid addr '' @ addr @ ''.'');
        Some (None, st) }
      else (let (sid, st) = reserve_id st in Some (if sint sid < 0 then None else Some sid, st)))"

definition socket_server_connect :: "world \<Rightarrow> 'k sstate \<Rightarrow> u64 \<Rightarrow> string \<Rightarrow> int \<Rightarrow> (cint \<times> 'k sstate) option" where
  "socket_server_connect w st opaque addr port = do {
     (r, st) \<leftarrow> open_request w st addr;
     case r of
       None \<Rightarrow> Some (- 1, st)
     | Some sid \<Rightarrow> Some (sid, send_request st (Req_O sid port opaque addr)) }"

definition socket_server_exit :: "'k sstate \<Rightarrow> 'k sstate" where
  "socket_server_exit st = send_request st Req_X"

definition socket_server_close :: "'k sstate \<Rightarrow> u64 \<Rightarrow> cint \<Rightarrow> 'k sstate" where
  "socket_server_close st opaque sid = send_request st (Req_K sid False opaque)"

definition socket_server_shutdown :: "'k sstate \<Rightarrow> u64 \<Rightarrow> cint \<Rightarrow> 'k sstate" where
  "socket_server_shutdown st opaque sid = send_request st (Req_K sid True opaque)"

text \<open>The descriptor and the family of a bound socket; \<open>tcp\<close> is the protocol.\<close>

definition do_bind :: "'k sys \<Rightarrow> string option \<Rightarrow> int \<Rightarrow> bool \<Rightarrow> 'k \<Rightarrow> (int \<times> nat) option \<times> 'k" where
  "do_bind sys host port tcp k =
     (let host = (case host of None \<Rightarrow> ''0.0.0.0'' | Some s \<Rightarrow> if s = [] then ''0.0.0.0'' else s)
      in case sys_getaddrinfo sys host (fmt_d port) tcp k of
           (Inl _, k) \<Rightarrow> (None, k)
         | (Inr [], k) \<Rightarrow> (None, k)
         | (Inr (ai # _), k) \<Rightarrow>
             (case sys_socket sys (sa_family ai) tcp k of
                (Inl _, k) \<Rightarrow> (None, k)
              | (Inr fd, k) \<Rightarrow>
                  (let (err, k) = sys_reuseaddr sys fd k
                   in if err then (None, sys_close sys fd k)
                      else (let (err, k) = sys_bind sys fd ai k
                            in if err then (None, sys_close sys fd k) else (Some (fd, sa_family ai), k)))))"

definition do_listen :: "'k sys \<Rightarrow> string option \<Rightarrow> int \<Rightarrow> int \<Rightarrow> 'k \<Rightarrow> int option \<times> 'k" where
  "do_listen sys host port backlog k =
     (case do_bind sys host port True k of
        (None, k) \<Rightarrow> (None, k)
      | (Some (fd, _), k) \<Rightarrow>
          (let (err, k) = sys_listen sys fd backlog k
           in if err then (None, sys_close sys fd k) else (Some fd, k)))"

definition socket_server_listen ::
  "'k sys \<Rightarrow> 'k sstate \<Rightarrow> u64 \<Rightarrow> string option \<Rightarrow> int \<Rightarrow> int \<Rightarrow> cint \<times> 'k sstate" where
  "socket_server_listen sys st opaque addr port backlog =
     (case do_listen sys addr port backlog (st_k st) of
        (None, k) \<Rightarrow> (- 1, st\<lparr>st_k := k\<rparr>)
      | (Some fd, k) \<Rightarrow>
          (let (sid, st) = reserve_id (st\<lparr>st_k := k\<rparr>)
           in if sint sid < 0 then (sid, st\<lparr>st_k := sys_close sys fd (st_k st)\<rparr>)
              else (sid, send_request st (Req_L sid fd opaque))))"

definition socket_server_bind :: "'k sstate \<Rightarrow> u64 \<Rightarrow> int \<Rightarrow> cint \<times> 'k sstate" where
  "socket_server_bind st opaque fd =
     (let (sid, st) = reserve_id st
      in if sint sid < 0 then (- 1, st) else (sid, send_request st (Req_B sid fd opaque)))"

definition socket_server_start :: "'k sstate \<Rightarrow> u64 \<Rightarrow> cint \<Rightarrow> 'k sstate" where
  "socket_server_start st opaque sid = send_request st (Req_R sid opaque)"

definition socket_server_pause :: "'k sstate \<Rightarrow> u64 \<Rightarrow> cint \<Rightarrow> 'k sstate" where
  "socket_server_pause st opaque sid = send_request st (Req_S sid opaque)"

definition TCP_NODELAY :: int where
  "TCP_NODELAY = 1"

definition socket_server_nodelay :: "'k sstate \<Rightarrow> cint \<Rightarrow> 'k sstate" where
  "socket_server_nodelay st sid = send_request st (Req_T sid TCP_NODELAY 1)"

definition socket_server_userobject :: "'k sstate \<Rightarrow> 'k sstate" where
  "socket_server_userobject st = st\<lparr>st_ss := (st_ss st)\<lparr>ss_soi := True\<rparr>\<rparr>"

definition socket_server_updatetime :: "'k sstate \<Rightarrow> u64 \<Rightarrow> 'k sstate" where
  "socket_server_updatetime st t = st\<lparr>st_ss := (st_ss st)\<lparr>ss_time := t\<rparr>\<rparr>"

subsection \<open>UDP sockets\<close>

definition socket_server_udp :: "'k sys \<Rightarrow> 'k sstate \<Rightarrow> u64 \<Rightarrow> string option \<Rightarrow> int \<Rightarrow> cint \<times> 'k sstate" where
  "socket_server_udp sys st opaque addr port =
     (let (r, k) = (if port \<noteq> 0 \<or> addr \<noteq> None then do_bind sys addr port False (st_k st)
                    else (case sys_socket sys AF_INET False (st_k st) of
                            (Inl _, k) \<Rightarrow> (None, k)
                          | (Inr fd, k) \<Rightarrow> (Some (fd, AF_INET), k)))
      in case r of
           None \<Rightarrow> (- 1, st\<lparr>st_k := k\<rparr>)
         | Some (fd, family) \<Rightarrow>
             (let (sid, st) = reserve_id (st\<lparr>st_k := sys_nonblocking sys fd k\<rparr>)
              in if sint sid < 0 then (- 1, st\<lparr>st_k := sys_close sys fd (st_k st)\<rparr>)
                 else (sid, send_request st (Req_U sid fd family opaque))))"

definition socket_server_udp_send ::
  "'k sys \<Rightarrow> 'k sstate \<Rightarrow> string \<Rightarrow> socket_sendbuffer \<Rightarrow> (int \<times> 'k sstate) option" where
  "socket_server_udp_send sys st udp_address buf = do {
     let sid = sb_id buf;
     let h = HASH_ID sid;
     let addrsz = (if byte_at udp_address 0 = PROTOCOL_UDP then 7 else 19);
     let queue = (\<lambda>st. do {
       (p, sz, st) \<leftarrow> clone_buffer st buf;
       Some (0, send_request st (Req_A sid p sz (take addrsz udp_address))) });
     if socket_invalid (slot st h) sid
        \<or> (byte_at udp_address 0 \<noteq> PROTOCOL_UDP \<and> byte_at udp_address 0 \<noteq> PROTOCOL_UDPv6) then do {
       st \<leftarrow> free_buffer sys st buf;
       Some (-1, st) }
     else
       (case (if can_direct_write (slot st h) sid then socket_trylock st h 0 else (False, st, 0)) of
          (False, st, _) \<Rightarrow> queue st
        | (True, st, l) \<Rightarrow> do {
            so \<leftarrow> send_object_init_from_sendbuffer sys st buf;
            case udp_socket_address (slot st h) udp_address of
              None \<Rightarrow> do {
                (st, _) \<leftarrow> socket_unlock st h l;
                st \<leftarrow> run_free sys st (sob_free so) (sb_buffer buf);
                Some (-1, st) }
            | Some sa \<Rightarrow> do {
                bs \<leftarrow> mem_load (st_nd st) (sob_buffer so, 0) (sob_sz so);
                let (r, k) = sys_sendto sys (s_fd (slot st h)) bs sa (st_k st);
                let st = st\<lparr>st_k := k\<rparr>;
                case r of
                  Inr n \<Rightarrow> do {
                    (st, _) \<leftarrow> socket_unlock (stat_write st h n) h l;
                    st \<leftarrow> run_free sys st (sob_free so) (sb_buffer buf);
                    Some (0, st) }
                | Inl _ \<Rightarrow> do {
                    (st, _) \<leftarrow> socket_unlock st h l;
                    queue st } } }) }"

definition socket_server_udp_connect :: "'k sys \<Rightarrow> 'k sstate \<Rightarrow> cint \<Rightarrow> string \<Rightarrow> int \<Rightarrow> (int \<times> 'k sstate) option" where
  "socket_server_udp_connect sys st sid addr port = do {
     let h = HASH_ID sid;
     if socket_invalid (slot st h) sid then Some (-1, st)
     else do {
       (st, l) \<leftarrow> socket_lock st h 0;
       (st, _) \<leftarrow> socket_unlock (upd_slot st h (\<lambda>s. s\<lparr>s_udpconnecting := s_udpconnecting s + 1\<rparr>)) h l;
       let (r, k) = sys_getaddrinfo sys addr (fmt_d port) False (st_k st);
       let st = st\<lparr>st_k := k\<rparr>;
       case r of
         Inr (ai # _) \<Rightarrow>
           (if sa_family ai = AF_INET then Some (0, send_request st (Req_C sid (gen_udp_address PROTOCOL_UDP ai)))
            else if sa_family ai = AF_INET6 then Some (0, send_request st (Req_C sid (gen_udp_address PROTOCOL_UDPv6 ai)))
            else Some (-1, st))
       | _ \<Rightarrow> Some (-1, st) } }"

text \<open>The address behind the \<open>ud\<close> bytes of a UDP message.\<close>

definition socket_server_udp_address :: "string \<Rightarrow> nat \<Rightarrow> string option" where
  "socket_server_udp_address data ud =
     (let address = drop ud data; type = byte_at address 0
      in if type = PROTOCOL_UDP then Some (take 7 address)
         else if type = PROTOCOL_UDPv6 then Some (take 19 address)
         else None)"

subsection \<open>Information\<close>

datatype info_type =
  SOCKET_INFO_UNKNOWN | SOCKET_INFO_LISTEN | SOCKET_INFO_TCP | SOCKET_INFO_UDP | SOCKET_INFO_BIND | SOCKET_INFO_CLOSING

record socket_info =
  si_id :: cint
  si_type :: info_type
  si_opaque :: u64
  si_stat :: socket_stat
  si_wbuffer :: int
  si_reading :: bool
  si_writing :: bool
  si_name :: "string option"

text \<open>The name is \<open>None\<close> when the code leaves the field as it was.\<close>

definition info_name :: "'k sys \<Rightarrow> sockaddr option \<Rightarrow> string option" where
  "info_name sys u =
     map_option (\<lambda>u. case getname sys u MAX_INFO of None \<Rightarrow> [] | Some n \<Rightarrow> n) u"

definition query_info :: "'k sys \<Rightarrow> 'k sstate \<Rightarrow> nat \<Rightarrow> socket_info option" where
  "query_info sys st i =
     (let s = slot st i;
          info = (\<lambda>t n. Some \<lparr>si_id = s_id s, si_type = t, si_opaque = s_opaque s, si_stat = s_stat s,
                             si_wbuffer = s_wb_size s, si_reading = s_reading s, si_writing = s_writing s, si_name = n\<rparr>);
          connected = (\<lambda>closing.
            if s_protocol s = PROTOCOL_TCP
            then info (if closing then SOCKET_INFO_CLOSING else SOCKET_INFO_TCP)
                      (info_name sys (sys_getpeername sys (s_fd s) (st_k st)))
            else info SOCKET_INFO_UDP (info_name sys (udp_socket_address s (s_udp_address s))))
      in case s_type s of
           SOCKET_TYPE_BIND \<Rightarrow> info SOCKET_INFO_BIND (Some [])
         | SOCKET_TYPE_LISTEN \<Rightarrow> info SOCKET_INFO_LISTEN (info_name sys (sys_getsockname sys (s_fd s) (st_k st)))
         | SOCKET_TYPE_HALFCLOSE_READ \<Rightarrow> connected True
         | SOCKET_TYPE_HALFCLOSE_WRITE \<Rightarrow> connected True
         | SOCKET_TYPE_CONNECTED \<Rightarrow> connected False
         | _ \<Rightarrow> None)"

definition socket_server_info :: "'k sys \<Rightarrow> 'k sstate \<Rightarrow> socket_info list" where
  "socket_server_info sys st = rev (List.map_filter (query_info sys st) [0..<MAX_SOCKET])"

subsection \<open>Creation and release\<close>

definition unused_socket :: "socket \<Rightarrow> socket" where
  "unused_socket s = s\<lparr>s_type := SOCKET_TYPE_INVALID, s_high := [], s_low := [], s_dw_lock := False\<rparr>"

text \<open>
  \<open>mem\<close> is the content of the memory block of the server before its fields are set. The
  event pool and the pipe exist.
\<close>

definition socket_server_create :: "u64 \<Rightarrow> socket_server \<Rightarrow> socket_server" where
  "socket_server_create t mem =
     mem\<lparr>ss_time := t, ss_checkctrl := True, ss_alloc_id := 0, ss_event_n := 0, ss_event_index := 0,
         ss_slot := (\<lambda>i. unused_socket (ss_slot mem i)), ss_pipe := [], ss_soi := False\<rparr>"

fun release_loop :: "'k sys \<Rightarrow> 'k sstate \<Rightarrow> nat list \<Rightarrow> 'k sstate option" where
  "release_loop sys st [] = Some st"
| "release_loop sys st (i # is) = do {
     st \<leftarrow> (if s_type (slot st i) \<noteq> SOCKET_TYPE_RESERVE then force_close sys st i 0 else Some st);
     release_loop sys st is }"

definition socket_server_release :: "'k sys \<Rightarrow> 'k sstate \<Rightarrow> 'k sstate option" where
  "socket_server_release sys st = release_loop sys st [0..<MAX_SOCKET]"

subsection \<open>skynet_socket.c\<close>

definition SKYNET_SOCKET_TYPE_DATA :: cint where "SKYNET_SOCKET_TYPE_DATA = 1"
definition SKYNET_SOCKET_TYPE_CONNECT :: cint where "SKYNET_SOCKET_TYPE_CONNECT = 2"
definition SKYNET_SOCKET_TYPE_CLOSE :: cint where "SKYNET_SOCKET_TYPE_CLOSE = 3"
definition SKYNET_SOCKET_TYPE_ACCEPT :: cint where "SKYNET_SOCKET_TYPE_ACCEPT = 4"
definition SKYNET_SOCKET_TYPE_ERROR :: cint where "SKYNET_SOCKET_TYPE_ERROR = 5"
definition SKYNET_SOCKET_TYPE_UDP :: cint where "SKYNET_SOCKET_TYPE_UDP = 6"
definition SKYNET_SOCKET_TYPE_WARNING :: cint where "SKYNET_SOCKET_TYPE_WARNING = 7"

text \<open>The switch of \<open>skynet_socket_poll\<close>: the type of the message and the padding.\<close>

definition socket_message_type :: "int \<Rightarrow> (cint \<times> bool) option" where
  "socket_message_type type =
     (if type = SOCKET_DATA then Some (SKYNET_SOCKET_TYPE_DATA, False)
      else if type = SOCKET_CLOSE then Some (SKYNET_SOCKET_TYPE_CLOSE, False)
      else if type = SOCKET_OPEN then Some (SKYNET_SOCKET_TYPE_CONNECT, True)
      else if type = SOCKET_ERR then Some (SKYNET_SOCKET_TYPE_ERROR, True)
      else if type = SOCKET_ACCEPT then Some (SKYNET_SOCKET_TYPE_ACCEPT, True)
      else if type = SOCKET_UDP then Some (SKYNET_SOCKET_TYPE_UDP, False)
      else if type = SOCKET_WARNING then Some (SKYNET_SOCKET_TYPE_WARNING, False)
      else None)"

definition skynet_socket_poll :: "'k sys \<Rightarrow> world \<Rightarrow> 'k sstate \<Rightarrow> (int \<times> 'k sstate) option" where
  "skynet_socket_poll sys w st = do {
     (type, mr, st) \<leftarrow> socket_server_poll sys w st True;
     if type = SOCKET_EXIT then Some (0, st)
     else (case socket_message_type type of
             None \<Rightarrow> do {
               st \<leftarrow> socket_error w st (''Unknown socket message type '' @ fmt_d type @ ''.'');
               Some (-1, st) }
           | Some (t, padding) \<Rightarrow> do {
               nd \<leftarrow> forward_message w (st_nd st) t padding (st_res st);
               Some (if mr then -1 else 1, st\<lparr>st_nd := nd\<rparr>) }) }"

definition context_source :: "'k sstate \<Rightarrow> ptr \<Rightarrow> u64 option" where
  "context_source st c = map_option ucast (skynet_context_handle (st_nd st) c)"

definition skynet_socket_listen ::
  "'k sys \<Rightarrow> 'k sstate \<Rightarrow> ptr \<Rightarrow> string option \<Rightarrow> int \<Rightarrow> int \<Rightarrow> (cint \<times> 'k sstate) option" where
  "skynet_socket_listen sys st c host port backlog = do {
     source \<leftarrow> context_source st c;
     Some (socket_server_listen sys st source host port backlog) }"

definition skynet_socket_connect :: "world \<Rightarrow> 'k sstate \<Rightarrow> ptr \<Rightarrow> string \<Rightarrow> int \<Rightarrow> (cint \<times> 'k sstate) option" where
  "skynet_socket_connect w st c host port = do {
     source \<leftarrow> context_source st c;
     socket_server_connect w st source host port }"

definition skynet_socket_bind :: "'k sstate \<Rightarrow> ptr \<Rightarrow> int \<Rightarrow> (cint \<times> 'k sstate) option" where
  "skynet_socket_bind st c fd = do {
     source \<leftarrow> context_source st c;
     Some (socket_server_bind st source fd) }"

definition skynet_socket_close :: "'k sstate \<Rightarrow> ptr \<Rightarrow> cint \<Rightarrow> 'k sstate option" where
  "skynet_socket_close st c sid = do {
     source \<leftarrow> context_source st c;
     Some (socket_server_close st source sid) }"

definition skynet_socket_shutdown :: "'k sstate \<Rightarrow> ptr \<Rightarrow> cint \<Rightarrow> 'k sstate option" where
  "skynet_socket_shutdown st c sid = do {
     source \<leftarrow> context_source st c;
     Some (socket_server_shutdown st source sid) }"

definition skynet_socket_start :: "'k sstate \<Rightarrow> ptr \<Rightarrow> cint \<Rightarrow> 'k sstate option" where
  "skynet_socket_start st c sid = do {
     source \<leftarrow> context_source st c;
     Some (socket_server_start st source sid) }"

definition skynet_socket_pause :: "'k sstate \<Rightarrow> ptr \<Rightarrow> cint \<Rightarrow> 'k sstate option" where
  "skynet_socket_pause st c sid = do {
     source \<leftarrow> context_source st c;
     Some (socket_server_pause st source sid) }"

definition skynet_socket_udp :: "'k sys \<Rightarrow> 'k sstate \<Rightarrow> ptr \<Rightarrow> string option \<Rightarrow> int \<Rightarrow> (cint \<times> 'k sstate) option" where
  "skynet_socket_udp sys st c addr port = do {
     source \<leftarrow> context_source st c;
     Some (socket_server_udp sys st source addr port) }"

definition skynet_socket_udp_address :: "node \<Rightarrow> skynet_socket_message \<Rightarrow> string option" where
  "skynet_socket_udp_address nd msg =
     (if ssm_type msg \<noteq> SKYNET_SOCKET_TYPE_UDP then None
      else do {
        p \<leftarrow> ssm_buffer msg;
        case nd_mem nd p of
          Some (Bytes data) \<Rightarrow> socket_server_udp_address data (unat (ssm_ud msg))
        | _ \<Rightarrow> None })"

end
