(* ===== verification/Skynet_Socket_Stream.thy ===== *)
theory Skynet_Socket_Stream
  imports Skynet_Socket_Server
begin

text \<open>
  The stream of a TCP connection, from the calls of \<open>socket_server_send\<close> in the worker
  threads through the control pipe and the write buffers to the kernel. The interface to the
  kernel is the predicate \<open>write_ok\<close>: \<open>write\<close> takes a prefix of the bytes or fails, and is
  not interrupted forever.
\<close>

subsection \<open>Writing a list of buffers\<close>

type_synonym heap = "ptr \<Rightarrow> cdata option"

definition wb_data :: "heap \<Rightarrow> write_buffer \<Rightarrow> string" where
  "wb_data m wb = (case m (wb_buffer wb) of Some (Bytes bs) \<Rightarrow> take (wb_sz wb) (drop (snd (wb_ptr wb)) bs) | _ \<Rightarrow> [])"

definition wb_valid :: "heap \<Rightarrow> write_buffer \<Rightarrow> bool" where
  "wb_valid m wb \<longleftrightarrow> \<not> wb_userobject wb \<and> fst (wb_ptr wb) = wb_buffer wb
     \<and> (\<exists>bs. m (wb_buffer wb) = Some (Bytes bs) \<and> snd (wb_ptr wb) + wb_sz wb \<le> length bs)"

definition wbs_data :: "heap \<Rightarrow> write_buffer list \<Rightarrow> string" where
  "wbs_data m wbs = concat (map (wb_data m) wbs)"

abbreviation wbs_size :: "write_buffer list \<Rightarrow> int" where
  "wbs_size wbs \<equiv> int (sum_list (map wb_sz wbs))"

definition write_ok :: "'k sys \<Rightarrow> ('k \<Rightarrow> int \<Rightarrow> string) \<Rightarrow> ('k \<Rightarrow> nat) \<Rightarrow> bool" where
  "write_ok sys out rank \<longleftrightarrow>
     (\<forall>fd bs k r k'. sys_write sys fd bs k = (r, k') \<longrightarrow>
        (case r of
           Inr n \<Rightarrow> n \<le> length bs \<and> out k' = (out k)(fd := out k fd @ take n bs)
         | Inl e \<Rightarrow> out k' = out k \<and> (e = EINTR \<longrightarrow> rank k' < rank k)))
     \<and> (\<forall>fd i ev k. out (snd (sys_epoll_mod sys fd i ev k)) = out k)
     \<and> (\<forall>fd k. out (sys_shutdown_wr sys fd k) = out k)"

lemma write_retry_ok:
  assumes "write_ok sys out rank"
  shows "\<exists>r k'. write_retry sys fd bs k = Some (r, k') \<and> r \<noteq> Inl EINTR
     \<and> (case r of Inr n \<Rightarrow> n \<le> length bs \<and> out k' = (out k)(fd := out k fd @ take n bs)
                | Inl e \<Rightarrow> out k' = out k)"
proof (induction "rank k" arbitrary: k rule: less_induct)
  case less
  obtain r k1 where w: "sys_write sys fd bs k = (r, k1)" by fastforce
  have law: "case r of Inr n \<Rightarrow> n \<le> length bs \<and> out k1 = (out k)(fd := out k fd @ take n bs)
     | Inl e \<Rightarrow> out k1 = out k \<and> (e = EINTR \<longrightarrow> rank k1 < rank k)"
    using assms w unfolding write_ok_def by blast
  show ?case
  proof (cases "r = Inl EINTR")
    case True
    then have "write_retry sys fd bs k = write_retry sys fd bs k1"
      by (subst write_retry.simps) (simp add: w)
    moreover have o: "out k1 = out k" "rank k1 < rank k" using law True by simp_all
    ultimately show ?thesis using less.hyps [OF o(2)] unfolding o(1) by simp
  next
    case False
    then have "write_retry sys fd bs k = Some (r, k1)"
      by (subst write_retry.simps) (simp add: w split: sum.split errno.split)
    then show ?thesis using law False by (auto split: sum.splits)
  qed
qed

text \<open>The state after a part of a list was written: memory, kernel, list, size and statistics.\<close>

definition adv :: "'k sstate \<Rightarrow> nat \<Rightarrow> priority \<Rightarrow> heap \<Rightarrow> 'k \<Rightarrow> write_buffer list \<Rightarrow> int \<Rightarrow> socket_stat \<Rightarrow> 'k sstate" where
  "adv st i pr m k wbs n t =
     st\<lparr>st_k := k,
        st_ss := (st_ss st)\<lparr>ss_slot := (ss_slot (st_ss st))(i :=
          set_wb_list pr wbs ((slot st i)\<lparr>s_stat := t, s_wb_size := n\<rparr>))\<rparr>,
        st_nd := (st_nd st)\<lparr>nd_mem := m\<rparr>\<rparr>"

lemma set_wb_list_simps [simp]:
  "wb_list pr (set_wb_list pr wbs s) = wbs"
  "s_wb_size (set_wb_list pr wbs s) = s_wb_size s" "s_stat (set_wb_list pr wbs s) = s_stat s"
  "s_fd (set_wb_list pr wbs s) = s_fd s" "s_type (set_wb_list pr wbs s) = s_type s"
  "s_closing (set_wb_list pr wbs s) = s_closing s" "s_id (set_wb_list pr wbs s) = s_id s"
  "s_protocol (set_wb_list pr wbs s) = s_protocol s"
  "set_wb_list pr wbs (set_wb_list pr wbs' s) = set_wb_list pr wbs s"
  "set_wb_list pr (wb_list pr s) s = s"
  by (simp_all add: set_wb_list_def wb_list_def split: priority.split)

lemma set_wb_list_commute:
  "set_wb_list pr wbs (s\<lparr>s_wb_size := n\<rparr>) = (set_wb_list pr wbs s)\<lparr>s_wb_size := n\<rparr>"
  "set_wb_list pr wbs (s\<lparr>s_stat := t\<rparr>) = (set_wb_list pr wbs s)\<lparr>s_stat := t\<rparr>"
  by (simp_all add: set_wb_list_def split: priority.split)

lemma adv_simps [simp]:
  "st_nd (adv st i pr m k wbs n t) = (st_nd st)\<lparr>nd_mem := m\<rparr>"
  "st_k (adv st i pr m k wbs n t) = k"
  "slot (adv st i pr m k wbs n t) j = (if j = i then set_wb_list pr wbs ((slot st i)\<lparr>s_stat := t, s_wb_size := n\<rparr>) else slot st j)"
  by (simp_all add: adv_def)

lemma adv_adv [simp]: "adv (adv st i pr m k wbs n t) i pr m' k' wbs' n' t' = adv st i pr m' k' wbs' n' t'"
  by (simp add: adv_def set_wb_list_commute)

lemma adv_refl:
  "adv st i pr (nd_mem (st_nd st)) (st_k st) (wb_list pr (slot st i)) (s_wb_size (slot st i)) (s_stat (slot st i)) = st"
  by (simp add: adv_def)

text \<open>
  What writing a part of the list \<open>wbs\<close> of socket \<open>i\<close> does: the list that remains, the
  memory, the kernel and the size of the buffers; the first \<open>j\<close> buffers are freed.
\<close>

definition wrote ::
  "('k \<Rightarrow> int \<Rightarrow> string) \<Rightarrow> 'k sstate \<Rightarrow> nat \<Rightarrow> write_buffer list \<Rightarrow> heap \<Rightarrow> 'k \<Rightarrow> write_buffer list \<Rightarrow> int \<Rightarrow> nat \<Rightarrow> bool" where
  "wrote out st i wbs m k wbs' n j \<longleftrightarrow>
     out k (s_fd (slot st i)) @ wbs_data m wbs' = out (st_k st) (s_fd (slot st i)) @ wbs_data (nd_mem (st_nd st)) wbs
     \<and> (\<forall>fd. fd \<noteq> s_fd (slot st i) \<longrightarrow> out k fd = out (st_k st) fd)
     \<and> (\<forall>wb \<in> set wbs'. wb_valid m wb)
     \<and> map wb_buffer wbs' = drop j (map wb_buffer wbs) \<and> tl wbs' = drop (Suc j) wbs
     \<and> (\<forall>p. m p = (if p \<in> set (take j (map wb_buffer wbs)) then None else nd_mem (st_nd st) p))
     \<and> n = s_wb_size (slot st i) - wbs_size wbs + wbs_size wbs'"

lemma send_tcp_spec:
  assumes "write_ok sys out rank"
    and "wb_list pr (slot st i) = wbs"
    and "\<forall>wb \<in> set wbs. wb_valid (nd_mem (st_nd st)) wb"
    and "distinct (map wb_buffer wbs)"
  shows "\<exists>m k wbs' n t j. wrote out st i wbs m k wbs' n j \<and>
     (send_tcp sys st i pr l wbs = Some (-1, adv st i pr m k wbs' n t)
      \<or> send_tcp sys st i pr l wbs = close_write sys (adv st i pr m k wbs' n t) i l \<and> wbs' = drop j wbs)"
  using assms(2-)
proof (induction wbs arbitrary: st)
  case Nil
  have "wrote out st i [] (nd_mem (st_nd st)) (st_k st) [] (s_wb_size (slot st i)) 0" by (simp add: wrote_def)
  moreover have "send_tcp sys st i pr l [] = Some (-1, adv st i pr (nd_mem (st_nd st)) (st_k st) [] (s_wb_size (slot st i)) (s_stat (slot st i)))"
    using adv_refl [of st i pr] Nil.prems by simp
  ultimately show ?case by blast
next
  case (Cons tmp rest)
  let ?m = "nd_mem (st_nd st)" and ?s = "slot st i" and ?fd = "s_fd (slot st i)"
  obtain bs where wb: "\<not> wb_userobject tmp" "fst (wb_ptr tmp) = wb_buffer tmp" "?m (wb_buffer tmp) = Some (Bytes bs)"
      "snd (wb_ptr tmp) + wb_sz tmp \<le> length bs"
    using Cons.prems(2) by (auto simp: wb_valid_def)
  define d where "d = take (wb_sz tmp) (drop (snd (wb_ptr tmp)) bs)"
  have d: "wb_data ?m tmp = d" "length d = wb_sz tmp"
    using wb by (simp_all add: wb_data_def d_def)
  have load: "mem_load (st_nd st) (wb_ptr tmp) (wb_sz tmp) = Some d"
    using wb by (simp add: mem_load_def d_def)
  obtain r k where w: "write_retry sys ?fd d (st_k st) = Some (r, k)" "r \<noteq> Inl EINTR"
    and law: "case r of Inr n \<Rightarrow> n \<le> length d \<and> out k = (out (st_k st))(?fd := out (st_k st) ?fd @ take n d)
                | Inl e \<Rightarrow> out k = out (st_k st)"
    using write_retry_ok [OF assms(1), of ?fd d "st_k st"] by blast
  show ?case
  proof (cases r)
    case (Inl e)
    let ?st = "adv st i pr ?m k (tmp # rest) (s_wb_size ?s) (s_stat ?s)"
    have "set_wb_list pr (tmp # rest) ?s = ?s" unfolding Cons.prems(1) [symmetric] by simp
    then have st: "st\<lparr>st_k := k\<rparr> = ?st" by (simp add: adv_def)
    have "send_tcp sys st i pr l (tmp # rest) = (if e = EAGAIN then Some (-1, ?st) else close_write sys ?st i l)"
      by (simp add: load w Inl flip: st)
    moreover have "out k = out (st_k st)" using law by (simp add: Inl)
    then have "wrote out st i (tmp # rest) ?m k (tmp # rest) (s_wb_size ?s) 0"
      using Cons.prems(2) by (simp add: wrote_def)
    moreover have "tmp # rest = drop 0 (tmp # rest)" by simp
    ultimately show ?thesis by metis
  next
    case (Inr sz)
    have sz: "sz \<le> wb_sz tmp" and out: "out k = (out (st_k st))(?fd := out (st_k st) ?fd @ take sz d)"
      using law d by (simp_all add: Inr)
    define t where "t = (s_stat ?s)\<lparr>stat_wbytes := stat_wbytes (s_stat ?s) + word_of_nat sz, stat_wtime := ss_time (st_ss st)\<rparr>"
    define n where "n = s_wb_size ?s - int sz"
    show ?thesis
    proof (cases "sz = wb_sz tmp")
      case False
      let ?tmp = "tmp\<lparr>wb_ptr := (fst (wb_ptr tmp), snd (wb_ptr tmp) + sz), wb_sz := wb_sz tmp - sz\<rparr>"
      have "send_tcp sys st i pr l (tmp # rest) = Some (-1, adv st i pr ?m k (?tmp # rest) n t)"
        using False by (simp add: load w Inr adv_def stat_write_def upd_slot_def t_def n_def)
      moreover have "wb_data ?m ?tmp = drop sz d" using wb by (simp add: wb_data_def d_def drop_take add.commute)
      then have stream: "out k ?fd @ wbs_data ?m (?tmp # rest) = out (st_k st) ?fd @ wbs_data ?m (tmp # rest)"
        using d by (simp add: wbs_data_def out)
      have "wb_valid ?m ?tmp" using wb sz by (auto simp: wb_valid_def)
      then have "wrote out st i (tmp # rest) ?m k (?tmp # rest) n 0"
        unfolding wrote_def using stream sz out Cons.prems(2) by (simp add: n_def)
      ultimately show ?thesis by blast
    next
      case True
      let ?m1 = "?m(wb_buffer tmp := None)"
      let ?st1 = "adv st i pr ?m1 k rest n t"
      have fin: "send_tcp sys st i pr l (tmp # rest) = send_tcp sys ?st1 i pr l rest"
        using True wb by (simp add: load w Inr adv_def stat_write_def upd_slot_def t_def n_def write_buffer_free_def run_free_def skynet_free_def)
      have notin: "wb_buffer tmp \<notin> set (map wb_buffer rest)" using Cons.prems(3) by simp
      have val: "wb_valid ?m1 x = wb_valid ?m x" and dat: "wb_data ?m1 x = wb_data ?m x" if "x \<in> set rest" for x
      proof -
        have "wb_buffer x \<noteq> wb_buffer tmp" using that notin by (metis image_eqI list.set_map)
        then have "?m1 (wb_buffer x) = ?m (wb_buffer x)" by simp
        then show "wb_valid ?m1 x = wb_valid ?m x" "wb_data ?m1 x = wb_data ?m x"
          unfolding wb_valid_def wb_data_def by simp_all
      qed
      have "wbs_data ?m1 rest = wbs_data ?m rest" 
        unfolding wbs_data_def by (intro arg_cong [where f = concat] map_cong refl) (rule dat)
      moreover have "out k ?fd = out (st_k st) ?fd @ d" using d out True by simp
      ultimately have stream: "out k ?fd @ wbs_data ?m1 rest = out (st_k st) ?fd @ wbs_data ?m (tmp # rest)"
        using d by (simp add: wbs_data_def)
      have "\<exists>m' k' wbs' n' t' j. wrote out ?st1 i rest m' k' wbs' n' j \<and>
         (send_tcp sys ?st1 i pr l rest = Some (-1, adv ?st1 i pr m' k' wbs' n' t')
          \<or> send_tcp sys ?st1 i pr l rest = close_write sys (adv ?st1 i pr m' k' wbs' n' t') i l \<and> wbs' = drop j rest)"
      proof (rule Cons.IH)
        show "\<forall>wb \<in> set rest. wb_valid (nd_mem (st_nd ?st1)) wb" using Cons.prems(2) val by simp
      qed (use Cons.prems(3) in simp_all)
      then obtain m' k' wbs' n' t' j where IH: "wrote out ?st1 i rest m' k' wbs' n' j" and
        res: "send_tcp sys ?st1 i pr l rest = Some (-1, adv st i pr m' k' wbs' n' t')
          \<or> send_tcp sys ?st1 i pr l rest = close_write sys (adv st i pr m' k' wbs' n' t') i l \<and> wbs' = drop j rest"
        unfolding adv_adv by blast
      have "wrote out st i (tmp # rest) m' k' wbs' n' (Suc j)"
        using IH stream out True notin unfolding wrote_def by (simp add: n_def)
      moreover have "drop j rest = drop (Suc j) (tmp # rest)" by simp
      ultimately show ?thesis unfolding fin using res by metis
    qed
  qed
qed


subsection \<open>The buffers of a socket\<close>

definition owned :: "socket \<Rightarrow> ptr list" where
  "owned s = (case s_dw_buffer s of None \<Rightarrow> [] | Some p \<Rightarrow> [p]) @ map wb_buffer (s_high s) @ map wb_buffer (s_low s)"

definition dw_data :: "heap \<Rightarrow> socket \<Rightarrow> string" where
  "dw_data m s =
     (case s_dw_buffer s of
        None \<Rightarrow> []
      | Some p \<Rightarrow> (case m p of
                     Some (Bytes bs) \<Rightarrow> take (unat (s_dw_size s) - s_dw_offset s) (drop (s_dw_offset s) bs)
                   | _ \<Rightarrow> []))"

definition dw_valid :: "heap \<Rightarrow> socket \<Rightarrow> bool" where
  "dw_valid m s \<longleftrightarrow> (\<forall>p. s_dw_buffer s = Some p \<longrightarrow> s_dw_size s \<noteq> USEROBJECT
     \<and> (\<exists>bs. m p = Some (Bytes bs) \<and> unat (s_dw_size s) \<le> length bs) \<and> s_dw_offset s \<le> unat (s_dw_size s))"

definition bufs_ok :: "heap \<Rightarrow> socket \<Rightarrow> bool" where
  "bufs_ok m s \<longleftrightarrow>
     s_protocol s = PROTOCOL_TCP
     \<and> (\<forall>wb \<in> set (s_high s). wb_valid m wb) \<and> (\<forall>wb \<in> set (s_low s). wb_valid m wb)
     \<and> s_wb_size s = wbs_size (s_high s) + wbs_size (s_low s)
     \<and> distinct (owned s) \<and> dw_valid m s"

definition low_fresh :: "socket \<Rightarrow> bool" where
  "low_fresh s \<longleftrightarrow> (\<forall>wb \<in> set (s_low s). snd (wb_ptr wb) = 0)"

definition unsent :: "heap \<Rightarrow> socket \<Rightarrow> string" where
  "unsent m s = dw_data m s @ wbs_data m (s_high s) @ wbs_data m (s_low s)"

text \<open>The fields that have nothing to do with the buffers.\<close>

lemma owned_frame [simp]:
  "owned (s\<lparr>s_sending := x0\<rparr>) = owned s"
  "owned (s\<lparr>s_type := x1\<rparr>) = owned s"
  "owned (s\<lparr>s_writing := x2\<rparr>) = owned s"
  "owned (s\<lparr>s_warn_size := x3\<rparr>) = owned s"
  "owned (s\<lparr>s_dw_lock := x4\<rparr>) = owned s"
  "owned (s\<lparr>s_stat := x5\<rparr>) = owned s"
  "owned (s\<lparr>s_reading := x6\<rparr>) = owned s"
  "owned (s\<lparr>s_closing := x7\<rparr>) = owned s"
  by (simp_all add: owned_def)

lemma bufs_frame [simp]:
  "bufs_ok m (s\<lparr>s_sending := x0\<rparr>) = bufs_ok m s"
  "bufs_ok m (s\<lparr>s_type := x1\<rparr>) = bufs_ok m s"
  "bufs_ok m (s\<lparr>s_writing := x2\<rparr>) = bufs_ok m s"
  "bufs_ok m (s\<lparr>s_warn_size := x3\<rparr>) = bufs_ok m s"
  "bufs_ok m (s\<lparr>s_dw_lock := x4\<rparr>) = bufs_ok m s"
  "bufs_ok m (s\<lparr>s_stat := x5\<rparr>) = bufs_ok m s"
  "bufs_ok m (s\<lparr>s_reading := x6\<rparr>) = bufs_ok m s"
  "bufs_ok m (s\<lparr>s_closing := x7\<rparr>) = bufs_ok m s"
  by (simp_all add: bufs_ok_def dw_valid_def)

lemma unsent_frame [simp]:
  "unsent m (s\<lparr>s_sending := x0\<rparr>) = unsent m s"
  "unsent m (s\<lparr>s_type := x1\<rparr>) = unsent m s"
  "unsent m (s\<lparr>s_writing := x2\<rparr>) = unsent m s"
  "unsent m (s\<lparr>s_warn_size := x3\<rparr>) = unsent m s"
  "unsent m (s\<lparr>s_dw_lock := x4\<rparr>) = unsent m s"
  "unsent m (s\<lparr>s_stat := x5\<rparr>) = unsent m s"
  "unsent m (s\<lparr>s_reading := x6\<rparr>) = unsent m s"
  "unsent m (s\<lparr>s_closing := x7\<rparr>) = unsent m s"
  by (simp_all add: unsent_def dw_data_def split: option.split cdata.split)

lemma low_fresh_frame [simp]:
  "low_fresh (s\<lparr>s_sending := x0\<rparr>) = low_fresh s"
  "low_fresh (s\<lparr>s_type := x1\<rparr>) = low_fresh s"
  "low_fresh (s\<lparr>s_writing := x2\<rparr>) = low_fresh s"
  "low_fresh (s\<lparr>s_warn_size := x3\<rparr>) = low_fresh s"
  "low_fresh (s\<lparr>s_dw_lock := x4\<rparr>) = low_fresh s"
  "low_fresh (s\<lparr>s_stat := x5\<rparr>) = low_fresh s"
  "low_fresh (s\<lparr>s_reading := x6\<rparr>) = low_fresh s"
  "low_fresh (s\<lparr>s_closing := x7\<rparr>) = low_fresh s"
  by (simp_all add: low_fresh_def)

lemma wb_agree:
  assumes "m' (wb_buffer wb) = m (wb_buffer wb)"
  shows "wb_valid m' wb = wb_valid m wb" "wb_data m' wb = wb_data m wb"
  using assms by (simp_all add: wb_valid_def wb_data_def)

lemma wbs_agree:
  assumes "\<And>p. p \<in> set (map wb_buffer wbs) \<Longrightarrow> m' p = m p"
  shows "(\<forall>wb \<in> set wbs. wb_valid m' wb) = (\<forall>wb \<in> set wbs. wb_valid m wb)" "wbs_data m' wbs = wbs_data m wbs"
proof -
  have "m' (wb_buffer wb) = m (wb_buffer wb)" if "wb \<in> set wbs" for wb using that assms by simp
  then show "(\<forall>wb \<in> set wbs. wb_valid m' wb) = (\<forall>wb \<in> set wbs. wb_valid m wb)" "wbs_data m' wbs = wbs_data m wbs"
    unfolding wbs_data_def using wb_agree [of m' _ m] by (auto intro!: arg_cong [where f = concat])
qed

lemma wrote_frame:
  assumes "wrote out st i wbs m k wbs' n j" and "p \<notin> set (map wb_buffer wbs)"
  shows "m p = nd_mem (st_nd st) p"
proof -
  have "set (take j (map wb_buffer wbs)) \<subseteq> set (map wb_buffer wbs)" by (rule set_take_subset)
  then have "p \<notin> set (take j (map wb_buffer wbs))" using assms(2) by blast
  then show ?thesis using assms(1) unfolding wrote_def by metis
qed

lemma list_uncomplete_fresh:
  assumes "\<forall>wb \<in> set wbs. wb_valid m wb"
  shows "list_uncomplete wbs \<longleftrightarrow> wbs \<noteq> [] \<and> snd (wb_ptr (hd wbs)) \<noteq> 0"
  using assms by (cases wbs) (auto simp: list_uncomplete_def wb_valid_def prod_eq_iff)

text \<open>Writing a part of one list keeps the buffers and the bytes on the way.\<close>

lemma wrote_high:
  fixes t :: socket_stat
  assumes "wrote out st i (s_high (slot st i)) m k wbs' n j"
    and "bufs_ok (nd_mem (st_nd st)) (slot st i)" and "s_dw_buffer (slot st i) = None"
  defines "s' \<equiv> set_wb_list PRIORITY_HIGH wbs' ((slot st i)\<lparr>s_stat := t, s_wb_size := n\<rparr>)"
  shows "bufs_ok m s'"
    "out k (s_fd (slot st i)) @ unsent m s' = out (st_k st) (s_fd (slot st i)) @ unsent (nd_mem (st_nd st)) (slot st i)"
proof -
  let ?m = "nd_mem (st_nd st)" and ?s = "slot st i"
  have dist: "distinct (map wb_buffer (s_high ?s) @ map wb_buffer (s_low ?s))"
    using assms(2,3) by (simp add: bufs_ok_def owned_def)
  have agree: "m p = ?m p" if "p \<in> set (map wb_buffer (s_low ?s))" for p
    by (rule wrote_frame [OF assms(1)]) (use dist that in auto)
  have low: "\<forall>wb \<in> set (s_low ?s). wb_valid m wb" "wbs_data m (s_low ?s) = wbs_data ?m (s_low ?s)"
    using wbs_agree [of "s_low ?s" m ?m] agree assms(2) by (simp_all add: bufs_ok_def)
  have bufs: "map wb_buffer wbs' = drop j (map wb_buffer (s_high ?s))" using assms(1) by (simp add: wrote_def)
  have "distinct (map wb_buffer wbs' @ map wb_buffer (s_low ?s))"
    unfolding bufs using dist set_drop_subset [of j "map wb_buffer (s_high ?s)"] by (auto simp: distinct_drop)
  then show "bufs_ok m s'"
    using assms low unfolding bufs_ok_def wrote_def s'_def
    by (simp add: set_wb_list_def owned_def dw_valid_def)
  show "out k (s_fd ?s) @ unsent m s' = out (st_k st) (s_fd ?s) @ unsent ?m ?s"
    using assms low unfolding wrote_def s'_def unsent_def
    by (simp add: set_wb_list_def dw_data_def)
qed

lemma wrote_low:
  fixes t :: socket_stat
  assumes "wrote out st i (s_low (slot st i)) m k wbs' n j"
    and "bufs_ok (nd_mem (st_nd st)) (slot st i)" and "s_dw_buffer (slot st i) = None" and "s_high (slot st i) = []"
    and "low_fresh (slot st i)"
  defines "s' \<equiv> set_wb_list PRIORITY_LOW wbs' ((slot st i)\<lparr>s_stat := t, s_wb_size := n\<rparr>)"
  shows "bufs_ok m s'"
    "out k (s_fd (slot st i)) @ unsent m s' = out (st_k st) (s_fd (slot st i)) @ unsent (nd_mem (st_nd st)) (slot st i)"
    "\<forall>wb \<in> set (tl wbs'). snd (wb_ptr wb) = 0"
proof -
  let ?m = "nd_mem (st_nd st)" and ?s = "slot st i"
  have bufs: "map wb_buffer wbs' = drop j (map wb_buffer (s_low ?s))" and tl: "tl wbs' = drop (Suc j) (s_low ?s)"
    using assms(1) by (simp_all add: wrote_def)
  have "distinct (map wb_buffer wbs')"
    unfolding bufs using assms(2,3,4) by (simp add: bufs_ok_def owned_def distinct_drop)
  then show "bufs_ok m s'"
    using assms unfolding bufs_ok_def wrote_def s'_def
    by (simp add: set_wb_list_def owned_def dw_valid_def)
  show "out k (s_fd ?s) @ unsent m s' = out (st_k st) (s_fd ?s) @ unsent ?m ?s"
    using assms unfolding wrote_def s'_def unsent_def
    by (simp add: set_wb_list_def dw_data_def wbs_data_def)
  show "\<forall>wb \<in> set (tl wbs'). snd (wb_ptr wb) = 0"
    unfolding tl using assms(5) set_drop_subset [of "Suc j" "s_low ?s"] by (auto simp: low_fresh_def)
qed


subsection \<open>Steps that keep the stream\<close>

text \<open>
  \<open>kept out i st st'\<close>: from \<open>st\<close> to \<open>st'\<close> the bytes that the kernel took from socket
  \<open>i\<close> followed by those that wait are the same, the buffers stay valid, and only socket
  \<open>i\<close> and the blocks it owns changed.
\<close>

definition kept :: "('k \<Rightarrow> int \<Rightarrow> string) \<Rightarrow> nat \<Rightarrow> 'k sstate \<Rightarrow> 'k sstate \<Rightarrow> bool" where
  "kept out i st st' \<longleftrightarrow>
     (let s = slot st i; s' = slot st' i; m = nd_mem (st_nd st); m' = nd_mem (st_nd st')
      in bufs_ok m' s'
         \<and> out (st_k st') (s_fd s) @ unsent m' s' = out (st_k st) (s_fd s) @ unsent m s
         \<and> (\<forall>fd. fd \<noteq> s_fd s \<longrightarrow> out (st_k st') fd = out (st_k st) fd)
         \<and> (\<forall>j. j \<noteq> i \<longrightarrow> slot st' j = slot st j)
         \<and> ss_pipe (st_ss st') = ss_pipe (st_ss st) \<and> ss_soi (st_ss st') = ss_soi (st_ss st)
         \<and> nd_brk (st_nd st') = nd_brk (st_nd st)
         \<and> s_fd s' = s_fd s \<and> s_id s' = s_id s \<and> s_closing s' = s_closing s \<and> s_sending s' = s_sending s
         \<and> s_udpconnecting s' = s_udpconnecting s
         \<and> set (owned s') \<subseteq> set (owned s) \<and> (\<forall>p. p \<notin> set (owned s) \<longrightarrow> m' p = m p)
         \<and> (s_low s = [] \<longrightarrow> s_low s' = []))"

lemma kept_trans:
  assumes "kept out i st st1" and "kept out i st1 st2"
  shows "kept out i st st2"
proof -
  note a = assms(1) [unfolded kept_def Let_def] and b = assms(2) [unfolded kept_def Let_def]
  have own: "set (owned (slot st1 i)) \<subseteq> set (owned (slot st i))" using a by blast
  have mem: "nd_mem (st_nd st2) p = nd_mem (st_nd st) p" if "p \<notin> set (owned (slot st i))" for p
  proof -
    have "nd_mem (st_nd st1) p = nd_mem (st_nd st) p" using a that by blast
    moreover have "nd_mem (st_nd st2) p = nd_mem (st_nd st1) p" using b own that by blast
    ultimately show ?thesis by simp
  qed
  have own2: "set (owned (slot st2 i)) \<subseteq> set (owned (slot st i))" using b own by blast
  have "s_fd (slot st1 i) = s_fd (slot st i)" using a by blast
  then show ?thesis unfolding kept_def Let_def using a b own2 mem by simp
qed

lemma kept_fields:
  assumes "kept out i st st'"
  shows "bufs_ok (nd_mem (st_nd st')) (slot st' i)"
    "s_closing (slot st' i) = s_closing (slot st i)" "s_fd (slot st' i) = s_fd (slot st i)"
  using assms by (simp_all add: kept_def Let_def)

text \<open>A change of the fields that have nothing to do with the buffers keeps the stream.\<close>

lemma kept_frame:
  assumes "bufs_ok (nd_mem (st_nd st)) (slot st i)"
    and "st_nd st' = st_nd st" and "out (st_k st') = out (st_k st)"
    and "ss_pipe (st_ss st') = ss_pipe (st_ss st)" "ss_soi (st_ss st') = ss_soi (st_ss st)"
    and "\<And>j. j \<noteq> i \<Longrightarrow> slot st' j = slot st j"
    and "\<exists>tp wr wn lk. slot st' i = (slot st i)\<lparr>s_type := tp, s_writing := wr, s_warn_size := wn, s_dw_lock := lk\<rparr>"
  shows "kept out i st st'"
proof -
  obtain tp wr wn lk where s: "slot st' i = (slot st i)\<lparr>s_type := tp, s_writing := wr, s_warn_size := wn, s_dw_lock := lk\<rparr>"
    using assms(7) by blast
  have "owned (slot st' i) = owned (slot st i)" "bufs_ok (nd_mem (st_nd st)) (slot st' i)"
    "unsent (nd_mem (st_nd st)) (slot st' i) = unsent (nd_mem (st_nd st)) (slot st i)"
    using assms(1) unfolding s by simp_all
  then show ?thesis using assms(2-6) unfolding kept_def Let_def by (simp add: s)
qed

lemma kept_lock:
  assumes "bufs_ok (nd_mem (st_nd st)) (slot st i)"
  shows "kept out i st (upd_slot st i (\<lambda>s. s\<lparr>s_dw_lock := lk\<rparr>))"
proof (rule kept_frame [OF assms])
  show "\<exists>tp wr wn lk'. slot (upd_slot st i (\<lambda>s. s\<lparr>s_dw_lock := lk\<rparr>)) i
      = (slot st i)\<lparr>s_type := tp, s_writing := wr, s_warn_size := wn, s_dw_lock := lk'\<rparr>"
    by (rule exI [of _ "s_type (slot st i)"], rule exI [of _ "s_writing (slot st i)"],
        rule exI [of _ "s_warn_size (slot st i)"], rule exI [of _ lk]) simp
qed simp_all

lemma kept_refl: "bufs_ok (nd_mem (st_nd st)) (slot st i) \<Longrightarrow> kept out i st st"
  using kept_lock [of st i out "s_dw_lock (slot st i)"] by (simp add: upd_slot_def)

lemma enable_write_frame:
  assumes "write_ok sys out rank" and "enable_write sys st i b = (err, st')"
  shows "st_nd st' = st_nd st" "out (st_k st') = out (st_k st)" "ss_pipe (st_ss st') = ss_pipe (st_ss st)"
    "ss_soi (st_ss st') = ss_soi (st_ss st)" "slot st' j = (if j = i then (slot st i)\<lparr>s_writing := b\<rparr> else slot st j)"
proof -
  have "out (snd (sys_epoll_mod sys fd h ev k)) = out k" for fd h ev k
    using assms(1) by (simp add: write_ok_def)
  then show "st_nd st' = st_nd st" "out (st_k st') = out (st_k st)" "ss_pipe (st_ss st') = ss_pipe (st_ss st)"
    "ss_soi (st_ss st') = ss_soi (st_ss st)" "slot st' j = (if j = i then (slot st i)\<lparr>s_writing := b\<rparr> else slot st j)"
    using assms(2) by (auto simp: enable_write_def sp_enable_def Let_def split: prod.splits if_splits)
       (metis snd_conv)+
qed


lemma set_result_frame [simp]:
  "st_nd (set_result st a b c d e) = st_nd st" "st_ss (set_result st a b c d e) = st_ss st"
  "st_k (set_result st a b c d e) = st_k st"
  by (simp_all add: set_result_def)

lemma close_write_kept:
  assumes ok: "write_ok sys out rank"
    and "bufs_ok (nd_mem (st_nd st)) (slot st i)"
    and "s_type (slot st i) = SOCKET_TYPE_CONNECTED" "\<not> s_closing (slot st i)"
  shows "\<exists>st'. close_write sys st i l = Some (SOCKET_ERR, st') \<and> kept out i st st'
     \<and> s_type (slot st' i) = SOCKET_TYPE_HALFCLOSE_WRITE \<and> s_dw_buffer (slot st' i) = s_dw_buffer (slot st i)
     \<and> s_low (slot st' i) = s_low (slot st i)"
proof -
  let ?st = "upd_slot st i (\<lambda>s. s\<lparr>s_type := SOCKET_TYPE_HALFCLOSE_WRITE\<rparr>)"
  let ?st1 = "?st\<lparr>st_k := sys_shutdown_wr sys (s_fd (slot st i)) (st_k st)\<rparr>"
  obtain err st2 where e: "enable_write sys ?st1 i False = (err, st2)" by fastforce
  note f = enable_write_frame [OF ok e]
  have sh: "out (sys_shutdown_wr sys fd k) = out k" for fd k using ok by (simp add: write_ok_def)
  let ?r = "report_error st2 i (sys_strerror sys (sys_errno sys (st_k st2)))"
  have "close_write sys st i l = Some ?r"
    using assms(3,4) e by (simp add: close_write_def Let_def)
  moreover have "fst ?r = SOCKET_ERR" by (simp add: report_error_def)
  moreover have "kept out i st (snd ?r)"
  proof (rule kept_frame [OF assms(2)])
    show "\<exists>tp wr wn lk. slot (snd ?r) i = (slot st i)\<lparr>s_type := tp, s_writing := wr, s_warn_size := wn, s_dw_lock := lk\<rparr>"
      by (rule exI [of _ SOCKET_TYPE_HALFCLOSE_WRITE], rule exI [of _ False], rule exI [of _ "s_warn_size (slot st i)"],
          rule exI [of _ "s_dw_lock (slot st i)"]) (simp add: report_error_def f)
  qed (simp_all add: report_error_def f sh)
  moreover have "s_type (slot (snd ?r) i) = SOCKET_TYPE_HALFCLOSE_WRITE" "s_dw_buffer (slot (snd ?r) i) = s_dw_buffer (slot st i)"
    "s_low (slot (snd ?r) i) = s_low (slot st i)"
    by (simp_all add: report_error_def f)
  ultimately show ?thesis by (intro exI [of _ "snd ?r"]) (auto simp: prod_eq_iff)
qed

lemma take_dw_kept:
  assumes "bufs_ok (nd_mem (st_nd st)) (slot st i)"
  shows "\<exists>st'. take_dw_buffer sys st i = Some st' \<and> kept out i st st' \<and> s_dw_buffer (slot st' i) = None
     \<and> s_type (slot st' i) = s_type (slot st i) \<and> s_low (slot st' i) = s_low (slot st i)"
proof (cases "s_dw_buffer (slot st i)")
  case None
  have "kept out i st st" by (rule kept_refl [OF assms])
  with None show ?thesis by (simp add: take_dw_buffer_def)
next
  case (Some p)
  let ?m = "nd_mem (st_nd st)" and ?s = "slot st i"
  obtain bs where dw: "s_dw_size ?s \<noteq> USEROBJECT" "?m p = Some (Bytes bs)" "unat (s_dw_size ?s) \<le> length bs"
      "s_dw_offset ?s \<le> unat (s_dw_size ?s)"
    using assms Some by (auto simp: bufs_ok_def dw_valid_def)
  define buf where "buf = \<lparr>wb_buffer = p, wb_ptr = (p, s_dw_offset ?s), wb_sz = unat (s_dw_size ?s) - s_dw_offset ?s,
     wb_userobject = False, wb_udp_address = []\<rparr>"
  define s' where "s' = ?s\<lparr>s_wb_size := s_wb_size ?s + int (wb_sz buf), s_high := buf # s_high ?s, s_dw_buffer := None\<rparr>"
  define st' where "st' = upd_slot st i (\<lambda>_. s')"
  have res: "take_dw_buffer sys st i = Some st'"
    using Some dw(1) by (simp add: take_dw_buffer_def send_object_init_def st'_def s'_def buf_def upd_slot_def Let_def)
  have own: "set (owned s') = set (owned ?s)" "distinct (owned s') = distinct (owned ?s)"
    using Some by (auto simp: owned_def s'_def buf_def)
  have "wb_valid ?m buf" using dw by (simp add: wb_valid_def buf_def)
  then have ok: "bufs_ok ?m s'"
    using assms(1) own(2) unfolding bufs_ok_def by (simp add: s'_def dw_valid_def)
  have uns: "unsent ?m s' = unsent ?m ?s"
    using Some dw(2) by (simp add: unsent_def s'_def dw_data_def wbs_data_def wb_data_def buf_def)
  have "kept out i st st'"
    unfolding kept_def Let_def using ok uns own(1) by (simp add: st'_def) (simp add: s'_def)
  moreover have "s_dw_buffer (slot st' i) = None" "s_type (slot st' i) = s_type ?s" "s_low (slot st' i) = s_low ?s" by (simp_all add: st'_def s'_def)
  ultimately show ?thesis using res by blast
qed

lemma send_finished_kept:
  assumes ok: "write_ok sys out rank"
    and "bufs_ok (nd_mem (st_nd st)) (slot st i)" "\<not> s_closing (slot st i)"
    and "s_high (slot st i) = []" "s_low (slot st i) = []"
  shows "\<exists>r st'. send_finished sys st i l = Some (r, st') \<and> kept out i st st'
     \<and> s_type (slot st' i) = s_type (slot st i) \<and> s_dw_buffer (slot st' i) = s_dw_buffer (slot st i)
     \<and> s_low (slot st' i) = []"
proof -
  obtain err st2 where e: "enable_write sys st i False = (err, st2)" by fastforce
  note f = enable_write_frame [OF ok e]
  have "s_wb_size (slot st i) = 0" using assms by (simp add: bufs_ok_def)
  then have fin: "send_finished sys st i l =
     (if err then Some (report_error st2 i ''disable write failed'')
      else if s_warn_size (slot st2 i) > 0
      then Some (SOCKET_WARNING, set_result (upd_slot st2 i (\<lambda>s. s\<lparr>s_warn_size := 0\<rparr>)) (s_id (slot st2 i)) (s_opaque (slot st2 i)) 0 None None)
      else Some (-1, st2))"
    using assms e by (simp add: send_finished_def send_buffer_empty_def Let_def)
  have k: "kept out i st st'" "s_type (slot st' i) = s_type (slot st i)" "s_dw_buffer (slot st' i) = s_dw_buffer (slot st i)"
    "s_low (slot st' i) = []"
    if "st_nd st' = st_nd st2" "st_k st' = st_k st2" "ss_pipe (st_ss st') = ss_pipe (st_ss st2)"
      "ss_soi (st_ss st') = ss_soi (st_ss st2)" "\<And>j. j \<noteq> i \<Longrightarrow> slot st' j = slot st2 j"
      "slot st' i = (slot st2 i)\<lparr>s_warn_size := wn\<rparr>" for st' wn
  proof -
    have s: "slot st' i = (slot st i)\<lparr>s_type := s_type (slot st i), s_writing := False, s_warn_size := wn,
        s_dw_lock := s_dw_lock (slot st i)\<rparr>"
      using that(6) f(5) [of i] by simp
    show "kept out i st st'"
    proof (rule kept_frame [OF assms(2)])
      show "\<exists>tp wr wn lk. slot st' i = (slot st i)\<lparr>s_type := tp, s_writing := wr, s_warn_size := wn, s_dw_lock := lk\<rparr>"
        using s by blast
    qed (use that f in simp_all)
    show "s_type (slot st' i) = s_type (slot st i)" "s_dw_buffer (slot st' i) = s_dw_buffer (slot st i)" "s_low (slot st' i) = []"
      using assms(5) by (simp_all add: s)
  qed
  show ?thesis
    unfolding fin using k [of st2 "s_warn_size (slot st2 i)"]
      k [of "snd (report_error st2 i ''disable write failed'')" "s_warn_size (slot st2 i)"]
      k [of "set_result (upd_slot st2 i (\<lambda>s. s\<lparr>s_warn_size := 0\<rparr>)) (s_id (slot st2 i)) (s_opaque (slot st2 i)) 0 None None" 0]
    by (simp add: report_error_def)
qed


lemma adv_kept:
  assumes "wrote out st i (wb_list pr (slot st i)) m k wbs' n j"
    and "bufs_ok (nd_mem (st_nd st)) (slot st i)"
    and "bufs_ok m (slot (adv st i pr m k wbs' n t) i)"
    and "out k (s_fd (slot st i)) @ unsent m (slot (adv st i pr m k wbs' n t) i)
       = out (st_k st) (s_fd (slot st i)) @ unsent (nd_mem (st_nd st)) (slot st i)"
  shows "kept out i st (adv st i pr m k wbs' n t)"
proof -
  let ?st = "adv st i pr m k wbs' n t" and ?s = "slot st i"
  have w: "map wb_buffer wbs' = drop j (map wb_buffer (wb_list pr ?s))"
      "\<forall>fd. fd \<noteq> s_fd ?s \<longrightarrow> out k fd = out (st_k st) fd"
    using assms(1) by (simp_all add: wrote_def)
  have "set (map wb_buffer wbs') \<subseteq> set (map wb_buffer (wb_list pr ?s))" unfolding w(1) by (rule set_drop_subset)
  then have own: "set (owned (slot ?st i)) \<subseteq> set (owned ?s)"
    by (cases pr) (auto simp: owned_def set_wb_list_def wb_list_def)
  have mem: "m p = nd_mem (st_nd st) p" if "p \<notin> set (owned ?s)" for p
    by (rule wrote_frame [OF assms(1)]) (use that in \<open>cases pr; auto simp: owned_def wb_list_def\<close>)
  have low: "s_low (slot ?st i) = []" if "s_low ?s = []"
  proof (cases pr)
    case PRIORITY_LOW
    then show ?thesis using w(1) that by (simp add: wb_list_def set_wb_list_def)
  qed (simp add: set_wb_list_def that)
  have same: "s_sending (slot ?st i) = s_sending ?s" 
    "s_udpconnecting (slot ?st i) = s_udpconnecting ?s" "ss_pipe (st_ss ?st) = ss_pipe (st_ss st)"
    "ss_soi (st_ss ?st) = ss_soi (st_ss st)"
    by (cases pr; simp add: set_wb_list_def adv_def)+
  show ?thesis unfolding kept_def Let_def using assms(3-4) w(2) own mem low same by simp
qed

lemma send_high_kept:
  assumes ok: "write_ok sys out rank"
    and b: "bufs_ok (nd_mem (st_nd st)) (slot st i)" "s_dw_buffer (slot st i) = None"
  shows "\<exists>st'. kept out i st st' \<and> s_type (slot st' i) = s_type (slot st i) \<and> s_dw_buffer (slot st' i) = None
     \<and> s_low (slot st' i) = s_low (slot st i)
     \<and> (send_list sys w st i PRIORITY_HIGH l = Some (-1, st')
        \<or> send_list sys w st i PRIORITY_HIGH l = close_write sys st' i l)"
proof -
  have h: "wb_list PRIORITY_HIGH (slot st i) = s_high (slot st i)" by (simp add: wb_list_def)
  have "\<forall>wb \<in> set (s_high (slot st i)). wb_valid (nd_mem (st_nd st)) wb" "distinct (map wb_buffer (s_high (slot st i)))"
    using b by (simp_all add: bufs_ok_def owned_def)
  then obtain m k wbs' n t j where w: "wrote out st i (s_high (slot st i)) m k wbs' n j" and
    r: "send_tcp sys st i PRIORITY_HIGH l (s_high (slot st i)) = Some (-1, adv st i PRIORITY_HIGH m k wbs' n t)
      \<or> send_tcp sys st i PRIORITY_HIGH l (s_high (slot st i)) = close_write sys (adv st i PRIORITY_HIGH m k wbs' n t) i l"
    using send_tcp_spec [OF ok h] by blast
  let ?st = "adv st i PRIORITY_HIGH m k wbs' n t"
  note wh = wrote_high [OF w b(1,2), of t]
  have "kept out i st ?st" using adv_kept [of out st i PRIORITY_HIGH m k wbs' n j t] w wh b(1) unfolding h by simp
  moreover have "s_type (slot ?st i) = s_type (slot st i)" "s_dw_buffer (slot ?st i) = None"
    "s_low (slot ?st i) = s_low (slot st i)"
    using b(2) by (simp_all add: set_wb_list_def)
  ultimately show ?thesis
    using r b(1) unfolding send_list_def send_list_tcp_def h bufs_ok_def by auto
qed

text \<open>The head of the low list is moved to the high list when a part of it was written.\<close>

lemma raise_kept:
  assumes "bufs_ok (nd_mem (st_nd st)) (slot st i)" "s_high (slot st i) = []"
    and "s_low (slot st i) = tmp # rest" "\<forall>wb \<in> set rest. snd (wb_ptr wb) = 0"
  shows "\<exists>s. raise_uncomplete (slot st i) = Some s \<and> s_type s = s_type (slot st i)
     \<and> s_dw_buffer s = s_dw_buffer (slot st i) \<and> low_fresh s \<and> kept out i st (upd_slot st i (\<lambda>_. s))"
proof -
  let ?s = "slot st i" and ?m = "nd_mem (st_nd st)"
  define s where "s = ?s\<lparr>s_low := rest, s_high := [tmp]\<rparr>"
  have r: "raise_uncomplete ?s = Some s" using assms by (simp add: raise_uncomplete_def s_def)
  have own: "owned s = owned ?s" using assms by (simp add: owned_def s_def)
  have "bufs_ok ?m s" using assms own unfolding bufs_ok_def by (simp add: s_def dw_valid_def)
  moreover have "unsent ?m s = unsent ?m ?s"
    using assms by (simp add: unsent_def s_def dw_data_def wbs_data_def split: option.split cdata.split)
  ultimately have "kept out i st (upd_slot st i (\<lambda>_. s))"
    unfolding kept_def Let_def using own assms(3) by (simp add: s_def)
  moreover have "low_fresh s" using assms(4) by (simp add: low_fresh_def s_def)
  ultimately show ?thesis using r by (simp add: s_def)
qed

lemma send_low_kept:
  assumes ok: "write_ok sys out rank"
    and b: "bufs_ok (nd_mem (st_nd st)) (slot st i)" "low_fresh (slot st i)" "s_dw_buffer (slot st i) = None"
      "s_high (slot st i) = []" "s_type (slot st i) = SOCKET_TYPE_CONNECTED" "\<not> s_closing (slot st i)"
  shows "\<exists>r st'. send_low sys w st i l = Some (r, st') \<and> kept out i st st' \<and> s_dw_buffer (slot st' i) = None
     \<and> low_fresh (slot st' i) \<and> s_type (slot st' i) \<in> {SOCKET_TYPE_CONNECTED, SOCKET_TYPE_HALFCLOSE_WRITE}"
proof (cases "s_low (slot st i) = []")
  case True
  obtain r st' where "send_finished sys st i l = Some (r, st')" "kept out i st st'"
    "s_type (slot st' i) = s_type (slot st i)" "s_dw_buffer (slot st' i) = s_dw_buffer (slot st i)"
    "s_low (slot st' i) = []"
    using send_finished_kept [OF ok b(1,6,4) True] by blast
  then show ?thesis using True b(3,5) by (auto simp: send_low_def low_fresh_def)
next
  case False
  have h: "wb_list PRIORITY_LOW (slot st i) = s_low (slot st i)" by (simp add: wb_list_def)
  have "\<forall>wb \<in> set (s_low (slot st i)). wb_valid (nd_mem (st_nd st)) wb" "distinct (map wb_buffer (s_low (slot st i)))"
    using b by (simp_all add: bufs_ok_def owned_def)
  then obtain m k wbs' n t j where w: "wrote out st i (s_low (slot st i)) m k wbs' n j" and
    r: "send_tcp sys st i PRIORITY_LOW l (s_low (slot st i)) = Some (-1, adv st i PRIORITY_LOW m k wbs' n t)
      \<or> send_tcp sys st i PRIORITY_LOW l (s_low (slot st i)) = close_write sys (adv st i PRIORITY_LOW m k wbs' n t) i l
        \<and> wbs' = drop j (s_low (slot st i))"
    using send_tcp_spec [OF ok h] by blast
  define st1 where "st1 = adv st i PRIORITY_LOW m k wbs' n t"
  have sl: "send_list sys w st i PRIORITY_LOW l = send_tcp sys st i PRIORITY_LOW l (s_low (slot st i))"
    using b(1) by (simp add: send_list_def send_list_tcp_def h bufs_ok_def)
  note wl = wrote_low(1,2) [OF w b(1,3,4,2), of t] wrote_low(3) [OF w b(1,3,4,2)]
  have s1: "s_low (slot st1 i) = wbs'" "s_high (slot st1 i) = []" "s_dw_buffer (slot st1 i) = None"
    "s_type (slot st1 i) = SOCKET_TYPE_CONNECTED" "\<not> s_closing (slot st1 i)"
    using b by (simp_all add: st1_def set_wb_list_def)
  have b1: "bufs_ok (nd_mem (st_nd st1)) (slot st1 i)" using wl(1) by (simp add: st1_def)
  have kept1: "kept out i st st1"
    using adv_kept [of out st i PRIORITY_LOW m k wbs' n j t] w wl(1,2) b(1) unfolding h st1_def by simp
  have val: "\<forall>wb \<in> set wbs'. wb_valid (nd_mem (st_nd st1)) wb" using b1 s1(1) by (simp add: bufs_ok_def)
  from r show ?thesis
  proof (elim disjE conjE)
    assume c: "send_tcp sys st i PRIORITY_LOW l (s_low (slot st i)) = close_write sys (adv st i PRIORITY_LOW m k wbs' n t) i l"
      and d: "wbs' = drop j (s_low (slot st i))"
    have f: "low_fresh (slot st1 i)"
      using b(2) set_drop_subset [of j "s_low (slot st i)"] unfolding low_fresh_def s1 d by blast
    obtain st2 where st2: "close_write sys st1 i l = Some (SOCKET_ERR, st2)" "kept out i st1 st2"
      "s_type (slot st2 i) = SOCKET_TYPE_HALFCLOSE_WRITE" "s_dw_buffer (slot st2 i) = None"
      "s_low (slot st2 i) = wbs'"
      using close_write_kept [OF ok b1 s1(4,5)] s1(1,3) by auto
    have "send_low sys w st i l = Some (SOCKET_ERR, st2)"
      using False c st2(1) unfolding send_low_def sl st1_def [symmetric] by (simp add: SOCKET_ERR_def)
    moreover have "low_fresh (slot st2 i)" using f st2(5) s1(1) by (simp add: low_fresh_def)
    ultimately show ?thesis using kept_trans [OF kept1 st2(2)] st2(3,4) by auto
  next
    assume c: "send_tcp sys st i PRIORITY_LOW l (s_low (slot st i)) = Some (-1, adv st i PRIORITY_LOW m k wbs' n t)"
    have sl1: "send_low sys w st i l =
        (if list_uncomplete wbs'
         then Option.bind (raise_uncomplete (slot st1 i)) (\<lambda>s. Some (-1, upd_slot st1 i (\<lambda>_. s)))
         else if wbs' \<noteq> [] then Some (-1, st1) else send_finished sys st1 i l)"
      using False c s1(1) unfolding send_low_def sl st1_def [symmetric] by simp
    show ?thesis
    proof (cases "list_uncomplete wbs'")
      case True
      then obtain tmp rest where lst: "wbs' = tmp # rest" by (cases wbs') (auto simp: list_uncomplete_def)
      have tl: "\<forall>wb \<in> set rest. snd (wb_ptr wb) = 0" using wl(3) lst by simp
      have low: "s_low (slot st1 i) = tmp # rest" using s1(1) lst by simp
      obtain s where s: "raise_uncomplete (slot st1 i) = Some s" "s_type s = SOCKET_TYPE_CONNECTED" "s_dw_buffer s = None"
          "low_fresh s" "kept out i st1 (upd_slot st1 i (\<lambda>_. s))"
        using raise_kept [OF b1 s1(2) low tl] s1(3,4) by metis
      have "kept out i st (upd_slot st1 i (\<lambda>_. s))" by (rule kept_trans [OF kept1 s(5)])
      then show ?thesis using True s sl1 by simp
    next
      case uncomplete: False
      have f: "low_fresh (slot st1 i)"
        using uncomplete wl(3) list_uncomplete_fresh [OF val] unfolding low_fresh_def s1 by (cases wbs') auto
      show ?thesis
      proof (cases "wbs' = []")
        case True
        obtain r st' where "send_finished sys st1 i l = Some (r, st')" "kept out i st1 st'"
          "s_type (slot st' i) = s_type (slot st1 i)" "s_dw_buffer (slot st' i) = s_dw_buffer (slot st1 i)"
          "s_low (slot st' i) = []"
          using send_finished_kept [OF ok b1 s1(5,2)] s1(1) True by blast
        then show ?thesis using sl1 uncomplete True kept_trans [OF kept1] s1(3,4) by (auto simp: low_fresh_def)
      next
        case False
        then show ?thesis using sl1 uncomplete kept1 f s1(3,4) by simp
      qed
    qed
  qed
qed


lemma send_locked_kept:
  assumes ok: "write_ok sys out rank"
    and b: "bufs_ok (nd_mem (st_nd st)) (slot st i)" "low_fresh (slot st i)" "s_dw_buffer (slot st i) = None"
      "s_type (slot st i) = SOCKET_TYPE_CONNECTED" "\<not> s_closing (slot st i)"
  shows "\<exists>r st'. send_buffer_locked sys w st i l = Some (r, st') \<and> kept out i st st' \<and> s_dw_buffer (slot st' i) = None
     \<and> low_fresh (slot st' i) \<and> s_type (slot st' i) \<in> {SOCKET_TYPE_CONNECTED, SOCKET_TYPE_HALFCLOSE_WRITE}"
proof -
  have un: "\<not> list_uncomplete (s_low (slot st i))"
    using b(1,2) list_uncomplete_fresh [of "s_low (slot st i)" "nd_mem (st_nd st)"]
    by (auto simp: bufs_ok_def low_fresh_def)
  obtain st1 where k1: "kept out i st st1" and s1: "s_type (slot st1 i) = SOCKET_TYPE_CONNECTED"
      "s_dw_buffer (slot st1 i) = None" "s_low (slot st1 i) = s_low (slot st i)" and
    r: "send_list sys w st i PRIORITY_HIGH l = Some (-1, st1) \<or> send_list sys w st i PRIORITY_HIGH l = close_write sys st1 i l"
    using send_high_kept [OF ok b(1,3)] b(4) by metis
  have f1: "low_fresh (slot st1 i)" using b(2) s1(3) by (simp add: low_fresh_def)
  note b1 = kept_fields [OF k1]
  have nc: "\<not> s_closing (slot st1 i)" using b1(2) b(5) by simp
  from r show ?thesis
  proof
    assume c: "send_list sys w st i PRIORITY_HIGH l = close_write sys st1 i l"
    obtain st2 where st2: "close_write sys st1 i l = Some (SOCKET_ERR, st2)" "kept out i st1 st2"
      "s_type (slot st2 i) = SOCKET_TYPE_HALFCLOSE_WRITE" "s_dw_buffer (slot st2 i) = None"
      "s_low (slot st2 i) = s_low (slot st1 i)"
      using close_write_kept [OF ok b1(1) s1(1) nc] s1(2) by auto
    have "send_buffer_locked sys w st i l = Some (SOCKET_ERR, st2)"
      using un c st2(1) by (simp add: send_buffer_locked_def SOCKET_ERR_def)
    moreover have "low_fresh (slot st2 i)" using f1 st2(5) by (simp add: low_fresh_def)
    ultimately show ?thesis using kept_trans [OF k1 st2(2)] st2(3,4) by auto
  next
    assume c: "send_list sys w st i PRIORITY_HIGH l = Some (-1, st1)"
    have e: "send_buffer_locked sys w st i l = (if s_high (slot st1 i) = [] then send_low sys w st1 i l else Some (-1, st1))"
      using un c by (simp add: send_buffer_locked_def)
    show ?thesis
    proof (cases "s_high (slot st1 i) = []")
      case True
      obtain r st' where "send_low sys w st1 i l = Some (r, st')" "kept out i st1 st'" "s_dw_buffer (slot st' i) = None"
        "low_fresh (slot st' i)" "s_type (slot st' i) \<in> {SOCKET_TYPE_CONNECTED, SOCKET_TYPE_HALFCLOSE_WRITE}"
        using send_low_kept [OF ok b1(1) f1 s1(2) True s1(1) nc] by blast
      then show ?thesis using e True kept_trans [OF k1] by auto
    next
      case False
      then show ?thesis using e k1 s1 f1 by simp
    qed
  qed
qed

lemma send_buffer_kept:
  assumes ok: "write_ok sys out rank"
    and b: "bufs_ok (nd_mem (st_nd st)) (slot st i)" "low_fresh (slot st i)"
      "s_type (slot st i) = SOCKET_TYPE_CONNECTED" "\<not> s_closing (slot st i)" "\<not> s_dw_lock (slot st i)"
  shows "\<exists>r st'. send_buffer sys w st i 0 = Some (r, st') \<and> kept out i st st' \<and> s_dw_buffer (slot st' i) = None
     \<and> low_fresh (slot st' i) \<and> \<not> s_dw_lock (slot st' i)
     \<and> s_type (slot st' i) \<in> {SOCKET_TYPE_CONNECTED, SOCKET_TYPE_HALFCLOSE_WRITE}"
proof -
  let ?st0 = "upd_slot st i (\<lambda>s. s\<lparr>s_dw_lock := True\<rparr>)"
  have k0: "kept out i st ?st0" by (rule kept_lock [OF b(1)])
  have f0: "low_fresh (slot ?st0 i)" using b(2) by (simp add: low_fresh_def)
  obtain st1 where st1: "take_dw_buffer sys ?st0 i = Some st1" "kept out i ?st0 st1" "s_dw_buffer (slot st1 i) = None"
      "s_type (slot st1 i) = s_type (slot ?st0 i)" "s_low (slot st1 i) = s_low (slot ?st0 i)"
    using take_dw_kept [OF kept_fields(1) [OF k0]] by metis
  have f1: "low_fresh (slot st1 i)" using f0 st1(5) by (simp add: low_fresh_def)
  have t1: "s_type (slot st1 i) = SOCKET_TYPE_CONNECTED" "\<not> s_closing (slot st1 i)"
    using st1(4) b(3,4) kept_fields(2) [OF st1(2)] by simp_all
  obtain r st2 where st2: "send_buffer_locked sys w st1 i 1 = Some (r, st2)" "kept out i st1 st2" "s_dw_buffer (slot st2 i) = None"
     "low_fresh (slot st2 i)" "s_type (slot st2 i) \<in> {SOCKET_TYPE_CONNECTED, SOCKET_TYPE_HALFCLOSE_WRITE}"
    using send_locked_kept [OF ok kept_fields(1) [OF st1(2)] f1 st1(3) t1] by blast
  let ?st3 = "upd_slot st2 i (\<lambda>s. s\<lparr>s_dw_lock := False\<rparr>)"
  have "send_buffer sys w st i 0 = Some (r, ?st3)"
    using b(5) st1(1) st2(1) by (simp add: send_buffer_def socket_trylock_def socket_unlock_def)
  moreover have "kept out i st ?st3"
    by (rule kept_trans [OF kept_trans [OF kept_trans [OF k0 st1(2)] st2(2)] kept_lock [OF kept_fields(1) [OF st2(2)]]])
  moreover have "low_fresh (slot ?st3 i)" using st2(4) by (simp add: low_fresh_def)
  ultimately show ?thesis using st2(3,5) by auto
qed

subsection \<open>The stream of a connection\<close>

definition pipe_reqs :: "cint \<Rightarrow> request list \<Rightarrow> (ptr \<times> size_t) list" where
  "pipe_reqs sid rs = List.map_filter (\<lambda>r. case r of Req_D i p sz \<Rightarrow> if i = sid then Some (p, sz) else None | _ \<Rightarrow> None) rs"

definition req_data :: "heap \<Rightarrow> ptr \<times> size_t \<Rightarrow> string" where
  "req_data m r = (case m (fst r) of Some (Bytes bs) \<Rightarrow> take (unat (snd r)) bs | _ \<Rightarrow> [])"

definition req_valid :: "heap \<Rightarrow> ptr \<times> size_t \<Rightarrow> bool" where
  "req_valid m r \<longleftrightarrow> snd r \<noteq> USEROBJECT \<and> (\<exists>bs. m (fst r) = Some (Bytes bs) \<and> unat (snd r) \<le> length bs)"

definition queued :: "'k sstate \<Rightarrow> cint \<Rightarrow> (ptr \<times> size_t) list" where
  "queued st sid = pipe_reqs sid (ss_pipe (st_ss st))"

definition claimed :: "'k sstate \<Rightarrow> cint \<Rightarrow> ptr list" where
  "claimed st sid = owned (slot st (HASH_ID sid)) @ map fst (queued st sid)"

definition stream_ok :: "'k sstate \<Rightarrow> cint \<Rightarrow> bool" where
  "stream_ok st sid \<longleftrightarrow>
     (let s = slot st (HASH_ID sid); m = nd_mem (st_nd st)
      in s_id s = sid \<and> s_type s = SOCKET_TYPE_CONNECTED \<and> \<not> s_closing s \<and> \<not> s_dw_lock s
         \<and> bufs_ok m s \<and> s_low s = [] \<and> (\<forall>r \<in> set (queued st sid). req_valid m r)
         \<and> distinct (claimed st sid) \<and> (\<forall>p \<in> set (claimed st sid). p < nd_brk (st_nd st))
         \<and> (\<forall>p sz. Req_P sid p sz \<notin> set (ss_pipe (st_ss st)))
         \<and> unat (s_sending s) = unat (ID_TAG16 sid) * 65536 + length (queued st sid)
         \<and> length (queued st sid) < 65536)"

definition stream :: "('k \<Rightarrow> int \<Rightarrow> string) \<Rightarrow> 'k sstate \<Rightarrow> cint \<Rightarrow> string" where
  "stream out st sid =
     (let s = slot st (HASH_ID sid); m = nd_mem (st_nd st)
      in out (st_k st) (s_fd s) @ unsent m s @ concat (map (req_data m) (queued st sid)))"

lemma ID_TAG16_less: "unat (ID_TAG16 sid) < 65536"
proof -
  let ?x = "signed_drop_bit 16 sid AND 0xffff"
  have "unat ?x < 65536" using and_exp_minus_1 [of "signed_drop_bit 16 sid" 16] by simp
  moreover have "unat (ID_TAG16 sid) = unat ?x"
    unfolding ID_TAG16_def unsigned_ucast_eq using \<open>unat ?x < 65536\<close> by (simp add: take_bit_nat_eq_self)
  ultimately show ?thesis by simp
qed

lemma sending_words:
  assumes "unat (x :: u64) = t * 65536 + n" and "n < 65536"
  shows "x AND 0xffff = 0 \<longleftrightarrow> n = 0" "x AND 0xffff = 0xffff \<longleftrightarrow> n = 65535" "unat (drop_bit 16 x) = t"
proof -
  have "unat (x AND 0xffff) = n" using and_exp_minus_1 [of x 16] assms by simp
  then show "x AND 0xffff = 0 \<longleftrightarrow> n = 0" "x AND 0xffff = 0xffff \<longleftrightarrow> n = 65535"
    unfolding word_unat_eq_iff by simp_all
  show "unat (drop_bit 16 x) = t" unfolding unat_drop_bit using assms by simp
qed


lemma pipe_reqs_simps [simp]:
  "pipe_reqs sid [] = []" "pipe_reqs sid (rs @ rs') = pipe_reqs sid rs @ pipe_reqs sid rs'"
  "pipe_reqs sid (r # rs) = (case r of Req_D i p sz \<Rightarrow> if i = sid then [(p, sz)] else [] | _ \<Rightarrow> []) @ pipe_reqs sid rs"
  by (auto simp: pipe_reqs_def List.map_filter_def split: request.split)

lemma queued_send [simp]:
  "queued (send_request st r) sid =
     queued st sid @ (case r of Req_D i p sz \<Rightarrow> if i = sid then [(p, sz)] else [] | _ \<Rightarrow> [])"
  by (simp add: queued_def send_request_def)

lemma send_request_frame [simp]:
  "st_nd (send_request st r) = st_nd st" "st_k (send_request st r) = st_k st" "slot (send_request st r) j = slot st j"
  "ss_pipe (st_ss (send_request st r)) = ss_pipe (st_ss st) @ [r]" "ss_soi (st_ss (send_request st r)) = ss_soi (st_ss st)"
  by (simp_all add: send_request_def)

lemma can_direct_iff:
  assumes "stream_ok st sid"
  shows "can_direct_write (slot st (HASH_ID sid)) sid \<longleftrightarrow>
     send_buffer_empty (slot st (HASH_ID sid)) \<and> s_dw_buffer (slot st (HASH_ID sid)) = None \<and> queued st sid = []
     \<and> s_udpconnecting (slot st (HASH_ID sid)) = 0"
proof -
  have "s_sending (slot st (HASH_ID sid)) AND 0xffff = 0 \<longleftrightarrow> queued st sid = []"
    using sending_words(1) [of "s_sending (slot st (HASH_ID sid))" "unat (ID_TAG16 sid)" "length (queued st sid)"] assms
    by (simp add: stream_ok_def Let_def)
  then show ?thesis using assms by (auto simp: can_direct_write_def nomore_sending_data_def stream_ok_def Let_def)
qed

text \<open>A buffer of the heap or of the caller that can be sent; its bytes.\<close>

definition sendable :: "'k sstate \<Rightarrow> cint \<Rightarrow> socket_sendbuffer \<Rightarrow> string \<Rightarrow> bool" where
  "sendable st sid buf data \<longleftrightarrow>
     sb_id buf = sid \<and> sb_type buf \<noteq> SOCKET_BUFFER_OBJECT \<and> sb_sz buf \<noteq> USEROBJECT
     \<and> sb_buffer buf < nd_brk (st_nd st) \<and> sb_buffer buf \<notin> set (claimed st sid)
     \<and> (\<exists>bs. nd_mem (st_nd st) (sb_buffer buf) = Some (Bytes bs) \<and> unat (sb_sz buf) \<le> length bs
          \<and> data = take (unat (sb_sz buf)) bs)"

lemma clone_ok:
  assumes "sendable st sid buf data"
  shows "\<exists>p st'. clone_buffer st buf = Some (p, sb_sz buf, st') \<and> st_ss st' = st_ss st \<and> st_k st' = st_k st
     \<and> nd_brk (st_nd st) \<le> nd_brk (st_nd st') \<and> p < nd_brk (st_nd st') \<and> (p = sb_buffer buf \<or> p = nd_brk (st_nd st))
     \<and> (\<forall>q. q < nd_brk (st_nd st) \<longrightarrow> nd_mem (st_nd st') q = nd_mem (st_nd st) q)
     \<and> (\<exists>bs. nd_mem (st_nd st') p = Some (Bytes bs) \<and> unat (sb_sz buf) \<le> length bs \<and> data = take (unat (sb_sz buf)) bs)"
proof (cases "sb_type buf")
  case SOCKET_BUFFER_MEMORY
  then show ?thesis using assms by (auto simp: clone_buffer_def sendable_def)
next
  case SOCKET_BUFFER_OBJECT
  then show ?thesis using assms by (simp add: sendable_def)
next
  case SOCKET_BUFFER_RAWPOINTER
  obtain bs where bs: "nd_mem (st_nd st) (sb_buffer buf) = Some (Bytes bs)" "unat (sb_sz buf) \<le> length bs"
    "data = take (unat (sb_sz buf)) bs"
    using assms by (auto simp: sendable_def)
  then have "mem_load (st_nd st) (sb_buffer buf, 0) (unat (sb_sz buf)) = Some data" by (simp add: mem_load_def)
  then show ?thesis
    using SOCKET_BUFFER_RAWPOINTER bs by (auto simp: clone_buffer_def skynet_malloc_def)
qed

lemma req_agree:
  assumes "\<And>p. p \<in> set (map fst rs) \<Longrightarrow> m' p = m p"
  shows "(\<forall>r \<in> set rs. req_valid m' r) = (\<forall>r \<in> set rs. req_valid m r)" "map (req_data m') rs = map (req_data m) rs"
proof -
  have "m' (fst r) = m (fst r)" if "r \<in> set rs" for r using that assms by simp
  then show "(\<forall>r \<in> set rs. req_valid m' r) = (\<forall>r \<in> set rs. req_valid m r)" "map (req_data m') rs = map (req_data m) rs"
    by (auto simp: req_valid_def req_data_def)
qed

lemma bufs_agree:
  assumes "\<And>p. p \<in> set (owned s) \<Longrightarrow> m' p = m p"
  shows "bufs_ok m' s = bufs_ok m s" "unsent m' s = unsent m s"
proof -
  have h: "\<And>p. p \<in> set (map wb_buffer (s_high s)) \<Longrightarrow> m' p = m p" "\<And>p. p \<in> set (map wb_buffer (s_low s)) \<Longrightarrow> m' p = m p"
    using assms by (auto simp: owned_def)
  have d: "m' p = m p" if "s_dw_buffer s = Some p" for p using assms that by (simp add: owned_def)
  have v: "dw_valid m' s = dw_valid m s" using d by (cases "s_dw_buffer s") (simp_all add: dw_valid_def)
  have e: "dw_data m' s = dw_data m s" using d by (cases "s_dw_buffer s") (simp_all add: dw_data_def)
  note hi = wbs_agree [of "s_high s" m' m, OF h(1)] and lo = wbs_agree [of "s_low s" m' m, OF h(2)]
  show "bufs_ok m' s = bufs_ok m s" unfolding bufs_ok_def v using hi(1) lo(1) by blast
  show "unsent m' s = unsent m s" unfolding unsent_def e using hi(2) lo(2) by simp
qed

text \<open>Changes elsewhere leave the stream as it is.\<close>

definition undisturbed :: "('k \<Rightarrow> int \<Rightarrow> string) \<Rightarrow> cint \<Rightarrow> 'k sstate \<Rightarrow> 'k sstate \<Rightarrow> bool" where
  "undisturbed out sid st st' \<longleftrightarrow>
     slot st' (HASH_ID sid) = slot st (HASH_ID sid)
     \<and> out (st_k st') (s_fd (slot st (HASH_ID sid))) = out (st_k st) (s_fd (slot st (HASH_ID sid)))
     \<and> queued st' sid = queued st sid \<and> (\<forall>p sz. Req_P sid p sz \<notin> set (ss_pipe (st_ss st')))
     \<and> nd_brk (st_nd st) \<le> nd_brk (st_nd st')
     \<and> (\<forall>p \<in> set (claimed st sid). nd_mem (st_nd st') p = nd_mem (st_nd st) p)"

lemma undisturbed_stream:
  assumes "undisturbed out sid st st'" and "stream_ok st sid"
  shows "stream_ok st' sid \<and> stream out st' sid = stream out st sid"
proof -
  let ?s = "slot st (HASH_ID sid)"
  note u = assms(1) [unfolded undisturbed_def]
  have cl: "claimed st' sid = claimed st sid" using u by (simp add: claimed_def)
  have m: "nd_mem (st_nd st') p = nd_mem (st_nd st) p" if "p \<in> set (owned ?s) \<or> p \<in> set (map fst (queued st sid))" for p
    using u that by (auto simp: claimed_def)
  note b = bufs_agree [of ?s "nd_mem (st_nd st')" "nd_mem (st_nd st)"]
    req_agree(1) [of "queued st sid" "nd_mem (st_nd st')" "nd_mem (st_nd st)"]
  have rd: "map (req_data (nd_mem (st_nd st'))) (queued st sid) = map (req_data (nd_mem (st_nd st))) (queued st sid)"
    by (rule req_agree(2)) (use m in blast)
  have "\<forall>p \<in> set (claimed st sid). p < nd_brk (st_nd st')"
    using assms(2) u unfolding stream_ok_def Let_def by (meson less_le_trans)
  then show ?thesis using assms(2) u b m cl by (simp add: stream_ok_def stream_def Let_def rd del: map_eq_conv)
qed


text \<open>The direct write, when nothing waits.\<close>

lemma direct_write_stream:
  assumes ok: "write_ok sys out rank" and s: "stream_ok st sid" and buf: "sendable st sid buf data"
    and e: "s_high (slot st (HASH_ID sid)) = []" "s_dw_buffer (slot st (HASH_ID sid)) = None" "queued st sid = []"
  shows "\<exists>st'. direct_write sys w (upd_slot st (HASH_ID sid) (\<lambda>s. s\<lparr>s_dw_lock := True\<rparr>)) (HASH_ID sid) buf 1 = Some (0, st')
     \<and> stream_ok st' sid \<and> stream out st' sid = stream out st sid @ data"
proof -
  let ?h = "HASH_ID sid"
  let ?s = "slot st ?h" and ?m = "nd_mem (st_nd st)" and ?fd = "s_fd (slot st (HASH_ID sid))"
  define st0 where "st0 = upd_slot st ?h (\<lambda>s. s\<lparr>s_dw_lock := True\<rparr>)"
  obtain bs where p: "sb_sz buf \<noteq> USEROBJECT" "sb_type buf \<noteq> SOCKET_BUFFER_OBJECT" "sb_id buf = sid" "?m (sb_buffer buf) = Some (Bytes bs)"
      "unat (sb_sz buf) \<le> length bs" "data = take (unat (sb_sz buf)) bs" "sb_buffer buf < nd_brk (st_nd st)"
    using buf by (auto simp: sendable_def)
  define so where "so = \<lparr>sob_buffer = sb_buffer buf, sob_sz = unat (sb_sz buf),
     sob_free = (if sb_type buf = SOCKET_BUFFER_MEMORY then FREE else DUMMY_FREE)\<rparr>"
  have so: "send_object_init_from_sendbuffer sys st0 buf = Some so"
    using p by (cases "sb_type buf") (simp_all add: send_object_init_from_sendbuffer_def send_object_init_def so_def)
  have load: "mem_load (st_nd st0) (sob_buffer so, 0) (sob_sz so) = Some data"
    using p by (simp add: mem_load_def so_def st0_def)
  obtain r k where wr: "sys_write sys ?fd data (st_k st) = (r, k)" by fastforce
  define n where "n = (case r of Inl _ \<Rightarrow> 0 | Inr n \<Rightarrow> n)"
  have law: "n \<le> length data" "out k ?fd = out (st_k st) ?fd @ take n data"
    using ok wr unfolding write_ok_def n_def by (auto split: sum.splits)
  note sok = s [unfolded stream_ok_def Let_def]
  have tcp: "s_protocol ?s = PROTOCOL_TCP" and wb: "s_wb_size ?s = 0" and low: "s_low ?s = []"
    using sok e(1) by (simp_all add: bufs_ok_def)
  define st1 where "st1 = stat_write (st0\<lparr>st_k := k\<rparr>) ?h n"
  obtain tt where s1: "slot st1 ?h = ?s\<lparr>s_dw_lock := True, s_stat := tt\<rparr>" by (simp add: st1_def st0_def stat_write_def)
  have f1: "st_nd st1 = st_nd st" "st_k st1 = k" "ss_pipe (st_ss st1) = ss_pipe (st_ss st)" "queued st1 sid = []" "ss_soi (st_ss st1) = ss_soi (st_ss st)"
    using e(3) by (simp_all add: st1_def st0_def stat_write_def queued_def)
  have len: "length data = sob_sz so" using p by (simp add: so_def)
  have str: "stream out st sid = out (st_k st) ?fd" using e low by (simp add: stream_def unsent_def dw_data_def wbs_data_def)
  have dwe: "direct_write sys w st0 ?h buf 1 =
     (if n = sob_sz so then do {
         (st, _) \<leftarrow> socket_unlock st1 ?h 1;
         st \<leftarrow> run_free sys st (sob_free so) (sb_buffer buf);
         Some (0, st) }
       else do {
         (p, sz, st) \<leftarrow> clone_buffer st1 buf;
         let st = upd_slot st ?h (\<lambda>s. s\<lparr>s_dw_buffer := Some p, s_dw_size := sz, s_dw_offset := n\<rparr>);
         (st, _) \<leftarrow> socket_unlock st ?h 1;
         Some (0, send_request st (Req_W (sb_id buf))) })"
    using so load wr tcp by (simp add: direct_write_def Let_def n_def st1_def st0_def)
  show ?thesis
  proof (cases "n = sob_sz so")
    case True
    define m' where "m' = (if sb_type buf = SOCKET_BUFFER_MEMORY then ?m(sb_buffer buf := None) else ?m)"
    define st' where "st' = (upd_slot st1 ?h (\<lambda>s. s\<lparr>s_dw_lock := False\<rparr>))\<lparr>st_nd := (st_nd st)\<lparr>nd_mem := m'\<rparr>\<rparr>"
    have "direct_write sys w st0 ?h buf 1 = Some (0, st')"
      unfolding dwe using True p(4) f1(1)
      by (simp add: socket_unlock_def run_free_def so_def skynet_free_def st'_def m'_def)
    moreover have "slot st' ?h = ?s\<lparr>s_dw_lock := False, s_stat := tt\<rparr>" "queued st' sid = []" "ss_pipe (st_ss st') = ss_pipe (st_ss st)" "st_k st' = k"
      using f1 by (simp_all add: st'_def s1 queued_def)
    moreover have "stream_ok st' sid"
      using sok e low wb calculation
      by (simp add: stream_ok_def Let_def bufs_ok_def owned_def dw_valid_def claimed_def)
    moreover have "stream out st' sid = stream out st sid @ data"
      using calculation law(2) True len e low str by (simp add: stream_def unsent_def dw_data_def wbs_data_def)
    ultimately show ?thesis unfolding st0_def by blast
  next
    case False
    have "sendable st1 sid buf data"
      using buf f1 s1 e low by (simp add: sendable_def claimed_def owned_def)
    then obtain p' st2 bs' where c: "clone_buffer st1 buf = Some (p', sb_sz buf, st2)" "st_ss st2 = st_ss st1" "st_k st2 = k"
        "p' < nd_brk (st_nd st2)" "nd_mem (st_nd st2) p' = Some (Bytes bs')" "unat (sb_sz buf) \<le> length bs'" "data = take (unat (sb_sz buf)) bs'"
      using clone_ok [of st1 sid buf data] f1(2) by metis
    define st' where "st' = send_request (upd_slot (upd_slot st2 ?h
       (\<lambda>s. s\<lparr>s_dw_buffer := Some p', s_dw_size := sb_sz buf, s_dw_offset := n\<rparr>)) ?h (\<lambda>s. s\<lparr>s_dw_lock := False\<rparr>)) (Req_W sid)"
    have "direct_write sys w st0 ?h buf 1 = Some (0, st')"
      unfolding dwe using False c(1) p(3) by (simp add: socket_unlock_def st'_def)
    moreover have sl: "slot st' ?h = ?s\<lparr>s_dw_lock := False, s_stat := tt, s_dw_buffer := Some p', s_dw_size := sb_sz buf, s_dw_offset := n\<rparr>"
      "queued st' sid = []" "set (ss_pipe (st_ss st')) = insert (Req_W sid) (set (ss_pipe (st_ss st)))" "st_k st' = k" "st_nd st' = st_nd st2"
      using f1 c(2,3) by (simp_all add: st'_def s1 queued_def)
    moreover have "dw_valid (nd_mem (st_nd st')) (slot st' ?h)"
      using sl p(1) c(5,6) law(1) len by (simp add: dw_valid_def so_def)
    then have "stream_ok st' sid"
      using sok e low wb sl c(4)
      by (simp add: stream_ok_def Let_def bufs_ok_def owned_def claimed_def)
    moreover have "dw_data (nd_mem (st_nd st')) (slot st' ?h) = drop n data"
      using sl c(5,7) by (simp add: dw_data_def drop_take)
    then have "stream out st' sid = stream out st sid @ data"
      using sl law(2) e low str by (simp add: stream_def unsent_def wbs_data_def)
    ultimately show ?thesis unfolding st0_def by blast
  qed
qed


lemma queue_stream:
  assumes s: "stream_ok st sid" and buf: "sendable st sid buf data"
    and r: "inc_sending_ref st (HASH_ID sid) sid = Some st1" "clone_buffer st1 buf = Some (p, sz, st2)"
  shows "stream_ok (send_request st2 (Req_D sid p sz)) sid
     \<and> stream out (send_request st2 (Req_D sid p sz)) sid = stream out st sid @ data"
proof -
  let ?h = "HASH_ID sid" and ?st = "send_request st2 (Req_D sid p sz)"
  let ?s = "slot st ?h" and ?m = "nd_mem (st_nd st)" and ?q = "queued st sid"
  note sok = s [unfolded stream_ok_def Let_def]
  have tcp: "s_protocol ?s = PROTOCOL_TCP" using sok by (simp add: bufs_ok_def)
  have words: "unat (s_sending ?s) = unat (ID_TAG16 sid) * 65536 + length ?q" "length ?q < 65536" using sok by simp_all
  note w = sending_words [OF words]
  have "drop_bit 16 (s_sending ?s) = ID_TAG16 sid" using w(3) by (simp add: word_unat_eq_iff)
  then have lt: "length ?q < 65535" and st1: "st1 = upd_slot st ?h (\<lambda>s. s\<lparr>s_sending := s_sending s + 1\<rparr>)"
    using r(1) tcp w(2) words(2) by (auto simp: inc_sending_ref_def Let_def split: if_splits)
  have own1: "owned (slot st1 ?h) = owned ?s" by (simp add: st1 owned_def)
  have q1: "queued st1 sid = ?q" by (simp add: queued_def st1)
  have cl1: "claimed st1 sid = claimed st sid" by (simp add: claimed_def own1 q1)
  have "sendable st1 sid buf data" using buf cl1 by (simp add: sendable_def st1)
  from clone_ok [OF this] r(2) obtain bs where
    c: "sz = sb_sz buf" "st_ss st2 = st_ss st1" "st_k st2 = st_k st1" "nd_brk (st_nd st1) \<le> nd_brk (st_nd st2)"
      "p < nd_brk (st_nd st2)" "p = sb_buffer buf \<or> p = nd_brk (st_nd st1)"
      "\<forall>q < nd_brk (st_nd st1). nd_mem (st_nd st2) q = nd_mem (st_nd st1) q"
      "nd_mem (st_nd st2) p = Some (Bytes bs)" "unat (sb_sz buf) \<le> length bs" "data = take (unat (sb_sz buf)) bs"
    by auto
  have brk: "\<forall>q \<in> set (claimed st sid). q < nd_brk (st_nd st)" using sok by simp
  then have new: "p \<notin> set (claimed st sid)" using c(6) buf by (auto simp: sendable_def st1)
  have mem: "nd_mem (st_nd st2) q = ?m q" if "q \<in> set (claimed st sid)" for q
    using c(7) brk that by (simp add: st1)
  have sl: "slot ?st ?h = ?s\<lparr>s_sending := s_sending ?s + 1\<rparr>" "queued ?st sid = ?q @ [(p, sb_sz buf)]" "st_nd ?st = st_nd st2"
      "st_k ?st = st_k st"
    using c(1,2,3) q1 by (simp_all add: queued_def) (simp_all add: st1)
  have cl: "claimed ?st sid = claimed st sid @ [p]" unfolding claimed_def sl by (simp add: owned_def)
  have bufs: "bufs_ok (nd_mem (st_nd st2)) (slot ?st ?h)" "unsent (nd_mem (st_nd st2)) (slot ?st ?h) = unsent ?m ?s"
  proof -
    have "bufs_ok (nd_mem (st_nd st2)) ?s" "unsent (nd_mem (st_nd st2)) ?s = unsent ?m ?s"
      using bufs_agree [of ?s "nd_mem (st_nd st2)" ?m] mem sok by (simp_all add: claimed_def)
    then show "bufs_ok (nd_mem (st_nd st2)) (slot ?st ?h)" "unsent (nd_mem (st_nd st2)) (slot ?st ?h) = unsent ?m ?s"
      unfolding sl by simp_all
  qed
  have rq: "\<forall>r \<in> set ?q. req_valid (nd_mem (st_nd st2)) r" "map (req_data (nd_mem (st_nd st2))) ?q = map (req_data ?m) ?q"
  proof -
    have m: "nd_mem (st_nd st2) x = ?m x" if "x \<in> set (map fst ?q)" for x using mem that by (simp add: claimed_def)
    show "map (req_data (nd_mem (st_nd st2))) ?q = map (req_data ?m) ?q" by (rule req_agree(2)) (rule m)
    show "\<forall>r \<in> set ?q. req_valid (nd_mem (st_nd st2)) r" using req_agree(1) [of ?q, OF m] sok by simp
  qed
  have "req_valid (nd_mem (st_nd st2)) (p, sb_sz buf)" "req_data (nd_mem (st_nd st2)) (p, sb_sz buf) = data"
    using buf c by (simp_all add: req_valid_def req_data_def sendable_def)
  then have "stream out ?st sid = stream out st sid @ data"
    unfolding stream_def Let_def sl(2-4) bufs(2) map_append concat_append rq(2) unfolding sl(1) by simp
  moreover have "unat (s_sending ?s + 1) = unat (s_sending ?s) + 1"
  proof -
    have "unat (s_sending ?s) + 1 < 2 ^ 64" using words ID_TAG16_less [of sid] lt by simp
    then show ?thesis by (simp add: unat_word_ariths)
  qed
  then have sn: "unat (s_sending (slot ?st ?h)) = unat (ID_TAG16 sid) * 65536 + length (queued ?st sid)"
    using words(1) sl by simp
  have "stream_ok ?st sid"
    unfolding stream_ok_def Let_def
  proof (intro conjI)
    show "\<forall>r \<in> set (queued ?st sid). req_valid (nd_mem (st_nd ?st)) r"
      using rq(1) \<open>req_valid _ _\<close> sl(2,3) by auto
    show "bufs_ok (nd_mem (st_nd ?st)) (slot ?st ?h)" using bufs(1) sl(3) by simp
    show "distinct (claimed ?st sid)" using cl new sok by simp
    show "\<forall>p \<in> set (claimed ?st sid). p < nd_brk (st_nd ?st)"
      using cl c(4,5) brk sl(3) by (auto simp: st1 dest: less_le_trans)
    show "length (queued ?st sid) < 65536" using sl(2) lt by simp
    show "\<forall>p' sz'. Req_P sid p' sz' \<notin> set (ss_pipe (st_ss ?st))" using sok c(2) by (simp add: st1)
    show "unat (s_sending (slot ?st ?h)) = unat (ID_TAG16 sid) * 65536 + length (queued ?st sid)" by (rule sn)
  qed (unfold sl(1), use sok in simp_all)
  ultimately show ?thesis by simp
qed

lemma send_stream:
  assumes ok: "write_ok sys out rank" and s: "stream_ok st sid" and buf: "sendable st sid buf data"
    and r: "socket_server_send sys w st buf = Some (r, st')"
  shows "stream_ok st' sid \<and> stream out st' sid = stream out st sid @ data"
proof -
  let ?h = "HASH_ID sid"
  note sok = s [unfolded stream_ok_def Let_def]
  have id: "sb_id buf = sid" using buf by (simp add: sendable_def)
  have ni: "\<not> socket_invalid (slot st ?h) sid" "\<not> s_closing (slot st ?h)" "\<not> s_dw_lock (slot st ?h)"
    using sok by (auto simp: socket_invalid_def)
  show ?thesis
  proof (cases "can_direct_write (slot st ?h) sid")
    case True
    then have e: "s_high (slot st ?h) = []" "s_dw_buffer (slot st ?h) = None" "queued st sid = []"
      using can_direct_iff [OF s] by (simp_all add: send_buffer_empty_def)
    have "socket_server_send sys w st buf = direct_write sys w (upd_slot st ?h (\<lambda>s. s\<lparr>s_dw_lock := True\<rparr>)) ?h buf 1"
      using True ni id by (simp add: socket_server_send_def Let_def socket_trylock_def)
    with r direct_write_stream [OF ok s buf e, of w] show ?thesis by auto
  next
    case False
    then obtain st1 p sz st2 where "inc_sending_ref st ?h sid = Some st1" "clone_buffer st1 buf = Some (p, sz, st2)"
        "st' = send_request st2 (Req_D sid p sz)"
      using r ni id by (auto simp: socket_server_send_def Let_def split: Option.bind_splits prod.splits)
    then show ?thesis using queue_stream [OF s buf] by simp
  qed
qed


text \<open>The socket thread handles the requests of the pipe.\<close>

lemma warn_size_frame:
  "\<exists>r st' wn. warn_size st i = (r, st') \<and> st_nd st' = st_nd st \<and> st_k st' = st_k st
     \<and> ss_pipe (st_ss st') = ss_pipe (st_ss st) \<and> slot st' i = (slot st i)\<lparr>s_warn_size := wn\<rparr>"
proof (cases "s_wb_size (slot st i) \<ge> WARNING_SIZE \<and> s_wb_size (slot st i) \<ge> s_warn_size (slot st i)")
  case True
  then show ?thesis by (auto simp: warn_size_def Let_def)
next
  case False
  then have "warn_size st i = (-1, st)" unfolding warn_size_def Let_def by (simp only: if_False)
  then show ?thesis
    by - (rule exI [of _ "-1"], rule exI [of _ st], rule exI [of _ "s_warn_size (slot st i)"], simp)
qed

definition new_wb :: "ptr \<Rightarrow> size_t \<Rightarrow> write_buffer" where
  "new_wb p sz = \<lparr>wb_buffer = p, wb_ptr = (p, 0), wb_sz = unat sz, wb_userobject = False, wb_udp_address = []\<rparr>"

lemma append_high:
  assumes "sz \<noteq> USEROBJECT"
  shows "append_sendbuffer sys st i p sz =
     Some (upd_slot st i (\<lambda>s. s\<lparr>s_wb_size := s_wb_size s + int (unat sz), s_high := s_high s @ [new_wb p sz]\<rparr>))"
  using assms
  by (simp add: append_sendbuffer_def append_sendbuffer_to_def send_object_init_def Let_def set_wb_list_def wb_list_def new_wb_def)

lemma send_socket_high:
  assumes ok: "write_ok sys out rank"
    and s: "s_id (slot st (HASH_ID sid)) = sid" "s_type (slot st (HASH_ID sid)) = SOCKET_TYPE_CONNECTED"
      "\<not> s_closing (slot st (HASH_ID sid))" "s_protocol (slot st (HASH_ID sid)) = PROTOCOL_TCP" and sz: "sz \<noteq> USEROBJECT"
  shows "\<exists>r st' wr wn. send_socket sys w st sid p sz PRIORITY_HIGH None = Some (r, st')
     \<and> st_nd st' = st_nd st \<and> out (st_k st') = out (st_k st) \<and> ss_pipe (st_ss st') = ss_pipe (st_ss st)
     \<and> slot st' (HASH_ID sid) = (slot st (HASH_ID sid))\<lparr>s_wb_size := s_wb_size (slot st (HASH_ID sid)) + int (unat sz),
          s_high := s_high (slot st (HASH_ID sid)) @ [new_wb p sz], s_writing := wr, s_warn_size := wn\<rparr>"
proof -
  let ?h = "HASH_ID sid"
  define st1 where "st1 = upd_slot st ?h (\<lambda>s. s\<lparr>s_wb_size := s_wb_size s + int (unat sz), s_high := s_high s @ [new_wb p sz]\<rparr>)"
  have app: "append_sendbuffer sys st ?h p sz = Some st1" using append_high [OF sz] by (simp add: st1_def)
  show ?thesis
  proof (cases "send_buffer_empty (slot st ?h)")
    case True
    obtain err st2 where e: "enable_write sys st1 ?h True = (err, st2)" by fastforce
    note f = enable_write_frame [OF ok e]
    have ss: "send_socket sys w st sid p sz PRIORITY_HIGH None =
        (if err then Some (report_error st2 ?h ''enable write failed'') else Some (warn_size st2 ?h))"
      using True s sz app e by (simp add: send_socket_def send_first_def send_object_init_def Let_def)
    obtain r st3 wn where w: "warn_size st2 ?h = (r, st3)" "st_nd st3 = st_nd st2" "st_k st3 = st_k st2"
        "ss_pipe (st_ss st3) = ss_pipe (st_ss st2)" "slot st3 ?h = (slot st2 ?h)\<lparr>s_warn_size := wn\<rparr>"
      using warn_size_frame [of st2 ?h] by blast
    show ?thesis
    proof (cases err)
      case True
      then show ?thesis unfolding ss using f
        by - (rule exI [of _ SOCKET_ERR], rule exI [of _ "snd (report_error st2 ?h ''enable write failed'')"],
            rule exI [of _ True], rule exI [of _ "s_warn_size (slot st ?h)"],
          simp add: report_error_def st1_def)
    next
      case False
      then show ?thesis unfolding ss using f w
        by - (rule exI [of _ r], rule exI [of _ st3], rule exI [of _ True], rule exI [of _ wn],
          simp add: st1_def)
    qed
  next
    case False
    obtain r st3 wn where w: "warn_size st1 ?h = (r, st3)" "st_nd st3 = st_nd st1" "st_k st3 = st_k st1"
        "ss_pipe (st_ss st3) = ss_pipe (st_ss st1)" "slot st3 ?h = (slot st1 ?h)\<lparr>s_warn_size := wn\<rparr>"
      using warn_size_frame [of st1 ?h] by blast
    have "send_socket sys w st sid p sz PRIORITY_HIGH None = Some (r, st3)"
      using False s sz app w(1) by (simp add: send_socket_def send_object_init_def Let_def)
    then show ?thesis using w
      by - (rule exI [of _ r], rule exI [of _ st3], rule exI [of _ "s_writing (slot st ?h)"], rule exI [of _ wn],
          simp add: st1_def)
  qed
qed

lemma dw_frame:
  assumes "s_dw_buffer s' = s_dw_buffer s" "s_dw_size s' = s_dw_size s" "s_dw_offset s' = s_dw_offset s"
  shows "dw_valid m s' = dw_valid m s" "dw_data m s' = dw_data m s"
  unfolding dw_valid_def dw_data_def assms by (rule refl)+

lemma request_D_stream:
  assumes ok: "write_ok sys out rank" and s: "stream_ok st sid" and pipe: "ss_pipe (st_ss st) = Req_D sid p sz # rs"
  shows "\<exists>r st'. ctrl_cmd sys w st = Some (r, st') \<and> stream_ok st' sid \<and> stream out st' sid = stream out st sid"
proof -
  let ?h = "HASH_ID sid"
  let ?s = "slot st ?h" and ?m = "nd_mem (st_nd st)" and ?q = "pipe_reqs sid rs"
  define st0 where "st0 = st\<lparr>st_ss := (st_ss st)\<lparr>ss_pipe := rs\<rparr>\<rparr>"
  note sok = s [unfolded stream_ok_def Let_def]
  have q: "queued st sid = (p, sz) # ?q" using pipe by (simp add: queued_def)
  have v: "req_valid ?m (p, sz)" "\<forall>r \<in> set ?q. req_valid ?m r" using sok q by simp_all
  have tcp: "s_protocol ?s = PROTOCOL_TCP" using sok by (simp add: bufs_ok_def)
  have f0: "slot st0 j = slot st j" "st_nd st0 = st_nd st" "st_k st0 = st_k st" "ss_pipe (st_ss st0) = rs" for j
    by (simp_all add: st0_def)
  obtain r st1 wr wn where st1: "send_socket sys w st0 sid p sz PRIORITY_HIGH None = Some (r, st1)"
      "st_nd st1 = st_nd st" "out (st_k st1) = out (st_k st)" "ss_pipe (st_ss st1) = rs"
      "slot st1 ?h = ?s\<lparr>s_wb_size := s_wb_size ?s + int (unat sz), s_high := s_high ?s @ [new_wb p sz], s_writing := wr, s_warn_size := wn\<rparr>"
  proof -
    have "sz \<noteq> USEROBJECT" using v(1) by (simp add: req_valid_def)
    then show ?thesis using send_socket_high [OF ok, of st0 sid sz w p] sok tcp that unfolding f0 by blast
  qed
  have words: "unat (s_sending ?s) = unat (ID_TAG16 sid) * 65536 + length (queued st sid)" "length (queued st sid) < 65536"
    using sok by simp_all
  have nz: "s_sending ?s AND 0xffff \<noteq> 0" using sending_words(1) [OF words] q by simp
  define st2 where "st2 = upd_slot st1 ?h (\<lambda>s. s\<lparr>s_sending := s_sending s - 1\<rparr>)"
  have res: "ctrl_cmd sys w st = Some (r, st2)"
    using pipe st1 nz sok tcp
    by (simp add: ctrl_cmd_def run_request_def dec_sending_ref_def Let_def st2_def flip: st0_def)
  have sl: "slot st2 ?h = ?s\<lparr>s_wb_size := s_wb_size ?s + int (unat sz), s_high := s_high ?s @ [new_wb p sz], s_writing := wr,
      s_warn_size := wn, s_sending := s_sending ?s - 1\<rparr>" "queued st2 sid = ?q" "st_nd st2 = st_nd st" "out (st_k st2) = out (st_k st)"
    using st1 by (simp_all add: st2_def queued_def)
  have low: "s_low ?s = []" using sok by simp
  have perm: "distinct (claimed st2 sid)" "set (claimed st2 sid) = set (claimed st sid)"
    using sok low unfolding claimed_def sl(1,2) q by (auto simp: owned_def new_wb_def)
  have wv: "wb_valid ?m (new_wb p sz)" using v(1) by (auto simp: wb_valid_def new_wb_def req_valid_def)
  have wd: "wb_data ?m (new_wb p sz) = req_data ?m (p, sz)" by (simp add: wb_data_def new_wb_def req_data_def split: option.split cdata.split)
  have ow: "distinct (owned (slot st2 ?h))" using perm(1) by (simp add: claimed_def)
  have dw: "dw_valid ?m (slot st2 ?h) = dw_valid ?m ?s" "dw_data ?m (slot st2 ?h) = dw_data ?m ?s"
    by (rule dw_frame; simp add: sl(1))+
  have b: "bufs_ok ?m ?s" using sok by simp
  have hl: "s_high (slot st2 ?h) = s_high ?s @ [new_wb p sz]" "s_low (slot st2 ?h) = s_low ?s"
      "s_wb_size (slot st2 ?h) = s_wb_size ?s + int (wb_sz (new_wb p sz))" "s_protocol (slot st2 ?h) = s_protocol ?s"
    unfolding sl(1) by (simp_all add: new_wb_def)
  have bufs: "bufs_ok ?m (slot st2 ?h)"
    unfolding bufs_ok_def dw(1) hl using ow b [unfolded bufs_ok_def] wv by simp
  have "unat (s_sending ?s - 1) = unat (s_sending ?s) - 1"
    using words q by (simp add: unat_sub word_le_nat_alt)
  then have sn: "unat (s_sending (slot st2 ?h)) = unat (ID_TAG16 sid) * 65536 + length (queued st2 sid)"
    using words(1) q unfolding sl(1,2) by simp
  have "stream_ok st2 sid"
    unfolding stream_ok_def Let_def
  proof (intro conjI)
    show "bufs_ok (nd_mem (st_nd st2)) (slot st2 ?h)" using bufs sl(3) by simp
    show "distinct (claimed st2 sid)" by (rule perm)
    show "\<forall>x \<in> set (claimed st2 sid). x < nd_brk (st_nd st2)" using sok perm(2) sl(3) by simp
    show "unat (s_sending (slot st2 ?h)) = unat (ID_TAG16 sid) * 65536 + length (queued st2 sid)" by (rule sn)
    show "\<forall>r \<in> set (queued st2 sid). req_valid (nd_mem (st_nd st2)) r" using v sl(2,3) by simp
    show "length (queued st2 sid) < 65536" using words(2) q sl(2) by simp
    show "\<forall>p' sz'. Req_P sid p' sz' \<notin> set (ss_pipe (st_ss st2))" using sok pipe st1(4) by (simp add: st2_def)
  qed (unfold sl(1), use sok in simp_all)
  moreover have "stream out st2 sid = stream out st sid"
  proof -
    have "unsent ?m (slot st2 ?h) = unsent ?m ?s @ req_data ?m (p, sz)"
      unfolding unsent_def dw(2) unfolding sl(1) using low wd by (simp add: wbs_data_def)
    then show ?thesis unfolding stream_def Let_def sl(2-4) q unfolding sl(1) by simp
  qed
  ultimately show ?thesis using res by blast
qed

lemma request_W_stream:
  assumes ok: "write_ok sys out rank" and s: "stream_ok st sid" and pipe: "ss_pipe (st_ss st) = Req_W sid # rs"
  shows "\<exists>r st'. ctrl_cmd sys w st = Some (r, st') \<and> stream_ok st' sid \<and> stream out st' sid = stream out st sid"
proof -
  let ?h = "HASH_ID sid"
  define st0 where "st0 = st\<lparr>st_ss := (st_ss st)\<lparr>ss_pipe := rs\<rparr>\<rparr>"
  note sok = s [unfolded stream_ok_def Let_def]
  have f0: "slot st0 j = slot st j" "st_nd st0 = st_nd st" "st_k st0 = st_k st" "ss_pipe (st_ss st0) = rs" for j
    by (simp_all add: st0_def)
  obtain err st1 where e: "enable_write sys st0 ?h True = (err, st1)" by fastforce
  note f = enable_write_frame [OF ok e]
  let ?r = "if err then report_error st1 ?h ''enable write failed'' else (-1, st1)"
  have res: "ctrl_cmd sys w st = Some ?r"
    using pipe sok e by (simp add: ctrl_cmd_def run_request_def trigger_write_def socket_invalid_def Let_def f0 flip: st0_def)
  have sl: "slot (snd ?r) ?h = (slot st ?h)\<lparr>s_writing := True\<rparr>" "queued (snd ?r) sid = queued st sid"
      "st_nd (snd ?r) = st_nd st" "out (st_k (snd ?r)) = out (st_k st)" "ss_pipe (st_ss (snd ?r)) = rs"
    using pipe by (simp_all add: report_error_def f f0 queued_def)
  have cl: "claimed (snd ?r) sid = claimed st sid" unfolding claimed_def sl by simp
  have "stream_ok (snd ?r) sid"
    unfolding stream_ok_def Let_def sl cl using sok pipe by simp
  moreover have "stream out (snd ?r) sid = stream out st sid" unfolding stream_def Let_def sl by simp
  ultimately show ?thesis using res by (metis prod.collapse)
qed

lemma writable_stream:
  assumes ok: "write_ok sys out rank" and s: "stream_ok st sid" and r: "send_buffer sys w st (HASH_ID sid) 0 = Some (r, st')"
    and c: "s_type (slot st' (HASH_ID sid)) = SOCKET_TYPE_CONNECTED"
  shows "stream_ok st' sid \<and> stream out st' sid = stream out st sid"
proof -
  let ?h = "HASH_ID sid"
  let ?s = "slot st ?h" and ?s' = "slot st' ?h" and ?q = "queued st sid"
  note sok = s [unfolded stream_ok_def Let_def]
  have "low_fresh ?s" using sok by (simp add: low_fresh_def)
  then have k: "kept out ?h st st'" and lk: "\<not> s_dw_lock ?s'"
    using send_buffer_kept [OF ok, of st ?h w] r sok by auto
  note k = k [unfolded kept_def Let_def]
  have q: "queued st' sid = ?q" using k by (simp add: queued_def)
  have disj: "set (owned ?s) \<inter> set (map fst ?q) = {}" "distinct (map fst ?q)" using sok by (auto simp: claimed_def)
  have own: "set (owned ?s') \<subseteq> set (owned ?s)" "distinct (owned ?s')" using k by (simp_all add: bufs_ok_def)
  have mem: "nd_mem (st_nd st') x = nd_mem (st_nd st) x" if "x \<in> set (map fst ?q)" for x using k disj that by blast
  have rq: "\<forall>r \<in> set ?q. req_valid (nd_mem (st_nd st')) r"
      "map (req_data (nd_mem (st_nd st'))) ?q = map (req_data (nd_mem (st_nd st))) ?q"
    using req_agree(1) [of ?q, OF mem] sok by (simp, intro req_agree(2) mem)
  have cl: "distinct (claimed st' sid)" "set (claimed st' sid) \<subseteq> set (claimed st sid)"
    using own disj unfolding claimed_def q by auto
  have brk: "nd_brk (st_nd st') = nd_brk (st_nd st)" using k by simp
  have "stream_ok st' sid"
    unfolding stream_ok_def Let_def
  proof (intro conjI)
    show "\<forall>x \<in> set (claimed st' sid). x < nd_brk (st_nd st')" using sok cl(2) brk by auto
  qed (use sok k c lk cl rq q in simp_all)
  moreover have "stream out st' sid = stream out st sid"
    unfolding stream_def Let_def q rq(2) using k by (simp flip: append_assoc)
  ultimately show ?thesis by simp
qed

text \<open>
  C17. The bytes of a TCP connection leave in order and none is lost or sent twice: when the
  socket thread handles a writable socket, whatever part of each write the kernel takes
  (\<open>write_ok\<close> states what \<open>write\<close> promises), what the kernel has taken followed by what
  waits (the rest of a direct write, the high list, the low list) is unchanged, the blocks
  that were sent are freed, no assertion fails, and no other socket changes. The function
  returns, also through interrupted writes. A write error closes only the write side.
\<close>

theorem send_buffer_keeps_stream:
  assumes "write_ok sys out rank"
    and "bufs_ok (nd_mem (st_nd st)) (slot st i)" "low_fresh (slot st i)"
      "s_type (slot st i) = SOCKET_TYPE_CONNECTED" "\<not> s_closing (slot st i)" "\<not> s_dw_lock (slot st i)"
  shows "\<exists>r st'. send_buffer sys w st i 0 = Some (r, st') \<and> kept out i st st' \<and> s_dw_buffer (slot st' i) = None
     \<and> low_fresh (slot st' i) \<and> \<not> s_dw_lock (slot st' i)
     \<and> s_type (slot st' i) \<in> {SOCKET_TYPE_CONNECTED, SOCKET_TYPE_HALFCLOSE_WRITE}"
  by (rule send_buffer_kept [OF assms])

subsection \<open>Runs\<close>

text \<open>
  A run of the operations on connection \<open>sid\<close> that stays connected: services send, the socket
  thread takes a request of the connection from the pipe or handles its writable event, and
  anything happens that leaves the connection alone. The bytes sent are collected.
\<close>

inductive stream_run :: "'k sys \<Rightarrow> world \<Rightarrow> ('k \<Rightarrow> int \<Rightarrow> string) \<Rightarrow> cint \<Rightarrow> 'k sstate \<Rightarrow> string \<Rightarrow> 'k sstate \<Rightarrow> bool"
  for sys w out sid st where
  start: "stream_run sys w out sid st [] st"
| send: "stream_run sys w out sid st bs st1 \<Longrightarrow> sendable st1 sid buf data \<Longrightarrow>
     socket_server_send sys w st1 buf = Some (r, st2) \<Longrightarrow> stream_run sys w out sid st (bs @ data) st2"
| request: "stream_run sys w out sid st bs st1 \<Longrightarrow> ss_pipe (st_ss st1) = q # qs \<Longrightarrow>
     q = Req_W sid \<or> (\<exists>p sz. q = Req_D sid p sz) \<Longrightarrow>
     ctrl_cmd sys w st1 = Some (r, st2) \<Longrightarrow> stream_run sys w out sid st bs st2"
| writable: "stream_run sys w out sid st bs st1 \<Longrightarrow> send_buffer sys w st1 (HASH_ID sid) 0 = Some (r, st2) \<Longrightarrow>
     s_type (slot st2 (HASH_ID sid)) = SOCKET_TYPE_CONNECTED \<Longrightarrow> stream_run sys w out sid st bs st2"
| elsewhere: "stream_run sys w out sid st bs st1 \<Longrightarrow> undisturbed out sid st1 st2 \<Longrightarrow>
     stream_run sys w out sid st bs st2"


subsection \<open>Instances\<close>

lemma demo_write_ok: "write_ok demo_sys (\<lambda>k. k) (\<lambda>_. 0)"
  by (auto simp: write_ok_def demo_sys_def)

definition demo_idle :: socket where
  "demo_idle = demo_socket\<lparr>s_type := SOCKET_TYPE_CONNECTED, s_protocol := PROTOCOL_TCP, s_fd := 7, s_id := 2\<rparr>"

definition demo_open :: "demo_kernel sstate" where
  "demo_open = upd_slot demo_sstate 2 (\<lambda>_. demo_idle)"

definition demo_buf :: socket_sendbuffer where
  "demo_buf = \<lparr>sb_id = 2, sb_type = SOCKET_BUFFER_MEMORY, sb_buffer = 30, sb_sz = 5\<rparr>"

lemma demo_tag: "ID_TAG16 2 = 0"
  by code_simp

lemma demo_fields:
  "HASH_ID 2 = 2" "slot demo_open 2 = demo_idle" "queued demo_open 2 = []" "ss_pipe (st_ss demo_open) = []"
  "nd_mem (st_nd demo_open) 30 = Some (Bytes ''hello'')" "nd_brk (st_nd demo_open) = 31" "st_k demo_open = (\<lambda>_. [])"
  by (simp_all add: HASH_ID_def MAX_SOCKET_def demo_open_def queued_def
        demo_sstate_def demo_server_def demo_node_def upd_slot_def)

lemma demo_stream_ok: "stream_ok demo_open 2" "sendable demo_open 2 demo_buf ''hello''"
  by (simp_all add: stream_ok_def sendable_def demo_fields demo_tag claimed_def owned_def demo_idle_def demo_socket_def
        bufs_ok_def dw_valid_def demo_buf_def USEROBJECT_def)


definition demo_busy :: "demo_kernel sstate" where
  "demo_busy = upd_slot demo_open 2 (\<lambda>s. s\<lparr>s_low := [new_wb 30 5], s_wb_size := 5\<rparr>)"

theorem send_buffer_keeps_stream_witness:
  "\<forall>w. \<exists>r st'. send_buffer demo_sys w demo_busy 2 0 = Some (r, st')
     \<and> st_k st' 7 @ unsent (nd_mem (st_nd st')) (slot st' 2) = ''hello''"
proof
  fix w
  have s: "slot demo_busy 2 = demo_idle\<lparr>s_low := [new_wb 30 5], s_wb_size := 5\<rparr>" "st_nd demo_busy = st_nd demo_open"
      "st_k demo_busy = (\<lambda>_. [])"
    by (simp_all add: demo_busy_def demo_fields)
  have "wb_valid (nd_mem (st_nd demo_open)) (new_wb 30 5)" "wb_data (nd_mem (st_nd demo_open)) (new_wb 30 5) = ''hello''"
    by (simp_all add: wb_valid_def wb_data_def new_wb_def demo_fields)
  moreover have "wb_sz (new_wb 30 5) = 5" "wb_buffer (new_wb 30 5) = 30" "snd (wb_ptr (new_wb 30 5)) = 0"
    by (simp_all add: new_wb_def)
  ultimately have b: "bufs_ok (nd_mem (st_nd demo_busy)) (slot demo_busy 2)" "low_fresh (slot demo_busy 2)"
      "s_type (slot demo_busy 2) = SOCKET_TYPE_CONNECTED" "\<not> s_closing (slot demo_busy 2)" "\<not> s_dw_lock (slot demo_busy 2)"
      "unsent (nd_mem (st_nd demo_busy)) (slot demo_busy 2) = ''hello''" "s_fd (slot demo_busy 2) = 7"
    unfolding s by (simp_all add: bufs_ok_def low_fresh_def demo_idle_def demo_socket_def owned_def dw_valid_def
        unsent_def dw_data_def wbs_data_def)
  from send_buffer_keeps_stream [OF demo_write_ok b(1-5), of w]
  obtain r st' where r: "send_buffer demo_sys w demo_busy 2 0 = Some (r, st')" and k: "kept (\<lambda>k. k) 2 demo_busy st'" by blast
  have "st_k st' 7 @ unsent (nd_mem (st_nd st')) (slot st' 2) = st_k demo_busy 7 @ unsent (nd_mem (st_nd demo_busy)) (slot demo_busy 2)"
    using k unfolding kept_def Let_def b(7) by simp
  then show "\<exists>r st'. send_buffer demo_sys w demo_busy 2 0 = Some (r, st')
     \<and> st_k st' 7 @ unsent (nd_mem (st_nd st')) (slot st' 2) = ''hello''"
    using r b(6) s(3) by auto
qed

subsection \<open>User objects\<close>

text \<open>
  A user object in the low list makes the socket thread fail: \<open>list_uncomplete\<close> compares
  the data pointer of the head with the object itself, so for an object whose data lies
  elsewhere the head counts as partly sent, and the assertion at the beginning of
  \<open>send_buffer_\<close> fails although no byte was written. The state is the one that
  \<open>append_sendbuffer_low\<close> builds from an empty low list.
\<close>

theorem low_user_object_asserts:
  assumes "ss_soi (st_ss st)" and "s_low (slot st i) = []" and "soi_buffer sys obj (st_nd st) \<noteq> obj"
  shows "\<exists>st'. append_sendbuffer_low sys st i obj USEROBJECT = Some st'
     \<and> list_uncomplete (s_low (slot st' i)) \<and> send_buffer_locked sys w st' i l = None"
  using assms
  by (simp add: append_sendbuffer_low_def append_sendbuffer_to_def send_object_init_def Let_def set_wb_list_def wb_list_def
      list_uncomplete_def send_buffer_locked_def)

theorem low_user_object_asserts_witness:
  "\<forall>w. \<exists>st'. append_sendbuffer_low demo_sys (socket_server_userobject demo_open) 2 5 USEROBJECT = Some st'
     \<and> send_buffer_locked demo_sys w st' 2 0 = None"
proof
  fix w
  let ?st = "socket_server_userobject demo_open"
  have "ss_soi (st_ss ?st)" "s_low (slot ?st 2) = []"
    by (simp_all add: socket_server_userobject_def demo_fields demo_idle_def demo_socket_def)
  moreover have "soi_buffer demo_sys 5 (st_nd ?st) \<noteq> 5" by (simp add: demo_sys_def)
  ultimately show "\<exists>st'. append_sendbuffer_low demo_sys ?st 2 5 USEROBJECT = Some st' \<and> send_buffer_locked demo_sys w st' 2 0 = None"
    using low_user_object_asserts [of ?st 2 demo_sys 5 w 0] by blast
qed

end
