(* ===== verification/Skynet_Netpack.thy ===== *)
theory Skynet_Netpack
  imports Skynet_Socket_Server
begin

text \<open>
  The packages of \<^verbatim>\<open>lualib-src/lua-netpack.c\<close>: a package is a 16-bit big-endian size and that
  many bytes. \<open>lfilter\<close> cuts the data of the sockets into packages, whatever the pieces in
  which they arrive, and keeps the beginning of an unfinished package of each socket in a
  hash table; \<open>lpop\<close> takes complete packages from a ring buffer.

  Every block of this file has one owner at a time (the message, an unfinished package, a
  place of the ring, the Lua program), so a block is the bytes written to it and
  \<open>skynet_free\<close> drops them. A block of an unfinished package has the bytes read so far;
  copying beyond its allocated size is the failure \<open>None\<close>. The arrays of fixed size are
  functions; a place that was never written is \<open>None\<close>. The userdata on the Lua stack at
  index 1 is an argument and a result, NULL as \<open>None\<close>; the values pushed after it are the
  datatype \<open>np_result\<close>.

  The theorems: any cutting of a stream into pieces is reassembled into the packages that
  were packed (\<open>filter_data_reassembles\<close>, \<open>pack_receive_roundtrip\<close>), and the queue is a
  FIFO (\<open>netpack_queue_fifo\<close>).
\<close>

definition QUEUESIZE :: nat where "QUEUESIZE = 1024"
definition HASHSIZE :: nat where "HASHSIZE = 4096"

record netpack =
  np_id :: cint
  np_size :: nat
  np_buffer :: string

record uncomplete =
  uc_id :: cint
  uc_size :: nat
  uc_buffer :: string
  uc_read :: int
  uc_header :: nat

record netqueue =
  nq_cap :: nat
  nq_head :: nat
  nq_tail :: nat
  nq_hash :: "nat \<Rightarrow> uncomplete list"
  nq_queue :: "nat \<Rightarrow> netpack option"

datatype np_result =
    NP_none
  | NP_data cint string nat
  | NP_more
  | NP_error cint string
  | NP_open cint string
  | NP_close cint
  | NP_warning cint cint

subsection \<open>The queue\<close>

definition hash_fd :: "cint \<Rightarrow> nat" where
  "hash_fd fd = unat (signed_drop_bit 24 fd + signed_drop_bit 12 fd + fd) mod HASHSIZE"

text \<open>\<open>remove_fd\<close> unlinks the first entry of a socket from its chain.\<close>

fun remove_fd :: "cint \<Rightarrow> uncomplete list \<Rightarrow> uncomplete option \<times> uncomplete list" where
  "remove_fd fd [] = (None, [])"
| "remove_fd fd (uc # rest) =
     (if uc_id uc = fd then (Some uc, rest)
      else (let (r, rest') = remove_fd fd rest in (r, uc # rest')))"

definition find_uncomplete :: "netqueue option \<Rightarrow> cint \<Rightarrow> uncomplete option \<times> netqueue option" where
  "find_uncomplete q fd =
     (case q of
        None \<Rightarrow> (None, None)
      | Some q \<Rightarrow>
          (let h = hash_fd fd; (r, chain) = remove_fd fd (nq_hash q h)
           in (r, Some (q\<lparr>nq_hash := (nq_hash q)(h := chain)\<rparr>))))"

definition get_queue :: "netqueue option \<Rightarrow> netqueue" where
  "get_queue q =
     (case q of
        Some q \<Rightarrow> q
      | None \<Rightarrow> \<lparr>nq_cap = QUEUESIZE, nq_head = 0, nq_tail = 0, nq_hash = (\<lambda>_. []), nq_queue = (\<lambda>_. None)\<rparr>)"

definition np_expand_queue :: "netqueue \<Rightarrow> netqueue" where
  "np_expand_queue q =
     \<lparr>nq_cap = nq_cap q + QUEUESIZE, nq_head = 0, nq_tail = nq_cap q, nq_hash = nq_hash q,
      nq_queue = (\<lambda>i. if i < nq_cap q then nq_queue q ((nq_head q + i) mod nq_cap q) else None)\<rparr>"

definition push_data :: "netqueue option \<Rightarrow> cint \<Rightarrow> string \<Rightarrow> nat \<Rightarrow> netqueue" where
  "push_data q fd buffer sz =
     (let q = get_queue q;
          t = nq_tail q + 1;
          q = q\<lparr>nq_queue := (nq_queue q)(nq_tail q \<mapsto> \<lparr>np_id = fd, np_size = sz, np_buffer = buffer\<rparr>),
                nq_tail := (if t \<ge> nq_cap q then t - nq_cap q else t)\<rparr>
      in if nq_head q = nq_tail q then np_expand_queue q else q)"

text \<open>The new entry at the head of its chain, with the fields the callers set.\<close>

definition save_uncomplete :: "netqueue option \<Rightarrow> cint \<Rightarrow> uncomplete \<Rightarrow> netqueue" where
  "save_uncomplete q fd uc =
     (let q = get_queue q; h = hash_fd fd
      in q\<lparr>nq_hash := (nq_hash q)(h := uc\<lparr>uc_id := fd\<rparr> # nq_hash q h)\<rparr>)"

definition uc_half :: "cint \<Rightarrow> char \<Rightarrow> uncomplete" where
  "uc_half fd c = \<lparr>uc_id = fd, uc_size = 0, uc_buffer = [], uc_read = -1, uc_header = of_char c\<rparr>"

definition uc_part :: "cint \<Rightarrow> nat \<Rightarrow> string \<Rightarrow> uncomplete" where
  "uc_part fd pack_size bs =
     \<lparr>uc_id = fd, uc_size = pack_size, uc_buffer = bs, uc_read = int (length bs), uc_header = 0\<rparr>"

definition read_size :: "string \<Rightarrow> nat" where
  "read_size buffer = of_char (buffer ! 0) * 256 + of_char (buffer ! 1)"

text \<open>
  The packages after the first one of a piece of data, \<open>buffer\<close> being the \<open>size\<close> bytes that
  are left; reading a size from fewer than two bytes is the failure.
\<close>

function push_more :: "netqueue option \<Rightarrow> cint \<Rightarrow> string \<Rightarrow> netqueue option" where
  "push_more q fd buffer =
     (if buffer = [] then None
      else if length buffer = 1 then Some (save_uncomplete q fd (uc_half fd (buffer ! 0)))
      else (let pack_size = read_size buffer; buffer = drop 2 buffer
            in if length buffer < pack_size then Some (save_uncomplete q fd (uc_part fd pack_size buffer))
               else (let q = push_data q fd (take pack_size buffer) pack_size; buffer = drop pack_size buffer
                     in if length buffer > 0 then push_more (Some q) fd buffer else Some q)))"
  by pat_completeness auto
termination
  by (relation "measure (\<lambda>(q, fd, buffer). length buffer)") auto

declare push_more.simps [simp del]

definition close_uncomplete :: "netqueue option \<Rightarrow> cint \<Rightarrow> netqueue option" where
  "close_uncomplete q fd = snd (find_uncomplete q fd)"

subsection \<open>Filtering\<close>

text \<open>\<open>memcpy(uc->pack.buffer + uc->read, buffer, n)\<close>.\<close>

definition uc_memcpy :: "uncomplete \<Rightarrow> string \<Rightarrow> uncomplete option" where
  "uc_memcpy uc bs =
     (if nat (uc_read uc) \<le> length (uc_buffer uc) \<and> nat (uc_read uc) + length bs \<le> uc_size uc
      then Some (uc\<lparr>uc_buffer := take (nat (uc_read uc)) (uc_buffer uc) @ bs @ drop (nat (uc_read uc) + length bs) (uc_buffer uc)\<rparr>)
      else None)"

text \<open>The entry found for the socket gets its size, if only its first byte was known.\<close>

definition uc_begin :: "uncomplete \<Rightarrow> string \<Rightarrow> (uncomplete \<times> string) option" where
  "uc_begin uc buffer =
     (if uc_read uc < 0 then
        (if uc_read uc \<noteq> -1 \<or> buffer = [] then None
         else Some (uc\<lparr>uc_size := uc_header uc * 256 + of_char (hd buffer), uc_buffer := [], uc_read := 0\<rparr>, tl buffer))
      else Some (uc, buffer))"

definition fill_uncomplete :: "netqueue option \<Rightarrow> cint \<Rightarrow> uncomplete \<Rightarrow> string \<Rightarrow> (np_result \<times> netqueue option) option" where
  "fill_uncomplete q fd uc buffer = do {
     (uc, buffer) \<leftarrow> uc_begin uc buffer;
     let need = uc_size uc - nat (uc_read uc);
     if length buffer < need then do {
       uc \<leftarrow> uc_memcpy uc buffer;
       let uc = uc\<lparr>uc_read := uc_read uc + int (length buffer)\<rparr>;
       q \<leftarrow> q;
       Some (NP_none, Some (q\<lparr>nq_hash := (nq_hash q)(hash_fd fd := uc # nq_hash q (hash_fd fd))\<rparr>)) }
     else do {
       uc \<leftarrow> uc_memcpy uc (take need buffer);
       let buffer = drop need buffer;
       if buffer = [] then Some (NP_data fd (uc_buffer uc) (uc_size uc), q)
       else do {
         q \<leftarrow> push_more (Some (push_data q fd (uc_buffer uc) (uc_size uc))) fd buffer;
         Some (NP_more, Some q) } } }"

definition filter_data :: "netqueue option \<Rightarrow> cint \<Rightarrow> string \<Rightarrow> (np_result \<times> netqueue option) option" where
  "filter_data q fd buffer =
     (case find_uncomplete q fd of
        (Some uc, q) \<Rightarrow> fill_uncomplete q fd uc buffer
      | (None, q) \<Rightarrow>
          (if buffer = [] then None
           else if length buffer = 1 then Some (NP_none, Some (save_uncomplete q fd (uc_half fd (buffer ! 0))))
           else (let pack_size = read_size buffer; buffer = drop 2 buffer
                 in if length buffer < pack_size then Some (NP_none, Some (save_uncomplete q fd (uc_part fd pack_size buffer)))
                    else if length buffer = pack_size then Some (NP_data fd buffer pack_size, q)
                    else do {
                      q \<leftarrow> push_more (Some (push_data q fd (take pack_size buffer) pack_size)) fd (drop pack_size buffer);
                      Some (NP_more, Some q) })))"

text \<open>
  A socket message: its type, \<open>id\<close> and \<open>ud\<close>, the data block if there is one, and the text
  behind it otherwise. The data of a message is \<open>ud\<close> bytes long; a text to push whose size
  was set to -1 because there is a data block is the failure.
\<close>

definition lfilter ::
  "netqueue option \<Rightarrow> cint \<Rightarrow> cint \<Rightarrow> cint \<Rightarrow> string option \<Rightarrow> string \<Rightarrow> (np_result \<times> netqueue option) option" where
  "lfilter q type mid ud buffer tail =
     (if type = SKYNET_SOCKET_TYPE_DATA then do {
        b \<leftarrow> buffer;
        if unat ud \<le> length b then filter_data q mid (take (unat ud) b) else None }
      else if type = SKYNET_SOCKET_TYPE_CONNECT then Some (NP_none, q)
      else if type = SKYNET_SOCKET_TYPE_CLOSE then Some (NP_close mid, close_uncomplete q mid)
      else if type = SKYNET_SOCKET_TYPE_ACCEPT then (if buffer = None then Some (NP_open ud tail, q) else None)
      else if type = SKYNET_SOCKET_TYPE_ERROR then
        (if buffer = None then Some (NP_error mid tail, close_uncomplete q mid) else None)
      else if type = SKYNET_SOCKET_TYPE_WARNING then Some (NP_warning mid ud, q)
      else Some (NP_none, q))"

subsection \<open>Taking packages\<close>

definition lpop :: "netqueue option \<Rightarrow> (netpack option \<times> netqueue option) option" where
  "lpop q =
     (case q of
        None \<Rightarrow> Some (None, None)
      | Some q \<Rightarrow>
          (if nq_head q = nq_tail q then Some (None, Some q)
           else do {
             np \<leftarrow> nq_queue q (nq_head q);
             Some (Some np, Some (q\<lparr>nq_head := (if nq_head q + 1 \<ge> nq_cap q then 0 else nq_head q + 1)\<rparr>)) }))"

text \<open>\<open>lclear\<close> frees the unfinished packages and those from head to tail.\<close>

definition lclear :: "netqueue option \<Rightarrow> netqueue option" where
  "lclear q = map_option (\<lambda>q. q\<lparr>nq_hash := (\<lambda>_. []), nq_head := 0, nq_tail := 0\<rparr>) q"

definition write_size :: "nat \<Rightarrow> string" where
  "write_size len = [char_of (len div 256 mod 256), char_of (len mod 256)]"

definition lpack :: "string \<Rightarrow> string option" where
  "lpack s = (if length s \<ge> 0x10000 then None else Some (write_size (length s) @ s))"

subsection \<open>The stream of packages\<close>

text \<open>The complete packages at the beginning of a byte stream, and the rest.\<close>

function frames :: "string \<Rightarrow> string list \<times> string" where
  "frames bs =
     (if length bs < 2 \<or> length bs < 2 + read_size bs then ([], bs)
      else (let n = read_size bs; (ps, r) = frames (drop (2 + n) bs)
            in (take n (drop 2 bs) # ps, r)))"
  by pat_completeness auto
termination
  by (relation "measure length") auto

declare frames.simps [simp del]

lemma read_size_less: "read_size bs < 65536"
proof -
  have "(of_char (bs ! 0) :: nat) \<le> 255" "(of_char (bs ! 1) :: nat) \<le> 255"
    using of_char_less [of "bs ! 0"] of_char_less [of "bs ! 1"] by linarith+
  then show ?thesis unfolding read_size_def by linarith
qed

lemma read_size_append: "2 \<le> length bs \<Longrightarrow> read_size (bs @ cs) = read_size bs"
  by (cases bs) (auto simp: read_size_def nth_append)

lemma frames_short: "length bs < 2 \<or> length bs < 2 + read_size bs \<Longrightarrow> frames bs = ([], bs)"
  by (subst frames.simps) simp

lemma frames_step:
  assumes "2 + read_size bs \<le> length bs"
  shows "frames bs = (take (read_size bs) (drop 2 bs) # fst (frames (drop (2 + read_size bs) bs)),
     snd (frames (drop (2 + read_size bs) bs)))"
  using assms by (subst frames.simps) (simp add: Let_def split: prod.split)

text \<open>Cutting the stream anywhere gives the same packages.\<close>

lemma frames_append:
  "frames (xs @ ys) = (fst (frames xs) @ fst (frames (snd (frames xs) @ ys)), snd (frames (snd (frames xs) @ ys)))"
proof (induction xs rule: frames.induct)
  case (1 bs)
  show ?case
  proof (cases "length bs < 2 \<or> length bs < 2 + read_size bs")
    case True
    then show ?thesis by (simp add: frames_short)
  next
    case False
    let ?n = "read_size bs"
    have n: "read_size (bs @ ys) = ?n" using False by (simp add: read_size_append)
    have d: "drop (2 + ?n) (bs @ ys) = drop (2 + ?n) bs @ ys" "take ?n (drop 2 (bs @ ys)) = take ?n (drop 2 bs)"
      using False by simp_all
    have "frames (bs @ ys) = (take ?n (drop 2 bs) # fst (frames (drop (2 + ?n) bs @ ys)), snd (frames (drop (2 + ?n) bs @ ys)))"
      using frames_step [of "bs @ ys"] False unfolding n d by simp
    moreover have "frames bs = (take ?n (drop 2 bs) # fst (frames (drop (2 + ?n) bs)), snd (frames (drop (2 + ?n) bs)))"
      using frames_step [of bs] False by simp
    ultimately show ?thesis using "1.IH" [OF False, of ?n] by simp
  qed
qed

lemma write_size_read:
  assumes "n < 65536"
  shows "read_size (write_size n @ bs) = n" "length (write_size n) = 2"
proof -
  have "n div 256 < 256" using assms by simp
  then show "read_size (write_size n @ bs) = n" by (simp add: read_size_def write_size_def of_char_of)
  show "length (write_size n) = 2" by (simp add: write_size_def)
qed

lemma frames_pack:
  assumes "length s < 65536"
  shows "frames (write_size (length s) @ s @ rest) = (s # fst (frames rest), snd (frames rest))"
proof -
  note w = write_size_read [OF assms]
  have "frames (write_size (length s) @ s @ rest) =
    (take (length s) (drop 2 (write_size (length s) @ s @ rest))
       # fst (frames (drop (2 + length s) (write_size (length s) @ s @ rest))),
     snd (frames (drop (2 + length s) (write_size (length s) @ s @ rest))))"
    using frames_step [of "write_size (length s) @ s @ rest"] w by simp
  moreover have "drop (2 + length s) (write_size (length s) @ s @ rest) = rest"
    "drop 2 (write_size (length s) @ s @ rest) = s @ rest" by (simp_all add: write_size_def)
  ultimately show ?thesis by (simp only: append_eq_conv_conj [THEN iffD1, OF refl] take_append, simp)
qed

subsection \<open>The ring of packages\<close>

definition nq_len :: "netqueue \<Rightarrow> nat" where
  "nq_len q = (if nq_head q \<le> nq_tail q then nq_tail q - nq_head q else nq_tail q + nq_cap q - nq_head q)"

definition ring_at :: "netqueue \<Rightarrow> nat \<Rightarrow> netpack option" where
  "ring_at q i = nq_queue q ((nq_head q + i) mod nq_cap q)"

definition nq_list :: "netqueue \<Rightarrow> netpack list" where
  "nq_list q = map (\<lambda>i. the (ring_at q i)) [0..<nq_len q]"

definition ring_ok :: "netqueue \<Rightarrow> bool" where
  "ring_ok q \<longleftrightarrow> nq_head q < nq_cap q \<and> nq_tail q < nq_cap q \<and> (\<forall>i < nq_len q. ring_at q i \<noteq> None)"

lemma nq_len_less: "ring_ok q \<Longrightarrow> nq_len q < nq_cap q"
  by (auto simp: ring_ok_def nq_len_def)

lemma ring_index:
  assumes "ring_ok q" and "i < nq_cap q" and "j < nq_cap q"
  shows "(nq_head q + i) mod nq_cap q = (nq_head q + j) mod nq_cap q \<longleftrightarrow> i = j"
  using assms by (auto simp: ring_ok_def mod_if)

lemma ring_tail: "ring_ok q \<Longrightarrow> (nq_head q + nq_len q) mod nq_cap q = nq_tail q"
  by (auto simp: ring_ok_def nq_len_def mod_if)

lemma push_data_ring:
  fixes fd :: cint and b :: string and n :: nat
  assumes "ring_ok q"
  defines "q' \<equiv> push_data (Some q) fd b n"
  shows "ring_ok q'" "nq_list q' = nq_list q @ [\<lparr>np_id = fd, np_size = n, np_buffer = b\<rparr>]" "nq_hash q' = nq_hash q"
proof -
  let ?np = "\<lparr>np_id = fd, np_size = n, np_buffer = b\<rparr>" and ?len = "nq_len q" and ?cap = "nq_cap q"
  define q1 where "q1 = q\<lparr>nq_queue := (nq_queue q)(nq_tail q \<mapsto> ?np), nq_tail := (if nq_tail q + 1 \<ge> ?cap then nq_tail q + 1 - ?cap else nq_tail q + 1)\<rparr>"
  have q': "q' = (if nq_head q1 = nq_tail q1 then np_expand_queue q1 else q1)"
    unfolding q'_def push_data_def get_queue_def Let_def option.case q1_def ..
  have h: "nq_head q < ?cap" "nq_tail q < ?cap" using assms by (simp_all add: ring_ok_def)
  have len: "?len < ?cap" by (rule nq_len_less [OF assms(1)])
  have f1: "nq_head q1 = nq_head q" "nq_cap q1 = ?cap" "nq_hash q1 = nq_hash q" by (simp_all add: q1_def)
  have at: "ring_at q1 i = (if i = ?len then Some ?np else ring_at q i)" if "i < ?cap" for i
    using ring_index [OF assms(1) that len] ring_tail [OF assms(1)] by (auto simp: ring_at_def q1_def)
  have t1: "nq_tail q1 < ?cap" using h by (auto simp: q1_def)
  have full: "nq_head q1 = nq_tail q1 \<longleftrightarrow> Suc ?len = ?cap"
    using h by (auto simp: q1_def nq_len_def)
  show "nq_hash q' = nq_hash q" by (simp add: q' f1 np_expand_queue_def)
  have some: "ring_at q1 i \<noteq> None" if "i < Suc ?len" for i
    using that at [of i] len assms(1) by (auto simp: ring_ok_def less_Suc_eq)
  have lst: "map (\<lambda>i. the (ring_at q1 i)) [0..<Suc ?len] = nq_list q @ [?np]"
    using at len by (simp add: nq_list_def)
  show "ring_ok q'" "nq_list q' = nq_list q @ [?np]"
  proof -
    have "nq_len q' = Suc ?len \<and> nq_head q' < nq_cap q' \<and> nq_tail q' < nq_cap q' \<and> (\<forall>i < Suc ?len. ring_at q' i = ring_at q1 i)"
    proof (cases "nq_head q1 = nq_tail q1")
      case True
      then have c: "Suc ?len = ?cap" using full by simp
      then show ?thesis unfolding q' using True h f1
        by (auto simp: np_expand_queue_def nq_len_def ring_at_def QUEUESIZE_def)
    next
      case False
      then have "Suc ?len \<noteq> ?cap" using full by simp
      then show ?thesis unfolding q' using False h f1 t1 by (auto simp: nq_len_def q1_def)
    qed
    then show "ring_ok q'" "nq_list q' = nq_list q @ [?np]"
      using some lst by (simp_all add: ring_ok_def nq_list_def)
  qed
qed

lemma lpop_ring:
  assumes "ring_ok q"
  shows "case nq_list q of
       [] \<Rightarrow> lpop (Some q) = Some (None, Some q)
     | np # nps \<Rightarrow> \<exists>q'. lpop (Some q) = Some (Some np, Some q') \<and> ring_ok q' \<and> nq_list q' = nps \<and> nq_hash q' = nq_hash q"
proof (cases "nq_len q")
  case 0
  then have "nq_head q = nq_tail q" using assms by (auto simp: nq_len_def ring_ok_def split: if_splits)
  then show ?thesis using 0 by (simp add: nq_list_def lpop_def)
next
  case (Suc n)
  have h: "nq_head q < nq_cap q" "nq_tail q < nq_cap q" using assms by (simp_all add: ring_ok_def)
  have ne: "nq_head q \<noteq> nq_tail q" using Suc by (auto simp: nq_len_def)
  define q' where "q' = q\<lparr>nq_head := (if nq_head q + 1 \<ge> nq_cap q then 0 else nq_head q + 1)\<rparr>"
  obtain np where np: "ring_at q 0 = Some np" using assms Suc by (auto simp: ring_ok_def)
  then have pop: "lpop (Some q) = Some (Some np, Some q')" using ne h by (simp add: lpop_def ring_at_def q'_def)
  have len: "nq_len q' = n" using Suc h ne by (auto simp: nq_len_def q'_def split: if_splits)
  have at: "ring_at q' i = ring_at q (Suc i)" for i
  proof (cases "nq_head q + 1 \<ge> nq_cap q")
    case True
    then have "nq_head q + 1 = nq_cap q" using h by simp
    then have "nq_head q + Suc i = i + nq_cap q" by simp
    then show ?thesis using True unfolding ring_at_def q'_def by (simp only: mod_add_self2) simp
  qed (simp add: ring_at_def q'_def)
  have "nq_list q = np # map (\<lambda>i. the (ring_at q (Suc i))) [0..<n]"
    using np by (simp add: nq_list_def Suc upt_conv_Cons map_Suc_upt [symmetric] del: upt_Suc)
  moreover have "nq_list q' = map (\<lambda>i. the (ring_at q (Suc i))) [0..<n]" by (simp add: nq_list_def len at)
  moreover have "ring_ok q'" using assms h len at Suc by (auto simp: ring_ok_def) (auto simp: q'_def)
  ultimately show ?thesis using pop by (simp add: q'_def)
qed


subsection \<open>The unfinished packages\<close>

definition uc_ok :: "uncomplete \<Rightarrow> bool" where
  "uc_ok uc \<longleftrightarrow>
     (if uc_read uc < 0 then uc_read uc = -1 \<and> uc_header uc < 256
      else uc_read uc = int (length (uc_buffer uc)) \<and> length (uc_buffer uc) < uc_size uc \<and> uc_size uc < 65536)"

definition uc_bytes :: "uncomplete \<Rightarrow> string" where
  "uc_bytes uc = (if uc_read uc < 0 then [char_of (uc_header uc)] else write_size (uc_size uc) @ uc_buffer uc)"

definition chains_ok :: "(nat \<Rightarrow> uncomplete list) \<Rightarrow> bool" where
  "chains_ok hs \<longleftrightarrow>
     (\<forall>h. distinct (map uc_id (hs h)) \<and> (\<forall>uc \<in> set (hs h). hash_fd (uc_id uc) = h \<and> uc_ok uc))"

definition entry :: "netqueue option \<Rightarrow> cint \<Rightarrow> uncomplete option" where
  "entry q fd = (case q of None \<Rightarrow> None | Some q \<Rightarrow> find (\<lambda>uc. uc_id uc = fd) (nq_hash q (hash_fd fd)))"

definition held :: "netqueue option \<Rightarrow> cint \<Rightarrow> string" where
  "held q fd = (case entry q fd of None \<Rightarrow> [] | Some uc \<Rightarrow> uc_bytes uc)"

definition queued :: "netqueue option \<Rightarrow> netpack list" where
  "queued q = (case q of None \<Rightarrow> [] | Some q \<Rightarrow> nq_list q)"

definition np_ok :: "netqueue option \<Rightarrow> bool" where
  "np_ok q = (case q of None \<Rightarrow> True | Some q \<Rightarrow> ring_ok q \<and> chains_ok (nq_hash q))"

definition pack_of :: "cint \<Rightarrow> string \<Rightarrow> netpack" where
  "pack_of fd p = \<lparr>np_id = fd, np_size = length p, np_buffer = p\<rparr>"

lemma get_queue_facts:
  "np_ok q \<Longrightarrow> np_ok (Some (get_queue q))" "entry (Some (get_queue q)) fd = entry q fd" "queued (Some (get_queue q)) = queued q"
  by (cases q; simp add: get_queue_def np_ok_def ring_ok_def nq_len_def chains_ok_def entry_def queued_def nq_list_def QUEUESIZE_def)+

lemma remove_fd_find:
  "distinct (map uc_id us) \<Longrightarrow> remove_fd fd us = (find (\<lambda>uc. uc_id uc = fd) us, filter (\<lambda>uc. uc_id uc \<noteq> fd) us)"
proof (induction us)
  case (Cons a us)
  moreover have "filter (\<lambda>uc. uc_id uc \<noteq> uc_id a) us = us" if "uc_id a \<notin> uc_id ` set us"
    using that by (intro filter_True) (metis imageI)
  ultimately show ?case by auto
qed simp

lemma find_filter_other: "a \<noteq> b \<Longrightarrow> find (\<lambda>uc. uc_id uc = b) (filter (\<lambda>uc. uc_id uc \<noteq> a) us) = find (\<lambda>uc. uc_id uc = b) us"
  by (induction us) auto

lemma find_filter_same: "find (\<lambda>uc. uc_id uc = a) (filter (\<lambda>uc. uc_id uc \<noteq> a) us) = None"
  by (auto simp: find_None_iff)

lemma nq_list_hash [simp]: "nq_list (q\<lparr>nq_hash := h\<rparr>) = nq_list q" "ring_ok (q\<lparr>nq_hash := h\<rparr>) = ring_ok q"
  by (simp_all add: nq_list_def ring_ok_def nq_len_def ring_at_def)

lemma find_uncomplete_entry:
  assumes "np_ok q"
  obtains q' where "find_uncomplete q fd = (entry q fd, q')" "np_ok q'" "queued q' = queued q"
    "entry q' = (entry q)(fd := None)" "(q' = None) = (q = None)"
proof (cases q)
  case None
  then have "entry q = (\<lambda>_. None)" by (simp add: entry_def fun_eq_iff)
  then show ?thesis using None by (intro that [of q]) (simp_all add: find_uncomplete_def np_ok_def fun_eq_iff)
next
  case (Some q0)
  then have ok: "ring_ok q0" "chains_ok (nq_hash q0)" using assms by (simp_all add: np_ok_def)
  let ?c = "filter (\<lambda>uc. uc_id uc \<noteq> fd) (nq_hash q0 (hash_fd fd))"
  let ?q = "q0\<lparr>nq_hash := (nq_hash q0)(hash_fd fd := ?c)\<rparr>"
  have r: "remove_fd fd (nq_hash q0 (hash_fd fd)) = (entry q fd, ?c)"
    using ok by (simp add: remove_fd_find chains_ok_def entry_def Some)
  have "chains_ok (nq_hash ?q)" using ok(2) by (auto simp: chains_ok_def distinct_map_filter)
  moreover have "entry (Some ?q) = (entry q)(fd := None)"
  proof
    fix fd' show "entry (Some ?q) fd' = ((entry q)(fd := None)) fd'"
      by (auto simp: entry_def Some find_filter_same find_filter_other)
  qed
  ultimately show ?thesis using r ok by (intro that [of "Some ?q"]) (simp_all add: find_uncomplete_def Let_def Some np_ok_def queued_def)
qed

lemma entry_ok:
  assumes "np_ok q" "entry q fd = Some uc"
  shows "uc_ok uc" "uc_id uc = fd"
proof -
  obtain q0 where q0: "q = Some q0" using assms(2) by (cases q) (simp_all add: entry_def)
  have "uc \<in> set (nq_hash q0 (hash_fd fd)) \<and> uc_id uc = fd" using assms(2) by (auto simp: entry_def q0 find_Some_iff)
  then show "uc_ok uc" "uc_id uc = fd" using assms(1) by (auto simp: np_ok_def q0 chains_ok_def)
qed

lemma add_entry:
  assumes "np_ok (Some q)" "entry (Some q) fd = None" "uc_id uc = fd" "uc_ok uc"
  defines "q' \<equiv> q\<lparr>nq_hash := (nq_hash q)(hash_fd fd := uc # nq_hash q (hash_fd fd))\<rparr>"
  shows "np_ok (Some q')" "queued (Some q') = queued (Some q)" "entry (Some q') = (entry (Some q))(fd \<mapsto> uc)"
proof -
  have n: "fd \<notin> uc_id ` set (nq_hash q (hash_fd fd))" using assms(2) by (auto simp: entry_def find_None_iff)
  then show "np_ok (Some q')" using assms(1,3,4) unfolding q'_def np_ok_def chains_ok_def by auto
  show "queued (Some q') = queued (Some q)" by (simp add: queued_def q'_def)
  show "entry (Some q') = (entry (Some q))(fd \<mapsto> uc)" using assms(3) by (auto simp: entry_def q'_def)
qed

lemma save_uncomplete_entry:
  assumes "np_ok q" "entry q fd = None" "uc_id uc = fd" "uc_ok uc"
  shows "np_ok (Some (save_uncomplete q fd uc))" "queued (Some (save_uncomplete q fd uc)) = queued q"
    "entry (Some (save_uncomplete q fd uc)) = (entry q)(fd \<mapsto> uc)"
proof -
  have u: "uc\<lparr>uc_id := fd\<rparr> = uc" using assms(3) by (cases uc) simp
  have e: "entry (Some (get_queue q)) = entry q" by (rule ext) (rule get_queue_facts)
  have "entry (Some (get_queue q)) fd = None" by (simp add: e assms(2))
  from add_entry [OF get_queue_facts(1) [OF assms(1)] this assms(3,4)]
  show "np_ok (Some (save_uncomplete q fd uc))" "queued (Some (save_uncomplete q fd uc)) = queued q"
    "entry (Some (save_uncomplete q fd uc)) = (entry q)(fd \<mapsto> uc)"
    unfolding e get_queue_facts(3) by (simp_all add: save_uncomplete_def Let_def u)
qed

lemma push_data_queued:
  assumes "np_ok q" "n = length p"
  shows "np_ok (Some (push_data q fd p n))" "queued (Some (push_data q fd p n)) = queued q @ [pack_of fd p]"
    "entry (Some (push_data q fd p n)) = entry q"
proof -
  have g: "push_data q fd p n = push_data (Some (get_queue q)) fd p n" by (cases q) (simp_all add: push_data_def get_queue_def)
  have ok: "ring_ok (get_queue q)" using get_queue_facts(1) [OF assms(1)] by (simp add: np_ok_def)
  note r = push_data_ring [OF ok, of fd p n]
  show "np_ok (Some (push_data q fd p n))"
    using get_queue_facts(1) [OF assms(1)] r unfolding g by (simp add: np_ok_def)
  show "queued (Some (push_data q fd p n)) = queued q @ [pack_of fd p]"
    using get_queue_facts(3) [of q] r unfolding g by (simp add: queued_def pack_of_def assms(2))
  show "entry (Some (push_data q fd p n)) = entry q"
  proof
    fix fd' show "entry (Some (push_data q fd p n)) fd' = entry q fd'"
      using get_queue_facts(2) [of q fd'] r(3) unfolding g by (simp add: entry_def)
  qed
qed


subsection \<open>Reassembly\<close>

text \<open>What handling the bytes \<open>bs\<close> of a socket does when it queues every package it completes.\<close>

definition filtered :: "netqueue option \<Rightarrow> netqueue option \<Rightarrow> cint \<Rightarrow> string \<Rightarrow> bool" where
  "filtered q q' fd bs \<longleftrightarrow>
     np_ok q' \<and> queued q' = queued q @ map (pack_of fd) (fst (frames bs)) \<and> held q' = (held q)(fd := snd (frames bs))"

lemma held_entry: "entry q' = (entry q)(fd := e) \<Longrightarrow> held q' = (held q)(fd := (case e of None \<Rightarrow> [] | Some uc \<Rightarrow> uc_bytes uc))"
  by (auto simp: held_def fun_eq_iff)

lemma write_size_take: "2 \<le> length bs \<Longrightarrow> write_size (read_size bs) = take 2 bs"
  by (cases bs rule: list.exhaust; cases "tl bs")
    (auto simp: write_size_def read_size_def of_char_less less_Suc_eq_le div_mult2_eq)

lemma frames_Nil: "frames [] = ([], [])"
  by (simp add: frames_short)

lemma filtered_half:
  assumes "np_ok q" "entry q fd = None"
  shows "filtered q (Some (save_uncomplete q fd (uc_half fd c))) fd [c]"
proof -
  have "uc_ok (uc_half fd c)" by (simp add: uc_ok_def uc_half_def of_char_less)
  note s = save_uncomplete_entry [OF assms _ this]
  show ?thesis using s held_entry [OF s(3)]
    by (simp add: filtered_def frames_short) (simp add: uc_half_def uc_bytes_def)
qed

lemma filtered_part:
  assumes "np_ok q" "entry q fd = None" "2 \<le> length bs" "length (drop 2 bs) < read_size bs"
  shows "filtered q (Some (save_uncomplete q fd (uc_part fd (read_size bs) (drop 2 bs)))) fd bs"
proof -
  let ?u = "uc_part fd (read_size bs) (drop 2 bs)"
  have u: "uc_ok ?u" "uc_id ?u = fd" "uc_bytes ?u = bs"
    using assms(3,4) read_size_less [of bs] by (simp_all add: uc_ok_def uc_part_def uc_bytes_def write_size_take)
  note s = save_uncomplete_entry [OF assms(1,2) u(2,1)]
  have "frames bs = ([], bs)" using assms(3,4) by (intro frames_short) auto
  then show ?thesis using s held_entry [OF s(3)] u(3) by (simp add: filtered_def)
qed

lemma filtered_push:
  assumes "np_ok q" "frames bs = (p # ps, r)" "frames rest = (ps, r)" "n = length p"
    and "filtered (Some (push_data q fd p n)) q' fd rest"
  shows "filtered q q' fd bs"
proof -
  note s = push_data_queued [OF assms(1,4), of fd]
  have "held (Some (push_data q fd p n)) = held q" by (simp add: held_def fun_eq_iff s(3))
  then show ?thesis using assms(2,3,5) s(2) by (simp add: filtered_def)
qed

lemma push_more_filtered:
  assumes "buffer \<noteq> []" "np_ok q" "entry q fd = None"
  shows "\<exists>q'. push_more q fd buffer = Some q' \<and> filtered q (Some q') fd buffer"
  using assms
proof (induction q fd buffer rule: push_more.induct)
  case (1 q fd bs)
  show ?case
  proof (cases "length bs < 2 \<or> length (drop 2 bs) < read_size bs")
    case True
    show ?thesis
    proof (cases "length bs < 2")
      case True
      then obtain c where "bs = [c]" using "1.prems"(1) by (cases bs rule: list.exhaust; cases "tl bs") auto
      then show ?thesis using filtered_half [OF "1.prems"(2,3)] by (subst push_more.simps) simp
    next
      case False
      then show ?thesis using \<open>length bs < 2 \<or> _\<close> "1.prems" filtered_part [OF "1.prems"(2,3), of bs]
        by (subst push_more.simps) (auto simp: Let_def)
    qed
  next
    case False
    let ?n = "read_size bs" and ?p = "take (read_size bs) (drop 2 bs)" and ?r = "drop (2 + read_size bs) bs"
    let ?q = "push_data q fd ?p ?n"
    have f: "frames bs = (?p # fst (frames ?r), snd (frames ?r))" using False by (intro frames_step) auto
    have n: "?n = length ?p" using False by auto
    note s = push_data_queued [OF "1.prems"(2) n, of fd]
    have r: "drop ?n (drop 2 bs) = ?r" by (simp add: add.commute)
    have step: "push_more q fd bs = (if ?r \<noteq> [] then push_more (Some ?q) fd ?r else Some ?q)"
      using False "1.prems"(1) by (subst push_more.simps) (auto simp: Let_def r)
    have "\<exists>q'. push_more q fd bs = Some q' \<and> filtered (Some ?q) (Some q') fd ?r"
    proof (cases "?r = []")
      case True
      have "held (Some ?q) fd = []" by (simp add: held_def s(3) "1.prems"(3))
      then have "filtered (Some ?q) (Some ?q) fd []" using s(1) by (simp add: filtered_def frames_Nil fun_upd_idem)
      then show ?thesis unfolding step using True by simp
    next
      case r': False
      have "\<exists>q'. push_more (Some ?q) fd (drop ?n (drop 2 bs)) = Some q' \<and> filtered (Some ?q) (Some q') fd (drop ?n (drop 2 bs))"
        using False r' s(1) "1.prems" by (intro "1.IH" [OF _ _ refl refl _ refl refl]) (auto simp: r s(3))
      then show ?thesis unfolding step r using r' by simp
    qed
    then show ?thesis using filtered_push [OF "1.prems"(2) f _ n] by auto
  qed
qed

text \<open>What \<open>lfilter\<close> pushes when the packages \<open>ps\<close> are complete and the bytes \<open>r\<close> are left.\<close>

definition delivery :: "cint \<Rightarrow> string list \<Rightarrow> string \<Rightarrow> np_result" where
  "delivery fd ps r =
     (case ps of [] \<Rightarrow> NP_none | [p] \<Rightarrow> (if r = [] then NP_data fd p (length p) else NP_more) | _ \<Rightarrow> NP_more)"

definition delivered :: "netqueue option \<Rightarrow> netqueue option \<Rightarrow> cint \<Rightarrow> np_result \<Rightarrow> string \<Rightarrow> bool" where
  "delivered q q' fd res bs \<longleftrightarrow>
     (let (ps, r) = frames bs
      in res = delivery fd ps r \<and> np_ok q' \<and> held q' = (held q)(fd := r) \<and>
         queued q' = queued q @ (if res = NP_more then map (pack_of fd) ps else []))"

lemma delivered_none:
  assumes "filtered q q' fd bs" "fst (frames bs) = []"
  shows "delivered q q' fd NP_none bs"
  using assms by (auto simp: delivered_def filtered_def delivery_def split: prod.split)

lemma delivered_data:
  assumes "np_ok q" "entry q fd = None" "frames bs = ([p], [])"
  shows "delivered q q fd (NP_data fd p (length p)) bs"
proof -
  have "held q fd = []" by (simp add: held_def assms(2))
  then show ?thesis using assms(1,3) by (simp add: delivered_def delivery_def fun_upd_idem)
qed

lemma frames_rest_nonempty: "rest \<noteq> [] \<Longrightarrow> frames rest \<noteq> ([], [])"
  by (subst frames.simps) (auto simp: Let_def split: prod.split if_splits)

lemma delivered_more:
  assumes "np_ok q" "entry q fd = None" "frames bs = (p # fst (frames rest), snd (frames rest))" "rest \<noteq> []" "n = length p"
  shows "\<exists>q'. push_more (Some (push_data q fd p n)) fd rest = Some q' \<and> delivered q (Some q') fd NP_more bs"
proof -
  note s = push_data_queued [OF assms(1,5), of fd]
  obtain q' where q': "push_more (Some (push_data q fd p n)) fd rest = Some q'" "filtered (Some (push_data q fd p n)) (Some q') fd rest"
    using push_more_filtered [OF assms(4) s(1)] assms(2) s(3) by auto
  have "delivery fd (p # fst (frames rest)) (snd (frames rest)) = NP_more"
    using frames_rest_nonempty [OF assms(4)] by (cases "frames rest") (auto simp: delivery_def split: list.split)
  then show ?thesis using q' filtered_push [OF assms(1,3) _ assms(5), of rest fd "Some q'"] assms(3)
    by (auto simp: delivered_def filtered_def)
qed

lemma uc_begin_ok:
  assumes "uc_ok uc" "data \<noteq> []"
  obtains uc1 d where "uc_begin uc data = Some (uc1, d)" "uc_id uc1 = uc_id uc" "uc_read uc1 = int (length (uc_buffer uc1))"
    "length (uc_buffer uc1) \<le> uc_size uc1" "uc_size uc1 < 65536" "uc_bytes uc @ data = write_size (uc_size uc1) @ uc_buffer uc1 @ d"
proof (cases "uc_read uc < 0")
  case True
  obtain c d where data: "data = c # d" using assms(2) by (cases data) auto
  let ?n = "uc_header uc * 256 + of_char c"
  have h: "uc_read uc = -1" "uc_header uc < 256" using assms(1) True by (simp_all add: uc_ok_def)
  have "?n < 65536" using h(2) of_char_less [of c] by linarith
  moreover have "write_size ?n = [char_of (uc_header uc), c]" using h(2) of_char_less [of c] by (simp add: write_size_def)
  ultimately show ?thesis using h by (intro that [of "uc\<lparr>uc_size := ?n, uc_buffer := [], uc_read := 0\<rparr>" d])
     (simp_all add: uc_begin_def data uc_bytes_def)
next
  case False
  then show ?thesis using assms(1) by (intro that [of uc data]) (simp_all add: uc_begin_def uc_ok_def uc_bytes_def)
qed

lemma fill_uncomplete_delivered:
  assumes "np_ok (Some q)" "entry (Some q) fd = None" "uc_ok uc" "uc_id uc = fd" "data \<noteq> []"
  shows "\<exists>q' res. fill_uncomplete (Some q) fd uc data = Some (res, q') \<and> delivered (Some q) q' fd res (uc_bytes uc @ data)"
proof -
  obtain u d where u: "uc_begin uc data = Some (u, d)" "uc_id u = fd" "uc_read u = int (length (uc_buffer u))"
    "length (uc_buffer u) \<le> uc_size u" "uc_size u < 65536" "uc_bytes uc @ data = write_size (uc_size u) @ uc_buffer u @ d"
    using uc_begin_ok [OF assms(3,5)] assms(4) by metis
  let ?need = "uc_size u - length (uc_buffer u)"
  have cp: "uc_memcpy u x = Some (u\<lparr>uc_buffer := uc_buffer u @ x\<rparr>)" if "length x \<le> ?need" for x
    using that u(3,4) by (simp add: uc_memcpy_def)
  show ?thesis
  proof (cases "length d < ?need")
    case True
    let ?u = "u\<lparr>uc_buffer := uc_buffer u @ d, uc_read := uc_read u + int (length d)\<rparr>"
    let ?q = "q\<lparr>nq_hash := (nq_hash q)(hash_fd fd := ?u # nq_hash q (hash_fd fd))\<rparr>"
    have ok: "uc_ok ?u" "uc_id ?u = fd" using True u by (simp_all add: uc_ok_def)
    note s = add_entry [OF assms(1,2) ok(2,1)]
    have ub: "uc_bytes ?u = uc_bytes uc @ data" unfolding u(6) using u(3) by (simp add: uc_bytes_def)
    have fr: "frames (uc_bytes uc @ data) = ([], uc_bytes uc @ data)"
      using True u(4) write_size_read(1) [OF u(5)] by (intro frames_short) (simp add: u(6) write_size_read(2) [OF u(5)])
    have "filtered (Some q) (Some ?q) fd (uc_bytes uc @ data)"
      using s held_entry [OF s(3)] ub by (simp add: filtered_def fr)
    then have "delivered (Some q) (Some ?q) fd NP_none (uc_bytes uc @ data)" by (rule delivered_none) (simp add: fr)
    moreover have "fill_uncomplete (Some q) fd uc data = Some (NP_none, Some ?q)"
      using True u(3) by (simp add: fill_uncomplete_def u(1) cp)
    ultimately show ?thesis by blast
  next
    case False
    let ?p = "uc_buffer u @ take ?need d" and ?r = "drop ?need d"
    have len: "uc_size u = length ?p" using False u(4) by simp
    have "uc_bytes uc @ data = write_size (length ?p) @ ?p @ ?r" unfolding u(6) len [symmetric] by simp
    then have fr: "frames (uc_bytes uc @ data) = (?p # fst (frames ?r), snd (frames ?r))"
      using frames_pack [of ?p ?r] u(5) len by simp
    have f: "fill_uncomplete (Some q) fd uc data =
      (if ?r = [] then Some (NP_data fd ?p (uc_size u), Some q)
       else do { q \<leftarrow> push_more (Some (push_data (Some q) fd ?p (uc_size u))) fd ?r; Some (NP_more, Some q) })"
      using False u(3) by (simp add: fill_uncomplete_def u(1) cp Let_def)
    show ?thesis
    proof (cases "?r = []")
      case True
      then show ?thesis using delivered_data [OF assms(1,2), of "uc_bytes uc @ data" ?p] fr len f by (simp add: frames_Nil)
    next
      case False
      then show ?thesis using delivered_more [OF assms(1,2) fr False len] f by auto
    qed
  qed
qed

lemma filter_data_delivered:
  assumes "np_ok q" "data \<noteq> []"
  shows "\<exists>q' res. filter_data q fd data = Some (res, q') \<and> delivered q q' fd res (held q fd @ data)"
proof -
  obtain q1 where q1: "find_uncomplete q fd = (entry q fd, q1)" "np_ok q1" "queued q1 = queued q" "entry q1 = (entry q)(fd := None)"
    "(q1 = None) = (q = None)" using find_uncomplete_entry [OF assms(1)] .
  have h1: "held q1 = (held q)(fd := [])" using held_entry [OF q1(4)] by simp
  have del: "delivered q q' fd res bs" if "delivered q1 q' fd res bs" for q' res bs
    using that by (simp add: delivered_def h1 q1(3) split: prod.splits)
  have e1: "entry q1 fd = None" by (simp add: q1(4))
  show ?thesis
  proof (cases "entry q fd")
    case (Some uc)
    then obtain q0 where q0: "q = Some q0" by (cases q) (simp_all add: entry_def)
    note uc = entry_ok [OF assms(1) Some]
    obtain q2 where q2: "q1 = Some q2" using q1(5) q0 by (cases q1) auto
    show ?thesis using fill_uncomplete_delivered [OF _ _ uc assms(2), of q2] q1(2) e1 del Some
      by (auto simp: filter_data_def q1(1) q2 held_def)
  next
    case None
    then have bs: "held q fd @ data = data" by (simp add: held_def)
    let ?n = "read_size data" and ?p = "take (read_size data) (drop 2 data)" and ?r = "drop (2 + read_size data) data"
    consider c where "data = [c]" | "2 \<le> length data" "length (drop 2 data) < ?n" | "2 \<le> length data" "?n \<le> length (drop 2 data)"
      using assms(2) by (cases data rule: list.exhaust; cases "tl data") force+
    then show ?thesis
    proof cases
      case 1
      then show ?thesis using del [OF delivered_none [OF filtered_half [OF q1(2) e1]]] unfolding bs
        by (auto simp: filter_data_def q1(1) None frames_short)
    next
      case 2
      have "fst (frames data) = []" using 2 by (subst frames_short) auto
      then show ?thesis using 2 del [OF delivered_none [OF filtered_part [OF q1(2) e1 2]]] unfolding bs
        by (auto simp: filter_data_def q1(1) None Let_def)
    next
      case 3
      then have fr: "frames data = (?p # fst (frames ?r), snd (frames ?r))" by (intro frames_step) simp
      have n: "?n = length ?p" using 3 by simp
      show ?thesis
      proof (cases "?r = []")
        case True
        then have "?n = length (drop 2 data)" using 3 by simp
        then show ?thesis using 3 del [OF delivered_data [OF q1(2) e1, of data ?p]] True fr unfolding bs
          by (auto simp: filter_data_def q1(1) None Let_def frames_Nil)
      next
        case False
        then obtain q' where "push_more (Some (push_data q1 fd ?p ?n)) fd ?r = Some q'" "delivered q1 (Some q') fd NP_more data"
          using delivered_more [OF q1(2) e1 fr False n] by blast
        then show ?thesis using 3 False del unfolding bs
          by (auto simp: filter_data_def q1(1) None Let_def add.commute)
      qed
    qed
  qed
qed


subsection \<open>The receiver\<close>

text \<open>
  A program that handles each piece of data with \<open>filter_data\<close>, takes the package of
  \<open>NP_data\<close> at once and pops all packages after \<open>NP_more\<close>.
\<close>

fun pop_all :: "nat \<Rightarrow> netqueue option \<Rightarrow> (netpack list \<times> netqueue option) option" where
  "pop_all 0 q = Some ([], q)"
| "pop_all (Suc n) q = do {
     (np, q) \<leftarrow> lpop q;
     case np of
       None \<Rightarrow> Some ([], q)
     | Some np \<Rightarrow> do { (nps, q) \<leftarrow> pop_all n q; Some (np # nps, q) } }"

fun receive :: "netqueue option \<Rightarrow> cint \<Rightarrow> string list \<Rightarrow> (netpack list \<times> netqueue option) option" where
  "receive q fd [] = Some ([], q)"
| "receive q fd (d # ds) = do {
     (res, q) \<leftarrow> filter_data q fd d;
     (nps, q) \<leftarrow> (case res of
         NP_data fd p n \<Rightarrow> Some ([\<lparr>np_id = fd, np_size = n, np_buffer = p\<rparr>], q)
       | NP_more \<Rightarrow> pop_all (length (queued q)) q
       | _ \<Rightarrow> Some ([], q));
     (nps', q) \<leftarrow> receive q fd ds;
     Some (nps @ nps', q) }"

lemma lpop_queued:
  assumes "np_ok q"
  shows "queued q = [] \<Longrightarrow> lpop q = Some (None, q)"
    and "queued q = np # nps \<Longrightarrow> \<exists>q'. lpop q = Some (Some np, q') \<and> np_ok q' \<and> queued q' = nps \<and> held q' = held q"
proof -
  show "queued q = [] \<Longrightarrow> lpop q = Some (None, q)"
    using assms lpop_ring by (cases q) (force simp: queued_def lpop_def np_ok_def)+
  assume np: "queued q = np # nps"
  then obtain q0 where q: "q = Some q0" by (cases q) (simp_all add: queued_def)
  then obtain q' where "lpop (Some q0) = Some (Some np, Some q')" "ring_ok q'" "nq_list q' = nps" "nq_hash q' = nq_hash q0"
    using lpop_ring [of q0] np assms by (auto simp: queued_def np_ok_def)
  then show "\<exists>q'. lpop q = Some (Some np, q') \<and> np_ok q' \<and> queued q' = nps \<and> held q' = held q"
    using assms by (intro exI [of _ "Some q'"]) (simp add: q np_ok_def queued_def held_def [abs_def] entry_def)
qed

lemma pop_all_queued:
  "np_ok q \<Longrightarrow> queued q = nps \<Longrightarrow> \<exists>q'. pop_all (length nps) q = Some (nps, q') \<and> np_ok q' \<and> queued q' = [] \<and> held q' = held q"
proof (induction nps arbitrary: q)
  case (Cons np nps)
  obtain q1 where q1: "lpop q = Some (Some np, q1)" "np_ok q1" "queued q1 = nps" "held q1 = held q"
    using lpop_queued(2) [OF Cons.prems] by blast
  then show ?case using Cons.IH [OF q1(2,3)] by auto
qed auto

lemma receive_frames:
  assumes "np_ok q" "queued q = []" "\<forall>d \<in> set ds. d \<noteq> []"
  shows "\<exists>q'. receive q fd ds = Some (map (pack_of fd) (fst (frames (held q fd @ concat ds))), q') \<and> np_ok q' \<and>
     queued q' = [] \<and> held q' = (held q)(fd := snd (frames (held q fd @ concat ds)))"
  using assms
proof (induction ds arbitrary: q)
  case Nil
  have "frames (held q fd) = ([], held q fd)"
  proof (cases "entry q fd")
    case (Some uc)
    then obtain q0 where q: "q = Some q0" by (cases q) (simp_all add: entry_def)
    have ok: "uc_ok uc" by (rule entry_ok [OF Nil(1) Some])
    then show ?thesis using Some
      by (auto simp: held_def uc_bytes_def uc_ok_def write_size_read split: if_splits intro!: frames_short)
  qed (simp add: held_def frames_Nil)
  then show ?case using Nil by (simp add: fun_upd_idem)
next
  case (Cons d ds)
  let ?bs = "held q fd @ d"
  obtain ps r where f: "frames ?bs = (ps, r)" by (cases "frames ?bs")
  obtain q1 res where q1: "filter_data q fd d = Some (res, q1)" "delivered q q1 fd res ?bs"
    using filter_data_delivered [OF Cons.prems(1), of d fd] Cons.prems(3) by auto
  then have d: "res = delivery fd ps r" "np_ok q1" "held q1 = (held q)(fd := r)"
    "queued q1 = (if res = NP_more then map (pack_of fd) ps else [])"
    using f Cons.prems(2) by (auto simp: delivered_def)
  have "\<exists>q2. (case res of NP_data fd p n \<Rightarrow> Some ([\<lparr>np_id = fd, np_size = n, np_buffer = p\<rparr>], q1)
       | NP_more \<Rightarrow> pop_all (length (queued q1)) q1 | _ \<Rightarrow> Some ([], q1)) = Some (map (pack_of fd) ps, q2) \<and>
      np_ok q2 \<and> queued q2 = [] \<and> held q2 = held q1"
    using pop_all_queued [OF d(2) refl] d(2,4) unfolding d(1)
    by (auto simp: delivery_def pack_of_def split: list.splits if_splits)
  then obtain q2 where q2: "(case res of NP_data fd p n \<Rightarrow> Some ([\<lparr>np_id = fd, np_size = n, np_buffer = p\<rparr>], q1)
       | NP_more \<Rightarrow> pop_all (length (queued q1)) q1 | _ \<Rightarrow> Some ([], q1)) = Some (map (pack_of fd) ps, q2)"
      "np_ok q2" "queued q2 = []" "held q2 = held q1" by blast
  have fr: "frames (?bs @ concat ds) = (ps @ fst (frames (held q2 fd @ concat ds)), snd (frames (held q2 fd @ concat ds)))"
    using frames_append [of ?bs "concat ds"] f q2(4) d(3) by simp
  have nonempty: "\<forall>d \<in> set ds. d \<noteq> []" using Cons.prems(3) by simp
  show ?case using Cons.IH [OF q2(2,3) nonempty] fr q1(1) q2(1,4) d(3) by (auto cong: if_cong)
qed

lemma frames_packed:
  "\<forall>m \<in> set ms. length m < 65536 \<Longrightarrow> frames (concat (map (\<lambda>m. write_size (length m) @ m) ms)) = (ms, [])"
  by (induction ms) (simp_all add: frames_Nil frames_pack)


lemma those_lpack:
  "those (map lpack ms) = Some ss \<Longrightarrow> (\<forall>m \<in> set ms. length m < 65536) \<and> ss = map (\<lambda>m. write_size (length m) @ m) ms"
  by (induction ms arbitrary: ss) (auto simp: lpack_def split: if_splits)

subsection \<open>Properties\<close>

text \<open>
  C20. For non-empty data of a socket, whatever was received before: \<open>filter_data\<close> returns
  (no failure, no copy outside a block); the bytes held for the socket and the new data
  together are cut into the complete packages and the rest as the format says; the rest is
  held for the socket afterwards and nothing changes for other sockets; no package gives no
  result, exactly one package with nothing left is returned as data, otherwise all of them
  are appended to the queue in order and \<open>more\<close> is returned.
\<close>

theorem filter_data_reassembles:
  assumes "np_ok q" and "data \<noteq> []" and "frames (held q fd @ data) = (ps, r)"
  shows "\<exists>q'. filter_data q fd data = Some (delivery fd ps r, q') \<and> np_ok q' \<and> held q' = (held q)(fd := r) \<and>
     queued q' = queued q @ (if delivery fd ps r = NP_more then map (pack_of fd) ps else [])"
  using filter_data_delivered [OF assms(1,2), of fd] assms(3) by (auto simp: delivered_def)

theorem filter_data_reassembles_witness:
  "\<exists>q'. filter_data None 7 [CHR 0x00, CHR 0x02, CHR ''a'', CHR ''b'', CHR 0x00] = Some (NP_more, q') \<and> np_ok q' \<and>
     held q' = (held None)(7 := [CHR 0x00]) \<and> queued q' = [pack_of 7 ''ab'']"
proof -
  have "frames (held None 7 @ [CHR 0x00, CHR 0x02, CHR ''a'', CHR ''b'', CHR 0x00]) = ([''ab''], [CHR 0x00])"
    by (simp add: held_def entry_def frames.simps read_size_def)
  from filter_data_reassembles [OF _ _ this] show ?thesis by (simp add: np_ok_def delivery_def queued_def)
qed

text \<open>
  C19. Messages packed by \<open>lpack\<close> and sent over a connection arrive unchanged and in order,
  whatever the non-empty pieces in which the stream is read: a receiver that starts with
  nothing held for the socket gets exactly the messages, and nothing is left over.
\<close>

theorem pack_receive_roundtrip:
  assumes "np_ok q" and "queued q = []" and "held q fd = []"
    and "map_option concat (those (map lpack ms)) = Some (concat pieces)" and "[] \<notin> set pieces"
  shows "\<exists>q'. receive q fd pieces = Some (map (pack_of fd) ms, q') \<and> np_ok q' \<and> queued q' = [] \<and> held q' = held q"
proof -
  obtain ss where ss: "those (map lpack ms) = Some ss" "concat ss = concat pieces" using assms(4) by auto
  have "(\<forall>m \<in> set ms. length m < 65536) \<and> ss = map (\<lambda>m. write_size (length m) @ m) ms" by (rule those_lpack [OF ss(1)])
  then have "frames (concat pieces) = (ms, [])" using frames_packed [of ms] ss(2) by simp
  then show ?thesis using receive_frames [OF assms(1,2), of pieces fd] assms(3,5) by (auto simp: fun_upd_idem)
qed

theorem pack_receive_roundtrip_witness:
  "\<exists>q'. receive None 7 [[CHR 0x00], [CHR 0x02, CHR ''a''], [CHR ''b'', CHR 0x00, CHR 0x00]] = Some ([pack_of 7 ''ab'', pack_of 7 []], q') \<and>
     np_ok q' \<and> queued q' = [] \<and> held q' = held None"
proof -
  have "map_option concat (those (map lpack [''ab'', []])) = Some (concat [[CHR 0x00], [CHR 0x02, CHR ''a''], [CHR ''b'', CHR 0x00, CHR 0x00]])"
    by (simp add: lpack_def write_size_def char_of_eq_iff take_bit_eq_mod)
  from pack_receive_roundtrip [OF _ _ _ this, of None 7] show ?thesis
    by (simp add: np_ok_def queued_def held_def entry_def)
qed

text \<open>
  The queue of packages is a FIFO: on a well-formed queue a push appends one package and
  a pop takes the oldest one, also when the ring wraps around or is enlarged, and neither
  touches the unfinished packages.
\<close>

theorem netpack_queue_fifo:
  assumes "np_ok q"
  shows "np_ok (Some (push_data q fd p (length p))) \<and>
    queued (Some (push_data q fd p (length p))) = queued q @ [pack_of fd p] \<and>
    held (Some (push_data q fd p (length p))) = held q \<and>
    (case queued q of
       [] \<Rightarrow> lpop q = Some (None, q)
     | np # nps \<Rightarrow> \<exists>q'. lpop q = Some (Some np, q') \<and> np_ok q' \<and> queued q' = nps \<and> held q' = held q)"
  using push_data_queued [OF assms refl, of fd p] lpop_queued [OF assms]
  by (simp add: held_def [abs_def] split: list.split)

theorem netpack_queue_fifo_witness:
  "queued (Some (push_data (Some (push_data None 7 ''ab'' 2)) 8 ''c'' (length ''c''))) = [pack_of 7 ''ab'', pack_of 8 ''c'']"
proof -
  have "np_ok (Some (push_data None 7 ''ab'' 2))"
    by (simp add: push_data_def get_queue_def QUEUESIZE_def np_ok_def ring_ok_def nq_len_def ring_at_def chains_ok_def)
  moreover have "queued (Some (push_data None 7 ''ab'' 2)) = [pack_of 7 ''ab'']"
    by (simp add: push_data_def get_queue_def QUEUESIZE_def queued_def nq_list_def nq_len_def ring_at_def pack_of_def)
  ultimately show ?thesis using netpack_queue_fifo [of "Some (push_data None 7 ''ab'' 2)" 8 "''c''"] by simp
qed

end
