(* ===== verification/Skynet_Hashid.thy ===== *)
theory Skynet_Hashid
  imports Skynet_Prelude
begin

text \<open>
  The hash table of \<^verbatim>\<open>service-src/hashid.h\<close>: it gives each socket id of the gate an index
  below the capacity. The nodes are one array, linked by indices (the addresses \<open>&hi->id[i]\<close>)
  into one chain per bucket; \<open>next\<close> and the buckets are options, NULL as \<open>None\<close>. An index
  outside an array or a failed assertion is the value \<open>None\<close>.

  Linked chains are described once (\<open>nchain\<close>) for this table and for the message pool. The
  theorems: the table refines a map from ids to indices (\<open>hashid_refines_map\<close>), and
  \<open>hashid_insert\<close> leaves its array when \<open>i + id\<close> overflows (\<open>hashid_insert_overflow\<close>).
\<close>

record hashid_node =
  hn_id :: cint
  hn_next :: "nat option"

record hashid =
  hi_hashmod :: cint
  hi_cap :: cint
  hi_count :: int
  hi_id :: "hashid_node list"
  hi_hash :: "nat option list"

subsection \<open>Operations\<close>

text \<open>The capacity is doubled as long as it is below the signed number \<open>max\<close>.\<close>

partial_function (option) hashcap_loop :: "cint \<Rightarrow> cint \<Rightarrow> cint option" where
  "hashcap_loop hashcap m = (if sint hashcap < sint m then hashcap_loop (hashcap * 2) m else Some hashcap)"

definition hashid_init :: "cint \<Rightarrow> hashid option" where
  "hashid_init m = do {
     hashcap \<leftarrow> hashcap_loop 16 m;
     Some \<lparr>hi_hashmod = hashcap - 1, hi_cap = m, hi_count = 0,
           hi_id = replicate (nat (sint m)) \<lparr>hn_id = - 1, hn_next = None\<rparr>,
           hi_hash = replicate (nat (sint hashcap)) None\<rparr> }"

definition hashid_clear :: "hashid \<Rightarrow> hashid" where
  "hashid_clear hi = hi\<lparr>hi_id := [], hi_hash := [], hi_hashmod := 1, hi_cap := 0, hi_count := 0\<rparr>"

definition bucket :: "hashid \<Rightarrow> cint \<Rightarrow> nat" where
  "bucket hi i = unat (i AND hi_hashmod hi)"

definition hash_at :: "hashid \<Rightarrow> nat \<Rightarrow> nat option option" where
  "hash_at hi h = (if h < length (hi_hash hi) then Some (hi_hash hi ! h) else None)"

definition node_at :: "hashid \<Rightarrow> nat \<Rightarrow> hashid_node option" where
  "node_at hi c = (if c < length (hi_id hi) then Some (hi_id hi ! c) else None)"

partial_function (option) lookup_loop :: "hashid \<Rightarrow> cint \<Rightarrow> nat option \<Rightarrow> int option" where
  "lookup_loop hi i c =
     (case c of
        None \<Rightarrow> Some (-1)
      | Some c \<Rightarrow> do {
          n \<leftarrow> node_at hi c;
          if hn_id n = i then Some (int c) else lookup_loop hi i (hn_next n) })"

definition hashid_lookup :: "hashid \<Rightarrow> cint \<Rightarrow> int option" where
  "hashid_lookup hi i = do {
     c \<leftarrow> hash_at hi (bucket hi i);
     lookup_loop hi i c }"

text \<open>The label \<open>_clear\<close>.\<close>

definition remove_clear :: "hashid \<Rightarrow> nat \<Rightarrow> int \<times> hashid" where
  "remove_clear hi c =
     (int c, hi\<lparr>hi_id := (hi_id hi)[c := \<lparr>hn_id = - 1, hn_next = None\<rparr>], hi_count := hi_count hi - 1\<rparr>)"

partial_function (option) remove_loop :: "hashid \<Rightarrow> cint \<Rightarrow> nat \<Rightarrow> (int \<times> hashid) option" where
  "remove_loop hi i c = do {
     n \<leftarrow> node_at hi c;
     case hn_next n of
       None \<Rightarrow> Some (-1, hi)
     | Some t \<Rightarrow> do {
         tn \<leftarrow> node_at hi t;
         if hn_id tn = i
         then Some (remove_clear (hi\<lparr>hi_id := (hi_id hi)[c := n\<lparr>hn_next := hn_next tn\<rparr>]\<rparr>) t)
         else remove_loop hi i t } }"

definition hashid_remove :: "hashid \<Rightarrow> cint \<Rightarrow> (int \<times> hashid) option" where
  "hashid_remove hi i = do {
     let h = bucket hi i;
     c \<leftarrow> hash_at hi h;
     case c of
       None \<Rightarrow> Some (-1, hi)
     | Some c \<Rightarrow> do {
         n \<leftarrow> node_at hi c;
         if hn_id n = i then Some (remove_clear (hi\<lparr>hi_hash := (hi_hash hi)[h := hn_next n]\<rparr>) c)
         else remove_loop hi i c } }"

text \<open>
  \<open>(i+id) % hi->cap\<close> on \<open>int\<close>: the sum wraps around on the machines the code runs on and the
  remainder has the sign of the sum, so an index may be negative, which is outside the array.
\<close>

definition insert_index :: "hashid \<Rightarrow> nat \<Rightarrow> cint \<Rightarrow> int" where
  "insert_index hi k i =
     (let s = sint (word_of_nat k + i); m = sint (hi_cap hi)
      in if s < 0 then - ((- s) mod m) else s mod m)"

fun insert_scan :: "hashid \<Rightarrow> cint \<Rightarrow> nat list \<Rightarrow> nat option" where
  "insert_scan hi i [] = None"
| "insert_scan hi i (k # ks) =
     (let index = insert_index hi k i
      in if index < 0 then None
         else do {
           n \<leftarrow> node_at hi (nat index);
           if hn_id n = - 1 then Some (nat index) else insert_scan hi i ks })"

definition hashid_insert :: "hashid \<Rightarrow> cint \<Rightarrow> (int \<times> hashid) option" where
  "hashid_insert hi i = do {
     c \<leftarrow> insert_scan hi i [0..<nat (sint (hi_cap hi))];
     n \<leftarrow> node_at hi c;
     let h = bucket hi i;
     b \<leftarrow> hash_at hi h;
     if hn_next n \<noteq> None then None
     else Some (int c, hi\<lparr>hi_count := hi_count hi + 1, hi_id := (hi_id hi)[c := \<lparr>hn_id = i, hn_next = b\<rparr>],
                         hi_hash := (hi_hash hi)[h := Some c]\<rparr>) }"

definition hashid_full :: "hashid \<Rightarrow> bool" where
  "hashid_full hi \<longleftrightarrow> hi_count hi = sint (hi_cap hi)"

subsection \<open>Chains\<close>

text \<open>The links \<open>nx\<close> from \<open>p\<close> visit exactly the list.\<close>

fun nchain :: "(nat \<Rightarrow> nat option) \<Rightarrow> nat option \<Rightarrow> nat list \<Rightarrow> bool" where
  "nchain nx p [] \<longleftrightarrow> p = None"
| "nchain nx p (a # as) \<longleftrightarrow> p = Some a \<and> nchain nx (nx a) as"

lemma nchain_cong: "(\<And>a. a \<in> set as \<Longrightarrow> nx' a = nx a) \<Longrightarrow> nchain nx' p as = nchain nx p as"
  by (induction as arbitrary: p) auto

lemma nchain_append: "nchain nx p (as @ b # bs) \<Longrightarrow> nchain nx (Some b) (b # bs)"
  by (induction as arbitrary: p) auto

lemma nchain_unique: "nchain nx p as \<Longrightarrow> nchain nx p bs \<Longrightarrow> as = bs"
proof (induction as arbitrary: p bs)
  case Nil
  then show ?case by (cases bs) auto
next
  case (Cons a as)
  then show ?case by (cases bs) auto
qed

text \<open>Linking a new last element.\<close>

lemma nchain_snoc:
  assumes "nchain nx p as" "distinct as" "b \<notin> set as" "nx' b = None"
    and "\<And>a. a \<in> set as \<Longrightarrow> nx' a = (if a = last as then Some b else nx a)"
  shows "nchain nx' (if as = [] then Some b else p) (as @ [b])"
  using assms
proof (induction as arbitrary: p)
  case (Cons a as)
  show ?case
  proof (cases "as = []")
    case False
    have "nchain nx' (if as = [] then Some b else nx a) (as @ [b])"
      by (rule Cons.IH) (use Cons.prems False in auto)
    moreover have "a \<noteq> last as" using Cons.prems(2) False by auto
    ultimately show ?thesis using Cons.prems False by auto
  qed (use Cons.prems in auto)
qed auto

text \<open>Unlinking an element behind another one.\<close>

lemma nchain_unlink:
  assumes "nchain nx p (as @ a # t # bs)" "distinct (as @ a # t # bs)"
    and "nx' a = nx t" "\<And>c. c \<in> set (as @ bs) \<Longrightarrow> nx' c = nx c"
  shows "nchain nx' p (as @ a # bs)"
  using assms
proof (induction as arbitrary: p)
  case Nil
  then have "nchain nx (nx t) bs" by simp
  then show ?case using Nil nchain_cong [of bs nx' nx "nx t"] by auto
qed auto

subsection \<open>The table as a map\<close>

abbreviation hid :: "hashid \<Rightarrow> nat \<Rightarrow> cint" where "hid hi c \<equiv> hn_id (hi_id hi ! c)"
abbreviation hnext :: "hashid \<Rightarrow> nat \<Rightarrow> nat option" where "hnext hi \<equiv> (\<lambda>c. hn_next (hi_id hi ! c))"

definition hi_map :: "hashid \<Rightarrow> cint \<Rightarrow> nat option" where
  "hi_map hi i = (if i = - 1 then None else find (\<lambda>c. hid hi c = i) [0..<length (hi_id hi)])"

definition used :: "hashid \<Rightarrow> nat set" where
  "used hi = {c. c < length (hi_id hi) \<and> hid hi c \<noteq> - 1}"

text \<open>\<open>cs h\<close> is the chain of the bucket \<open>h\<close>.\<close>

definition hi_inv :: "hashid \<Rightarrow> (nat \<Rightarrow> nat list) \<Rightarrow> bool" where
  "hi_inv hi cs \<longleftrightarrow>
     (\<forall>i. bucket hi i < length (hi_hash hi)) \<and> 0 < sint (hi_cap hi) \<and> int (length (hi_id hi)) = sint (hi_cap hi) \<and>
     (\<forall>h < length (hi_hash hi). nchain (hnext hi) (hi_hash hi ! h) (cs h) \<and> distinct (cs h) \<and>
        set (cs h) = {c \<in> used hi. bucket hi (hid hi c) = h}) \<and>
     (\<forall>c < length (hi_id hi). hid hi c = - 1 \<longrightarrow> hnext hi c = None) \<and>
     inj_on (hid hi) (used hi) \<and> hi_count hi = int (card (used hi))"

lemma hi_invD:
  assumes "hi_inv hi cs"
  shows "bucket hi i < length (hi_hash hi)" "0 < sint (hi_cap hi)" "int (length (hi_id hi)) = sint (hi_cap hi)"
    "h < length (hi_hash hi) \<Longrightarrow> nchain (hnext hi) (hi_hash hi ! h) (cs h)"
    "h < length (hi_hash hi) \<Longrightarrow> distinct (cs h)"
    "h < length (hi_hash hi) \<Longrightarrow> set (cs h) = {c \<in> used hi. bucket hi (hid hi c) = h}"
    "c < length (hi_id hi) \<Longrightarrow> hid hi c = - 1 \<Longrightarrow> hnext hi c = None"
    "inj_on (hid hi) (used hi)" "hi_count hi = int (card (used hi))"
  using assms by (auto simp: hi_inv_def)

lemma hi_map_Some:
  assumes "inj_on (hid hi) (used hi)"
  shows "hi_map hi i = Some c \<longleftrightarrow> c \<in> used hi \<and> hid hi c = i"
proof
  assume "hi_map hi i = Some c"
  then show "c \<in> used hi \<and> hid hi c = i" by (auto simp: hi_map_def used_def find_Some_iff split: if_splits)
next
  assume c: "c \<in> used hi \<and> hid hi c = i"
  then obtain d where d: "hi_map hi i = Some d"
    by (cases "hi_map hi i") (auto simp: hi_map_def find_None_iff used_def)
  then have "d \<in> used hi \<and> hid hi d = i" by (auto simp: hi_map_def used_def find_Some_iff split: if_splits)
  then show "hi_map hi i = Some c" using c d assms by (auto simp: inj_on_def)
qed

lemma finite_used: "finite (used hi)"
  by (simp add: used_def)

lemma hi_map_eqI:
  assumes "inj_on (hid hi') (used hi')"
    and "\<And>i c. (c \<in> used hi' \<and> hid hi' c = i) \<longleftrightarrow> m i = Some c"
  shows "hi_map hi' = m"
proof
  fix i
  have "hi_map hi' i = Some c \<longleftrightarrow> m i = Some c" for c using hi_map_Some [OF assms(1), of i c] assms(2) [of c i] by blast
  then show "hi_map hi' i = m i" by (metis not_Some_eq)
qed

subsection \<open>Lookup\<close>

lemma lookup_loop_chain:
  assumes "nchain (hnext hi) p cl" "\<forall>c \<in> set cl. c < length (hi_id hi)"
  shows "lookup_loop hi i p = Some (case find (\<lambda>c. hid hi c = i) cl of None \<Rightarrow> -1 | Some c \<Rightarrow> int c)"
  using assms
proof (induction cl arbitrary: p)
  case Nil
  then show ?case by (subst lookup_loop.simps) simp
next
  case (Cons a cl)
  then show ?case by (subst lookup_loop.simps) (simp add: node_at_def)
qed

lemma chain_find:
  assumes "hi_inv hi cs" "i \<noteq> - 1"
  shows "find (\<lambda>c. hid hi c = i) (cs (bucket hi i)) = hi_map hi i"
proof -
  let ?cl = "cs (bucket hi i)"
  have set: "set ?cl = {c \<in> used hi. bucket hi (hid hi c) = bucket hi i}" using hi_invD(6) [OF assms(1)] hi_invD(1) [OF assms(1)] by blast
  note inj = hi_invD(8) [OF assms(1)]
  show ?thesis
  proof (cases "find (\<lambda>c. hid hi c = i) ?cl")
    case None
    then have "\<nexists>c. c \<in> used hi \<and> hid hi c = i" using set by (auto simp: find_None_iff)
    then show ?thesis using None hi_map_Some [OF inj, of i] by (cases "hi_map hi i") auto
  next
    case (Some c)
    then have "c \<in> set ?cl" "hid hi c = i" by (auto simp: find_Some_iff)
    then show ?thesis using Some hi_map_Some [OF inj, of i c] set by auto
  qed
qed

lemma hashid_lookup_map:
  assumes "hi_inv hi cs" "i \<noteq> - 1"
  shows "hashid_lookup hi i = Some (case hi_map hi i of None \<Rightarrow> -1 | Some c \<Rightarrow> int c)"
proof -
  let ?h = "bucket hi i"
  have h: "?h < length (hi_hash hi)" by (rule hi_invD(1) [OF assms(1)])
  have "\<forall>c \<in> set (cs ?h). c < length (hi_id hi)" using hi_invD(6) [OF assms(1) h] by (auto simp: used_def)
  from lookup_loop_chain [OF hi_invD(4) [OF assms(1) h] this] chain_find [OF assms]
  show ?thesis by (simp add: hashid_lookup_def hash_at_def h)
qed

subsection \<open>Removal\<close>

text \<open>A table that differs by one node taken out of its chain.\<close>

definition hi_without :: "hashid \<Rightarrow> nat \<Rightarrow> hashid \<Rightarrow> nat \<Rightarrow> nat list \<Rightarrow> bool" where
  "hi_without hi h hi' c cl \<longleftrightarrow>
     hi_hashmod hi' = hi_hashmod hi \<and> hi_cap hi' = hi_cap hi \<and> hi_count hi' = hi_count hi - 1 \<and>
     length (hi_id hi') = length (hi_id hi) \<and> length (hi_hash hi') = length (hi_hash hi) \<and>
     (\<forall>d. hid hi' d = (if d = c then - 1 else hid hi d)) \<and> hnext hi' c = None \<and>
     (\<forall>d. d \<notin> set cl \<longrightarrow> hnext hi' d = hnext hi d) \<and>
     (\<forall>g. g \<noteq> h \<longrightarrow> hi_hash hi' ! g = hi_hash hi ! g) \<and>
     nchain (hnext hi') (hi_hash hi' ! h) (remove1 c cl)"

lemma hi_inv_without:
  assumes inv: "hi_inv hi cs" and h: "h < length (hi_hash hi)" and c: "c \<in> set (cs h)" and w: "hi_without hi h hi' c (cs h)"
  shows "hi_inv hi' (cs(h := remove1 c (cs h)))" "hi_map hi' = (hi_map hi)(hid hi c := None)"
proof -
  note I = hi_invD [OF inv]
  have cu: "c \<in> used hi" "bucket hi (hid hi c) = h" using c I(6) [OF h] by auto
  have b: "bucket hi' i = bucket hi i" for i using w by (simp add: bucket_def hi_without_def)
  have ids: "hid hi' d = (if d = c then - 1 else hid hi d)" for d using w by (simp add: hi_without_def)
  have u: "used hi' = used hi - {c}" using w by (auto simp: used_def ids hi_without_def)
  have inj: "inj_on (hid hi') (used hi')" using I(8) by (auto simp: u ids inj_on_def)
  have nx: "hnext hi' d = hnext hi d" if "d \<notin> set (cs h)" for d using w that by (auto simp: hi_without_def)
  have chains: "nchain (hnext hi') (hi_hash hi' ! g) (cs g)" if "g < length (hi_hash hi)" "g \<noteq> h" for g
  proof -
    have "set (cs g) \<inter> set (cs h) = {}" using I(6) [OF that(1)] I(6) [OF h] that(2) by auto
    then have "nchain (hnext hi') (hi_hash hi ! g) (cs g) = nchain (hnext hi) (hi_hash hi ! g) (cs g)"
      by (intro nchain_cong nx) auto
    moreover have "hi_hash hi' ! g = hi_hash hi ! g" using w that(2) by (auto simp: hi_without_def)
    ultimately show ?thesis using I(4) [OF that(1)] by simp
  qed
  have len: "length (hi_hash hi') = length (hi_hash hi)" "length (hi_id hi') = length (hi_id hi)" "hi_cap hi' = hi_cap hi"
    "hi_count hi' = hi_count hi - 1" "nchain (hnext hi') (hi_hash hi' ! h) (remove1 c (cs h))" "hnext hi' c = None"
    using w by (simp_all add: hi_without_def)
  have free: "hnext hi' d = None" if "d < length (hi_id hi)" "hid hi' d = - 1" for d
  proof (cases "d = c")
    case False
    then have "hid hi d = - 1" using that(2) ids by auto
    moreover have "d \<notin> set (cs h)" using I(6) [OF h] calculation by (auto simp: used_def)
    ultimately show ?thesis using nx I(7) that(1) by auto
  qed (simp add: len)
  show "hi_inv hi' (cs(h := remove1 c (cs h)))"
    unfolding hi_inv_def
  proof (intro conjI allI impI)
    fix g assume g: "g < length (hi_hash hi')"
    show "nchain (hnext hi') (hi_hash hi' ! g) ((cs(h := remove1 c (cs h))) g)" using g chains len by auto
    show "distinct ((cs(h := remove1 c (cs h))) g)" using g I(5) len by auto
    show "set ((cs(h := remove1 c (cs h))) g) = {d \<in> used hi'. bucket hi' (hid hi' d) = g}"
      using I(6) [of g] g I(5) [OF h] cu(2) by (auto simp: u b ids len)
  qed (use I(1,2,3,9) cu(1) finite_used [of hi] card_Diff_singleton [OF cu(1)] card_gt_0_iff [of "used hi"] inj free in \<open>auto simp: len b u\<close>)
  show "hi_map hi' = (hi_map hi)(hid hi c := None)"
    by (rule hi_map_eqI [OF inj]) (use cu I(8) hi_map_Some [OF I(8)] in \<open>auto simp: u ids inj_on_def\<close>)
qed


lemma remove_loop_absent:
  assumes "nchain (hnext hi) (Some a) (a # rest)" "\<forall>c \<in> set (a # rest). c < length (hi_id hi)" "\<forall>c \<in> set rest. hid hi c \<noteq> i"
  shows "remove_loop hi i a = Some (-1, hi)"
  using assms
proof (induction rest arbitrary: a)
  case Nil
  then show ?case by (subst remove_loop.simps) (simp add: node_at_def)
next
  case (Cons b rest)
  then show ?case by (subst remove_loop.simps) (simp add: node_at_def)
qed

lemma remove_loop_found:
  assumes "nchain (hnext hi) (Some a) (a # rest)" "\<forall>c \<in> set (a # rest). c < length (hi_id hi)" "t \<in> set rest" "hid hi t = i"
    and "\<forall>c \<in> set rest. hid hi c = i \<longrightarrow> c = t"
  shows "\<exists>pre b r2. a # rest = pre @ b # t # r2 \<and>
     remove_loop hi i a = Some (remove_clear (hi\<lparr>hi_id := (hi_id hi)[b := (hi_id hi ! b)\<lparr>hn_next := hnext hi t\<rparr>]\<rparr>) t)"
  using assms
proof (induction rest arbitrary: a)
  case (Cons d rest)
  have n: "hnext hi a = Some d" "a < length (hi_id hi)" "d < length (hi_id hi)" using Cons.prems(1,2) by simp_all
  show ?case
  proof (cases "d = t")
    case True
    have "remove_loop hi i a = Some (remove_clear (hi\<lparr>hi_id := (hi_id hi)[a := (hi_id hi ! a)\<lparr>hn_next := hnext hi t\<rparr>]\<rparr>) t)"
      using n Cons.prems(4) True by (subst remove_loop.simps) (simp add: node_at_def)
    then show ?thesis using True by - (rule exI [of _ "[]"], rule exI [of _ a], rule exI [of _ rest], simp)
  next
    case False
    then have "hid hi d \<noteq> i" using Cons.prems(5) by auto
    then have step: "remove_loop hi i a = remove_loop hi i d"
      using n by (subst remove_loop.simps) (simp add: node_at_def)
    have "\<exists>pre b r2. d # rest = pre @ b # t # r2 \<and>
       remove_loop hi i d = Some (remove_clear (hi\<lparr>hi_id := (hi_id hi)[b := (hi_id hi ! b)\<lparr>hn_next := hnext hi t\<rparr>]\<rparr>) t)"
    proof (rule Cons.IH)
      show "nchain (hnext hi) (Some d) (d # rest)" "\<forall>c \<in> set (d # rest). c < length (hi_id hi)" using Cons.prems(1,2) by simp_all
      show "t \<in> set rest" using Cons.prems(3) False by simp
      show "hid hi t = i" by (rule Cons.prems(4))
      show "\<forall>c \<in> set rest. hid hi c = i \<longrightarrow> c = t" using Cons.prems(5) by (meson list.set_intros(2))
    qed
    then show ?thesis unfolding step by (metis append_Cons)
  qed
qed simp

lemma hashid_remove_map:
  assumes inv: "hi_inv hi cs" and i: "i \<noteq> - 1"
  shows "case hi_map hi i of
      None \<Rightarrow> hashid_remove hi i = Some (-1, hi)
    | Some c \<Rightarrow> \<exists>hi' cs'. hashid_remove hi i = Some (int c, hi') \<and> hi_inv hi' cs' \<and> hi_map hi' = (hi_map hi)(i := None) \<and>
        hi_cap hi' = hi_cap hi"
proof -
  let ?h = "bucket hi i" and ?cl = "cs (bucket hi i)"
  note I = hi_invD [OF inv]
  have h: "?h < length (hi_hash hi)" by (rule I(1))
  have range: "\<forall>c \<in> set ?cl. c < length (hi_id hi)" using I(6) [OF h] by (auto simp: used_def)
  note chain = I(4) [OF h]
  have fnd: "find (\<lambda>c. hid hi c = i) ?cl = hi_map hi i" by (rule chain_find [OF inv i])
  show ?thesis
  proof (cases "hi_map hi i")
    case None
    then have abs: "\<forall>c \<in> set ?cl. hid hi c \<noteq> i" using fnd by (simp add: find_None_iff)
    have "hashid_remove hi i = Some (-1, hi)"
    proof (cases ?cl)
      case Nil
      then show ?thesis using chain h by (simp add: hashid_remove_def hash_at_def)
    next
      case (Cons a rest)
      then show ?thesis using chain h range abs remove_loop_absent [of hi a rest i]
        by (simp add: hashid_remove_def hash_at_def node_at_def)
    qed
    then show ?thesis using None by simp
  next
    case (Some c)
    then have c: "c \<in> set ?cl" "hid hi c = i" using fnd by (auto simp: find_Some_iff)
    have uniq: "\<forall>d \<in> set ?cl. hid hi d = i \<longrightarrow> d = c" using I(8) I(6) [OF h] c by (auto simp: inj_on_def)
    have clen: "c < length (hi_id hi)" using c range by simp
    have "\<exists>hi'. hashid_remove hi i = Some (int c, hi') \<and> hi_without hi ?h hi' c ?cl"
    proof (cases ?cl)
      case (Cons a rest)
      have d: "distinct (a # rest)" using I(5) [OF h] Cons by simp
      show ?thesis
      proof (cases "a = c")
        case True
        have cong: "nchain (\<lambda>d. hn_next ((hi_id hi)[c := \<lparr>hn_id = - 1, hn_next = None\<rparr>] ! d)) (hnext hi c) rest"
        proof (rule nchain_cong [THEN iffD2])
          show "nchain (hnext hi) (hnext hi c) rest" using chain True Cons by simp
          show "hn_next ((hi_id hi)[c := \<lparr>hn_id = - 1, hn_next = None\<rparr>] ! e) = hnext hi e" if "e \<in> set rest" for e
            using that d True by (cases "e = c") auto
        qed
        show ?thesis using chain h range Cons True c cong clen
          by (auto simp: hashid_remove_def hash_at_def node_at_def remove_clear_def hi_without_def nth_list_update)
      next
        case False
        have prem: "nchain (hnext hi) (Some a) (a # rest)" "\<forall>c \<in> set (a # rest). c < length (hi_id hi)" "c \<in> set rest"
          using chain range c(1) False unfolding Cons by simp_all
        have "\<forall>d \<in> set rest. hid hi d = i \<longrightarrow> d = c" using uniq unfolding Cons by (meson list.set_intros(2))
        from remove_loop_found [OF prem c(2) this] obtain pre b r2 where s: "a # rest = pre @ b # c # r2"
          "remove_loop hi i a = Some (remove_clear (hi\<lparr>hi_id := (hi_id hi)[b := (hi_id hi ! b)\<lparr>hn_next := hnext hi c\<rparr>]\<rparr>) c)"
          by blast
        let ?ids = "(hi_id hi)[b := (hi_id hi ! b)\<lparr>hn_next := hnext hi c\<rparr>, c := \<lparr>hn_id = - 1, hn_next = None\<rparr>]"
        have bl: "b < length (hi_id hi)" using range Cons s(1) by auto
        have db: "distinct (pre @ b # c # r2)" using d s(1) by simp
        have ch: "nchain (\<lambda>d. hn_next (?ids ! d)) (hi_hash hi ! ?h) (pre @ b # r2)"
          by (rule nchain_unlink [of "hnext hi" _ _ _ c]) (use chain Cons s(1) db bl clen in \<open>auto simp: nth_list_update\<close>)
        have rm: "remove1 c ?cl = pre @ b # r2" using Cons s(1) db by (auto simp: remove1_append)
        have chain_a: "hi_hash hi ! ?h = Some a" "a < length (hi_id hi)" using chain Cons range by auto
        note alen = chain_a(2)
        have "hid hi a \<noteq> i" using uniq Cons False by auto
        then have r: "hashid_remove hi i = remove_loop hi i a"
          using chain_a h alen by (simp add: hashid_remove_def hash_at_def node_at_def)
        show ?thesis unfolding r s(2) using ch rm bl clen db Cons s(1) c(2)
          by (auto simp: remove_clear_def hi_without_def nth_list_update)
      qed
    qed (use c in simp)
    then show ?thesis using hi_inv_without [OF inv h c(1)] Some c(2) by (auto simp: hi_without_def)
  qed
qed

subsection \<open>Insertion\<close>

lemma insert_index_mod:
  assumes "hi_inv hi cs" "sint i \<ge> 0" "k < length (hi_id hi)" "sint i + sint (hi_cap hi) \<le> 2 ^ 31"
  shows "insert_index hi k i = int ((k + unat i) mod length (hi_id hi))"
proof -
  note I = hi_invD [OF assms(1)]
  have si: "sint i = int (unat i)" using assms(2) by (rule sint_unat)
  have "sint (word_of_nat k + i) = int (k + unat i)"
  proof -
    have "word_of_nat k + i = word_of_nat (k + unat i)" by simp
    moreover have "k + unat i < 2 ^ 31"
    proof -
      have "int (k + unat i) < 2 ^ 31" using assms(3,4) I(3) si by simp
      then have "int (k + unat i) < int (2 ^ 31)" by simp
      then show ?thesis by (simp only: of_nat_less_iff)
    qed
    ultimately show ?thesis using sint_word_of_nat [of "k + unat i"] by metis
  qed
  moreover have "\<not> int (k + unat i) < 0" using of_nat_less_0_iff by blast
  ultimately show ?thesis unfolding insert_index_def Let_def I(3) [symmetric] zmod_int by (simp only: if_False)
qed


lemma insert_scan_free:
  assumes "hi_inv hi cs" "sint i \<ge> 0" "sint i + sint (hi_cap hi) \<le> 2 ^ 31" "\<forall>k \<in> set ks. k < length (hi_id hi)"
    and "k \<in> set ks" "hid hi ((k + unat i) mod length (hi_id hi)) = - 1"
  shows "\<exists>c < length (hi_id hi). insert_scan hi i ks = Some c \<and> hid hi c = - 1"
  using assms(4-)
proof (induction ks)
  case (Cons l ks)
  let ?c = "(l + unat i) mod length (hi_id hi)"
  have idx: "insert_index hi l i = int ?c" using Cons.prems(1) by (intro insert_index_mod [OF assms(1,2) _ assms(3)]) simp
  have c: "?c < length (hi_id hi)" using Cons.prems(1) by (intro mod_less_divisor) auto
  show ?case
  proof (cases "hid hi ?c = - 1")
    case True
    then show ?thesis using c idx by (auto simp: node_at_def)
  next
    case False
    then have "k \<in> set ks" using Cons.prems(2,3) by auto
    moreover have "insert_scan hi i (l # ks) = insert_scan hi i ks" using False c idx by (simp add: node_at_def)
    ultimately show ?thesis using Cons.IH Cons.prems(1,3) by simp
  qed
qed simp

lemma rotation_reaches:
  assumes "c < (n :: nat)"
  shows "\<exists>k < n. (k + m) mod n = c"
proof (intro exI conjI)
  let ?k = "(c + (n - m mod n)) mod n"
  show "?k < n" using assms by simp
  have r: "m mod n \<le> n" using assms by (simp add: less_imp_le)
  have "(?k + m) mod n = (c + (n - m mod n) + m mod n) mod n" by (metis mod_add_left_eq mod_add_right_eq)
  also have "\<dots> = (c + n) mod n" using r by (simp add: add.assoc)
  finally show "(?k + m) mod n = c" using assms by simp
qed

lemma hashid_insert_map:
  assumes inv: "hi_inv hi cs" and i: "sint i \<ge> 0" "sint i + sint (hi_cap hi) \<le> 2 ^ 31"
    and new: "hi_map hi i = None" and room: "\<not> hashid_full hi"
  shows "\<exists>c hi' cs'. hashid_insert hi i = Some (int c, hi') \<and> c < length (hi_id hi) \<and> c \<notin> ran (hi_map hi) \<and>
    hi_inv hi' cs' \<and> hi_map hi' = (hi_map hi)(i \<mapsto> c) \<and> hi_cap hi' = hi_cap hi"
proof -
  note I = hi_invD [OF inv]
  let ?n = "length (hi_id hi)" and ?h = "bucket hi i"
  have i1: "i \<noteq> - 1" using i(1) by auto
  have "used hi \<noteq> {..<?n}"
  proof
    assume "used hi = {..<?n}"
    then have "card (used hi) = ?n" by simp
    then show False using room I(3,9) unfolding hashid_full_def by linarith
  qed
  moreover have "used hi \<subseteq> {..<?n}" by (auto simp: used_def)
  ultimately obtain e where "e < ?n" "e \<notin> used hi" by blast
  then have e: "e < ?n" "hid hi e = - 1" by (simp_all add: used_def)
  obtain k where "k < ?n" "(k + unat i) mod ?n = e" using rotation_reaches [OF e(1)] by blast
  then obtain c where c: "c < ?n" "insert_scan hi i [0..<?n] = Some c" "hid hi c = - 1"
    using insert_scan_free [OF inv i, of "[0..<?n]" k] e(2) by auto
  have nn: "nat (sint (hi_cap hi)) = ?n" using I(3) by simp
  have h: "?h < length (hi_hash hi)" by (rule I(1))
  define hi' where "hi' = hi\<lparr>hi_count := hi_count hi + 1, hi_id := (hi_id hi)[c := \<lparr>hn_id = i, hn_next = hi_hash hi ! ?h\<rparr>],
    hi_hash := (hi_hash hi)[?h := Some c]\<rparr>"
  have ins: "hashid_insert hi i = Some (int c, hi')"
    using c I(7) [OF c(1,3)] h by (simp add: hashid_insert_def Let_def nn node_at_def hash_at_def hi'_def)
  have absent: "hid hi d \<noteq> i" if "d \<in> used hi" for d using new hi_map_Some [OF I(8), of i d] that by auto
  have len: "length (hi_hash hi') = length (hi_hash hi)" "length (hi_id hi') = ?n" "hi_cap hi' = hi_cap hi" "hi_count hi' = hi_count hi + 1"
    and hash: "hi_hash hi' ! g = (if g = ?h then Some c else hi_hash hi ! g)" for g
    using h by (simp_all add: hi'_def nth_list_update)
  have b: "bucket hi' j = bucket hi j" for j by (simp add: bucket_def hi'_def)
  have ids: "hid hi' d = (if d = c then i else hid hi d)" for d using c(1) by (simp add: hi'_def nth_list_update)
  have u: "used hi' = insert c (used hi)" using c(1) i1 by (auto simp: used_def len ids)
  have cu: "c \<notin> used hi" using c(3) by (simp add: used_def)
  have inj: "inj_on (hid hi') (used hi')" using I(8) absent cu unfolding u by (auto simp: inj_on_def ids)
  have nx: "hnext hi' d = (if d = c then hi_hash hi ! ?h else hnext hi d)" for d using c(1) by (simp add: hi'_def nth_list_update)
  have "hi_inv hi' (cs(?h := c # cs ?h))"
    unfolding hi_inv_def
  proof (intro conjI allI impI)
    fix g assume "g < length (hi_hash hi')"
    then have g: "g < length (hi_hash hi)" by (simp add: len)
    have nc: "c \<notin> set (cs g)" using I(6) [OF g] cu by auto
    then have "nchain (hnext hi') (hi_hash hi ! g) (cs g) = nchain (hnext hi) (hi_hash hi ! g) (cs g)"
      by (intro nchain_cong) (auto simp: nx)
    then show "nchain (hnext hi') (hi_hash hi' ! g) ((cs(?h := c # cs ?h)) g)" using I(4) [OF g] by (auto simp: hash nx)
    show "distinct ((cs(?h := c # cs ?h)) g)" using I(5) [OF g] nc by auto
    show "set ((cs(?h := c # cs ?h)) g) = {d \<in> used hi'. bucket hi' (hid hi' d) = g}"
      using I(6) [OF g] cu unfolding u b ids by auto
  next
    fix d assume "d < length (hi_id hi')" "hid hi' d = - 1"
    then show "hnext hi' d = None" using I(7) [of d] i1 unfolding nx ids len by (auto split: if_splits)
  qed (use I(1,2,3,9) cu finite_used [of hi] inj in \<open>auto simp: b u len\<close>)
  moreover have "hi_map hi' = (hi_map hi)(i \<mapsto> c)"
    by (rule hi_map_eqI [OF inj]) (use cu absent hi_map_Some [OF I(8)] in \<open>auto simp: u ids\<close>)
  moreover have "c \<notin> ran (hi_map hi)" using cu hi_map_Some [OF I(8)] by (auto simp: ran_def)
  ultimately show ?thesis using ins c(1) len(3) by blast
qed

subsection \<open>The empty table\<close>

lemma hashcap_loop_power:
  assumes "k \<le> 30" "sint m \<le> 2 ^ 30"
  shows "\<exists>j. k \<le> j \<and> j \<le> 30 \<and> hashcap_loop (2 ^ k) m = Some (2 ^ j)"
  using assms(1)
proof (induction "30 - k" arbitrary: k)
  case 0
  then have k: "k = 30" by simp
  have "sint (2 ^ 30 :: cint) = 2 ^ 30" using sint_word_of_nat [of "2 ^ 30"] by simp
  then have "hashcap_loop (2 ^ k) m = Some (2 ^ k)" using assms(2) k by (subst hashcap_loop.simps) simp
  then show ?case using k by blast
next
  case (Suc n)
  show ?case
  proof (cases "sint (2 ^ k :: cint) < sint m")
    case True
    have "\<exists>j. Suc k \<le> j \<and> j \<le> 30 \<and> hashcap_loop (2 ^ Suc k) m = Some (2 ^ j)" using Suc by (intro Suc.hyps(1)) simp_all
    moreover have "hashcap_loop (2 ^ k) m = hashcap_loop (2 ^ Suc k) m" using True by (subst hashcap_loop.simps) (simp add: mult.commute)
    ultimately show ?thesis by (metis Suc_leD)
  next
    case False
    then have "hashcap_loop (2 ^ k) m = Some (2 ^ k)" by (subst hashcap_loop.simps) simp
    then show ?thesis using Suc.prems by blast
  qed
qed

lemma hashid_init_map:
  assumes "0 < sint m" "sint m \<le> 2 ^ 30"
  shows "\<exists>hi. hashid_init m = Some hi \<and> hi_inv hi (\<lambda>_. []) \<and> hi_map hi = (\<lambda>_. None) \<and> hi_cap hi = m"
proof -
  obtain j where j: "4 \<le> j" "j \<le> 30" "hashcap_loop 16 m = Some (2 ^ j)" using hashcap_loop_power [of 4 m] assms(2) by auto
  have n: "sint (2 ^ j :: cint) = 2 ^ j"
  proof -
    have "(2 :: nat) ^ j < 2 ^ 31" using j(2) by (intro power_strict_increasing) auto
    then show ?thesis using sint_word_of_nat [of "2 ^ j"] by simp
  qed
  let ?hi = "\<lparr>hi_hashmod = 2 ^ j - 1, hi_cap = m, hi_count = 0, hi_id = replicate (nat (sint m)) \<lparr>hn_id = - 1, hn_next = None\<rparr>,
    hi_hash = replicate (nat (sint (2 ^ j :: cint))) None\<rparr>"
  have i: "hashid_init m = Some ?hi" by (simp add: hashid_init_def j(3))
  have u: "used ?hi = {}" by (auto simp: used_def)
  have b: "bucket ?hi i < 2 ^ j" for i by (simp add: bucket_def and_exp_minus_1)
  have "hi_inv ?hi (\<lambda>_. [])" unfolding hi_inv_def u using assms(1) b by (simp add: n nat_power_eq)
  moreover have "hi_map ?hi = (\<lambda>_. None)" by (rule hi_map_eqI) (simp_all add: u)
  ultimately show ?thesis using i by auto
qed

subsection \<open>Properties\<close>

text \<open>
  C23. A well-formed table is a map from socket ids to indices. Lookup returns the index, or -1
  for an absent id. While the table is not full and the sum of id and capacity stays in the
  range of \<open>int\<close>, inserting a new id gives it an index below the capacity that no other id
  has; removing an id returns its index and removes exactly it, and changes nothing when it is
  absent. All keep the table well-formed, the loops end and no assertion fails.
\<close>

theorem hashid_refines_map:
  assumes "hi_inv hi cs" and "0 \<le> sint i" and "sint i + sint (hi_cap hi) \<le> 2 ^ 31"
  shows "hashid_lookup hi i = Some (case hi_map hi i of None \<Rightarrow> -1 | Some c \<Rightarrow> int c) \<and>
    (hi_map hi i = None \<and> \<not> hashid_full hi \<longrightarrow>
      (\<exists>c hi' cs'. hashid_insert hi i = Some (int c, hi') \<and> int c < sint (hi_cap hi) \<and> c \<notin> ran (hi_map hi) \<and>
         hi_inv hi' cs' \<and> hi_map hi' = (hi_map hi)(i \<mapsto> c) \<and> hi_cap hi' = hi_cap hi)) \<and>
    (case hi_map hi i of
       None \<Rightarrow> hashid_remove hi i = Some (-1, hi)
     | Some c \<Rightarrow> \<exists>hi' cs'. hashid_remove hi i = Some (int c, hi') \<and> hi_inv hi' cs' \<and>
         hi_map hi' = (hi_map hi)(i := None) \<and> hi_cap hi' = hi_cap hi)"
proof -
  have i: "i \<noteq> - 1" using assms(2) by auto
  have len: "int c < sint (hi_cap hi)" if "c < length (hi_id hi)" for c using that hi_invD(3) [OF assms(1)] by linarith
  show ?thesis using hashid_lookup_map [OF assms(1) i] hashid_remove_map [OF assms(1) i] hashid_insert_map [OF assms] len by blast
qed

theorem hashid_refines_map_witness:
  "\<exists>hi c hi' cs'. hashid_init 3 = Some hi \<and> hashid_lookup hi 5 = Some (-1) \<and> hashid_insert hi 5 = Some (int c, hi') \<and>
     hi_inv hi' cs' \<and> hi_map hi' = [5 \<mapsto> c]"
proof -
  obtain hi where hi: "hashid_init 3 = Some hi" "hi_inv hi (\<lambda>_. [])" "hi_map hi = (\<lambda>_. None)" "hi_cap hi = 3"
    using hashid_init_map [of 3] by auto
  have "used hi = {}" using hi_map_Some [OF hi_invD(8) [OF hi(2)]] by (auto simp: hi(3))
  then have "\<not> hashid_full hi" using hi_invD(9) [OF hi(2)] by (simp add: hashid_full_def hi(4))
  then show ?thesis using hashid_refines_map [OF hi(2), of 5] hi by auto
qed

text \<open>
  The scan of \<open>hashid_insert\<close> adds its counter to the id as \<open>int\<close>. For the largest socket
  id the sum overflows as soon as the first place is taken, the index becomes negative and the
  scan reads outside its array although the table has free places.
\<close>

theorem hashid_insert_overflow:
  "\<exists>hi hi'. hashid_init 3 = Some hi \<and> hashid_insert hi 1 = Some (1, hi') \<and> \<not> hashid_full hi' \<and>
     hashid_insert hi' 0x7fffffff = None"
proof -
  let ?hi = "\<lparr>hi_hashmod = 15, hi_cap = 3, hi_count = 0, hi_id = replicate 3 \<lparr>hn_id = - 1, hn_next = None\<rparr>, hi_hash = replicate 16 None\<rparr>"
  have "hashcap_loop 16 3 = Some 16" by (subst hashcap_loop.simps) simp
  then have i: "hashid_init 3 = Some ?hi" by (simp add: hashid_init_def)
  have u: "[0..<3] = [0, 1, 2 :: nat]" by (simp add: upt_rec)
  have ins: "\<exists>hi'. hashid_insert ?hi 1 = Some (1, hi') \<and> hi_cap hi' = 3 \<and> hi_count hi' = 1 \<and> length (hi_id hi') = 3 \<and> hid hi' 1 = 1"
    by (simp add: hashid_insert_def u insert_index_def node_at_def hash_at_def bucket_def)
  then obtain hi' where hi': "hashid_insert ?hi 1 = Some (1, hi')" "hi_cap hi' = 3" "hi_count hi' = 1" "length (hi_id hi') = 3" "hid hi' 1 = 1"
    by blast
  have "hashid_insert hi' 0x7fffffff = None"
    using hi'(2-) by (simp add: hashid_insert_def u insert_index_def node_at_def)
  then show ?thesis using i hi' by (auto simp: hashid_full_def)
qed

end
