(* ===== verification/Skynet_Databuffer.thy ===== *)
theory Skynet_Databuffer
  imports Skynet_Hashid Skynet_Socket_Base
begin

text \<open>
  The receive buffers of the gate, \<^verbatim>\<open>service-src/databuffer.h\<close>: the data blocks of a
  connection in a linked list of messages, and the pool from which all connections take
  their messages.

  The messages of the pool blocks are one store; block \<open>b\<close> has the addresses from
  \<open>b * MESSAGEPOOL\<close> on. The data blocks are in the heap of the node. \<open>size\<close> and \<open>offset\<close> are
  unbounded (a buffer of two gigabytes is not considered); the header read from the stream is
  an \<open>int\<close> of 32 bits, since \<open>plen[0] << 24\<close> can become negative. Following NULL, a failed
  assertion and a copy outside a block are \<open>None\<close>.

  The theorem \<open>databuffer_stream\<close>: a buffer is a FIFO byte stream, independent of the other
  buffers of the pool.
\<close>

definition MESSAGEPOOL :: nat where "MESSAGEPOOL = 1023"

record dbmessage =
  dm_buffer :: "ptr option"
  dm_size :: int
  dm_next :: "nat option"

record databuffer =
  db_header :: int
  db_offset :: int
  db_size :: int
  db_head :: "nat option"
  db_tail :: "nat option"

record messagepool =
  mp_msg :: "nat \<Rightarrow> dbmessage"
  mp_pool :: nat
  mp_freelist :: "nat option"

definition empty_databuffer :: databuffer where
  "empty_databuffer = \<lparr>db_header = 0, db_offset = 0, db_size = 0, db_head = None, db_tail = None\<rparr>"

subsection \<open>Operations\<close>

definition messagepool_free :: "messagepool \<Rightarrow> messagepool" where
  "messagepool_free mp = mp\<lparr>mp_pool := 0, mp_freelist := None\<rparr>"

definition return_message :: "node \<Rightarrow> databuffer \<Rightarrow> messagepool \<Rightarrow> (node \<times> databuffer \<times> messagepool) option" where
  "return_message nd db mp = do {
     m \<leftarrow> db_head db;
     db \<leftarrow> (case dm_next (mp_msg mp m) of
         None \<Rightarrow> (if db_tail db = Some m then Some (db\<lparr>db_head := None, db_tail := None\<rparr>) else None)
       | Some n \<Rightarrow> Some (db\<lparr>db_head := Some n\<rparr>));
     nd \<leftarrow> skynet_free nd (dm_buffer (mp_msg mp m));
     Some (nd, db,
       mp\<lparr>mp_msg := (mp_msg mp)(m := \<lparr>dm_buffer = None, dm_size = 0, dm_next = mp_freelist mp\<rparr>), mp_freelist := Some m\<rparr>) }"

text \<open>\<open>memcpy\<close> of \<open>n\<close> bytes from the data of a message.\<close>

definition message_bytes :: "node \<Rightarrow> dbmessage \<Rightarrow> int \<Rightarrow> int \<Rightarrow> string option" where
  "message_bytes nd m offset n = do {
     p \<leftarrow> dm_buffer m;
     if offset < 0 \<or> n < 0 then None else mem_load nd (p, nat offset) (nat n) }"

partial_function (option) read_loop ::
  "node \<Rightarrow> databuffer \<Rightarrow> messagepool \<Rightarrow> int \<Rightarrow> string \<Rightarrow> (string \<times> node \<times> databuffer \<times> messagepool) option" where
  "read_loop nd db mp sz acc =
     Option.bind (db_head db) (\<lambda>a.
       let current = mp_msg mp a; bsz = dm_size current - db_offset db
       in if bsz > sz then
            Option.bind (message_bytes nd current (db_offset db) sz) (\<lambda>bs.
              Some (acc @ bs, nd, db\<lparr>db_offset := db_offset db + sz\<rparr>, mp))
          else
            Option.bind (message_bytes nd current (db_offset db) bsz) (\<lambda>bs.
            Option.bind (return_message nd (db\<lparr>db_offset := 0\<rparr>) mp) (\<lambda>(nd, db, mp).
              if bsz = sz then Some (acc @ bs, nd, db, mp)
              else read_loop nd db mp (sz - bsz) (acc @ bs))))"

definition databuffer_read ::
  "node \<Rightarrow> databuffer \<Rightarrow> messagepool \<Rightarrow> int \<Rightarrow> (string \<times> node \<times> databuffer \<times> messagepool) option" where
  "databuffer_read nd db mp sz =
     (if db_size db < sz then None
      else read_loop nd (db\<lparr>db_size := db_size db - sz\<rparr>) mp sz [])"

text \<open>A new block of messages: the first is used at once, the others become the free list.\<close>

definition new_pool :: "messagepool \<Rightarrow> nat \<times> messagepool" where
  "new_pool mp =
     (let b = mp_pool mp * MESSAGEPOOL
      in (b, mp\<lparr>mp_msg := (\<lambda>a. if b < a \<and> a < b + MESSAGEPOOL
                    then \<lparr>dm_buffer = None, dm_size = 0, dm_next = (if a + 1 = b + MESSAGEPOOL then None else Some (a + 1))\<rparr>
                    else mp_msg mp a),
                mp_pool := mp_pool mp + 1, mp_freelist := Some (b + 1)\<rparr>))"

definition take_message :: "messagepool \<Rightarrow> nat \<times> messagepool" where
  "take_message mp =
     (case mp_freelist mp of
        Some m \<Rightarrow> (m, mp\<lparr>mp_freelist := dm_next (mp_msg mp m)\<rparr>)
      | None \<Rightarrow> new_pool mp)"

definition databuffer_push ::
  "databuffer \<Rightarrow> messagepool \<Rightarrow> ptr option \<Rightarrow> int \<Rightarrow> (databuffer \<times> messagepool) option" where
  "databuffer_push db mp data sz =
     (let (m, mp) = take_message mp;
          mp = mp\<lparr>mp_msg := (mp_msg mp)(m := \<lparr>dm_buffer = data, dm_size = sz, dm_next = None\<rparr>)\<rparr>;
          db = db\<lparr>db_size := db_size db + sz\<rparr>
      in case db_head db of
           None \<Rightarrow> (if db_tail db = None then Some (db\<lparr>db_head := Some m, db_tail := Some m\<rparr>, mp) else None)
         | Some _ \<Rightarrow> do {
             t \<leftarrow> db_tail db;
             Some (db\<lparr>db_tail := Some m\<rparr>,
                   mp\<lparr>mp_msg := (mp_msg mp)(t := (mp_msg mp t)\<lparr>dm_next := Some m\<rparr>)\<rparr>) })"

text \<open>The header of 2 or 4 bytes, big-endian, as an \<open>int\<close>.\<close>

definition header_value :: "string \<Rightarrow> int" where
  "header_value plen = sint (word_of_nat (foldl (\<lambda>n c. n * 256 + of_char c) 0 plen) :: cint)"

definition databuffer_readheader ::
  "node \<Rightarrow> databuffer \<Rightarrow> messagepool \<Rightarrow> nat \<Rightarrow> (int \<times> node \<times> databuffer \<times> messagepool) option" where
  "databuffer_readheader nd db mp header_size =
     (if db_header db = 0 \<and> db_size db < int header_size then Some (-1, nd, db, mp)
      else do {
        (nd, db, mp) \<leftarrow> (if db_header db = 0 then do {
            (plen, nd, db, mp) \<leftarrow> databuffer_read nd db mp (int header_size);
            Some (nd, db\<lparr>db_header := header_value plen\<rparr>, mp) }
          else Some (nd, db, mp));
        Some (if db_size db < db_header db then -1 else db_header db, nd, db, mp) })"

definition databuffer_reset :: "databuffer \<Rightarrow> databuffer" where
  "databuffer_reset db = db\<lparr>db_header := 0\<rparr>"

partial_function (option) clear_loop ::
  "node \<Rightarrow> databuffer \<Rightarrow> messagepool \<Rightarrow> (node \<times> messagepool) option" where
  "clear_loop nd db mp =
     (if db_head db = None then Some (nd, mp)
      else Option.bind (return_message nd db mp) (\<lambda>(nd, db, mp). clear_loop nd db mp))"

definition databuffer_clear ::
  "node \<Rightarrow> databuffer \<Rightarrow> messagepool \<Rightarrow> (node \<times> databuffer \<times> messagepool) option" where
  "databuffer_clear nd db mp = do {
     (nd, mp) \<leftarrow> clear_loop nd db mp;
     Some (nd, empty_databuffer, mp) }"

subsection \<open>A buffer as a byte stream\<close>

text \<open>
  \<open>as\<close> are the messages of the buffer, \<open>fs\<close> the free list, \<open>U\<close> the messages in use by others.
\<close>

definition db_links :: "messagepool \<Rightarrow> databuffer \<Rightarrow> nat list \<Rightarrow> nat list \<Rightarrow> nat set \<Rightarrow> bool" where
  "db_links mp db as fs U \<longleftrightarrow>
     nchain (\<lambda>a. dm_next (mp_msg mp a)) (db_head db) as \<and> db_tail db = (if as = [] then None else Some (last as)) \<and>
     nchain (\<lambda>a. dm_next (mp_msg mp a)) (mp_freelist mp) fs \<and> distinct (as @ fs) \<and> U \<inter> set (as @ fs) = {} \<and>
     (\<forall>a \<in> set as \<union> set fs \<union> U. a < mp_pool mp * MESSAGEPOOL)"

definition msg_block :: "messagepool \<Rightarrow> nat \<Rightarrow> ptr" where
  "msg_block mp a = the (dm_buffer (mp_msg mp a))"

definition block_bytes :: "node \<Rightarrow> ptr \<Rightarrow> string" where
  "block_bytes nd p = (case nd_mem nd p of Some (Bytes bs) \<Rightarrow> bs | _ \<Rightarrow> [])"

definition dm_data :: "node \<Rightarrow> messagepool \<Rightarrow> nat \<Rightarrow> string" where
  "dm_data nd mp a = take (nat (dm_size (mp_msg mp a))) (block_bytes nd (msg_block mp a))"

definition msg_ok :: "node \<Rightarrow> messagepool \<Rightarrow> nat \<Rightarrow> bool" where
  "msg_ok nd mp a \<longleftrightarrow>
     (\<exists>p bs. dm_buffer (mp_msg mp a) = Some p \<and> nd_mem nd p = Some (Bytes bs) \<and>
        0 < dm_size (mp_msg mp a) \<and> dm_size (mp_msg mp a) \<le> int (length bs))"

definition db_data :: "node \<Rightarrow> messagepool \<Rightarrow> nat list \<Rightarrow> bool" where
  "db_data nd mp as \<longleftrightarrow> (\<forall>a \<in> set as. msg_ok nd mp a) \<and> distinct (map (msg_block mp) as)"

definition db_bytes :: "node \<Rightarrow> messagepool \<Rightarrow> databuffer \<Rightarrow> nat list \<Rightarrow> string" where
  "db_bytes nd mp db as = drop (nat (db_offset db)) (concat (map (dm_data nd mp) as))"

definition db_offset_ok :: "messagepool \<Rightarrow> databuffer \<Rightarrow> nat list \<Rightarrow> bool" where
  "db_offset_ok mp db as \<longleftrightarrow>
     0 \<le> db_offset db \<and> (case as of [] \<Rightarrow> db_offset db = 0 | a # _ \<Rightarrow> db_offset db < dm_size (mp_msg mp a))"

definition db_ok :: "node \<Rightarrow> messagepool \<Rightarrow> databuffer \<Rightarrow> nat list \<Rightarrow> nat list \<Rightarrow> nat set \<Rightarrow> bool" where
  "db_ok nd mp db as fs U \<longleftrightarrow>
     db_links mp db as fs U \<and> db_data nd mp as \<and> db_offset_ok mp db as \<and> db_size db = int (length (db_bytes nd mp db as))"

text \<open>Only blocks of \<open>B\<close> are freed and nothing else changes in the node.\<close>

definition only_frees :: "ptr set \<Rightarrow> node \<Rightarrow> node \<Rightarrow> bool" where
  "only_frees B nd nd' \<longleftrightarrow> (\<exists>F \<subseteq> B. nd' = nd\<lparr>nd_mem := nd_mem nd |` (- F)\<rparr>)"

lemma only_frees_refl: "only_frees B nd nd"
  unfolding only_frees_def by (rule exI [of _ "{}"]) (simp add: restrict_map_def)

lemma only_frees_trans:
  assumes "only_frees B nd nd'" "only_frees C nd' nd''" "B \<subseteq> D" "C \<subseteq> D"
  shows "only_frees D nd nd''"
proof -
  obtain F G where "F \<subseteq> B" "G \<subseteq> C" "nd' = nd\<lparr>nd_mem := nd_mem nd |` (- F)\<rparr>" "nd'' = nd'\<lparr>nd_mem := nd_mem nd' |` (- G)\<rparr>"
    using assms by (auto simp: only_frees_def)
  then have "nd'' = nd\<lparr>nd_mem := nd_mem nd |` (- (F \<union> G))\<rparr>" "F \<union> G \<subseteq> D" using assms(3,4) by (auto simp: Int_commute)
  then show ?thesis unfolding only_frees_def by blast
qed

lemma only_frees_mem: "only_frees B nd nd' \<Longrightarrow> p \<notin> B \<Longrightarrow> nd_mem nd' p = nd_mem nd p"
  by (auto simp: only_frees_def restrict_map_def)

lemma msg_cong:
  assumes "mp_msg mp' a = mp_msg mp a" "nd_mem nd' (msg_block mp a) = nd_mem nd (msg_block mp a)"
  shows "dm_data nd' mp' a = dm_data nd mp a" "msg_ok nd' mp' a = msg_ok nd mp a" "msg_block mp' a = msg_block mp a"
  using assms unfolding msg_ok_def by (simp_all add: dm_data_def msg_block_def block_bytes_def) (metis option.sel)

lemma dm_data_length: "msg_ok nd mp a \<Longrightarrow> int (length (dm_data nd mp a)) = dm_size (mp_msg mp a)"
  by (auto simp: msg_ok_def dm_data_def msg_block_def block_bytes_def)

lemma message_bytes_data:
  assumes "msg_ok nd mp a" "0 \<le> off" "0 \<le> n" "off + n \<le> dm_size (mp_msg mp a)"
  shows "message_bytes nd (mp_msg mp a) off n = Some (take (nat n) (drop (nat off) (dm_data nd mp a)))"
proof -
  obtain p bs where p: "dm_buffer (mp_msg mp a) = Some p" "nd_mem nd p = Some (Bytes bs)"
    "0 < dm_size (mp_msg mp a)" "dm_size (mp_msg mp a) \<le> int (length bs)" using assms(1) by (auto simp: msg_ok_def)
  have "nat off + nat n \<le> length bs" "nat off + nat n \<le> nat (dm_size (mp_msg mp a))" using p(4) assms(2-4) by linarith+
  then show ?thesis using p assms(2,3)
    by (simp add: message_bytes_def mem_load_def dm_data_def msg_block_def block_bytes_def drop_take min_def)
qed

lemma return_message_ok:
  assumes "db_links mp db (a # as) fs U" "db_data nd mp (a # as)"
  shows "\<exists>nd' db' mp'. return_message nd db mp = Some (nd', db', mp') \<and> db_links mp' db' as (a # fs) U \<and> db_data nd' mp' as \<and>
    only_frees {msg_block mp a} nd nd' \<and> (\<forall>b. b \<noteq> a \<longrightarrow> mp_msg mp' b = mp_msg mp b) \<and>
    map (dm_data nd' mp') as = map (dm_data nd mp) as \<and> mp_pool mp' = mp_pool mp \<and>
    db_offset db' = db_offset db \<and> db_size db' = db_size db \<and> db_header db' = db_header db"
proof -
  let ?nx = "\<lambda>a. dm_next (mp_msg mp a)"
  have L: "db_head db = Some a" "nchain ?nx (?nx a) as" "db_tail db = Some (last (a # as))" "nchain ?nx (mp_freelist mp) fs"
    "distinct (a # as @ fs)" "U \<inter> set (a # as @ fs) = {}" "\<forall>b \<in> set (a # as) \<union> set fs \<union> U. b < mp_pool mp * MESSAGEPOOL"
    using assms(1) by (simp_all add: db_links_def)
  obtain p bs where p: "dm_buffer (mp_msg mp a) = Some p" "nd_mem nd p = Some (Bytes bs)" using assms(2) by (auto simp: db_data_def msg_ok_def)
  define db' where "db' = (case as of [] \<Rightarrow> db\<lparr>db_head := None, db_tail := None\<rparr> | b # _ \<Rightarrow> db\<lparr>db_head := Some b\<rparr>)"
  define mp' where "mp' = mp\<lparr>mp_msg := (mp_msg mp)(a := \<lparr>dm_buffer = None, dm_size = 0, dm_next = mp_freelist mp\<rparr>), mp_freelist := Some a\<rparr>"
  define nd' where "nd' = nd\<lparr>nd_mem := (nd_mem nd)(p := None)\<rparr>"
  have r: "return_message nd db mp = Some (nd', db', mp')"
    using L(1-3) p by (cases as) (simp_all add: return_message_def skynet_free_def db'_def mp'_def nd'_def)
  have msg: "mp_msg mp' b = mp_msg mp b" if "b \<noteq> a" for b using that by (simp add: mp'_def)
  have nx: "nchain (\<lambda>b. dm_next (mp_msg mp' b)) q l = nchain ?nx q l" if "a \<notin> set l" for q l
    using that by (intro nchain_cong) (metis msg)
  have blk: "msg_block mp a = p" by (simp add: msg_block_def p)
  have other: "msg_block mp b \<noteq> p" if "b \<in> set as" for b using assms(2) that blk by (simp add: db_data_def) (metis imageI)
  have same: "dm_data nd' mp' b = dm_data nd mp b" "msg_ok nd' mp' b = msg_ok nd mp b" "msg_block mp' b = msg_block mp b" if "b \<in> set as" for b
    using msg_cong [of mp' b mp nd' nd] msg [of b] other [OF that] L(5) that by (auto simp: nd'_def)
  have "db_links mp' db' as (a # fs) U"
    unfolding db_links_def
  proof (intro conjI)
    show "nchain (\<lambda>b. dm_next (mp_msg mp' b)) (db_head db') as" proof -
      have "db_head db' = ?nx a" using L(2) by (cases as) (simp_all add: db'_def)
      then show ?thesis using L(2,5) nx [of as "?nx a"] by simp
    qed
    show "db_tail db' = (if as = [] then None else Some (last as))" using L(3) by (cases as) (simp_all add: db'_def)
    show "nchain (\<lambda>b. dm_next (mp_msg mp' b)) (mp_freelist mp') (a # fs)" using L(4,5) nx [of fs] by (simp add: mp'_def)
  qed (use L(5-7) in \<open>auto simp: mp'_def\<close>)
  moreover have "db_data nd' mp' as" using assms(2) same by (simp add: db_data_def cong: map_cong)
  moreover have "only_frees {msg_block mp a} nd nd'"
    unfolding only_frees_def by (rule exI [of _ "{p}"]) (simp add: blk nd'_def restrict_complement_singleton_eq)
  moreover have "map (dm_data nd' mp') as = map (dm_data nd mp) as" using same by simp
  moreover have "mp_pool mp' = mp_pool mp" "db_offset db' = db_offset db" "db_size db' = db_size db" "db_header db' = db_header db"
    by (simp_all add: mp'_def db'_def split: list.split)
  ultimately show ?thesis using r msg by blast
qed


lemma links_fields [simp]:
  "db_links mp (db\<lparr>db_offset := n\<rparr>) as fs U = db_links mp db as fs U"
  "db_links mp (db\<lparr>db_size := n\<rparr>) as fs U = db_links mp db as fs U"
  "db_links mp (db\<lparr>db_header := n\<rparr>) as fs U = db_links mp db as fs U"
  by (simp_all add: db_links_def)

lemma offset_ok_fields [simp]:
  "db_offset_ok mp (db\<lparr>db_size := n\<rparr>) as = db_offset_ok mp db as"
  "db_offset_ok mp (db\<lparr>db_header := n\<rparr>) as = db_offset_ok mp db as"
  by (simp_all add: db_offset_ok_def split: list.split)

lemma db_bytes_fields [simp]:
  "db_bytes nd mp (db\<lparr>db_size := n\<rparr>) as = db_bytes nd mp db as"
  "db_bytes nd mp (db\<lparr>db_header := n\<rparr>) as = db_bytes nd mp db as"
  by (simp_all add: db_bytes_def)

lemma fresh_offset_ok: "db_data nd mp as \<Longrightarrow> db_offset db = 0 \<Longrightarrow> db_offset_ok mp db as"
  by (auto simp: db_offset_ok_def db_data_def msg_ok_def split: list.split)

text \<open>The messages, the heap and the messages of others after bytes were taken.\<close>

definition db_after ::
  "node \<Rightarrow> messagepool \<Rightarrow> nat list \<Rightarrow> nat set \<Rightarrow> node \<Rightarrow> messagepool \<Rightarrow> databuffer \<Rightarrow> nat list \<Rightarrow> nat list \<Rightarrow> bool" where
  "db_after nd mp as U nd' mp' db' as' fs' \<longleftrightarrow>
     db_links mp' db' as' fs' U \<and> db_data nd' mp' as' \<and> db_offset_ok mp' db' as' \<and>
     only_frees (msg_block mp ` set as) nd nd' \<and> (\<forall>u \<in> U. mp_msg mp' u = mp_msg mp u) \<and>
     msg_block mp' ` set as' \<subseteq> msg_block mp ` set as"

lemma db_after_trans:
  assumes "db_after nd mp as U nd1 mp1 db1 as1 fs1" "db_after nd1 mp1 as1 U nd' mp' db' as' fs'"
  shows "db_after nd mp as U nd' mp' db' as' fs'"
  using assms only_frees_trans [of "msg_block mp ` set as" nd nd1 "msg_block mp1 ` set as1" nd' "msg_block mp ` set as"]
  unfolding db_after_def by (simp, blast)

lemma return_message_after:
  assumes "db_links mp db (a # as) fs U" "db_data nd mp (a # as)"
  obtains nd' db' mp' where "return_message nd (db\<lparr>db_offset := 0\<rparr>) mp = Some (nd', db', mp')"
    "db_after nd mp (a # as) U nd' mp' db' as (a # fs)" "db_bytes nd' mp' db' as = concat (map (dm_data nd mp) as)"
    "db_offset db' = 0" "db_size db' = db_size db" "db_header db' = db_header db"
proof -
  obtain nd' db' mp' where r: "return_message nd (db\<lparr>db_offset := 0\<rparr>) mp = Some (nd', db', mp')" "db_links mp' db' as (a # fs) U" "db_data nd' mp' as"
    "only_frees {msg_block mp a} nd nd'" "\<forall>b. b \<noteq> a \<longrightarrow> mp_msg mp' b = mp_msg mp b"
    "map (dm_data nd' mp') as = map (dm_data nd mp) as"
    "db_offset db' = 0" "db_size db' = db_size db" "db_header db' = db_header db"
    using return_message_ok [of mp "db\<lparr>db_offset := 0\<rparr>" a as fs U nd] assms by (auto simp del: map_eq_conv)
  have a: "a \<notin> U" "a \<notin> set as" using assms(1) by (auto simp: db_links_def)
  have "msg_block mp' b = msg_block mp b" if "b \<in> set as" for b using r(5) a(2) that by (metis msg_block_def)
  then have "msg_block mp' ` set as \<subseteq> msg_block mp ` set (a # as)" by auto
  moreover have "only_frees (msg_block mp ` set (a # as)) nd nd'" by (rule only_frees_trans [OF only_frees_refl [of "{}"] r(4)]) auto
  ultimately have "db_after nd mp (a # as) U nd' mp' db' as (a # fs)"
    using r fresh_offset_ok [OF r(3,7)] a(1) unfolding db_after_def by metis
  moreover have "db_bytes nd' mp' db' as = concat (map (dm_data nd mp) as)" unfolding db_bytes_def r(6) by (simp add: r(7))
  ultimately show ?thesis using that r by blast
qed

lemma read_loop_ok:
  assumes "db_links mp db as fs U" "db_data nd mp as" "db_offset_ok mp db as" "0 < sz" "sz \<le> int (length (db_bytes nd mp db as))"
  shows "\<exists>nd' db' mp' as' fs'. read_loop nd db mp sz acc = Some (acc @ take (nat sz) (db_bytes nd mp db as), nd', db', mp') \<and>
    db_after nd mp as U nd' mp' db' as' fs' \<and> db_bytes nd' mp' db' as' = drop (nat sz) (db_bytes nd mp db as) \<and>
    db_size db' = db_size db \<and> db_header db' = db_header db"
  using assms
proof (induction as arbitrary: nd db mp fs sz acc)
  case (Cons a as)
  let ?s = "dm_size (mp_msg mp a)" and ?o = "db_offset db" and ?d = "dm_data nd mp a" and ?rest = "concat (map (dm_data nd mp) as)"
  have hd: "db_head db = Some a" using Cons.prems(1) by (simp add: db_links_def)
  have ok: "msg_ok nd mp a" using Cons.prems(2) by (simp add: db_data_def)
  have o: "0 \<le> ?o" "?o < ?s" using Cons.prems(3) by (simp_all add: db_offset_ok_def)
  have len: "int (length ?d) = ?s" by (rule dm_data_length [OF ok])
  have bytes: "db_bytes nd mp db (a # as) = drop (nat ?o) ?d @ ?rest" using o len by (simp add: db_bytes_def)
  show ?case
  proof (cases "?s - ?o > sz")
    case True
    let ?db = "db\<lparr>db_offset := ?o + sz\<rparr>"
    have "message_bytes nd (mp_msg mp a) ?o sz = Some (take (nat sz) (drop (nat ?o) ?d))"
      using True o Cons.prems(4) by (intro message_bytes_data [OF ok]) auto
    moreover have "take (nat sz) (drop (nat ?o) ?d) = take (nat sz) (db_bytes nd mp db (a # as))" using True len o by (simp add: bytes)
    ultimately have "read_loop nd db mp sz acc = Some (acc @ take (nat sz) (db_bytes nd mp db (a # as)), nd, ?db, mp)"
      using True by (subst read_loop.simps) (simp add: hd)
    moreover have "db_after nd mp (a # as) U nd mp ?db (a # as) fs"
      using Cons.prems True o by (simp add: db_after_def only_frees_refl db_offset_ok_def)
    moreover have "db_bytes nd mp ?db (a # as) = drop (nat sz) (db_bytes nd mp db (a # as))"
    proof -
      have "nat (db_offset ?db) = nat sz + nat ?o" using Cons.prems(4) o by simp
      then show ?thesis unfolding db_bytes_def drop_drop by (simp only:)
    qed
    ultimately show ?thesis by (intro exI [of _ nd] exI [of _ ?db] exI [of _ mp] exI [of _ "a # as"] exI [of _ fs]) simp
  next
    case False
    have mb: "message_bytes nd (mp_msg mp a) ?o (?s - ?o) = Some (drop (nat ?o) ?d)"
      using message_bytes_data [OF ok, of ?o "?s - ?o"] o len by simp
    obtain nd1 db1 mp1 where r: "return_message nd (db\<lparr>db_offset := 0\<rparr>) mp = Some (nd1, db1, mp1)"
      "db_after nd mp (a # as) U nd1 mp1 db1 as (a # fs)" "db_bytes nd1 mp1 db1 as = ?rest"
      "db_offset db1 = 0" "db_size db1 = db_size db" "db_header db1 = db_header db"
      using return_message_after [OF Cons.prems(1,2)] .
    have dl: "nat sz = length (drop (nat ?o) ?d) + nat (sz - (?s - ?o))" using False o len by simp
    have step: "read_loop nd db mp sz acc =
      (if ?s - ?o = sz then Some (acc @ drop (nat ?o) ?d, nd1, db1, mp1) else read_loop nd1 db1 mp1 (sz - (?s - ?o)) (acc @ drop (nat ?o) ?d))"
      using False by (subst read_loop.simps) (simp add: hd mb r(1))
    show ?thesis
    proof (cases "?s - ?o = sz")
      case True
      then have "read_loop nd db mp sz acc = Some (acc @ take (nat sz) (db_bytes nd mp db (a # as)), nd1, db1, mp1)"
        unfolding step bytes using dl by simp
      moreover have "?rest = drop (nat sz) (db_bytes nd mp db (a # as))" unfolding bytes using dl True by simp
      ultimately show ?thesis using r by metis
    next
      case neq: False
      have l: "db_links mp1 db1 as (a # fs) U" "db_data nd1 mp1 as" "db_offset_ok mp1 db1 as" using r(2) by (simp_all add: db_after_def)
      have sz: "0 < sz - (?s - ?o)" "sz - (?s - ?o) \<le> int (length (db_bytes nd1 mp1 db1 as))"
        using False neq Cons.prems(5) len o unfolding bytes r(3) by simp_all
      obtain nd' db' mp' as' fs' where s: "read_loop nd1 db1 mp1 (sz - (?s - ?o)) (acc @ drop (nat ?o) ?d) =
          Some ((acc @ drop (nat ?o) ?d) @ take (nat (sz - (?s - ?o))) ?rest, nd', db', mp')"
        "db_after nd1 mp1 as U nd' mp' db' as' fs'" "db_bytes nd' mp' db' as' = drop (nat (sz - (?s - ?o))) ?rest"
        "db_size db' = db_size db1" "db_header db' = db_header db1"
        using Cons.IH [OF l sz, of "acc @ drop (nat ?o) ?d"] unfolding r(3) by blast
      have "read_loop nd db mp sz acc = Some (acc @ take (nat sz) (db_bytes nd mp db (a # as)), nd', db', mp')"
        unfolding step bytes using neq s(1) dl by simp
      moreover have "db_bytes nd' mp' db' as' = drop (nat sz) (db_bytes nd mp db (a # as))" unfolding bytes s(3) using dl by simp
      ultimately show ?thesis using db_after_trans [OF r(2) s(2)] s(4,5) r(5,6) by metis
    qed
  qed
qed (simp add: db_bytes_def)

lemma databuffer_read_ok:
  assumes "db_ok nd mp db as fs U" "0 < n" "n \<le> length (db_bytes nd mp db as)"
  shows "\<exists>nd' db' mp' as' fs'. databuffer_read nd db mp (int n) = Some (take n (db_bytes nd mp db as), nd', db', mp') \<and>
    db_ok nd' mp' db' as' fs' U \<and> db_after nd mp as U nd' mp' db' as' fs' \<and>
    db_bytes nd' mp' db' as' = drop n (db_bytes nd mp db as) \<and> db_header db' = db_header db"
proof -
  let ?db = "db\<lparr>db_size := db_size db - int n\<rparr>"
  have b: "db_bytes nd mp ?db as = db_bytes nd mp db as" by (simp add: db_bytes_def)
  have "db_links mp ?db as fs U" "db_data nd mp as" "db_offset_ok mp ?db as" using assms(1) by (simp_all add: db_ok_def)
  from read_loop_ok [OF this, of "int n" "[]"] assms(2,3)
  obtain nd' db' mp' as' fs' where r: "read_loop nd ?db mp (int n) [] = Some (take n (db_bytes nd mp db as), nd', db', mp')"
    "db_after nd mp as U nd' mp' db' as' fs'" "db_bytes nd' mp' db' as' = drop n (db_bytes nd mp db as)"
    "db_size db' = db_size ?db" "db_header db' = db_header ?db" unfolding b by auto
  have "db_size db = int (length (db_bytes nd mp db as))" using assms(1) by (simp add: db_ok_def)
  then have "databuffer_read nd db mp (int n) = Some (take n (db_bytes nd mp db as), nd', db', mp')" "db_ok nd' mp' db' as' fs' U"
    using r assms(3) by (simp_all add: databuffer_read_def db_ok_def db_after_def)
  then show ?thesis using r by auto
qed


subsection \<open>Pushing\<close>

lemma nchain_upt:
  assumes "\<And>a. i \<le> a \<Longrightarrow> a < n \<Longrightarrow> nx a = (if a + 1 = n then None else Some (a + 1))"
  shows "nchain nx (if i < n then Some i else None) [i..<n]"
  using assms
proof (induction "n - i" arbitrary: i)
  case (Suc k)
  then have i: "i < n" by simp
  have "nchain nx (if Suc i < n then Some (Suc i) else None) [Suc i..<n]" using Suc by (intro Suc.hyps(1)) auto
  moreover have "nx i = (if Suc i < n then Some (Suc i) else None)" using Suc.prems [of i] i by auto
  ultimately show ?case using i by (simp add: upt_conv_Cons)
qed simp

lemma take_message_ok:
  assumes "db_links mp db as fs U"
  obtains m mp1 fs1 where "take_message mp = (m, mp1)" "m \<notin> set as \<union> U \<union> set fs1" "distinct (as @ fs1)" "U \<inter> set fs1 = {}"
    "nchain (\<lambda>a. dm_next (mp_msg mp1 a)) (mp_freelist mp1) fs1" "\<forall>a \<in> set as \<union> U. mp_msg mp1 a = mp_msg mp a"
    "\<forall>a \<in> insert m (set as \<union> set fs1 \<union> U). a < mp_pool mp1 * MESSAGEPOOL"
proof (cases fs)
  case (Cons m fs1)
  then show ?thesis using assms
    by (intro that [of m "mp\<lparr>mp_freelist := dm_next (mp_msg mp m)\<rparr>" fs1]) (auto simp: take_message_def db_links_def)
next
  case Nil
  let ?b = "mp_pool mp * MESSAGEPOOL"
  let ?mp = "snd (new_pool mp)"
  have f: "mp_freelist ?mp = Some (?b + 1)" "mp_pool ?mp = mp_pool mp + 1"
    "mp_msg ?mp a = (if ?b < a \<and> a < ?b + MESSAGEPOOL
       then \<lparr>dm_buffer = None, dm_size = 0, dm_next = (if a + 1 = ?b + MESSAGEPOOL then None else Some (a + 1))\<rparr> else mp_msg mp a)" for a
    by (simp_all add: new_pool_def Let_def)
  have "nchain (\<lambda>a. dm_next (mp_msg ?mp a)) (if ?b + 1 < ?b + MESSAGEPOOL then Some (?b + 1) else None) [?b + 1..<?b + MESSAGEPOOL]"
    by (rule nchain_upt) (auto simp: f)
  then have c: "nchain (\<lambda>a. dm_next (mp_msg ?mp a)) (mp_freelist ?mp) [?b + 1..<?b + MESSAGEPOOL]" by (simp add: f MESSAGEPOOL_def)
  have old: "a < ?b" if "a \<in> set as \<union> U" for a using assms that by (auto simp: db_links_def)
  have "take_message mp = (?b, ?mp)" using assms Nil by (simp add: take_message_def db_links_def new_pool_def Let_def)
  moreover have "distinct as" using assms by (simp add: db_links_def)
  moreover have "?b \<notin> set as \<union> U" "\<And>a. a \<in> set as \<union> U \<Longrightarrow> a < ?b + MESSAGEPOOL \<and> \<not> ?b < a" using old by fastforce+
  moreover have "set as \<inter> set [?b + 1..<?b + MESSAGEPOOL] = {}" "U \<inter> set [?b + 1..<?b + MESSAGEPOOL] = {}" using old by fastforce+
  ultimately show ?thesis using c
    by (intro that [of ?b ?mp "[?b + 1..<?b + MESSAGEPOOL]"]) (simp_all add: f, auto simp: MESSAGEPOOL_def)
qed

lemma databuffer_push_ok:
  assumes ok: "db_ok nd mp db as fs U" and p: "nd_mem nd p = Some (Bytes bs)" "0 < n" "n \<le> length bs" "p \<notin> msg_block mp ` set as"
  shows "\<exists>db' mp' as' fs'. databuffer_push db mp (Some p) (int n) = Some (db', mp') \<and> db_ok nd mp' db' as' fs' U \<and>
    db_bytes nd mp' db' as' = db_bytes nd mp db as @ take n bs \<and> (\<forall>u \<in> U. mp_msg mp' u = mp_msg mp u) \<and>
    msg_block mp' ` set as' = insert p (msg_block mp ` set as) \<and> db_header db' = db_header db"
proof -
  have L: "db_links mp db as fs U" "db_data nd mp as" "db_offset_ok mp db as" "db_size db = int (length (db_bytes nd mp db as))"
    using ok by (simp_all add: db_ok_def)
  obtain m mp1 fs1 where m: "take_message mp = (m, mp1)" "m \<notin> set as \<union> U \<union> set fs1" "distinct (as @ fs1)" "U \<inter> set fs1 = {}"
    "nchain (\<lambda>a. dm_next (mp_msg mp1 a)) (mp_freelist mp1) fs1" "\<forall>a \<in> set as \<union> U. mp_msg mp1 a = mp_msg mp a"
    "\<forall>a \<in> insert m (set as \<union> set fs1 \<union> U). a < mp_pool mp1 * MESSAGEPOOL" using take_message_ok [OF L(1)] .
  have C: "nchain (\<lambda>a. dm_next (mp_msg mp a)) (db_head db) as" "db_tail db = (if as = [] then None else Some (last as))"
    "distinct as" "U \<inter> set as = {}" using L(1) by (auto simp: db_links_def)
  let ?new = "\<lparr>dm_buffer = Some p, dm_size = int n, dm_next = None\<rparr>"
  define mp' where "mp' = (if as = [] then mp1\<lparr>mp_msg := (mp_msg mp1)(m := ?new)\<rparr>
    else mp1\<lparr>mp_msg := (mp_msg mp1)(m := ?new, last as := (mp_msg mp1 (last as))\<lparr>dm_next := Some m\<rparr>)\<rparr>)"
  define db' where "db' = db\<lparr>db_size := db_size db + int n, db_head := (if as = [] then Some m else db_head db), db_tail := Some m\<rparr>"
  have push: "databuffer_push db mp (Some p) (int n) = Some (db', mp')"
  proof (cases as)
    case Nil
    then show ?thesis using C(1,2) by (simp add: databuffer_push_def m(1) db'_def mp'_def)
  next
    case (Cons a as1)
    have "last as \<noteq> m" using m(2) Cons by (metis UnI1 last_in_set list.discI)
    then show ?thesis using C(1,2) Cons by (simp add: databuffer_push_def m(1) db'_def mp'_def)
  qed
  have new: "mp_msg mp' m = ?new" using m(2) by (auto simp: mp'_def)
  have old: "dm_buffer (mp_msg mp' a) = dm_buffer (mp_msg mp a)" "dm_size (mp_msg mp' a) = dm_size (mp_msg mp a)"
    "dm_next (mp_msg mp' a) = (if a = last as then Some m else dm_next (mp_msg mp a))" if "a \<in> set as" for a
  proof -
    have "a \<noteq> m" "mp_msg mp1 a = mp_msg mp a" "as \<noteq> []" using that m(2,6) by (metis UnI1, metis UnI1, auto)
    then show "dm_buffer (mp_msg mp' a) = dm_buffer (mp_msg mp a)" "dm_size (mp_msg mp' a) = dm_size (mp_msg mp a)"
      "dm_next (mp_msg mp' a) = (if a = last as then Some m else dm_next (mp_msg mp a))" by (auto simp: mp'_def)
  qed
  have last_as: "last as \<in> set as" if "as \<noteq> []" using that by simp
  have usr: "mp_msg mp' u = mp_msg mp u" if "u \<in> U" for u
  proof -
    have "u \<noteq> m" "mp_msg mp1 u = mp_msg mp u" "as \<noteq> [] \<Longrightarrow> u \<noteq> last as" using that m(2,6) C(4) last_as by blast+
    then show ?thesis by (simp add: mp'_def)
  qed
  have free: "mp_msg mp' a = mp_msg mp1 a" if "a \<in> set fs1" for a
  proof -
    have "a \<noteq> m" using that m(2) by blast
    moreover have "as \<noteq> [] \<Longrightarrow> a \<noteq> last as" using that m(3) last_as by (metis IntI distinct_append empty_iff)
    ultimately show ?thesis by (simp add: mp'_def)
  qed
  have blk: "msg_block mp' a = msg_block mp a" "dm_data nd mp' a = dm_data nd mp a" "msg_ok nd mp' a = msg_ok nd mp a" if "a \<in> set as" for a
    using old(1,2) [OF that] by (simp_all add: msg_block_def dm_data_def msg_ok_def)
  have mb: "msg_block mp' m = p" "dm_data nd mp' m = take n bs" "msg_ok nd mp' m"
    using p by (simp_all add: msg_block_def dm_data_def msg_ok_def new block_bytes_def)
  have "db_links mp' db' (as @ [m]) fs1 U"
    unfolding db_links_def
  proof (intro conjI)
    have "nchain (\<lambda>a. dm_next (mp_msg mp' a)) (if as = [] then Some m else db_head db) (as @ [m])"
      by (rule nchain_snoc [OF C(1,3)]) (use m(2) new old in auto)
    then show "nchain (\<lambda>a. dm_next (mp_msg mp' a)) (db_head db') (as @ [m])" by (simp add: db'_def)
    have "mp_freelist mp' = mp_freelist mp1" by (simp add: mp'_def)
    then show "nchain (\<lambda>a. dm_next (mp_msg mp' a)) (mp_freelist mp') fs1" using m(5) nchain_cong [of fs1 "\<lambda>a. dm_next (mp_msg mp' a)" "\<lambda>a. dm_next (mp_msg mp1 a)"] free
      by simp
    have "mp_pool mp' = mp_pool mp1" by (simp add: mp'_def)
    then show "\<forall>a \<in> set (as @ [m]) \<union> set fs1 \<union> U. a < mp_pool mp' * MESSAGEPOOL" using m(7) by simp
  qed (use m(2-4) C(4) in \<open>auto simp: db'_def\<close>)
  moreover have "db_data nd mp' (as @ [m])" using L(2) blk mb p(4) by (auto simp: db_data_def cong: map_cong)
  moreover have off: "db_offset_ok mp' db' (as @ [m])"
    using L(3) new old(2) p(2) by (auto simp: db_offset_ok_def db'_def split: list.splits)
  moreover have bytes: "db_bytes nd mp' db' (as @ [m]) = db_bytes nd mp db as @ take n bs"
  proof (cases as)
    case Nil
    then show ?thesis using L(3) mb by (simp add: db_bytes_def db'_def db_offset_ok_def)
  next
    case (Cons a as1)
    have "nat (db_offset db) \<le> length (dm_data nd mp a)" proof -
      have "int (length (dm_data nd mp a)) = dm_size (mp_msg mp a)" "db_offset db < dm_size (mp_msg mp a)"
        using L(2,3) Cons dm_data_length [of nd mp a] by (simp_all add: db_offset_ok_def db_data_def)
      then show ?thesis by linarith
    qed
    moreover have "map (dm_data nd mp') as = map (dm_data nd mp) as" using blk by simp
    ultimately show ?thesis using Cons mb unfolding db_bytes_def by (simp add: db'_def cong: map_cong)
  qed
  ultimately have "db_ok nd mp' db' (as @ [m]) fs1 U" using L(4) p(3) by (simp add: db_ok_def db'_def)
  moreover have "msg_block mp' ` set (as @ [m]) = insert p (msg_block mp ` set as)" using blk mb by auto
  ultimately show ?thesis using push bytes usr by (intro exI [of _ db'] exI [of _ mp'] exI [of _ "as @ [m]"] exI [of _ fs1]) (simp add: db'_def)
qed


subsection \<open>Clearing\<close>

lemma clear_loop_ok:
  assumes "db_links mp db as fs U" "db_data nd mp as"
  shows "\<exists>nd' mp' fs'. clear_loop nd db mp = Some (nd', mp') \<and> db_links mp' empty_databuffer [] fs' U \<and>
    only_frees (msg_block mp ` set as) nd nd' \<and> (\<forall>u \<in> U. mp_msg mp' u = mp_msg mp u)"
  using assms
proof (induction as arbitrary: nd db mp fs)
  case Nil
  then have "db_head db = None" "db_links mp empty_databuffer [] fs U" by (simp_all add: db_links_def empty_databuffer_def)
  then show ?case by (subst clear_loop.simps) (auto simp: only_frees_refl)
next
  case (Cons a as)
  obtain nd1 db1 mp1 where r: "return_message nd db mp = Some (nd1, db1, mp1)" "db_links mp1 db1 as (a # fs) U" "db_data nd1 mp1 as"
    "only_frees {msg_block mp a} nd nd1" "\<forall>b. b \<noteq> a \<longrightarrow> mp_msg mp1 b = mp_msg mp b"
    using return_message_ok [OF Cons.prems] by metis
  obtain nd' mp' fs' where s: "clear_loop nd1 db1 mp1 = Some (nd', mp')" "db_links mp' empty_databuffer [] fs' U"
    "only_frees (msg_block mp1 ` set as) nd1 nd'" "\<forall>u \<in> U. mp_msg mp' u = mp_msg mp1 u" using Cons.IH [OF r(2,3)] by metis
  have a: "db_head db = Some a" "a \<notin> U" "a \<notin> set as" using Cons.prems(1) by (auto simp: db_links_def)
  have "msg_block mp1 b = msg_block mp b" if "b \<in> set as" for b using r(5) a(3) that by (metis msg_block_def)
  then have "msg_block mp1 ` set as \<subseteq> msg_block mp ` set (a # as)" by auto
  then have "only_frees (msg_block mp ` set (a # as)) nd nd'" by (intro only_frees_trans [OF r(4) s(3)]) simp_all
  moreover have "\<forall>u \<in> U. mp_msg mp' u = mp_msg mp u" using s(4) r(5) a(2) by metis
  moreover have "clear_loop nd db mp = Some (nd', mp')" by (subst clear_loop.simps) (simp add: a(1) r(1) s(1))
  ultimately show ?case using s(2) by blast
qed

lemma databuffer_clear_ok:
  assumes "db_ok nd mp db as fs U"
  shows "\<exists>nd' mp' fs'. databuffer_clear nd db mp = Some (nd', empty_databuffer, mp') \<and> db_ok nd' mp' empty_databuffer [] fs' U \<and>
    only_frees (msg_block mp ` set as) nd nd' \<and> (\<forall>u \<in> U. mp_msg mp' u = mp_msg mp u)"
proof -
  have l: "db_links mp db as fs U" "db_data nd mp as" using assms by (simp_all add: db_ok_def)
  obtain nd' mp' fs' where "clear_loop nd db mp = Some (nd', mp')" "db_links mp' empty_databuffer [] fs' U"
    "only_frees (msg_block mp ` set as) nd nd'" "\<forall>u \<in> U. mp_msg mp' u = mp_msg mp u" using clear_loop_ok [OF l] by metis
  moreover have "db_ok nd' mp' empty_databuffer [] fs' U"
    using calculation(2) by (simp add: db_ok_def db_data_def db_bytes_def db_offset_ok_def empty_databuffer_def)
  ultimately show ?thesis by (auto simp: databuffer_clear_def)
qed

subsection \<open>Headers\<close>

lemma readheader_waits:
  assumes "db_ok nd mp db as fs U" "db_header db = 0" "length (db_bytes nd mp db as) < n"
  shows "databuffer_readheader nd db mp n = Some (-1, nd, db, mp)"
  using assms by (simp add: databuffer_readheader_def db_ok_def)

lemma readheader_known:
  assumes "db_header db \<noteq> 0"
  shows "databuffer_readheader nd db mp n = Some (if db_size db < db_header db then -1 else db_header db, nd, db, mp)"
  using assms by (simp add: databuffer_readheader_def)

lemma readheader_new:
  assumes "db_ok nd mp db as fs U" "db_header db = 0" "0 < n" "n \<le> length (db_bytes nd mp db as)"
  defines "v \<equiv> header_value (take n (db_bytes nd mp db as))"
  shows "\<exists>nd' db' mp' as' fs'. databuffer_readheader nd db mp n = Some (if db_size db - int n < v then -1 else v, nd', db', mp') \<and>
    db_ok nd' mp' db' as' fs' U \<and> db_after nd mp as U nd' mp' db' as' fs' \<and>
    db_bytes nd' mp' db' as' = drop n (db_bytes nd mp db as) \<and> db_header db' = v"
proof -
  obtain nd' db' mp' as' fs' where r: "databuffer_read nd db mp (int n) = Some (take n (db_bytes nd mp db as), nd', db', mp')"
    "db_ok nd' mp' db' as' fs' U" "db_after nd mp as U nd' mp' db' as' fs'" "db_bytes nd' mp' db' as' = drop n (db_bytes nd mp db as)"
    using databuffer_read_ok [OF assms(1,3,4)] by metis
  let ?db = "db'\<lparr>db_header := v\<rparr>"
  have "db_size db = int (length (db_bytes nd mp db as))" "db_size db' = int (length (db_bytes nd' mp' db' as'))"
    using assms(1) r(2) by (simp_all add: db_ok_def)
  then have "databuffer_readheader nd db mp n = Some (if db_size db - int n < v then -1 else v, nd', ?db, mp')"
    using r(1,4) assms(2,4) by (simp add: databuffer_readheader_def v_def)
  moreover have "db_ok nd' mp' ?db as' fs' U" "db_after nd mp as U nd' mp' ?db as' fs'" "db_bytes nd' mp' ?db as' = drop n (db_bytes nd mp db as)"
    using r by (simp_all add: db_ok_def db_after_def)
  ultimately show ?thesis by (intro exI [of _ nd'] exI [of _ ?db] exI [of _ mp'] exI [of _ as'] exI [of _ fs']) simp
qed

subsection \<open>Property\<close>

text \<open>
  C22. A well-formed buffer is a FIFO byte stream. Pushing a block of the heap appends its
  bytes, also when a new block of messages must be allocated; reading a positive number of
  bytes not above the size returns exactly the oldest ones, wherever the boundaries of the
  blocks are, and leaves the rest; clearing returns every message to the pool and empties
  the buffer. Each keeps the buffer well-formed, frees no block but its own (and the free
  list and the chains stay disjoint), and leaves the messages of the other buffers of the
  pool as they are.
\<close>

theorem databuffer_stream:
  assumes "db_ok nd mp db as fs U"
  shows "(nd_mem nd p = Some (Bytes bs) \<and> 0 < n \<and> n \<le> length bs \<and> p \<notin> msg_block mp ` set as \<longrightarrow>
      (\<exists>db' mp' as' fs'. databuffer_push db mp (Some p) (int n) = Some (db', mp') \<and> db_ok nd mp' db' as' fs' U \<and>
         db_bytes nd mp' db' as' = db_bytes nd mp db as @ take n bs \<and> (\<forall>u \<in> U. mp_msg mp' u = mp_msg mp u))) \<and>
    (0 < n \<and> n \<le> length (db_bytes nd mp db as) \<longrightarrow>
      (\<exists>nd' db' mp' as' fs'. databuffer_read nd db mp (int n) = Some (take n (db_bytes nd mp db as), nd', db', mp') \<and>
         db_ok nd' mp' db' as' fs' U \<and> db_bytes nd' mp' db' as' = drop n (db_bytes nd mp db as) \<and>
         only_frees (msg_block mp ` set as) nd nd' \<and> (\<forall>u \<in> U. mp_msg mp' u = mp_msg mp u))) \<and>
    (\<exists>nd' mp' fs'. databuffer_clear nd db mp = Some (nd', empty_databuffer, mp') \<and> db_ok nd' mp' empty_databuffer [] fs' U \<and>
       only_frees (msg_block mp ` set as) nd nd' \<and> (\<forall>u \<in> U. mp_msg mp' u = mp_msg mp u))"
proof (intro conjI impI)
  assume "nd_mem nd p = Some (Bytes bs) \<and> 0 < n \<and> n \<le> length bs \<and> p \<notin> msg_block mp ` set as"
  then show "\<exists>db' mp' as' fs'. databuffer_push db mp (Some p) (int n) = Some (db', mp') \<and> db_ok nd mp' db' as' fs' U \<and>
     db_bytes nd mp' db' as' = db_bytes nd mp db as @ take n bs \<and> (\<forall>u \<in> U. mp_msg mp' u = mp_msg mp u)"
    using databuffer_push_ok [OF assms, of p bs n] by metis
next
  assume "0 < n \<and> n \<le> length (db_bytes nd mp db as)"
  then show "\<exists>nd' db' mp' as' fs'. databuffer_read nd db mp (int n) = Some (take n (db_bytes nd mp db as), nd', db', mp') \<and>
     db_ok nd' mp' db' as' fs' U \<and> db_bytes nd' mp' db' as' = drop n (db_bytes nd mp db as) \<and>
     only_frees (msg_block mp ` set as) nd nd' \<and> (\<forall>u \<in> U. mp_msg mp' u = mp_msg mp u)"
    using databuffer_read_ok [OF assms, of n] unfolding db_after_def by metis
qed (rule databuffer_clear_ok [OF assms])

definition demo_pool :: messagepool where
  "demo_pool = \<lparr>mp_msg = (\<lambda>_. \<lparr>dm_buffer = None, dm_size = 0, dm_next = None\<rparr>), mp_pool = 0, mp_freelist = None\<rparr>"

lemma demo_pool_ok: "db_ok nd demo_pool empty_databuffer [] [] {}"
  by (simp add: db_ok_def db_links_def db_data_def db_offset_ok_def db_bytes_def demo_pool_def empty_databuffer_def)

theorem databuffer_stream_witness:
  "\<exists>db' mp' as' fs'. databuffer_push empty_databuffer demo_pool (Some 30) (int 3) = Some (db', mp') \<and>
     db_ok demo_node mp' db' as' fs' {} \<and> db_bytes demo_node mp' db' as' = ''hel''"
proof -
  have "nd_mem demo_node 30 = Some (Bytes ''hello'')" by (simp add: demo_node_def)
  then show ?thesis using databuffer_stream [OF demo_pool_ok [of demo_node], of 30 "''hello''" 3] by (simp add: db_bytes_def)
qed

end
