(* ===== verification/Skynet_Gate.thy ===== *)
theory Skynet_Gate
  imports Skynet_Databuffer Skynet_Socket_Server Skynet_Command
begin

text \<open>
  The gate service, \<^verbatim>\<open>service-src/service_gate.c\<close>: it listens on a socket, cuts the data of
  the connections into packages by a header of 2 or 4 bytes and forwards each package to the
  broker, the agent of the connection or the watchdog. Its state is a value that every
  function takes and returns beside the state of the node and the socket server.

  A \<open>char\<close> array is a list of characters; C strings in it end at the first NUL and reading
  past the end of the array is the failure \<open>None\<close>. An array on the stack whose content is sent
  by copy is a block that exists during the call. \<open>memcmp\<close> with a literal fails only when all
  bytes of the literal and its NUL agree and more are asked for. The address of the function
  \<open>_cb\<close> and of the instance are arguments of \<open>gate_init\<close>.

  The theorems: the packages of a stream reach the broker in order and exactly once
  (\<open>gate_forwards_packages\<close>); without a receiver the content of a package is taken for the
  header of the next one (\<open>gate_misreads_payload\<close>); a prefix of a command, even an empty one,
  is taken for the command (\<open>gate_ctrl_prefix\<close>).
\<close>

definition BACKLOG :: int where "BACKLOG = 128"

record connection =
  c_id :: cint
  c_agent :: u32
  c_client :: u32
  c_remote_name :: string
  c_buffer :: databuffer

record gate =
  g_ctx :: "ptr option"
  g_listen_id :: cint
  g_watchdog :: u32
  g_broker :: u32
  g_client_tag :: cint
  g_header_size :: nat
  g_max_connection :: cint
  g_hash :: hashid
  g_conn :: "connection list"
  g_mp :: messagepool

definition empty_connection :: connection where
  "empty_connection = \<lparr>c_id = 0, c_agent = 0, c_client = 0, c_remote_name = [], c_buffer = empty_databuffer\<rparr>"

definition gate_create :: gate where
  "gate_create =
     \<lparr>g_ctx = None, g_listen_id = - 1, g_watchdog = 0, g_broker = 0, g_client_tag = 0, g_header_size = 0,
      g_max_connection = 0, g_hash = \<lparr>hi_hashmod = 0, hi_cap = 0, hi_count = 0, hi_id = [], hi_hash = []\<rparr>,
      g_conn = [], g_mp = \<lparr>mp_msg = (\<lambda>_. \<lparr>dm_buffer = None, dm_size = 0, dm_next = None\<rparr>), mp_pool = 0, mp_freelist = None\<rparr>\<rparr>"

fun release_conns :: "'k sstate \<Rightarrow> ptr option \<Rightarrow> connection list \<Rightarrow> 'k sstate option" where
  "release_conns st ctx [] = Some st"
| "release_conns st ctx (c # cs) = do {
     st \<leftarrow> (if sint (c_id c) \<ge> 0 then Option.bind ctx (\<lambda>x. skynet_socket_close st x (c_id c)) else Some st);
     release_conns st ctx cs }"

definition gate_release :: "'k sstate \<Rightarrow> gate \<Rightarrow> 'k sstate option" where
  "gate_release st g =
     (if nat (sint (g_max_connection g)) \<le> length (g_conn g) then do {
        st \<leftarrow> release_conns st (g_ctx g) (take (nat (sint (g_max_connection g))) (g_conn g));
        if sint (g_listen_id g) \<ge> 0 then Option.bind (g_ctx g) (\<lambda>x. skynet_socket_close st x (g_listen_id g)) else Some st }
      else None)"

subsection \<open>Strings in arrays\<close>

definition c_str :: "string \<Rightarrow> nat \<Rightarrow> string option" where
  "c_str buf pos = (if NUL \<in> set (drop pos buf) then Some (takeWhile (\<lambda>c. c \<noteq> NUL) (drop pos buf)) else None)"

text \<open>\<open>_parm\<close>: the bytes behind the command and its blanks move to the front and get a NUL.\<close>

definition parm :: "string \<Rightarrow> nat \<Rightarrow> nat \<Rightarrow> string" where
  "parm msg sz command_sz =
     (let k = command_sz + length (takeWhile (\<lambda>c. c = CHR '' '') (drop command_sz (take sz msg)));
          n = sz - k
      in take n (drop k msg) @ [NUL] @ drop (n + 1) msg)"

text \<open>\<open>strsep(&p, '' '')\<close> at a position: the array and the position behind the token.\<close>

definition strsep_at :: "string \<Rightarrow> nat \<Rightarrow> (string \<times> nat option) option" where
  "strsep_at buf pos = do {
     s \<leftarrow> c_str buf pos;
     let t = length (takeWhile (\<lambda>c. c \<noteq> CHR '' '') s);
     Some (if t < length s then (buf[pos + t := NUL], Some (pos + t + 1)) else (buf, None)) }"

definition memcmp_eq :: "string \<Rightarrow> string \<Rightarrow> nat \<Rightarrow> bool option" where
  "memcmp_eq s lit n =
     (if n \<le> length lit + 1 then Some (take n s = take n (lit @ [NUL]))
      else if take (length lit + 1) s = lit @ [NUL] then None else Some False)"

subsection \<open>Commands\<close>

definition forward_agent :: "gate \<Rightarrow> cint \<Rightarrow> u32 \<Rightarrow> u32 \<Rightarrow> gate option" where
  "forward_agent g fd agentaddr clientaddr = do {
     i \<leftarrow> hashid_lookup (g_hash g) fd;
     if i \<ge> 0 then
       (if nat i < length (g_conn g)
        then Some (g\<lparr>g_conn := (g_conn g)[nat i := (g_conn g ! nat i)\<lparr>c_agent := agentaddr, c_client := clientaddr\<rparr>]\<rparr>)
        else None)
     else Some g }"

definition ctrl_kick :: "'k sstate \<Rightarrow> gate \<Rightarrow> ptr \<Rightarrow> string \<Rightarrow> 'k sstate option" where
  "ctrl_kick st g ctx tmp = do {
     s \<leftarrow> c_str tmp 0;
     let uid = word_of_int (strtol s 10);
     i \<leftarrow> hashid_lookup (g_hash g) uid;
     if i \<ge> 0 then skynet_socket_close st ctx uid else Some st }"

definition ctrl_forward :: "gate \<Rightarrow> string \<Rightarrow> gate option" where
  "ctrl_forward g tmp = do {
     (tmp, client) \<leftarrow> strsep_at tmp 0;
     case client of
       None \<Rightarrow> Some g
     | Some agent \<Rightarrow> do {
         idstr \<leftarrow> c_str tmp 0;
         (tmp, client) \<leftarrow> strsep_at tmp agent;
         case client of
           None \<Rightarrow> Some g
         | Some client \<Rightarrow> do {
             a \<leftarrow> c_str tmp (agent + 1);
             c \<leftarrow> c_str tmp (client + 1);
             forward_agent g (word_of_int (strtol idstr 10)) (ucast (strtoul a 16)) (ucast (strtoul c 16)) } } }"

definition ctrl_start :: "'k sstate \<Rightarrow> gate \<Rightarrow> ptr \<Rightarrow> string \<Rightarrow> 'k sstate option" where
  "ctrl_start st g ctx tmp = do {
     s \<leftarrow> c_str tmp 0;
     let uid = word_of_int (strtol s 10);
     i \<leftarrow> hashid_lookup (g_hash g) uid;
     if i \<ge> 0 then skynet_socket_start st ctx uid else Some st }"

definition ctrl :: "world \<Rightarrow> 'k sstate \<Rightarrow> gate \<Rightarrow> string \<Rightarrow> ('k sstate \<times> gate) option" where
  "ctrl w st g msg = do {
     ctx \<leftarrow> g_ctx g;
     let sz = length msg;
     let tmp = msg @ [NUL];
     let i = length (takeWhile (\<lambda>c. c \<noteq> CHR '' '') msg);
     if sz = 0 then Some (st, g)
     else do {
       kick \<leftarrow> memcmp_eq tmp ''kick'' i;
       if kick then do {
         st \<leftarrow> ctrl_kick st g ctx (parm tmp sz i);
         Some (st, g) }
       else do {
         forward \<leftarrow> memcmp_eq tmp ''forward'' i;
         if forward then do {
           g \<leftarrow> ctrl_forward g (parm tmp sz i);
           Some (st, g) }
         else do {
           broker \<leftarrow> memcmp_eq tmp ''broker'' i;
           if broker then do {
             name \<leftarrow> c_str (parm tmp sz i) 0;
             (h, nd) \<leftarrow> skynet_queryname w (st_nd st) (Some ctx) name;
             Some (st\<lparr>st_nd := nd\<rparr>, g\<lparr>g_broker := h\<rparr>) }
           else do {
             start \<leftarrow> memcmp_eq tmp ''start'' i;
             if start then do {
               st \<leftarrow> ctrl_start st g ctx (parm tmp sz i);
               Some (st, g) }
             else do {
               close \<leftarrow> memcmp_eq tmp ''close'' i;
               if close then
                 (if sint (g_listen_id g) \<ge> 0 then do {
                    st \<leftarrow> skynet_socket_close st ctx (g_listen_id g);
                    Some (st, g\<lparr>g_listen_id := - 1\<rparr>) }
                  else Some (st, g))
               else do {
                 s \<leftarrow> c_str tmp 0;
                 nd \<leftarrow> skynet_error w (st_nd st) (Some ctx) (Some (''[gate] Unkown command : '' @ s));
                 Some (st\<lparr>st_nd := nd\<rparr>, g) } } } } } } }"

text \<open>\<open>_report\<close>: the formatted text is in an array of 1024 bytes.\<close>

definition report :: "world \<Rightarrow> node \<Rightarrow> gate \<Rightarrow> string \<Rightarrow> node option" where
  "report w nd g txt =
     (if g_watchdog g = 0 then Some nd
      else do {
        ctx \<leftarrow> g_ctx g;
        let (tmp, nd) = skynet_malloc nd (vsnprintf_buf (Some txt) 1024);
        (_, nd) \<leftarrow> skynet_send w nd (Some ctx) 0 (g_watchdog g) PTYPE_TEXT 0 (Some tmp) (word_of_nat (length txt));
        skynet_free nd (Some tmp) })"

subsection \<open>Packages\<close>

definition forward ::
  "world \<Rightarrow> node \<Rightarrow> gate \<Rightarrow> nat \<Rightarrow> int \<Rightarrow> (node \<times> gate) option" where
  "forward w nd g ci sz = do {
     ctx \<leftarrow> g_ctx g;
     let c = g_conn g ! ci;
     let fd = c_id c;
     let put = (\<lambda>db mp. g\<lparr>g_conn := (g_conn g)[ci := c\<lparr>c_buffer := db\<rparr>], g_mp := mp\<rparr>);
     if sint fd \<le> 0 then Some (nd, g)
     else if g_broker g \<noteq> 0 then do {
       (bs, nd, db, mp) \<leftarrow> databuffer_read nd (c_buffer c) (g_mp g) sz;
       let (temp, nd) = skynet_malloc nd (Bytes bs);
       (_, nd) \<leftarrow> skynet_send w nd (Some ctx) 0 (g_broker g) (g_client_tag g OR PTYPE_TAG_DONTCOPY) fd (Some temp) (word_of_int sz);
       Some (nd, put db mp) }
     else if c_agent c \<noteq> 0 then do {
       (bs, nd, db, mp) \<leftarrow> databuffer_read nd (c_buffer c) (g_mp g) sz;
       let (temp, nd) = skynet_malloc nd (Bytes bs);
       (_, nd) \<leftarrow> skynet_send w nd (Some ctx) (c_client c) (c_agent c) (g_client_tag g OR PTYPE_TAG_DONTCOPY) fd (Some temp) (word_of_int sz);
       Some (nd, put db mp) }
     else if g_watchdog g \<noteq> 0 then do {
       let txt = take 31 (fmt_d (sint (c_id c)) @ '' data '');
       let n = length (fmt_d (sint (c_id c)) @ '' data '');
       (bs, nd, db, mp) \<leftarrow> databuffer_read nd (c_buffer c) (g_mp g) sz;
       let (tmp, nd) = skynet_malloc nd (Bytes (txt @ bs));
       (_, nd) \<leftarrow> skynet_send w nd (Some ctx) 0 (g_watchdog g) (PTYPE_TEXT OR PTYPE_TAG_DONTCOPY) fd (Some tmp) (word_of_int (sz + int n));
       Some (nd, put db mp) }
     else Some (nd, g) }"

definition conn_update :: "gate \<Rightarrow> nat \<Rightarrow> (connection \<Rightarrow> connection) \<Rightarrow> gate" where
  "conn_update g ci f = g\<lparr>g_conn := (g_conn g)[ci := f (g_conn g ! ci)]\<rparr>"

definition too_long :: "world \<Rightarrow> 'k sstate \<Rightarrow> gate \<Rightarrow> nat \<Rightarrow> cint \<Rightarrow> ('k sstate \<times> gate) option" where
  "too_long w st g ci sid = do {
     ctx \<leftarrow> g_ctx g;
     (nd, db, mp) \<leftarrow> databuffer_clear (st_nd st) (c_buffer (g_conn g ! ci)) (g_mp g);
     st \<leftarrow> skynet_socket_close (st\<lparr>st_nd := nd\<rparr>) ctx sid;
     nd \<leftarrow> skynet_error w (st_nd st) (Some ctx) (Some ''Recv socket message > 16M'');
     Some (st\<lparr>st_nd := nd\<rparr>, (conn_update g ci (\<lambda>c. c\<lparr>c_buffer := db\<rparr>))\<lparr>g_mp := mp\<rparr>) }"

partial_function (option) package_loop :: "world \<Rightarrow> 'k sstate \<Rightarrow> gate \<Rightarrow> nat \<Rightarrow> cint \<Rightarrow> ('k sstate \<times> gate) option" where
  "package_loop w st g ci sid =
     Option.bind (databuffer_readheader (st_nd st) (c_buffer (g_conn g ! ci)) (g_mp g) (g_header_size g)) (\<lambda>(sz, nd, db, mp).
       let st = st\<lparr>st_nd := nd\<rparr>; g = (conn_update g ci (\<lambda>c. c\<lparr>c_buffer := db\<rparr>))\<lparr>g_mp := mp\<rparr>
       in if sz < 0 then Some (st, g)
          else if sz > 0 then
            (if sz \<ge> 0x1000000 then too_long w st g ci sid
             else Option.bind (forward w (st_nd st) g ci sz) (\<lambda>(nd, g).
               package_loop w (st\<lparr>st_nd := nd\<rparr>) (conn_update g ci (\<lambda>c. c\<lparr>c_buffer := databuffer_reset (c_buffer c)\<rparr>)) ci sid))
          else package_loop w st g ci sid)"

definition gate_dispatch_message ::
  "world \<Rightarrow> 'k sstate \<Rightarrow> gate \<Rightarrow> nat \<Rightarrow> cint \<Rightarrow> ptr option \<Rightarrow> int \<Rightarrow> ('k sstate \<times> gate) option" where
  "gate_dispatch_message w st g ci sid data sz = do {
     (db, mp) \<leftarrow> databuffer_push (c_buffer (g_conn g ! ci)) (g_mp g) data sz;
     package_loop w st ((conn_update g ci (\<lambda>c. c\<lparr>c_buffer := db\<rparr>))\<lparr>g_mp := mp\<rparr>) ci sid }"


subsection \<open>Socket messages\<close>

definition on_data :: "world \<Rightarrow> 'k sstate \<Rightarrow> gate \<Rightarrow> skynet_socket_message \<Rightarrow> ('k sstate \<times> gate) option" where
  "on_data w st g message = do {
     ctx \<leftarrow> g_ctx g;
     i \<leftarrow> hashid_lookup (g_hash g) (ssm_id message);
     if i \<ge> 0 then
       (if nat i < length (g_conn g)
        then gate_dispatch_message w st g (nat i) (ssm_id message) (ssm_buffer message) (sint (ssm_ud message))
        else None)
     else do {
       nd \<leftarrow> skynet_error w (st_nd st) (Some ctx)
         (Some (''Drop unknown connection '' @ fmt_d (sint (ssm_id message)) @ '' message''));
       st \<leftarrow> skynet_socket_close (st\<lparr>st_nd := nd\<rparr>) ctx (ssm_id message);
       nd \<leftarrow> skynet_free (st_nd st) (ssm_buffer message);
       Some (st\<lparr>st_nd := nd\<rparr>, g) } }"

definition on_connect :: "world \<Rightarrow> 'k sstate \<Rightarrow> gate \<Rightarrow> skynet_socket_message \<Rightarrow> ('k sstate \<times> gate) option" where
  "on_connect w st g message = do {
     ctx \<leftarrow> g_ctx g;
     if ssm_id message = g_listen_id g then Some (st, g)
     else do {
       i \<leftarrow> hashid_lookup (g_hash g) (ssm_id message);
       if i < 0 then do {
         nd \<leftarrow> skynet_error w (st_nd st) (Some ctx) (Some (''Close unknown connection '' @ fmt_d (sint (ssm_id message))));
         st \<leftarrow> skynet_socket_close (st\<lparr>st_nd := nd\<rparr>) ctx (ssm_id message);
         Some (st, g) }
       else Some (st, g) } }"

definition on_close :: "world \<Rightarrow> 'k sstate \<Rightarrow> gate \<Rightarrow> skynet_socket_message \<Rightarrow> ('k sstate \<times> gate) option" where
  "on_close w st g message = do {
     (i, hash) \<leftarrow> hashid_remove (g_hash g) (ssm_id message);
     let g = g\<lparr>g_hash := hash\<rparr>;
     if i \<ge> 0 then
       (if nat i < length (g_conn g) then do {
          (nd, _, mp) \<leftarrow> databuffer_clear (st_nd st) (c_buffer (g_conn g ! nat i)) (g_mp g);
          let g = g\<lparr>g_conn := (g_conn g)[nat i := empty_connection\<lparr>c_id := - 1\<rparr>], g_mp := mp\<rparr>;
          nd \<leftarrow> report w nd g (fmt_d (sint (ssm_id message)) @ '' close'');
          Some (st\<lparr>st_nd := nd\<rparr>, g) }
        else None)
     else Some (st, g) }"

definition on_accept :: "world \<Rightarrow> 'k sstate \<Rightarrow> gate \<Rightarrow> skynet_socket_message \<Rightarrow> int \<Rightarrow> ('k sstate \<times> gate) option" where
  "on_accept w st g message sz = do {
     ctx \<leftarrow> g_ctx g;
     let ud = ssm_ud message;
     if g_listen_id g \<noteq> ssm_id message then None
     else if hashid_full (g_hash g) then do {
       st \<leftarrow> skynet_socket_close st ctx ud;
       Some (st, g) }
     else do {
       (i, hash) \<leftarrow> hashid_insert (g_hash g) ud;
       let g = g\<lparr>g_hash := hash\<rparr>;
       let sz = (if sz < 0 \<or> sz \<ge> 32 then 31 else sz);
       if nat i < length (g_conn g) \<and> nat sz \<le> length (ssm_tail message) then do {
         let name = take (nat sz) (ssm_tail message);
         let g = conn_update g (nat i) (\<lambda>c. c\<lparr>c_id := ud, c_remote_name := name\<rparr>);
         nd \<leftarrow> report w (st_nd st) g (fmt_d (sint ud) @ '' open '' @ fmt_d (sint ud) @ '' '' @ takeWhile (\<lambda>c. c \<noteq> NUL) name @ '':0'');
         nd \<leftarrow> skynet_error w nd (Some ctx) (Some (''socket open: '' @ fmt_x ud));
         Some (st\<lparr>st_nd := nd\<rparr>, g) }
       else None } }"

definition dispatch_socket_message ::
  "world \<Rightarrow> 'k sstate \<Rightarrow> gate \<Rightarrow> skynet_socket_message \<Rightarrow> int \<Rightarrow> ('k sstate \<times> gate) option" where
  "dispatch_socket_message w st g message sz =
     (if ssm_type message = SKYNET_SOCKET_TYPE_DATA then on_data w st g message
      else if ssm_type message = SKYNET_SOCKET_TYPE_CONNECT then on_connect w st g message
      else if ssm_type message = SKYNET_SOCKET_TYPE_CLOSE \<or> ssm_type message = SKYNET_SOCKET_TYPE_ERROR then on_close w st g message
      else if ssm_type message = SKYNET_SOCKET_TYPE_ACCEPT then on_accept w st g message sz
      else if ssm_type message = SKYNET_SOCKET_TYPE_WARNING then do {
        ctx \<leftarrow> g_ctx g;
        nd \<leftarrow> skynet_error w (st_nd st) (Some ctx)
          (Some (''fd ('' @ fmt_d (sint (ssm_id message)) @ '') send buffer ('' @ fmt_d (sint (ssm_ud message)) @ '')K''));
        Some (st\<lparr>st_nd := nd\<rparr>, g) }
      else Some (st, g))"

definition sendbuffer_init :: "cint \<Rightarrow> ptr \<Rightarrow> cint \<Rightarrow> socket_sendbuffer" where
  "sendbuffer_init sid buffer sz =
     \<lparr>sb_id = sid, sb_type = (if sint sz < 0 then SOCKET_BUFFER_OBJECT else SOCKET_BUFFER_MEMORY),
      sb_buffer = buffer, sb_sz = scast sz\<rparr>"

definition skynet_socket_send :: "'k sys \<Rightarrow> world \<Rightarrow> 'k sstate \<Rightarrow> cint \<Rightarrow> ptr \<Rightarrow> cint \<Rightarrow> (int \<times> 'k sstate) option" where
  "skynet_socket_send sys w st sid buffer sz = socket_server_send sys w st (sendbuffer_init sid buffer sz)"

text \<open>A message of a client: its last four bytes are the id of the socket, little-endian.\<close>

definition client_message ::
  "'k sys \<Rightarrow> world \<Rightarrow> 'k sstate \<Rightarrow> gate \<Rightarrow> ptr \<Rightarrow> u32 \<Rightarrow> ptr option \<Rightarrow> size_t \<Rightarrow> (int \<times> 'k sstate \<times> gate) option" where
  "client_message sys w st g ctx source msg sz =
     (if unat sz \<le> 4 then do {
        nd \<leftarrow> skynet_error w (st_nd st) (Some ctx) (Some (''Invalid client message from '' @ fmt_x source));
        Some (0, st\<lparr>st_nd := nd\<rparr>, g) }
      else do {
        p \<leftarrow> msg;
        idbuf \<leftarrow> mem_load (st_nd st) (p, unat sz - 4) 4;
        let uid = word_of_nat (foldr (\<lambda>c n. of_char c + n * 256) idbuf 0);
        i \<leftarrow> hashid_lookup (g_hash g) uid;
        if i \<ge> 0 then do {
          (_, st) \<leftarrow> skynet_socket_send sys w st uid p (ucast (sz - 4));
          Some (1, st, g) }
        else do {
          nd \<leftarrow> skynet_error w (st_nd st) (Some ctx)
            (Some (''Invalid client id '' @ fmt_d (sint uid) @ '' from '' @ fmt_x source));
          Some (0, st\<lparr>st_nd := nd\<rparr>, g) } })"

definition gate_cb ::
  "'k sys \<Rightarrow> world \<Rightarrow> 'k sstate \<Rightarrow> gate \<Rightarrow> ptr \<Rightarrow> cint \<Rightarrow> u32 \<Rightarrow> ptr option \<Rightarrow> size_t \<Rightarrow> (int \<times> 'k sstate \<times> gate) option" where
  "gate_cb sys w st g ctx type source msg sz =
     (if type = PTYPE_TEXT then do {
        bs \<leftarrow> (case msg of Some p \<Rightarrow> mem_load (st_nd st) (p, 0) (unat sz) | None \<Rightarrow> if sz = 0 then Some [] else None);
        (st, g) \<leftarrow> ctrl w st g bs;
        Some (0, st, g) }
      else if type = PTYPE_CLIENT then client_message sys w st g ctx source msg sz
      else if type = PTYPE_SOCKET then do {
        p \<leftarrow> msg;
        case nd_mem (st_nd st) p of
          Some (Sock message) \<Rightarrow> do {
            (st, g) \<leftarrow> dispatch_socket_message w st g message (int (unat sz) - int SOCKET_MESSAGE_SIZE);
            Some (0, st, g) }
        | _ \<Rightarrow> None }
      else Some (0, st, g))"

subsection \<open>Start\<close>

text \<open>\<open>strrchr\<close>: the parts of a string before and behind the last occurrence of a character.\<close>

definition split_last :: "char \<Rightarrow> string \<Rightarrow> (string \<times> string) option" where
  "split_last c s =
     (if c \<in> set s
      then Some (rev (tl (dropWhile (\<lambda>x. x \<noteq> c) (rev s))), rev (takeWhile (\<lambda>x. x \<noteq> c) (rev s)))
      else None)"

definition start_listen :: "'k sys \<Rightarrow> world \<Rightarrow> 'k sstate \<Rightarrow> gate \<Rightarrow> ptr \<Rightarrow> string \<Rightarrow> (int \<times> 'k sstate \<times> gate) option" where
  "start_listen sys w st g ctx listen_addr = do {
     let (host, portstr) = (case split_last CHR '':'' listen_addr of None \<Rightarrow> ([], listen_addr) | Some hp \<Rightarrow> hp);
     let port = sint (word_of_int (strtol portstr 10) :: cint);
     if port \<le> 0 then do {
       nd \<leftarrow> skynet_error w (st_nd st) (Some ctx) (Some (''Invalid gate address '' @ listen_addr));
       Some (1, st\<lparr>st_nd := nd\<rparr>, g) }
     else do {
       (lid, st) \<leftarrow> skynet_socket_listen sys st ctx (Some host) port BACKLOG;
       let g = g\<lparr>g_listen_id := lid\<rparr>;
       if sint lid < 0 then Some (1, st, g)
       else do {
         st \<leftarrow> skynet_socket_start st ctx lid;
         Some (0, st, g) } } }"

text \<open>The conversion \<open>%d\<close> of \<open>sscanf\<close>.\<close>

definition scan_int :: "string \<Rightarrow> (cint \<times> string) option" where
  "scan_int s =
     (let s = dropWhile isspace s;
          sign = (case s of c # _ \<Rightarrow> c = CHR ''-'' \<or> c = CHR ''+'' | [] \<Rightarrow> False);
          d = (if sign then tl s else s)
      in if takeWhile (\<lambda>c. digit_val c < 10) d = [] then None
         else Some (word_of_int (strtol s 10), dropWhile (\<lambda>c. digit_val c < 10) d))"

text \<open>
  \<open>sscanf(parm, ''%c %s %s %d %d'', ...)\<close>: what was converted, in order, when at least four
  conversions succeed; \<open>max\<close> stays 0 without the fifth.
\<close>

definition scan_parm :: "string \<Rightarrow> (char \<times> string \<times> string \<times> cint \<times> cint) option" where
  "scan_parm s = (case s of
     [] \<Rightarrow> None
   | header # s \<Rightarrow> do {
       (watchdog, s) \<leftarrow> scan_word s;
       (binding, s) \<leftarrow> scan_word s;
       (client_tag, s) \<leftarrow> scan_int s;
       Some (header, watchdog, binding, client_tag, case scan_int s of Some (m, _) \<Rightarrow> m | None \<Rightarrow> 0) })"

definition gate_error :: "world \<Rightarrow> 'k sstate \<Rightarrow> gate \<Rightarrow> ptr \<Rightarrow> string \<Rightarrow> (int \<times> 'k sstate \<times> gate) option" where
  "gate_error w st g ctx txt = do {
     nd \<leftarrow> skynet_error w (st_nd st) (Some ctx) (Some txt);
     Some (1, st\<lparr>st_nd := nd\<rparr>, g) }"

definition gate_setup :: "gate \<Rightarrow> ptr \<Rightarrow> hashid \<Rightarrow> char \<Rightarrow> cint \<Rightarrow> cint \<Rightarrow> gate" where
  "gate_setup g ctx hash header client_tag mx =
     g\<lparr>g_ctx := Some ctx, g_hash := hash, g_conn := replicate (nat (sint mx)) (empty_connection\<lparr>c_id := - 1\<rparr>),
       g_max_connection := mx, g_client_tag := client_tag, g_header_size := (if header = CHR ''S'' then 2 else 4)\<rparr>"

definition gate_init ::
  "'k sys \<Rightarrow> world \<Rightarrow> 'k sstate \<Rightarrow> gate \<Rightarrow> ptr \<Rightarrow> ptr \<Rightarrow> nat \<Rightarrow> string option \<Rightarrow> (int \<times> 'k sstate \<times> gate) option" where
  "gate_init sys w st g inst ctx cb arg = (case arg of
     None \<Rightarrow> Some (1, st, g)
   | Some arg \<Rightarrow>
     (case scan_parm arg of
        None \<Rightarrow> gate_error w st g ctx (''Invalid gate parm '' @ arg)
      | Some (header, watchdog, binding, client_tag, mx) \<Rightarrow>
          if sint mx \<le> 0 then gate_error w st g ctx ''Need max connection''
          else if header \<noteq> CHR ''S'' \<and> header \<noteq> CHR ''L'' then gate_error w st g ctx ''Invalid data header style''
          else do {
            let client_tag = (if client_tag = 0 then PTYPE_CLIENT else client_tag);
            (h, nd) \<leftarrow> (if char0 watchdog = CHR ''!'' then Some (0, st_nd st)
                        else skynet_queryname w (st_nd st) (Some ctx) watchdog);
            let st = st\<lparr>st_nd := nd\<rparr>;
            let g = g\<lparr>g_watchdog := h\<rparr>;
            if char0 watchdog \<noteq> CHR ''!'' \<and> h = 0 then gate_error w st g ctx (''Invalid watchdog '' @ watchdog)
            else do {
              hash \<leftarrow> hashid_init mx;
              nd \<leftarrow> skynet_callback (st_nd st) ctx (Some inst) (Some cb);
              start_listen sys w (st\<lparr>st_nd := nd\<rparr>) (gate_setup g ctx hash header client_tag mx) ctx binding } }))"

subsection \<open>Packages in a stream\<close>

definition header_bytes :: "nat \<Rightarrow> nat \<Rightarrow> string" where
  "header_bytes hs n = (if hs = 2 then [char_of (n div 256), char_of n]
     else [char_of (n div 16777216), char_of (n div 65536), char_of (n div 256), char_of n])"

definition pkg :: "nat \<Rightarrow> string \<Rightarrow> string" where
  "pkg hs m = header_bytes hs (length m) @ m"

definition pkg_ok :: "nat \<Rightarrow> string \<Rightarrow> bool" where
  "pkg_ok hs m \<longleftrightarrow> length m < (if hs = 2 then 65536 else 0x1000000)"

text \<open>A proper part of a package.\<close>

definition incomplete :: "nat \<Rightarrow> string \<Rightarrow> bool" where
  "incomplete hs r \<longleftrightarrow> length r < hs \<or>
     (let v = header_value (take hs r) in 0 < v \<and> int (length r) < int hs + v)"

lemma header_roundtrip:
  assumes "hs = 2 \<and> n < 65536 \<or> hs = 4 \<and> n < 2 ^ 31"
  shows "header_value (header_bytes hs n) = int n" "length (header_bytes hs n) = hs"
proof -
  have "foldl (\<lambda>n c. n * 256 + of_char c) 0 (header_bytes hs n) = n"
  proof (cases "hs = 2")
    case True
    then have "n div 256 mod 256 = n div 256" using assms by simp
    then show ?thesis using True by (simp add: header_bytes_def of_char_of)
  next
    case False
    then have "n div 16777216 < 256" using assms by (intro less_mult_imp_div_less) simp
    then have "n div 16777216 mod 256 = n div 16777216" by (rule mod_less)
    moreover have "(n div 16777216) * 256 + n div 65536 mod 256 = n div 65536" using div_mult_mod_eq [of "n div 65536" 256] by (simp add: div_mult2_eq [symmetric])
    moreover have "(n div 65536) * 256 + n div 256 mod 256 = n div 256" using div_mult_mod_eq [of "n div 256" 256] by (simp add: div_mult2_eq [symmetric])
    ultimately show ?thesis using False by (simp add: header_bytes_def of_char_of)
  qed
  then show "header_value (header_bytes hs n) = int n" using assms sint_word_of_nat [of n] by (auto simp: header_value_def)
  show "length (header_bytes hs n) = hs" using assms by (auto simp: header_bytes_def)
qed

text \<open>The bytes received and not yet forwarded, with those of a header already read.\<close>

definition pending_bytes :: "nat \<Rightarrow> node \<Rightarrow> messagepool \<Rightarrow> databuffer \<Rightarrow> nat list \<Rightarrow> string" where
  "pending_bytes hs nd mp db as = (if db_header db = 0 then [] else header_bytes hs (nat (db_header db))) @ db_bytes nd mp db as"

subsection \<open>Sending a package\<close>

lemma isremote_cong: "nd_harbor nd' = nd_harbor nd \<Longrightarrow> skynet_harbor_message_isremote nd' h = skynet_harbor_message_isremote nd h"
  by (simp add: skynet_harbor_message_isremote_def)

lemma node_ok_only_frees:
  assumes "node_ok L nd" "only_frees B nd nd'"
  shows "node_ok L nd'" "inbox nd' = inbox nd" "skynet_context_handle nd' = skynet_context_handle nd" "nd_harbor nd' = nd_harbor nd"
proof -
  obtain F where F: "nd' = nd\<lparr>nd_mem := nd_mem nd |` (- F)\<rparr>" using assms(2) by (auto simp: only_frees_def)
  show "node_ok L nd'" using assms(1) unfolding F node_ok_def by (simp add: restrict_map_def)
  show "inbox nd' = inbox nd" "nd_harbor nd' = nd_harbor nd" "skynet_context_handle nd' = skynet_context_handle nd"
    unfolding F by simp_all
qed

lemma send_source:
  assumes "skynet_context_handle nd ctx = Some src" "src \<noteq> 0" "type AND PTYPE_TAG_ALLOCSESSION = 0" "type AND PTYPE_TAG_DONTCOPY \<noteq> 0"
  shows "skynet_send w nd (Some ctx) 0 d type session (Some p) sz = skynet_send w nd (Some ctx) src d type session (Some p) sz"
  unfolding skynet_send_def using assms by (simp add: filter_args_move)

text \<open>A message that carries the bytes \<open>m\<close> in its own block.\<close>

definition carries :: "node \<Rightarrow> u32 \<Rightarrow> cint \<Rightarrow> cint \<Rightarrow> string \<Rightarrow> skynet_message \<Rightarrow> bool" where
  "carries nd src fd tag m msg \<longleftrightarrow>
     (\<exists>p. msg = \<lparr>msg_source = src, msg_session = fd, msg_data = Some p,
                msg_sz = word_of_nat (length m) OR push_bit MESSAGE_TYPE_SHIFT (scast (tag AND 0xff))\<rparr> \<and>
          nd_mem nd p = Some (Bytes m))"

definition gate_ready :: "ptr set \<Rightarrow> node \<Rightarrow> gate \<Rightarrow> u32 \<Rightarrow> nat \<Rightarrow> bool" where
  "gate_ready L nd g src ci \<longleftrightarrow>
     node_ok L nd \<and> (\<exists>ctx. g_ctx g = Some ctx \<and> skynet_context_handle nd ctx = Some src) \<and> src \<noteq> 0 \<and> g_broker g \<noteq> 0 \<and>
     skynet_harbor_message_isremote nd (g_broker g) = Some False \<and> inbox nd (g_broker g) \<noteq> None \<and>
     (g_client_tag g OR PTYPE_TAG_DONTCOPY) AND PTYPE_TAG_ALLOCSESSION = 0 \<and>
     ci < length (g_conn g) \<and> 0 < sint (c_id (g_conn g ! ci))"


lemma char_of_shift: "char_of (a * 256 + of_char c :: nat) = c"
  by (simp add: char_of_eq_iff take_bit_eq_mod)

lemma base_bound: "x < k \<Longrightarrow> y < b \<Longrightarrow> x * b + y < k * (b :: nat)"
  using mult_le_mono1 [of "Suc x" k b] by simp

lemma base_div: "y < b \<Longrightarrow> (x * b + y) div b = (x :: nat)"
  by simp

lemma header_value_2: "header_value [a, b] = int (of_char a * 256 + of_char b)" "of_char a * 256 + (of_char b :: nat) < 65536"
proof -
  show lt: "of_char a * 256 + (of_char b :: nat) < 65536" using of_char_less [of a] of_char_less [of b] by linarith
  have f: "foldl (\<lambda>n c. n * 256 + of_char c) 0 [a, b] = of_char a * 256 + (of_char b :: nat)" by simp
  show "header_value [a, b] = int (of_char a * 256 + of_char b)"
    unfolding header_value_def f by (rule sint_word_of_nat) (use lt in simp)
qed

lemma header_bytes_value:
  assumes "hs = 2 \<or> hs = 4" "length bs = hs" "0 \<le> header_value bs"
  shows "header_bytes hs (nat (header_value bs)) = bs"
proof (cases "hs = 2")
  case True
  then obtain a b where bs: "bs = [a, b]" using assms(2) by (auto simp: numeral_2_eq_2 length_Suc_conv)
  have v: "nat (header_value bs) = of_char a * 256 + of_char b" unfolding bs header_value_2(1) by (rule nat_int)
  have "(of_char a * 256 + (of_char b :: nat)) div 256 = of_char a" using of_char_less [of b] by simp
  then show ?thesis unfolding v using True by (simp add: header_bytes_def bs char_of_shift)
next
  case False
  then have "length bs = Suc (Suc (Suc (Suc 0)))" using assms by simp
  then obtain a b c d where bs: "bs = [a, b, c, d]" by (auto simp: length_Suc_conv)
  define n where "n = ((of_char a * 256 + of_char b) * 256 + of_char c) * 256 + (of_char d :: nat)"
  note lt = of_char_less [of a] of_char_less [of b] of_char_less [of c] of_char_less [of d]
  have hv: "header_value bs = sint (word_of_nat n :: cint)" by (simp add: header_value_def bs n_def algebra_simps)
  have "of_char a * 256 + (of_char b :: nat) < 65536" by (rule header_value_2(2))
  then have "(of_char a * 256 + of_char b) * 256 + (of_char c :: nat) < 65536 * 256" using lt(3) by (rule base_bound)
  then have "n < 65536 * 256 * 256" unfolding n_def using lt(4) by (rule base_bound)
  then have "n < 2 ^ 32" by simp
  then have "unat (word_of_nat n :: cint) = n" by (simp add: unat_of_nat take_bit_nat_eq_self)
  moreover have "unat (word_of_nat n :: cint) < 2 ^ 31" using assms(3) unfolding hv by (simp only: sint_nonneg_iff)
  ultimately have v: "nat (header_value bs) = n" unfolding hv using sint_word_of_nat [of n] by simp
  have d1: "n div 256 = (of_char a * 256 + of_char b) * 256 + of_char c" unfolding n_def by (rule base_div [OF lt(4)])
  have d2: "n div 65536 = of_char a * 256 + of_char b"
  proof -
    have "n div 65536 = n div 256 div 256" by (simp add: div_mult2_eq [symmetric])
    then show ?thesis unfolding d1 base_div [OF lt(3)] .
  qed
  have d3: "n div 16777216 = of_char a"
  proof -
    have "n div 16777216 = n div 65536 div 256" by (simp add: div_mult2_eq [symmetric])
    then show ?thesis unfolding d2 base_div [OF lt(2)] .
  qed
  have d0: "char_of n = d" unfolding n_def by (rule char_of_shift)
  have "char_of (n div 256) = c" "char_of (n div 65536) = b" unfolding d1 d2 by (rule char_of_shift)+
  then show ?thesis unfolding v using False by (simp add: header_bytes_def d0 d3 bs)
qed

definition hdr_ok :: "nat \<Rightarrow> int \<Rightarrow> bool" where
  "hdr_ok hs h \<longleftrightarrow> 0 \<le> h \<and> (hs = 2 \<and> h < 65536 \<or> hs = 4 \<and> h < 2 ^ 31)"

lemma hdr_ok_value:
  assumes "hs = 2 \<or> hs = 4" "length bs = hs" "0 \<le> header_value bs"
  shows "hdr_ok hs (header_value bs)"
proof (cases "hs = 2")
  case True
  then obtain a b where bs: "bs = [a, b]" using assms(2) by (auto simp: numeral_2_eq_2 length_Suc_conv)
  have "header_value bs < int 65536" unfolding bs header_value_2(1) using header_value_2(2) by (simp only: of_nat_less_iff)
  then show ?thesis using True assms(3) by (simp add: hdr_ok_def)
next
  case False
  have "header_value bs < 2 ^ 31" unfolding header_value_def using sint_less [of "word_of_nat _ :: cint"] by simp
  then show ?thesis using False assms by (simp add: hdr_ok_def)
qed


subsection \<open>One package\<close>

abbreviation conn_db :: "gate \<Rightarrow> nat \<Rightarrow> databuffer" where "conn_db g ci \<equiv> c_buffer (g_conn g ! ci)"

definition conn_put :: "gate \<Rightarrow> nat \<Rightarrow> databuffer \<Rightarrow> messagepool \<Rightarrow> gate" where
  "conn_put g ci db mp = g\<lparr>g_conn := (g_conn g)[ci := (g_conn g ! ci)\<lparr>c_buffer := db\<rparr>], g_mp := mp\<rparr>"

lemma conn_put_fields [simp]:
  "g_ctx (conn_put g ci db mp) = g_ctx g" "g_broker (conn_put g ci db mp) = g_broker g" "g_watchdog (conn_put g ci db mp) = g_watchdog g"
  "g_client_tag (conn_put g ci db mp) = g_client_tag g" "g_header_size (conn_put g ci db mp) = g_header_size g"
  "g_mp (conn_put g ci db mp) = mp" "length (g_conn (conn_put g ci db mp)) = length (g_conn g)"
  "ci < length (g_conn g) \<Longrightarrow> g_conn (conn_put g ci db mp) ! ci = (g_conn g ! ci)\<lparr>c_buffer := db\<rparr>"
  by (simp_all add: conn_put_def)

lemma conn_put_twice [simp]: "conn_put (conn_put g ci db mp) ci db' mp' = conn_put g ci db' mp'"
  by (cases "ci < length (g_conn g)") (simp_all add: conn_put_def list_update_beyond)

lemma conn_put_same: "ci < length (g_conn g) \<Longrightarrow> conn_put g ci (conn_db g ci) (g_mp g) = g"
  by (simp add: conn_put_def)

definition owned_blocks :: "gate \<Rightarrow> nat list \<Rightarrow> ptr set" where
  "owned_blocks g as = msg_block (g_mp g) ` set as"

text \<open>
  The effect on node and gate: the messages \<open>ms\<close> have been added to the inbox of the broker,
  no memory but the blocks of the buffer has changed, and only the buffer of this connection.
\<close>

definition gate_run ::
  "node \<Rightarrow> gate \<Rightarrow> nat list \<Rightarrow> node \<Rightarrow> gate \<Rightarrow> nat list \<Rightarrow> nat \<Rightarrow> u32 \<Rightarrow> nat set \<Rightarrow> string list \<Rightarrow> bool" where
  "gate_run nd g as nd' g' as' ci src U ms \<longleftrightarrow>
     (\<exists>new. inbox nd' = (inbox nd)(g_broker g \<mapsto> the (inbox nd (g_broker g)) @ new) \<and>
        list_all2 (carries nd' src (c_id (g_conn g ! ci)) (g_client_tag g)) ms new \<and>
        (\<forall>x \<in> set new. the (msg_data x) \<notin> owned_blocks g' as')) \<and>
     (\<forall>p. nd_mem nd p \<noteq> None \<and> p \<notin> owned_blocks g as \<longrightarrow> nd_mem nd' p = nd_mem nd p) \<and>
     owned_blocks g' as' \<subseteq> owned_blocks g as \<and> (\<forall>u \<in> U. mp_msg (g_mp g') u = mp_msg (g_mp g) u) \<and>
     (\<exists>db mp. g' = conn_put g ci db mp)"

lemma carries_keep:
  assumes "carries nd src fd tag m x" "the (msg_data x) \<notin> B" "\<forall>p. nd_mem nd p \<noteq> None \<and> p \<notin> B \<longrightarrow> nd_mem nd' p = nd_mem nd p"
  shows "carries nd' src fd tag m x"
  using assms by (auto simp: carries_def)

lemma gate_run_trans:
  assumes "gate_run nd g as nd1 g1 as1 ci src U ms" "gate_run nd1 g1 as1 nd' g' as' ci src U ms'" "ci < length (g_conn g)"
  shows "gate_run nd g as nd' g' as' ci src U (ms @ ms')"
proof -
  let ?b = "g_broker g"
  obtain new db mp where 1: "inbox nd1 = (inbox nd)(?b \<mapsto> the (inbox nd ?b) @ new)"
    "list_all2 (carries nd1 src (c_id (g_conn g ! ci)) (g_client_tag g)) ms new" "\<forall>x \<in> set new. the (msg_data x) \<notin> owned_blocks g1 as1"
    "\<forall>p. nd_mem nd p \<noteq> None \<and> p \<notin> owned_blocks g as \<longrightarrow> nd_mem nd1 p = nd_mem nd p" "owned_blocks g1 as1 \<subseteq> owned_blocks g as"
    "\<forall>u \<in> U. mp_msg (g_mp g1) u = mp_msg (g_mp g) u" "g1 = conn_put g ci db mp"
    using assms(1) by (auto simp: gate_run_def)
  obtain new' db' mp' where 2: "inbox nd' = (inbox nd1)(g_broker g1 \<mapsto> the (inbox nd1 (g_broker g1)) @ new')"
    "list_all2 (carries nd' src (c_id (g_conn g1 ! ci)) (g_client_tag g1)) ms' new'" "\<forall>x \<in> set new'. the (msg_data x) \<notin> owned_blocks g' as'"
    "\<forall>p. nd_mem nd1 p \<noteq> None \<and> p \<notin> owned_blocks g1 as1 \<longrightarrow> nd_mem nd' p = nd_mem nd1 p" "owned_blocks g' as' \<subseteq> owned_blocks g1 as1"
    "\<forall>u \<in> U. mp_msg (g_mp g') u = mp_msg (g_mp g1) u" "g' = conn_put g1 ci db' mp'"
    using assms(2) by (auto simp: gate_run_def)
  have same: "g_broker g1 = ?b" "g_client_tag g1 = g_client_tag g" "c_id (g_conn g1 ! ci) = c_id (g_conn g ! ci)"
    using assms(3) by (simp_all add: 1(7))
  have "inbox nd' = (inbox nd)(?b \<mapsto> the (inbox nd ?b) @ new @ new')" using 2(1) unfolding same 1(1) by simp
  moreover have "list_all2 (carries nd' src (c_id (g_conn g ! ci)) (g_client_tag g)) (ms @ ms') (new @ new')"
  proof (rule list_all2_appendI)
    show "list_all2 (carries nd' src (c_id (g_conn g ! ci)) (g_client_tag g)) ms new"
    proof (rule list.rel_mono_strong [OF 1(2)])
      show "carries nd' src (c_id (g_conn g ! ci)) (g_client_tag g) m x"
        if "x \<in> set new" "carries nd1 src (c_id (g_conn g ! ci)) (g_client_tag g) m x" for m x
        using carries_keep [OF that(2) _ 2(4)] 1(3) that(1) by blast
    qed
    show "list_all2 (carries nd' src (c_id (g_conn g ! ci)) (g_client_tag g)) ms' new'" using 2(2) same by simp
  qed
  moreover have "\<forall>x \<in> set (new @ new'). the (msg_data x) \<notin> owned_blocks g' as'" using 1(3) 2(3,5) by auto
  moreover have "nd_mem nd' p = nd_mem nd p" if "nd_mem nd p \<noteq> None \<and> p \<notin> owned_blocks g as" for p
    using that 1(4,5) 2(4) by (metis subsetD)
  moreover have "\<exists>db mp. g' = conn_put g ci db mp" unfolding 2(7) 1(7) by auto
  moreover have "owned_blocks g' as' \<subseteq> owned_blocks g as" "\<forall>u \<in> U. mp_msg (g_mp g') u = mp_msg (g_mp g) u"
    using 1(5,6) 2(5,6) by (blast, metis)
  ultimately show ?thesis unfolding gate_run_def by blast
qed


lemma db_ok_mem:
  assumes "db_ok nd mp db as fs U" "\<forall>p \<in> msg_block mp ` set as. nd_mem nd' p = nd_mem nd p"
  shows "db_ok nd' mp db as fs U" "db_bytes nd' mp db as = db_bytes nd mp db as"
proof -
  have c: "dm_data nd' mp a = dm_data nd mp a" "msg_ok nd' mp a = msg_ok nd mp a" if "a \<in> set as" for a
    using msg_cong [of mp a mp nd' nd] assms(2) that by auto
  then show b: "db_bytes nd' mp db as = db_bytes nd mp db as" unfolding db_bytes_def by (simp cong: map_cong)
  show "db_ok nd' mp db as fs U" using assms(1) c unfolding db_ok_def b db_data_def by simp
qed

lemma tag_bits:
  "((tag :: cint) OR PTYPE_TAG_DONTCOPY) AND PTYPE_TAG_DONTCOPY \<noteq> 0" "(tag OR PTYPE_TAG_DONTCOPY) AND 0xff = tag AND 0xff"
proof -
  have "bit ((tag OR PTYPE_TAG_DONTCOPY) AND PTYPE_TAG_DONTCOPY) 16"
    by (simp add: PTYPE_TAG_DONTCOPY_def bit_simps)
  then show "(tag OR PTYPE_TAG_DONTCOPY) AND PTYPE_TAG_DONTCOPY \<noteq> 0" by auto
  show "(tag OR PTYPE_TAG_DONTCOPY) AND 0xff = tag AND 0xff" by (simp add: PTYPE_TAG_DONTCOPY_def bit.conj_disj_distrib2)
qed

lemma size_in_mask: "n < 2 ^ 56 \<Longrightarrow> (word_of_nat n :: size_t) AND MESSAGE_TYPE_MASK = word_of_nat n"
  unfolding mask_sz by (metis of_nat_take_bit take_bit_nat_eq_self)

lemma after_read_ready:
  assumes "gate_ready L nd g src ci" "only_frees B nd nd'"
  shows "gate_ready L nd' (conn_put g ci db mp) src ci"
proof -
  have ok: "node_ok L nd" using assms(1) by (simp add: gate_ready_def)
  note f = node_ok_only_frees [OF ok assms(2)]
  show ?thesis using assms(1) f(1) isremote_cong [OF f(4)] unfolding gate_ready_def f(2,3) by simp
qed

lemma after_read_run:
  assumes "gate_ready L nd g src ci" "db_after nd (g_mp g) as U nd' mp' db' as' fs'"
  shows "gate_run nd g as nd' (conn_put g ci db' mp') as' ci src U []"
proof -
  have a: "only_frees (msg_block (g_mp g) ` set as) nd nd'" "msg_block mp' ` set as' \<subseteq> msg_block (g_mp g) ` set as"
    "\<forall>u \<in> U. mp_msg mp' u = mp_msg (g_mp g) u" using assms(2) by (simp_all add: db_after_def)
  obtain ms where ms: "inbox nd (g_broker g) = Some ms" using assms(1) by (auto simp: gate_ready_def)
  have "inbox nd' = inbox nd" using node_ok_only_frees(2) [OF _ a(1)] assms(1) by (auto simp: gate_ready_def)
  then have "inbox nd' = (inbox nd)(g_broker g \<mapsto> the (inbox nd (g_broker g)) @ [])" using ms by (simp add: fun_upd_idem)
  then show ?thesis unfolding gate_run_def owned_blocks_def using a(2,3) only_frees_mem [OF a(1)] by auto
qed

text \<open>Forwarding one package of \<open>n\<close> bytes to the broker.\<close>

lemma forward_broker:
  assumes r: "gate_ready L nd g src ci" and ok: "db_ok nd (g_mp g) (conn_db g ci) as fs U"
    and n: "0 < n" "n \<le> length (db_bytes nd (g_mp g) (conn_db g ci) as)" "n < 2 ^ 31"
  shows "\<exists>nd' db' mp' L' as' fs'. forward w nd g ci (int n) = Some (nd', conn_put g ci db' mp') \<and>
    gate_ready L' nd' (conn_put g ci db' mp') src ci \<and> db_ok nd' mp' db' as' fs' U \<and>
    db_bytes nd' mp' db' as' = drop n (db_bytes nd (g_mp g) (conn_db g ci) as) \<and> db_header db' = db_header (conn_db g ci) \<and>
    gate_run nd g as nd' (conn_put g ci db' mp') as' ci src U [take n (db_bytes nd (g_mp g) (conn_db g ci) as)]"
proof -
  let ?bs = "db_bytes nd (g_mp g) (conn_db g ci) as" and ?b = "g_broker g" and ?c = "g_conn g ! ci" and ?tag = "g_client_tag g OR PTYPE_TAG_DONTCOPY"
  obtain ctx ms where R: "node_ok L nd" "g_ctx g = Some ctx" "skynet_context_handle nd ctx = Some src" "src \<noteq> 0" "?b \<noteq> 0"
    "skynet_harbor_message_isremote nd ?b = Some False" "inbox nd ?b = Some ms" "?tag AND PTYPE_TAG_ALLOCSESSION = 0"
    "ci < length (g_conn g)" "0 < sint (c_id ?c)" using r by (auto simp: gate_ready_def)
  obtain nd1 db' mp' as' fs' where rd: "databuffer_read nd (conn_db g ci) (g_mp g) (int n) = Some (take n ?bs, nd1, db', mp')"
    "db_ok nd1 mp' db' as' fs' U" "db_after nd (g_mp g) as U nd1 mp' db' as' fs'" "db_bytes nd1 mp' db' as' = drop n ?bs"
    "db_header db' = db_header (conn_db g ci)" using databuffer_read_ok [OF ok n(1,2)] by metis
  have fr: "only_frees (msg_block (g_mp g) ` set as) nd nd1" "msg_block mp' ` set as' \<subseteq> msg_block (g_mp g) ` set as"
    "\<forall>u \<in> U. mp_msg mp' u = mp_msg (g_mp g) u" "db_data nd1 mp' as'" using rd(3) by (simp_all add: db_after_def)
  note n1 = node_ok_only_frees [OF R(1) fr(1)]
  obtain p nd2 where m: "skynet_malloc nd1 (Bytes (take n ?bs)) = (p, nd2)" by (cases "skynet_malloc nd1 (Bytes (take n ?bs))")
  note m2 = malloc_ok [OF n1(1) m]
  have p: "p \<notin> msg_block mp' ` set as'"
  proof
    assume "p \<in> msg_block mp' ` set as'"
    then obtain a where "a \<in> set as'" "p = msg_block mp' a" by blast
    then have "nd_mem nd1 p \<noteq> None" using fr(4) by (auto simp: db_data_def msg_ok_def msg_block_def)
    then show False using m2(3) by simp
  qed
  have h2: "skynet_context_handle nd2 = skynet_context_handle nd" "nd_harbor nd2 = nd_harbor nd" using n1(3,4) by (simp_all add: m2(5))
  have fl: "filter_args nd2 (Some ctx) ?tag (c_id ?c) (Some p) (word_of_nat n) =
     Some ((c_id ?c, Some p, word_of_nat n OR push_bit MESSAGE_TYPE_SHIFT (scast (?tag AND 0xff))), nd2)"
    by (rule filter_args_move [OF R(8)]) (use tag_bits(1) in blast)
  have mask: "(word_of_nat n :: size_t) AND MESSAGE_TYPE_MASK = word_of_nat n" using n(3) by (intro size_in_mask) simp
  have rem2: "skynet_harbor_message_isremote nd2 ?b = Some False" using R(6) isremote_cong [OF h2(2)] by simp
  let ?msg = "\<lparr>msg_source = src, msg_session = c_id ?c, msg_data = Some p, msg_sz = word_of_nat n OR push_bit MESSAGE_TYPE_SHIFT (scast (?tag AND 0xff))\<rparr>"
  have box2: "inbox nd2 = inbox nd" using m2(2) n1(2) by simp
  obtain nd' L' where s: "skynet_send w nd2 (Some ctx) src ?b ?tag (c_id ?c) (Some p) (word_of_nat n) = Some (c_id ?c, nd')"
    "grows L nd2 L' nd'" "nd_mem nd' = nd_mem nd2" "inbox nd' = (inbox nd)(?b \<mapsto> ms @ [?msg])"
    using send_local_inbox [OF m2(1) _ mask R(4,5) fl rem2, of w] R(7) box2 m2(5) by auto
  have src0: "skynet_send w nd2 (Some ctx) 0 ?b ?tag (c_id ?c) (Some p) (word_of_nat n) = Some (c_id ?c, nd')"
    using send_source [OF _ R(4,8) tag_bits(1)] s(1) R(3) h2(1) by simp
  have fwd: "forward w nd g ci (int n) = Some (nd', conn_put g ci db' mp')"
    using R(2,5,10) rd(1) m src0 by (simp add: forward_def conn_put_def)
  have h': "skynet_context_handle nd' = skynet_context_handle nd" "nd_harbor nd' = nd_harbor nd"
    using s(2) h2 unfolding grows_def by auto
  have ready: "gate_ready L' nd' (conn_put g ci db' mp') src ci"
    unfolding gate_ready_def using R h'(1) grows_inbox_ok [OF s(2)] isremote_cong [OF h'(2)] by (simp add: s(4))
  have mem1: "nd_mem nd' q = nd_mem nd1 q" if "q \<noteq> p" for q using that by (simp add: s(3) m2(5))
  have mem': "nd_mem nd' p = Some (Bytes (take n ?bs))" by (simp add: s(3) m2(5))
  have dbok: "db_ok nd' mp' db' as' fs' U" "db_bytes nd' mp' db' as' = drop n ?bs"
  proof -
    have "\<forall>q \<in> msg_block mp' ` set as'. nd_mem nd' q = nd_mem nd1 q" using mem1 p by metis
    from db_ok_mem [OF rd(2) this] rd(4) show "db_ok nd' mp' db' as' fs' U" "db_bytes nd' mp' db' as' = drop n ?bs" by simp_all
  qed
  have "carries nd' src (c_id ?c) (g_client_tag g) (take n ?bs) ?msg" using n(2) mem' by (simp add: carries_def tag_bits(2) min_absorb2)
  moreover have "nd_mem nd' q = nd_mem nd q" if "nd_mem nd q \<noteq> None" "q \<notin> msg_block (g_mp g) ` set as" for q
  proof -
    have "nd_mem nd1 q = nd_mem nd q" by (rule only_frees_mem [OF fr(1) that(2)])
    moreover have "q \<noteq> p" using calculation that(1) m2(3) by auto
    ultimately show ?thesis using mem1 by simp
  qed
  moreover have "\<exists>db mp. conn_put g ci db' mp' = conn_put g ci db mp" by blast
  ultimately have "gate_run nd g as nd' (conn_put g ci db' mp') as' ci src U [take n ?bs]"
    unfolding gate_run_def owned_blocks_def using s(4) R(7) fr(2,3) p by (auto intro!: exI [of _ "[?msg]"])
  then show ?thesis using fwd ready dbok rd(5) by blast
qed


subsection \<open>The loop\<close>

lemma readheader_pending:
  assumes ok: "db_ok nd mp db as fs U" and hs: "hs = 2 \<or> hs = 4" and h: "hdr_ok hs (db_header db)"
  defines "P \<equiv> pending_bytes hs nd mp db as"
  shows "length P < hs \<Longrightarrow> databuffer_readheader nd db mp hs = Some (-1, nd, db, mp) \<and> db_header db = 0 \<and> db_bytes nd mp db as = P"
    and "hs \<le> length P \<Longrightarrow> v = header_value (take hs P) \<Longrightarrow> 0 \<le> v \<Longrightarrow>
      \<exists>nd' db' mp' as' fs'. databuffer_readheader nd db mp hs = Some (if int (length P) - int hs < v then -1 else v, nd', db', mp') \<and>
        db_ok nd' mp' db' as' fs' U \<and> db_after nd mp as U nd' mp' db' as' fs' \<and> db_bytes nd' mp' db' as' = drop hs P \<and> db_header db' = v"
proof -
  have sz: "db_size db = int (length (db_bytes nd mp db as))" using ok by (simp add: db_ok_def)
  have rt: "header_value (header_bytes hs (nat (db_header db))) = db_header db" "length (header_bytes hs (nat (db_header db))) = hs"
    using header_roundtrip [of hs "nat (db_header db)"] h by (auto simp: hdr_ok_def)
  show "databuffer_readheader nd db mp hs = Some (-1, nd, db, mp) \<and> db_header db = 0 \<and> db_bytes nd mp db as = P" if "length P < hs"
  proof -
    have "db_header db = 0" using that rt(2) by (auto simp: P_def pending_bytes_def split: if_splits)
    then show ?thesis using readheader_waits [OF ok, of hs] that by (simp add: P_def pending_bytes_def)
  qed
  assume P: "hs \<le> length P" "v = header_value (take hs P)" "0 \<le> v"
  show "\<exists>nd' db' mp' as' fs'. databuffer_readheader nd db mp hs = Some (if int (length P) - int hs < v then -1 else v, nd', db', mp') \<and>
        db_ok nd' mp' db' as' fs' U \<and> db_after nd mp as U nd' mp' db' as' fs' \<and> db_bytes nd' mp' db' as' = drop hs P \<and> db_header db' = v"
  proof (cases "db_header db = 0")
    case True
    then have "P = db_bytes nd mp db as" by (simp add: P_def pending_bytes_def)
    then show ?thesis using readheader_new [OF ok True, of hs] hs P sz by auto
  next
    case False
    then have "P = header_bytes hs (nat (db_header db)) @ db_bytes nd mp db as" by (simp add: P_def pending_bytes_def)
    then have "v = db_header db" "drop hs P = db_bytes nd mp db as" "int (length P) - int hs = db_size db" using P(2) rt sz by simp_all
    moreover have "db_after nd mp as U nd mp db as fs" using ok by (simp add: db_after_def db_ok_def only_frees_refl)
    ultimately show ?thesis using readheader_known [OF False, of nd mp hs] ok
      by (intro exI [of _ nd] exI [of _ db] exI [of _ mp] exI [of _ as] exI [of _ fs]) simp
  qed
qed

text \<open>The loop with its state as node, buffer and pool.\<close>

lemma package_loop_put:
  assumes "ci < length (g_conn g)" "databuffer_readheader (st_nd st) (conn_db g ci) (g_mp g) (g_header_size g) = Some (sz, nd, db, mp)"
  shows "package_loop w st g ci sid =
     (if sz < 0 then Some (st\<lparr>st_nd := nd\<rparr>, conn_put g ci db mp)
      else if sz > 0 then
        (if sz \<ge> 0x1000000 then too_long w (st\<lparr>st_nd := nd\<rparr>) (conn_put g ci db mp) ci sid
         else Option.bind (forward w nd (conn_put g ci db mp) ci sz) (\<lambda>(nd, g).
           package_loop w (st\<lparr>st_nd := nd\<rparr>) (conn_update g ci (\<lambda>c. c\<lparr>c_buffer := databuffer_reset (c_buffer c)\<rparr>)) ci sid))
      else package_loop w (st\<lparr>st_nd := nd\<rparr>) (conn_put g ci db mp) ci sid)"
proof -
  have "(conn_update g ci (\<lambda>c. c\<lparr>c_buffer := db\<rparr>))\<lparr>g_mp := mp\<rparr> = conn_put g ci db mp" by (simp add: conn_update_def conn_put_def)
  then show ?thesis using assms(2) by (subst package_loop.simps) (simp cong: if_cong)
qed

lemma reset_conn:
  assumes "ci < length (g_conn g)"
  shows "conn_update (conn_put g ci db mp) ci (\<lambda>c. c\<lparr>c_buffer := databuffer_reset (c_buffer c)\<rparr>) = conn_put g ci (databuffer_reset db) mp"
  using assms by (simp add: conn_update_def conn_put_def)

lemma reset_facts:
  "db_ok nd mp (databuffer_reset db) as fs U = db_ok nd mp db as fs U" "db_header (databuffer_reset db) = 0"
  "pending_bytes hs nd mp (databuffer_reset db) as = db_bytes nd mp db as"
  by (simp_all add: databuffer_reset_def db_ok_def pending_bytes_def)

lemma gate_ready_put:
  "ci < length (g_conn g) \<Longrightarrow> gate_ready L nd (conn_put g ci db mp) src ci = gate_ready L nd g src ci"
  by (simp add: gate_ready_def)

lemma gate_run_reset:
  assumes "gate_run nd g as nd' (conn_put g ci db mp) as' ci src U ms"
  shows "gate_run nd g as nd' (conn_put g ci db' mp) as' ci src U ms"
  using assms unfolding gate_run_def owned_blocks_def by auto


lemma package_loop_forwards:
  assumes "gate_ready L (st_nd st) g src ci" "db_ok (st_nd st) (g_mp g) (conn_db g ci) as fs U" "hs = 2 \<or> hs = 4"
    and "g_header_size g = hs" "hdr_ok hs (db_header (conn_db g ci))"
    and "pending_bytes hs (st_nd st) (g_mp g) (conn_db g ci) as = concat (map (pkg hs) ms) @ rest"
    and "\<forall>m \<in> set ms. pkg_ok hs m" "incomplete hs rest"
  shows "\<exists>nd' db' mp' L' as' fs'. package_loop w st g ci sid = Some (st\<lparr>st_nd := nd'\<rparr>, conn_put g ci db' mp') \<and>
    gate_ready L' nd' (conn_put g ci db' mp') src ci \<and> db_ok nd' mp' db' as' fs' U \<and> hdr_ok hs (db_header db') \<and>
    pending_bytes hs nd' mp' db' as' = rest \<and>
    gate_run (st_nd st) g as nd' (conn_put g ci db' mp') as' ci src U (filter (\<lambda>m. m \<noteq> []) ms)"
  using assms
proof (induction ms arbitrary: st g as fs L)
  case Nil
  have ci: "ci < length (g_conn g)" using Nil.prems(1) by (simp add: gate_ready_def)
  let ?P = "pending_bytes hs (st_nd st) (g_mp g) (conn_db g ci) as"
  have P: "?P = rest" using Nil.prems(6) by simp
  note rh = readheader_pending [OF Nil.prems(2,3,5)]
  show ?case
  proof (cases "length rest < hs")
    case True
    then have r: "databuffer_readheader (st_nd st) (conn_db g ci) (g_mp g) hs = Some (-1, st_nd st, conn_db g ci, g_mp g)"
      using rh(1) P by simp
    have "db_after (st_nd st) (g_mp g) as U (st_nd st) (g_mp g) (conn_db g ci) as fs"
      using Nil.prems(2) by (simp add: db_after_def db_ok_def only_frees_refl)
    from after_read_run [OF Nil.prems(1) this] have "gate_run (st_nd st) g as (st_nd st) (conn_put g ci (conn_db g ci) (g_mp g)) as ci src U (filter (\<lambda>m. m \<noteq> []) [])"
      by simp
    moreover have "package_loop w st g ci sid = Some (st\<lparr>st_nd := st_nd st\<rparr>, conn_put g ci (conn_db g ci) (g_mp g))"
      using package_loop_put [OF ci, of st "-1"] r Nil.prems(4) by simp
    moreover have "gate_ready L (st_nd st) (conn_put g ci (conn_db g ci) (g_mp g)) src ci" using Nil.prems(1) by (simp add: conn_put_same [OF ci])
    ultimately show ?thesis using Nil.prems(2,5) P by blast
  next
    case False
    let ?v = "header_value (take hs rest)"
    have v: "0 < ?v" "int (length rest) - int hs < ?v" using False Nil.prems(8) by (auto simp: incomplete_def Let_def)
    obtain nd' db' mp' as' fs' where r: "databuffer_readheader (st_nd st) (conn_db g ci) (g_mp g) hs = Some (-1, nd', db', mp')"
      "db_ok nd' mp' db' as' fs' U" "db_after (st_nd st) (g_mp g) as U nd' mp' db' as' fs'" "db_bytes nd' mp' db' as' = drop hs rest" "db_header db' = ?v"
      using rh(2) [OF _ refl] v False unfolding P by auto
    have len: "length (take hs rest) = hs" using False by simp
    have "header_bytes hs (nat ?v) = take hs rest" "hdr_ok hs ?v"
      using header_bytes_value [OF Nil.prems(3) len] hdr_ok_value [OF Nil.prems(3) len] v(1) by simp_all
    then have "pending_bytes hs nd' mp' db' as' = rest" "hdr_ok hs (db_header db')" using r(4,5) v(1) by (simp_all add: pending_bytes_def)
    moreover have "package_loop w st g ci sid = Some (st\<lparr>st_nd := nd'\<rparr>, conn_put g ci db' mp')"
      using package_loop_put [OF ci, of st "-1"] r(1) Nil.prems(4) by simp
    moreover have "only_frees (msg_block (g_mp g) ` set as) (st_nd st) nd'" using r(3) by (simp add: db_after_def)
    ultimately show ?thesis using after_read_run [OF Nil.prems(1) r(3)] after_read_ready [OF Nil.prems(1)] r(2)
      by (metis filter.simps(1))
  qed
next
  case (Cons m ms)
  have ci: "ci < length (g_conn g)" using Cons.prems(1) by (simp add: gate_ready_def)
  let ?P = "pending_bytes hs (st_nd st) (g_mp g) (conn_db g ci) as" and ?X = "concat (map (pkg hs) ms) @ rest" and ?n = "length m"
  have m: "pkg_ok hs m" using Cons.prems(7) by simp
  have hb: "header_value (header_bytes hs ?n) = int ?n" "length (header_bytes hs ?n) = hs"
    using header_roundtrip [of hs ?n] m Cons.prems(3) by (auto simp: pkg_ok_def split: if_splits)
  have P: "?P = header_bytes hs ?n @ m @ ?X" using Cons.prems(6) by (simp add: pkg_def [of hs m])
  have big: "int ?n < 0x1000000" using m by (auto simp: pkg_ok_def split: if_splits)
  obtain nd1 db1 mp1 as1 fs1 where r: "databuffer_readheader (st_nd st) (conn_db g ci) (g_mp g) hs = Some (int ?n, nd1, db1, mp1)"
    "db_ok nd1 mp1 db1 as1 fs1 U" "db_after (st_nd st) (g_mp g) as U nd1 mp1 db1 as1 fs1" "db_bytes nd1 mp1 db1 as1 = m @ ?X" "db_header db1 = int ?n"
    using readheader_pending(2) [OF Cons.prems(2,3,5) _ refl] hb unfolding P by auto
  let ?g1 = "conn_put g ci db1 mp1" and ?st1 = "st\<lparr>st_nd := nd1\<rparr>"
  have run1: "gate_run (st_nd st) g as nd1 ?g1 as1 ci src U []" by (rule after_read_run [OF Cons.prems(1) r(3)])
  have ready1: "gate_ready L nd1 ?g1 src ci" using r(3) after_read_ready [OF Cons.prems(1)] unfolding db_after_def by blast
  have ci1: "ci < length (g_conn ?g1)" using ci by simp
  have rest_ok: "\<forall>m \<in> set ms. pkg_ok hs m" using Cons.prems(7) by simp
  note loop = package_loop_put [OF ci r(1) [folded Cons.prems(4)], of w sid]
  show ?case
  proof (cases "m = []")
    case True
    have h1: "hdr_ok hs (db_header (conn_db ?g1 ci))" "pending_bytes hs (st_nd ?st1) (g_mp ?g1) (conn_db ?g1 ci) as1 = ?X"
      "db_ok (st_nd ?st1) (g_mp ?g1) (conn_db ?g1 ci) as1 fs1 U"
      using r(2,4,5) True ci Cons.prems(3) by (simp_all add: hdr_ok_def pending_bytes_def)
    obtain nd' db' mp' L' as' fs' where s: "package_loop w ?st1 ?g1 ci sid = Some (?st1\<lparr>st_nd := nd'\<rparr>, conn_put ?g1 ci db' mp')"
      "gate_ready L' nd' (conn_put ?g1 ci db' mp') src ci" "db_ok nd' mp' db' as' fs' U" "hdr_ok hs (db_header db')" "pending_bytes hs nd' mp' db' as' = rest"
      "gate_run nd1 ?g1 as1 nd' (conn_put ?g1 ci db' mp') as' ci src U (filter (\<lambda>m. m \<noteq> []) ms)"
      using Cons.IH [of L ?st1 ?g1 as1 fs1] ready1 h1 Cons.prems(3,4,8) rest_ok by auto
    have "package_loop w st g ci sid = Some (st\<lparr>st_nd := nd'\<rparr>, conn_put g ci db' mp')" using loop True s(1) by simp
    moreover have "gate_run (st_nd st) g as nd' (conn_put g ci db' mp') as' ci src U (filter (\<lambda>m. m \<noteq> []) (m # ms))"
      using gate_run_trans [OF run1 s(6) ci] True by simp
    moreover have "gate_ready L' nd' (conn_put g ci db' mp') src ci" using s(2) by simp
    ultimately show ?thesis using s(3-5) by blast
  next
    case False
    have fb: "0 < ?n" "?n \<le> length (db_bytes nd1 (g_mp ?g1) (conn_db ?g1 ci) as1)" "?n < 2 ^ 31" "db_ok nd1 (g_mp ?g1) (conn_db ?g1 ci) as1 fs1 U"
      using False r(2,4) big ci by simp_all
    have by1: "db_bytes nd1 (g_mp ?g1) (conn_db ?g1 ci) as1 = m @ ?X" using r(4) ci by simp
    obtain nd2 db2 mp2 L2 as2 fs2 where f: "forward w nd1 ?g1 ci (int ?n) = Some (nd2, conn_put ?g1 ci db2 mp2)"
      "gate_ready L2 nd2 (conn_put ?g1 ci db2 mp2) src ci" "db_ok nd2 mp2 db2 as2 fs2 U" "db_bytes nd2 mp2 db2 as2 = ?X"
      "gate_run nd1 ?g1 as1 nd2 (conn_put ?g1 ci db2 mp2) as2 ci src U [m]"
      using forward_broker [OF ready1 fb(4,1,2,3), of w] unfolding by1 by auto
    let ?db3 = "databuffer_reset db2" and ?st2 = "st\<lparr>st_nd := nd2\<rparr>"
    let ?g3 = "conn_put ?g1 ci ?db3 mp2"
    have run3: "gate_run (st_nd st) g as nd2 ?g3 as2 ci src U [m]" using gate_run_trans [OF run1 gate_run_reset [OF f(5)] ci] by simp
    have ready3: "gate_ready L2 nd2 ?g3 src ci" using f(2) ci by (simp add: gate_ready_put)
    have h3: "hdr_ok hs (db_header (conn_db ?g3 ci))" "pending_bytes hs (st_nd ?st2) (g_mp ?g3) (conn_db ?g3 ci) as2 = ?X"
      "db_ok (st_nd ?st2) (g_mp ?g3) (conn_db ?g3 ci) as2 fs2 U"
      using f(3,4) ci Cons.prems(3) by (simp_all add: reset_facts hdr_ok_def)
    obtain nd' db' mp' L' as' fs' where s: "package_loop w ?st2 ?g3 ci sid = Some (?st2\<lparr>st_nd := nd'\<rparr>, conn_put ?g3 ci db' mp')"
      "gate_ready L' nd' (conn_put ?g3 ci db' mp') src ci" "db_ok nd' mp' db' as' fs' U" "hdr_ok hs (db_header db')" "pending_bytes hs nd' mp' db' as' = rest"
      "gate_run nd2 ?g3 as2 nd' (conn_put ?g3 ci db' mp') as' ci src U (filter (\<lambda>m. m \<noteq> []) ms)"
      using Cons.IH [of L2 ?st2 ?g3 as2 fs2] ready3 h3 Cons.prems(3,4,8) rest_ok by auto
    have "package_loop w st g ci sid = package_loop w ?st2 ?g3 ci sid" using loop False big f(1) reset_conn [OF ci1, of db2 mp2] by simp
    then have "package_loop w st g ci sid = Some (st\<lparr>st_nd := nd'\<rparr>, conn_put g ci db' mp')" using s(1) by simp
    moreover have "gate_run (st_nd st) g as nd' (conn_put g ci db' mp') as' ci src U (filter (\<lambda>m. m \<noteq> []) (m # ms))"
      using gate_run_trans [OF run3 s(6) ci] False by simp
    moreover have "gate_ready L' nd' (conn_put g ci db' mp') src ci" using s(2) by simp
    ultimately show ?thesis using s(3-5) by blast
  qed
qed


subsection \<open>Properties\<close>

text \<open>
  C21. The gate with a broker. Whatever was received before and wherever the data is cut: when
  a block of data arrives, \<open>dispatch_message\<close> returns, every package that is complete now is
  sent to the broker in order and exactly once, each in a block of its own with exactly its
  bytes, packages of length 0 are skipped, and the bytes of the unfinished package are kept
  for the next block. The buffers of the other connections are untouched, and the gate is
  ready for the next block.
\<close>

theorem gate_forwards_packages:
  assumes "gate_ready L (st_nd st) g src ci" and "db_ok (st_nd st) (g_mp g) (c_buffer (g_conn g ! ci)) as fs U"
    and "g_header_size g = hs" and "hs = 2 \<or> hs = 4" and "hdr_ok hs (db_header (c_buffer (g_conn g ! ci)))"
    and "nd_mem (st_nd st) p = Some (Bytes bs)" and "0 < n" and "n \<le> length bs" and "p \<notin> owned_blocks g as"
    and "pending_bytes hs (st_nd st) (g_mp g) (c_buffer (g_conn g ! ci)) as @ take n bs = concat (map (pkg hs) ms) @ rest"
    and "\<forall>m \<in> set ms. pkg_ok hs m" and "incomplete hs rest"
  shows "\<exists>nd' g' L' as' fs' new. gate_dispatch_message w st g ci sid (Some p) (int n) = Some (st\<lparr>st_nd := nd'\<rparr>, g') \<and>
    inbox nd' = (inbox (st_nd st))(g_broker g \<mapsto> the (inbox (st_nd st) (g_broker g)) @ new) \<and>
    list_all2 (carries nd' src (c_id (g_conn g ! ci)) (g_client_tag g)) (filter (\<lambda>m. m \<noteq> []) ms) new \<and>
    pending_bytes hs nd' (g_mp g') (c_buffer (g_conn g' ! ci)) as' = rest \<and>
    db_ok nd' (g_mp g') (c_buffer (g_conn g' ! ci)) as' fs' U \<and> gate_ready L' nd' g' src ci \<and>
    hdr_ok hs (db_header (c_buffer (g_conn g' ! ci))) \<and> (\<forall>u \<in> U. mp_msg (g_mp g') u = mp_msg (g_mp g) u)"
proof -
  let ?nd = "st_nd st"
  have ci: "ci < length (g_conn g)" using assms(1) by (simp add: gate_ready_def)
  obtain db1 mp1 as1 fs1 where ps: "databuffer_push (conn_db g ci) (g_mp g) (Some p) (int n) = Some (db1, mp1)" "db_ok ?nd mp1 db1 as1 fs1 U"
    "db_bytes ?nd mp1 db1 as1 = db_bytes ?nd (g_mp g) (conn_db g ci) as @ take n bs" "\<forall>u \<in> U. mp_msg mp1 u = mp_msg (g_mp g) u"
    "db_header db1 = db_header (conn_db g ci)"
    using databuffer_push_ok [OF assms(2,6,7,8)] assms(9) unfolding owned_blocks_def by metis
  let ?g1 = "conn_put g ci db1 mp1"
  have g1: "gate_dispatch_message w st g ci sid (Some p) (int n) = package_loop w st ?g1 ci sid"
    by (simp add: gate_dispatch_message_def ps(1) conn_update_def conn_put_def)
  have pre: "gate_ready L ?nd ?g1 src ci" "db_ok ?nd (g_mp ?g1) (conn_db ?g1 ci) as1 fs1 U" "g_header_size ?g1 = hs" "hdr_ok hs (db_header (conn_db ?g1 ci))"
    "pending_bytes hs ?nd (g_mp ?g1) (conn_db ?g1 ci) as1 = concat (map (pkg hs) ms) @ rest"
  proof -
    have "pending_bytes hs ?nd mp1 db1 as1 = pending_bytes hs ?nd (g_mp g) (conn_db g ci) as @ take n bs" by (simp add: pending_bytes_def ps(3,5))
    then show "pending_bytes hs ?nd (g_mp ?g1) (conn_db ?g1 ci) as1 = concat (map (pkg hs) ms) @ rest" using assms(10) ci by simp
  qed (use assms(1,3,5) ps ci in \<open>simp_all add: gate_ready_put\<close>)
  obtain nd' db' mp' L' as' fs' where s: "package_loop w st ?g1 ci sid = Some (st\<lparr>st_nd := nd'\<rparr>, conn_put ?g1 ci db' mp')"
    "gate_ready L' nd' (conn_put ?g1 ci db' mp') src ci" "db_ok nd' mp' db' as' fs' U" "hdr_ok hs (db_header db')" "pending_bytes hs nd' mp' db' as' = rest"
    "gate_run ?nd ?g1 as1 nd' (conn_put ?g1 ci db' mp') as' ci src U (filter (\<lambda>m. m \<noteq> []) ms)"
    using package_loop_forwards [OF pre(1,2) assms(4) pre(3,4,5) assms(11,12), of w sid] by metis
  obtain new where new: "inbox nd' = (inbox ?nd)(g_broker g \<mapsto> the (inbox ?nd (g_broker g)) @ new)"
    "list_all2 (carries nd' src (c_id (g_conn g ! ci)) (g_client_tag g)) (filter (\<lambda>m. m \<noteq> []) ms) new"
    "\<forall>u \<in> U. mp_msg mp' u = mp_msg mp1 u"
    using s(6) ci by (auto simp: gate_run_def)
  have c2: "g_mp (conn_put ?g1 ci db' mp') = mp'" "conn_db (conn_put ?g1 ci db' mp') ci = db'" using ci by simp_all
  have "\<forall>u \<in> U. mp_msg mp' u = mp_msg (g_mp g) u" using new(3) ps(4) by simp
  then show ?thesis using g1 s(1-5) new(1,2) c2 by metis
qed

lemma demo_chars: "char_of (0 :: nat) = CHR 0x00" "char_of (Suc 0) = CHR 0x01"
  by (simp_all add: char_of_eq_iff take_bit_eq_mod)

definition demo_data :: "string \<Rightarrow> demo_kernel sstate" where
  "demo_data bs = demo_sstate\<lparr>st_nd := demo_node\<lparr>nd_mem := [30 \<mapsto> Bytes bs]\<rparr>\<rparr>"

definition demo_gate :: "u32 \<Rightarrow> gate" where
  "demo_gate broker = gate_create\<lparr>g_ctx := Some 10, g_broker := broker, g_client_tag := PTYPE_CLIENT, g_header_size := 2,
     g_conn := [empty_connection\<lparr>c_id := 7\<rparr>], g_mp := demo_pool\<rparr>"

lemma demo_gate_ready: "gate_ready {} (st_nd (demo_data bs)) (demo_gate 0x01000001) 0x01000001 0"
proof -
  let ?nd = "demo_node\<lparr>nd_mem := [30 \<mapsto> Bytes bs]\<rparr>"
  have "nd_brk demo_node = 31" by (simp add: demo_node_def)
  then have "node_ok {} ?nd" using demo_node_ok unfolding node_ok_def by simp
  moreover have "skynet_harbor_message_isremote ?nd 0x01000001 = Some False" using demo_local isremote_cong [of ?nd demo_node] by simp
  moreover have "(PTYPE_CLIENT OR PTYPE_TAG_DONTCOPY) AND PTYPE_TAG_ALLOCSESSION = 0"
    by (simp add: PTYPE_CLIENT_def PTYPE_TAG_DONTCOPY_def PTYPE_TAG_ALLOCSESSION_def)
  ultimately show ?thesis using demo_inbox demo_hof
    by (simp add: gate_ready_def demo_data_def demo_sstate_def demo_gate_def empty_connection_def)
qed

lemma demo_gate_db: "db_ok nd (g_mp (demo_gate b)) (c_buffer (g_conn (demo_gate b) ! 0)) [] [] {}"
  "db_header (c_buffer (g_conn (demo_gate b) ! 0)) = 0" "db_bytes nd (g_mp (demo_gate b)) (c_buffer (g_conn (demo_gate b) ! 0)) [] = []"
  "g_header_size (demo_gate b) = 2"
  using demo_pool_ok by (simp_all add: demo_gate_def empty_connection_def db_bytes_def) (simp add: empty_databuffer_def)

theorem gate_forwards_packages_witness:
  "\<forall>w. \<exists>nd' g' x. gate_dispatch_message w (demo_data [CHR 0x00, CHR 0x01, CHR ''a'', CHR 0x00]) (demo_gate 0x01000001) 0 7 (Some 30) (int 4)
     = Some (demo_data [CHR 0x00, CHR 0x01, CHR ''a'', CHR 0x00]\<lparr>st_nd := nd'\<rparr>, g') \<and>
     inbox nd' 0x01000001 = Some [x] \<and> carries nd' 0x01000001 7 PTYPE_CLIENT ''a'' x"
proof
  fix w
  let ?bs = "[CHR 0x00, CHR 0x01, CHR ''a'', CHR 0x00]" and ?g = "demo_gate 0x01000001"
  let ?st = "demo_data ?bs"
  have b: "pending_bytes 2 (st_nd ?st) (g_mp ?g) (c_buffer (g_conn ?g ! 0)) [] @ take 4 ?bs = concat (map (pkg 2) [''a'']) @ [CHR 0x00]"
    by (simp add: pending_bytes_def demo_gate_db pkg_def header_bytes_def demo_chars)
  have f: "nd_mem (st_nd ?st) 30 = Some (Bytes ?bs)" "(30 :: nat) \<notin> owned_blocks ?g []" "inbox (st_nd ?st) 0x01000001 = Some []"
    "g_broker ?g = 0x01000001" "c_id (g_conn ?g ! 0) = 7" "g_client_tag ?g = PTYPE_CLIENT"
    using demo_inbox by (simp_all add: demo_data_def demo_sstate_def owned_blocks_def demo_gate_def)
  obtain nd' g' new where r: "gate_dispatch_message w ?st ?g 0 7 (Some 30) (int 4) = Some (?st\<lparr>st_nd := nd'\<rparr>, g')"
    "inbox nd' = (inbox (st_nd ?st))(g_broker ?g \<mapsto> the (inbox (st_nd ?st) (g_broker ?g)) @ new)"
    "list_all2 (carries nd' 0x01000001 (c_id (g_conn ?g ! 0)) (g_client_tag ?g)) (filter (\<lambda>m. m \<noteq> []) [''a'']) new"
    using gate_forwards_packages [OF demo_gate_ready [of ?bs] demo_gate_db(1) demo_gate_db(4) _ _ f(1) _ _ f(2) b, of w 7] demo_gate_db(2)
    by (auto simp: hdr_ok_def pkg_ok_def incomplete_def)
  then obtain x where "new = [x]" "carries nd' 0x01000001 7 PTYPE_CLIENT ''a'' x" by (auto simp: f list_all2_Cons1)
  then show "\<exists>nd' g' x. gate_dispatch_message w ?st ?g 0 7 (Some 30) (int 4) = Some (?st\<lparr>st_nd := nd'\<rparr>, g') \<and>
     inbox nd' 0x01000001 = Some [x] \<and> carries nd' 0x01000001 7 PTYPE_CLIENT ''a'' x"
    using r(1,2) f(3,4) by auto
qed

text \<open>
  C24. A package that arrives while there is no receiver (no broker, no agent of the connection
  and no watchdog) is not taken out of the buffer, only its header is: the loop goes on as if
  the bytes of the package were the next header.
\<close>

theorem gate_misreads_payload:
  assumes "ci < length (g_conn g)" and "db_ok (st_nd st) (g_mp g) (c_buffer (g_conn g ! ci)) as fs U"
    and "g_header_size g = hs" and "hs = 2 \<or> hs = 4" and "hdr_ok hs (db_header (c_buffer (g_conn g ! ci)))"
    and "g_ctx g \<noteq> None" and "g_broker g = 0" and "g_watchdog g = 0" and "c_agent (g_conn g ! ci) = 0"
    and "pending_bytes hs (st_nd st) (g_mp g) (c_buffer (g_conn g ! ci)) as = pkg hs m @ rest" and "pkg_ok hs m" and "m \<noteq> []"
  shows "\<exists>nd' g' as' fs'. package_loop w st g ci sid = package_loop w (st\<lparr>st_nd := nd'\<rparr>) g' ci sid \<and>
    db_ok nd' (g_mp g') (c_buffer (g_conn g' ! ci)) as' fs' U \<and> inbox nd' = inbox (st_nd st) \<and>
    pending_bytes hs nd' (g_mp g') (c_buffer (g_conn g' ! ci)) as' = m @ rest"
proof -
  let ?n = "length m"
  have hb: "header_value (header_bytes hs ?n) = int ?n" "length (header_bytes hs ?n) = hs"
    using header_roundtrip [of hs ?n] assms(4,11) by (auto simp: pkg_ok_def split: if_splits)
  have big: "0 < ?n" "int ?n < 0x1000000" using assms(11,12) by (auto simp: pkg_ok_def split: if_splits)
  obtain nd1 db1 mp1 as1 fs1 where r: "databuffer_readheader (st_nd st) (conn_db g ci) (g_mp g) hs = Some (int ?n, nd1, db1, mp1)"
    "db_ok nd1 mp1 db1 as1 fs1 U" "db_after (st_nd st) (g_mp g) as U nd1 mp1 db1 as1 fs1" "db_bytes nd1 mp1 db1 as1 = m @ rest" "db_header db1 = int ?n"
    using readheader_pending(2) [OF assms(2,4,5) _ refl] hb unfolding assms(10) pkg_def by auto
  obtain ctx where ctx: "g_ctx g = Some ctx" using assms(6) by auto
  have f: "forward w nd1 (conn_put g ci db1 mp1) ci (int ?n) = Some (nd1, conn_put g ci db1 mp1)"
    using assms(1,7,8,9) by (simp add: forward_def ctx Let_def)
  let ?g' = "conn_put g ci (databuffer_reset db1) mp1"
  have "package_loop w st g ci sid = package_loop w (st\<lparr>st_nd := nd1\<rparr>) ?g' ci sid"
    using package_loop_put [OF assms(1) r(1) [folded assms(3)], of w sid] big f reset_conn [OF assms(1)] by simp
  moreover have "inbox nd1 = inbox (st_nd st)" using r(3) by (auto simp: db_after_def only_frees_def)
  ultimately show ?thesis using r(2,4) assms(1)
    by - (rule exI [of _ nd1], rule exI [of _ ?g'], rule exI [of _ as1], rule exI [of _ fs1], simp add: reset_facts)
qed

theorem gate_misreads_payload_witness:
  "\<forall>w. \<exists>db mp nd' g' as' fs'. databuffer_push empty_databuffer demo_pool (Some 30) (int 3) = Some (db, mp) \<and>
     package_loop w (demo_data [CHR 0x00, CHR 0x01, CHR ''a'']) (conn_put (demo_gate 0) 0 db mp) 0 7 =
       package_loop w (demo_data [CHR 0x00, CHR 0x01, CHR ''a'']\<lparr>st_nd := nd'\<rparr>) g' 0 7 \<and>
     db_ok nd' (g_mp g') (c_buffer (g_conn g' ! 0)) as' fs' {} \<and> pending_bytes 2 nd' (g_mp g') (c_buffer (g_conn g' ! 0)) as' = ''a''"
proof
  fix w
  let ?bs = "[CHR 0x00, CHR 0x01, CHR ''a'']"
  let ?st = "demo_data ?bs"
  have mem: "nd_mem (st_nd ?st) 30 = Some (Bytes ?bs)" by (simp add: demo_data_def)
  obtain db mp as fs where ps: "databuffer_push empty_databuffer demo_pool (Some 30) (int 3) = Some (db, mp)" "db_ok (st_nd ?st) mp db as fs {}"
    "db_bytes (st_nd ?st) mp db as = db_bytes (st_nd ?st) demo_pool empty_databuffer [] @ take 3 ?bs" "db_header db = 0"
    using databuffer_push_ok [OF demo_pool_ok mem, of 3] by (auto simp: empty_databuffer_def)
  let ?g = "conn_put (demo_gate 0) 0 db mp"
  have l: "0 < length (g_conn (demo_gate 0))" by (simp add: demo_gate_def)
  have g: "g_mp ?g = mp" "c_buffer (g_conn ?g ! 0) = db" "g_header_size ?g = 2" "g_ctx ?g \<noteq> None" "g_broker ?g = 0" "g_watchdog ?g = 0" "c_agent (g_conn ?g ! 0) = 0" "0 < length (g_conn ?g)"
    using l by (simp_all add: demo_gate_db(4)) (simp_all add: demo_gate_def gate_create_def empty_connection_def)
  have b: "pending_bytes 2 (st_nd ?st) (g_mp ?g) (c_buffer (g_conn ?g ! 0)) as = pkg 2 ''a'' @ []"
    unfolding g by (simp add: pending_bytes_def ps(3,4)) (simp add: db_bytes_def pkg_def header_bytes_def demo_chars)
  have ok: "db_ok (st_nd ?st) (g_mp ?g) (c_buffer (g_conn ?g ! 0)) as fs {}" unfolding g by (rule ps(2))
  have "hdr_ok 2 (db_header (c_buffer (g_conn ?g ! 0)))" unfolding g ps(4) by (simp add: hdr_ok_def)
  from gate_misreads_payload [OF g(8) ok g(3) _ this g(4,5,6,7) b, of w 7] ps(1)
  show "\<exists>db mp nd' g' as' fs'. databuffer_push empty_databuffer demo_pool (Some 30) (int 3) = Some (db, mp) \<and>
     package_loop w ?st (conn_put (demo_gate 0) 0 db mp) 0 7 = package_loop w (?st\<lparr>st_nd := nd'\<rparr>) g' 0 7 \<and>
     db_ok nd' (g_mp g') (c_buffer (g_conn g' ! 0)) as' fs' {} \<and> pending_bytes 2 nd' (g_mp g') (c_buffer (g_conn g' ! 0)) as' = ''a''"
    by (auto simp: pkg_ok_def)
qed

text \<open>
  The commands are compared with \<open>memcmp\<close> up to the length of the word received, so every
  prefix of a command, even the empty one, is taken for it.
\<close>

lemma memcmp_prefix: "memcmp_eq (take k lit @ x) lit (length (take k lit)) = Some True"
  by (simp add: memcmp_eq_def min_def)

lemma takeWhile_kick: "length (takeWhile (\<lambda>c. c \<noteq> CHR '' '') (take k ''kick'' @ CHR '' '' # arg)) = length (take k ''kick'')"
proof -
  have "\<forall>c \<in> set (take k ''kick''). c \<noteq> CHR '' ''" using set_take_subset [of k "''kick''"] by auto
  then show ?thesis by (subst takeWhile_append2) auto
qed

lemma parm_c_str:
  assumes "length cmd = i"
  shows "c_str (parm (cmd @ arg @ [NUL]) (length (cmd @ arg)) i) 0 = Some (takeWhile (\<lambda>c. c \<noteq> NUL) (dropWhile (\<lambda>c. c = CHR '' '') arg))"
proof -
  let ?t = "length (takeWhile (\<lambda>c. c = CHR '' '') arg)"
  have t: "?t \<le> length arg" by (simp add: length_takeWhile_le)
  have d: "drop ?t arg = dropWhile (\<lambda>c. c = CHR '' '') arg" by (simp add: dropWhile_eq_drop)
  have l: "length (dropWhile (\<lambda>c. c = CHR '' '') arg) = length arg - ?t" unfolding d [symmetric] by simp
  have "take (length (cmd @ arg) - (i + ?t)) (drop (i + ?t) (cmd @ arg @ [NUL])) = dropWhile (\<lambda>c. c = CHR '' '') arg"
    using t assms l by (simp add: d)
  then have p: "parm (cmd @ arg @ [NUL]) (length (cmd @ arg)) i =
     dropWhile (\<lambda>c. c = CHR '' '') arg @ [NUL] @ drop (length (cmd @ arg) - (i + ?t) + 1) (cmd @ arg @ [NUL])"
    using assms unfolding parm_def by (simp add: Let_def)
  show ?thesis unfolding p c_str_def by (simp add: takeWhile_tail)
qed

lemma gate_ctrl_prefix: "ctrl w st g (take k ''kick'' @ '' '' @ arg) = ctrl w st g (''kick '' @ arg)"
proof -
  have kick: "ctrl w st g (take k ''kick'' @ '' '' @ arg) = do {
     ctx \<leftarrow> g_ctx g;
     let uid = word_of_int (strtol (takeWhile (\<lambda>c. c \<noteq> NUL) (dropWhile (\<lambda>c. c = CHR '' '') arg)) 10);
     i \<leftarrow> hashid_lookup (g_hash g) uid;
     st \<leftarrow> (if i \<ge> 0 then skynet_socket_close st ctx uid else Some st);
     Some (st, g) }" for k
  proof -
    have m: "memcmp_eq (take k ''kick'' @ CHR '' '' # arg @ [NUL]) ''kick'' (length (take k ''kick'')) = Some True"
      by (rule memcmp_prefix)
    show ?thesis
      using parm_c_str [of "take k ''kick''" "length (take k ''kick'')" "CHR '' '' # arg"] m takeWhile_kick [of k arg]
      by (simp add: ctrl_def ctrl_kick_def Let_def cong: option.case_cong)
  qed
  from kick [of k] kick [of 4] show ?thesis by simp
qed

end
