(* ===== verification/Skynet_DES.thy ===== *)
theory Skynet_DES
  imports Skynet_Prelude
begin

text \<open>
  The DES cipher of \<^verbatim>\<open>lualib-src/lua-crypt.c\<close>: tables, key schedule, block function, padding and
  the Lua functions \<open>desencode\<close> and \<open>desdecode\<close>.

  Bytes are words of 8 bits. A call that raises a Lua error returns \<open>Inl\<close>; \<open>None\<close> is an access
  outside a buffer, the use of bytes never written, or an overflow of an \<open>int\<close> index.
\<close>

subsection \<open>Buffers and errors\<close>

type_synonym bytes = "u8 list"

datatype crypt_error =
    Invalid_key_size | Invalid_padding_mode | Invalid_padding | Invalid_text_length | Invalid_text
  | Invalid_hex_size | Invalid_hex | Invalid_uint64 | Cant_be_0 | Invalid_base64 | Empty_xor

definition SMALL_CHUNK :: nat where
  "SMALL_CHUNK = 256"

definition PADDING_MODE_ISO7816_4 :: cint where
  "PADDING_MODE_ISO7816_4 = 0"

definition PADDING_MODE_PKCS7 :: cint where
  "PADDING_MODE_PKCS7 = 1"

definition PADDING_MODE_COUNT :: int where
  "PADDING_MODE_COUNT = 2"

text \<open>A buffer is filled from its start: \<open>buf\<close> holds the bytes written so far, \<open>cap\<close> is its size.\<close>

definition buf_put :: "nat \<Rightarrow> bytes \<Rightarrow> bytes \<Rightarrow> bytes option" where
  "buf_put cap buf bs = (if length buf + length bs \<le> cap then Some (buf @ bs) else None)"

definition lua_pushlstring :: "bytes \<Rightarrow> nat \<Rightarrow> bytes option" where
  "lua_pushlstring buf n = (if n \<le> length buf then Some (take n buf) else None)"

subsection \<open>The S-boxes\<close>

definition SB1 :: "u32 list" where
  "SB1 =
    [0x01010400, 0x00000000, 0x00010000, 0x01010404, 0x01010004, 0x00010404, 0x00000004, 0x00010000,
     0x00000400, 0x01010400, 0x01010404, 0x00000400, 0x01000404, 0x01010004, 0x01000000, 0x00000004,
     0x00000404, 0x01000400, 0x01000400, 0x00010400, 0x00010400, 0x01010000, 0x01010000, 0x01000404,
     0x00010004, 0x01000004, 0x01000004, 0x00010004, 0x00000000, 0x00000404, 0x00010404, 0x01000000,
     0x00010000, 0x01010404, 0x00000004, 0x01010000, 0x01010400, 0x01000000, 0x01000000, 0x00000400,
     0x01010004, 0x00010000, 0x00010400, 0x01000004, 0x00000400, 0x00000004, 0x01000404, 0x00010404,
     0x01010404, 0x00010004, 0x01010000, 0x01000404, 0x01000004, 0x00000404, 0x00010404, 0x01010400,
     0x00000404, 0x01000400, 0x01000400, 0x00000000, 0x00010004, 0x00010400, 0x00000000, 0x01010004]"

definition SB2 :: "u32 list" where
  "SB2 =
    [0x80108020, 0x80008000, 0x00008000, 0x00108020, 0x00100000, 0x00000020, 0x80100020, 0x80008020,
     0x80000020, 0x80108020, 0x80108000, 0x80000000, 0x80008000, 0x00100000, 0x00000020, 0x80100020,
     0x00108000, 0x00100020, 0x80008020, 0x00000000, 0x80000000, 0x00008000, 0x00108020, 0x80100000,
     0x00100020, 0x80000020, 0x00000000, 0x00108000, 0x00008020, 0x80108000, 0x80100000, 0x00008020,
     0x00000000, 0x00108020, 0x80100020, 0x00100000, 0x80008020, 0x80100000, 0x80108000, 0x00008000,
     0x80100000, 0x80008000, 0x00000020, 0x80108020, 0x00108020, 0x00000020, 0x00008000, 0x80000000,
     0x00008020, 0x80108000, 0x00100000, 0x80000020, 0x00100020, 0x80008020, 0x80000020, 0x00100020,
     0x00108000, 0x00000000, 0x80008000, 0x00008020, 0x80000000, 0x80100020, 0x80108020, 0x00108000]"

definition SB3 :: "u32 list" where
  "SB3 =
    [0x00000208, 0x08020200, 0x00000000, 0x08020008, 0x08000200, 0x00000000, 0x00020208, 0x08000200,
     0x00020008, 0x08000008, 0x08000008, 0x00020000, 0x08020208, 0x00020008, 0x08020000, 0x00000208,
     0x08000000, 0x00000008, 0x08020200, 0x00000200, 0x00020200, 0x08020000, 0x08020008, 0x00020208,
     0x08000208, 0x00020200, 0x00020000, 0x08000208, 0x00000008, 0x08020208, 0x00000200, 0x08000000,
     0x08020200, 0x08000000, 0x00020008, 0x00000208, 0x00020000, 0x08020200, 0x08000200, 0x00000000,
     0x00000200, 0x00020008, 0x08020208, 0x08000200, 0x08000008, 0x00000200, 0x00000000, 0x08020008,
     0x08000208, 0x00020000, 0x08000000, 0x08020208, 0x00000008, 0x00020208, 0x00020200, 0x08000008,
     0x08020000, 0x08000208, 0x00000208, 0x08020000, 0x00020208, 0x00000008, 0x08020008, 0x00020200]"

definition SB4 :: "u32 list" where
  "SB4 =
    [0x00802001, 0x00002081, 0x00002081, 0x00000080, 0x00802080, 0x00800081, 0x00800001, 0x00002001,
     0x00000000, 0x00802000, 0x00802000, 0x00802081, 0x00000081, 0x00000000, 0x00800080, 0x00800001,
     0x00000001, 0x00002000, 0x00800000, 0x00802001, 0x00000080, 0x00800000, 0x00002001, 0x00002080,
     0x00800081, 0x00000001, 0x00002080, 0x00800080, 0x00002000, 0x00802080, 0x00802081, 0x00000081,
     0x00800080, 0x00800001, 0x00802000, 0x00802081, 0x00000081, 0x00000000, 0x00000000, 0x00802000,
     0x00002080, 0x00800080, 0x00800081, 0x00000001, 0x00802001, 0x00002081, 0x00002081, 0x00000080,
     0x00802081, 0x00000081, 0x00000001, 0x00002000, 0x00800001, 0x00002001, 0x00802080, 0x00800081,
     0x00002001, 0x00002080, 0x00800000, 0x00802001, 0x00000080, 0x00800000, 0x00002000, 0x00802080]"

definition SB5 :: "u32 list" where
  "SB5 =
    [0x00000100, 0x02080100, 0x02080000, 0x42000100, 0x00080000, 0x00000100, 0x40000000, 0x02080000,
     0x40080100, 0x00080000, 0x02000100, 0x40080100, 0x42000100, 0x42080000, 0x00080100, 0x40000000,
     0x02000000, 0x40080000, 0x40080000, 0x00000000, 0x40000100, 0x42080100, 0x42080100, 0x02000100,
     0x42080000, 0x40000100, 0x00000000, 0x42000000, 0x02080100, 0x02000000, 0x42000000, 0x00080100,
     0x00080000, 0x42000100, 0x00000100, 0x02000000, 0x40000000, 0x02080000, 0x42000100, 0x40080100,
     0x02000100, 0x40000000, 0x42080000, 0x02080100, 0x40080100, 0x00000100, 0x02000000, 0x42080000,
     0x42080100, 0x00080100, 0x42000000, 0x42080100, 0x02080000, 0x00000000, 0x40080000, 0x42000000,
     0x00080100, 0x02000100, 0x40000100, 0x00080000, 0x00000000, 0x40080000, 0x02080100, 0x40000100]"

definition SB6 :: "u32 list" where
  "SB6 =
    [0x20000010, 0x20400000, 0x00004000, 0x20404010, 0x20400000, 0x00000010, 0x20404010, 0x00400000,
     0x20004000, 0x00404010, 0x00400000, 0x20000010, 0x00400010, 0x20004000, 0x20000000, 0x00004010,
     0x00000000, 0x00400010, 0x20004010, 0x00004000, 0x00404000, 0x20004010, 0x00000010, 0x20400010,
     0x20400010, 0x00000000, 0x00404010, 0x20404000, 0x00004010, 0x00404000, 0x20404000, 0x20000000,
     0x20004000, 0x00000010, 0x20400010, 0x00404000, 0x20404010, 0x00400000, 0x00004010, 0x20000010,
     0x00400000, 0x20004000, 0x20000000, 0x00004010, 0x20000010, 0x20404010, 0x00404000, 0x20400000,
     0x00404010, 0x20404000, 0x00000000, 0x20400010, 0x00000010, 0x00004000, 0x20400000, 0x00404010,
     0x00004000, 0x00400010, 0x20004010, 0x00000000, 0x20404000, 0x20000000, 0x00400010, 0x20004010]"

definition SB7 :: "u32 list" where
  "SB7 =
    [0x00200000, 0x04200002, 0x04000802, 0x00000000, 0x00000800, 0x04000802, 0x00200802, 0x04200800,
     0x04200802, 0x00200000, 0x00000000, 0x04000002, 0x00000002, 0x04000000, 0x04200002, 0x00000802,
     0x04000800, 0x00200802, 0x00200002, 0x04000800, 0x04000002, 0x04200000, 0x04200800, 0x00200002,
     0x04200000, 0x00000800, 0x00000802, 0x04200802, 0x00200800, 0x00000002, 0x04000000, 0x00200800,
     0x04000000, 0x00200800, 0x00200000, 0x04000802, 0x04000802, 0x04200002, 0x04200002, 0x00000002,
     0x00200002, 0x04000000, 0x04000800, 0x00200000, 0x04200800, 0x00000802, 0x00200802, 0x04200800,
     0x00000802, 0x04000002, 0x04200802, 0x04200000, 0x00200800, 0x00000000, 0x00000002, 0x04200802,
     0x00000000, 0x00200802, 0x04200000, 0x00000800, 0x04000002, 0x04000800, 0x00000800, 0x00200002]"

definition SB8 :: "u32 list" where
  "SB8 =
    [0x10001040, 0x00001000, 0x00040000, 0x10041040, 0x10000000, 0x10001040, 0x00000040, 0x10000000,
     0x00040040, 0x10040000, 0x10041040, 0x00041000, 0x10041000, 0x00041040, 0x00001000, 0x00000040,
     0x10040000, 0x10000040, 0x10001000, 0x00001040, 0x00041000, 0x00040040, 0x10040040, 0x10041000,
     0x00001040, 0x00000000, 0x00000000, 0x10040040, 0x10000040, 0x10001000, 0x00041040, 0x00040000,
     0x00041040, 0x00040000, 0x10041000, 0x00001000, 0x00000040, 0x10040040, 0x00001000, 0x00041040,
     0x10001000, 0x00000040, 0x10000040, 0x10040000, 0x10040040, 0x10000000, 0x00040000, 0x10001040,
     0x00000000, 0x10041040, 0x00040040, 0x10000040, 0x10040000, 0x10001000, 0x10001040, 0x00000000,
     0x10041040, 0x00041000, 0x00041000, 0x00001040, 0x00001040, 0x00040040, 0x10000000, 0x10041000]"

subsection \<open>The tables of the key permutation\<close>

definition LHs :: "u32 list" where
  "LHs =
    [0x00000000, 0x00000001, 0x00000100, 0x00000101, 0x00010000, 0x00010001, 0x00010100, 0x00010101,
     0x01000000, 0x01000001, 0x01000100, 0x01000101, 0x01010000, 0x01010001, 0x01010100, 0x01010101]"

definition RHs :: "u32 list" where
  "RHs =
    [0x00000000, 0x01000000, 0x00010000, 0x01010000, 0x00000100, 0x01000100, 0x00010100, 0x01010100,
     0x00000001, 0x01000001, 0x00010001, 0x01010001, 0x00000101, 0x01000101, 0x00010101, 0x01010101]"

subsection \<open>Bytes and words\<close>

definition GET_UINT32 :: "bytes \<Rightarrow> nat \<Rightarrow> u32" where
  "GET_UINT32 b i =
     push_bit 24 (ucast (b ! i)) OR push_bit 16 (ucast (b ! (i + 1))) OR
     push_bit 8 (ucast (b ! (i + 2))) OR ucast (b ! (i + 3))"

definition PUT_UINT32 :: "u32 \<Rightarrow> bytes" where
  "PUT_UINT32 n = [ucast (drop_bit 24 n), ucast (drop_bit 16 n), ucast (drop_bit 8 n), ucast n]"

subsection \<open>Permutations\<close>

text \<open>The line \<open>T = ((X >> k) ^ Y) & m; Y ^= T; X ^= (T << k)\<close>, on which both permutations are built.\<close>

definition des_swap :: "nat \<Rightarrow> u32 \<Rightarrow> u32 \<times> u32 \<Rightarrow> u32 \<times> u32" where
  "des_swap k m = (\<lambda>(X, Y). let T = (drop_bit k X XOR Y) AND m in (X XOR push_bit k T, Y XOR T))"

definition DES_IP :: "u32 \<times> u32 \<Rightarrow> u32 \<times> u32" where
  "DES_IP XY =
     (let (X, Y) = des_swap 4 0x0F0F0F0F XY;
          (X, Y) = des_swap 16 0x0000FFFF (X, Y);
          (Y, X) = des_swap 2 0x33333333 (Y, X);
          (Y, X) = des_swap 8 0x00FF00FF (Y, X);
          Y = (push_bit 1 Y OR drop_bit 31 Y) AND 0xFFFFFFFF;
          (X, Y) = des_swap 0 0xAAAAAAAA (X, Y);
          X = (push_bit 1 X OR drop_bit 31 X) AND 0xFFFFFFFF
      in (X, Y))"

definition DES_FP :: "u32 \<times> u32 \<Rightarrow> u32 \<times> u32" where
  "DES_FP = (\<lambda>(X, Y).
     let X = (push_bit 31 X OR drop_bit 1 X) AND 0xFFFFFFFF;
         (X, Y) = des_swap 0 0xAAAAAAAA (X, Y);
         Y = (push_bit 31 Y OR drop_bit 1 Y) AND 0xFFFFFFFF;
         (Y, X) = des_swap 8 0x00FF00FF (Y, X);
         (Y, X) = des_swap 2 0x33333333 (Y, X);
         (X, Y) = des_swap 16 0x0000FFFF (X, Y)
     in des_swap 4 0x0F0F0F0F (X, Y))"

subsection \<open>Rounds\<close>

text \<open>\<open>DES_ROUND(X, Y)\<close> takes two words of the key and returns the new \<open>Y\<close>.\<close>

definition DES_ROUND :: "u32 \<Rightarrow> u32 \<Rightarrow> u32 \<Rightarrow> u32 \<Rightarrow> u32" where
  "DES_ROUND sk0 sk1 X Y =
     (let T = sk0 XOR X;
          Y = Y XOR (SB8 ! unat (T AND 0x3F) XOR SB6 ! unat (drop_bit 8 T AND 0x3F) XOR
                     SB4 ! unat (drop_bit 16 T AND 0x3F) XOR SB2 ! unat (drop_bit 24 T AND 0x3F));
          T = sk1 XOR (push_bit 28 X OR drop_bit 4 X)
      in Y XOR (SB7 ! unat (T AND 0x3F) XOR SB5 ! unat (drop_bit 8 T AND 0x3F) XOR
                SB3 ! unat (drop_bit 16 T AND 0x3F) XOR SB1 ! unat (drop_bit 24 T AND 0x3F)))"

text \<open>The eight lines \<open>DES_ROUND( Y, X ); DES_ROUND( X, Y );\<close>, for as many words as there are.\<close>

fun des_rounds :: "u32 list \<Rightarrow> u32 \<times> u32 \<Rightarrow> u32 \<times> u32" where
  "des_rounds (k0 # k1 # k2 # k3 # SK) (X, Y) =
     (let X = DES_ROUND k0 k1 Y X; Y = DES_ROUND k2 k3 X Y in des_rounds SK (X, Y))"
| "des_rounds _ (X, Y) = (X, Y)"

definition des_crypt :: "u32 list \<Rightarrow> bytes \<Rightarrow> bytes" where
  "des_crypt SK input =
     (let (X, Y) = DES_IP (GET_UINT32 input 0, GET_UINT32 input 4);
          (X, Y) = des_rounds SK (X, Y);
          (Y, X) = DES_FP (Y, X)
      in PUT_UINT32 Y @ PUT_UINT32 X)"

subsection \<open>Key schedule\<close>

definition ks_shift :: "nat \<Rightarrow> u32 \<Rightarrow> u32" where
  "ks_shift i X =
     (if i < 2 \<or> i = 8 \<or> i = 15 then (push_bit 1 X OR drop_bit 27 X) AND 0x0FFFFFFF
      else (push_bit 2 X OR drop_bit 26 X) AND 0x0FFFFFFF)"

definition ks_word0 :: "u32 \<Rightarrow> u32 \<Rightarrow> u32" where
  "ks_word0 X Y =
     (push_bit 4 X AND 0x24000000) OR (push_bit 28 X AND 0x10000000) OR (push_bit 14 X AND 0x08000000) OR
     (push_bit 18 X AND 0x02080000) OR (push_bit 6 X AND 0x01000000) OR (push_bit 9 X AND 0x00200000) OR
     (drop_bit 1 X AND 0x00100000) OR (push_bit 10 X AND 0x00040000) OR (push_bit 2 X AND 0x00020000) OR
     (drop_bit 10 X AND 0x00010000) OR (drop_bit 13 Y AND 0x00002000) OR (drop_bit 4 Y AND 0x00001000) OR
     (push_bit 6 Y AND 0x00000800) OR (drop_bit 1 Y AND 0x00000400) OR (drop_bit 14 Y AND 0x00000200) OR
     (Y AND 0x00000100) OR (drop_bit 5 Y AND 0x00000020) OR (drop_bit 10 Y AND 0x00000010) OR
     (drop_bit 3 Y AND 0x00000008) OR (drop_bit 18 Y AND 0x00000004) OR (drop_bit 26 Y AND 0x00000002) OR
     (drop_bit 24 Y AND 0x00000001)"

definition ks_word1 :: "u32 \<Rightarrow> u32 \<Rightarrow> u32" where
  "ks_word1 X Y =
     (push_bit 15 X AND 0x20000000) OR (push_bit 17 X AND 0x10000000) OR (push_bit 10 X AND 0x08000000) OR
     (push_bit 22 X AND 0x04000000) OR (drop_bit 2 X AND 0x02000000) OR (push_bit 1 X AND 0x01000000) OR
     (push_bit 16 X AND 0x00200000) OR (push_bit 11 X AND 0x00100000) OR (push_bit 3 X AND 0x00080000) OR
     (drop_bit 6 X AND 0x00040000) OR (push_bit 15 X AND 0x00020000) OR (drop_bit 4 X AND 0x00010000) OR
     (drop_bit 2 Y AND 0x00002000) OR (push_bit 8 Y AND 0x00001000) OR (drop_bit 14 Y AND 0x00000808) OR
     (drop_bit 9 Y AND 0x00000400) OR (Y AND 0x00000200) OR (push_bit 7 Y AND 0x00000100) OR
     (drop_bit 7 Y AND 0x00000020) OR (drop_bit 3 Y AND 0x00000011) OR (push_bit 2 Y AND 0x00000004) OR
     (drop_bit 21 Y AND 0x00000002)"

fun ks_loop :: "nat list \<Rightarrow> u32 \<Rightarrow> u32 \<Rightarrow> u32 list" where
  "ks_loop [] X Y = []"
| "ks_loop (i # is) X Y =
     (let X = ks_shift i X; Y = ks_shift i Y in ks_word0 X Y # ks_word1 X Y # ks_loop is X Y)"

definition des_main_ks :: "bytes \<Rightarrow> u32 list" where
  "des_main_ks key =
     (let X = GET_UINT32 key 0; Y = GET_UINT32 key 4;
          T = (drop_bit 4 Y XOR X) AND 0x0F0F0F0F; X = X XOR T; Y = Y XOR push_bit 4 T;
          T = (Y XOR X) AND 0x10101010; X = X XOR T; Y = Y XOR T;
          X = push_bit 3 (LHs ! unat (X AND 0xF)) OR push_bit 2 (LHs ! unat (drop_bit 8 X AND 0xF)) OR
              push_bit 1 (LHs ! unat (drop_bit 16 X AND 0xF)) OR LHs ! unat (drop_bit 24 X AND 0xF) OR
              push_bit 7 (LHs ! unat (drop_bit 5 X AND 0xF)) OR push_bit 6 (LHs ! unat (drop_bit 13 X AND 0xF)) OR
              push_bit 5 (LHs ! unat (drop_bit 21 X AND 0xF)) OR push_bit 4 (LHs ! unat (drop_bit 29 X AND 0xF));
          Y = push_bit 3 (RHs ! unat (drop_bit 1 Y AND 0xF)) OR push_bit 2 (RHs ! unat (drop_bit 9 Y AND 0xF)) OR
              push_bit 1 (RHs ! unat (drop_bit 17 Y AND 0xF)) OR RHs ! unat (drop_bit 25 Y AND 0xF) OR
              push_bit 7 (RHs ! unat (drop_bit 4 Y AND 0xF)) OR push_bit 6 (RHs ! unat (drop_bit 12 Y AND 0xF)) OR
              push_bit 5 (RHs ! unat (drop_bit 20 Y AND 0xF)) OR push_bit 4 (RHs ! unat (drop_bit 28 Y AND 0xF))
      in ks_loop [0..<16] (X AND 0x0FFFFFFF) (Y AND 0x0FFFFFFF))"

subsection \<open>Padding\<close>

text \<open>
  The last block: \<open>pre\<close> are the \<open>offset\<close> bytes that \<open>add_padding\<close> copied into it. Removal reads
  downwards from the last byte, so it takes the text reversed; the end of that list is the begin
  of the buffer.
\<close>

definition padding_add_iso7816_4 :: "bytes \<Rightarrow> bytes" where
  "padding_add_iso7816_4 pre = pre @ 0x80 # replicate (7 - length pre) 0"

fun remove_iso_loop :: "nat \<Rightarrow> int \<Rightarrow> bytes \<Rightarrow> int option" where
  "remove_iso_loop 0 padding lp = Some 0"
| "remove_iso_loop (Suc n) padding [] = None"
| "remove_iso_loop (Suc n) padding (b # lp) =
     (if b = 0 then remove_iso_loop n (padding + 1) lp
      else if b = 0x80 then Some padding
      else Some 0)"

definition padding_remove_iso7816_4 :: "bytes \<Rightarrow> int option" where
  "padding_remove_iso7816_4 lp = remove_iso_loop 8 1 lp"

definition padding_add_pkcs7 :: "bytes \<Rightarrow> bytes" where
  "padding_add_pkcs7 pre = pre @ replicate (8 - length pre) (word_of_nat (8 - length pre))"

fun remove_pkcs7_loop :: "nat \<Rightarrow> u8 \<Rightarrow> bytes \<Rightarrow> int option" where
  "remove_pkcs7_loop 0 padding lp = Some (uint padding)"
| "remove_pkcs7_loop (Suc n) padding [] = None"
| "remove_pkcs7_loop (Suc n) padding (b # lp) =
     (if b \<noteq> padding then Some 0 else remove_pkcs7_loop n padding lp)"

definition padding_remove_pkcs7 :: "bytes \<Rightarrow> int option" where
  "padding_remove_pkcs7 lp =
     (case lp of [] \<Rightarrow> None | b # rest \<Rightarrow> remove_pkcs7_loop (unat b - 1) b rest)"

definition check_padding_mode :: "cint \<Rightarrow> bool" where
  "check_padding_mode mode \<longleftrightarrow> \<not> (sint mode < 0 \<or> sint mode \<ge> PADDING_MODE_COUNT)"

text \<open>\<open>memcpy\<close> with a negative \<open>offset\<close> reads outside the text.\<close>

definition add_padding :: "bytes \<Rightarrow> int \<Rightarrow> cint \<Rightarrow> (crypt_error + bytes) option" where
  "add_padding src offset mode =
     (if \<not> check_padding_mode mode then Some (Inl Invalid_padding_mode)
      else if offset \<ge> 8 then Some (Inl Invalid_padding)
      else if offset < 0 \<or> length src < nat offset then None
      else Some (Inr ((if mode = PADDING_MODE_ISO7816_4 then padding_add_iso7816_4 else padding_add_pkcs7)
                        (take (nat offset) src))))"

definition remove_padding :: "bytes \<Rightarrow> cint \<Rightarrow> (crypt_error + int) option" where
  "remove_padding lp mode =
     (if \<not> check_padding_mode mode then Some (Inl Invalid_padding_mode)
      else map_option Inr ((if mode = PADDING_MODE_ISO7816_4 then padding_remove_iso7816_4
                            else padding_remove_pkcs7) lp))"

subsection \<open>The Lua functions\<close>

definition des_key :: "bytes \<Rightarrow> crypt_error + u32 list" where
  "des_key key = (if length key \<noteq> 8 then Inl Invalid_key_size else Inr (des_main_ks key))"

text \<open>The loop over the whole blocks from \<open>i\<close> while \<open>i < n\<close>; returns the position after it.\<close>

function des_blocks :: "u32 list \<Rightarrow> bytes \<Rightarrow> int \<Rightarrow> nat \<Rightarrow> nat \<Rightarrow> bytes \<Rightarrow> (nat \<times> bytes) option" where
  "des_blocks SK text n cap i buffer =
     (if int i < n then
        (if length text < i + 8 then None
         else Option.bind (buf_put cap buffer (des_crypt SK (take 8 (drop i text))))
                (des_blocks SK text n cap (i + 8)))
      else Some (i, buffer))"
  by pat_completeness auto
termination
  by (relation "measure (\<lambda>(SK, text, n, cap, i, buffer). nat (n - int i))") auto

definition ldesencode :: "bytes \<Rightarrow> bytes \<Rightarrow> cint \<Rightarrow> (crypt_error + bytes) option" where
  "ldesencode key text padding_mode =
     (case des_key key of
        Inl e \<Rightarrow> Some (Inl e)
      | Inr SK \<Rightarrow>
          (let textsz = length text;
               chunksz = (textsz + 8) div 8 * 8;
               cap = (if chunksz > SMALL_CHUNK then chunksz else SMALL_CHUNK)
           in do {
             (i, buffer) \<leftarrow> des_blocks SK text (sint (word_of_nat textsz :: cint) - 7) cap 0 [];
             tail \<leftarrow> add_padding (drop i text) (sint (word_of_nat (textsz - i) :: cint)) padding_mode;
             case tail of
               Inl e \<Rightarrow> Some (Inl e)
             | Inr tail \<Rightarrow> do {
                 buffer \<leftarrow> buf_put cap buffer (des_crypt SK tail);
                 map_option Inr (lua_pushlstring buffer chunksz) } }))"

definition decode_key :: "u32 list \<Rightarrow> u32 list" where
  "decode_key ESK = concat (map (\<lambda>j. [ESK ! (30 - 2 * j), ESK ! (31 - 2 * j)]) [0..<16])"

definition ldesdecode :: "bytes \<Rightarrow> bytes \<Rightarrow> cint \<Rightarrow> (crypt_error + bytes) option" where
  "ldesdecode key text padding_mode =
     (case des_key key of
        Inl e \<Rightarrow> Some (Inl e)
      | Inr ESK \<Rightarrow>
          (let SK = decode_key ESK; textsz = length text;
               cap = (if textsz > SMALL_CHUNK then textsz else SMALL_CHUNK)
           in if textsz mod 8 \<noteq> 0 \<or> textsz = 0 then Some (Inl Invalid_text_length)
              else if int textsz \<ge> 2 ^ 31 then None
              else do {
                (_, buffer) \<leftarrow> des_blocks SK text (int textsz) cap 0 [];
                p \<leftarrow> remove_padding (rev (take textsz buffer)) padding_mode;
                case p of
                  Inl e \<Rightarrow> Some (Inl e)
                | Inr padding \<Rightarrow>
                    (if padding \<le> 0 \<or> padding > 8 then Some (Inl Invalid_text)
                     else map_option Inr (lua_pushlstring buffer (textsz - nat padding))) }))"

subsection \<open>The block function is invertible\<close>

lemma xor_cancel: "((a :: 'a :: len word) XOR b) XOR b = a" "b XOR (b XOR a) = a"
  by (simp_all add: xor.assoc [symmetric] xor.assoc)

lemma des_swap_twice: "drop_bit k (push_bit k m) = m \<Longrightarrow> des_swap k m (des_swap k m XY) = XY"
proof -
  assume m: "drop_bit k (push_bit k m) = m"
  obtain X Y where XY: "XY = (X, Y)" by (cases XY)
  define T where "T = (drop_bit k X XOR Y) AND m"
  have low: "drop_bit k (push_bit k T) = T"
  proof -
    have "drop_bit k (push_bit k T) = (drop_bit k X XOR Y) AND drop_bit k (push_bit k m)"
      unfolding T_def by (rule bit_word_eqI) (auto simp: bit_simps)
    then show ?thesis by (simp only: m T_def)
  qed
  have T: "(drop_bit k (X XOR push_bit k T) XOR (Y XOR T)) AND m = T"
    unfolding drop_bit_xor low by (simp add: T_def ac_simps xor_cancel)
  have 1: "des_swap k m (X, Y) = (X XOR push_bit k T, Y XOR T)" by (simp only: des_swap_def Let_def T_def prod.case)
  have "des_swap k m (X XOR push_bit k T, Y XOR T) = ((X XOR push_bit k T) XOR push_bit k T, (Y XOR T) XOR T)"
    unfolding des_swap_def Let_def prod.case T ..
  then show ?thesis unfolding XY 1 xor_cancel .
qed

lemma rotate_word: "push_bit (32 - k) (push_bit k (X :: u32) OR drop_bit (32 - k) X) OR drop_bit k (push_bit k X OR drop_bit (32 - k) X) = X"
  if "k \<le> 32"
proof (rule bit_word_eqI)
  fix n assume "n < LENGTH(32)"
  then have n: "n < 32" by simp
  show "bit (push_bit (32 - k) (push_bit k X OR drop_bit (32 - k) X) OR drop_bit k (push_bit k X OR drop_bit (32 - k) X)) n = bit X n"
    using that n by (cases "n < 32 - k") (auto simp: bit_simps dest: bit_imp_le_length)
qed

lemma all_ones: "(X :: u32) AND 0xFFFFFFFF = X"
proof -
  have "(0xFFFFFFFF :: u32) = - 1" by simp
  then show ?thesis by (simp only: and.right_neutral)
qed

lemma rotate_back:
  "push_bit 31 (push_bit 1 X OR drop_bit 31 X) OR drop_bit 1 (push_bit 1 X OR drop_bit 31 X) = (X :: u32)"
  "push_bit 1 (push_bit 31 X OR drop_bit 1 X) OR drop_bit 31 (push_bit 31 X OR drop_bit 1 X) = (X :: u32)"
  using rotate_word [of 1 X] rotate_word [of 31 X] by simp_all

lemma des_swap_back:
  "des_swap 4 0x0F0F0F0F P = Q \<Longrightarrow> des_swap 4 0x0F0F0F0F Q = P" "des_swap 16 0x0000FFFF P = Q \<Longrightarrow> des_swap 16 0x0000FFFF Q = P"
  "des_swap 2 0x33333333 P = Q \<Longrightarrow> des_swap 2 0x33333333 Q = P" "des_swap 8 0x00FF00FF P = Q \<Longrightarrow> des_swap 8 0x00FF00FF Q = P"
  "des_swap 0 0xAAAAAAAA P = Q \<Longrightarrow> des_swap 0 0xAAAAAAAA Q = P"
  by (use des_swap_twice in \<open>force simp: des_swap_twice\<close>)+

lemma FP_IP: "DES_FP (DES_IP XY) = XY"
proof -
  obtain X1 Y1 where 1: "des_swap 4 0x0F0F0F0F XY = (X1, Y1)" by fastforce
  obtain X2 Y2 where 2: "des_swap 16 0x0000FFFF (X1, Y1) = (X2, Y2)" by fastforce
  obtain X3 Y3 where 3: "des_swap 2 0x33333333 (Y2, X2) = (Y3, X3)" by fastforce
  obtain X4 Y4 where 4: "des_swap 8 0x00FF00FF (Y3, X3) = (Y4, X4)" by fastforce
  obtain X5 Y5 where 5: "des_swap 0 0xAAAAAAAA (X4, push_bit 1 Y4 OR drop_bit 31 Y4) = (X5, Y5)" by fastforce
  show ?thesis
    unfolding DES_IP_def DES_FP_def Let_def all_ones 1 2 3 4 5 prod.case rotate_back
      des_swap_back(1) [OF 1] des_swap_back(2) [OF 2] des_swap_back(3) [OF 3] des_swap_back(4) [OF 4] des_swap_back(5) [OF 5] ..
qed

lemma IP_FP: "DES_IP (DES_FP XY) = XY"
proof -
  obtain X Y where XY: "XY = (X, Y)" by (cases XY)
  obtain X5 Y5 where 5: "des_swap 0 0xAAAAAAAA (push_bit 31 X OR drop_bit 1 X, Y) = (X5, Y5)" by fastforce
  obtain X4 Y4 where 4: "des_swap 8 0x00FF00FF (push_bit 31 Y5 OR drop_bit 1 Y5, X5) = (Y4, X4)" by fastforce
  obtain X3 Y3 where 3: "des_swap 2 0x33333333 (Y4, X4) = (Y3, X3)" by fastforce
  obtain X2 Y2 where 2: "des_swap 16 0x0000FFFF (X3, Y3) = (X2, Y2)" by fastforce
  obtain X1 Y1 where 1: "des_swap 4 0x0F0F0F0F (X2, Y2) = (X1, Y1)" by fastforce
  show ?thesis
    unfolding XY DES_IP_def DES_FP_def Let_def all_ones 1 2 3 4 5 prod.case rotate_back
      des_swap_back(1) [OF 1] des_swap_back(2) [OF 2] des_swap_back(3) [OF 3] des_swap_back(4) [OF 4] des_swap_back(5) [OF 5] ..
qed

lemma des_rounds_append: "length as mod 4 = 0 \<Longrightarrow> des_rounds (as @ bs) P = des_rounds bs (des_rounds as P)"
proof (induction as P rule: des_rounds.induct)
  case (1 k0 k1 k2 k3 SK X Y)
  then show ?case by (simp add: Let_def)
qed simp_all

text \<open>The words of the key in the order of decryption: pairs of words, the last first.\<close>

fun rev_pairs :: "u32 list \<Rightarrow> u32 list" where
  "rev_pairs (a # b # SK) = rev_pairs SK @ [a, b]"
| "rev_pairs SK = SK"

lemma length_rev_pairs [simp]: "length (rev_pairs SK) = length SK"
  by (induction SK rule: rev_pairs.induct) simp_all

lemma des_round_xor: "DES_ROUND a b X Y = Y XOR DES_ROUND a b X 0"
  unfolding DES_ROUND_def Let_def by (simp only: xor.assoc xor.left_neutral)

lemma des_round_twice: "DES_ROUND a b X (DES_ROUND a b X Y) = Y"
proof -
  have "DES_ROUND a b X (DES_ROUND a b X Y) = (Y XOR DES_ROUND a b X 0) XOR DES_ROUND a b X 0"
    by (metis des_round_xor)
  then show ?thesis by (simp only: xor_cancel)
qed

lemma des_rounds_back: "length SK mod 4 = 0 \<Longrightarrow> des_rounds SK (X, Y) = (X', Y') \<Longrightarrow> des_rounds (rev_pairs SK) (Y', X') = (Y, X)"
proof (induction SK "(X, Y)" arbitrary: X Y rule: des_rounds.induct)
  case (1 k0 k1 k2 k3 SK X Y)
  let ?X = "DES_ROUND k0 k1 Y X"
  let ?Y = "DES_ROUND k2 k3 ?X Y"
  have "des_rounds (rev_pairs SK) (Y', X') = (?Y, ?X)" using 1 by (simp add: Let_def)
  then have "des_rounds (rev_pairs SK @ [k2, k3, k0, k1]) (Y', X') = des_rounds [k2, k3, k0, k1] (?Y, ?X)"
    using "1.prems"(1) by (subst des_rounds_append) simp_all
  also have "\<dots> = (Y, X)" by (simp add: Let_def des_round_twice)
  finally show ?case by simp
qed simp_all

lemma rev_pairs_nth:
  "length SK = 2 * m \<Longrightarrow> rev_pairs SK = concat (map (\<lambda>j. [SK ! (2 * m - 2 - 2 * j), SK ! (2 * m - 1 - 2 * j)]) [0..<m])"
proof (induction SK arbitrary: m rule: rev_pairs.induct)
  case (1 a b SK)
  then obtain k where m: "m = Suc k" "length SK = 2 * k" by (cases m) auto
  let ?f = "\<lambda>j. [(a # b # SK) ! (2 * m - 2 - 2 * j), (a # b # SK) ! (2 * m - 1 - 2 * j)]"
  have eq: "map ?f [0..<k] =
    map (\<lambda>j. [SK ! (2 * k - 2 - 2 * j), SK ! (2 * k - 1 - 2 * j)]) [0..<k]"
  proof (rule map_cong [OF refl])
    fix j assume "j \<in> set [0..<k]"
    then have "2 * m - 2 - 2 * j = Suc (Suc (2 * k - 2 - 2 * j))" "2 * m - 1 - 2 * j = Suc (Suc (2 * k - 1 - 2 * j))"
      unfolding m(1) by auto
    then show "[(a # b # SK) ! (2 * m - 2 - 2 * j), (a # b # SK) ! (2 * m - 1 - 2 * j)] =
      [SK ! (2 * k - 2 - 2 * j), SK ! (2 * k - 1 - 2 * j)]" by simp
  qed
  have "[0..<m] = [0..<k] @ [k]" "?f k = [a, b]" by (simp_all add: m(1))
  then have "concat (map ?f [0..<m]) = concat (map ?f [0..<k]) @ [a, b]" by simp
  then show ?case unfolding eq rev_pairs.simps "1.IH" [OF m(2)] by (rule sym)
qed auto

lemma decode_key_rev: "length SK = 32 \<Longrightarrow> decode_key SK = rev_pairs SK"
  using rev_pairs_nth [of SK 16] by (simp add: decode_key_def)

lemma words_bytes:
  "GET_UINT32 (PUT_UINT32 a @ PUT_UINT32 b) 0 = a" "GET_UINT32 (PUT_UINT32 a @ PUT_UINT32 b) 4 = b"
proof -
  have w: "push_bit 24 (ucast (ucast (drop_bit 24 n) :: u8)) OR push_bit 16 (ucast (ucast (drop_bit 16 n) :: u8)) OR
      push_bit 8 (ucast (ucast (drop_bit 8 n) :: u8)) OR ucast (ucast n :: u8) = n" (is "?l = n") for n :: u32
  proof (rule bit_word_eqI)
    fix i assume "i < LENGTH(32)"
    then have "i < 8 \<or> 8 \<le> i \<and> i < 16 \<or> 16 \<le> i \<and> i < 24 \<or> 24 \<le> i \<and> i < 32" by auto
    then show "bit ?l i = bit n i" by (elim disjE) (auto simp add: bit_simps)
  qed
  show "GET_UINT32 (PUT_UINT32 a @ PUT_UINT32 b) 0 = a" "GET_UINT32 (PUT_UINT32 a @ PUT_UINT32 b) 4 = b"
    unfolding GET_UINT32_def PUT_UINT32_def by (simp_all add: w)
qed

lemma bytes_words:
  assumes "length bs = 8"
  shows "PUT_UINT32 (GET_UINT32 bs 0) @ PUT_UINT32 (GET_UINT32 bs 4) = bs"
proof -
  obtain b0 b1 b2 b3 b4 b5 b6 b7 where bs: "bs = [b0, b1, b2, b3, b4, b5, b6, b7]"
    using assms by (auto simp: numeral_eq_Suc length_Suc_conv)
  have w: "PUT_UINT32 (push_bit 24 (ucast a) OR push_bit 16 (ucast b) OR push_bit 8 (ucast c) OR ucast d) = [a, b, c, d]" for a b c d
    unfolding PUT_UINT32_def list.inject by (intro conjI refl bit_word_eqI) (auto simp: bit_simps dest: bit_imp_le_length)
  show ?thesis unfolding GET_UINT32_def bs by (simp add: w)
qed

lemma des_crypt_back:
  assumes "length SK = 32" "length bs = 8"
  shows "des_crypt (decode_key SK) (des_crypt SK bs) = bs"
proof -
  obtain X Y where 1: "DES_IP (GET_UINT32 bs 0, GET_UINT32 bs 4) = (X, Y)" by fastforce
  obtain X' Y' where 2: "des_rounds SK (X, Y) = (X', Y')" by fastforce
  obtain A B where 3: "DES_FP (Y', X') = (A, B)" by fastforce
  have out: "des_crypt SK bs = PUT_UINT32 A @ PUT_UINT32 B" unfolding des_crypt_def 1 2 3 Let_def prod.case ..
  have "DES_IP (A, B) = (Y', X')" by (metis 3 IP_FP)
  moreover have "des_rounds (decode_key SK) (Y', X') = (Y, X)"
    using des_rounds_back [of SK] assms(1) 2 by (simp add: decode_key_rev)
  moreover have "DES_FP (X, Y) = (GET_UINT32 bs 0, GET_UINT32 bs 4)" by (metis 1 FP_IP)
  ultimately show ?thesis unfolding out des_crypt_def [of "decode_key SK"] words_bytes Let_def
    by (simp add: bytes_words [OF assms(2)])
qed

lemma length_des_crypt [simp]: "length (des_crypt SK bs) = 8"
  by (simp add: des_crypt_def PUT_UINT32_def Let_def split: prod.split)

lemma length_ks_loop: "length (ks_loop is X Y) = 2 * length is"
  by (induction "is" arbitrary: X Y) (simp_all add: Let_def)

lemma length_des_main_ks [simp]: "length (des_main_ks key) = 32"
  by (simp add: des_main_ks_def Let_def length_ks_loop)

subsection \<open>Padding and blocks\<close>

lemma length_padding [simp]:
  "length pre < 8 \<Longrightarrow> length (padding_add_iso7816_4 pre) = 8" "length pre < 8 \<Longrightarrow> length (padding_add_pkcs7 pre) = 8"
  by (simp_all add: padding_add_iso7816_4_def padding_add_pkcs7_def)

lemma remove_iso_zeros: "m < n \<Longrightarrow> remove_iso_loop n p (replicate m 0 @ 0x80 # r) = Some (p + int m)"
proof (induction m arbitrary: n p)
  case 0
  then show ?case by (cases n) simp_all
next
  case (Suc m)
  then show ?case by (cases n) simp_all
qed

lemma remove_pkcs7_equal: "remove_pkcs7_loop m b (replicate m b @ r) = Some (uint b)"
  by (induction m) simp_all

text \<open>What the padding adds to a text, and that it is found again.\<close>

definition pad_of :: "cint \<Rightarrow> bytes \<Rightarrow> bytes" where
  "pad_of mode = (if mode = PADDING_MODE_ISO7816_4 then padding_add_iso7816_4 else padding_add_pkcs7)"

lemma remove_pad_of:
  assumes "check_padding_mode mode" "length pre < 8"
  shows "remove_padding (rev (t @ pad_of mode pre)) mode = Some (Inr (int (8 - length pre)))"
proof (cases "mode = PADDING_MODE_ISO7816_4")
  case True
  have "rev (t @ pad_of mode pre) = replicate (7 - length pre) 0 @ 0x80 # (rev pre @ rev t)"
    by (simp add: True pad_of_def padding_add_iso7816_4_def)
  then have "padding_remove_iso7816_4 (rev (t @ pad_of mode pre)) = Some (1 + int (7 - length pre))"
    unfolding padding_remove_iso7816_4_def by (simp only: remove_iso_zeros)
  then show ?thesis using assms True by (simp add: remove_padding_def)
next
  case False
  define b where "b = (word_of_nat (8 - length pre) :: u8)"
  have b: "unat b = 8 - length pre" by (simp add: b_def unat_of_nat)
  have "rev (t @ pad_of mode pre) = replicate (8 - length pre) b @ (rev pre @ rev t)"
    using False by (simp add: pad_of_def padding_add_pkcs7_def b_def)
  also have "\<dots> = b # replicate (unat b - 1) b @ (rev pre @ rev t)"
    using assms(2) unfolding b by (cases "8 - length pre") simp_all
  finally have "padding_remove_pkcs7 (rev (t @ pad_of mode pre)) = Some (uint b)"
    by (simp add: padding_remove_pkcs7_def remove_pkcs7_equal)
  moreover have "uint b = int (8 - length pre)" using b by (metis uint_nat)
  ultimately show ?thesis using assms False by (simp add: remove_padding_def)
qed

lemma des_blocks_all:
  assumes "n \<le> int (length pre + 8 * length bs)" "int (length pre + 8 * length bs) < n + 8"
    and "\<forall>b \<in> set bs. length b = 8" "length buf + 8 * length bs \<le> cap"
  shows "des_blocks SK (pre @ concat bs @ tl') n cap (length pre) buf =
    Some (length pre + 8 * length bs, buf @ concat (map (des_crypt SK) bs))"
  using assms
proof (induction bs arbitrary: pre buf)
  case Nil
  then show ?case by (subst des_blocks.simps) simp
next
  case (Cons b bs)
  have b: "length b = 8" "take 8 (drop (length pre) (pre @ concat (b # bs) @ tl')) = b" using Cons.prems(3) by simp_all
  have n: "int (length pre) < n" using Cons.prems(2) by simp
  have "des_blocks SK ((pre @ b) @ concat bs @ tl') n cap (length (pre @ b)) (buf @ des_crypt SK b) =
    Some (length (pre @ b) + 8 * length bs, (buf @ des_crypt SK b) @ concat (map (des_crypt SK) bs))"
    by (rule Cons.IH) (use Cons.prems b(1) in simp_all)
  moreover have "buf_put cap buf (des_crypt SK b) = Some (buf @ des_crypt SK b)" using Cons.prems(4) by (simp add: buf_put_def)
  ultimately show ?case using n b by (subst des_blocks.simps) simp
qed

lemma split_blocks: "\<exists>bs t. tx = concat bs @ t \<and> (\<forall>b \<in> set bs. length b = 8) \<and> length t < 8"
proof (induction tx rule: length_induct)
  case (1 tx)
  show ?case
  proof (cases "length tx < 8")
    case False
    then obtain bs t where "drop 8 tx = concat bs @ t" "\<forall>b \<in> set bs. length b = 8" "length t < 8"
      using 1 [rule_format, of "drop 8 tx"] by (metis False diff_less length_drop less_le_trans not_less zero_less_numeral)
    then show ?thesis using False append_take_drop_id [of 8 tx]
      by (intro exI [of _ "take 8 tx # bs"] exI [of _ t]) auto
  next
    case True
    then show ?thesis by (intro exI [of _ "[]"] exI [of _ tx]) simp
  qed
qed

lemma length_blocks: "\<forall>b \<in> set bs. length b = 8 \<Longrightarrow> length (concat bs) = 8 * length bs"
  by (induction bs) simp_all

lemma ldesencode_blocks:
  assumes "length key = 8" "check_padding_mode mode" "\<forall>b \<in> set bs. length b = 8" "length t < 8" "length (concat bs @ t) < 2 ^ 31"
  shows "ldesencode key (concat bs @ t) mode = Some (Inr (concat (map (des_crypt (des_main_ks key)) (bs @ [pad_of mode t]))))"
proof -
  define SK where "SK = des_main_ks key"
  define chunk where "chunk = (length (concat bs @ t) + 8) div 8 * 8"
  define cap where "cap = (if chunk > SMALL_CHUNK then chunk else SMALL_CHUNK)"
  have lb: "length (concat bs) = 8 * length bs" by (rule length_blocks [OF assms(3)])
  have chunk: "chunk = 8 * length bs + 8" proof -
    have "(8 * length bs + length t + 8) div 8 = length bs + 1" using assms(4) by (intro div_nat_eqI) simp_all
    then show ?thesis by (simp add: chunk_def lb)
  qed
  have cap: "8 * length bs + 8 \<le> cap" by (simp add: cap_def chunk)
  have sz: "sint (word_of_nat (length (concat bs @ t)) :: cint) = int (8 * length bs + length t)"
    using sint_word_of_nat [OF assms(5)] by (simp add: lb)
  have off: "sint (word_of_nat (length (concat bs @ t) - 8 * length bs) :: cint) = int (length t)"
    using sint_word_of_nat [of "length t"] assms(5) by (simp add: lb)
  have "des_blocks SK ([] @ concat bs @ t) (int (8 * length bs + length t) - 7) cap (length ([] :: bytes)) [] =
      Some (length ([] :: bytes) + 8 * length bs, [] @ concat (map (des_crypt SK) bs))"
    by (rule des_blocks_all) (use assms(3,4) cap in auto)
  then have bl: "des_blocks SK (concat bs @ t) (int (8 * length bs + length t) - 7) cap 0 [] = Some (8 * length bs, concat (map (des_crypt SK) bs))"
    by simp
  have pad: "add_padding (drop (8 * length bs) (concat bs @ t)) (int (length t)) mode = Some (Inr (pad_of mode t))"
    using assms(2,4) by (simp add: lb add_padding_def pad_of_def)
  have lc: "length (concat (map (des_crypt SK) bs)) = 8 * length bs" by (induction bs) simp_all
  have put: "buf_put cap (concat (map (des_crypt SK) bs)) (des_crypt SK (pad_of mode t)) = Some (concat (map (des_crypt SK) (bs @ [pad_of mode t])))"
    using cap by (simp add: buf_put_def lc)
  have key: "des_key key = Inr SK" by (simp add: des_key_def assms(1) SK_def)
  have push: "lua_pushlstring (concat (map (des_crypt SK) (bs @ [pad_of mode t]))) chunk = Some (concat (map (des_crypt SK) (bs @ [pad_of mode t])))"
    by (simp add: lua_pushlstring_def lc chunk)
  show ?thesis
    unfolding ldesencode_def key sum.case Let_def sz chunk_def [symmetric] cap_def [symmetric] bl Option.bind.bind_lunit prod.case off pad put
      push option.map SK_def [symmetric] by simp
qed

lemma ldesdecode_blocks:
  assumes "length key = 8" "\<forall>b \<in> set cs. length b = 8" "cs \<noteq> []" "length (concat cs) < 2 ^ 31"
  defines "plain \<equiv> concat (map (des_crypt (decode_key (des_main_ks key))) cs)"
  shows "ldesdecode key (concat cs) mode =
    Option.bind (remove_padding (rev plain) mode) (\<lambda>p. case p of Inl e \<Rightarrow> Some (Inl e)
      | Inr padding \<Rightarrow> if padding \<le> 0 \<or> padding > 8 then Some (Inl Invalid_text)
                      else Some (Inr (take (length plain - nat padding) plain)))"
proof -
  define SK where "SK = decode_key (des_main_ks key)"
  define sz where "sz = length (concat cs)"
  define cap where "cap = (if sz > SMALL_CHUNK then sz else SMALL_CHUNK)"
  have sz: "sz = 8 * length cs" unfolding sz_def by (rule length_blocks [OF assms(2)])
  have lp: "length plain = sz" unfolding plain_def sz by (induction cs) simp_all
  have "des_blocks SK ([] @ concat cs @ []) (int sz) cap (length ([] :: bytes)) [] =
      Some (length ([] :: bytes) + 8 * length cs, [] @ concat (map (des_crypt SK) cs))"
    by (rule des_blocks_all) (use assms(2) in \<open>auto simp: sz cap_def\<close>)
  then have bl: "des_blocks SK (concat cs) (int sz) cap 0 [] = Some (sz, plain)" by (simp add: sz plain_def SK_def)
  have ok: "\<not> (sz mod 8 \<noteq> 0 \<or> sz = 0)" "\<not> 2 ^ 31 \<le> int sz" using assms(3,4) by (simp_all add: sz sz_def [symmetric])
  have key: "des_key key = Inr (des_main_ks key)" by (simp add: des_key_def assms(1))
  have push: "map_option Inr (lua_pushlstring plain (sz - k)) = Some (Inr (take (length plain - k) plain))" for k
    by (simp add: lua_pushlstring_def lp)
  show ?thesis
    unfolding ldesdecode_def key sum.case Let_def sz_def [symmetric] cap_def [symmetric] SK_def [symmetric] bl Option.bind.bind_lunit prod.case push
    using ok lp by simp
qed

lemma known_mode: "mode = PADDING_MODE_ISO7816_4 \<or> mode = PADDING_MODE_PKCS7 \<Longrightarrow> check_padding_mode mode"
  by (auto simp: check_padding_mode_def PADDING_MODE_ISO7816_4_def PADDING_MODE_PKCS7_def PADDING_MODE_COUNT_def)

lemma length_pad_of: "length pre < 8 \<Longrightarrow> length (pad_of mode pre) = 8"
  by (simp add: pad_of_def)

lemma take_pad_of: "length pre < 8 \<Longrightarrow> take (length pre) (pad_of mode pre) = pre"
  by (simp add: pad_of_def padding_add_iso7816_4_def padding_add_pkcs7_def)

subsection \<open>A published example\<close>

text \<open>
  The tables, the key schedule and the block function give the result of the worked example that
  is published for the standard.
\<close>

definition example_keys :: "u32 list" where
  "example_keys =
    [0x302f0732, 0x060b3f01, 0x1a193c25, 0x1e3b3627, 0x1f0a2c19, 0x1532103e, 0x2a16331d, 0x1c373614,
     0x0e073528, 0x1f303a0e, 0x3a3e072f, 0x1814142c, 0x0837213c, 0x3b123d22, 0x383a133b, 0x3d28302f,
     0x0d2b1e01, 0x382f3b1e, 0x1f07240f, 0x2c0d2e19, 0x15132d06, 0x083f370e, 0x17350629, 0x1d07251f,
     0x3c112b01, 0x25173e29, 0x34372e3a, 0x170e3c1c, 0x390d130a, 0x2f060f3c, 0x330b2135, 0x3236031f]"

lemma ks_loop_step:
  "ks_loop (i # is) X Y =
     ks_word0 (ks_shift i X) (ks_shift i Y) # ks_word1 (ks_shift i X) (ks_shift i Y) # ks_loop is (ks_shift i X) (ks_shift i Y)"
  by (simp only: ks_loop.simps Let_def)

lemma example_key_schedule: "des_main_ks [0x13, 0x34, 0x57, 0x79, 0x9B, 0xBC, 0xDF, 0xF1] = example_keys"
proof -
  have upt: "[0..<16] = [0, 1, 2, 3, 4, 5, 6, 7, 8, 9, 10, 11, 12, 13, 14, 15 :: nat]" by (simp add: upt_conv_Cons)
  have "des_main_ks [0x13, 0x34, 0x57, 0x79, 0x9B, 0xBC, 0xDF, 0xF1] = ks_loop [0..<16] 252496559 89548687"
    by (simp add: des_main_ks_def GET_UINT32_def LHs_def RHs_def)
  also have "\<dots> = example_keys"
    by (simp only: upt) (simp del: ks_loop.simps(2) add: ks_loop_step ks_shift_def ks_word0_def ks_word1_def example_keys_def)
  finally show ?thesis .
qed

lemma example_round:
  "DES_ROUND 0x302f0732 0x060b3f01 0xe155e155 0x980199ff = 0xde94ca89"
  "DES_ROUND 0x1a193c25 0x1e3b3627 0xde94ca89 0xe155e155 = 0x9802ee13"
  "DES_ROUND 0x1f0a2c19 0x1532103e 0x9802ee13 0xde94ca89 = 0x44b817e9"
  "DES_ROUND 0x2a16331d 0x1c373614 0x44b817e9 0x9802ee13 = 0xee44008a"
  "DES_ROUND 0x0e073528 0x1f303a0e 0xee44008a 0x44b817e9 = 0x149f4c6f"
  "DES_ROUND 0x3a3e072f 0x1814142c 0x149f4c6f 0xee44008a = 0xd2cf9ad3"
  "DES_ROUND 0x0837213c 0x3b123d22 0xd2cf9ad3 0x149f4c6f = 0x0c957420"
  "DES_ROUND 0x383a133b 0x3d28302f 0x0c957420 0xd2cf9ad3 = 0xaad29721"
  "DES_ROUND 0x0d2b1e01 0x382f3b1e 0xaad29721 0x0c957420 = 0x48f98cf4"
  "DES_ROUND 0x1f07240f 0x2c0d2e19 0x48f98cf4 0xaad29721 = 0x6fabaf65"
  "DES_ROUND 0x15132d06 0x083f370e 0x6fabaf65 0x48f98cf4 = 0x8af078f1"
  "DES_ROUND 0x17350629 0x1d07251f 0x8af078f1 0x6fabaf65 = 0xeb7a30b0"
  "DES_ROUND 0x3c112b01 0x25173e29 0xeb7a30b0 0x8af078f1 = 0x31862ab4"
  "DES_ROUND 0x34372e3a 0x170e3c1c 0x31862ab4 0xeb7a30b0 = 0x85192c1b"
  "DES_ROUND 0x390d130a 0x2f060f3c 0x85192c1b 0x31862ab4 = 0x86846468"
  "DES_ROUND 0x330b2135 0x3236031f 0x86846468 0x85192c1b = 0x1499b32a"
  by (simp_all add: DES_ROUND_def SB1_def SB2_def SB3_def SB4_def SB5_def SB6_def SB7_def SB8_def)

lemma example_rounds: "des_rounds example_keys (0x980199ff, 0xe155e155) = (0x86846468, 0x1499b32a)"
  by (simp only: example_keys_def des_rounds.simps Let_def example_round)

lemma des_known_answer:
  "des_crypt (des_main_ks [0x13, 0x34, 0x57, 0x79, 0x9B, 0xBC, 0xDF, 0xF1]) [0x01, 0x23, 0x45, 0x67, 0x89, 0xAB, 0xCD, 0xEF] =
     [0x85, 0xE8, 0x13, 0x54, 0x0F, 0x0A, 0xB4, 0x05]"
proof -
  have "DES_IP (GET_UINT32 [0x01, 0x23, 0x45, 0x67, 0x89, 0xAB, 0xCD, 0xEF] 0, GET_UINT32 [0x01, 0x23, 0x45, 0x67, 0x89, 0xAB, 0xCD, 0xEF] 4) = (0x980199ff, 0xe155e155)"
    by (simp add: DES_IP_def GET_UINT32_def des_swap_def)
  then show ?thesis
    unfolding example_key_schedule des_crypt_def by (simp add: example_rounds) (simp add: DES_FP_def des_swap_def PUT_UINT32_def)
qed

subsection \<open>Properties\<close>

text \<open>
  C25. Decryption undoes encryption: with a key of 8 bytes and one of the two padding modes, every
  text whose padded length fits an \<open>int\<close> is encrypted without error or access outside a buffer to
  the next multiple of 8 bytes, and \<open>desdecode\<close> with the same key and mode returns exactly the text.
\<close>

theorem des_roundtrip:
  assumes "length key = 8" "mode = PADDING_MODE_ISO7816_4 \<or> mode = PADDING_MODE_PKCS7" "length tx + 8 < 2 ^ 31"
  shows "\<exists>c. ldesencode key tx mode = Some (Inr c) \<and> length c = (length tx div 8 + 1) * 8 \<and>
    ldesdecode key c mode = Some (Inr tx)"
proof -
  define SK where "SK = des_main_ks key"
  obtain bs t where t: "tx = concat bs @ t" "\<forall>b \<in> set bs. length b = 8" "length t < 8" using split_blocks [of tx] by blast
  define cs where "cs = map (des_crypt SK) (bs @ [pad_of mode t])"
  have mode: "check_padding_mode mode" using assms(2) by (rule known_mode)
  have lt: "length tx = 8 * length bs + length t" using length_blocks [OF t(2)] t(1) by simp
  have enc: "ldesencode key tx mode = Some (Inr (concat cs))"
    unfolding cs_def SK_def t(1) by (rule ldesencode_blocks) (use assms t mode in simp_all)
  have cs: "\<forall>b \<in> set cs. length b = 8" "cs \<noteq> []" by (auto simp: cs_def)
  have lc: "length (concat cs) = 8 * length bs + 8" using length_blocks [OF cs(1)] by (simp add: cs_def)
  have "map (des_crypt (decode_key SK)) cs = bs @ [pad_of mode t]"
    unfolding cs_def map_map using t(2,3) by (intro map_idI) (auto simp: des_crypt_back SK_def length_pad_of)
  then have plain: "concat (map (des_crypt (decode_key SK)) cs) = concat bs @ pad_of mode t" by simp
  have "length (concat cs) < 2 ^ 31" using assms(3) lc lt by simp
  then have "ldesdecode key (concat cs) mode =
      Some (Inr (take (length (concat bs @ pad_of mode t) - nat (int (8 - length t))) (concat bs @ pad_of mode t)))"
    using ldesdecode_blocks [OF assms(1) cs, unfolded SK_def [symmetric] plain, of mode] remove_pad_of [OF mode t(3), of "concat bs"] t(3)
    by simp
  also have "\<dots> = Some (Inr tx)" using t take_pad_of [of t mode] by (simp add: length_pad_of nat_diff_distrib)
  finally have "ldesdecode key (concat cs) mode = Some (Inr tx)" .
  moreover have "(length tx div 8 + 1) * 8 = length (concat cs)"
  proof -
    have "length tx div 8 = length bs" unfolding lt using t(3) by (intro div_nat_eqI) simp_all
    then show ?thesis by (simp add: lc)
  qed
  ultimately show ?thesis using enc by simp
qed

theorem des_roundtrip_witness:
  "\<exists>c. ldesencode [0x13, 0x34, 0x57, 0x79, 0x9B, 0xBC, 0xDF, 0xF1] [0x68, 0x65, 0x6C, 0x6C, 0x6F] PADDING_MODE_PKCS7 = Some (Inr c) \<and>
     length c = 8 \<and>
     ldesdecode [0x13, 0x34, 0x57, 0x79, 0x9B, 0xBC, 0xDF, 0xF1] c PADDING_MODE_PKCS7 = Some (Inr [0x68, 0x65, 0x6C, 0x6C, 0x6F])"
  using des_roundtrip [of "[0x13, 0x34, 0x57, 0x79, 0x9B, 0xBC, 0xDF, 0xF1]" PADDING_MODE_PKCS7 "[0x68, 0x65, 0x6C, 0x6C, 0x6F]"]
  by simp

text \<open>
  C29. \<open>padding_remove_pkcs7\<close> trusts the last byte before it checks it: for every key there is a
  text of 8 bytes for which \<open>desdecode\<close> in the PKCS7 mode reads before the start of its buffer.
\<close>

theorem pkcs7_reads_before_buffer:
  assumes "length key = 8"
  shows "\<exists>c. length c = 8 \<and> ldesdecode key c PADDING_MODE_PKCS7 = None"
proof -
  define nines where "nines = replicate 8 (9 :: u8)"
  define c where "c = des_crypt (des_main_ks key) nines"
  have ln: "length nines = 8" by (simp add: nines_def)
  have lc: "length c = 8" by (simp add: c_def)
  have dec: "des_crypt (decode_key (des_main_ks key)) c = nines"
    unfolding c_def by (rule des_crypt_back) (simp_all add: ln)
  have "remove_pkcs7_loop 8 9 [9, 9, 9, 9, 9, 9, 9] = None" by (simp add: numeral_eq_Suc)
  then have "remove_padding (rev nines) PADDING_MODE_PKCS7 = None"
    by (simp add: nines_def remove_padding_def check_padding_mode_def padding_remove_pkcs7_def PADDING_MODE_PKCS7_def
        PADDING_MODE_ISO7816_4_def PADDING_MODE_COUNT_def replicate_numeral_eq)
  then have "ldesdecode key (concat [c]) PADDING_MODE_PKCS7 = None"
    by (subst ldesdecode_blocks) (simp_all add: assms dec lc)
  then show ?thesis by (intro exI [of _ c]) (simp add: lc)
qed

theorem pkcs7_reads_before_buffer_witness:
  "\<exists>c. length c = 8 \<and> ldesdecode [1, 2, 3, 4, 5, 6, 7, 8] c PADDING_MODE_PKCS7 = None"
  by (rule pkcs7_reads_before_buffer) simp

end
