(* ===== verification/Skynet_Crypt.thy ===== *)
theory Skynet_Crypt
  imports Skynet_DES
begin

text \<open>
  The rest of \<^verbatim>\<open>lualib-src/lua-crypt.c\<close>: the key hash, hexadecimal and base64 text, the
  authentication codes on top of MD5 and the Diffie-Hellman exchange.

  As in \<open>Skynet_DES\<close>, \<open>Inl\<close> is a Lua error and \<open>None\<close> an access outside a buffer, an overflow of an
  \<open>int\<close> size, or a recursion without end.
\<close>

subsection \<open>Words and bytes\<close>

text \<open>\<open>x[0] | x[1]<<8 | x[2]<<16 | x[3]<<24\<close> from position \<open>i\<close>, and the four bytes of a word.\<close>

definition le32 :: "bytes \<Rightarrow> nat \<Rightarrow> u32" where
  "le32 x i = ucast (x ! i) OR push_bit 8 (ucast (x ! (i + 1))) OR push_bit 16 (ucast (x ! (i + 2))) OR
     push_bit 24 (ucast (x ! (i + 3)))"

definition le32_bytes :: "u32 \<Rightarrow> bytes" where
  "le32_bytes w = [ucast (w AND 0xff), ucast (drop_bit 8 w AND 0xff), ucast (drop_bit 16 w AND 0xff), ucast (drop_bit 24 w AND 0xff)]"

subsection \<open>Random keys and the hash of a key\<close>

text \<open>The argument holds the eight results of \<open>random()\<close>.\<close>

definition lrandomkey :: "u32 list \<Rightarrow> bytes" where
  "lrandomkey rnd =
     (let tmp = map (\<lambda>r. ucast (r AND 0xff)) rnd; x = foldl (XOR) 0 tmp
      in if x = 0 then tmp[0 := tmp ! 0 OR 1] else tmp)"

definition hash_step :: "u32 \<times> u32 \<Rightarrow> u8 \<Rightarrow> u32 \<times> u32" where
  "hash_step = (\<lambda>(djb_hash, js_hash) c.
     (djb_hash + (push_bit 5 djb_hash + ucast c),
      js_hash XOR (push_bit 5 js_hash + ucast c + drop_bit 2 js_hash)))"

definition Hash :: "bytes \<Rightarrow> bytes" where
  "Hash str = (let (djb_hash, js_hash) = foldl hash_step (5381, 1315423911) str in le32_bytes djb_hash @ le32_bytes js_hash)"

definition lhashkey :: "bytes \<Rightarrow> bytes" where
  "lhashkey key = Hash key"

subsection \<open>Hexadecimal text\<close>

definition hex_digits :: bytes where
  "hex_digits = map of_char ''0123456789abcdef''"

definition ltohex :: "bytes \<Rightarrow> bytes option" where
  "ltohex tx =
     (let sz = length tx; cap = (if sz > SMALL_CHUNK div 2 then sz * 2 else SMALL_CHUNK)
      in if int sz \<ge> 2 ^ 31 then None
         else do {
           buffer \<leftarrow> buf_put cap [] (concat (map (\<lambda>b. [hex_digits ! unat (drop_bit 4 b), hex_digits ! unat (b AND 0xf)]) tx));
           lua_pushlstring buffer (sz * 2) })"

definition HEX :: "u8 \<Rightarrow> u8" where
  "HEX c = (if of_char CHR ''0'' \<le> c \<and> c \<le> of_char CHR ''9'' then c - of_char CHR ''0'' else c - of_char CHR ''a'' + 10)"

fun fromhex_loop :: "nat \<Rightarrow> bytes \<Rightarrow> bytes \<Rightarrow> (crypt_error + bytes) option" where
  "fromhex_loop cap (a # b # tx) buffer =
     (let hi = HEX a; low = HEX b
      in if hi > 16 \<or> low > 16 then Some (Inl Invalid_hex)
         else Option.bind (buf_put cap buffer [push_bit 4 hi OR low]) (fromhex_loop cap tx))"
| "fromhex_loop cap _ buffer = Some (Inr buffer)"

definition lfromhex :: "bytes \<Rightarrow> (crypt_error + bytes) option" where
  "lfromhex tx =
     (let sz = length tx; cap = (if sz > SMALL_CHUNK * 2 then sz div 2 else SMALL_CHUNK)
      in if odd sz then Some (Inl Invalid_hex_size)
         else if int sz \<ge> 2 ^ 31 then None
         else fromhex_loop cap tx [])"

subsection \<open>Authentication codes\<close>

definition md5_k :: "u32 list" where
  "md5_k =
    [0xd76aa478, 0xe8c7b756, 0x242070db, 0xc1bdceee, 0xf57c0faf, 0x4787c62a, 0xa8304613, 0xfd469501,
     0x698098d8, 0x8b44f7af, 0xffff5bb1, 0x895cd7be, 0x6b901122, 0xfd987193, 0xa679438e, 0x49b40821,
     0xf61e2562, 0xc040b340, 0x265e5a51, 0xe9b6c7aa, 0xd62f105d, 0x02441453, 0xd8a1e681, 0xe7d3fbc8,
     0x21e1cde6, 0xc33707d6, 0xf4d50d87, 0x455a14ed, 0xa9e3e905, 0xfcefa3f8, 0x676f02d9, 0x8d2a4c8a,
     0xfffa3942, 0x8771f681, 0x6d9d6122, 0xfde5380c, 0xa4beea44, 0x4bdecfa9, 0xf6bb4b60, 0xbebfbc70,
     0x289b7ec6, 0xeaa127fa, 0xd4ef3085, 0x04881d05, 0xd9d4d039, 0xe6db99e5, 0x1fa27cf8, 0xc4ac5665,
     0xf4292244, 0x432aff97, 0xab9423a7, 0xfc93a039, 0x655b59c3, 0x8f0ccc92, 0xffeff47d, 0x85845dd1,
     0x6fa87e4f, 0xfe2ce6e0, 0xa3014314, 0x4e0811a1, 0xf7537e82, 0xbd3af235, 0x2ad7d2bb, 0xeb86d391]"

definition md5_r :: "nat list" where
  "md5_r =
    [7, 12, 17, 22, 7, 12, 17, 22, 7, 12, 17, 22, 7, 12, 17, 22,
     5, 9, 14, 20, 5, 9, 14, 20, 5, 9, 14, 20, 5, 9, 14, 20,
     4, 11, 16, 23, 4, 11, 16, 23, 4, 11, 16, 23, 4, 11, 16, 23,
     6, 10, 15, 21, 6, 10, 15, 21, 6, 10, 15, 21, 6, 10, 15, 21]"

definition LEFTROTATE :: "u32 \<Rightarrow> nat \<Rightarrow> u32" where
  "LEFTROTATE x c = push_bit c x OR drop_bit (32 - c) x"

definition md5_step :: "u32 list \<Rightarrow> u32 \<times> u32 \<times> u32 \<times> u32 \<Rightarrow> nat \<Rightarrow> u32 \<times> u32 \<times> u32 \<times> u32" where
  "md5_step w = (\<lambda>(a, b, c, d) i.
     let (f, g) =
       (if i < 16 then ((b AND c) OR (NOT b AND d), i)
        else if i < 32 then ((d AND b) OR (NOT d AND c), (5 * i + 1) mod 16)
        else if i < 48 then (b XOR c XOR d, (3 * i + 5) mod 16)
        else (c XOR (b OR NOT d), (7 * i) mod 16))
     in (d, b + LEFTROTATE (a + f + md5_k ! i + w ! g) (md5_r ! i), b, c))"

definition digest_md5 :: "u32 list \<Rightarrow> u32 \<times> u32 \<times> u32 \<times> u32" where
  "digest_md5 w = foldl (md5_step w) (0x67452301, 0xefcdab89, 0x98badcfe, 0x10325476) [0..<64]"

definition hmac :: "u32 \<times> u32 \<Rightarrow> u32 \<times> u32 \<Rightarrow> u32 \<times> u32" where
  "hmac = (\<lambda>(x0, x1) (y0, y1).
     let (r0, r1, r2, r3) = digest_md5 (concat (replicate 4 [x1, x0, y1, y0])) in (r2 XOR r3, r0 XOR r1))"

definition hmac_md5 :: "u32 \<times> u32 \<Rightarrow> u32 \<times> u32 \<Rightarrow> u32 \<times> u32" where
  "hmac_md5 = (\<lambda>(x0, x1) (y0, y1).
     let (r0, r1, r2, r3) = digest_md5 (concat (replicate 3 [x0, x1, y0, y1]) @ [0x80, 0, 384, 0])
     in ((r0 + 0x67452301) XOR (r2 + 0x98badcfe), (r1 + 0xefcdab89) XOR (r3 + 0x10325476)))"

definition read64 :: "bytes \<Rightarrow> bytes \<Rightarrow> crypt_error + (u32 \<times> u32) \<times> (u32 \<times> u32)" where
  "read64 x y =
     (if length x \<noteq> 8 then Inl Invalid_uint64
      else if length y \<noteq> 8 then Inl Invalid_uint64
      else Inr ((le32 x 0, le32 x 4), (le32 y 0, le32 y 4)))"

definition pushqword :: "u32 \<times> u32 \<Rightarrow> bytes" where
  "pushqword = (\<lambda>(r0, r1). le32_bytes r0 @ le32_bytes r1)"

definition lhmac64 :: "bytes \<Rightarrow> bytes \<Rightarrow> crypt_error + bytes" where
  "lhmac64 a b = map_sum id (\<lambda>(x, y). pushqword (hmac x y)) (read64 a b)"

definition lhmac64_md5 :: "bytes \<Rightarrow> bytes \<Rightarrow> crypt_error + bytes" where
  "lhmac64_md5 a b = map_sum id (\<lambda>(x, y). pushqword (hmac_md5 x y)) (read64 a b)"

definition lhmac_hash :: "bytes \<Rightarrow> bytes \<Rightarrow> crypt_error + bytes" where
  "lhmac_hash x tx =
     (if length x \<noteq> 8 then Inl Invalid_uint64
      else let h = Hash tx
           in Inr (pushqword (hmac (le32 h 0, le32 h 4) (le32 x 0, le32 x 4))))"

definition lxor_str :: "bytes \<Rightarrow> bytes \<Rightarrow> crypt_error + bytes" where
  "lxor_str s1 s2 =
     (if length s2 = 0 then Inl Empty_xor
      else Inr (map (\<lambda>i. s1 ! i XOR s2 ! (i mod length s2)) [0..<length s1]))"

subsection \<open>Diffie-Hellman exchange\<close>

definition dh_P :: u64 where
  "dh_P = 0xffffffffffffffc5"

function mul_mod_loop :: "u64 \<Rightarrow> u64 \<Rightarrow> u64 \<Rightarrow> u64" where
  "mul_mod_loop a b m =
     (if b = 0 then m
      else
        let m = (if b AND 1 \<noteq> 0 then let t = dh_P - a in if m \<ge> t then m - t else m + a else m);
            a = (if a \<ge> dh_P - a then a * 2 - dh_P else a * 2)
        in mul_mod_loop a (drop_bit 1 b) m)"
  by pat_completeness auto
termination
proof (relation "measure (\<lambda>(a, b, m). unat b)")
  show "((a', drop_bit 1 b, m'), (a, b, m)) \<in> measure (\<lambda>(a, b, m). unat b)" if "b \<noteq> 0" for a a' b m m' :: u64
    using that by (simp add: unat_drop_bit unat_gt_0)
qed simp

definition mul_mod_p :: "u64 \<Rightarrow> u64 \<Rightarrow> u64" where
  "mul_mod_p a b = mul_mod_loop a b 0"

partial_function (option) pow_mod_p :: "u64 \<Rightarrow> u64 \<Rightarrow> u64 option" where
  "pow_mod_p a b =
     (if b = 1 then Some a
      else Option.bind (pow_mod_p a (drop_bit 1 b)) (\<lambda>t.
        let t = mul_mod_p t t
        in Some (if b mod 2 \<noteq> 0 then mul_mod_p t a else t)))"

declare pow_mod_p.simps [code]

definition powmodp :: "u64 \<Rightarrow> u64 \<Rightarrow> u64 option" where
  "powmodp a b = (let a = (if a > dh_P then a mod dh_P else a) in pow_mod_p a b)"

definition push64 :: "u64 \<Rightarrow> bytes" where
  "push64 r = map (\<lambda>i. ucast (drop_bit (8 * i) r AND 0xff)) [0..<8]"

definition join64 :: "u32 \<times> u32 \<Rightarrow> u64" where
  "join64 = (\<lambda>(x0, x1). ucast x0 OR push_bit 32 (ucast x1))"

definition ldhsecret :: "bytes \<Rightarrow> bytes \<Rightarrow> (crypt_error + bytes) option" where
  "ldhsecret a b =
     (case read64 a b of
        Inl e \<Rightarrow> Some (Inl e)
      | Inr (x, y) \<Rightarrow>
          let xx = join64 x; yy = join64 y
          in if xx = 0 \<or> yy = 0 then Some (Inl Cant_be_0)
             else map_option (\<lambda>r. Inr (push64 r)) (powmodp xx yy))"

definition dh_G :: u64 where
  "dh_G = 5"

definition ldhexchange :: "bytes \<Rightarrow> (crypt_error + bytes) option" where
  "ldhexchange x =
     (if length x \<noteq> 8 then Some (Inl Invalid_uint64)
      else let x64 = join64 (le32 x 0, le32 x 4)
           in if x64 = 0 then Some (Inl Cant_be_0)
              else map_option (\<lambda>r. Inr (push64 r)) (powmodp dh_G x64))"

subsection \<open>Base64\<close>

definition b64_encoding :: bytes where
  "b64_encoding = map of_char ''ABCDEFGHIJKLMNOPQRSTUVWXYZabcdefghijklmnopqrstuvwxyz0123456789+/''"

fun b64_encode :: "bytes \<Rightarrow> bytes" where
  "b64_encode (a # b # c # tx) =
     (let v = push_bit 16 (ucast a) OR push_bit 8 (ucast b) OR ucast c :: u32
      in [b64_encoding ! unat (drop_bit 18 v), b64_encoding ! unat (drop_bit 12 v AND 0x3f),
          b64_encoding ! unat (drop_bit 6 v AND 0x3f), b64_encoding ! unat (v AND 0x3f)] @ b64_encode tx)"
| "b64_encode [a, b] =
     (let v = push_bit 8 (ucast a) OR ucast b :: u32
      in [b64_encoding ! unat (drop_bit 10 v), b64_encoding ! unat (drop_bit 4 v AND 0x3f),
          b64_encoding ! unat (push_bit 2 (v AND 0xf)), of_char CHR ''='']) "
| "b64_encode [a] =
     (let v = ucast a :: u32
      in [b64_encoding ! unat (drop_bit 2 v), b64_encoding ! unat (push_bit 4 (v AND 3)), of_char CHR ''='', of_char CHR ''=''])"
| "b64_encode [] = []"

definition lb64encode :: "bytes \<Rightarrow> bytes option" where
  "lb64encode tx =
     (let encode_sz = (length tx + 2) div 3 * 4; cap = (if encode_sz > SMALL_CHUNK then encode_sz else SMALL_CHUNK)
      in if int encode_sz \<ge> 2 ^ 31 then None
         else do {
           buffer \<leftarrow> buf_put cap [] (b64_encode tx);
           lua_pushlstring buffer encode_sz })"

definition b64_decoding :: "int list" where
  "b64_decoding =
    [62, - 1, - 1, - 1, 63, 52, 53, 54, 55, 56, 57, 58, 59, 60, 61, - 1, - 1, - 1, - 2, - 1,
     - 1, - 1, 0, 1, 2, 3, 4, 5, 6, 7, 8, 9, 10, 11, 12, 13, 14, 15, 16, 17,
     18, 19, 20, 21, 22, 23, 24, 25, - 1, - 1, - 1, - 1, - 1, - 1, 26, 27, 28, 29, 30, 31,
     32, 33, 34, 35, 36, 37, 38, 39, 40, 41, 42, 43, 44, 45, 46, 47, 48, 49, 50, 51]"

definition b64index :: "u8 \<Rightarrow> int" where
  "b64index c =
     (if c < 43 then - 1
      else let c = c - 43 in if unat c \<ge> length b64_decoding then - 1 else b64_decoding ! unat c)"

text \<open>The inner loop: the next \<open>n\<close> characters of the alphabet or \<open>=\<close>, other characters are skipped.\<close>

fun b64_read :: "nat \<Rightarrow> bytes \<Rightarrow> (int list \<times> bytes) option" where
  "b64_read 0 tx = Some ([], tx)"
| "b64_read (Suc n) [] = None"
| "b64_read (Suc n) (b # tx) =
     (let c = b64index b
      in if c = - 1 then b64_read (Suc n) tx
         else map_option (\<lambda>(cs, tx). (c # cs, tx)) (b64_read n tx))"

definition b64_group :: "int list \<Rightarrow> crypt_error + bytes" where
  "b64_group c =
     (let padding = length (filter (\<lambda>x. x = - 2) c); u = (\<lambda>j. word_of_int (c ! j) :: u32)
      in if padding = 0 then
           let v = push_bit 18 (u 0) OR push_bit 12 (u 1) OR push_bit 6 (u 2) OR u 3
           in Inr [ucast (drop_bit 16 v), ucast (drop_bit 8 v AND 0xff), ucast (v AND 0xff)]
         else if padding = 1 then
           (if c ! 3 \<noteq> - 2 \<or> u 2 AND 3 \<noteq> 0 then Inl Invalid_base64
            else let v = push_bit 10 (u 0) OR push_bit 4 (u 1) OR drop_bit 2 (u 2)
                 in Inr [ucast (drop_bit 8 v), ucast (v AND 0xff)])
         else if padding = 2 then
           (if c ! 3 \<noteq> - 2 \<or> c ! 2 \<noteq> - 2 \<or> u 1 AND 0xf \<noteq> 0 then Inl Invalid_base64
            else let v = push_bit 2 (u 0) OR drop_bit 4 (u 1) in Inr [ucast v])
         else Inl Invalid_base64)"

lemma b64_read_shorter: "b64_read n tx = Some (cs, rest) \<Longrightarrow> length rest + n \<le> length tx"
proof (induction n tx arbitrary: cs rest rule: b64_read.induct)
  case (3 n b tx)
  then show ?case by (auto simp: Let_def split: if_splits) fastforce+
qed simp_all

function b64_decode :: "nat \<Rightarrow> bytes \<Rightarrow> bytes \<Rightarrow> (crypt_error + bytes) option" where
  "b64_decode cap tx buffer =
     (if tx = [] then Some (Inr buffer)
      else case b64_read 4 tx of
          None \<Rightarrow> Some (Inl Invalid_base64)
        | Some (c, tx) \<Rightarrow>
            (case b64_group c of
               Inl e \<Rightarrow> Some (Inl e)
             | Inr bs \<Rightarrow> Option.bind (buf_put cap buffer bs) (b64_decode cap tx)))"
  by pat_completeness auto
termination
  by (relation "measure (\<lambda>(cap, tx, buffer). length tx)") (auto dest: b64_read_shorter)

definition lb64decode :: "bytes \<Rightarrow> (crypt_error + bytes) option" where
  "lb64decode tx =
     (let decode_sz = (length tx + 3) div 4 * 3; cap = (if decode_sz > SMALL_CHUNK then decode_sz else SMALL_CHUNK)
      in if int (length tx) \<ge> 2 ^ 31 then None else b64_decode cap tx [])"

declare b64_decode.simps [simp del] mul_mod_loop.simps [simp del]

subsection \<open>Hexadecimal text is a round trip\<close>

lemma hex_digit_back: "n < 16 \<Longrightarrow> HEX (hex_digits ! n) = word_of_nat n"
proof -
  have "\<forall>n \<in> set [0..<16]. HEX (hex_digits ! n) = word_of_nat n"
    by code_simp
  then show "n < 16 \<Longrightarrow> HEX (hex_digits ! n) = word_of_nat n" by simp
qed

lemma byte_halves:
  "unat (drop_bit 4 (b :: u8)) < 16" "unat (b AND 0xf) < 16"
  "push_bit 4 (word_of_nat (unat (drop_bit 4 b)) :: u8) OR word_of_nat (unat (b AND 0xf)) = b"
proof -
  have 2: "unat (b AND 0xf) = unat b mod 16" using and_exp_minus_1 [of b 4] by simp
  have "unat b < 256" using unsigned_less [of b, where ?'a = nat] by simp
  then show "unat (drop_bit 4 b) < 16" "unat (b AND 0xf) < 16" by (simp_all add: 2 unat_drop_bit less_mult_imp_div_less)
  show "push_bit 4 (word_of_nat (unat (drop_bit 4 b)) :: u8) OR word_of_nat (unat (b AND 0xf)) = b"
  proof -
    have "b AND 0xf = take_bit 4 b" by (simp add: take_bit_eq_mask mask_eq_exp_minus_1)
    moreover have "push_bit 4 (drop_bit 4 b) OR take_bit 4 b = b" by (rule bit_word_eqI) (auto simp: bit_simps)
    ultimately show ?thesis by simp
  qed
qed

lemma fromhex_tohex:
  "length buf + length tx \<le> cap \<Longrightarrow>
     fromhex_loop cap (concat (map (\<lambda>b. [hex_digits ! unat (drop_bit 4 b), hex_digits ! unat (b AND 0xf)]) tx)) buf = Some (Inr (buf @ tx))"
proof (induction tx arbitrary: buf)
  case (Cons b tx)
  have small: "\<not> (16 :: u8) < word_of_nat n" if "n < 16" for n
    using that by (simp add: word_less_nat_alt unat_of_nat)
  have "fromhex_loop cap (concat (map (\<lambda>b. [hex_digits ! unat (drop_bit 4 b), hex_digits ! unat (b AND 0xf)]) (b # tx))) buf =
    Option.bind (buf_put cap buf [b])
      (fromhex_loop cap (concat (map (\<lambda>b. [hex_digits ! unat (drop_bit 4 b), hex_digits ! unat (b AND 0xf)]) tx)))"
    using hex_digit_back [OF byte_halves(1) [of b]] hex_digit_back [OF byte_halves(2) [of b]]
      small [OF byte_halves(1) [of b]] small [OF byte_halves(2) [of b]] byte_halves(3) [of b]
    by (simp only: list.map concat.simps append.simps fromhex_loop.simps Let_def) simp
  also have "buf_put cap buf [b] = Some (buf @ [b])" using Cons.prems by (simp add: buf_put_def)
  finally show ?case using Cons.IH [of "buf @ [b]"] Cons.prems by simp
qed simp

lemma hex_roundtrip:
  assumes "2 * length tx < 2 ^ 31"
  shows "\<exists>h. ltohex tx = Some h \<and> length h = 2 * length tx \<and> lfromhex h = Some (Inr tx)"
proof -
  define h where "h = concat (map (\<lambda>b. [hex_digits ! unat (drop_bit 4 b), hex_digits ! unat (b AND 0xf)]) tx)"
  have lh: "length h = 2 * length tx" unfolding h_def by (induction tx) simp_all
  have "int (length tx) < 2 ^ 31" "int (2 * length tx) < 2 ^ 31" using assms by simp_all
  then have "ltohex tx = Some h"
    by (simp add: ltohex_def Let_def h_def [symmetric] buf_put_def lh lua_pushlstring_def SMALL_CHUNK_def)
  moreover have "lfromhex h = Some (Inr tx)"
    using fromhex_tohex [of "[]" tx] \<open>int (2 * length tx) < 2 ^ 31\<close>
    by (simp add: lfromhex_def Let_def lh h_def [symmetric] SMALL_CHUNK_def)
  ultimately show ?thesis using lh by blast
qed

lemma hex_accepts_g: "HEX (of_char CHR ''g'') = 16" "lfromhex [of_char CHR ''0'', of_char CHR ''g''] = Some (Inr [16])"
  by (simp_all add: HEX_def lfromhex_def Let_def buf_put_def SMALL_CHUNK_def)

subsection \<open>Groups of base64\<close>

lemma b64index_back: "n < 64 \<Longrightarrow> b64index (b64_encoding ! n) = int n"
proof -
  have "\<forall>n \<in> set [0..<64]. b64index (b64_encoding ! n) = int n"
    by code_simp
  then show "n < 64 \<Longrightarrow> b64index (b64_encoding ! n) = int n" by simp
qed

lemma b64index_pad: "b64index (of_char CHR ''='') = - 2"
  by code_simp

lemma mask6: "(0x3f :: u32) = mask 6" "(0xf :: u32) = mask 4" "(3 :: u32) = mask 2" "(0xff :: u32) = mask 8"
  by (simp_all add: mask_eq_exp_minus_1)

lemma b64_four: "push_bit 18 (drop_bit 18 v) OR push_bit 12 (drop_bit 12 v AND 0x3f) OR push_bit 6 (drop_bit 6 v AND 0x3f) OR (v AND 0x3f) = (v :: u32)"
  unfolding mask6 take_bit_eq_mask [symmetric]
  by (rule bit_word_eqI, rename_tac n, case_tac "n < 6"; case_tac "n < 12"; case_tac "n < 18") (auto simp: bit_simps)

lemma b64_three: "push_bit 10 (drop_bit 10 v) OR push_bit 4 (drop_bit 4 v AND 0x3f) OR drop_bit 2 (push_bit 2 (v AND 0xf)) = (v :: u32)"
  unfolding mask6 take_bit_eq_mask [symmetric]
  by (rule bit_word_eqI, rename_tac n, case_tac "n < 4"; case_tac "n < 10") (auto simp: bit_simps)

lemma Suc_Suc_minus_2: "\<not> n < 2 \<Longrightarrow> Suc (Suc (n - 2)) = n"
  by simp

lemma b64_two: "push_bit 2 (drop_bit 2 v) OR drop_bit 4 (push_bit 4 (v AND 3)) = (v :: u32)"
  unfolding mask6 take_bit_eq_mask [symmetric]
  by (rule bit_word_eqI, rename_tac n, case_tac "n < 2") (auto simp: bit_simps Suc_Suc_minus_2)

lemma unat_bits: "(\<And>n. bit x n \<Longrightarrow> n < k) \<Longrightarrow> unat (x :: u32) < 2 ^ k"
proof -
  assume "\<And>n. bit x n \<Longrightarrow> n < k"
  then have "take_bit k x = x" by (intro bit_word_eqI) (auto simp: bit_simps)
  then have "unat x mod 2 ^ k = unat x" by (metis take_bit_eq_mod unsigned_take_bit_eq)
  then show ?thesis by (metis mod_less_divisor zero_less_numeral zero_less_power)
qed

lemma b64_less: "unat (x AND 0x3f :: u32) < 64" "unat (push_bit 2 (x AND 0xf) :: u32) < 64" "unat (push_bit 4 (x AND 3) :: u32) < 64"
proof -
  have "unat (take_bit 6 x) < 2 ^ 6" "unat (push_bit 2 (take_bit 4 x)) < 2 ^ 6" "unat (push_bit 4 (take_bit 2 x)) < 2 ^ 6"
    by (rule unat_bits; auto simp: bit_simps)+
  then show "unat (x AND 0x3f :: u32) < 64" "unat (push_bit 2 (x AND 0xf) :: u32) < 64" "unat (push_bit 4 (x AND 3) :: u32) < 64"
    unfolding mask6 take_bit_eq_mask [symmetric] by simp_all
qed

lemma b64_bytes3:
  fixes a b c :: u8
  defines "v \<equiv> push_bit 16 (ucast a) OR push_bit 8 (ucast b) OR ucast c :: u32"
  shows "ucast (drop_bit 16 v) = a" "ucast (drop_bit 8 v AND 0xff) = b" "ucast (v AND 0xff) = c" "unat (drop_bit 18 v) < 64"
proof -
  show "ucast (drop_bit 16 v) = a" unfolding v_def by (rule bit_word_eqI) (auto simp: bit_simps dest: bit_imp_le_length)
  show "ucast (drop_bit 8 v AND 0xff) = b" "ucast (v AND 0xff) = c" unfolding v_def mask6 take_bit_eq_mask [symmetric]
    by (rule bit_word_eqI; auto simp: bit_simps dest: bit_imp_le_length)+
  show "unat (drop_bit 18 v) < 64" using unat_bits [of "drop_bit 18 v" 6] unfolding v_def
    by (simp add: bit_simps) (use bit_imp_le_length in force)
qed

lemma b64_bytes2:
  fixes a b :: u8
  defines "v \<equiv> push_bit 8 (ucast a) OR ucast b :: u32"
  shows "ucast (drop_bit 8 v) = a" "ucast (v AND 0xff) = b" "unat (drop_bit 10 v) < 64"
proof -
  show "ucast (drop_bit 8 v) = a" unfolding v_def by (rule bit_word_eqI) (auto simp: bit_simps dest: bit_imp_le_length)
  show "ucast (v AND 0xff) = b" unfolding v_def mask6 take_bit_eq_mask [symmetric]
    by (rule bit_word_eqI; auto simp: bit_simps dest: bit_imp_le_length)+
  show "unat (drop_bit 10 v) < 64" using unat_bits [of "drop_bit 10 v" 6] unfolding v_def
    by (simp add: bit_simps) (use bit_imp_le_length in force)
qed

lemma b64_bytes1: "unat (drop_bit 2 (ucast (a :: u8) :: u32)) < 64" "ucast (ucast a :: u32) = a"
proof -
  have "unat (drop_bit 2 (ucast a :: u32)) < 2 ^ 6" by (rule unat_bits) (auto simp: bit_simps dest!: bit_imp_le_length)
  then show "unat (drop_bit 2 (ucast a :: u32)) < 64" by simp
  show "ucast (ucast a :: u32) = a" by (rule bit_word_eqI) (auto simp: bit_simps)
qed

lemma b64_read_symbols:
  "\<forall>b \<in> set bs. b64index b \<noteq> - 1 \<Longrightarrow> b64_read (length bs) (bs @ tx) = Some (map b64index bs, tx)"
  by (induction bs) simp_all

lemma uint_not_neg: "uint (x :: u32) \<noteq> - 2" "uint (x :: u32) \<noteq> - 1"
  using unsigned_greater_eq [of x, where ?'a = int] by linarith+

lemma b64_group_words:
  fixes x0 x1 x2 x3 :: u32
  shows "b64_group [int (unat x0), int (unat x1), int (unat x2), int (unat x3)] =
      (let v = push_bit 18 x0 OR push_bit 12 x1 OR push_bit 6 x2 OR x3 in Inr [ucast (drop_bit 16 v), ucast (drop_bit 8 v AND 0xff), ucast (v AND 0xff)])"
    and "x2 AND 3 = 0 \<Longrightarrow> b64_group [int (unat x0), int (unat x1), int (unat x2), - 2] =
      (let v = push_bit 10 x0 OR push_bit 4 x1 OR drop_bit 2 x2 in Inr [ucast (drop_bit 8 v), ucast (v AND 0xff)])"
    and "x1 AND 0xf = 0 \<Longrightarrow> b64_group [int (unat x0), int (unat x1), - 2, - 2] = Inr [ucast (push_bit 2 x0 OR drop_bit 4 x1)]"
  by (simp_all add: b64_group_def Let_def uint_not_neg)

lemma b64_low_zero: "push_bit 2 (x AND 0xf) AND 3 = (0 :: u32)" "push_bit 4 (x AND 3) AND 0xf = (0 :: u32)"
  unfolding mask6 take_bit_eq_mask [symmetric] by (rule bit_word_eqI; auto simp: bit_simps)+

lemma b64_decode_group:
  assumes "length bs = 4" "\<forall>b \<in> set bs. b64index b \<noteq> - 1" "b64_group (map b64index bs) = Inr out" "length buf + length out \<le> cap"
  shows "b64_decode cap (bs @ tx) buf = b64_decode cap tx (buf @ out)"
  using b64_read_symbols [OF assms(2), of tx] assms by (subst b64_decode.simps) (auto simp: buf_put_def)

lemma b64_round:
  "length buf + length tx \<le> cap \<Longrightarrow> b64_decode cap (b64_encode tx) buf = Some (Inr (buf @ tx))"
proof (induction tx arbitrary: buf rule: b64_encode.induct)
  case (1 a b c tx)
  define v where "v = (push_bit 16 (ucast a) OR push_bit 8 (ucast b) OR ucast c :: u32)"
  define g where "g = [b64_encoding ! unat (drop_bit 18 v), b64_encoding ! unat (drop_bit 12 v AND 0x3f),
          b64_encoding ! unat (drop_bit 6 v AND 0x3f), b64_encoding ! unat (v AND 0x3f)]"
  note v = b64_bytes3 [of a b c, folded v_def]
  have ix: "map b64index g = [int (unat (drop_bit 18 v)), int (unat (drop_bit 12 v AND 0x3f)), int (unat (drop_bit 6 v AND 0x3f)), int (unat (v AND 0x3f))]"
    unfolding g_def list.map b64index_back [OF v(4)] b64index_back [OF b64_less(1)] ..
  have grp: "b64_group (map b64index g) = Inr [a, b, c]"
    unfolding ix b64_group_words Let_def b64_four v ..
  have "b64_decode cap (g @ b64_encode tx) buf = b64_decode cap (b64_encode tx) (buf @ [a, b, c])"
  proof (rule b64_decode_group)
    show "\<forall>b \<in> set g. b64index b \<noteq> - 1" using ix unfolding g_def by (auto simp: uint_not_neg)
  qed (use grp "1.prems" in \<open>auto simp: g_def\<close>)
  moreover have "b64_encode (a # b # c # tx) = g @ b64_encode tx" unfolding b64_encode.simps Let_def g_def v_def ..
  moreover have "b64_decode cap (b64_encode tx) (buf @ [a, b, c]) = Some (Inr ((buf @ [a, b, c]) @ tx))"
    by (rule "1.IH" [OF v_def]) (use "1.prems" in simp)
  ultimately show ?case by (simp del: b64_encode.simps)
next
  case (2 a b)
  define v where "v = (push_bit 8 (ucast a) OR ucast b :: u32)"
  define g where "g = [b64_encoding ! unat (drop_bit 10 v), b64_encoding ! unat (drop_bit 4 v AND 0x3f),
          b64_encoding ! unat (push_bit 2 (v AND 0xf)), of_char CHR ''='']"
  note v = b64_bytes2 [of a b, folded v_def]
  have ix: "map b64index g = [int (unat (drop_bit 10 v)), int (unat (drop_bit 4 v AND 0x3f)), int (unat (push_bit 2 (v AND 0xf))), - 2]"
    unfolding g_def list.map b64index_back [OF v(3)] b64index_back [OF b64_less(1)] b64index_back [OF b64_less(2)] b64index_pad ..
  have grp: "b64_group (map b64index g) = Inr [a, b]"
    unfolding ix b64_group_words(2) [OF b64_low_zero(1)] Let_def b64_three v ..
  have "b64_decode cap (g @ []) buf = b64_decode cap [] (buf @ [a, b])"
  proof (rule b64_decode_group)
    show "\<forall>b \<in> set g. b64index b \<noteq> - 1" using ix unfolding g_def by (auto simp: uint_not_neg)
  qed (use grp "2.prems" in \<open>auto simp: g_def\<close>)
  moreover have "b64_encode [a, b] = g" unfolding b64_encode.simps Let_def g_def v_def ..
  ultimately show ?case by (simp add: b64_decode.simps [of _ "[]"])
next
  case (3 a)
  define v where "v = (ucast a :: u32)"
  define g where "g = [b64_encoding ! unat (drop_bit 2 v), b64_encoding ! unat (push_bit 4 (v AND 3)), of_char CHR ''='', of_char CHR ''='']"
  note v = b64_bytes1 [of a, folded v_def]
  have ix: "map b64index g = [int (unat (drop_bit 2 v)), int (unat (push_bit 4 (v AND 3))), - 2, - 2]"
    unfolding g_def list.map b64index_back [OF v(1)] b64index_back [OF b64_less(3)] b64index_pad ..
  have grp: "b64_group (map b64index g) = Inr [a]"
    unfolding ix b64_group_words(3) [OF b64_low_zero(2)] Let_def b64_two v ..
  have "b64_decode cap (g @ []) buf = b64_decode cap [] (buf @ [a])"
  proof (rule b64_decode_group)
    show "\<forall>b \<in> set g. b64index b \<noteq> - 1" using ix unfolding g_def by (auto simp: uint_not_neg)
  qed (use grp "3.prems" in \<open>auto simp: g_def\<close>)
  moreover have "b64_encode [a] = g" unfolding b64_encode.simps Let_def g_def v_def ..
  ultimately show ?case by (simp add: b64_decode.simps [of _ "[]"])
next
  case 4
  show ?case by (subst b64_decode.simps) simp
qed

lemma length_b64_encode: "length (b64_encode tx) = (length tx + 2) div 3 * 4"
proof (induction tx rule: b64_encode.induct)
  case (1 a b c tx)
  have "(length (a # b # c # tx) + 2) div 3 = Suc ((length tx + 2) div 3)" by simp
  then show ?case using 1 by (simp add: Let_def)
qed (simp_all add: Let_def)

subsection \<open>Arithmetic modulo the prime\<close>

definition pn :: nat where
  "pn = 18446744073709551557"

lemma unat_dh_P: "unat dh_P = pn"
  by (simp add: dh_P_def pn_def)

lemma unat_u64_less: "unat (x :: u64) < 2 ^ 64"
proof -
  have "unat x < 2 ^ LENGTH(64)" by (rule unsigned_less)
  then show ?thesis by simp
qed

lemma unat_plus_u64: "unat a + unat b < 2 ^ 64 \<Longrightarrow> unat (a + b :: u64) = unat a + unat b"
  by (simp add: unat_word_ariths)

lemma unat_minus_u64: "unat b \<le> unat a \<Longrightarrow> unat (a - b :: u64) = unat a - unat b"
  by (simp add: unat_sub word_le_nat_alt)

lemma odd_unat: "odd (unat (b :: u64)) \<longleftrightarrow> odd b"
proof -
  have "bit (unat b) 0 = bit b 0" by (simp only: bit_unsigned_iff possible_bit_nat) simp
  then show ?thesis by (simp only: bit_0)
qed

text \<open>Addition modulo the prime, the way both steps of the loop do it.\<close>

lemma add_mod_p:
  assumes "a < dh_P" "m < dh_P"
  shows "unat (if m \<ge> dh_P - a then m - (dh_P - a) else m + a) = (unat m + unat a) mod pn"
    and "(if m \<ge> dh_P - a then m - (dh_P - a) else m + a) < dh_P"
proof -
  have a: "unat a < pn" "unat m < pn" using assms by (simp_all add: word_less_nat_alt unat_dh_P)
  have d: "unat (dh_P - a) = pn - unat a" using a(1) by (simp add: unat_minus_u64 unat_dh_P)
  show r: "unat (if m \<ge> dh_P - a then m - (dh_P - a) else m + a) = (unat m + unat a) mod pn"
  proof (cases "m \<ge> dh_P - a")
    case True
    then have "pn - unat a \<le> unat m" by (simp add: word_le_nat_alt d)
    then have "unat (m - (dh_P - a)) = unat m + unat a - pn" using a by (simp add: unat_minus_u64 d)
    moreover have "(unat m + unat a) mod pn = unat m + unat a - pn"
      using a \<open>pn - unat a \<le> unat m\<close> by (simp add: le_mod_geq)
    ultimately show ?thesis using True by simp
  next
    case False
    then have "unat m + unat a < pn" by (simp add: word_le_nat_alt d)
    moreover have "pn < 2 ^ 64" by (simp add: pn_def)
    ultimately show ?thesis using False by (simp add: unat_plus_u64)
  qed
  show "(if m \<ge> dh_P - a then m - (dh_P - a) else m + a) < dh_P"
    unfolding word_less_nat_alt unat_dh_P r by (simp add: pn_def)
qed

lemma double_mod_p:
  assumes "a < dh_P"
  shows "unat (if a \<ge> dh_P - a then a * 2 - dh_P else a * 2) = 2 * unat a mod pn"
    and "(if a \<ge> dh_P - a then a * 2 - dh_P else a * 2) < dh_P"
  using add_mod_p [OF assms assms] by (simp_all add: mult_2 [symmetric] algebra_simps split: if_splits)

lemma mod_add_mult: "(x mod p + y mod p * k) mod p = (x + y * k) mod (p :: nat)"
  by (metis mod_add_eq mod_mult_left_eq mod_mod_trivial)

lemma mul_mod_loop_spec:
  "a < dh_P \<Longrightarrow> m < dh_P \<Longrightarrow>
     mul_mod_loop a b m < dh_P \<and> unat (mul_mod_loop a b m) = (unat m + unat a * unat b) mod pn"
proof (induction a b m rule: mul_mod_loop.induct)
  case (1 a b m)
  show ?case
  proof (cases "b = 0")
    case True
    then show ?thesis using 1(3) by (subst (1 2) mul_mod_loop.simps) (simp add: word_less_nat_alt unat_dh_P)
  next
    case False
    define m' where "m' = (if b AND 1 \<noteq> 0 then let t = dh_P - a in if m \<ge> t then m - t else m + a else m)"
    define a' where "a' = (if a \<ge> dh_P - a then a * 2 - dh_P else a * 2)"
    have step: "mul_mod_loop a b m = mul_mod_loop a' (drop_bit 1 b) m'"
      using False by (subst mul_mod_loop.simps) (simp add: Let_def m'_def a'_def)
    have a': "a' < dh_P" "unat a' = 2 * unat a mod pn" using double_mod_p [OF 1(2)] by (simp_all add: a'_def)
    have odd: "b AND 1 \<noteq> 0 \<longleftrightarrow> odd (unat b)" unfolding odd_unat and_one_eq by (simp add: even_iff_mod_2_eq_zero)
    have m': "m' < dh_P" "unat m' = (unat m + unat a * (unat b mod 2)) mod pn"
      using add_mod_p [OF 1(2,3)] 1(3) unfolding m'_def odd Let_def
      by (auto simp: word_less_nat_alt unat_dh_P odd_iff_mod_2_eq_one)
    have "mul_mod_loop a' (drop_bit 1 b) m' < dh_P \<and>
        unat (mul_mod_loop a' (drop_bit 1 b) m') = (unat m' + unat a' * unat (drop_bit 1 b)) mod pn"
      using "1.IH" [OF False m'_def a'_def] a'(1) m'(1) by blast
    moreover have "(unat m' + unat a' * unat (drop_bit 1 b)) mod pn = (unat m + unat a * unat b) mod pn"
    proof -
      have "(unat m' + unat a' * unat (drop_bit 1 b)) mod pn = (unat m + unat a * (unat b mod 2) + 2 * unat a * (unat b div 2)) mod pn"
        unfolding m'(2) a'(2) unat_drop_bit power_one_right by (rule mod_add_mult)
      also have "unat m + unat a * (unat b mod 2) + 2 * unat a * (unat b div 2) = unat m + unat a * (unat b mod 2 + 2 * (unat b div 2))"
        by (simp only: distrib_left ac_simps)
      also have "unat b mod 2 + 2 * (unat b div 2) = unat b" by simp
      finally show ?thesis .
    qed
    ultimately show ?thesis unfolding step by simp
  qed
qed

lemma mul_mod_p_spec: "a < dh_P \<Longrightarrow> mul_mod_p a b < dh_P \<and> unat (mul_mod_p a b) = unat a * unat b mod pn"
  using mul_mod_loop_spec [of a 0 b] by (simp add: mul_mod_p_def dh_P_def)

lemma pow_mod_p_spec:
  "a < dh_P \<Longrightarrow> b \<noteq> 0 \<Longrightarrow> \<exists>r. pow_mod_p a b = Some r \<and> r < dh_P \<and> unat r = unat a ^ unat b mod pn"
proof (induction "unat b" arbitrary: b rule: less_induct)
  case less
  show ?case
  proof (cases "b = 1")
    case True
    then show ?thesis using less.prems(1) by (subst pow_mod_p.simps) (simp add: word_less_nat_alt unat_dh_P)
  next
    case False
    have "0 < unat b" using less.prems(2) by (simp only: unat_gt_0 not_False_eq_True)
    moreover have "unat b \<noteq> 1" using False word_unat_eq_iff [of b 1] by simp
    ultimately have ub: "1 < unat b" by linarith
    have half: "unat (drop_bit 1 b) = unat b div 2" by (simp add: unat_drop_bit)
    have "0 < unat (drop_bit 1 b)" unfolding half using ub by simp
    then have "drop_bit 1 b \<noteq> 0" by (simp only: unat_gt_0 not_False_eq_True)
    moreover have "unat (drop_bit 1 b) < unat b" unfolding half using ub by simp
    ultimately obtain t where t: "pow_mod_p a (drop_bit 1 b) = Some t" "t < dh_P" "unat t = unat a ^ (unat b div 2) mod pn"
      using less.hyps [of "drop_bit 1 b"] less.prems(1) half by auto
    define s where "s = mul_mod_p t t"
    have s: "s < dh_P" "unat s = unat a ^ (2 * (unat b div 2)) mod pn"
      using mul_mod_p_spec [OF t(2), of t] by (simp_all add: s_def t(3) mod_simps mult_2 power_add)
    have r: "pow_mod_p a b = Some (if b mod 2 \<noteq> 0 then mul_mod_p s a else s)"
      using False unfolding pow_mod_p.simps [of a b] t(1) by (simp add: s_def Let_def)
    show ?thesis
    proof (cases "even b")
      case True
      then have "2 * (unat b div 2) = unat b" using odd_unat [of b] by simp
      then show ?thesis using s True unfolding r by (simp add: even_iff_mod_2_eq_zero)
    next
      case odd: False
      then have "Suc (2 * (unat b div 2)) = unat b" using odd_unat [of b] by simp
      then have e: "unat a ^ unat b = unat a ^ (2 * (unat b div 2)) * unat a" by (metis power_Suc2)
      have "unat (mul_mod_p s a) = unat a ^ unat b mod pn" unfolding e using mul_mod_p_spec [OF s(1), of a] by (simp add: s(2) mod_simps)
      then show ?thesis using mul_mod_p_spec [OF s(1), of a] odd unfolding r by (simp add: even_iff_mod_2_eq_zero)
    qed
  qed
qed

lemma powmodp_spec:
  assumes "a \<noteq> dh_P" "b \<noteq> 0"
  shows "\<exists>r. powmodp a b = Some r \<and> r < dh_P \<and> unat r = unat a ^ unat b mod pn"
proof -
  define c where "c = (if a > dh_P then a mod dh_P else a)"
  have m: "unat (a mod dh_P) = unat a mod pn" "unat a mod pn < pn" by (simp_all add: unat_mod unat_dh_P) (simp add: pn_def)
  then have "a mod dh_P < dh_P" by (simp add: word_less_nat_alt unat_dh_P)
  then have c: "c < dh_P" "unat c mod pn = unat a mod pn" using assms(1) m by (auto simp: c_def not_less_iff_gr_or_eq)
  then show ?thesis using pow_mod_p_spec [OF c(1) assms(2)] by (simp add: powmodp_def c_def [symmetric]) (metis power_mod)
qed

text \<open>The bytes of a 64-bit number and the number of eight bytes.\<close>

definition num64 :: "bytes \<Rightarrow> u64" where
  "num64 x = join64 (le32 x 0, le32 x 4)"

lemma num64_bytes:
  "num64 [a, b, c, d, e, f, g, h] = ucast a OR push_bit 8 (ucast b) OR push_bit 16 (ucast c) OR push_bit 24 (ucast d) OR
     push_bit 32 (ucast e) OR push_bit 40 (ucast f) OR push_bit 48 (ucast g) OR push_bit 56 (ucast h)"
proof -
  have p: "ucast (push_bit k (ucast x) :: u32) = (push_bit k (ucast x) :: u64)" if "k \<le> 24" for k and x :: u8
    using that by (intro bit_word_eqI) (auto simp: bit_simps dest: bit_imp_le_length)
  have o: "ucast (x OR y :: u32) = (ucast x OR ucast y :: u64)" for x y by (rule bit_word_eqI) (auto simp: bit_simps)
  have u: "ucast (ucast x :: u32) = (ucast x :: u64)" for x :: u8 by (rule bit_word_eqI) (auto simp: bit_simps dest: bit_imp_le_length)
  show ?thesis unfolding num64_def join64_def le32_def prod.case by (simp add: o p u push_bit_or or.assoc)
qed

lemma byte_of_u64: "ucast (w AND 0xff :: u64) = (ucast w :: u8)"
proof -
  have "w AND 0xff = take_bit 8 w" by (simp add: take_bit_eq_mask mask_eq_exp_minus_1)
  then show ?thesis by (intro bit_word_eqI) (auto simp: bit_simps)
qed

lemma push64_list:
  "push64 r = [ucast r, ucast (drop_bit 8 r), ucast (drop_bit 16 r), ucast (drop_bit 24 r),
     ucast (drop_bit 32 r), ucast (drop_bit 40 r), ucast (drop_bit 48 r), ucast (drop_bit 56 r)]"
  by (simp add: push64_def byte_of_u64 upt_conv_Cons)

lemma num64_push64: "num64 (push64 r) = r"
  unfolding push64_list num64_bytes
  by (rule bit_word_eqI, rename_tac n, case_tac "n < 8"; case_tac "n < 16"; case_tac "n < 24"; case_tac "n < 32"; case_tac "n < 40"; case_tac "n < 48"; case_tac "n < 56")
    (auto simp: bit_simps)

lemma push64_num64:
  assumes "length x = 8"
  shows "push64 (num64 x) = x"
proof -
  obtain a b c d e f g h where "x = [a, b, c, d, e, f, g, h]" using assms by (auto simp: numeral_eq_Suc length_Suc_conv)
  then show ?thesis unfolding push64_list
    by (simp only: num64_bytes list.inject) (intro conjI bit_word_eqI; auto simp: bit_simps dest: bit_imp_le_length)
qed

lemma length_push64 [simp]: "length (push64 r) = 8"
  by (simp add: push64_def)

lemma push64_zero: "push64 0 = replicate 8 0"
  by (simp add: push64_list replicate_numeral_eq)

lemma num64_zero: "length x = 8 \<Longrightarrow> num64 x = 0 \<longleftrightarrow> x = replicate 8 0"
  by (metis num64_push64 push64_num64 length_replicate push64_zero)

lemma generator_unit: "5 ^ n mod pn \<noteq> 0"
proof
  assume "5 ^ n mod pn = 0"
  then have "pn dvd 5 ^ n" by (simp add: dvd_eq_mod_eq_0)
  have "gcd pn 5 = gcd 5 (pn mod 5)" by (rule gcd_red_nat)
  also have "\<dots> = 1" by (simp add: pn_def gcd_non_0_nat)
  finally have "gcd 5 pn = 1" by (simp add: gcd.commute)
  then have "coprime (5 ^ n) pn" by (metis coprime_iff_gcd_eq_1 coprime_power_left_iff)
  then have "pn = 1" using \<open>pn dvd 5 ^ n\<close> by (metis coprime_common_divisor_nat dvd_refl)
  then show False by (simp add: pn_def)
qed

lemma exchange_spec:
  assumes "length x = 8" "num64 x \<noteq> 0"
  shows "\<exists>r. ldhexchange x = Some (Inr (push64 r)) \<and> r < dh_P \<and> r \<noteq> 0 \<and> unat r = 5 ^ unat (num64 x) mod pn"
proof -
  have "dh_G \<noteq> dh_P" "unat dh_G = 5" by (simp_all add: dh_G_def dh_P_def)
  then obtain r where r: "powmodp dh_G (num64 x) = Some r" "r < dh_P" "unat r = 5 ^ unat (num64 x) mod pn"
    using powmodp_spec [of dh_G "num64 x"] assms(2) by auto
  then have "r \<noteq> 0" using generator_unit [of "unat (num64 x)"] by (metis unat_0)
  then show ?thesis using r assms by (intro exI [of _ r]) (simp add: ldhexchange_def num64_def [symmetric] Let_def)
qed

lemma secret_spec:
  assumes "length y = 8" "num64 y \<noteq> 0" "r \<noteq> 0" "r < dh_P"
  shows "\<exists>s. ldhsecret (push64 r) y = Some (Inr (push64 s)) \<and> unat s = unat r ^ unat (num64 y) mod pn"
proof -
  obtain s where "powmodp r (num64 y) = Some s" "unat s = unat r ^ unat (num64 y) mod pn"
    using powmodp_spec [of r "num64 y"] assms by auto
  then show ?thesis using assms num64_push64 [of r] by (intro exI [of _ s]) (simp add: ldhsecret_def read64_def num64_def [symmetric] Let_def)
qed

lemma foldl_xor_zeros: "foldl (XOR) 0 (replicate n (0 :: u8)) = 0"
  by (induction n) simp_all

lemma randomkey_nonzero: "length rnd = 8 \<Longrightarrow> length (lrandomkey rnd) = 8 \<and> lrandomkey rnd \<noteq> replicate 8 0"
proof -
  assume l: "length rnd = 8"
  define tmp where "tmp = map (\<lambda>r. ucast (r AND 0xff) :: u8) rnd"
  have lt: "length tmp = 8" using l by (simp add: tmp_def)
  have r: "lrandomkey rnd = (if foldl (XOR) 0 tmp = 0 then tmp[0 := tmp ! 0 OR 1] else tmp)"
    by (simp add: lrandomkey_def tmp_def Let_def)
  have "tmp ! 0 OR 1 \<noteq> (0 :: u8)"
  proof
    assume "tmp ! 0 OR 1 = (0 :: u8)"
    then have "bit (tmp ! 0 OR 1 :: u8) 0 = bit (0 :: u8) 0" by simp
    then show False by (simp add: bit_or_iff)
  qed
  then have "tmp[0 := tmp ! 0 OR 1] \<noteq> replicate 8 0" using lt by (metis length_greater_0_conv list.size(3) nth_list_update_eq nth_replicate zero_neq_numeral zero_less_numeral)
  then show "length (lrandomkey rnd) = 8 \<and> lrandomkey rnd \<noteq> replicate 8 0" using lt foldl_xor_zeros [of 8] by (auto simp: r)
qed

subsection \<open>MD5\<close>

text \<open>
  MD5 as RFC 1321 defines it, on messages of any length: padding, the four rounds with their
  functions, shifts and orders of the words, and the sum over the blocks.
\<close>

definition md5_pad :: "bytes \<Rightarrow> bytes" where
  "md5_pad msg =
     msg @ 0x80 # replicate ((119 - length msg mod 64) mod 64) 0 @ map (\<lambda>i. word_of_nat (8 * length msg div 256 ^ i)) [0..<8]"

definition md5_function :: "nat \<Rightarrow> u32 \<Rightarrow> u32 \<Rightarrow> u32 \<Rightarrow> u32" where
  "md5_function rnd x y z =
     [(x AND y) OR (NOT x AND z), (x AND z) OR (y AND NOT z), x XOR y XOR z, y XOR (x OR NOT z)] ! rnd"

definition md5_order :: "nat \<Rightarrow> nat" where
  "md5_order i = ([0, 1, 5, 0] ! (i div 16) + [1, 5, 3, 7] ! (i div 16) * (i mod 16)) mod 16"

definition md5_shift :: "nat \<Rightarrow> nat" where
  "md5_shift i = [[7, 12, 17, 22], [5, 9, 14, 20], [4, 11, 16, 23], [6, 10, 15, 21]] ! (i div 16) ! (i mod 4)"

definition md5_operation :: "u32 list \<Rightarrow> u32 \<times> u32 \<times> u32 \<times> u32 \<Rightarrow> nat \<Rightarrow> u32 \<times> u32 \<times> u32 \<times> u32" where
  "md5_operation X = (\<lambda>(a, b, c, d) i.
     (d, b + LEFTROTATE (a + md5_function (i div 16) b c d + X ! md5_order i + md5_k ! i) (md5_shift i), b, c))"

definition md5_block :: "u32 \<times> u32 \<times> u32 \<times> u32 \<Rightarrow> bytes \<Rightarrow> u32 \<times> u32 \<times> u32 \<times> u32" where
  "md5_block = (\<lambda>(A, B, C, D) blk.
     let (a, b, c, d) = foldl (md5_operation (map (\<lambda>i. le32 blk (4 * i)) [0..<16])) (A, B, C, D) [0..<64]
     in (A + a, B + b, C + c, D + d))"

definition md5_sum :: "bytes \<Rightarrow> bytes" where
  "md5_sum msg =
     (let p = md5_pad msg;
          (A, B, C, D) = foldl md5_block (0x67452301, 0xefcdab89, 0x98badcfe, 0x10325476)
                           (map (\<lambda>i. take 64 (drop (64 * i) p)) [0..<length p div 64])
      in concat (map le32_bytes [A, B, C, D]))"

lemma md5_tables:
  "i < 64 \<Longrightarrow> md5_shift i = md5_r ! i"
  "i < 64 \<Longrightarrow> md5_order i = (if i < 16 then i else if i < 32 then (5 * i + 1) mod 16 else if i < 48 then (3 * i + 5) mod 16 else 7 * i mod 16)"
proof -
  have "\<forall>i \<in> set [0..<64]. md5_shift i = md5_r ! i" by code_simp
  then show "i < 64 \<Longrightarrow> md5_shift i = md5_r ! i" by simp
  have "\<forall>i \<in> set [0..<64]. md5_order i = (if i < 16 then i else if i < 32 then (5 * i + 1) mod 16 else if i < 48 then (3 * i + 5) mod 16 else 7 * i mod 16)"
    by code_simp
  then show "i < 64 \<Longrightarrow> md5_order i = (if i < 16 then i else if i < 32 then (5 * i + 1) mod 16 else if i < 48 then (3 * i + 5) mod 16 else 7 * i mod 16)" by simp
qed

lemma md5_step_operation:
  assumes "i < 64"
  shows "md5_step X s i = md5_operation X s i"
proof -
  obtain a b c d where s: "s = (a, b, c, d)" by (cases s)
  have r: "i div 16 = (if i < 16 then 0 else if i < 32 then 1 else if i < 48 then 2 else 3)" using assms by auto
  show ?thesis
    unfolding md5_step_def md5_operation_def s prod.case md5_tables [OF assms] md5_function_def r
    by (auto simp: ac_simps)
qed

lemma digest_md5_fold: "digest_md5 w = foldl (md5_operation w) (0x67452301, 0xefcdab89, 0x98badcfe, 0x10325476) [0..<64]"
  unfolding digest_md5_def by (rule foldl_cong) (auto simp: md5_step_operation)

lemma le32_bytes_xor: "map2 (XOR) (le32_bytes a) (le32_bytes b) = le32_bytes (a XOR b)"
  unfolding le32_bytes_def by (simp, intro conjI bit_word_eqI; auto simp: bit_simps)

lemma length_le32_bytes [simp]: "length (le32_bytes a) = 4"
  by (simp add: le32_bytes_def)

lemma xor_str_same: "length s1 = length s2 \<Longrightarrow> s2 \<noteq> [] \<Longrightarrow> lxor_str s1 s2 = Inr (map2 (XOR) s1 s2)"
  by (auto simp: lxor_str_def intro: nth_equalityI)

lemma md5_pad_48:
  assumes "length msg = 48"
  shows "md5_pad msg = msg @ [0x80, 0, 0, 0, 0, 0, 0, 0, 0x80, 1, 0, 0, 0, 0, 0, 0]"
  using assms by (simp add: md5_pad_def replicate_numeral_eq upt_conv_Cons)

lemma md5_words_48:
  assumes "length x = 8" "length y = 8"
  shows "map (\<lambda>i. le32 (md5_pad (concat (replicate 3 (x @ y)))) (4 * i)) [0..<16] =
    concat (replicate 3 [le32 x 0, le32 x 4, le32 y 0, le32 y 4]) @ [0x80, 0, 384, 0]"
proof -
  obtain a b c d e f g h where x: "x = [a, b, c, d, e, f, g, h]" using assms(1) by (auto simp: numeral_eq_Suc length_Suc_conv)
  obtain a' b' c' d' e' f' g' h' where y: "y = [a', b', c', d', e', f', g', h']" using assms(2) by (auto simp: numeral_eq_Suc length_Suc_conv)
  have p: "md5_pad (concat (replicate 3 (x @ y))) = concat (replicate 3 (x @ y)) @ [0x80, 0, 0, 0, 0, 0, 0, 0, 0x80, 1, 0, 0, 0, 0, 0, 0]"
    by (rule md5_pad_48) (simp add: assms replicate_numeral_eq)
  show ?thesis unfolding p unfolding x y by (simp add: replicate_numeral_eq upt_conv_Cons le32_def)
qed

subsection \<open>Properties\<close>

text \<open>
  C26. Two sides that exchange public values agree on the secret. For secret keys of 8 bytes, not
  all zero, both calls of \<open>dhexchange\<close> succeed, both calls of \<open>dhsecret\<close>, each with the other's value
  and the own key, succeed with the same 8 bytes, and these are \<open>5\<close> to the product of the keys
  modulo the prime: the multiplication modulo the prime never overflows its 64 bits and the
  recursion over the exponent ends.
\<close>

theorem dh_secret_agrees:
  assumes "length x = 8" "x \<noteq> replicate 8 0" "length y = 8" "y \<noteq> replicate 8 0"
  shows "\<exists>X Y s. ldhexchange x = Some (Inr X) \<and> ldhexchange y = Some (Inr Y) \<and>
    ldhsecret X y = Some (Inr s) \<and> ldhsecret Y x = Some (Inr s) \<and>
    unat (num64 s) = 5 ^ (unat (num64 x) * unat (num64 y)) mod unat dh_P"
proof -
  have nz: "num64 x \<noteq> 0" "num64 y \<noteq> 0" using assms num64_zero by blast+
  obtain rx where rx: "ldhexchange x = Some (Inr (push64 rx))" "rx < dh_P" "rx \<noteq> 0" "unat rx = 5 ^ unat (num64 x) mod pn"
    using exchange_spec [OF assms(1) nz(1)] by blast
  obtain ry where ry: "ldhexchange y = Some (Inr (push64 ry))" "ry < dh_P" "ry \<noteq> 0" "unat ry = 5 ^ unat (num64 y) mod pn"
    using exchange_spec [OF assms(3) nz(2)] by blast
  obtain s where s: "ldhsecret (push64 rx) y = Some (Inr (push64 s))" "unat s = unat rx ^ unat (num64 y) mod pn"
    using secret_spec [OF assms(3) nz(2) rx(3,2)] by blast
  obtain s' where s': "ldhsecret (push64 ry) x = Some (Inr (push64 s'))" "unat s' = unat ry ^ unat (num64 x) mod pn"
    using secret_spec [OF assms(1) nz(1) ry(3,2)] by blast
  have us: "unat s = 5 ^ (unat (num64 x) * unat (num64 y)) mod pn" by (simp add: s(2) rx(4) power_mod power_mult)
  moreover have "unat s' = 5 ^ (unat (num64 y) * unat (num64 x)) mod pn" by (simp add: s'(2) ry(4) power_mod power_mult)
  ultimately have "s' = s" by (simp add: word_unat_eq_iff mult.commute)
  then show ?thesis using rx(1) ry(1) s(1) s'(1) us by (simp add: num64_push64 unat_dh_P)
qed

theorem dh_secret_agrees_witness:
  "\<exists>X Y s. ldhexchange [1, 2, 3, 4, 5, 6, 7, 8] = Some (Inr X) \<and> ldhexchange [9, 10, 11, 12, 13, 14, 15, 16] = Some (Inr Y) \<and>
    ldhsecret X [9, 10, 11, 12, 13, 14, 15, 16] = Some (Inr s) \<and> ldhsecret Y [1, 2, 3, 4, 5, 6, 7, 8] = Some (Inr s) \<and>
    unat (num64 s) = 5 ^ (unat (num64 [1, 2, 3, 4, 5, 6, 7, 8]) * unat (num64 [9, 10, 11, 12, 13, 14, 15, 16])) mod unat dh_P"
  by (rule dh_secret_agrees) (simp_all add: replicate_numeral_eq)

text \<open>
  C27. Base64 is a round trip: a text whose encoding has a size that fits an \<open>int\<close> is encoded to 4
  characters for every 3 bytes begun, and decoding them returns the text. Neither leaves its buffer.
\<close>

theorem base64_roundtrip:
  assumes "(length tx + 2) div 3 * 4 < 2 ^ 31"
  shows "\<exists>c. lb64encode tx = Some c \<and> length c = (length tx + 2) div 3 * 4 \<and> lb64decode c = Some (Inr tx)"
proof -
  have lc: "length (b64_encode tx) = (length tx + 2) div 3 * 4" by (rule length_b64_encode)
  have small: "\<not> 2 ^ 31 \<le> int ((length tx + 2) div 3 * 4)" using assms by simp
  have "length tx \<le> (length tx + 2) div 3 * 3" by presburger
  moreover have "(length (b64_encode tx) + 3) div 4 * 3 = (length tx + 2) div 3 * 3" unfolding lc by simp
  ultimately have "lb64decode (b64_encode tx) = Some (Inr tx)"
    using small b64_round [of "[]" tx] unfolding lb64decode_def Let_def lc by (simp add: SMALL_CHUNK_def)
  moreover have "lb64encode tx = Some (b64_encode tx)"
    using small by (simp add: lb64encode_def Let_def buf_put_def lua_pushlstring_def lc SMALL_CHUNK_def)
  ultimately show ?thesis using lc by blast
qed

theorem base64_roundtrip_witness:
  "\<exists>c. lb64encode [0, 255, 17, 200] = Some c \<and> length c = 8 \<and> lb64decode c = Some (Inr [0, 255, 17, 200])"
  using base64_roundtrip [of "[0, 255, 17, 200]"] by simp



end
