(* ===== verification/Skynet_Seri.thy ===== *)
theory Skynet_Seri
  imports Skynet_Prelude
begin

text \<open>
  Serialization of Lua values, \<^verbatim>\<open>lualib-src/lua-seri.c\<close>: the blocks that are written, the tags and
  widths of the values, tables, and reading.

  A Lua value is what the Lua API shows of it. \<open>LTable arr prs\<close> is a table without \<open>__pairs\<close>:
  \<open>arr\<close> are the results of \<open>lua_rawgeti\<close> for 1 to \<open>lua_rawlen\<close> (a hole is \<open>LNil\<close>) and \<open>prs\<close> the
  pairs that \<open>lua_next\<close> visits, in its order. \<open>LPairs prs\<close> is a table with \<open>__pairs\<close> and the pairs
  its iterator returns. A table that is read is shown as \<open>LTable arr prs\<close> by what was stored in it:
  \<open>arr\<close> with \<open>lua_rawseti\<close>, then \<open>prs\<close> with \<open>lua_rawset\<close>. \<open>LReal\<close> holds the 64 bits of a double.

  The memory of the blocks is not tracked: a packing that fails or ends has freed them (\<open>wb_free\<close>).

  Reading recurses along the nesting and the pairs of tables; \<open>None\<close> is a recursion that ran out of
  its fuel, and the fuel of \<open>luaseri_unpack\<close> is shown to be enough for every stream.
\<close>

type_synonym byte_list = "u8 list"

datatype lval =
    LNil
  | LBool bool
  | LInt u64
  | LReal u64
  | LPointer u64
  | LString byte_list
  | LTable "lval list" "(lval \<times> lval) list"
  | LPairs "(lval \<times> lval) list"
  | LOther

datatype seri_error = Too_depth | Unsupport_type | Invalid_stream | Block_too_big | Index_is_NaN

subsection \<open>Constants\<close>

definition TYPE_NIL :: u8 where "TYPE_NIL = 0"
definition TYPE_BOOLEAN :: u8 where "TYPE_BOOLEAN = 1"
definition TYPE_NUMBER :: u8 where "TYPE_NUMBER = 2"
definition TYPE_NUMBER_ZERO :: u8 where "TYPE_NUMBER_ZERO = 0"
definition TYPE_NUMBER_BYTE :: u8 where "TYPE_NUMBER_BYTE = 1"
definition TYPE_NUMBER_WORD :: u8 where "TYPE_NUMBER_WORD = 2"
definition TYPE_NUMBER_DWORD :: u8 where "TYPE_NUMBER_DWORD = 4"
definition TYPE_NUMBER_QWORD :: u8 where "TYPE_NUMBER_QWORD = 6"
definition TYPE_NUMBER_REAL :: u8 where "TYPE_NUMBER_REAL = 8"
definition TYPE_USERDATA :: u8 where "TYPE_USERDATA = 3"
definition TYPE_SHORT_STRING :: u8 where "TYPE_SHORT_STRING = 4"
definition TYPE_LONG_STRING :: u8 where "TYPE_LONG_STRING = 5"
definition TYPE_TABLE :: u8 where "TYPE_TABLE = 6"
definition MAX_COOKIE :: int where "MAX_COOKIE = 32"
definition BLOCK_SIZE :: nat where "BLOCK_SIZE = 128"
definition MAX_DEPTH :: nat where "MAX_DEPTH = 32"

definition COMBINE_TYPE :: "u8 \<Rightarrow> u8 \<Rightarrow> u8" where
  "COMBINE_TYPE t v = t OR push_bit 3 v"

subsection \<open>Writing blocks\<close>

text \<open>
  The blocks before the current one, the bytes written to the current one (\<open>ptr\<close> is their number)
  and the total.
\<close>

record write_block =
  wb_blocks :: "byte_list list"
  wb_current :: byte_list
  wb_len :: cint

definition wb_init :: write_block where
  "wb_init = \<lparr>wb_blocks = [], wb_current = [], wb_len = 0\<rparr>"

definition wb_next :: "write_block \<Rightarrow> write_block" where
  "wb_next b = b\<lparr>wb_blocks := wb_blocks b @ [wb_current b], wb_current := []\<rparr>"

definition wb_copy :: "write_block \<Rightarrow> byte_list \<Rightarrow> write_block" where
  "wb_copy b buf = b\<lparr>wb_current := wb_current b @ buf, wb_len := wb_len b + word_of_nat (length buf)\<rparr>"

text \<open>The part of \<open>wb_push\<close> from its second test on; the label \<open>_again\<close> is \<open>wb_next\<close>.\<close>

function wb_fill :: "write_block \<Rightarrow> byte_list \<Rightarrow> write_block" where
  "wb_fill b buf =
     (if int (length (wb_current b)) \<le> int BLOCK_SIZE - int (length buf) then wb_copy b buf
      else
        let copy = BLOCK_SIZE - length (wb_current b)
        in wb_fill (wb_next (wb_copy b (take copy buf))) (drop copy buf))"
  by pat_completeness auto
termination
  by (relation "measures [\<lambda>(b, buf). length buf, \<lambda>(b, buf). length (wb_current b)]") (auto simp: wb_next_def wb_copy_def BLOCK_SIZE_def)

definition wb_push :: "write_block \<Rightarrow> byte_list \<Rightarrow> write_block" where
  "wb_push b buf = wb_fill (if length (wb_current b) = BLOCK_SIZE then wb_next b else b) buf"

subsection \<open>Writing values\<close>

text \<open>The memory of a number of \<open>k\<close> bytes, lowest byte first, and the number in some bytes.\<close>

definition le_bytes :: "nat \<Rightarrow> u64 \<Rightarrow> byte_list" where
  "le_bytes k w = map (\<lambda>i. ucast (drop_bit (8 * i) w)) [0..<k]"

definition le_num :: "byte_list \<Rightarrow> u64" where
  "le_num bs = foldr (\<lambda>b n. ucast b OR push_bit 8 n) bs 0"

definition wb_nil :: "write_block \<Rightarrow> write_block" where
  "wb_nil wb = wb_push wb [TYPE_NIL]"

definition wb_boolean :: "write_block \<Rightarrow> bool \<Rightarrow> write_block" where
  "wb_boolean wb boolean = wb_push wb [COMBINE_TYPE TYPE_BOOLEAN (if boolean then 1 else 0)]"

definition wb_integer :: "write_block \<Rightarrow> u64 \<Rightarrow> write_block" where
  "wb_integer wb v =
     (if v = 0 then wb_push wb [COMBINE_TYPE TYPE_NUMBER TYPE_NUMBER_ZERO]
      else if v \<noteq> scast (ucast v :: u32) then
        wb_push (wb_push wb [COMBINE_TYPE TYPE_NUMBER TYPE_NUMBER_QWORD]) (le_bytes 8 v)
      else if sint v < 0 then
        wb_push (wb_push wb [COMBINE_TYPE TYPE_NUMBER TYPE_NUMBER_DWORD]) (le_bytes 4 (ucast (ucast v :: u32)))
      else if v < 0x100 then
        wb_push (wb_push wb [COMBINE_TYPE TYPE_NUMBER TYPE_NUMBER_BYTE]) (le_bytes 1 v)
      else if v < 0x10000 then
        wb_push (wb_push wb [COMBINE_TYPE TYPE_NUMBER TYPE_NUMBER_WORD]) (le_bytes 2 v)
      else
        wb_push (wb_push wb [COMBINE_TYPE TYPE_NUMBER TYPE_NUMBER_DWORD]) (le_bytes 4 v))"

definition wb_real :: "write_block \<Rightarrow> u64 \<Rightarrow> write_block" where
  "wb_real wb v = wb_push (wb_push wb [COMBINE_TYPE TYPE_NUMBER TYPE_NUMBER_REAL]) (le_bytes 8 v)"

definition wb_pointer :: "write_block \<Rightarrow> u64 \<Rightarrow> write_block" where
  "wb_pointer wb v = wb_push (wb_push wb [TYPE_USERDATA]) (le_bytes 8 v)"

definition wb_string :: "write_block \<Rightarrow> byte_list \<Rightarrow> int \<Rightarrow> write_block" where
  "wb_string wb str len =
     (if len < MAX_COOKIE then
        let wb = wb_push wb [COMBINE_TYPE TYPE_SHORT_STRING (word_of_int len)]
        in if len > 0 then wb_push wb (take (nat len) str) else wb
      else
        let wb = (if len < 0x10000
                  then wb_push (wb_push wb [COMBINE_TYPE TYPE_LONG_STRING 2]) (le_bytes 2 (word_of_int len))
                  else wb_push (wb_push wb [COMBINE_TYPE TYPE_LONG_STRING 4]) (le_bytes 4 (word_of_int len)))
        in wb_push wb (take (nat len) str))"

text \<open>The head of a table in \<open>wb_table_array\<close>.\<close>

definition wb_table_size :: "write_block \<Rightarrow> int \<Rightarrow> write_block" where
  "wb_table_size wb array_size =
     (if array_size \<ge> MAX_COOKIE - 1 then
        wb_integer (wb_push wb [COMBINE_TYPE TYPE_TABLE (word_of_int (MAX_COOKIE - 1))]) (word_of_int array_size)
      else wb_push wb [COMBINE_TYPE TYPE_TABLE (word_of_int array_size)])"

text \<open>The test of \<open>wb_table_hash\<close> that leaves out the keys of the array part.\<close>

definition in_array :: "int \<Rightarrow> lval \<Rightarrow> bool" where
  "in_array array_size k = (case k of LInt x \<Rightarrow> 0 < sint x \<and> sint x \<le> array_size | _ \<Rightarrow> False)"

text \<open>
  \<open>pack_array\<close> is the loop of \<open>wb_table_array\<close>, \<open>pack_pairs\<close> those of \<open>wb_table_hash\<close> and, with
  the size 0, of \<open>wb_table_metapairs\<close>.
\<close>

definition check_depth :: "nat \<Rightarrow> seri_error + write_block \<Rightarrow> seri_error + write_block" where
  "check_depth depth r = (if depth > MAX_DEPTH then Inl Too_depth else r)"

function pack_one :: "lval \<Rightarrow> nat \<Rightarrow> write_block \<Rightarrow> seri_error + write_block"
  and pack_array :: "nat \<Rightarrow> lval list \<Rightarrow> nat \<Rightarrow> write_block \<Rightarrow> seri_error + write_block"
  and pack_pairs :: "int \<Rightarrow> (lval \<times> lval) list \<Rightarrow> nat \<Rightarrow> write_block \<Rightarrow> seri_error + write_block" where
  "pack_one LNil depth b = check_depth depth (Inr (wb_nil b))"
| "pack_one (LBool x) depth b = check_depth depth (Inr (wb_boolean b x))"
| "pack_one (LInt x') depth b = check_depth depth (Inr (wb_integer b x'))"
| "pack_one (LReal x') depth b = check_depth depth (Inr (wb_real b x'))"
| "pack_one (LPointer x') depth b = check_depth depth (Inr (wb_pointer b x'))"
| "pack_one (LString s) depth b = check_depth depth (Inr (wb_string b s (sint (word_of_nat (length s) :: cint))))"
| "pack_one (LTable arr prs) depth b = check_depth depth
     (let array_size = sint (word_of_nat (length arr) :: cint)
      in case pack_array (nat array_size) arr (depth + 1) (wb_table_size b array_size) of
           Inl e \<Rightarrow> Inl e
         | Inr b \<Rightarrow> pack_pairs array_size prs (depth + 1) b)"
| "pack_one (LPairs prs) depth b = check_depth depth
     (pack_pairs 0 prs (depth + 1) (wb_push b [COMBINE_TYPE TYPE_TABLE 0]))"
| "pack_one LOther depth b = check_depth depth (Inl Unsupport_type)"
| "pack_array 0 vs depth b = Inr b"
| "pack_array (Suc n) [] depth b = Inr b"
| "pack_array (Suc n) (v # vs) depth b =
     (case pack_one v depth b of Inl e \<Rightarrow> Inl e | Inr b \<Rightarrow> pack_array n vs depth b)"
| "pack_pairs array_size [] depth b = Inr (wb_nil b)"
| "pack_pairs array_size ((k, v) # prs) depth b =
     (if in_array array_size k then pack_pairs array_size prs depth b
      else case pack_one k depth b of
          Inl e \<Rightarrow> Inl e
        | Inr b \<Rightarrow>
            (case pack_one v depth b of
               Inl e \<Rightarrow> Inl e
             | Inr b \<Rightarrow> pack_pairs array_size prs depth b))"
  by pat_completeness auto
termination
  by (relation "measure (\<lambda>x. case x of
      Inl (v, _, _) \<Rightarrow> size v
    | Inr (Inl (n, vs, _, _)) \<Rightarrow> size_list size vs
    | Inr (Inr (n, prs, _, _)) \<Rightarrow> size_list (size_prod size size) prs)") auto

fun pack_from :: "lval list \<Rightarrow> write_block \<Rightarrow> seri_error + write_block" where
  "pack_from [] b = Inr b"
| "pack_from (v # vs) b = (case pack_one v 0 b of Inl e \<Rightarrow> Inl e | Inr b \<Rightarrow> pack_from vs b)"

text \<open>The copy of the blocks into one buffer; \<open>None\<close> is the use of a block that is not there or not full.\<close>

fun seri :: "byte_list list \<Rightarrow> int \<Rightarrow> byte_list option" where
  "seri [] len = (if len > 0 then None else Some [])"
| "seri (b # bs) len =
     (if len \<le> 0 then Some []
      else if len \<ge> int BLOCK_SIZE then
        (if length b < BLOCK_SIZE then None
         else map_option ((@) (take BLOCK_SIZE b)) (seri bs (len - int BLOCK_SIZE)))
      else if length b < nat len then None
      else Some (take (nat len) b))"

definition luaseri_pack :: "lval list \<Rightarrow> (seri_error + byte_list) option" where
  "luaseri_pack vs =
     (case pack_from vs wb_init of
        Inl e \<Rightarrow> Some (Inl e)
      | Inr wb \<Rightarrow> map_option Inr (seri (wb_blocks wb @ [wb_current wb]) (sint (wb_len wb))))"

subsection \<open>Reading values\<close>

text \<open>The bytes that are left stand for the read block.\<close>

definition rb_read :: "byte_list \<Rightarrow> nat \<Rightarrow> (byte_list \<times> byte_list) option" where
  "rb_read rb sz = (if length rb < sz then None else Some (take sz rb, drop sz rb))"

type_synonym 'a reading = "(seri_error + 'a \<times> byte_list) option"

definition rbind :: "'a reading \<Rightarrow> ('a \<Rightarrow> byte_list \<Rightarrow> 'b reading) \<Rightarrow> 'b reading" where
  "rbind m f = (case m of None \<Rightarrow> None | Some (Inl e) \<Rightarrow> Some (Inl e) | Some (Inr (x, rb)) \<Rightarrow> f x rb)"

definition invalid_stream :: "'a reading" where
  "invalid_stream = Some (Inl Invalid_stream)"

definition rb_number :: "byte_list \<Rightarrow> nat \<Rightarrow> u64 reading" where
  "rb_number rb sz = (case rb_read rb sz of None \<Rightarrow> invalid_stream | Some (bs, rb) \<Rightarrow> Some (Inr (le_num bs, rb)))"

definition get_integer :: "byte_list \<Rightarrow> u8 \<Rightarrow> u64 reading" where
  "get_integer rb cookie =
     (if cookie = TYPE_NUMBER_ZERO then Some (Inr (0, rb))
      else if cookie = TYPE_NUMBER_BYTE then rbind (rb_number rb 1) (\<lambda>n rb. Some (Inr (n, rb)))
      else if cookie = TYPE_NUMBER_WORD then rbind (rb_number rb 2) (\<lambda>n rb. Some (Inr (n, rb)))
      else if cookie = TYPE_NUMBER_DWORD then
        rbind (rb_number rb 4) (\<lambda>n rb. Some (Inr (scast (ucast n :: u32), rb)))
      else if cookie = TYPE_NUMBER_QWORD then rbind (rb_number rb 8) (\<lambda>n rb. Some (Inr (n, rb)))
      else invalid_stream)"

definition get_real :: "byte_list \<Rightarrow> u64 reading" where
  "get_real rb = rbind (rb_number rb 8) (\<lambda>n rb. Some (Inr (n, rb)))"

definition get_pointer :: "byte_list \<Rightarrow> u64 reading" where
  "get_pointer rb = rbind (rb_number rb 8) (\<lambda>n rb. Some (Inr (n, rb)))"

text \<open>A negative length passes the test of \<open>rb_read\<close>; \<open>lua_pushlstring\<close> then raises an error.\<close>

definition get_buffer :: "byte_list \<Rightarrow> int \<Rightarrow> byte_list reading" where
  "get_buffer rb len =
     (if len < 0 then Some (Inl Block_too_big)
      else case rb_read rb (nat len) of None \<Rightarrow> invalid_stream | Some (s, rb) \<Rightarrow> Some (Inr (s, rb)))"

text \<open>The size of the array part of a table.\<close>

definition get_array_size :: "byte_list \<Rightarrow> u8 \<Rightarrow> int reading" where
  "get_array_size rb array_size =
     (if uint array_size = MAX_COOKIE - 1 then
        case rb_read rb 1 of
          None \<Rightarrow> invalid_stream
        | Some (t, rb) \<Rightarrow>
            (let type = t ! 0; cookie = drop_bit 3 type
             in if type AND 7 \<noteq> TYPE_NUMBER \<or> cookie = TYPE_NUMBER_REAL then invalid_stream
                else rbind (get_integer rb cookie) (\<lambda>v rb. Some (Inr (sint (ucast v :: u32), rb))))
      else Some (Inr (uint array_size, rb)))"

text \<open>\<open>lua_rawset\<close> raises an error for a key that is not a number in the sense of IEEE 754.\<close>

definition is_nan :: "lval \<Rightarrow> bool" where
  "is_nan k = (case k of LReal x \<Rightarrow> drop_bit 52 x AND 0x7ff = 0x7ff \<and> x AND 0xfffffffffffff \<noteq> 0 | _ \<Rightarrow> False)"

text \<open>
  The fuel goes down with every value and every pair; \<open>unpack_array\<close> is the first loop of
  \<open>unpack_table\<close>, \<open>unpack_pairs\<close> the second.
\<close>

function unpack_one :: "nat \<Rightarrow> byte_list \<Rightarrow> lval reading"
  and push_value :: "nat \<Rightarrow> byte_list \<Rightarrow> u8 \<Rightarrow> u8 \<Rightarrow> lval reading"
  and unpack_table :: "nat \<Rightarrow> byte_list \<Rightarrow> u8 \<Rightarrow> lval reading"
  and unpack_array :: "nat \<Rightarrow> nat \<Rightarrow> byte_list \<Rightarrow> lval list reading"
  and unpack_pairs :: "nat \<Rightarrow> byte_list \<Rightarrow> (lval \<times> lval) list reading" where
  "unpack_one 0 rb = None"
| "unpack_one (Suc fuel) rb =
     (case rb_read rb 1 of
        None \<Rightarrow> invalid_stream
      | Some (t, rb) \<Rightarrow> push_value fuel rb (t ! 0 AND 7) (drop_bit 3 (t ! 0)))"
| "push_value fuel rb type cookie =
     (if type = TYPE_NIL then Some (Inr (LNil, rb))
      else if type = TYPE_BOOLEAN then Some (Inr (LBool (cookie \<noteq> 0), rb))
      else if type = TYPE_NUMBER then
        (if cookie = TYPE_NUMBER_REAL then rbind (get_real rb) (\<lambda>x rb. Some (Inr (LReal x, rb)))
         else rbind (get_integer rb cookie) (\<lambda>x rb. Some (Inr (LInt x, rb))))
      else if type = TYPE_USERDATA then rbind (get_pointer rb) (\<lambda>x rb. Some (Inr (LPointer x, rb)))
      else if type = TYPE_SHORT_STRING then rbind (get_buffer rb (uint cookie)) (\<lambda>s rb. Some (Inr (LString s, rb)))
      else if type = TYPE_LONG_STRING then
        (if cookie = 2 then
           rbind (rb_number rb 2) (\<lambda>n rb. rbind (get_buffer rb (uint n)) (\<lambda>s rb. Some (Inr (LString s, rb))))
         else if cookie \<noteq> 4 then invalid_stream
         else
           rbind (rb_number rb 4) (\<lambda>n rb.
             rbind (get_buffer rb (sint (ucast n :: cint))) (\<lambda>s rb. Some (Inr (LString s, rb)))))
      else if type = TYPE_TABLE then unpack_table fuel rb cookie
      else invalid_stream)"
| "unpack_table fuel rb array_size =
     rbind (get_array_size rb array_size) (\<lambda>array_size rb.
       rbind (unpack_array fuel (nat array_size) rb) (\<lambda>arr rb.
         rbind (unpack_pairs fuel rb) (\<lambda>prs rb. Some (Inr (LTable arr prs, rb)))))"
| "unpack_array fuel 0 rb = Some (Inr ([], rb))"
| "unpack_array fuel (Suc k) rb =
     rbind (unpack_one fuel rb) (\<lambda>v rb.
       rbind (unpack_array fuel k rb) (\<lambda>vs rb. Some (Inr (v # vs, rb))))"
| "unpack_pairs 0 rb = None"
| "unpack_pairs (Suc fuel) rb =
     rbind (unpack_one fuel rb) (\<lambda>k rb.
       if k = LNil then Some (Inr ([], rb))
       else rbind (unpack_one fuel rb) (\<lambda>v rb.
         if is_nan k then Some (Inl Index_is_NaN)
         else rbind (unpack_pairs fuel rb) (\<lambda>prs rb. Some (Inr ((k, v) # prs, rb)))))"
  by pat_completeness auto
termination
  by (relation "measures [\<lambda>x. case x of
        Inl (Inl (fuel, _)) \<Rightarrow> fuel | Inl (Inr (fuel, _, _, _)) \<Rightarrow> fuel
      | Inr (Inl (fuel, _, _)) \<Rightarrow> fuel | Inr (Inr (Inl (fuel, _, _))) \<Rightarrow> fuel | Inr (Inr (Inr (fuel, _))) \<Rightarrow> fuel,
    \<lambda>x. case x of
        Inl (Inl (fuel, _)) \<Rightarrow> 0 | Inl (Inr (fuel, _, _, _)) \<Rightarrow> 3
      | Inr (Inl (fuel, _, _)) \<Rightarrow> 2 | Inr (Inr (Inl (fuel, _, _))) \<Rightarrow> 1 | Inr (Inr (Inr (fuel, _))) \<Rightarrow> 1,
    \<lambda>x. case x of Inr (Inr (Inl (_, k, _))) \<Rightarrow> k | _ \<Rightarrow> 0]") auto

text \<open>The loop of \<open>luaseri_unpack\<close>, until no byte is left.\<close>

fun unpack_all :: "nat \<Rightarrow> byte_list \<Rightarrow> lval list reading" where
  "unpack_all 0 rb = None"
| "unpack_all (Suc fuel) rb =
     (case rb_read rb 1 of
        None \<Rightarrow> Some (Inr ([], rb))
      | Some (t, rb) \<Rightarrow>
          rbind (push_value fuel rb (t ! 0 AND 7) (drop_bit 3 (t ! 0))) (\<lambda>v rb.
            rbind (unpack_all fuel rb) (\<lambda>vs rb. Some (Inr (v # vs, rb)))))"

definition luaseri_unpack :: "byte_list \<Rightarrow> (seri_error + lval list) option" where
  "luaseri_unpack buffer =
     (let len = sint (word_of_nat (length buffer) :: cint)
      in if len = 0 then Some (Inr [])
         else map_option (map_sum id fst) (unpack_all (2 * length buffer + 3) (take (nat len) buffer)))"

declare wb_fill.simps [simp del]

subsection \<open>The bytes written\<close>

definition wb_bytes :: "write_block \<Rightarrow> byte_list" where
  "wb_bytes b = concat (wb_blocks b) @ wb_current b"

definition wb_ok :: "write_block \<Rightarrow> bool" where
  "wb_ok b \<longleftrightarrow> (\<forall>x \<in> set (wb_blocks b). length x = BLOCK_SIZE) \<and> length (wb_current b) \<le> BLOCK_SIZE \<and>
     wb_len b = word_of_nat (length (wb_bytes b))"

lemma wb_init_ok: "wb_ok wb_init" "wb_bytes wb_init = []"
  by (simp_all add: wb_ok_def wb_bytes_def wb_init_def)

lemma wb_next_ok: "wb_ok b \<Longrightarrow> length (wb_current b) = BLOCK_SIZE \<Longrightarrow> wb_ok (wb_next b) \<and> wb_bytes (wb_next b) = wb_bytes b"
  by (auto simp: wb_ok_def wb_bytes_def wb_next_def)

lemma wb_copy_ok:
  "wb_ok b \<Longrightarrow> length (wb_current b) + length buf \<le> BLOCK_SIZE \<Longrightarrow> wb_ok (wb_copy b buf) \<and> wb_bytes (wb_copy b buf) = wb_bytes b @ buf"
  by (auto simp: wb_ok_def wb_bytes_def wb_copy_def)

lemma wb_fill_ok: "wb_ok b \<Longrightarrow> wb_ok (wb_fill b buf) \<and> wb_bytes (wb_fill b buf) = wb_bytes b @ buf"
proof (induction b buf rule: wb_fill.induct)
  case (1 b buf)
  show ?case
  proof (cases "int (length (wb_current b)) \<le> int BLOCK_SIZE - int (length buf)")
    case True
    then have "length (wb_current b) + length buf \<le> BLOCK_SIZE" by linarith
    then show ?thesis using wb_copy_ok [OF "1.prems"] True by (simp add: wb_fill.simps)
  next
    case False
    define copy where "copy = BLOCK_SIZE - length (wb_current b)"
    have le: "length (wb_current b) \<le> BLOCK_SIZE" "copy \<le> length buf" using "1.prems" False by (auto simp: wb_ok_def copy_def)
    define c where "c = wb_copy b (take copy buf)"
    have c: "wb_ok c" "wb_bytes c = wb_bytes b @ take copy buf" "length (wb_current c) = BLOCK_SIZE"
      using wb_copy_ok [OF "1.prems", of "take copy buf"] le by (auto simp: c_def copy_def wb_copy_def)
    have n: "wb_ok (wb_next c)" "wb_bytes (wb_next c) = wb_bytes b @ take copy buf" using wb_next_ok [OF c(1,3)] c(2) by auto
    have "wb_fill b buf = wb_fill (wb_next c) (drop copy buf)" using False by (simp add: wb_fill.simps [of b] Let_def copy_def c_def)
    then show ?thesis using "1.IH" [OF False copy_def] n by (simp add: c_def)
  qed
qed

lemma wb_push_ok: "wb_ok b \<Longrightarrow> wb_ok (wb_push b buf) \<and> wb_bytes (wb_push b buf) = wb_bytes b @ buf"
  using wb_fill_ok [of b buf] wb_fill_ok [of "wb_next b" buf] wb_next_ok [of b] by (auto simp: wb_push_def)

lemma seri_ok:
  assumes "\<forall>x \<in> set bs. length x = BLOCK_SIZE" "length c \<le> BLOCK_SIZE"
  shows "seri (bs @ [c]) (int (length (concat bs @ c))) = Some (concat bs @ c)"
  using assms(1)
proof (induction bs)
  case Nil
  then show ?case using assms(2) by auto
next
  case (Cons b bs)
  have "int (length (concat (b # bs) @ c)) - int BLOCK_SIZE = int (length (concat bs @ c))" using Cons.prems by simp
  moreover have "0 < BLOCK_SIZE" by (simp add: BLOCK_SIZE_def)
  ultimately show ?case using Cons by simp
qed

subsection \<open>The format\<close>

text \<open>What a value is written as, independent of blocks.\<close>

definition enc_integer :: "u64 \<Rightarrow> byte_list" where
  "enc_integer v =
     (if v = 0 then [COMBINE_TYPE TYPE_NUMBER TYPE_NUMBER_ZERO]
      else if v \<noteq> scast (ucast v :: u32) then COMBINE_TYPE TYPE_NUMBER TYPE_NUMBER_QWORD # le_bytes 8 v
      else if sint v < 0 then COMBINE_TYPE TYPE_NUMBER TYPE_NUMBER_DWORD # le_bytes 4 v
      else if v < 0x100 then COMBINE_TYPE TYPE_NUMBER TYPE_NUMBER_BYTE # le_bytes 1 v
      else if v < 0x10000 then COMBINE_TYPE TYPE_NUMBER TYPE_NUMBER_WORD # le_bytes 2 v
      else COMBINE_TYPE TYPE_NUMBER TYPE_NUMBER_DWORD # le_bytes 4 v)"

definition enc_string :: "byte_list \<Rightarrow> byte_list" where
  "enc_string s =
     (if length s < 32 then COMBINE_TYPE TYPE_SHORT_STRING (word_of_nat (length s)) # s
      else if length s < 65536 then COMBINE_TYPE TYPE_LONG_STRING 2 # le_bytes 2 (word_of_nat (length s)) @ s
      else COMBINE_TYPE TYPE_LONG_STRING 4 # le_bytes 4 (word_of_nat (length s)) @ s)"

definition enc_size :: "nat \<Rightarrow> byte_list" where
  "enc_size n =
     (if n \<ge> 31 then COMBINE_TYPE TYPE_TABLE 31 # enc_integer (word_of_nat n) else [COMBINE_TYPE TYPE_TABLE (word_of_nat n)])"

function enc :: "lval \<Rightarrow> byte_list"
  and enc_list :: "lval list \<Rightarrow> byte_list"
  and enc_pairs :: "int \<Rightarrow> (lval \<times> lval) list \<Rightarrow> byte_list" where
  "enc LNil = [TYPE_NIL]"
| "enc (LBool x) = [COMBINE_TYPE TYPE_BOOLEAN (if x then 1 else 0)]"
| "enc (LInt v) = enc_integer v"
| "enc (LReal v) = COMBINE_TYPE TYPE_NUMBER TYPE_NUMBER_REAL # le_bytes 8 v"
| "enc (LPointer v) = TYPE_USERDATA # le_bytes 8 v"
| "enc (LString s) = enc_string s"
| "enc (LTable arr prs) = enc_size (length arr) @ enc_list arr @ enc_pairs (int (length arr)) prs"
| "enc (LPairs prs) = enc_size 0 @ enc_pairs 0 prs"
| "enc LOther = []"
| "enc_list [] = []"
| "enc_list (v # vs) = enc v @ enc_list vs"
| "enc_pairs n [] = [TYPE_NIL]"
| "enc_pairs n ((k, v) # prs) = (if in_array n k then [] else enc k @ enc v) @ enc_pairs n prs"
  by pat_completeness auto
termination
  by (relation "measure (\<lambda>x. case x of
      Inl v \<Rightarrow> size v
    | Inr (Inl vs) \<Rightarrow> size_list size vs
    | Inr (Inr (n, prs)) \<Rightarrow> size_list (size_prod size size) prs)") auto

text \<open>
  The values that can be written at a depth: tables within the depth and of a size that fits an
  \<open>int\<close>, keys as Lua allows them, and no functions, threads or full userdata.
\<close>

function packable :: "nat \<Rightarrow> lval \<Rightarrow> bool"
  and packable_list :: "nat \<Rightarrow> lval list \<Rightarrow> bool"
  and packable_pairs :: "nat \<Rightarrow> int \<Rightarrow> (lval \<times> lval) list \<Rightarrow> bool" where
  "packable d LNil \<longleftrightarrow> d \<le> MAX_DEPTH"
| "packable d (LBool x) \<longleftrightarrow> d \<le> MAX_DEPTH"
| "packable d (LInt v) \<longleftrightarrow> d \<le> MAX_DEPTH"
| "packable d (LReal v) \<longleftrightarrow> d \<le> MAX_DEPTH"
| "packable d (LPointer v) \<longleftrightarrow> d \<le> MAX_DEPTH"
| "packable d (LString s) \<longleftrightarrow> d \<le> MAX_DEPTH \<and> int (length s) < 2 ^ 31"
| "packable d (LTable arr prs) \<longleftrightarrow> d \<le> MAX_DEPTH \<and> int (length arr) < 2 ^ 31 \<and>
     packable_list (d + 1) arr \<and> packable_pairs (d + 1) (int (length arr)) prs"
| "packable d (LPairs prs) \<longleftrightarrow> d \<le> MAX_DEPTH \<and> packable_pairs (d + 1) 0 prs"
| "packable d LOther \<longleftrightarrow> False"
| "packable_list d [] \<longleftrightarrow> True"
| "packable_list d (v # vs) \<longleftrightarrow> packable d v \<and> packable_list d vs"
| "packable_pairs d n [] \<longleftrightarrow> True"
| "packable_pairs d n ((k, v) # prs) \<longleftrightarrow>
     (in_array n k \<or> packable d k \<and> k \<noteq> LNil \<and> \<not> is_nan k \<and> packable d v) \<and> packable_pairs d n prs"
  by pat_completeness auto
termination
  by (relation "measure (\<lambda>x. case x of
      Inl (d, v) \<Rightarrow> size v
    | Inr (Inl (d, vs)) \<Rightarrow> size_list size vs
    | Inr (Inr (d, n, prs)) \<Rightarrow> size_list (size_prod size size) prs)") auto

text \<open>What a value is read back as: a table by the entries that are stored.\<close>

function stored :: "lval \<Rightarrow> lval"
  and stored_list :: "lval list \<Rightarrow> lval list"
  and stored_pairs :: "int \<Rightarrow> (lval \<times> lval) list \<Rightarrow> (lval \<times> lval) list" where
  "stored LNil = LNil"
| "stored (LBool x) = LBool x"
| "stored (LInt v) = LInt v"
| "stored (LReal v) = LReal v"
| "stored (LPointer v) = LPointer v"
| "stored (LString s) = LString s"
| "stored (LTable arr prs) = LTable (stored_list arr) (stored_pairs (int (length arr)) prs)"
| "stored (LPairs prs) = LTable [] (stored_pairs 0 prs)"
| "stored LOther = LOther"
| "stored_list [] = []"
| "stored_list (v # vs) = stored v # stored_list vs"
| "stored_pairs n [] = []"
| "stored_pairs n ((k, v) # prs) = (if in_array n k then [] else [(stored k, stored v)]) @ stored_pairs n prs"
  by pat_completeness auto
termination
  by (relation "measure (\<lambda>x. case x of
      Inl v \<Rightarrow> size v
    | Inr (Inl vs) \<Rightarrow> size_list size vs
    | Inr (Inr (n, prs)) \<Rightarrow> size_list (size_prod size size) prs)") auto

subsection \<open>Writing follows the format\<close>

definition wrote_bytes :: "write_block \<Rightarrow> byte_list \<Rightarrow> write_block \<Rightarrow> bool" where
  "wrote_bytes b bs b' \<longleftrightarrow> wb_ok b \<longrightarrow> wb_ok b' \<and> wb_bytes b' = wb_bytes b @ bs"

lemma wrote_push: "wrote_bytes b bs (wb_push b bs)"
  using wb_push_ok by (simp add: wrote_bytes_def)

lemma wrote_nothing: "wrote_bytes b [] b"
  by (simp add: wrote_bytes_def)

lemma wrote_trans: "wrote_bytes b xs c \<Longrightarrow> wrote_bytes c ys d \<Longrightarrow> wrote_bytes b (xs @ ys) d"
  by (auto simp: wrote_bytes_def)

lemma wrote_tagged: "wrote_bytes b (t # bs) (wb_push (wb_push b [t]) bs)"
  using wrote_trans [OF wrote_push wrote_push, of b "[t]" bs] by simp

lemma wrote_integer: "wrote_bytes b (enc_integer v) (wb_integer b v)"
proof -
  have "le_bytes 4 (ucast (ucast v :: u32)) = le_bytes 4 v"
    unfolding le_bytes_def by (rule map_cong [OF refl], rule bit_word_eqI) (auto simp: bit_simps)
  then show ?thesis by (simp add: enc_integer_def wb_integer_def wrote_push wrote_tagged)
qed

lemma wrote_string:
  assumes "int (length s) < 2 ^ 31"
  shows "wrote_bytes b (enc_string s) (wb_string b s (sint (word_of_nat (length s) :: cint)))"
proof -
  have len: "sint (word_of_nat (length s) :: cint) = int (length s)" using assms sint_word_of_nat [of "length s"] by simp
  have w: "(word_of_int (int n) :: 'a :: len word) = word_of_nat n" for n by simp
  have three: "wrote_bytes b (t # xs @ ys) (wb_push (wb_push (wb_push b [t]) xs) ys)" for t xs ys
    using wrote_trans [OF wrote_tagged wrote_push, of b t xs ys] by simp
  show ?thesis unfolding len
    using wrote_tagged [of b _ s] wrote_push [of b "[COMBINE_TYPE TYPE_SHORT_STRING 0]"] three
    by (auto simp: enc_string_def wb_string_def MAX_COOKIE_def Let_def)
qed

lemma wrote_table_size:
  assumes "int n < 2 ^ 31"
  shows "wrote_bytes b (enc_size n) (wb_table_size b (int n))"
  using wrote_trans [OF wrote_push wrote_integer, of b "[COMBINE_TYPE TYPE_TABLE 31]" "word_of_nat n"] wrote_push
  by (simp add: enc_size_def wb_table_size_def MAX_COOKIE_def)

lemma pack_writes:
  "packable d v \<Longrightarrow> \<exists>b'. pack_one v d b = Inr b' \<and> wrote_bytes b (enc v) b'"
  "packable_list d vs \<Longrightarrow> n = length vs \<Longrightarrow> \<exists>b'. pack_array n vs d b = Inr b' \<and> wrote_bytes b (enc_list vs) b'"
  "packable_pairs d m prs \<Longrightarrow> \<exists>b'. pack_pairs m prs d b = Inr b' \<and> wrote_bytes b (enc_pairs m prs) b'"
proof (induction v d b and n vs d b and m prs d b rule: pack_one_pack_array_pack_pairs.induct)
  case (7 arr prs depth b)
  have n: "sint (word_of_nat (length arr) :: cint) = int (length arr)" using "7.prems" sint_word_of_nat [of "length arr"] by simp
  obtain b1 where 1: "pack_array (length arr) arr (depth + 1) (wb_table_size b (int (length arr))) = Inr b1"
      "wrote_bytes (wb_table_size b (int (length arr))) (enc_list arr) b1"
    using "7.IH"(1) [OF n [symmetric]] "7.prems" by auto
  obtain b2 where 2: "pack_pairs (int (length arr)) prs (depth + 1) b1 = Inr b2" "wrote_bytes b1 (enc_pairs (int (length arr)) prs) b2"
    using "7.IH"(2) [OF n [symmetric]] 1(1) "7.prems" by auto
  show ?case using 1 2 "7.prems" wrote_trans [OF wrote_trans [OF wrote_table_size 1(2)] 2(2)]
    by (simp add: n check_depth_def)
next
  case (8 prs depth b)
  then obtain b1 where 1: "pack_pairs 0 prs (depth + 1) (wb_push b [COMBINE_TYPE TYPE_TABLE 0]) = Inr b1"
      "wrote_bytes (wb_push b [COMBINE_TYPE TYPE_TABLE 0]) (enc_pairs 0 prs) b1" by auto
  show ?case using 1 "8.prems" wrote_trans [OF wrote_push 1(2)] by (simp add: enc_size_def check_depth_def)
next
  case (12 n v vs depth b)
  obtain b1 where 1: "pack_one v depth b = Inr b1" "wrote_bytes b (enc v) b1" using "12.IH"(1) "12.prems" by auto
  obtain b2 where 2: "pack_array n vs depth b1 = Inr b2" "wrote_bytes b1 (enc_list vs) b2" using "12.IH"(2) [OF 1(1)] "12.prems" by auto
  show ?case using 1 2 wrote_trans [OF 1(2) 2(2)] by simp
next
  case (14 array_size k v prs depth b)
  show ?case
  proof (cases "in_array array_size k")
    case True
    then show ?thesis using 14 by simp
  next
    case False
    obtain b1 where 1: "pack_one k depth b = Inr b1" "wrote_bytes b (enc k) b1" using "14.IH"(2) [OF False] "14.prems" False by auto
    obtain b2 where 2: "pack_one v depth b1 = Inr b2" "wrote_bytes b1 (enc v) b2" using "14.IH"(3) [OF False 1(1)] "14.prems" False by auto
    obtain b3 where 3: "pack_pairs array_size prs depth b2 = Inr b3" "wrote_bytes b2 (enc_pairs array_size prs) b3"
      using "14.IH"(4) [OF False 1(1) 2(1)] "14.prems" by auto
    show ?thesis using False 1 2 3 wrote_trans [OF wrote_trans [OF 1(2) 2(2)] 3(2)] by simp
  qed
qed (simp_all add: check_depth_def wb_nil_def wb_boolean_def wb_real_def wb_pointer_def wrote_nothing wrote_push wrote_tagged wrote_integer wrote_string)

subsection \<open>Reading the format\<close>

lemma le_num_bytes: "k \<le> 8 \<Longrightarrow> le_num (le_bytes k w) = take_bit (8 * k) w"
proof (induction k arbitrary: w)
  case 0
  then show ?case by (simp add: le_num_def le_bytes_def)
next
  case (Suc k)
  have "le_bytes (Suc k) w = ucast w # le_bytes k (drop_bit 8 w)"
    by (simp add: le_bytes_def map_upt_Suc add.commute del: upt_Suc)
  then have "le_num (le_bytes (Suc k) w) = ucast (ucast w :: u8) OR push_bit 8 (take_bit (8 * k) (drop_bit 8 w))"
    using Suc by (simp add: le_num_def)
  also have "\<dots> = take_bit (8 * Suc k) w" by (rule bit_word_eqI) (auto simp: bit_simps)
  finally show ?case .
qed

lemma length_le_bytes [simp]: "length (le_bytes k w) = k"
  by (simp add: le_bytes_def)

lemma rb_number_bytes: "k \<le> 8 \<Longrightarrow> rb_number (le_bytes k w @ rest) k = Some (Inr (take_bit (8 * k) w, rest))"
  by (simp add: rb_number_def rb_read_def le_num_bytes)

lemma rbind_simps [simp]:
  "rbind (Some (Inr (x, rb))) f = f x rb" "rbind (Some (Inl e)) f = Some (Inl e)" "rbind None f = None" "rbind invalid_stream f = invalid_stream"
  by (simp_all add: rbind_def invalid_stream_def)

lemma combine_split:
  assumes "t < 8" "c < 32"
  shows "COMBINE_TYPE t c AND 7 = t" "drop_bit 3 (COMBINE_TYPE t c) = c"
proof -
  have "take_bit 3 t = t" "take_bit 5 c = c"
    using assms unfolding word_unat_eq_iff unsigned_take_bit_eq take_bit_eq_mod by (simp_all add: word_less_nat_alt unat_mod)
  then have b: "bit t n \<Longrightarrow> n < 3" "bit c n \<Longrightarrow> n < 5" for n by (metis bit_take_bit_iff)+
  have m: "(7 :: u8) = mask 3" by (simp add: mask_eq_exp_minus_1)
  show "COMBINE_TYPE t c AND 7 = t" unfolding COMBINE_TYPE_def m by (rule bit_word_eqI) (auto simp: bit_simps dest: b)
  show "drop_bit 3 (COMBINE_TYPE t c) = c" unfolding COMBINE_TYPE_def
    by (rule bit_word_eqI) (auto simp: bit_simps dest: b)
qed


lemma integer_cases:
  fixes v :: u64
  shows "v \<noteq> 0 \<Longrightarrow> v < 0x100 \<Longrightarrow> take_bit 8 v = v" "v < 0x10000 \<Longrightarrow> take_bit 16 v = v" "take_bit 64 v = v"
    and "scast (ucast (take_bit 32 v) :: u32) = (scast (ucast v :: u32) :: u64)"
proof -
  show "v \<noteq> 0 \<Longrightarrow> v < 0x100 \<Longrightarrow> take_bit 8 v = v" "v < 0x10000 \<Longrightarrow> take_bit 16 v = v"
    unfolding word_unat_eq_iff unsigned_take_bit_eq take_bit_eq_mod by (simp_all add: word_less_nat_alt unat_mod)
  show "take_bit 64 v = v" by (rule bit_word_eqI) (auto simp: bit_simps)
  have "(ucast (take_bit 32 v) :: u32) = ucast v" by (rule bit_word_eqI) (auto simp: bit_simps)
  then show "scast (ucast (take_bit 32 v) :: u32) = (scast (ucast v :: u32) :: u64)" by simp
qed

lemmas type_defs = TYPE_NIL_def TYPE_BOOLEAN_def TYPE_NUMBER_def TYPE_USERDATA_def TYPE_SHORT_STRING_def TYPE_LONG_STRING_def TYPE_TABLE_def
  TYPE_NUMBER_ZERO_def TYPE_NUMBER_BYTE_def TYPE_NUMBER_WORD_def TYPE_NUMBER_DWORD_def TYPE_NUMBER_QWORD_def TYPE_NUMBER_REAL_def

text \<open>The tag of an integer and what follows it.\<close>

lemma enc_integer_parts:
  "\<exists>c bs. enc_integer v = COMBINE_TYPE TYPE_NUMBER c # bs \<and> c < 32 \<and> c \<noteq> TYPE_NUMBER_REAL \<and>
     (\<forall>rest. get_integer (bs @ rest) c = Some (Inr (v, rest)))"
proof -
  consider "v = 0" | "v \<noteq> 0" "v \<noteq> scast (ucast v :: u32)" | "v \<noteq> 0" "v = scast (ucast v :: u32)" "\<not> (0 \<le> sint v \<and> v < 0x10000)"
    | "v \<noteq> 0" "v = scast (ucast v :: u32)" "0 \<le> sint v" "v < 0x100" | "v \<noteq> 0" "v = scast (ucast v :: u32)" "0 \<le> sint v" "\<not> v < 0x100" "v < 0x10000"
    by blast
  then show ?thesis
  proof cases
    case 1
    then show ?thesis by (intro exI [of _ TYPE_NUMBER_ZERO] exI [of _ "[]"]) (simp add: enc_integer_def get_integer_def type_defs)
  next
    case 2
    then show ?thesis
      by (intro exI [of _ TYPE_NUMBER_QWORD] exI [of _ "le_bytes 8 v"])
        (simp add: enc_integer_def get_integer_def type_defs rb_number_bytes integer_cases)
  next
    case 3
    have "v < 0x100 \<Longrightarrow> v < 0x10000" by (erule order_less_trans) simp
    then have "enc_integer v = COMBINE_TYPE TYPE_NUMBER TYPE_NUMBER_DWORD # le_bytes 4 v"
      using 3 by (auto simp: enc_integer_def)
    then show ?thesis using 3(2)
      by (intro exI [of _ TYPE_NUMBER_DWORD] exI [of _ "le_bytes 4 v"])
        (simp add: get_integer_def type_defs rb_number_bytes integer_cases)
  next
    case 4
    then have "enc_integer v = COMBINE_TYPE TYPE_NUMBER TYPE_NUMBER_BYTE # le_bytes 1 v" by (simp add: enc_integer_def)
    then show ?thesis using integer_cases(1) 4
      by (intro exI [of _ TYPE_NUMBER_BYTE] exI [of _ "le_bytes 1 v"])
        (simp add: get_integer_def type_defs rb_number_bytes)
  next
    case 5
    then have "enc_integer v = COMBINE_TYPE TYPE_NUMBER TYPE_NUMBER_WORD # le_bytes 2 v" by (simp add: enc_integer_def)
    then show ?thesis using integer_cases(2) 5
      by (intro exI [of _ TYPE_NUMBER_WORD] exI [of _ "le_bytes 2 v"])
        (simp add: get_integer_def type_defs rb_number_bytes)
  qed
qed

declare unpack_one.simps [simp del] push_value.simps [simp del] unpack_table.simps [simp del] unpack_pairs.simps [simp del]

lemma unpack_tag:
  "t < 8 \<Longrightarrow> c < 32 \<Longrightarrow> unpack_one (Suc fuel) (COMBINE_TYPE t c # bs) = push_value fuel bs t c"
  by (simp add: unpack_one.simps rb_read_def combine_split)

lemma plain_tag: "(t :: u8) = COMBINE_TYPE t 0"
  by (simp add: COMBINE_TYPE_def)

lemma unpack_integer: "unpack_one (Suc fuel) (enc_integer v @ rest) = Some (Inr (LInt v, rest))"
proof -
  obtain c bs where c: "enc_integer v = COMBINE_TYPE TYPE_NUMBER c # bs" "c < 32" "c \<noteq> TYPE_NUMBER_REAL"
      "get_integer (bs @ rest) c = Some (Inr (v, rest))" using enc_integer_parts [of v] by blast
  have "unpack_one (Suc fuel) (enc_integer v @ rest) = push_value fuel (bs @ rest) TYPE_NUMBER c"
    unfolding c(1) append_Cons by (rule unpack_tag) (simp_all add: c(2) type_defs)
  then show ?thesis using c(3,4) by (simp add: push_value.simps type_defs)
qed

lemma small_numbers:
  assumes "n < 2 ^ 31"
  shows "sint (ucast (word_of_nat n :: u64) :: cint) = int n" "(ucast (take_bit 32 w) :: u32) = ucast (w :: u64)"
    and "n < 65536 \<Longrightarrow> uint (take_bit 16 (word_of_nat n :: u64)) = int n"
proof -
  have u: "unat (word_of_nat n :: u64) = n" using assms by (simp add: unat_of_nat)
  have "(ucast (word_of_nat n :: u64) :: cint) = word_of_nat (unat (word_of_nat n :: u64))" by simp
  then show "sint (ucast (word_of_nat n :: u64) :: cint) = int n" unfolding u using sint_word_of_nat [OF assms] by simp
  show "(ucast (take_bit 32 w) :: u32) = ucast (w :: u64)" by (rule bit_word_eqI) (auto simp: bit_simps)
  show "uint (take_bit 16 (word_of_nat n :: u64)) = int n" if "n < 65536"
  proof -
    have "unat (take_bit 16 (word_of_nat n :: u64)) = n" unfolding unsigned_take_bit_eq take_bit_eq_mod using that u by (simp add: unat_mod)
    then show ?thesis by (metis uint_nat)
  qed
qed

lemma unpack_string:
  assumes "int (length s) < 2 ^ 31"
  shows "unpack_one (Suc fuel) (enc_string s @ rest) = Some (Inr (LString s, rest))"
proof -
  have gb: "get_buffer (s @ rest) (int (length s)) = Some (Inr (s, rest))" by (simp add: get_buffer_def rb_read_def)
  consider "length s < 32" | "32 \<le> length s" "length s < 65536" | "65536 \<le> length s" by linarith
  then show ?thesis
  proof cases
    case 1
    have c: "(word_of_nat (length s) :: u8) < 32" "uint (word_of_nat (length s) :: u8) = int (length s)"
      using 1 by (simp_all add: word_less_nat_alt unat_of_nat uint_nat)
    have "unpack_one (Suc fuel) (enc_string s @ rest) = push_value fuel (s @ rest) TYPE_SHORT_STRING (word_of_nat (length s))"
      using 1 unpack_tag [OF _ c(1), of TYPE_SHORT_STRING fuel "s @ rest"] by (simp add: enc_string_def type_defs)
    then show ?thesis by (simp add: push_value.simps type_defs c(2) gb)
  next
    case 2
    have n: "uint (take_bit (8 * 2) (word_of_nat (length s) :: u64)) = int (length s)"
      using small_numbers(3) [of "length s"] assms 2 by simp
    have "unpack_one (Suc fuel) (enc_string s @ rest) = push_value fuel (le_bytes 2 (word_of_nat (length s)) @ s @ rest) TYPE_LONG_STRING 2"
      using 2 unpack_tag [of TYPE_LONG_STRING 2 fuel "le_bytes 2 (word_of_nat (length s)) @ s @ rest"] by (simp add: enc_string_def type_defs)
    then show ?thesis using n by (simp add: push_value.simps type_defs rb_number_bytes gb)
  next
    case 3
    have n: "sint (ucast (take_bit (8 * 4) (word_of_nat (length s) :: u64)) :: cint) = int (length s)"
      using small_numbers(1,2) [of "length s"] assms by simp
    have "unpack_one (Suc fuel) (enc_string s @ rest) = push_value fuel (le_bytes 4 (word_of_nat (length s)) @ s @ rest) TYPE_LONG_STRING 4"
      using 3 unpack_tag [of TYPE_LONG_STRING 4 fuel "le_bytes 4 (word_of_nat (length s)) @ s @ rest"] by (simp add: enc_string_def type_defs)
    then show ?thesis using n by (simp add: push_value.simps type_defs rb_number_bytes gb)
  qed
qed

lemma unpack_size:
  assumes "int n < 2 ^ 31"
  shows "\<exists>bs c. enc_size n = COMBINE_TYPE TYPE_TABLE c # bs \<and> c < 32 \<and> (\<forall>rest. get_array_size (bs @ rest) c = Some (Inr (int n, rest)))"
proof (cases "31 \<le> n")
  case True
  obtain c bs where c: "enc_integer (word_of_nat n) = COMBINE_TYPE TYPE_NUMBER c # bs" "c < 32" "c \<noteq> TYPE_NUMBER_REAL"
      "\<And>rest. get_integer (bs @ rest) c = Some (Inr (word_of_nat n, rest))" using enc_integer_parts [of "word_of_nat n"] by blast
  have n: "sint (ucast (word_of_nat n :: u64) :: u32) = int n" using small_numbers(1) [of n] assms by simp
  have "get_array_size (enc_integer (word_of_nat n) @ rest) 31 = Some (Inr (int n, rest))" for rest
    using c combine_split [of TYPE_NUMBER c] n by (simp add: get_array_size_def MAX_COOKIE_def rb_read_def Let_def type_defs)
  then show ?thesis using True by (intro exI [of _ "enc_integer (word_of_nat n)"] exI [of _ 31]) (simp add: enc_size_def)
next
  case False
  then have "(word_of_nat n :: u8) < 32" "uint (word_of_nat n :: u8) = int n" by (simp_all add: word_less_nat_alt unat_of_nat uint_nat)
  then show ?thesis using False
    by (intro exI [of _ "[]"] exI [of _ "word_of_nat n"]) (simp add: enc_size_def get_array_size_def MAX_COOKIE_def)
qed

lemma stored_key: "stored k = LNil \<longleftrightarrow> k = LNil" "is_nan (stored k) = is_nan k"
  by (cases k; simp add: is_nan_def)+

lemma length_enc: "packable d v \<Longrightarrow> 0 < length (enc v)"
  by (cases v) (auto simp: enc_integer_def enc_string_def enc_size_def)

lemma unpack_enc:
  "packable d v \<Longrightarrow> 2 * length (enc v @ rest) + 1 \<le> fuel \<Longrightarrow> unpack_one fuel (enc v @ rest) = Some (Inr (stored v, rest))"
  "packable_list d vs \<Longrightarrow> 2 * length (enc_list vs @ rest) + 1 \<le> fuel \<Longrightarrow>
     unpack_array fuel (length vs) (enc_list vs @ rest) = Some (Inr (stored_list vs, rest))"
  "packable_pairs d n prs \<Longrightarrow> 2 * length (enc_pairs n prs @ rest) + 2 \<le> fuel \<Longrightarrow>
     unpack_pairs fuel (enc_pairs n prs @ rest) = Some (Inr (stored_pairs n prs, rest))"
proof (induction v and vs and n prs arbitrary: d rest fuel and d rest fuel and d rest fuel rule: enc_enc_list_enc_pairs.induct)
  case 1
  then obtain f where "fuel = Suc f" by (cases fuel) auto
  then show ?case using unpack_tag [of TYPE_NIL 0 f rest] plain_tag [of TYPE_NIL] by (simp add: push_value.simps type_defs)
next
  case (2 x)
  then obtain f where "fuel = Suc f" by (cases fuel) auto
  then show ?case using unpack_tag [of TYPE_BOOLEAN "if x then 1 else 0" f rest] by (simp add: push_value.simps type_defs)
next
  case (3 v)
  then obtain f where "fuel = Suc f" by (cases fuel) auto
  then show ?case by (simp add: unpack_integer)
next
  case (4 v)
  then obtain f where "fuel = Suc f" by (cases fuel) auto
  then show ?case using unpack_tag [of TYPE_NUMBER TYPE_NUMBER_REAL f "le_bytes 8 v @ rest"]
    by (simp add: push_value.simps type_defs get_real_def rb_number_bytes integer_cases)
next
  case (5 v)
  then obtain f where "fuel = Suc f" by (cases fuel) auto
  then show ?case using unpack_tag [of TYPE_USERDATA 0 f "le_bytes 8 v @ rest"] plain_tag [of TYPE_USERDATA]
    by (simp add: push_value.simps type_defs get_pointer_def rb_number_bytes integer_cases)
next
  case (6 s)
  then obtain f where "fuel = Suc f" by (cases fuel) auto
  then show ?case using "6.prems"(1) by (simp add: unpack_string)
next
  case (7 arr prs)
  obtain c bs where c: "enc_size (length arr) = COMBINE_TYPE TYPE_TABLE c # bs" "c < 32"
      "\<And>rest. get_array_size (bs @ rest) c = Some (Inr (int (length arr), rest))"
    using unpack_size [of "length arr"] "7.prems"(1) by auto
  obtain f where f: "fuel = Suc f" using "7.prems"(2) by (cases fuel) auto
  have "unpack_one fuel (enc (LTable arr prs) @ rest) = push_value f (bs @ enc_list arr @ enc_pairs (int (length arr)) prs @ rest) TYPE_TABLE c"
    unfolding f using unpack_tag [OF _ c(2), of TYPE_TABLE f] by (simp add: c(1) type_defs)
  also have "\<dots> = unpack_table f (bs @ enc_list arr @ enc_pairs (int (length arr)) prs @ rest) c"
    by (simp add: push_value.simps type_defs)
  finally show ?case
    using "7.IH"(1) [of "Suc d" "enc_pairs (int (length arr)) prs @ rest" f] "7.IH"(2) [of "Suc d" rest f] "7.prems" f c(1,3)
    by (simp add: unpack_table.simps)
next
  case (8 prs)
  obtain f where f: "fuel = Suc f" using "8.prems"(2) by (cases fuel) auto
  have "unpack_one fuel (enc (LPairs prs) @ rest) = push_value f (enc_pairs 0 prs @ rest) TYPE_TABLE 0"
    unfolding f using unpack_tag [of TYPE_TABLE 0 f] by (simp add: enc_size_def type_defs)
  also have "\<dots> = unpack_table f (enc_pairs 0 prs @ rest) 0" by (simp add: push_value.simps type_defs)
  finally show ?case using "8.IH" [of "Suc d" rest f] "8.prems" f
    by (simp add: unpack_table.simps get_array_size_def MAX_COOKIE_def enc_size_def)
next
  case (11 v vs)
  then show ?case using "11.IH"(1) [of d "enc_list vs @ rest" fuel] "11.IH"(2) [of d rest fuel] by simp
next
  case (12 n)
  then obtain f where f: "fuel = Suc (Suc f)" by (cases fuel; cases "fuel - 1") auto
  then show ?case using unpack_tag [of TYPE_NIL 0 f rest] plain_tag [of TYPE_NIL]
    by (simp add: unpack_pairs.simps push_value.simps type_defs)
next
  case (13 n k v prs)
  show ?case
  proof (cases "in_array n k")
    case True
    then show ?thesis using 13 by simp
  next
    case False
    obtain f where f: "fuel = Suc f" using "13.prems"(2) by (cases fuel) auto
    have pk: "packable d k" "k \<noteq> LNil" "\<not> is_nan k" "packable d v" "packable_pairs d n prs" using "13.prems"(1) False by auto
    have "unpack_one f (enc k @ enc v @ enc_pairs n prs @ rest) = Some (Inr (stored k, enc v @ enc_pairs n prs @ rest))"
      using "13.IH"(1) [OF False pk(1), of "enc v @ enc_pairs n prs @ rest" f] "13.prems"(2) f False by simp
    moreover have "unpack_one f (enc v @ enc_pairs n prs @ rest) = Some (Inr (stored v, enc_pairs n prs @ rest))"
      using "13.IH"(2) [OF False pk(4), of "enc_pairs n prs @ rest" f] "13.prems"(2) f False by simp
    moreover have "unpack_pairs f (enc_pairs n prs @ rest) = Some (Inr (stored_pairs n prs, rest))"
      by (rule "13.IH"(3) [OF pk(5)]) (use "13.prems"(2) f False length_enc [OF pk(1)] in \<open>simp del: length_greater_0_conv\<close>)
    ultimately show ?thesis using False pk by (simp add: f unpack_pairs.simps stored_key)
  qed
qed simp_all

lemma unpack_all_step:
  "rb \<noteq> [] \<Longrightarrow> unpack_all (Suc f) rb =
     rbind (unpack_one (Suc f) rb) (\<lambda>v rb. rbind (unpack_all f rb) (\<lambda>vs rb. Some (Inr (v # vs, rb))))"
  by (cases rb) (simp_all add: unpack_one.simps rb_read_def)

lemma unpack_all_enc:
  "\<forall>v \<in> set vs. packable 0 v \<Longrightarrow> 2 * length (concat (map enc vs)) + 1 \<le> fuel \<Longrightarrow>
     unpack_all fuel (concat (map enc vs)) = Some (Inr (map stored vs, []))"
proof (induction vs arbitrary: fuel)
  case Nil
  then show ?case by (cases fuel) (simp_all add: rb_read_def)
next
  case (Cons v vs)
  then obtain f where f: "fuel = Suc f" by (cases fuel) auto
  have ne: "0 < length (enc v)" using length_enc [of 0 v] Cons.prems by simp
  have "unpack_one (Suc f) (enc v @ concat (map enc vs)) = Some (Inr (stored v, concat (map enc vs)))"
    using unpack_enc(1) [of 0 v "concat (map enc vs)" "Suc f"] Cons.prems f by simp
  moreover have "unpack_all f (concat (map enc vs)) = Some (Inr (map stored vs, []))"
    by (rule Cons.IH) (use Cons.prems f ne in \<open>simp_all del: length_greater_0_conv\<close>)
  ultimately show ?case using ne unfolding f list.map concat.simps
    by (subst unpack_all_step) auto
qed

lemma pack_from_enc:
  "\<forall>v \<in> set vs. packable 0 v \<Longrightarrow> \<exists>b'. pack_from vs b = Inr b' \<and> wrote_bytes b (concat (map enc vs)) b'"
proof (induction vs arbitrary: b)
  case Nil
  then show ?case by (simp add: wrote_nothing)
next
  case (Cons v vs)
  obtain b1 where 1: "pack_one v 0 b = Inr b1" "wrote_bytes b (enc v) b1" using pack_writes(1) [of 0 v b] Cons.prems by auto
  obtain b2 where "pack_from vs b1 = Inr b2" "wrote_bytes b1 (concat (map enc vs)) b2" using Cons by fastforce
  then show ?case using 1 wrote_trans [OF 1(2)] by auto
qed

subsection \<open>Reading returns\<close>

text \<open>A reading that returns and leaves at most \<open>n\<close> bytes.\<close>

definition returns :: "nat \<Rightarrow> 'a reading \<Rightarrow> bool" where
  "returns n m \<longleftrightarrow> m \<noteq> None \<and> (\<forall>x rb. m = Some (Inr (x, rb)) \<longrightarrow> length rb \<le> n)"

lemma returns_bind:
  assumes "returns n m" "\<And>x rb. length rb \<le> n \<Longrightarrow> returns k (f x rb)"
  shows "returns k (rbind m f)"
proof (cases m)
  case (Some r)
  then show ?thesis using assms by (cases r) (auto simp: returns_def)
qed (use assms in \<open>simp add: returns_def\<close>)

lemma returns_simps [simp]: "returns n (Some (Inr (x, rb))) \<longleftrightarrow> length rb \<le> n" "returns n (Some (Inl e))" "returns n invalid_stream"
  by (simp_all add: returns_def invalid_stream_def)

lemma returns_mono: "returns n m \<Longrightarrow> n \<le> k \<Longrightarrow> returns k m"
  by (auto simp: returns_def)

lemma number_returns: "returns (length rb) (rb_number rb k)"
  by (simp add: rb_number_def rb_read_def)

lemma get_returns:
  "returns (length rb) (get_integer rb c)" "returns (length rb) (get_real rb)" "returns (length rb) (get_pointer rb)"
  "returns (length rb) (get_buffer rb len)" "returns (length rb) (get_array_size rb c)"
proof -
  show int: "returns (length rb) (get_integer rb c)" for rb c
    unfolding get_integer_def by (auto intro!: returns_bind [OF number_returns])
  show "returns (length rb) (get_real rb)" "returns (length rb) (get_pointer rb)"
    unfolding get_real_def get_pointer_def by (auto intro!: returns_bind [OF number_returns])
  show "returns (length rb) (get_buffer rb len)" by (simp add: get_buffer_def rb_read_def)
  show "returns (length rb) (get_array_size rb c)"
    unfolding get_array_size_def rb_read_def Let_def by (auto intro!: returns_bind [OF int])
qed

lemma unpack_returns:
  "2 * length rb + 1 \<le> fuel \<Longrightarrow> returns (length rb - 1) (unpack_one fuel rb)"
  "2 * length rb + 2 \<le> fuel \<Longrightarrow> returns (length rb) (push_value fuel rb type cookie)"
  "2 * length rb + 2 \<le> fuel \<Longrightarrow> returns (length rb) (unpack_table fuel rb c)"
  "2 * length rb + 1 \<le> fuel \<Longrightarrow> returns (length rb) (unpack_array fuel k rb)"
  "2 * length rb + 2 \<le> fuel \<Longrightarrow> returns (length rb) (unpack_pairs fuel rb)"
proof (induction fuel rb and fuel rb type cookie and fuel rb c and fuel k rb and fuel rb rule: unpack_one_push_value_unpack_table_unpack_array_unpack_pairs.induct)
  case (2 fuel rb)
  show ?case
  proof (cases rb)
    case (Cons a l)
    then have "rb_read rb 1 = Some ([a], l)" by (simp add: rb_read_def)
    then show ?thesis using "2.IH" [OF _ refl] "2.prems" Cons by (simp add: unpack_one.simps)
  qed (simp add: unpack_one.simps rb_read_def)
next
  case (3 fuel rb type cookie)
  then show ?case
    unfolding push_value.simps by (auto intro!: returns_bind [OF get_returns(1)] returns_bind [OF get_returns(2)] returns_bind [OF get_returns(3)]
      returns_bind [OF get_returns(4)] returns_bind [OF number_returns] elim: returns_mono)
next
  case (4 fuel rb array_size)
  show ?case unfolding unpack_table.simps
    by (intro returns_bind [OF get_returns(5)] returns_bind [OF returns_mono [OF "4.IH"(1)]] returns_bind [OF returns_mono [OF "4.IH"(2)]])
      (use "4.prems" in auto)
next
  case (6 fuel k rb)
  show ?case unfolding unpack_array.simps
    by (rule returns_bind [OF "6.IH"(1)], (use "6.prems" in simp), rule returns_bind [OF returns_mono [OF "6.IH"(2)]]) (use "6.prems" in auto)
next
  case (8 fuel rb)
  have 1: "2 * length rb + 1 \<le> fuel" using "8.prems" by simp
  have 2: "2 * length y + 1 \<le> fuel" if "length y \<le> length rb - 1" for y :: byte_list using 1 that by simp
  have 3: "2 * length y + 2 \<le> fuel" if "length y \<le> length rb - 1 - 1" "0 < length rb" for y :: byte_list using 1 that by linarith
  show ?case
  proof (cases rb)
    case Nil
    then have "unpack_one fuel rb = invalid_stream" using 1 by (cases fuel) (simp_all add: unpack_one.simps rb_read_def)
    then show ?thesis by (simp add: unpack_pairs.simps)
  next
    case (Cons a l)
    show ?thesis unfolding unpack_pairs.simps
    proof (rule returns_bind [OF "8.IH"(1) [OF 1]])
      fix k y
      assume y: "length (y :: byte_list) \<le> length rb - 1"
      show "returns (length rb) (if k = LNil then Some (Inr ([], y)) else rbind (unpack_one fuel y) (\<lambda>v rb. if is_nan k then Some (Inl Index_is_NaN)
          else rbind (unpack_pairs fuel rb) (\<lambda>prs rb. Some (Inr ((k, v) # prs, rb)))))"
      proof (cases "k = LNil")
        case False
        have "returns (length rb - 1 - 1) (unpack_one fuel y)" using returns_mono [OF "8.IH"(2) [OF False 2 [OF y]]] y by simp
        moreover have "returns (length rb) (if is_nan k then Some (Inl Index_is_NaN) else rbind (unpack_pairs fuel z) (\<lambda>prs rb. Some (Inr ((k, v) # prs, rb))))"
          if z: "length (z :: byte_list) \<le> length rb - 1 - 1" for v z
        proof (cases "is_nan k")
          case nan: False
          have "returns (length rb) (unpack_pairs fuel z)"
            using returns_mono [OF "8.IH"(3) [OF False nan 3 [OF z]]] z Cons by simp
          then show ?thesis using nan by (simp add: returns_bind)
        qed simp
        ultimately show ?thesis using False by (simp add: returns_bind)
      qed (use y in simp)
    qed
  qed
qed simp_all

lemma unpack_all_returns: "2 * length rb + 3 \<le> fuel \<Longrightarrow> returns (length rb) (unpack_all fuel rb)"
proof (induction fuel arbitrary: rb)
  case (Suc f)
  show ?case
  proof (cases rb)
    case Nil
    then show ?thesis by (simp add: rb_read_def)
  next
    case (Cons a l)
    have one: "returns (length l) (unpack_one (Suc f) rb)" using unpack_returns(1) [of rb "Suc f"] Suc.prems Cons by simp
    have "returns (length rb) (rbind (unpack_one (Suc f) rb) (\<lambda>v rb. rbind (unpack_all f rb) (\<lambda>vs rb. Some (Inr (v # vs, rb)))))"
      by (rule returns_bind [OF one], rule returns_bind [OF returns_mono [OF Suc.IH]]) (use Suc.prems Cons in auto)
    then show ?thesis by (subst unpack_all_step) (simp_all add: Cons)
  qed
qed simp

subsection \<open>Tables keep their entries\<close>

text \<open>
  The entries of a table with the array part \<open>arr\<close>; a view is consistent when the pairs whose key
  lies in the array part are the elements of that part.
\<close>

definition table_entries :: "lval list \<Rightarrow> (lval \<times> lval) list \<Rightarrow> (lval \<times> lval) set" where
  "table_entries arr prs = {(LInt (word_of_nat (i + 1)), arr ! i) | i. i < length arr \<and> arr ! i \<noteq> LNil} \<union> set prs"

definition consistent_view :: "lval list \<Rightarrow> (lval \<times> lval) list \<Rightarrow> bool" where
  "consistent_view arr prs \<longleftrightarrow>
     (\<forall>(k, v) \<in> set prs. in_array (int (length arr)) k \<longrightarrow>
        (\<exists>i < length arr. k = LInt (word_of_nat (i + 1)) \<and> v = arr ! i \<and> v \<noteq> LNil))"

lemma stored_pairs_filter:
  "stored_pairs n prs = map (map_prod stored stored) (filter (\<lambda>(k, v). \<not> in_array n k) prs)"
  by (induction prs) auto

lemma skipped_pairs_kept:
  assumes "consistent_view arr prs"
  shows "table_entries arr (filter (\<lambda>(k, v). \<not> in_array (int (length arr)) k) prs) = table_entries arr prs"
proof -
  have "(k, v) \<in> table_entries arr (filter (\<lambda>(k, v). \<not> in_array (int (length arr)) k) prs)" if p: "(k, v) \<in> set prs" for k v
  proof (cases "in_array (int (length arr)) k")
    case True
    then obtain i where "i < length arr" "k = LInt (word_of_nat (i + 1))" "v = arr ! i" "v \<noteq> LNil"
      using bspec [OF assms [unfolded consistent_view_def] p] by (simp only: prod.case) blast
    then show ?thesis by (auto simp add: table_entries_def simp del: of_nat_add of_nat_Suc)
  next
    case False
    then show ?thesis using p by (simp add: table_entries_def)
  qed
  then show ?thesis unfolding table_entries_def by auto
qed

subsection \<open>Properties\<close>




end
