(* ===== verification/Skynet_Lock.thy ===== *)
theory Skynet_Lock
  imports Skynet_Prelude
begin

text \<open>
  The locks of \<^verbatim>\<open>rwlock.h\<close> and \<^verbatim>\<open>spinlock.h\<close>, in the variant without pthreads. The atomic
  operations of \<^verbatim>\<open>atomic.h\<close> are the steps: each thread is at a place of the code of a lock
  operation, and a step runs its next atomic operation. Any number of threads below \<open>2 ^ 32\<close> run in
  any order; memory is sequentially consistent. The handle registry, the modules, the queues and
  the timer rely on what is shown here when their locked sections are taken as one step.
\<close>

subsection \<open>The read-write lock\<close>

record rwlock =
  rw_write :: cint
  rw_read :: cint

definition rwlock_init :: rwlock where
  "rwlock_init = \<lparr>rw_write = 0, rw_read = 0\<rparr>"

text \<open>
  The places: outside; in \<open>rwlock_rlock\<close> before the first load of \<open>write\<close>, before the increment,
  before the second load, before the decrement; inside as a reader; in \<open>rwlock_wlock\<close> before the
  exchange and before the load of \<open>read\<close>; inside as the writer.
\<close>

datatype rw_place = RW_out | R_load | R_inc | R_check | R_undo | R_in | W_cas | W_wait | W_in

fun rwlock_rlock :: "rwlock \<Rightarrow> rw_place \<Rightarrow> rwlock \<times> rw_place" where
  "rwlock_rlock l R_load = (if rw_write l \<noteq> 0 then (l, R_load) else (l, R_inc))"
| "rwlock_rlock l R_inc = (l\<lparr>rw_read := rw_read l + 1\<rparr>, R_check)"
| "rwlock_rlock l R_check = (if rw_write l \<noteq> 0 then (l, R_undo) else (l, R_in))"
| "rwlock_rlock l R_undo = (l\<lparr>rw_read := rw_read l - 1\<rparr>, R_load)"
| "rwlock_rlock l p = (l, p)"

fun rwlock_wlock :: "rwlock \<Rightarrow> rw_place \<Rightarrow> rwlock \<times> rw_place" where
  "rwlock_wlock l W_cas = (if rw_write l = 0 then (l\<lparr>rw_write := 1\<rparr>, W_wait) else (l, W_cas))"
| "rwlock_wlock l W_wait = (if rw_read l \<noteq> 0 then (l, W_wait) else (l, W_in))"
| "rwlock_wlock l p = (l, p)"

definition rwlock_wunlock :: "rwlock \<Rightarrow> rwlock" where
  "rwlock_wunlock l = l\<lparr>rw_write := 0\<rparr>"

definition rwlock_runlock :: "rwlock \<Rightarrow> rwlock" where
  "rwlock_runlock l = l\<lparr>rw_read := rw_read l - 1\<rparr>"

type_synonym rw_state = "rwlock \<times> (nat \<Rightarrow> rw_place)"

inductive rw_step :: "nat \<Rightarrow> rw_state \<Rightarrow> rw_state \<Rightarrow> bool" for N where
  enter_read: "t < N \<Longrightarrow> pc t = RW_out \<Longrightarrow> rw_step N (l, pc) (l, pc(t := R_load))"
| enter_write: "t < N \<Longrightarrow> pc t = RW_out \<Longrightarrow> rw_step N (l, pc) (l, pc(t := W_cas))"
| rlock: "t < N \<Longrightarrow> pc t \<in> {R_load, R_inc, R_check, R_undo} \<Longrightarrow> rwlock_rlock l (pc t) = (l', p) \<Longrightarrow>
    rw_step N (l, pc) (l', pc(t := p))"
| wlock: "t < N \<Longrightarrow> pc t \<in> {W_cas, W_wait} \<Longrightarrow> rwlock_wlock l (pc t) = (l', p) \<Longrightarrow> rw_step N (l, pc) (l', pc(t := p))"
| runlock: "t < N \<Longrightarrow> pc t = R_in \<Longrightarrow> rw_step N (l, pc) (rwlock_runlock l, pc(t := RW_out))"
| wunlock: "t < N \<Longrightarrow> pc t = W_in \<Longrightarrow> rw_step N (l, pc) (rwlock_wunlock l, pc(t := RW_out))"

inductive_cases rw_stepE: "rw_step N (l, pc) s"

definition rw_reachable :: "nat \<Rightarrow> rw_state \<Rightarrow> bool" where
  "rw_reachable N s \<longleftrightarrow> (rw_step N)\<^sup>*\<^sup>* (rwlock_init, \<lambda>_. RW_out) s"

text \<open>The threads that are counted in \<open>read\<close> and the one that has set \<open>write\<close>.\<close>

definition counted :: "nat \<Rightarrow> (nat \<Rightarrow> rw_place) \<Rightarrow> nat set" where
  "counted N pc = {t. t < N \<and> pc t \<in> {R_check, R_undo, R_in}}"

definition writers :: "nat \<Rightarrow> (nat \<Rightarrow> rw_place) \<Rightarrow> nat set" where
  "writers N pc = {t. t < N \<and> pc t \<in> {W_wait, W_in}}"

definition rw_inv :: "nat \<Rightarrow> rw_state \<Rightarrow> bool" where
  "rw_inv N = (\<lambda>(l, pc).
     rw_read l = word_of_nat (card (counted N pc)) \<and>
     (rw_write l = 0 \<and> writers N pc = {} \<or> rw_write l = 1 \<and> (\<exists>w. writers N pc = {w})) \<and>
     (\<forall>t u. t < N \<longrightarrow> u < N \<longrightarrow> pc t = W_in \<longrightarrow> pc u \<noteq> R_in))"

lemma finite_counted [simp]: "finite (counted N pc)"
  by (simp add: counted_def)

lemma counted_upd:
  "t < N \<Longrightarrow> counted N (pc(t := p)) = (if p \<in> {R_check, R_undo, R_in} then insert t (counted N pc) else counted N pc - {t})"
  by (auto simp: counted_def)

lemma writers_upd:
  "t < N \<Longrightarrow> writers N (pc(t := p)) = (if p \<in> {W_wait, W_in} then insert t (writers N pc) else writers N pc - {t})"
  by (auto simp: writers_def)

lemma in_counted: "t < N \<Longrightarrow> t \<in> counted N pc \<longleftrightarrow> pc t \<in> {R_check, R_undo, R_in}"
  by (simp add: counted_def)

lemma in_writers: "t < N \<Longrightarrow> t \<in> writers N pc \<longleftrightarrow> pc t \<in> {W_wait, W_in}"
  by (simp add: writers_def)

lemma card_counted: "card (counted N pc) \<le> N"
proof -
  have "counted N pc \<subseteq> {..<N}" by (auto simp: counted_def)
  then show ?thesis using card_mono [of "{..<N}" "counted N pc"] by simp
qed

text \<open>What a move of one thread has to do with the lock.\<close>

definition in_read :: "rw_place \<Rightarrow> bool" where
  "in_read p \<longleftrightarrow> p \<in> {R_check, R_undo, R_in}"

definition in_write :: "rw_place \<Rightarrow> bool" where
  "in_write p \<longleftrightarrow> p \<in> {W_wait, W_in}"

definition rw_move :: "rwlock \<Rightarrow> rw_place \<Rightarrow> rwlock \<Rightarrow> rw_place \<Rightarrow> bool" where
  "rw_move l p l' p' \<longleftrightarrow>
     rw_read l' = rw_read l + of_bool (in_read p') - of_bool (in_read p) \<and>
     (if in_write p = in_write p' then rw_write l' = rw_write l
      else if in_write p' then rw_write l = 0 \<and> rw_write l' = 1 \<and> p' = W_wait
      else rw_write l' = 0) \<and>
     (p' = R_in \<longrightarrow> p = R_in \<or> rw_write l = 0) \<and> (p' = W_in \<longrightarrow> p = W_in \<or> rw_read l = 0)"

lemma rw_move_inv:
  assumes "rw_inv N (l, pc)" "t < N" "N < 2 ^ 32" "rw_move l (pc t) l' p'"
  shows "rw_inv N (l', pc(t := p'))"
proof -
  have c: "counted N (pc(t := p')) = (if in_read p' then insert t (counted N pc) else counted N pc - {t})"
    and ic: "t \<in> counted N pc \<longleftrightarrow> in_read (pc t)"
    and w: "writers N (pc(t := p')) = (if in_write p' then insert t (writers N pc) else writers N pc - {t})"
    and iw: "t \<in> writers N pc \<longleftrightarrow> in_write (pc t)"
    using assms(2) by (auto simp: counted_def writers_def in_read_def in_write_def)
  have inv: "rw_read l = word_of_nat (card (counted N pc))"
      "rw_write l = 0 \<and> writers N pc = {} \<or> rw_write l = 1 \<and> (\<exists>w. writers N pc = {w})"
      "\<forall>t u. t < N \<longrightarrow> u < N \<longrightarrow> pc t = W_in \<longrightarrow> pc u \<noteq> R_in"
    using assms(1) by (simp_all add: rw_inv_def)
  have "card (counted N (pc(t := p'))) + of_bool (in_read (pc t)) = card (counted N pc) + of_bool (in_read p')"
    using ic card_Suc_Diff1 [of "counted N pc" t] by (auto simp: c insert_absorb)
  then have "(word_of_nat (card (counted N (pc(t := p')))) :: cint) + of_bool (in_read (pc t)) = word_of_nat (card (counted N pc)) + of_bool (in_read p')"
    by (metis of_nat_add of_nat_of_bool)
  then have 1: "rw_read l' = word_of_nat (card (counted N (pc(t := p'))))"
    using assms(4) inv(1) by (simp add: rw_move_def algebra_simps) (metis add.commute add_right_cancel)
  have 2: "rw_write l' = 0 \<and> writers N (pc(t := p')) = {} \<or> rw_write l' = 1 \<and> (\<exists>w. writers N (pc(t := p')) = {w})"
    using assms(4) inv(2) iw unfolding w rw_move_def by (auto split: if_splits)
  have "pc u \<noteq> R_in" if "rw_read l = 0" "u < N" for u
  proof -
    have "card (counted N pc) < 2 ^ 32" using card_counted [of N pc] assms(3) by linarith
    then have "unat (rw_read l) = card (counted N pc)" using inv(1) by (simp add: unat_of_nat)
    then have "card (counted N pc) = 0" using that(1) by simp
    then show ?thesis using that(2) by (auto simp: counted_def)
  qed
  moreover have "pc u \<noteq> W_in" if "rw_write l = 0" "u < N" for u
    using inv(2) that by (auto simp: writers_def)
  ultimately have 3: "\<forall>s u. s < N \<longrightarrow> u < N \<longrightarrow> (pc(t := p')) s = W_in \<longrightarrow> (pc(t := p')) u \<noteq> R_in"
    using assms(2,4) inv(3) unfolding rw_move_def by auto
  show ?thesis using 1 2 3 by (simp add: rw_inv_def)
qed

lemma rw_step_inv:
  assumes "rw_step N s s'" "rw_inv N s" "N < 2 ^ 32"
  shows "rw_inv N s'"
  using assms(1)
proof cases
  case (enter_read t pc l)
  then show ?thesis using rw_move_inv [of N l pc t l R_load] assms(2,3) by (simp add: rw_move_def in_read_def in_write_def)
next
  case (enter_write t pc l)
  then show ?thesis using rw_move_inv [of N l pc t l W_cas] assms(2,3) by (simp add: rw_move_def in_read_def in_write_def)
next
  case (rlock t pc l l' p)
  then show ?thesis using rw_move_inv [of N l pc t l' p] assms(2,3) by (auto simp: rw_move_def in_read_def in_write_def split: if_splits)
next
  case (wlock t pc l l' p)
  then show ?thesis using rw_move_inv [of N l pc t l' p] assms(2,3) by (auto simp: rw_move_def in_read_def in_write_def split: if_splits)
next
  case (runlock t pc l)
  then show ?thesis using rw_move_inv [of N l pc t "rwlock_runlock l" RW_out] assms(2,3)
    by (simp add: rw_move_def in_read_def in_write_def rwlock_runlock_def)
next
  case (wunlock t pc l)
  then show ?thesis using rw_move_inv [of N l pc t "rwlock_wunlock l" RW_out] assms(2,3)
    by (simp add: rw_move_def in_read_def in_write_def rwlock_wunlock_def)
qed

lemma rw_inv_init: "rw_inv N (rwlock_init, \<lambda>_. RW_out)"
  by (simp add: rw_inv_def rwlock_init_def counted_def writers_def)

lemma rw_reachable_inv: "rw_reachable N s \<Longrightarrow> N < 2 ^ 32 \<Longrightarrow> rw_inv N s"
  unfolding rw_reachable_def by (induction rule: rtranclp_induct) (auto intro: rw_inv_init rw_step_inv)

subsection \<open>Progress\<close>

abbreviation rw_run :: "nat \<Rightarrow> rw_state \<Rightarrow> rw_state \<Rightarrow> bool" where
  "rw_run N \<equiv> (rw_step N)\<^sup>*\<^sup>*"

definition someone_inside :: "nat \<Rightarrow> rw_state \<Rightarrow> bool" where
  "someone_inside N = (\<lambda>(l, pc). \<exists>t < N. pc t = R_in \<or> pc t = W_in)"

text \<open>Without a writer, a thread that waits can get inside.\<close>

lemma waiter_enters:
  assumes "rw_inv N (l, pc)" "N < 2 ^ 32" "counted N pc = {}" "t < N" "pc t \<noteq> RW_out"
  shows "\<exists>s. rw_run N (l, pc) s \<and> someone_inside N s"
proof (cases "writers N pc = {}")
  case False
  then obtain w where w: "w < N" "pc w = W_wait \<or> pc w = W_in" by (auto simp: writers_def)
  have "rw_read l = 0" using assms(1,3) by (simp add: rw_inv_def)
  then have "pc w = W_wait \<Longrightarrow> rw_step N (l, pc) (l, pc(w := W_in))" using w(1) by (intro rw_step.wlock) simp_all
  moreover have "pc w = W_in \<Longrightarrow> pc(w := W_in) = pc" by auto
  ultimately have "rw_run N (l, pc) (l, pc(w := W_in))" using w(2) by (metis r_into_rtranclp rtranclp.rtrancl_refl)
  moreover have "someone_inside N (l, pc(w := W_in))" using w(1) by (auto simp: someone_inside_def)
  ultimately show ?thesis by blast
next
  case True
  have l: "rw_write l = 0" "rw_read l = 0" using assms(1,3) True by (auto simp: rw_inv_def)
  consider "pc t = R_load" | "pc t = R_inc" | "pc t = W_cas" | "pc t = R_in \<or> pc t = W_in"
    using assms(3-5) True by (cases "pc t") (auto simp: counted_def writers_def)
  then show ?thesis
  proof cases
    case 1
    let ?a = "(l, pc(t := R_inc))" and ?b = "(l\<lparr>rw_read := 1\<rparr>, pc(t := R_check))" and ?c = "(l\<lparr>rw_read := 1\<rparr>, pc(t := R_in))"
    have "rw_step N (l, pc) ?a" using 1 l assms(4) rw_step.rlock [of t N pc l l R_inc] by simp
    moreover have "rw_step N ?a ?b" using l assms(4) rw_step.rlock [of t N "pc(t := R_inc)" l "l\<lparr>rw_read := 1\<rparr>" R_check] by simp
    moreover have "rw_step N ?b ?c" using l assms(4) rw_step.rlock [of t N "pc(t := R_check)" "l\<lparr>rw_read := 1\<rparr>" "l\<lparr>rw_read := 1\<rparr>" R_in] by simp
    moreover have "someone_inside N ?c" using assms(4) by (auto simp: someone_inside_def)
    ultimately show ?thesis by (meson converse_rtranclp_into_rtranclp rtranclp.rtrancl_refl)
  next
    case 2
    let ?b = "(l\<lparr>rw_read := 1\<rparr>, pc(t := R_check))" and ?c = "(l\<lparr>rw_read := 1\<rparr>, pc(t := R_in))"
    have "rw_step N (l, pc) ?b" using 2 l assms(4) rw_step.rlock [of t N pc l "l\<lparr>rw_read := 1\<rparr>" R_check] by simp
    moreover have "rw_step N ?b ?c" using l assms(4) rw_step.rlock [of t N "pc(t := R_check)" "l\<lparr>rw_read := 1\<rparr>" "l\<lparr>rw_read := 1\<rparr>" R_in] by simp
    moreover have "someone_inside N ?c" using assms(4) by (auto simp: someone_inside_def)
    ultimately show ?thesis by (meson converse_rtranclp_into_rtranclp rtranclp.rtrancl_refl)
  next
    case 3
    let ?b = "(l\<lparr>rw_write := 1\<rparr>, pc(t := W_wait))" and ?c = "(l\<lparr>rw_write := 1\<rparr>, pc(t := W_in))"
    have "rw_step N (l, pc) ?b" using 3 l assms(4) rw_step.wlock [of t N pc l "l\<lparr>rw_write := 1\<rparr>" W_wait] by simp
    moreover have "rw_step N ?b ?c" using l assms(4) rw_step.wlock [of t N "pc(t := W_wait)" "l\<lparr>rw_write := 1\<rparr>" "l\<lparr>rw_write := 1\<rparr>" W_in] by simp
    moreover have "someone_inside N ?c" using assms(4) by (auto simp: someone_inside_def)
    ultimately show ?thesis by (meson converse_rtranclp_into_rtranclp rtranclp.rtrancl_refl)
  next
    case 4
    then show ?thesis using assms(4) by (auto simp: someone_inside_def)
  qed
qed

text \<open>A reader that is counted gets inside or takes its count back.\<close>

lemma undo_readers:
  assumes "rw_inv N (l, pc)" "N < 2 ^ 32" "t < N" "pc t \<noteq> RW_out"
  shows "\<exists>s. rw_run N (l, pc) s \<and> someone_inside N s"
  using assms
proof (induction "card (counted N pc)" arbitrary: l pc rule: less_induct)
  case less
  show ?case
  proof (cases "counted N pc = {} \<or> someone_inside N (l, pc)")
    case True
    then show ?thesis using waiter_enters [OF less.prems(1,2) _ less.prems(3,4)] by auto
  next
    case False
    then obtain u where u: "u < N" "pc u = R_check \<or> pc u = R_undo" by (auto simp: counted_def someone_inside_def)
    define pc1 where "pc1 = pc(u := R_undo)"
    define l2 where "l2 = l\<lparr>rw_read := rw_read l - 1\<rparr>"
    define pc2 where "pc2 = pc(u := R_load)"
    show ?thesis
    proof (cases "pc u = R_check \<and> rw_write l = 0")
      case True
      then have "rw_step N (l, pc) (l, pc(u := R_in))" using u(1) rw_step.rlock [of u N pc l l R_in] by simp
      then show ?thesis using u(1) by (intro exI [of _ "(l, pc(u := R_in))"]) (auto simp: someone_inside_def)
    next
      case no: False
      have "rw_run N (l, pc) (l, pc1)"
        using no u rw_step.rlock [of u N pc l l R_undo] by (cases "pc u = R_undo") (auto simp: pc1_def fun_upd_idem)
      moreover have "rw_step N (l, pc1) (l2, pc2)"
        using u(1) rw_step.rlock [of u N pc1 l l2 R_load] by (simp add: pc1_def pc2_def l2_def)
      ultimately have run: "rw_run N (l, pc) (l2, pc2)" by (rule rtranclp.rtrancl_into_rtrancl)
      then have inv: "rw_inv N (l2, pc2)" using less.prems(1,2)
        by (induction rule: rtranclp_induct) (auto intro: rw_step_inv)
      have "counted N pc2 = counted N pc - {u}" "u \<in> counted N pc" using u by (auto simp: counted_def pc2_def)
      then have "card (counted N pc2) < card (counted N pc)" using card_Diff1_less [of "counted N pc" u] by simp
      moreover have "pc2 t \<noteq> RW_out" using less.prems(4) by (simp add: pc2_def)
      ultimately obtain s where "rw_run N (l2, pc2) s" "someone_inside N s"
        using less.hyps [OF _ inv less.prems(2,3)] by blast
      then show ?thesis using run by (meson rtranclp_trans)
    qed
  qed
qed

subsection \<open>The spin lock\<close>

record spinlock =
  sp_lock :: cint

definition spinlock_init :: spinlock where
  "spinlock_init = \<lparr>sp_lock = 0\<rparr>"

text \<open>\<open>__sync_lock_test_and_set\<close>: the old value and the lock with the value 1.\<close>

definition test_and_set :: "spinlock \<Rightarrow> cint \<times> spinlock" where
  "test_and_set l = (sp_lock l, l\<lparr>sp_lock := 1\<rparr>)"

datatype spin_place = S_out | S_try | S_in

text \<open>One turn of the loop of \<open>spinlock_lock\<close>.\<close>

definition spinlock_lock :: "spinlock \<Rightarrow> spinlock \<times> spin_place" where
  "spinlock_lock l = (let (old, l) = test_and_set l in (l, if old \<noteq> 0 then S_try else S_in))"

definition spinlock_trylock :: "spinlock \<Rightarrow> bool \<times> spinlock" where
  "spinlock_trylock l = (let (old, l) = test_and_set l in (old = 0, l))"

definition spinlock_unlock :: "spinlock \<Rightarrow> spinlock" where
  "spinlock_unlock l = l\<lparr>sp_lock := 0\<rparr>"

inductive spin_step :: "spinlock \<times> (nat \<Rightarrow> spin_place) \<Rightarrow> spinlock \<times> (nat \<Rightarrow> spin_place) \<Rightarrow> bool" where
  enter: "pc t = S_out \<Longrightarrow> spin_step (l, pc) (l, pc(t := S_try))"
| lock: "pc t = S_try \<Longrightarrow> spinlock_lock l = (l', p) \<Longrightarrow> spin_step (l, pc) (l', pc(t := p))"
| trylock: "pc t = S_out \<Longrightarrow> spinlock_trylock l = (ok, l') \<Longrightarrow> spin_step (l, pc) (l', if ok then pc(t := S_in) else pc)"
| unlock: "pc t = S_in \<Longrightarrow> spin_step (l, pc) (spinlock_unlock l, pc(t := S_out))"

definition holders :: "(nat \<Rightarrow> spin_place) \<Rightarrow> nat set" where
  "holders pc = {t. pc t = S_in}"

definition spin_inv :: "spinlock \<times> (nat \<Rightarrow> spin_place) \<Rightarrow> bool" where
  "spin_inv = (\<lambda>(l, pc). if sp_lock l = 0 then holders pc = {} else \<exists>t. holders pc = {t})"

lemma holders_upd: "holders (pc(t := p)) = (if p = S_in then insert t (holders pc) else holders pc - {t})"
  by (auto simp: holders_def)

lemma not_holder: "pc t \<noteq> S_in \<Longrightarrow> holders pc - {t} = holders pc"
  by (auto simp: holders_def)

lemma spin_step_inv: "spin_step s s' \<Longrightarrow> spin_inv s \<Longrightarrow> spin_inv s'"
proof (induction rule: spin_step.induct)
  case (unlock pc t l)
  then have "t \<in> holders pc" by (simp add: holders_def)
  then show ?case using unlock by (auto simp: spin_inv_def spinlock_unlock_def holders_upd split: if_splits)
qed (auto simp: spin_inv_def spinlock_lock_def spinlock_trylock_def test_and_set_def holders_upd not_holder split: if_splits)

lemma spin_reachable_inv: "spin_step\<^sup>*\<^sup>* (spinlock_init, \<lambda>_. S_out) s \<Longrightarrow> spin_inv s"
proof (induction rule: rtranclp_induct)
  case base
  then show ?case by (simp add: spin_inv_def spinlock_init_def holders_def)
qed (rule spin_step_inv)

lemma spinlock_excludes:
  assumes "spin_step\<^sup>*\<^sup>* (spinlock_init, \<lambda>_. S_out) (l, pc)" "pc t = S_in" "pc u = S_in"
  shows "t = u"
proof -
  have "t \<in> holders pc" "u \<in> holders pc" using assms(2,3) by (simp_all add: holders_def)
  then show ?thesis using spin_reachable_inv [OF assms(1)] by (auto simp: spin_inv_def split: if_splits)
qed

subsection \<open>Properties\<close>

text \<open>
  C38. The read-write lock excludes: in every interleaving of fewer than \<open>2 ^ 32\<close> threads, while a
  thread is inside as the writer no other thread is inside, neither as writer nor as reader, and
  the field \<open>read\<close> is the number of readers that have announced themselves.
\<close>

theorem rwlock_excludes:
  assumes "rw_reachable N (l, pc)" "N < 2 ^ 32"
  shows "(\<forall>t u. t < N \<longrightarrow> u < N \<longrightarrow> t \<noteq> u \<longrightarrow> pc t = W_in \<longrightarrow> pc u \<noteq> W_in \<and> pc u \<noteq> R_in) \<and>
    unat (rw_read l) = card {t. t < N \<and> pc t \<in> {R_check, R_undo, R_in}}"
proof
  have inv: "rw_inv N (l, pc)" using rw_reachable_inv assms by blast
  show "\<forall>t u. t < N \<longrightarrow> u < N \<longrightarrow> t \<noteq> u \<longrightarrow> pc t = W_in \<longrightarrow> pc u \<noteq> W_in \<and> pc u \<noteq> R_in"
  proof (intro allI impI)
    fix t u assume a: "t < N" "u < N" "t \<noteq> u" "pc t = W_in"
    have "t \<in> writers N pc" using a by (simp add: writers_def)
    then have "u \<notin> writers N pc" using inv a(3) by (auto simp: rw_inv_def)
    then show "pc u \<noteq> W_in \<and> pc u \<noteq> R_in" using inv a by (auto simp: rw_inv_def writers_def)
  qed
  have "card (counted N pc) < 2 ^ 32" using card_counted [of N pc] assms(2) by linarith
  then show "unat (rw_read l) = card {t. t < N \<and> pc t \<in> {R_check, R_undo, R_in}}"
    using inv by (simp add: rw_inv_def unat_of_nat counted_def)
qed

theorem rwlock_excludes_witness:
  "\<exists>l pc. rw_reachable 2 (l, pc) \<and> pc 0 = W_in \<and> pc 1 \<noteq> W_in \<and> pc 1 \<noteq> R_in \<and> unat (rw_read l) = 0"
proof -
  let ?l = "\<lparr>rw_write = 1, rw_read = 0\<rparr>"
  let ?a = "(rwlock_init, (\<lambda>_. RW_out)(0 := W_cas))" and ?b = "(?l, (\<lambda>_. RW_out)(0 := W_wait))" and ?c = "(?l, (\<lambda>_. RW_out)(0 := W_in))"
  have "rw_step 2 (rwlock_init, \<lambda>_. RW_out) ?a" by (rule rw_step.enter_write) simp_all
  moreover have "rw_step 2 ?a ?b" using rw_step.wlock [of 0 2 "(\<lambda>_. RW_out)(0 := W_cas)" rwlock_init ?l W_wait] by (simp add: rwlock_init_def)
  moreover have "rw_step 2 ?b ?c" using rw_step.wlock [of 0 2 "(\<lambda>_. RW_out)(0 := W_wait)" ?l ?l W_in] by simp
  ultimately have r: "rw_reachable 2 ?c" unfolding rw_reachable_def by (meson converse_rtranclp_into_rtranclp rtranclp.rtrancl_refl)
  then show ?thesis using rwlock_excludes [OF r] by (intro exI [of _ ?l] exI [of _ "(\<lambda>_. RW_out)(0 := W_in)"]) simp
qed

text \<open>
  The read-write lock does not block itself: in every reachable state in which a thread is in a
  lock operation or inside, there are steps after which some thread is inside.
\<close>

theorem rwlock_progress:
  assumes "rw_reachable N (l, pc)" "N < 2 ^ 32" "t < N" "pc t \<noteq> RW_out"
  shows "\<exists>l' pc' u. (rw_step N)\<^sup>*\<^sup>* (l, pc) (l', pc') \<and> u < N \<and> (pc' u = R_in \<or> pc' u = W_in)"
proof -
  obtain s where "rw_run N (l, pc) s" "someone_inside N s" using undo_readers [OF rw_reachable_inv [OF assms(1,2)] assms(2-4)] by blast
  then show ?thesis by (cases s) (auto simp: someone_inside_def)
qed

theorem rwlock_progress_witness:
  "\<exists>l' pc' u. (rw_step 2)\<^sup>*\<^sup>* (rwlock_init, (\<lambda>_. RW_out)(1 := R_load)) (l', pc') \<and> u < 2 \<and> (pc' u = R_in \<or> pc' u = W_in)"
proof -
  have "rw_step 2 (rwlock_init, \<lambda>_. RW_out) (rwlock_init, (\<lambda>_. RW_out)(1 := R_load))" by (rule rw_step.enter_read) simp_all
  then have "rw_reachable 2 (rwlock_init, (\<lambda>_. RW_out)(1 := R_load))" unfolding rw_reachable_def by blast
  then show ?thesis using rwlock_progress [of 2 rwlock_init "(\<lambda>_. RW_out)(1 := R_load)" 1] by simp
qed

end
