(* ===== verification/Skynet_Start.thy ===== *)
theory Skynet_Start
  imports Skynet_Command
begin

text \<open>
  The start of a node: the configuration (\<^verbatim>\<open>skynet_main.c\<close>), and of \<^verbatim>\<open>skynet_start.c\<close> the first
  two services, the handling of SIGHUP and the threads. \<open>exit(1)\<close> is the result \<open>False\<close>. The
  configuration table that the Lua script returns is a list of pairs, since \<open>lua_next\<close> visits each
  pair once in some order. The daemon (\<^verbatim>\<open>skynet_daemon.c\<close>) is left out: it consists of system calls.
\<close>

subsection \<open>The configuration\<close>

record skynet_config =
  cfg_thread :: cint
  cfg_harbor :: cint
  cfg_profile :: cint
  cfg_daemon :: "string option"
  cfg_module_path :: "string option"
  cfg_bootstrap :: "string option"
  cfg_logger :: "string option"
  cfg_logservice :: "string option"

definition optint :: "node \<Rightarrow> string \<Rightarrow> cint \<Rightarrow> (cint \<times> node) option" where
  "optint nd key opt =
     (case skynet_getenv nd key of
        None \<Rightarrow> do {
          nd \<leftarrow> skynet_setenv nd key (fmt_d (sint opt));
          Some (opt, nd) }
      | Some str \<Rightarrow> Some (word_of_int (strtol str 10), nd))"

definition optboolean :: "node \<Rightarrow> string \<Rightarrow> cint \<Rightarrow> (cint \<times> node) option" where
  "optboolean nd key opt =
     (case skynet_getenv nd key of
        None \<Rightarrow> do {
          nd \<leftarrow> skynet_setenv nd key (if opt \<noteq> 0 then ''true'' else ''false'');
          Some (opt, nd) }
      | Some str \<Rightarrow> Some (of_bool (strcmp str ''true'' = 0), nd))"

definition optstring :: "node \<Rightarrow> string \<Rightarrow> string option \<Rightarrow> (string option \<times> node) option" where
  "optstring nd key opt =
     (case skynet_getenv nd key of
        None \<Rightarrow>
          (case opt of
             Some v \<Rightarrow> do {
               nd \<leftarrow> skynet_setenv nd key v;
               Some (skynet_getenv nd key, nd) }
           | None \<Rightarrow> Some (None, nd))
      | Some str \<Rightarrow> Some (Some str, nd))"

text \<open>
  A value of the table: a boolean, a string or number (\<open>lua_tostring\<close> gives its text), or a value
  without a text. A key that is no string is \<open>None\<close>.
\<close>

datatype conf_value = Conf_bool bool | Conf_text string | Conf_other

fun init_env :: "node \<Rightarrow> (string option \<times> conf_value) list \<Rightarrow> (bool \<times> node) option" where
  "init_env nd [] = Some (True, nd)"
| "init_env nd ((None, v) # kvs) = Some (False, nd)"
| "init_env nd ((Some key, Conf_bool b) # kvs) = do {
     nd \<leftarrow> skynet_setenv nd key (if b then ''true'' else ''false'');
     init_env nd kvs }"
| "init_env nd ((Some key, Conf_text value) # kvs) = do {
     nd \<leftarrow> skynet_setenv nd key value;
     init_env nd kvs }"
| "init_env nd ((Some key, Conf_other) # kvs) = Some (False, nd)"

definition read_config :: "node \<Rightarrow> (skynet_config \<times> node) option" where
  "read_config nd = do {
     (thread, nd) \<leftarrow> optint nd ''thread'' 8;
     (module_path, nd) \<leftarrow> optstring nd ''cpath'' (Some ''./cservice/?.so'');
     (harbor, nd) \<leftarrow> optint nd ''harbor'' 1;
     (boot, nd) \<leftarrow> optstring nd ''bootstrap'' (Some ''snlua bootstrap'');
     (daemon, nd) \<leftarrow> optstring nd ''daemon'' None;
     (logger, nd) \<leftarrow> optstring nd ''logger'' None;
     (logservice, nd) \<leftarrow> optstring nd ''logservice'' (Some ''logger'');
     (profile, nd) \<leftarrow> optboolean nd ''profile'' 1;
     Some (\<lparr>cfg_thread = thread, cfg_harbor = harbor, cfg_profile = profile, cfg_daemon = daemon,
            cfg_module_path = module_path, cfg_bootstrap = boot, cfg_logger = logger,
            cfg_logservice = logservice\<rparr>, nd) }"

text \<open>\<open>main\<close> from \<open>skynet_globalinit\<close> to the complete configuration.\<close>

definition main_config :: "node \<Rightarrow> (string option \<times> conf_value) list \<Rightarrow> (skynet_config option \<times> node) option" where
  "main_config nd table = do {
     (ok, nd) \<leftarrow> init_env (skynet_env_init (skynet_globalinit nd)) table;
     if ok then do {
       (cfg, nd) \<leftarrow> read_config nd;
       Some (Some cfg, nd) }
     else Some (None, nd) }"

subsection \<open>The first services\<close>

text \<open>
  \<open>boot_words\<close> is the part of \<open>bootstrap\<close> that splits the command line. \<open>None\<close>: \<open>sscanf\<close> finds
  no word and \<open>name\<close> is read uninitialised.
\<close>

definition boot_words :: "string \<Rightarrow> (string \<times> string) option" where
  "boot_words cmdline = do {
     (name, _) \<leftarrow> scan_word cmdline;
     let arg_pos = length name;
     Some (name, if arg_pos < length cmdline then dropWhile (\<lambda>c. c = CHR '' '') (drop arg_pos cmdline) else []) }"

definition bootstrap :: "world \<Rightarrow> node \<Rightarrow> ptr \<Rightarrow> string \<Rightarrow> (bool \<times> node) option" where
  "bootstrap w nd logger cmdline = do {
     (name, args) \<leftarrow> boot_words cmdline;
     (ctx, nd) \<leftarrow> skynet_context_new w nd name (Some args);
     case ctx of
       None \<Rightarrow> do {
         nd \<leftarrow> skynet_error w nd None (Some (''Bootstrap error : '' @ cmdline @ newline));
         nd \<leftarrow> skynet_context_dispatchall w nd logger;
         Some (False, nd) }
     | Some _ \<Rightarrow> Some (True, nd) }"

text \<open>
  \<open>skynet_start\<close> up to the start of the threads. The clocks read by \<open>skynet_timer_init\<close> are the
  arguments \<open>wall\<close> and \<open>cp\<close>; the sockets have a state of their own (\<open>socket_server_create\<close>).
\<close>

definition skynet_start :: "world \<Rightarrow> u32 \<times> u32 \<Rightarrow> u64 \<Rightarrow> node \<Rightarrow> skynet_config \<Rightarrow> (bool \<times> node) option" where
  "skynet_start w wall cp nd config = do {
     let nd = skynet_harbor_init nd (cfg_harbor config);
     let nd = nd\<lparr>nd_handle := skynet_handle_init (cfg_harbor config)\<rparr>;
     let nd = nd\<lparr>nd_mq := skynet_mq_init (nd_mq nd)\<rparr>;
     path \<leftarrow> cfg_module_path config;
     let nd = nd\<lparr>nd_modules := skynet_module_init path\<rparr>;
     let nd = nd\<lparr>nd_timer := skynet_timer_init wall cp\<rparr>;
     let nd = skynet_profile_enable nd (cfg_profile config);
     logservice \<leftarrow> cfg_logservice config;
     (ctx, nd) \<leftarrow> skynet_context_new w nd logservice (cfg_logger config);
     case ctx of
       None \<Rightarrow> Some (False, nd)
     | Some c \<Rightarrow> do {
         handle \<leftarrow> skynet_context_handle nd c;
         (_, hs) \<leftarrow> skynet_handle_namehandle (nd_handle nd) handle ''logger'';
         cmdline \<leftarrow> cfg_bootstrap config;
         bootstrap w (nd\<lparr>nd_handle := hs\<rparr>) c cmdline } }"

definition worker_weight :: "nat \<Rightarrow> int" where
  "worker_weight i =
     (let weight = [-1, -1, -1, -1, 0, 0, 0, 0,
                    1, 1, 1, 1, 1, 1, 1, 1,
                    2, 2, 2, 2, 2, 2, 2, 2,
                    3, 3, 3, 3, 3, 3, 3, 3]
      in if i < length weight then weight ! i else 0)"

subsection \<open>SIGHUP and the monitor thread\<close>

definition signal_hup :: "world \<Rightarrow> node \<Rightarrow> node option" where
  "signal_hup w nd = do {
     let smsg = \<lparr>msg_source = 0, msg_session = 0, msg_data = None,
                 msg_sz = push_bit MESSAGE_TYPE_SHIFT (scast PTYPE_SYSTEM)\<rparr>;
     let logger = skynet_handle_findname (nd_handle nd) ''logger'';
     if logger \<noteq> 0 then do {
       (_, nd) \<leftarrow> skynet_context_push w nd logger smsg;
       Some nd }
     else Some nd }"

text \<open>The loop of \<open>thread_monitor\<close> over the monitors of the workers.\<close>

fun monitor_round :: "world \<Rightarrow> node \<Rightarrow> skynet_monitor list \<Rightarrow> (skynet_monitor list \<times> node) option" where
  "monitor_round w nd [] = Some ([], nd)"
| "monitor_round w nd (sm # sms) = do {
     (sm, nd) \<leftarrow> skynet_monitor_check w nd sm;
     (sms, nd) \<leftarrow> monitor_round w nd sms;
     Some (sm # sms, nd) }"

subsection \<open>Sleeping and waking of the workers\<close>

record monitor =
  mo_count :: int
  mo_sleep :: int
  mo_quit :: bool

text \<open>
  The fields of \<open>struct monitor\<close> that the threads share; its mutex and condition are in the steps,
  and its array of worker monitors is in \<open>monitor_round\<close>. The places of a worker: before the test of \<open>quit\<close>, in \<open>skynet_context_message_dispatch\<close>, with no
  queue before the mutex is taken, in \<open>pthread_cond_wait\<close>, woken before it has the mutex again,
  and returned.
\<close>

datatype worker_place = WK_loop | WK_dispatch | WK_null | WK_wait | WK_woken | WK_done

text \<open>\<open>wakeup\<close> says whether the condition is signalled.\<close>

definition wakeup :: "monitor \<Rightarrow> int \<Rightarrow> bool" where
  "wakeup m busy \<longleftrightarrow> mo_sleep m \<ge> mo_count m - busy"

text \<open>The section of \<open>thread_worker\<close> under the mutex up to \<open>pthread_cond_wait\<close>, and the one after it.\<close>

definition worker_sleep :: "monitor \<Rightarrow> monitor \<times> worker_place" where
  "worker_sleep m =
     (let m = m\<lparr>mo_sleep := mo_sleep m + 1\<rparr>
      in if \<not> mo_quit m then (m, WK_wait) else (m\<lparr>mo_sleep := mo_sleep m - 1\<rparr>, WK_loop))"

definition worker_awake :: "monitor \<Rightarrow> monitor \<times> worker_place" where
  "worker_awake m = (m\<lparr>mo_sleep := mo_sleep m - 1\<rparr>, WK_loop)"

text \<open>The end of \<open>thread_timer\<close> under the mutex: \<open>quit\<close> is set and every waiting worker is woken.\<close>

definition timer_quit :: "monitor \<Rightarrow> (nat \<Rightarrow> worker_place) \<Rightarrow> monitor \<times> (nat \<Rightarrow> worker_place)" where
  "timer_quit m pc = (m\<lparr>mo_quit := True\<rparr>, \<lambda>t. if pc t = WK_wait then WK_woken else pc t)"

text \<open>
  The steps of \<open>N\<close> workers, the timer and the socket thread. \<open>timer_wakeup\<close> is \<open>wakeup(m, m->count-1)\<close>
  of the timer and \<open>socket_wakeup\<close> is \<open>wakeup(m, 0)\<close> of the socket thread; a signal wakes one of the
  waiting workers.
\<close>

inductive worker_step :: "nat \<Rightarrow> monitor \<times> (nat \<Rightarrow> worker_place) \<Rightarrow> monitor \<times> (nat \<Rightarrow> worker_place) \<Rightarrow> bool" for N where
  again: "t < N \<Longrightarrow> pc t = WK_loop \<Longrightarrow> \<not> mo_quit m \<Longrightarrow> worker_step N (m, pc) (m, pc(t := WK_dispatch))"
| leave: "t < N \<Longrightarrow> pc t = WK_loop \<Longrightarrow> mo_quit m \<Longrightarrow> worker_step N (m, pc) (m, pc(t := WK_done))"
| found: "t < N \<Longrightarrow> pc t = WK_dispatch \<Longrightarrow> worker_step N (m, pc) (m, pc(t := WK_loop))"
| nothing: "t < N \<Longrightarrow> pc t = WK_dispatch \<Longrightarrow> worker_step N (m, pc) (m, pc(t := WK_null))"
| no_mutex: "t < N \<Longrightarrow> pc t = WK_null \<Longrightarrow> worker_step N (m, pc) (m, pc(t := WK_loop))"
| sleep: "t < N \<Longrightarrow> pc t = WK_null \<Longrightarrow> worker_sleep m = (m', p) \<Longrightarrow> worker_step N (m, pc) (m', pc(t := p))"
| spurious: "t < N \<Longrightarrow> pc t = WK_wait \<Longrightarrow> worker_step N (m, pc) (m, pc(t := WK_woken))"
| awake: "t < N \<Longrightarrow> pc t = WK_woken \<Longrightarrow> worker_awake m = (m', p) \<Longrightarrow> worker_step N (m, pc) (m', pc(t := p))"
| timer_wakeup: "\<not> mo_quit m \<Longrightarrow> wakeup m (mo_count m - 1) \<Longrightarrow> t < N \<Longrightarrow> pc t = WK_wait \<Longrightarrow> worker_step N (m, pc) (m, pc(t := WK_woken))"
| socket_wakeup: "wakeup m 0 \<Longrightarrow> t < N \<Longrightarrow> pc t = WK_wait \<Longrightarrow> worker_step N (m, pc) (m, pc(t := WK_woken))"
| quit: "\<not> mo_quit m \<Longrightarrow> worker_step N (m, pc) (timer_quit m pc)"

definition start_monitor :: "int \<Rightarrow> monitor" where
  "start_monitor thread = \<lparr>mo_count = thread, mo_sleep = 0, mo_quit = False\<rparr>"

definition workers_reachable :: "nat \<Rightarrow> monitor \<times> (nat \<Rightarrow> worker_place) \<Rightarrow> bool" where
  "workers_reachable N s \<longleftrightarrow> (worker_step N)\<^sup>*\<^sup>* (start_monitor (int N), \<lambda>_. WK_loop) s"

definition is_asleep :: "worker_place \<Rightarrow> bool" where
  "is_asleep p \<longleftrightarrow> p = WK_wait \<or> p = WK_woken"

definition asleep :: "nat \<Rightarrow> (nat \<Rightarrow> worker_place) \<Rightarrow> nat set" where
  "asleep N pc = {t. t < N \<and> is_asleep (pc t)}"

definition worker_inv :: "nat \<Rightarrow> monitor \<times> (nat \<Rightarrow> worker_place) \<Rightarrow> bool" where
  "worker_inv N = (\<lambda>(m, pc). mo_count m = int N \<and> mo_sleep m = int (card (asleep N pc)) \<and>
     (mo_quit m \<longrightarrow> (\<forall>t < N. pc t \<noteq> WK_wait)) \<and> (\<not> mo_quit m \<longrightarrow> (\<forall>t < N. pc t \<noteq> WK_done)))"

lemma finite_asleep [simp]: "finite (asleep N pc)"
  by (simp add: asleep_def)

lemma worker_move:
  assumes "worker_inv N (m, pc)" "t < N" "mo_count m' = mo_count m" "mo_quit m' = mo_quit m"
    and "mo_sleep m' = mo_sleep m + of_bool (is_asleep p) - of_bool (is_asleep (pc t))"
    and "if mo_quit m then p \<noteq> WK_wait else p \<noteq> WK_done"
  shows "worker_inv N (m', pc(t := p))"
proof -
  have set: "asleep N (pc(t := p)) = (if is_asleep p then insert t (asleep N pc) else asleep N pc - {t})"
    "t \<in> asleep N pc \<longleftrightarrow> is_asleep (pc t)"
    using assms(2) by (auto simp: asleep_def)
  have "card (asleep N (pc(t := p))) + of_bool (is_asleep (pc t)) = card (asleep N pc) + of_bool (is_asleep p)"
    using set card_Suc_Diff1 [of "asleep N pc" t] by (auto simp: insert_absorb)
  then have "int (card (asleep N (pc(t := p)))) + of_bool (is_asleep (pc t)) = int (card (asleep N pc)) + of_bool (is_asleep p)"
    by (metis of_nat_add of_nat_of_bool)
  then have "mo_sleep m' = int (card (asleep N (pc(t := p))))"
    using assms(1,5) by (simp add: worker_inv_def)
  then show ?thesis using assms(1-4,6) by (auto simp: worker_inv_def split: if_splits)
qed

lemmas worker_place_simps = is_asleep_def worker_sleep_def worker_awake_def Let_def

lemma worker_step_inv:
  assumes "worker_step N s s'" "worker_inv N s"
  shows "worker_inv N s'"
  using assms(1)
proof cases
  case (again t pc m)
  then show ?thesis using worker_move [of N m pc t m WK_dispatch] assms(2) by (simp add: worker_place_simps)
next
  case (leave t pc m)
  then show ?thesis using worker_move [of N m pc t m WK_done] assms(2) by (simp add: worker_place_simps)
next
  case (found t pc m)
  then show ?thesis using worker_move [of N m pc t m WK_loop] assms(2) by (simp add: worker_place_simps)
next
  case (nothing t pc m)
  then show ?thesis using worker_move [of N m pc t m WK_null] assms(2) by (simp add: worker_place_simps)
next
  case (no_mutex t pc m)
  then show ?thesis using worker_move [of N m pc t m WK_loop] assms(2) by (simp add: worker_place_simps)
next
  case (sleep t pc m m' p)
  then show ?thesis using worker_move [of N m pc t m' p] assms(2) by (auto simp: worker_place_simps split: if_splits)
next
  case (awake t pc m m' p)
  then show ?thesis using worker_move [of N m pc t m' p] assms(2) by (auto simp: worker_place_simps)
next
  case (quit m pc)
  have "asleep N (\<lambda>t. if pc t = WK_wait then WK_woken else pc t) = asleep N pc" by (auto simp: asleep_def is_asleep_def)
  then show ?thesis using quit assms(2) by (simp add: worker_inv_def timer_quit_def)
next
  case (spurious t pc m)
  then show ?thesis using worker_move [of N m pc t m WK_woken] assms(2) by (simp add: worker_place_simps)
next
  case (timer_wakeup m t pc)
  then show ?thesis using worker_move [of N m pc t m WK_woken] assms(2) by (simp add: worker_place_simps)
next
  case (socket_wakeup m t pc)
  then show ?thesis using worker_move [of N m pc t m WK_woken] assms(2) by (simp add: worker_place_simps)
qed

lemma worker_inv_start: "worker_inv N (start_monitor (int N), \<lambda>_. WK_loop)"
  by (simp add: worker_inv_def start_monitor_def asleep_def is_asleep_def)

lemma workers_reachable_inv: "workers_reachable N s \<Longrightarrow> worker_inv N s"
  unfolding workers_reachable_def
  by (induction rule: rtranclp_induct) (auto intro: worker_inv_start worker_step_inv)

text \<open>After \<open>quit\<close> every step brings a worker nearer to its return.\<close>

fun worker_rank :: "worker_place \<Rightarrow> nat" where
  "worker_rank WK_done = 0"
| "worker_rank WK_loop = 1"
| "worker_rank WK_woken = 2"
| "worker_rank WK_wait = 3"
| "worker_rank WK_null = 2"
| "worker_rank WK_dispatch = 3"

definition workers_rank :: "nat \<Rightarrow> (nat \<Rightarrow> worker_place) \<Rightarrow> nat" where
  "workers_rank N pc = (\<Sum>t<N. worker_rank (pc t))"

lemma workers_rank_less:
  assumes "t < N" "worker_rank p < worker_rank (pc t)"
  shows "workers_rank N (pc(t := p)) < workers_rank N pc"
  unfolding workers_rank_def
  by (rule sum_strict_mono_ex1) (use assms in auto)

lemma quit_step:
  assumes "worker_step N (m, pc) (m', pc')" "mo_quit m"
  shows "mo_quit m' \<and> workers_rank N pc' < workers_rank N pc"
  using assms by cases (auto simp: worker_place_simps intro!: workers_rank_less)

lemma quit_enabled:
  assumes "mo_quit m" "t < N" "pc t \<noteq> WK_done"
  shows "\<exists>s. worker_step N (m, pc) s"
proof (cases "pc t")
  case WK_loop
  then show ?thesis using assms by (blast intro: worker_step.leave)
next
  case WK_dispatch
  then show ?thesis using assms(2) by (blast intro: worker_step.found)
next
  case WK_null
  then show ?thesis using assms(2) by (blast intro: worker_step.no_mutex)
next
  case WK_wait
  then show ?thesis using assms(2) by (blast intro: worker_step.spurious)
next
  case WK_woken
  then show ?thesis using worker_step.awake [of t N pc m "m\<lparr>mo_sleep := mo_sleep m - 1\<rparr>" WK_loop] assms(2)
    by (auto simp: worker_awake_def)
next
  case WK_done
  then show ?thesis using assms(3) by simp
qed


text \<open>A run after \<open>quit\<close> is at most as long as the rank of its first state.\<close>

lemma workers_rank_le: "workers_rank N pc \<le> 3 * N"
proof -
  have "worker_rank p \<le> 3" for p by (cases p) simp_all
  then have "workers_rank N pc \<le> (\<Sum>t<N. 3)" unfolding workers_rank_def by (intro sum_mono) simp
  then show ?thesis by simp
qed

lemma quit_run:
  "(worker_step N ^^ k) (m, pc) (m', pc') \<Longrightarrow> mo_quit m \<Longrightarrow> mo_quit m' \<and> workers_rank N pc' + k \<le> workers_rank N pc"
proof (induction k arbitrary: m' pc')
  case (Suc k)
  from Suc.prems(1) obtain m1 pc1 where s: "(worker_step N ^^ k) (m, pc) (m1, pc1)" "worker_step N (m1, pc1) (m', pc')" by auto
  from Suc.IH [OF s(1) Suc.prems(2)] quit_step [OF s(2)] show ?case by simp
qed simp

subsection \<open>Command lines\<close>

lemma boot_words_split:
  assumes "name \<noteq> []" "\<forall>c \<in> set name. \<not> isspace c" "args = [] \<or> 0 < n \<and> hd args \<noteq> CHR '' ''"
  shows "boot_words (name @ replicate n CHR '' '' @ args) = Some (name, args)"
proof -
  have sp: "isspace CHR '' ''" by (simp add: isspace_def)
  have d: "dropWhile isspace (name @ r) = name @ r" for r using assms(1,2) by (cases name) simp_all
  have t: "takeWhile (\<lambda>c. \<not> isspace c) (name @ replicate n CHR '' '' @ args) = name"
    using assms(2,3) sp by (cases n) (auto simp: takeWhile_append2)
  have b: "dropWhile (\<lambda>c. c = CHR '' '') (replicate n CHR '' '' @ args) = args"
    using assms(3) by (subst dropWhile_append2) (auto simp: dropWhile_eq_self_iff)
  show ?thesis using assms(1) t b by (simp add: boot_words_def scan_word_def d Let_def)
qed

text \<open>The position of the arguments is counted from the start of the line, also when blanks precede the name.\<close>

lemma boot_words_leading_blank: "boot_words '' snlua bootstrap'' = Some (''snlua'', ''a bootstrap'')"
  by (simp add: boot_words_def scan_word_def isspace_def)

subsection \<open>Reading the configuration again\<close>

definition default :: "(string \<Rightarrow> string option) \<Rightarrow> string \<Rightarrow> string \<Rightarrow> string \<Rightarrow> string option" where
  "default e key v = (if e key = None then e(key \<mapsto> v) else e)"

lemma default_same [simp]: "\<exists>y. e key = Some y \<Longrightarrow> default e key v = e"
  by (auto simp: default_def)

lemma default_other [simp]: "k \<noteq> key \<Longrightarrow> default e key v k = e k"
  by (simp add: default_def)

lemma default_set [simp]: "\<exists>y. default e key v key = Some y"
  by (simp add: default_def)

lemma default_le: "e \<subseteq>\<^sub>m default e key v"
  by (auto simp: default_def map_le_def)

definition env_defaults :: "(string \<Rightarrow> string option) \<Rightarrow> string \<Rightarrow> string option" where
  "env_defaults e =
     default (default (default (default (default (default e ''thread'' ''8'') ''cpath'' ''./cservice/?.so'') ''harbor'' ''1'')
       ''bootstrap'' ''snlua bootstrap'') ''logservice'' ''logger'') ''profile'' ''true''"

definition config_of :: "(string \<Rightarrow> string option) \<Rightarrow> skynet_config" where
  "config_of e = \<lparr>cfg_thread = word_of_int (strtol (the (e ''thread'')) 10),
     cfg_harbor = word_of_int (strtol (the (e ''harbor'')) 10), cfg_profile = of_bool (e ''profile'' = Some ''true''),
     cfg_daemon = e ''daemon'', cfg_module_path = e ''cpath'', cfg_bootstrap = e ''bootstrap'',
     cfg_logger = e ''logger'', cfg_logservice = e ''logservice''\<rparr>"

lemma optint_eq:
  assumes "word_of_int (strtol (fmt_d (sint opt)) 10) = opt"
  shows "optint nd key opt =
    (let e = default (nd_env nd) key (fmt_d (sint opt)) in Some (word_of_int (strtol (the (e key)) 10), nd\<lparr>nd_env := e\<rparr>))"
  using assms by (auto simp: optint_def skynet_getenv_def skynet_setenv_def default_def split: option.splits)

lemma optboolean_eq:
  "optboolean nd key 1 = (let e = default (nd_env nd) key ''true'' in Some (of_bool (e key = Some ''true''), nd\<lparr>nd_env := e\<rparr>))"
  by (auto simp: optboolean_def skynet_getenv_def skynet_setenv_def default_def split: option.splits)

lemma optstring_eq:
  "optstring nd key (Some v) = (let e = default (nd_env nd) key v in Some (e key, nd\<lparr>nd_env := e\<rparr>))"
  "optstring nd key None = Some (nd_env nd key, nd)"
  by (auto simp: optstring_def skynet_getenv_def skynet_setenv_def default_def split: option.splits)

lemma default_numbers:
  "fmt_d 8 = ''8''" "fmt_d 1 = ''1''" "strtol ''8'' 10 = 8" "strtol ''1'' 10 = 1"
  by code_simp+

lemma read_config_eq:
  "read_config nd = Some (config_of (env_defaults (nd_env nd)), nd\<lparr>nd_env := env_defaults (nd_env nd)\<rparr>)"
  by (simp add: optint_eq default_numbers optboolean_eq optstring_eq read_config_def config_of_def env_defaults_def Let_def)

lemma env_defaults_again: "env_defaults (env_defaults e) = env_defaults e"
  by (simp add: env_defaults_def)

lemma env_defaults_le: "e \<subseteq>\<^sub>m env_defaults e"
  unfolding env_defaults_def by (intro map_le_trans [OF _ default_le] map_le_refl)

subsection \<open>SIGHUP reaches the logger\<close>

lemma signal_hup_reaches:
  assumes "node_ok L nd" "skynet_handle_findname (nd_handle nd) ''logger'' = h" "h \<noteq> 0" "inbox nd h = Some ms"
  shows "\<exists>nd' m L'. signal_hup w nd = Some nd' \<and> node_ok L' nd' \<and> inbox nd' = (inbox nd)(h \<mapsto> ms @ [m]) \<and>
    msg_data m = None \<and> (ucast (drop_bit MESSAGE_TYPE_SHIFT (msg_sz m)) :: cint) = PTYPE_SYSTEM \<and>
    msg_sz m AND MESSAGE_TYPE_MASK = 0"
proof -
  define m where "m = \<lparr>msg_source = 0, msg_session = 0, msg_data = None,
    msg_sz = push_bit MESSAGE_TYPE_SHIFT (scast PTYPE_SYSTEM)\<rparr>"
  obtain mq L' p where "skynet_context_push w nd h m = Some (0, nd\<lparr>nd_mq := mq\<rparr>)" "node_ok L' (nd\<lparr>nd_mq := mq\<rparr>)"
    "inbox (nd\<lparr>nd_mq := mq\<rparr>) = (inbox nd)(h \<mapsto> ms @ [m])" by (rule context_push_inbox [OF assms(1,4)])
  moreover have "(ucast (drop_bit MESSAGE_TYPE_SHIFT (msg_sz m)) :: cint) = PTYPE_SYSTEM" "msg_sz m AND MESSAGE_TYPE_MASK = 0"
    by (simp_all add: m_def MESSAGE_TYPE_SHIFT_def MESSAGE_TYPE_MASK_def PTYPE_SYSTEM_def mask_eq_exp_minus_1)
  ultimately show ?thesis using assms(2,3) by (auto simp: signal_hup_def Let_def m_def)
qed

subsection \<open>Properties\<close>

text \<open>
  C39. Workers sleep and wake as they should. In every interleaving of the workers with the timer and
  socket threads, \<open>sleep\<close> is the number of workers in or just behind \<open>pthread_cond_wait\<close>, so the
  timer's next \<open>wakeup(m, m->count-1)\<close> signals whenever a worker waits, and the socket thread's
  \<open>wakeup(m, 0)\<close> signals exactly when all workers sleep. After the timer has set \<open>quit\<close> every run
  has at most \<open>3 * N\<close> further steps, and where no step is left all workers have returned, so that
  every \<open>pthread_join\<close> of \<open>start\<close> returns.
\<close>

theorem workers_sleep_wake:
  assumes "workers_reachable N (m, pc)"
  shows "mo_sleep m = int (card {t. t < N \<and> (pc t = WK_wait \<or> pc t = WK_woken)}) \<and>
    (\<forall>t < N. pc t = WK_wait \<longrightarrow> wakeup m (mo_count m - 1)) \<and>
    (wakeup m 0 \<longleftrightarrow> (\<forall>t < N. pc t = WK_wait \<or> pc t = WK_woken)) \<and>
    (mo_quit m \<longrightarrow> (\<forall>k m' pc'. (worker_step N ^^ k) (m, pc) (m', pc') \<longrightarrow>
       k \<le> 3 * N \<and> ((\<exists>s. worker_step N (m', pc') s) \<or> (\<forall>t < N. pc' t = WK_done))))"
proof -
  have inv: "mo_count m = int N" "mo_sleep m = int (card (asleep N pc))"
    using workers_reachable_inv [OF assms] by (simp_all add: worker_inv_def)
  have sub: "asleep N pc \<subseteq> {..<N}" by (auto simp: asleep_def)
  have 1: "\<forall>t < N. pc t = WK_wait \<longrightarrow> wakeup m (mo_count m - 1)"
  proof (intro allI impI)
    fix t assume "t < N" "pc t = WK_wait"
    then have "asleep N pc \<noteq> {}" by (auto simp: asleep_def is_asleep_def)
    then have "0 < card (asleep N pc)" by (simp add: card_gt_0_iff)
    then show "wakeup m (mo_count m - 1)" using inv by (simp add: wakeup_def)
  qed
  have "wakeup m 0 \<longleftrightarrow> N \<le> card (asleep N pc)" using inv by (simp add: wakeup_def)
  also have "\<dots> \<longleftrightarrow> asleep N pc = {..<N}" using card_seteq [OF finite_lessThan sub] by (intro iffI) simp_all
  also have "\<dots> \<longleftrightarrow> (\<forall>t < N. pc t = WK_wait \<or> pc t = WK_woken)" by (auto simp: asleep_def is_asleep_def)
  finally have 2: "wakeup m 0 \<longleftrightarrow> (\<forall>t < N. pc t = WK_wait \<or> pc t = WK_woken)" .
  have 3: "k \<le> 3 * N \<and> ((\<exists>s. worker_step N (m', pc') s) \<or> (\<forall>t < N. pc' t = WK_done))"
    if "mo_quit m" "(worker_step N ^^ k) (m, pc) (m', pc')" for k m' pc'
  proof -
    have "mo_quit m'" "workers_rank N pc' + k \<le> workers_rank N pc" using quit_run [OF that(2,1)] by simp_all
    then show ?thesis using quit_enabled [of m' _ N pc'] workers_rank_le [of N pc] by fastforce
  qed
  have 0: "mo_sleep m = int (card {t. t < N \<and> (pc t = WK_wait \<or> pc t = WK_woken)})"
    using inv(2) by (simp add: asleep_def is_asleep_def)
  show ?thesis by (intro conjI 0 1 2 allI impI 3)
qed

theorem workers_sleep_wake_witness:
  "\<exists>m pc. workers_reachable 2 (m, pc) \<and> mo_sleep m = 1 \<and> pc 1 = WK_wait \<and> wakeup m (mo_count m - 1) \<and> \<not> wakeup m 0"
proof -
  let ?pc = "\<lambda>_::nat. WK_loop" and ?m = "start_monitor 2"
  let ?s = "?m\<lparr>mo_sleep := 1\<rparr>"
  have "worker_step 2 (?m, ?pc) (?m, ?pc(1 := WK_dispatch))" by (rule worker_step.again) (simp_all add: start_monitor_def)
  moreover have "worker_step 2 (?m, ?pc(1 := WK_dispatch)) (?m, ?pc(1 := WK_null))"
    using worker_step.nothing [of 1 2 "?pc(1 := WK_dispatch)" ?m] by simp
  moreover have "worker_step 2 (?m, ?pc(1 := WK_null)) (?s, ?pc(1 := WK_wait))"
    using worker_step.sleep [of 1 2 "?pc(1 := WK_null)" ?m ?s WK_wait] by (simp add: worker_sleep_def start_monitor_def)
  ultimately have r: "workers_reachable 2 (?s, ?pc(1 := WK_wait))"
    unfolding workers_reachable_def of_nat_numeral by (meson converse_rtranclp_into_rtranclp rtranclp.rtrancl_refl)
  have "wakeup ?s (mo_count ?s - 1)" using workers_sleep_wake [OF r] by (metis fun_upd_same one_less_numeral_iff semiring_norm(76))
  moreover have "\<not> wakeup ?s 0" by (simp add: wakeup_def start_monitor_def)
  ultimately show ?thesis using r
    by (intro exI [of _ ?s] exI [of _ "?pc(1 := WK_wait)"] conjI) simp_all
qed

text \<open>
  Reading the configuration cannot fail and settles it: every setting of the file is kept, the
  defaults are written to the environment, nothing else of the node changes, and reading once more
  gives the same configuration and changes nothing, so services that ask for a setting with
  GETENV see the value the runtime uses.
\<close>

theorem config_settled:
  "\<exists>cfg nd'. read_config nd = Some (cfg, nd') \<and> read_config nd' = Some (cfg, nd') \<and>
     nd_env nd \<subseteq>\<^sub>m nd_env nd' \<and> nd' = nd\<lparr>nd_env := nd_env nd'\<rparr>"
  by (intro exI [of _ "config_of (env_defaults (nd_env nd))"] exI [of _ "nd\<lparr>nd_env := env_defaults (nd_env nd)\<rparr>"])
    (simp add: read_config_eq env_defaults_again env_defaults_le)

end
