(* ===== verification/Skynet_Logger.thy ===== *)
theory Skynet_Logger
  imports Skynet_Start
begin

text \<open>
  The logger service, \<^verbatim>\<open>service-src/service_logger.c\<close>. The instance is a value that its functions
  take and return. \<open>stdout\<close>, the address \<open>cb\<close> of \<open>logger_cb\<close> and the text that \<open>localtime_r\<close> and
  \<open>strftime\<close> make of a time (\<open>tm\<close>) are arguments.
\<close>

subsection \<open>The service\<close>

record logger =
  lg_handle :: "ptr option"
  lg_filename :: "string option"
  lg_starttime :: u32
  lg_close :: bool

definition logger_create :: logger where
  "logger_create = \<lparr>lg_handle = None, lg_filename = None, lg_starttime = 0, lg_close = False\<rparr>"

definition logger_release :: "node \<Rightarrow> logger \<Rightarrow> node option" where
  "logger_release nd inst =
     (if lg_close inst then do { f \<leftarrow> lg_handle inst; fclose nd f } else Some nd)"

text \<open>\<open>%02d\<close> of a number below 100.\<close>

definition fmt_02d :: "nat \<Rightarrow> string" where
  "fmt_02d n = [lower_digit (n div 10), lower_digit (n mod 10)]"

definition timestring :: "(u64 \<Rightarrow> string) \<Rightarrow> node \<Rightarrow> logger \<Rightarrow> string \<times> nat" where
  "timestring tm nd inst =
     (let now = skynet_now (nd_timer nd) in (tm (now div 100 + ucast (lg_starttime inst)), unat (now mod 100)))"

text \<open>\<open>fopen (name, "a")\<close> and \<open>freopen (name, "a", f)\<close>: a new stream, the old one is closed in any case.\<close>

definition fopen_a :: "world \<Rightarrow> node \<Rightarrow> string \<Rightarrow> ptr option \<times> node" where
  "fopen_a w nd name =
     (if w_fopen w name nd
      then (Some (nd_brk nd), nd\<lparr>nd_files := (nd_files nd)(nd_brk nd \<mapsto> []), nd_brk := nd_brk nd + 1\<rparr>)
      else (None, nd))"

definition freopen_a :: "world \<Rightarrow> node \<Rightarrow> string \<Rightarrow> ptr \<Rightarrow> (ptr option \<times> node) option" where
  "freopen_a w nd name f = do {
     nd \<leftarrow> fclose nd f;
     Some (fopen_a w nd name) }"

definition fwrite :: "world \<Rightarrow> node \<Rightarrow> ptr option \<Rightarrow> nat \<Rightarrow> ptr \<Rightarrow> node option" where
  "fwrite w nd msg sz f =
     (if sz = 0 then Some nd
      else do {
        p \<leftarrow> msg;
        d \<leftarrow> nd_mem nd p;
        let bs = (case d of Bytes bs \<Rightarrow> bs | _ \<Rightarrow> w_raw w d);
        if sz \<le> length bs then fprintf nd f (take sz bs) else None })"

definition logger_cb ::
  "(u64 \<Rightarrow> string) \<Rightarrow> world \<Rightarrow> node \<Rightarrow> logger \<Rightarrow> cint \<Rightarrow> u32 \<Rightarrow> ptr option \<Rightarrow> size_t \<Rightarrow> (logger \<times> node) option" where
  "logger_cb tm w nd inst type source msg sz =
     (if type = PTYPE_SYSTEM then
        (case lg_filename inst of
           Some name \<Rightarrow> do {
             f \<leftarrow> lg_handle inst;
             (h, nd) \<leftarrow> freopen_a w nd name f;
             Some (inst\<lparr>lg_handle := h\<rparr>, nd) }
         | None \<Rightarrow> Some (inst, nd))
      else if type = PTYPE_TEXT then do {
        f \<leftarrow> lg_handle inst;
        nd \<leftarrow> (case lg_filename inst of
            Some name \<Rightarrow>
              (let (tmp, csec) = timestring tm nd inst in fprintf nd f (tmp @ ''.'' @ fmt_02d csec @ '' ''))
          | None \<Rightarrow> Some nd);
        nd \<leftarrow> fprintf nd f (''[:'' @ fmt_08x source @ ''] '');
        nd \<leftarrow> fwrite w nd msg (unat sz) f;
        nd \<leftarrow> fprintf nd f newline;
        Some (inst, nd) }
      else Some (inst, nd))"

definition logger_init ::
  "ptr \<Rightarrow> nat \<Rightarrow> world \<Rightarrow> node \<Rightarrow> ptr \<Rightarrow> logger \<Rightarrow> ptr \<Rightarrow> string option \<Rightarrow> (int \<times> logger \<times> node) option" where
  "logger_init stdout cb w nd self inst ctx parm = do {
     (r, nd) \<leftarrow> skynet_command w nd ctx ''STARTTIME'' None;
     r \<leftarrow> r;
     let inst = inst\<lparr>lg_starttime := ucast (strtoul r 10)\<rparr>;
     let (h, nd) = (case parm of Some p \<Rightarrow> fopen_a w nd p | None \<Rightarrow> (Some stdout, nd));
     let inst = inst\<lparr>lg_handle := h\<rparr>;
     if h = None then Some (1, inst, nd)
     else do {
       let inst = (case parm of Some p \<Rightarrow> inst\<lparr>lg_filename := Some p, lg_close := True\<rparr> | None \<Rightarrow> inst);
       nd \<leftarrow> skynet_callback nd ctx (Some self) (Some cb);
       Some (0, inst, nd) } }"

subsection \<open>Lines of the log\<close>

text \<open>The logger's stream is open.\<close>

definition logger_ok :: "logger \<Rightarrow> node \<Rightarrow> bool" where
  "logger_ok inst nd \<longleftrightarrow> (\<exists>f s. lg_handle inst = Some f \<and> nd_files nd f = Some s)"

definition log_text :: "logger \<Rightarrow> node \<Rightarrow> string" where
  "log_text inst nd = the (nd_files nd (the (lg_handle inst)))"

definition log_line :: "(u64 \<Rightarrow> string) \<Rightarrow> node \<Rightarrow> logger \<Rightarrow> u32 \<Rightarrow> string \<Rightarrow> string" where
  "log_line tm nd inst source bs =
     (if lg_filename inst = None then []
      else fst (timestring tm nd inst) @ ''.'' @ fmt_02d (snd (timestring tm nd inst)) @ '' '') @
     ''[:'' @ fmt_08x source @ ''] '' @ bs @ newline"

lemma fprintf_open: "nd_files nd f = Some s \<Longrightarrow> fprintf nd f t = Some (nd\<lparr>nd_files := (nd_files nd)(f \<mapsto> s @ t)\<rparr>)"
  by (simp add: fprintf_def)

text \<open>A text message appends its line to the stream and changes nothing else.\<close>

lemma logger_cb_text:
  assumes "logger_ok inst nd" "nd_mem nd p = Some (Bytes bs)" "unat sz \<le> length bs"
  shows "logger_cb tm w nd inst PTYPE_TEXT source (Some p) sz =
    Some (inst, nd\<lparr>nd_files := (nd_files nd)(the (lg_handle inst) \<mapsto>
      log_text inst nd @ log_line tm nd inst source (take (unat sz) bs))\<rparr>)"
  using assms
  by (auto simp: logger_cb_def PTYPE_TEXT_def PTYPE_SYSTEM_def logger_ok_def log_text_def log_line_def fprintf_open
      fwrite_def split_beta Let_def split: option.splits)

text \<open>SIGHUP: the log goes on in a new stream of the same name, the old one is closed.\<close>

lemma logger_cb_hup:
  assumes "logger_ok inst nd" "lg_filename inst = Some name" "nd_files nd (nd_brk nd) = None"
    and "w_fopen w name (nd\<lparr>nd_files := (nd_files nd)(the (lg_handle inst) := None)\<rparr>)"
  obtains inst' nd' where "logger_cb tm w nd inst PTYPE_SYSTEM source None 0 = Some (inst', nd')" "logger_ok inst' nd'"
    "log_text inst' nd' = []" "lg_filename inst' = Some name" "nd_files nd' (the (lg_handle inst)) = None"
proof -
  obtain f s where f: "lg_handle inst = Some f" "nd_files nd f = Some s" using assms(1) by (auto simp: logger_ok_def)
  then have "f \<noteq> nd_brk nd" using assms(3) by auto
  then show thesis using f assms(2-4) that
    by (simp add: logger_cb_def freopen_a_def fopen_a_def fclose_def logger_ok_def log_text_def)
qed

text \<open>
  When the file cannot be opened again, the stream is NULL and the next text message passes it to
  \<open>fprintf\<close>.
\<close>

lemma logger_cb_hup_fails:
  assumes "logger_ok inst nd" "lg_filename inst = Some name"
    and "\<not> w_fopen w name (nd\<lparr>nd_files := (nd_files nd)(the (lg_handle inst) := None)\<rparr>)"
  obtains inst' nd' where "logger_cb tm w nd inst PTYPE_SYSTEM source None 0 = Some (inst', nd')"
    "logger_cb tm w nd' inst' PTYPE_TEXT src msg sz = None"
  using assms by (auto simp: logger_cb_def PTYPE_TEXT_def PTYPE_SYSTEM_def freopen_a_def fopen_a_def fclose_def logger_ok_def)

end
