(* ===== verification/Skynet_Harbor.thy ===== *)
theory Skynet_Harbor
  imports Skynet_Gate
begin

text \<open>
  The harbor service, \<^verbatim>\<open>service-src/service_harbor.c\<close>: it sends the messages of the node to the
  other nodes (slaves), one TCP connection for each, keeps them in queues while a node is not
  connected or a global name is not known, and hands the messages of other nodes to the services.

  The queues and the entries of the name table are values: only one pointer to each exists at a
  time. The name table is a list for each of its 4096 buckets, in the order of the chain. A name is
  its 16 characters. A block on the stack that is sent is a block of the heap during the call. The
  loop over a queue is \<open>drain\<close>. The received data is read from its block before the loop of
  \<open>push_socket_data\<close>, which does not change the block.
\<close>

subsection \<open>Data\<close>

record remote_message_header =
  rh_source :: u32
  rh_destination :: u32
  rh_session :: u32

record harbor_msg =
  hm_header :: remote_message_header
  hm_buffer :: "ptr option"
  hm_size :: size_t

record harbor_msg_queue =
  hq_size :: nat
  hq_head :: nat
  hq_tail :: nat
  hq_data :: "harbor_msg option list"

record keyvalue =
  kv_key :: string
  kv_hash :: u32
  kv_value :: u32
  kv_queue :: "harbor_msg_queue option"

type_synonym hashmap = "nat \<Rightarrow> keyvalue list"

datatype slave_status = STATUS_WAIT | STATUS_HANDSHAKE | STATUS_HEADER | STATUS_CONTENT | STATUS_DOWN

record slave =
  sl_fd :: cint
  sl_queue :: "harbor_msg_queue option"
  sl_status :: slave_status
  sl_length :: int
  sl_read :: int
  sl_size :: string
  sl_recv_buffer :: "ptr option"

record harbor =
  hb_ctx :: "ptr option"
  hb_id :: cint
  hb_slave :: u32
  hb_map :: hashmap
  hb_s :: "nat \<Rightarrow> slave"

definition HASH_SIZE :: nat where "HASH_SIZE = 4096"
definition HARBOR_QUEUE_SIZE :: nat where "HARBOR_QUEUE_SIZE = 1024"
definition HEADER_COOKIE_LENGTH :: nat where "HEADER_COOKIE_LENGTH = 12"
definition REMOTE_MAX :: nat where "REMOTE_MAX = 256"

subsection \<open>Queues\<close>

definition push_queue_msg :: "harbor_msg_queue \<Rightarrow> harbor_msg \<Rightarrow> harbor_msg_queue" where
  "push_queue_msg q m =
     (let q = (if (hq_tail q + 1) mod hq_size q = hq_head q then
                 q\<lparr>hq_data := map (\<lambda>i. hq_data q ! ((i + hq_head q) mod hq_size q)) [0..<hq_size q - 1]
                              @ replicate (hq_size q + 1) None,
                   hq_head := 0, hq_tail := hq_size q - 1, hq_size := hq_size q * 2\<rparr>
               else q)
      in q\<lparr>hq_data := (hq_data q)[hq_tail q := Some m], hq_tail := (hq_tail q + 1) mod hq_size q\<rparr>)"

definition push_queue :: "harbor_msg_queue \<Rightarrow> ptr option \<Rightarrow> size_t \<Rightarrow> remote_message_header \<Rightarrow> harbor_msg_queue" where
  "push_queue q buffer sz header = push_queue_msg q \<lparr>hm_header = header, hm_buffer = buffer, hm_size = sz\<rparr>"

text \<open>\<open>None\<close> is the read of a cell that was never written.\<close>

definition pop_queue :: "harbor_msg_queue \<Rightarrow> (harbor_msg option \<times> harbor_msg_queue) option" where
  "pop_queue q =
     (if hq_head q = hq_tail q then Some (None, q)
      else do {
        m \<leftarrow> hq_data q ! hq_head q;
        Some (Some m, q\<lparr>hq_head := (hq_head q + 1) mod hq_size q\<rparr>) })"

definition new_queue :: harbor_msg_queue where
  "new_queue = \<lparr>hq_size = HARBOR_QUEUE_SIZE, hq_head = 0, hq_tail = 0, hq_data = replicate HARBOR_QUEUE_SIZE None\<rparr>"

text \<open>\<open>while ((m = pop_queue(queue)) != NULL) { f m }\<close>\<close>

partial_function (option) drain ::
  "(harbor_msg \<Rightarrow> 's \<Rightarrow> 's option) \<Rightarrow> harbor_msg_queue \<Rightarrow> 's \<Rightarrow> ('s \<times> harbor_msg_queue) option" where
  "drain f q s =
     Option.bind (pop_queue q) (\<lambda>(m, q).
       (case m of
          None \<Rightarrow> Some (s, q)
        | Some m \<Rightarrow> Option.bind (f m s) (\<lambda>s. drain f q s)))"

definition release_queue :: "node \<Rightarrow> harbor_msg_queue option \<Rightarrow> node option" where
  "release_queue nd q =
     (case q of
        None \<Rightarrow> Some nd
      | Some q \<Rightarrow> map_option fst (drain (\<lambda>m nd. skynet_free nd (hm_buffer m)) q nd))"

subsection \<open>The name table\<close>

text \<open>A \<open>uint32_t\<close> of the 16 characters.\<close>

definition name_word :: "string \<Rightarrow> nat \<Rightarrow> u32" where
  "name_word name i = word_of_nat (foldr (\<lambda>c n. of_char c + n * 256) (take 4 (drop (4 * i) name)) 0)"

definition name_hash :: "string \<Rightarrow> u32" where
  "name_hash name = name_word name 0 XOR name_word name 1 XOR name_word name 2 XOR name_word name 3"

definition strncmp_eq :: "string \<Rightarrow> string \<Rightarrow> nat \<Rightarrow> bool" where
  "strncmp_eq a b n \<longleftrightarrow> takeWhile (\<lambda>c. c \<noteq> NUL) (take n a) = takeWhile (\<lambda>c. c \<noteq> NUL) (take n b)"

definition key_matches :: "string \<Rightarrow> keyvalue \<Rightarrow> bool" where
  "key_matches name node \<longleftrightarrow> kv_hash node = name_hash name \<and> strncmp_eq (kv_key node) name GLOBALNAME_LENGTH"

definition hash_search :: "hashmap \<Rightarrow> string \<Rightarrow> keyvalue option" where
  "hash_search hash name = find (key_matches name) (hash (unat (name_hash name) mod HASH_SIZE))"

definition hash_insert :: "hashmap \<Rightarrow> string \<Rightarrow> keyvalue \<times> hashmap" where
  "hash_insert hash name =
     (let h = name_hash name;
          node = \<lparr>kv_key = name, kv_hash = h, kv_value = 0, kv_queue = None\<rparr>;
          i = unat h mod HASH_SIZE
      in (node, hash(i := node # hash i)))"

text \<open>The entry that \<open>hash_search\<close> finds or \<open>hash_insert\<close> adds, and a write to it.\<close>

definition hash_node :: "hashmap \<Rightarrow> string \<Rightarrow> keyvalue \<times> hashmap" where
  "hash_node hash name = (case hash_search hash name of Some node \<Rightarrow> (node, hash) | None \<Rightarrow> hash_insert hash name)"

fun replace_node :: "string \<Rightarrow> keyvalue \<Rightarrow> keyvalue list \<Rightarrow> keyvalue list" where
  "replace_node name node [] = []"
| "replace_node name node (n # ns) = (if key_matches name n then node # ns else n # replace_node name node ns)"

definition hash_write :: "hashmap \<Rightarrow> string \<Rightarrow> keyvalue \<Rightarrow> hashmap" where
  "hash_write hash name node =
     (let i = unat (name_hash name) mod HASH_SIZE in hash(i := replace_node name node (hash i)))"

fun release_chain :: "node \<Rightarrow> keyvalue list \<Rightarrow> node option" where
  "release_chain nd [] = Some nd"
| "release_chain nd (node # ns) = do {
     nd \<leftarrow> release_queue nd (kv_queue node);
     release_chain nd ns }"

definition hash_delete :: "node \<Rightarrow> hashmap \<Rightarrow> node option" where
  "hash_delete nd hash = release_chain nd (concat (map hash [0..<HASH_SIZE]))"

subsection \<open>Closing\<close>

definition upd_slave :: "harbor \<Rightarrow> nat \<Rightarrow> (slave \<Rightarrow> slave) \<Rightarrow> harbor" where
  "upd_slave h i f = h\<lparr>hb_s := (hb_s h)(i := f (hb_s h i))\<rparr>"

definition close_harbor :: "'k sstate \<Rightarrow> harbor \<Rightarrow> nat \<Rightarrow> ('k sstate \<times> harbor) option" where
  "close_harbor st h i = do {
     let s = hb_s h i;
     st \<leftarrow> (if sl_fd s \<noteq> 0 then Option.bind (hb_ctx h) (\<lambda>c. skynet_socket_close st c (sl_fd s)) else Some st);
     nd \<leftarrow> release_queue (st_nd st) (sl_queue s);
     Some (st\<lparr>st_nd := nd\<rparr>, upd_slave h i (\<lambda>s. s\<lparr>sl_status := STATUS_DOWN, sl_queue := None\<rparr>)) }"

text \<open>A text is sent by copy from a block that exists during the call.\<close>

definition send_text :: "world \<Rightarrow> node \<Rightarrow> ptr option \<Rightarrow> u32 \<Rightarrow> string \<Rightarrow> node option" where
  "send_text w nd ctx destination txt = do {
     let (p, nd) = skynet_malloc nd (Bytes (txt @ [NUL]));
     (_, nd) \<leftarrow> skynet_send w nd ctx 0 destination PTYPE_TEXT 0 (Some p) (word_of_nat (length txt));
     skynet_free nd (Some p) }"

definition report_harbor_down :: "world \<Rightarrow> node \<Rightarrow> harbor \<Rightarrow> nat \<Rightarrow> node option" where
  "report_harbor_down w nd h i = send_text w nd (hb_ctx h) (hb_slave h) (''D '' @ fmt_d (int i))"

definition empty_slave :: slave where
  "empty_slave = \<lparr>sl_fd = 0, sl_queue = None, sl_status = STATUS_WAIT, sl_length = 0, sl_read = 0,
     sl_size = replicate 4 NUL, sl_recv_buffer = None\<rparr>"

definition harbor_create :: harbor where
  "harbor_create = \<lparr>hb_ctx = None, hb_id = 0, hb_slave = 0, hb_map = (\<lambda>_. []), hb_s = (\<lambda>_. empty_slave)\<rparr>"

fun close_slaves :: "'k sstate \<Rightarrow> harbor \<Rightarrow> nat list \<Rightarrow> ('k sstate \<times> harbor) option" where
  "close_slaves st h [] = Some (st, h)"
| "close_slaves st h (i # is) = do {
     (st, h) \<leftarrow> (if sl_fd (hb_s h i) \<noteq> 0 \<and> sl_status (hb_s h i) \<noteq> STATUS_DOWN then close_harbor st h i else Some (st, h));
     close_slaves st h is }"

definition harbor_release :: "'k sstate \<Rightarrow> harbor \<Rightarrow> 'k sstate option" where
  "harbor_release st h = do {
     (st, h) \<leftarrow> close_slaves st h [1..<REMOTE_MAX];
     nd \<leftarrow> hash_delete (st_nd st) (hb_map h);
     Some (st\<lparr>st_nd := nd\<rparr>) }"

subsection \<open>Frames\<close>

definition to_bigendian :: "u32 \<Rightarrow> string" where
  "to_bigendian n = map (\<lambda>k. char_of (unat (drop_bit k n AND 0xff))) [24, 16, 8, 0]"

definition header_to_message :: "remote_message_header \<Rightarrow> string" where
  "header_to_message header =
     to_bigendian (rh_source header) @ to_bigendian (rh_destination header) @ to_bigendian (rh_session header)"

definition be_byte :: "string \<Rightarrow> nat \<Rightarrow> u32" where
  "be_byte bytes i = of_char (bytes ! i)"

definition from_bigendian :: "string \<Rightarrow> u32" where
  "from_bigendian bytes =
     push_bit 24 (be_byte bytes 0) OR push_bit 16 (be_byte bytes 1) OR push_bit 8 (be_byte bytes 2) OR be_byte bytes 3"

definition message_to_header :: "string \<Rightarrow> remote_message_header" where
  "message_to_header message =
     \<lparr>rh_source = from_bigendian (take 4 message), rh_destination = from_bigendian (take 4 (drop 4 message)),
      rh_session = from_bigendian (take 4 (drop 8 message))\<rparr>"

text \<open>The part of \<open>forward_local_messsage\<close> behind the reading of the header.\<close>

definition deliver_local :: "world \<Rightarrow> node \<Rightarrow> harbor \<Rightarrow> remote_message_header \<Rightarrow> ptr \<Rightarrow> size_t \<Rightarrow> node option" where
  "deliver_local w nd h header msg sz = do {
     let destination = rh_destination header;
     let type = (drop_bit HANDLE_REMOTE_SHIFT destination :: cint);
     let destination = (destination AND HANDLE_MASK) OR push_bit HANDLE_REMOTE_SHIFT (hb_id h);
     (r, nd) \<leftarrow> skynet_send w nd (hb_ctx h) (rh_source header) destination (type OR PTYPE_TAG_DONTCOPY)
                 (rh_session header) (Some msg) sz;
     if sint r < 0 then do {
       nd \<leftarrow> (if type \<noteq> PTYPE_ERROR
              then map_option snd (skynet_send w nd (hb_ctx h) destination (rh_source header) PTYPE_ERROR (rh_session header) None 0)
              else Some nd);
       skynet_error w nd (hb_ctx h) (Some (''Unknown destination :'' @ fmt_x destination @ '' from :''
         @ fmt_x (rh_source header) @ '' type('' @ fmt_d (sint type) @ '')'')) }
     else Some nd }"

text \<open>A frame shorter than a header makes \<open>cookie\<close> point before the block: \<open>None\<close>.\<close>

definition forward_local_messsage :: "world \<Rightarrow> node \<Rightarrow> harbor \<Rightarrow> ptr \<Rightarrow> int \<Rightarrow> node option" where
  "forward_local_messsage w nd h msg sz = do {
     cookie \<leftarrow> (if sz < int HEADER_COOKIE_LENGTH then None
                else mem_load nd (msg, nat sz - HEADER_COOKIE_LENGTH) HEADER_COOKIE_LENGTH);
     deliver_local w nd h (message_to_header cookie) msg (word_of_int (sz - int HEADER_COOKIE_LENGTH)) }"

definition remote_frame :: "string \<Rightarrow> remote_message_header \<Rightarrow> string" where
  "remote_frame bytes cookie =
     to_bigendian (word_of_nat (length bytes + HEADER_COOKIE_LENGTH)) @ bytes @ header_to_message cookie"

definition skynet_socket_sendbuffer :: "'k sys \<Rightarrow> world \<Rightarrow> 'k sstate \<Rightarrow> socket_sendbuffer \<Rightarrow> (int \<times> 'k sstate) option" where
  "skynet_socket_sendbuffer sys w st buffer = socket_server_send sys w st buffer"

text \<open>Sending a block of the stack: it exists during the call.\<close>

definition send_raw :: "'k sys \<Rightarrow> world \<Rightarrow> 'k sstate \<Rightarrow> cint \<Rightarrow> string \<Rightarrow> 'k sstate option" where
  "send_raw sys w st fd sendbuf = do {
     let (p, nd) = skynet_malloc (st_nd st) (Bytes sendbuf);
     (_, st) \<leftarrow> skynet_socket_sendbuffer sys w (st\<lparr>st_nd := nd\<rparr>)
       \<lparr>sb_id = fd, sb_type = SOCKET_BUFFER_RAWPOINTER, sb_buffer = p, sb_sz = word_of_nat (length sendbuf)\<rparr>;
     nd \<leftarrow> skynet_free (st_nd st) (Some p);
     Some (st\<lparr>st_nd := nd\<rparr>) }"

definition send_remote ::
  "'k sys \<Rightarrow> world \<Rightarrow> 'k sstate \<Rightarrow> ptr option \<Rightarrow> cint \<Rightarrow> ptr option \<Rightarrow> size_t \<Rightarrow> remote_message_header \<Rightarrow> 'k sstate option" where
  "send_remote sys w st ctx fd buffer sz cookie =
     (let sz_header = sz + 12 in
      if sz_header > 0xffffffff then do {
        nd \<leftarrow> skynet_error w (st_nd st) ctx (Some (''remote message from :'' @ fmt_08x (rh_source cookie) @ '' to :''
          @ fmt_08x (rh_destination cookie) @ '' is too large.''));
        Some (st\<lparr>st_nd := nd\<rparr>) }
      else do {
        bytes \<leftarrow> (case buffer of Some p \<Rightarrow> mem_load (st_nd st) (p, 0) (unat sz) | None \<Rightarrow> if sz = 0 then Some [] else None);
        send_raw sys w st fd (remote_frame bytes cookie) })"

subsection \<open>Waiting messages\<close>

text \<open>
  The first branch of \<open>dispatch_name_queue\<close>, for a node that is not connected: the messages go to
  the queue of the node, or to the service when the node is the own one.
\<close>

definition move_name_queue :: "harbor \<Rightarrow> nat \<Rightarrow> keyvalue \<Rightarrow> (harbor \<times> keyvalue) option" where
  "move_name_queue h i node =
     (case sl_queue (hb_s h i) of
        None \<Rightarrow> Some (upd_slave h i (\<lambda>s. s\<lparr>sl_queue := kv_queue node\<rparr>), node\<lparr>kv_queue := None\<rparr>)
      | Some sq \<Rightarrow> do {
          queue \<leftarrow> kv_queue node;
          (sq, queue) \<leftarrow> drain (\<lambda>m q. Some (push_queue_msg q m)) queue sq;
          Some (upd_slave h i (\<lambda>s. s\<lparr>sl_queue := Some sq\<rparr>), node\<lparr>kv_queue := Some queue\<rparr>) })"

definition send_own :: "world \<Rightarrow> harbor \<Rightarrow> u32 \<Rightarrow> harbor_msg \<Rightarrow> node \<Rightarrow> node option" where
  "send_own w h handle m nd =
     map_option snd (skynet_send w nd (hb_ctx h) (rh_source (hm_header m)) handle
       (drop_bit HANDLE_REMOTE_SHIFT (rh_destination (hm_header m)) OR PTYPE_TAG_DONTCOPY)
       (rh_session (hm_header m)) (hm_buffer m) (hm_size m))"

definition send_waiting :: "'k sys \<Rightarrow> world \<Rightarrow> ptr option \<Rightarrow> cint \<Rightarrow> u32 \<Rightarrow> harbor_msg \<Rightarrow> 'k sstate \<Rightarrow> 'k sstate option" where
  "send_waiting sys w ctx fd handle m st = do {
     let header = (hm_header m)\<lparr>rh_destination := rh_destination (hm_header m) OR handle\<rparr>;
     st \<leftarrow> send_remote sys w st ctx fd (hm_buffer m) (hm_size m) header;
     nd \<leftarrow> skynet_free (st_nd st) (hm_buffer m);
     Some (st\<lparr>st_nd := nd\<rparr>) }"

definition dispatch_name_queue ::
  "'k sys \<Rightarrow> world \<Rightarrow> 'k sstate \<Rightarrow> harbor \<Rightarrow> keyvalue \<Rightarrow> ('k sstate \<times> harbor \<times> keyvalue) option" where
  "dispatch_name_queue sys w st h node = do {
     let handle = kv_value node;
     let harbor_id = unat (drop_bit HANDLE_REMOTE_SHIFT handle);
     let s = hb_s h harbor_id;
     if sl_fd s = 0 then
       (if sl_status s = STATUS_DOWN then do {
          nd \<leftarrow> skynet_error w (st_nd st) (hb_ctx h) (Some (''Drop message to ''
            @ takeWhile (\<lambda>c. c \<noteq> NUL) (kv_key node) @ '' (in harbor '' @ fmt_d (int harbor_id) @ '')''));
          Some (st\<lparr>st_nd := nd\<rparr>, h, node) }
        else do {
          (h, node) \<leftarrow> move_name_queue h harbor_id node;
          if harbor_id = unat (drop_bit HANDLE_REMOTE_SHIFT (hb_slave h)) then do {
            q \<leftarrow> sl_queue (hb_s h harbor_id);
            (nd, q) \<leftarrow> drain (send_own w h handle) q (st_nd st);
            nd \<leftarrow> release_queue nd (Some q);
            Some (st\<lparr>st_nd := nd\<rparr>, upd_slave h harbor_id (\<lambda>s. s\<lparr>sl_queue := None\<rparr>), node) }
          else Some (st, h, node) })
     else do {
       queue \<leftarrow> kv_queue node;
       (st, queue) \<leftarrow> drain (send_waiting sys w (hb_ctx h) (sl_fd s) (handle AND HANDLE_MASK)) queue st;
       Some (st, h, node\<lparr>kv_queue := Some queue\<rparr>) } }"

definition dispatch_queue :: "'k sys \<Rightarrow> world \<Rightarrow> 'k sstate \<Rightarrow> harbor \<Rightarrow> nat \<Rightarrow> ('k sstate \<times> harbor) option" where
  "dispatch_queue sys w st h i = do {
     let s = hb_s h i;
     if sl_fd s = 0 then None
     else
       (case sl_queue s of
          None \<Rightarrow> Some (st, h)
        | Some queue \<Rightarrow> do {
            (st, queue) \<leftarrow> drain (send_waiting sys w (hb_ctx h) (sl_fd s) 0) queue st;
            nd \<leftarrow> release_queue (st_nd st) (Some queue);
            Some (st\<lparr>st_nd := nd\<rparr>, upd_slave h i (\<lambda>s. s\<lparr>sl_queue := None\<rparr>)) }) }"

subsection \<open>Received data\<close>

text \<open>\<open>memcpy\<close> into a block.\<close>

definition mem_write :: "node \<Rightarrow> ptr option \<Rightarrow> nat \<Rightarrow> string \<Rightarrow> node option" where
  "mem_write nd p off bs = do {
     p \<leftarrow> p;
     case nd_mem nd p of
       Some (Bytes old) \<Rightarrow>
         (if off + length bs \<le> length old
          then Some (nd\<lparr>nd_mem := (nd_mem nd)(p \<mapsto> Bytes (take off old @ bs @ drop (off + length bs) old))\<rparr>)
          else None)
     | _ \<Rightarrow> None }"

definition harbor_id :: "harbor \<Rightarrow> cint \<Rightarrow> nat" where
  "harbor_id h fd = (case find (\<lambda>i. sl_fd (hb_s h i) = fd) [1..<REMOTE_MAX] of Some i \<Rightarrow> i | None \<Rightarrow> 0)"

text \<open>
  The cases of the switch of \<open>push_socket_data\<close> for the rest \<open>buffer\<close> of the data. The first result
  is the rest for the next turn of the loop, \<open>None\<close> for \<open>return\<close>. Falling through to the next case
  is the next turn, since the status has been set to it.
\<close>

type_synonym 'k turn = "(string option \<times> 'k sstate \<times> harbor) option"

definition turn_handshake :: "'k sys \<Rightarrow> world \<Rightarrow> 'k sstate \<Rightarrow> harbor \<Rightarrow> nat \<Rightarrow> string \<Rightarrow> 'k turn" where
  "turn_handshake sys w st h i buffer =
     (case buffer of
        [] \<Rightarrow> None
      | remote_id # buffer \<Rightarrow>
          (if of_char remote_id \<noteq> i then do {
             nd \<leftarrow> skynet_error w (st_nd st) (hb_ctx h) (Some (''Invalid shakehand id ('' @ fmt_d (int i) @ '') from fd = ''
               @ fmt_d (sint (sl_fd (hb_s h i))) @ '' , harbor = '' @ fmt_d (of_char remote_id)));
             (st, h) \<leftarrow> close_harbor (st\<lparr>st_nd := nd\<rparr>) h i;
             Some (None, st, h) }
           else do {
             (st, h) \<leftarrow> dispatch_queue sys w st (upd_slave h i (\<lambda>s. s\<lparr>sl_status := STATUS_HEADER\<rparr>)) i;
             Some (Some buffer, st, h) }))"

text \<open>The four bytes of the size are complete, \<open>rest\<close> is behind them.\<close>

definition header_done :: "world \<Rightarrow> 'k sstate \<Rightarrow> harbor \<Rightarrow> nat \<Rightarrow> string \<Rightarrow> string \<Rightarrow> 'k turn" where
  "header_done w st h i sz rest = do {
     let h = upd_slave h i (\<lambda>s. s\<lparr>sl_size := sz\<rparr>);
     if sz ! 0 \<noteq> NUL then do {
       nd \<leftarrow> skynet_error w (st_nd st) (hb_ctx h) (Some (''Message is too long from harbor '' @ fmt_d (int i)));
       (st, h) \<leftarrow> close_harbor (st\<lparr>st_nd := nd\<rparr>) h i;
       Some (None, st, h) }
     else do {
       let len = uint (from_bigendian sz);
       let (p, nd) = skynet_malloc (st_nd st) (Bytes (replicate (nat len) NUL));
       let h = upd_slave h i (\<lambda>s. s\<lparr>sl_length := len, sl_read := 0, sl_recv_buffer := Some p, sl_status := STATUS_CONTENT\<rparr>);
       Some (if rest = [] then None else Some rest, st\<lparr>st_nd := nd\<rparr>, h) } }"

definition turn_header :: "world \<Rightarrow> 'k sstate \<Rightarrow> harbor \<Rightarrow> nat \<Rightarrow> string \<Rightarrow> 'k turn" where
  "turn_header w st h i buffer =
     (let s = hb_s h i; rd = nat (sl_read s); need = 4 - rd; size = length buffer
      in if size < need then
           Some (None, st, upd_slave h i (\<lambda>s. s\<lparr>sl_size := take rd (sl_size s) @ buffer @ drop (rd + size) (sl_size s),
             sl_read := sl_read s + int size\<rparr>))
         else header_done w st h i (take rd (sl_size s) @ take need buffer @ drop (rd + need) (sl_size s)) (drop need buffer))"

text \<open>The content is complete, \<open>rest\<close> is behind it.\<close>

definition content_done :: "world \<Rightarrow> 'k sstate \<Rightarrow> harbor \<Rightarrow> nat \<Rightarrow> string \<Rightarrow> 'k turn" where
  "content_done w st h i rest = do {
     let s = hb_s h i;
     p \<leftarrow> sl_recv_buffer s;
     nd \<leftarrow> forward_local_messsage w (st_nd st) h p (sl_length s);
     let h = upd_slave h i (\<lambda>s. s\<lparr>sl_length := 0, sl_read := 0, sl_recv_buffer := None, sl_status := STATUS_HEADER\<rparr>);
     Some (if rest = [] then None else Some rest, st\<lparr>st_nd := nd\<rparr>, h) }"

definition turn_content :: "world \<Rightarrow> 'k sstate \<Rightarrow> harbor \<Rightarrow> nat \<Rightarrow> string \<Rightarrow> 'k turn" where
  "turn_content w st h i buffer = do {
     let s = hb_s h i;
     let need = nat (sl_length s - sl_read s);
     if length buffer < need then do {
       nd \<leftarrow> mem_write (st_nd st) (sl_recv_buffer s) (nat (sl_read s)) buffer;
       Some (None, st\<lparr>st_nd := nd\<rparr>, upd_slave h i (\<lambda>s. s\<lparr>sl_read := sl_read s + int (length buffer)\<rparr>)) }
     else do {
       nd \<leftarrow> mem_write (st_nd st) (sl_recv_buffer s) (nat (sl_read s)) (take need buffer);
       content_done w (st\<lparr>st_nd := nd\<rparr>) h i (drop need buffer) } }"

definition socket_data_turn :: "'k sys \<Rightarrow> world \<Rightarrow> 'k sstate \<Rightarrow> harbor \<Rightarrow> nat \<Rightarrow> string \<Rightarrow> 'k turn" where
  "socket_data_turn sys w st h i buffer =
     (case sl_status (hb_s h i) of
        STATUS_HANDSHAKE \<Rightarrow> turn_handshake sys w st h i buffer
      | STATUS_HEADER \<Rightarrow> turn_header w st h i buffer
      | STATUS_CONTENT \<Rightarrow> turn_content w st h i buffer
      | _ \<Rightarrow> Some (None, st, h))"

partial_function (option) socket_data_loop ::
  "'k sys \<Rightarrow> world \<Rightarrow> 'k sstate \<Rightarrow> harbor \<Rightarrow> nat \<Rightarrow> string \<Rightarrow> ('k sstate \<times> harbor) option" where
  "socket_data_loop sys w st h i buffer =
     Option.bind (socket_data_turn sys w st h i buffer) (\<lambda>(rest, st, h).
       (case rest of None \<Rightarrow> Some (st, h) | Some buffer \<Rightarrow> socket_data_loop sys w st h i buffer))"

definition push_socket_data ::
  "'k sys \<Rightarrow> world \<Rightarrow> 'k sstate \<Rightarrow> harbor \<Rightarrow> skynet_socket_message \<Rightarrow> ('k sstate \<times> harbor) option" where
  "push_socket_data sys w st h message =
     (let i = harbor_id h (ssm_id message) in
      if i = 0 then do {
        nd \<leftarrow> skynet_error w (st_nd st) (hb_ctx h) (Some (''Invalid socket fd ('' @ fmt_d (sint (ssm_id message)) @ '') data''));
        Some (st\<lparr>st_nd := nd\<rparr>, h) }
      else do {
        p \<leftarrow> ssm_buffer message;
        buffer \<leftarrow> mem_load (st_nd st) (p, 0) (nat (sint (ssm_ud message)));
        socket_data_loop sys w st h i buffer })"

subsection \<open>Names and outgoing messages\<close>

definition update_name :: "'k sys \<Rightarrow> world \<Rightarrow> 'k sstate \<Rightarrow> harbor \<Rightarrow> string \<Rightarrow> u32 \<Rightarrow> ('k sstate \<times> harbor) option" where
  "update_name sys w st h name handle = do {
     let (node, map) = hash_node (hb_map h) name;
     let node = node\<lparr>kv_value := handle\<rparr>;
     let h = h\<lparr>hb_map := hash_write map name node\<rparr>;
     if kv_queue node \<noteq> None then do {
       (st, h, node) \<leftarrow> dispatch_name_queue sys w st h node;
       nd \<leftarrow> release_queue (st_nd st) (kv_queue node);
       Some (st\<lparr>st_nd := nd\<rparr>, h\<lparr>hb_map := hash_write (hb_map h) name (node\<lparr>kv_queue := None\<rparr>)\<rparr>) }
     else Some (st, h) }"

text \<open>The \<open>bool\<close> says that the message buffer is kept.\<close>

definition remote_send_handle ::
  "'k sys \<Rightarrow> world \<Rightarrow> 'k sstate \<Rightarrow> harbor \<Rightarrow> u32 \<Rightarrow> u32 \<Rightarrow> cint \<Rightarrow> cint \<Rightarrow> ptr option \<Rightarrow> size_t \<Rightarrow>
     (bool \<times> 'k sstate \<times> harbor) option" where
  "remote_send_handle sys w st h source destination type session msg sz = do {
     let harbor_id = drop_bit HANDLE_REMOTE_SHIFT destination;
     if harbor_id = hb_id h then do {
       (_, nd) \<leftarrow> skynet_send w (st_nd st) (hb_ctx h) source destination (type OR PTYPE_TAG_DONTCOPY) session msg sz;
       Some (True, st\<lparr>st_nd := nd\<rparr>, h) }
     else do {
       let i = unat harbor_id;
       let s = hb_s h i;
       let header = \<lparr>rh_source = source,
                     rh_destination = push_bit HANDLE_REMOTE_SHIFT type OR (destination AND HANDLE_MASK), rh_session = session\<rparr>;
       if sl_fd s = 0 \<or> sl_status s = STATUS_HANDSHAKE then
         (if sl_status s = STATUS_DOWN then do {
            (_, nd) \<leftarrow> skynet_send w (st_nd st) (hb_ctx h) destination source PTYPE_ERROR 0 None 0;
            nd \<leftarrow> skynet_error w nd (hb_ctx h) (Some (''Drop message to harbor '' @ fmt_d (int i) @ '' from '' @ fmt_x source
              @ '' to '' @ fmt_x destination @ '' (session = '' @ fmt_d (sint session) @ '', msgsz = ''
              @ fmt_d (sint (ucast sz :: cint)) @ '')''));
            Some (False, st\<lparr>st_nd := nd\<rparr>, h) }
          else do {
            let queue = (case sl_queue s of None \<Rightarrow> new_queue | Some q \<Rightarrow> q);
            Some (True, st, upd_slave h i (\<lambda>s. s\<lparr>sl_queue := Some (push_queue queue msg sz header)\<rparr>)) })
       else do {
         st \<leftarrow> send_remote sys w st (hb_ctx h) (sl_fd s) msg sz header;
         Some (False, st, h) } } }"

definition remote_send_name ::
  "'k sys \<Rightarrow> world \<Rightarrow> 'k sstate \<Rightarrow> harbor \<Rightarrow> u32 \<Rightarrow> string \<Rightarrow> cint \<Rightarrow> cint \<Rightarrow> ptr option \<Rightarrow> size_t \<Rightarrow>
     (bool \<times> 'k sstate \<times> harbor) option" where
  "remote_send_name sys w st h source name type session msg sz = do {
     let (node, map) = hash_node (hb_map h) name;
     if kv_value node = 0 then do {
       let queue = (case kv_queue node of None \<Rightarrow> new_queue | Some q \<Rightarrow> q);
       let header = \<lparr>rh_source = source, rh_destination = push_bit HANDLE_REMOTE_SHIFT type, rh_session = session\<rparr>;
       let node = node\<lparr>kv_queue := Some (push_queue queue msg sz header)\<rparr>;
       nd \<leftarrow> send_text w (st_nd st) (hb_ctx h) (hb_slave h) (''Q '' @ takeWhile (\<lambda>c. c \<noteq> NUL) name);
       Some (True, st\<lparr>st_nd := nd\<rparr>, h\<lparr>hb_map := hash_write map name node\<rparr>) }
     else remote_send_handle sys w st (h\<lparr>hb_map := map\<rparr>) source (kv_value node) type session msg sz }"

definition handshake :: "'k sys \<Rightarrow> world \<Rightarrow> 'k sstate \<Rightarrow> harbor \<Rightarrow> nat \<Rightarrow> 'k sstate option" where
  "handshake sys w st h i = send_raw sys w st (sl_fd (hb_s h i)) [char_of (unat (hb_id h))]"

subsection \<open>Commands and the callback\<close>

text \<open>\<open>sscanf(buffer, ''%d %d'', &fd, &id)\<close> with both numbers 0 before.\<close>

definition scan_two :: "string \<Rightarrow> cint \<times> cint" where
  "scan_two s =
     (case scan_int s of
        None \<Rightarrow> (0, 0)
      | Some (fd, s) \<Rightarrow> (fd, case scan_int s of None \<Rightarrow> 0 | Some (i, _) \<Rightarrow> i))"

definition harbor_error :: "world \<Rightarrow> 'k sstate \<Rightarrow> harbor \<Rightarrow> string \<Rightarrow> ('k sstate \<times> harbor) option" where
  "harbor_error w st h txt = do {
     nd \<leftarrow> skynet_error w (st_nd st) (hb_ctx h) (Some txt);
     Some (st\<lparr>st_nd := nd\<rparr>, h) }"

text \<open>A connection to node \<open>i\<close>: the commands \<open>S\<close> (connected by us) and \<open>A\<close> (accepted).\<close>

definition add_slave :: "'k sys \<Rightarrow> world \<Rightarrow> 'k sstate \<Rightarrow> harbor \<Rightarrow> char \<Rightarrow> cint \<Rightarrow> cint \<Rightarrow> string \<Rightarrow> ('k sstate \<times> harbor) option" where
  "add_slave sys w st h cmd fd i buffer =
     (if fd = 0 \<or> sint i \<le> 0 \<or> sint i \<ge> int REMOTE_MAX then
        harbor_error w st h (''Invalid command '' @ [cmd] @ '' '' @ buffer)
      else if sl_fd (hb_s h (unat i)) \<noteq> 0 then
        harbor_error w st h (''Harbor '' @ fmt_d (sint i) @ '' alreay exist'')
      else do {
        let i = unat i;
        let h = upd_slave h i (\<lambda>s. s\<lparr>sl_fd := fd\<rparr>);
        st \<leftarrow> Option.bind (hb_ctx h) (\<lambda>c. skynet_socket_start st c fd);
        st \<leftarrow> handshake sys w st h i;
        if cmd = CHR ''S'' then Some (st, upd_slave h i (\<lambda>s. s\<lparr>sl_status := STATUS_HANDSHAKE\<rparr>))
        else dispatch_queue sys w st (upd_slave h i (\<lambda>s. s\<lparr>sl_status := STATUS_HEADER\<rparr>)) i })"

text \<open>The message has a NUL behind its \<open>length msg\<close> bytes.\<close>

definition harbor_command :: "'k sys \<Rightarrow> world \<Rightarrow> 'k sstate \<Rightarrow> harbor \<Rightarrow> string \<Rightarrow> u32 \<Rightarrow> ('k sstate \<times> harbor) option" where
  "harbor_command sys w st h msg source = do {
     let cmd = (msg @ [NUL]) ! 0;
     let s = int (length msg) - 2;
     if cmd = CHR ''N'' then
       (if s \<le> 0 \<or> s \<ge> int GLOBALNAME_LENGTH then do {
          name \<leftarrow> c_str (msg @ [NUL]) 2;
          harbor_error w st h (''Invalid global name '' @ name) }
        else update_name sys w st h (copy_name (drop 2 msg)) source)
     else if cmd = CHR ''S'' \<or> cmd = CHR ''A'' then
       (if s < 0 then None
        else do {
          let buffer = takeWhile (\<lambda>c. c \<noteq> NUL) (drop 2 msg);
          let (fd, i) = scan_two buffer;
          add_slave sys w st h cmd fd i buffer })
     else do {
       txt \<leftarrow> c_str (msg @ [NUL]) 0;
       harbor_error w st h (''Unknown command '' @ txt) } }"

definition harbor_socket :: "'k sys \<Rightarrow> world \<Rightarrow> 'k sstate \<Rightarrow> harbor \<Rightarrow> skynet_socket_message \<Rightarrow> ('k sstate \<times> harbor) option" where
  "harbor_socket sys w st h message = do {
     let type = ssm_type message;
     let i = harbor_id h (ssm_id message);
     if type = SKYNET_SOCKET_TYPE_DATA then do {
       (st, h) \<leftarrow> push_socket_data sys w st h message;
       nd \<leftarrow> skynet_free (st_nd st) (ssm_buffer message);
       Some (st\<lparr>st_nd := nd\<rparr>, h) }
     else if type = SKYNET_SOCKET_TYPE_ERROR \<or> type = SKYNET_SOCKET_TYPE_CLOSE then
       (if i \<noteq> 0 then do {
          nd \<leftarrow> report_harbor_down w (st_nd st) h i;
          Some (st\<lparr>st_nd := nd\<rparr>, h) }
        else harbor_error w st h (''Unkown fd ('' @ fmt_d (sint (ssm_id message)) @ '') closed''))
     else if type = SKYNET_SOCKET_TYPE_CONNECT then Some (st, h)
     else if type = SKYNET_SOCKET_TYPE_WARNING then
       (if i \<noteq> 0 then harbor_error w st h (''message havn'' @ [CHR 0x27] @ ''t send to Harbor ('' @ fmt_d (int i) @ '') reach ''
          @ fmt_d (sint (ssm_ud message)) @ '' K'')
        else Some (st, h))
     else harbor_error w st h (''recv invalid socket message type '' @ fmt_d (sint PTYPE_SOCKET)) }"

definition mainloop ::
  "'k sys \<Rightarrow> world \<Rightarrow> 'k sstate \<Rightarrow> harbor \<Rightarrow> cint \<Rightarrow> cint \<Rightarrow> u32 \<Rightarrow> ptr option \<Rightarrow> size_t \<Rightarrow> ('k sstate \<times> harbor) option" where
  "mainloop sys w st h type session source msg sz =
     (if type = PTYPE_SOCKET then do {
        p \<leftarrow> msg;
        case nd_mem (st_nd st) p of Some (Sock message) \<Rightarrow> harbor_socket sys w st h message | _ \<Rightarrow> None }
      else if type = PTYPE_HARBOR then do {
        p \<leftarrow> msg;
        bs \<leftarrow> mem_load (st_nd st) (p, 0) (unat sz);
        harbor_command sys w st h bs source }
      else if type = PTYPE_SYSTEM then do {
        p \<leftarrow> msg;
        case nd_mem (st_nd st) p of
          Some (Remote rmsg) \<Rightarrow> do {
            (kept, st, h) \<leftarrow>
              (if rm_handle rmsg = 0
               then remote_send_name sys w st h source (rm_name rmsg) (rm_type rmsg) session (rm_message rmsg) (rm_sz rmsg)
               else remote_send_handle sys w st h source (rm_handle rmsg) (rm_type rmsg) session (rm_message rmsg) (rm_sz rmsg));
            if kept then Some (st, h)
            else do {
              nd \<leftarrow> skynet_free (st_nd st) (rm_message rmsg);
              Some (st\<lparr>st_nd := nd\<rparr>, h) } }
        | _ \<Rightarrow> None }
      else do {
        (st, h) \<leftarrow> harbor_error w st h (''recv invalid message from '' @ fmt_x source @ '',  type = '' @ fmt_d (sint type));
        if session \<noteq> 0 \<and> type \<noteq> PTYPE_ERROR then do {
          (_, nd) \<leftarrow> skynet_send w (st_nd st) (hb_ctx h) 0 source PTYPE_ERROR session None 0;
          Some (st\<lparr>st_nd := nd\<rparr>, h) }
        else Some (st, h) })"

text \<open>\<open>sscanf(args, ''%d %u'', ...)\<close>; the address of \<open>mainloop\<close> is \<open>cb\<close>, that of the instance \<open>inst\<close>.\<close>

definition scan_uint :: "string \<Rightarrow> u32" where
  "scan_uint s = (if scan_int s = None then 0 else ucast (strtoul s 10))"

definition harbor_init :: "node \<Rightarrow> harbor \<Rightarrow> ptr \<Rightarrow> nat \<Rightarrow> ptr \<Rightarrow> string \<Rightarrow> (int \<times> node \<times> harbor) option" where
  "harbor_init nd h inst cb ctx args = do {
     let h = h\<lparr>hb_ctx := Some ctx\<rparr>;
     let (i, slave) = (case scan_int args of None \<Rightarrow> (0, 0) | Some (i, rest) \<Rightarrow> (i, scan_uint rest));
     if slave = 0 then Some (1, nd, h)
     else do {
       let h = h\<lparr>hb_id := i, hb_slave := slave\<rparr>;
       nd \<leftarrow> skynet_callback nd ctx (Some inst) (Some cb);
       nd \<leftarrow> skynet_harbor_start nd ctx;
       Some (0, nd, h) } }"

end
