(* ===== verification/Skynet_Harbor_Link.thy ===== *)
theory Skynet_Harbor_Link
  imports Skynet_Harbor
begin

text \<open>
  The messages of the harbor service, proved on the definitions of \<open>Skynet_Harbor\<close>: its queues are
  lists; the data of a connection may be cut anywhere, and the frames in it are handed over in
  order (\<open>harbor_stream\<close>); a message that waited for a name loses its handle
  (\<open>named_message_loses_handle\<close>); the branch for nodes that are down is never taken
  (\<open>harbor_down_silent\<close>).
\<close>

subsection \<open>Queues as lists\<close>

definition queue_len :: "harbor_msg_queue \<Rightarrow> nat" where
  "queue_len q = (if hq_head q \<le> hq_tail q then hq_tail q - hq_head q else hq_tail q + hq_size q - hq_head q)"

definition queue_cell :: "harbor_msg_queue \<Rightarrow> nat \<Rightarrow> harbor_msg option" where
  "queue_cell q k = hq_data q ! ((hq_head q + k) mod hq_size q)"

definition queue_list :: "harbor_msg_queue \<Rightarrow> harbor_msg list" where
  "queue_list q = map (the \<circ> queue_cell q) [0..<queue_len q]"

definition hq_ok :: "harbor_msg_queue \<Rightarrow> bool" where
  "hq_ok q \<longleftrightarrow> length (hq_data q) = hq_size q \<and> hq_head q < hq_size q \<and> hq_tail q < hq_size q \<and>
     (\<forall>k < queue_len q. queue_cell q k \<noteq> None)"

lemma length_queue_list [simp]: "length (queue_list q) = queue_len q"
  by (simp add: queue_list_def)

lemma new_queue_ok: "hq_ok new_queue" "queue_list new_queue = []"
  by (simp_all add: hq_ok_def queue_list_def queue_len_def new_queue_def HARBOR_QUEUE_SIZE_def)

lemma queue_len_bound: "hq_ok q \<Longrightarrow> queue_len q < hq_size q"
  by (auto simp: hq_ok_def queue_len_def)

lemma queue_tail: "hq_ok q \<Longrightarrow> (hq_head q + queue_len q) mod hq_size q = hq_tail q"
  by (auto simp: hq_ok_def queue_len_def)

text \<open>Different cells of the ring.\<close>

lemma ring_mod: "a < n \<Longrightarrow> k < n \<Longrightarrow> (a + k) mod n = (if a + k < n then a + k else a + k - (n :: nat))"
  by (simp add: mod_if)

lemma ring_neq: "a < n \<Longrightarrow> i < j \<Longrightarrow> j < (n :: nat) \<Longrightarrow> (a + i) mod n \<noteq> (a + j) mod n"
  by (auto simp: ring_mod)

lemma store_ok:
  assumes ok: "hq_ok q" and free: "(hq_tail q + 1) mod hq_size q \<noteq> hq_head q"
    and q'_def: "q' = q\<lparr>hq_data := (hq_data q)[hq_tail q := Some m], hq_tail := (hq_tail q + 1) mod hq_size q\<rparr>"
  shows "hq_ok q' \<and> queue_list q' = queue_list q @ [m]"
proof -
  have b: "length (hq_data q) = hq_size q" "hq_head q < hq_size q" "hq_tail q < hq_size q" using ok by (simp_all add: hq_ok_def)
  have len: "queue_len q' = Suc (queue_len q)"
    using b free by (cases "Suc (hq_tail q) = hq_size q") (auto simp: q'_def queue_len_def)
  have "Suc (queue_len q) < hq_size q"
    using b free by (cases "Suc (hq_tail q) = hq_size q") (auto simp: queue_len_def)
  then have old: "queue_cell q' k = queue_cell q k" if "k < queue_len q" for k
    using ring_neq [OF b(2) that] queue_tail [OF ok] by (simp add: q'_def queue_cell_def)
  have new: "queue_cell q' (queue_len q) = Some m"
    using queue_tail [OF ok] b by (simp add: q'_def queue_cell_def)
  have "hq_ok q'" unfolding hq_ok_def
    using ok b old new by (auto simp: len less_Suc_eq hq_ok_def) (auto simp: q'_def)
  moreover have "queue_list q' = queue_list q @ [m]"
    using old new by (simp add: queue_list_def len)
  ultimately show ?thesis by simp
qed

lemma push_queue_msg_ok:
  assumes ok: "hq_ok q"
  shows "hq_ok (push_queue_msg q m) \<and> queue_list (push_queue_msg q m) = queue_list q @ [m]"
proof (cases "(hq_tail q + 1) mod hq_size q = hq_head q")
  case False
  then show ?thesis using store_ok [OF ok False refl, of m] by (simp add: push_queue_msg_def Let_def)
next
  case True
  have b: "length (hq_data q) = hq_size q" "hq_head q < hq_size q" "hq_tail q < hq_size q" using ok by (simp_all add: hq_ok_def)
  have len: "queue_len q = hq_size q - 1"
    using b True by (cases "Suc (hq_tail q) = hq_size q") (auto simp: queue_len_def)
  define q1 where "q1 = q\<lparr>hq_data := map (\<lambda>i. hq_data q ! ((i + hq_head q) mod hq_size q)) [0..<hq_size q - 1] @ replicate (hq_size q + 1) None,
    hq_head := 0, hq_tail := hq_size q - 1, hq_size := hq_size q * 2\<rparr>"
  have len1: "queue_len q1 = queue_len q" by (simp add: q1_def queue_len_def len [unfolded queue_len_def])
  have cell: "queue_cell q1 k = queue_cell q k" if "k < queue_len q" for k
    using that by (simp add: q1_def queue_cell_def nth_append len add.commute)
  have "hq_ok q1" using ok b cell by (auto simp: hq_ok_def len1) (auto simp: q1_def)
  moreover have "queue_list q1 = queue_list q" using cell by (simp add: queue_list_def len1)
  moreover have "(hq_tail q1 + 1) mod hq_size q1 \<noteq> hq_head q1" using b by (simp add: q1_def)
  ultimately show ?thesis using store_ok [of q1 "push_queue_msg q m" m] True by (simp add: push_queue_msg_def Let_def q1_def)
qed

lemma pop_queue_empty: "hq_ok q \<Longrightarrow> queue_list q = [] \<Longrightarrow> pop_queue q = Some (None, q) \<and> hq_head q = hq_tail q"
  by (auto simp: hq_ok_def queue_list_def queue_len_def pop_queue_def split: if_splits)

lemma pop_queue_ok:
  assumes ok: "hq_ok q" and l: "queue_list q = m # ms"
  shows "pop_queue q = Some (Some m, q\<lparr>hq_head := (hq_head q + 1) mod hq_size q\<rparr>) \<and>
    hq_ok (q\<lparr>hq_head := (hq_head q + 1) mod hq_size q\<rparr>) \<and> queue_list (q\<lparr>hq_head := (hq_head q + 1) mod hq_size q\<rparr>) = ms"
proof -
  define q1 where "q1 = q\<lparr>hq_head := (hq_head q + 1) mod hq_size q\<rparr>"
  have b: "length (hq_data q) = hq_size q" "hq_head q < hq_size q" "hq_tail q < hq_size q" using ok by (simp_all add: hq_ok_def)
  have n: "queue_len q = Suc (length ms)" using length_queue_list [of q] l by simp
  have len: "queue_len q1 = length ms"
    using n b by (cases "Suc (hq_head q) = hq_size q") (auto simp: q1_def queue_len_def split: if_splits)
  have cell: "queue_cell q1 k = queue_cell q (Suc k)" for k
    by (simp add: q1_def queue_cell_def mod_simps)
  have m: "queue_cell q 0 = Some m"
    using ok l n by (auto simp: hq_ok_def queue_list_def upt_conv_Cons simp del: upt_Suc)
  have "hq_head q \<noteq> hq_tail q" using n by (auto simp: queue_len_def split: if_splits)
  then have "pop_queue q = Some (Some m, q1)" using m b by (simp add: pop_queue_def queue_cell_def q1_def)
  moreover have "hq_ok q1"
    using ok b n by (simp add: hq_ok_def [of q1] len cell) (simp add: hq_ok_def q1_def)
  moreover have "queue_list q1 = ms"
  proof -
    have "queue_list q = m # map (the \<circ> queue_cell q \<circ> Suc) [0..<length ms]"
      using m by (simp add: queue_list_def n upt_conv_Cons map_Suc_upt [symmetric] del: upt_Suc)
    then show ?thesis using l by (simp add: queue_list_def len cell comp_def)
  qed
  ultimately show ?thesis by (simp add: q1_def)
qed

fun fold_m :: "('a \<Rightarrow> 's \<Rightarrow> 's option) \<Rightarrow> 'a list \<Rightarrow> 's \<Rightarrow> 's option" where
  "fold_m f [] s = Some s"
| "fold_m f (x # xs) s = Option.bind (f x s) (fold_m f xs)"

text \<open>The loop over a queue runs through its list and leaves it empty.\<close>

lemma drain_list:
  "hq_ok q \<Longrightarrow> drain f q s = map_option (\<lambda>s. (s, q\<lparr>hq_head := hq_tail q\<rparr>)) (fold_m f (queue_list q) s)"
proof (induction "queue_list q" arbitrary: q s)
  case Nil
  then show ?case using pop_queue_empty [of q] by (subst drain.simps) (simp flip: Nil.hyps)
next
  case (Cons m ms)
  note p = pop_queue_ok [OF Cons.prems Cons.hyps(2) [symmetric]]
  have "drain f q s = Option.bind (f m s) (\<lambda>s. drain f (q\<lparr>hq_head := (hq_head q + 1) mod hq_size q\<rparr>) s)"
    using p by (subst drain.simps) simp
  also have "\<dots> = Option.bind (f m s) (\<lambda>s. map_option (\<lambda>s. (s, q\<lparr>hq_head := hq_tail q\<rparr>)) (fold_m f ms s))"
    using p Cons.hyps(1) [of "q\<lparr>hq_head := (hq_head q + 1) mod hq_size q\<rparr>"] by simp
  finally show ?case by (cases "f m s") (simp_all flip: Cons.hyps(2))
qed

subsection \<open>Pieces of a stream\<close>

lemma upd_slave_slave [simp]: "hb_s (upd_slave h i f) i = f (hb_s h i)"
  by (simp add: upd_slave_def)

lemma upd_slave_upd [simp]: "upd_slave (upd_slave h i f) i g = upd_slave h i (g \<circ> f)"
  by (simp add: upd_slave_def)

lemma upd_slave_same: "f (hb_s h i) = g (hb_s h i) \<Longrightarrow> upd_slave h i f = upd_slave h i g"
  by (simp add: upd_slave_def)

lemma upd_slave_id: "f (hb_s h i) = hb_s h i \<Longrightarrow> upd_slave h i f = h"
  by (simp add: upd_slave_def)

lemma upd_slave_fields [simp]: "hb_ctx (upd_slave h i f) = hb_ctx h" "hb_id (upd_slave h i f) = hb_id h" "hb_slave (upd_slave h i f) = hb_slave h"
  by (simp_all add: upd_slave_def)

lemma deliver_local_upd [simp]: "deliver_local w nd (upd_slave h i f) = deliver_local w nd h"
  unfolding deliver_local_def fun_eq_iff upd_slave_fields by blast

lemma forward_local_upd [simp]: "forward_local_messsage w nd (upd_slave h i f) p n = forward_local_messsage w nd h p n"
  by (simp add: forward_local_messsage_def)

lemma mem_write_append:
  "Option.bind (mem_write nd p off a) (\<lambda>nd. mem_write nd p (off + length a) b) = mem_write nd p off (a @ b)"
  by (auto simp: mem_write_def ac_simps split: option.splits cdata.splits bind_splits)

definition slave_ok :: "slave \<Rightarrow> bool" where
  "slave_ok s \<longleftrightarrow> length (sl_size s) = 4 \<and> 0 \<le> sl_read s \<and>
     (sl_status s = STATUS_HANDSHAKE \<or> sl_status s = STATUS_HEADER \<longrightarrow> sl_read s < 4) \<and>
     (sl_status s = STATUS_CONTENT \<longrightarrow> sl_read s \<le> sl_length s)"

lemma close_harbor_slave:
  "close_harbor st h i = Some (st', h') \<Longrightarrow> h' = upd_slave h i (\<lambda>s. s\<lparr>sl_status := STATUS_DOWN, sl_queue := None\<rparr>)"
  by (auto simp: close_harbor_def Let_def split: bind_splits if_splits)

lemma dispatch_queue_slave:
  "dispatch_queue sys w st h i = Some (st', h') \<Longrightarrow> h' = upd_slave h i (\<lambda>s. s\<lparr>sl_queue := None\<rparr>)"
  by (auto simp: dispatch_queue_def Let_def upd_slave_id split: bind_splits if_splits option.splits)

lemma loop_return: "socket_data_turn sys w st h i b = Some (None, st', h') \<Longrightarrow> socket_data_loop sys w st h i b = Some (st', h')"
  by (subst socket_data_loop.simps) simp

lemma loop_next: "socket_data_turn sys w st h i b = Some (Some r, st', h') \<Longrightarrow> socket_data_loop sys w st h i b = socket_data_loop sys w st' h' i r"
  by (subst socket_data_loop.simps) simp

lemma loop_fails: "socket_data_turn sys w st h i b = None \<Longrightarrow> socket_data_loop sys w st h i b = None"
  by (subst socket_data_loop.simps) simp

lemma loop_down: "sl_status (hb_s h i) = STATUS_DOWN \<or> sl_status (hb_s h i) = STATUS_WAIT \<Longrightarrow> socket_data_loop sys w st h i b = Some (st, h)"
  by (rule loop_return) (auto simp: socket_data_turn_def)

text \<open>No data in the state \<open>STATUS_HEADER\<close> changes nothing.\<close>

lemma loop_header_empty:
  assumes "slave_ok (hb_s h i)" "sl_status (hb_s h i) = STATUS_HEADER"
  shows "socket_data_loop sys w st h i [] = Some (st, h)"
proof (rule loop_return)
  have "nat (sl_read (hb_s h i)) < 4" using assms by (simp add: slave_ok_def nat_less_iff)
  then show "socket_data_turn sys w st h i [] = Some (None, st, h)"
    using assms by (simp add: socket_data_turn_def turn_header_def Let_def upd_slave_id)
qed

text \<open>
  A closed slave keeps its counter \<open>read\<close>, which depends on the pieces and is not used any more;
  \<open>settle\<close> leaves it out.
\<close>

definition settle :: "nat \<Rightarrow> harbor \<Rightarrow> harbor" where
  "settle i h = (if sl_status (hb_s h i) = STATUS_DOWN then upd_slave h i (\<lambda>s. s\<lparr>sl_read := 0\<rparr>) else h)"

definition settled :: "nat \<Rightarrow> ('k sstate \<times> harbor) option \<Rightarrow> ('k sstate \<times> harbor) option" where
  "settled i r = (case r of None \<Rightarrow> None | Some (st, h) \<Rightarrow> Some (st, settle i h))"

lemma settled_simps [simp]: "settled i None = None" "settled i (Some (st, h)) = Some (st, settle i h)"
  by (simp_all add: settled_def)

lemma settled_bind: "settled i (Option.bind r f) = Option.bind r (\<lambda>x. settled i (f x))"
  by (cases r) simp_all

text \<open>What follows a turn.\<close>

definition turn_on :: "'k sys \<Rightarrow> world \<Rightarrow> nat \<Rightarrow> 'k turn \<Rightarrow> ('k sstate \<times> harbor) option" where
  "turn_on sys w i t =
     Option.bind t (\<lambda>(rest, st, h). case rest of None \<Rightarrow> Some (st, h) | Some b \<Rightarrow> socket_data_loop sys w st h i b)"

lemma loop_turn_on: "socket_data_loop sys w st h i b = turn_on sys w i (socket_data_turn sys w st h i b)"
  unfolding turn_on_def by (rule socket_data_loop.simps)

lemma close_harbor_settle:
  assumes "hb_ctx h = hb_ctx g" "sl_fd (hb_s h i) = sl_fd (hb_s g i)" "sl_queue (hb_s h i) = sl_queue (hb_s g i)"
    and "upd_slave h i (\<lambda>s. s\<lparr>sl_read := 0\<rparr>) = upd_slave g i (\<lambda>s. s\<lparr>sl_read := 0\<rparr>)"
  shows "settled i (close_harbor st h i) = settled i (close_harbor st g i)"
proof -
  let ?F = "\<lambda>s. s\<lparr>sl_status := STATUS_DOWN, sl_queue := None\<rparr>" and ?R = "\<lambda>s. s\<lparr>sl_read := 0\<rparr>"
  have "settle i (upd_slave h i ?F) = upd_slave (upd_slave h i ?R) i ?F" for h
    by (cases "hb_s h i") (simp add: settle_def upd_slave_def)
  then have "settle i (upd_slave h i ?F) = settle i (upd_slave g i ?F)" using assms(4) by (metis (no_types))
  then show ?thesis using assms(1-3) by (simp add: close_harbor_def Let_def settled_bind)
qed

text \<open>Only the field \<open>sl_read\<close> of a closed slave depends on what the counter was before.\<close>

lemma header_done_read:
  "settled i (turn_on sys w i (header_done w st (upd_slave h i (\<lambda>s. s\<lparr>sl_size := x, sl_read := y\<rparr>)) i z rest)) =
   settled i (turn_on sys w i (header_done w st h i z rest))"
proof (cases "z ! 0 = NUL")
  case True
  then show ?thesis by (simp add: header_done_def Let_def comp_def split_beta)
next
  case False
  have c: "settled i (close_harbor st (upd_slave h i (\<lambda>s. s\<lparr>sl_read := y, sl_size := z\<rparr>)) i) =
    settled i (close_harbor st (upd_slave h i (\<lambda>s. s\<lparr>sl_size := z\<rparr>)) i)" for st :: "'a sstate"
    by (rule close_harbor_settle) (simp_all add: upd_slave_def)
  have t: "turn_on sys w i (Option.bind r (\<lambda>(st, h). Some (None, st, h))) = r" for r
    by (cases r) (auto simp: turn_on_def)
  have "turn_on sys w i (header_done w st h' i z rest) = Option.bind (skynet_error w (st_nd st) (hb_ctx h') (Some (''Message is too long from harbor '' @ fmt_d (int i))))
    (\<lambda>nd. close_harbor (st\<lparr>st_nd := nd\<rparr>) (upd_slave h' i (\<lambda>s. s\<lparr>sl_size := z\<rparr>)) i)" for h'
    using False t by (cases "skynet_error w (st_nd st) (hb_ctx h') (Some (''Message is too long from harbor '' @ fmt_d (int i)))")
      (simp_all add: header_done_def Let_def turn_on_def)
  then show ?thesis by (simp add: settled_bind comp_def c)
qed

lemma turn_header_complete:
  assumes "sl_read (hb_s h i) = int rd" "length (sl_size (hb_s h i)) = 4" "rd \<le> 4" "4 - rd \<le> length b"
  shows "turn_header w st h i b = header_done w st h i (take rd (sl_size (hb_s h i)) @ take (4 - rd) b) (drop (4 - rd) b)"
  using assms by (simp add: turn_header_def Let_def)

lemma turn_header_split:
  assumes ok: "slave_ok (hb_s h i)" and st: "sl_status (hb_s h i) = STATUS_HEADER" and d: "length a < nat (4 - sl_read (hb_s h i))"
  shows "settled i (turn_on sys w i (turn_header w st h i (a @ b))) =
    settled i (Option.bind (socket_data_loop sys w st h i a) (\<lambda>(st, h). socket_data_loop sys w st h i b))"
proof -
  define s where "s = hb_s h i"
  define rd where "rd = nat (sl_read s)"
  have rd: "sl_read s = int rd" "length (sl_size s) = 4" "length a < 4 - rd" using ok d by (auto simp: s_def rd_def slave_ok_def)
  define h1 where "h1 = upd_slave h i (\<lambda>s. s\<lparr>sl_size := take rd (sl_size s) @ a @ drop (rd + length a) (sl_size s), sl_read := sl_read s + int (length a)\<rparr>)"
  have s1: "hb_s h1 i = s\<lparr>sl_size := take rd (sl_size s) @ a @ drop (rd + length a) (sl_size s), sl_read := int (rd + length a)\<rparr>"
    using rd by (simp add: h1_def s_def)
  have a: "socket_data_loop sys w st h i a = Some (st, h1)"
    using rd st by (intro loop_return) (simp add: socket_data_turn_def turn_header_def Let_def h1_def s_def rd_def)
  have "socket_data_loop sys w st h1 i b = turn_on sys w i (turn_header w st h1 i b)"
    using st s1 by (simp add: loop_turn_on socket_data_turn_def s_def)
  moreover have "settled i (turn_on sys w i (turn_header w st h i (a @ b))) = settled i (turn_on sys w i (turn_header w st h1 i b))"
  proof (cases "length a + length b < 4 - rd")
    case True
    define z where "z = take rd (sl_size s) @ a @ b @ drop (rd + length a + length b) (sl_size s)"
    have "turn_header w st h i (a @ b) = Some (None, st, upd_slave h i (\<lambda>t. t\<lparr>sl_size := z, sl_read := int (rd + length a + length b)\<rparr>))"
      using True rd unfolding turn_header_def Let_def s_def [symmetric] rd_def [symmetric]
      by (auto simp: z_def s_def [symmetric] ac_simps intro!: upd_slave_same)
    moreover have "turn_header w st h1 i b = Some (None, st, upd_slave h1 i (\<lambda>t. t\<lparr>sl_size := z, sl_read := int (rd + length a + length b)\<rparr>))"
      using True rd unfolding turn_header_def Let_def s1
      by (auto simp: z_def s1 ac_simps nat_int_add intro!: upd_slave_same)
    moreover have "upd_slave h1 i (\<lambda>t. t\<lparr>sl_size := z, sl_read := k\<rparr>) = upd_slave h i (\<lambda>t. t\<lparr>sl_size := z, sl_read := k\<rparr>)" for k
      unfolding h1_def upd_slave_upd by (rule upd_slave_same) simp
    ultimately show ?thesis by simp
  next
    case False
    let ?z = "take rd (sl_size s) @ a @ take (4 - rd - length a) b" and ?r = "drop (4 - rd - length a) b"
    have ge: "4 - (rd + length a) \<le> length b" "4 - (rd + length a) = 4 - rd - length a" using False by simp_all
    have "turn_header w st h i (a @ b) = header_done w st h i ?z ?r"
      using turn_header_complete [of h i rd "a @ b" w st] False rd by (simp add: s_def [symmetric])
    moreover have t: "take (rd + length a) (sl_size (hb_s h1 i)) = take rd (sl_size s) @ a" using rd by (simp add: s1)
    have f: "sl_read (hb_s h1 i) = int (rd + length a)" "length (sl_size (hb_s h1 i)) = 4" "rd + length a \<le> 4"
      using rd by (simp_all add: s1)
    have "turn_header w st h1 i b = header_done w st h1 i ?z ?r"
      unfolding turn_header_complete [OF f ge(1)] t ge(2) append_assoc ..
    moreover have "h1 = upd_slave h i (\<lambda>t. t\<lparr>sl_size := sl_size (hb_s h1 i), sl_read := sl_read (hb_s h1 i)\<rparr>)"
      unfolding h1_def by (rule upd_slave_same) simp
    then have "settled i (turn_on sys w i (header_done w st h1 i z r)) = settled i (turn_on sys w i (header_done w st h i z r))" for z r
      by (metis header_done_read)
    ultimately show ?thesis by simp
  qed
  ultimately show ?thesis using a by simp
qed

lemma content_done_read: "content_done w st (upd_slave h i (\<lambda>s. s\<lparr>sl_read := x\<rparr>)) i rest = content_done w st h i rest"
proof -
  have "upd_slave (upd_slave h i (\<lambda>s. s\<lparr>sl_read := x\<rparr>)) i (\<lambda>s. s\<lparr>sl_length := 0, sl_read := 0, sl_recv_buffer := None, sl_status := STATUS_HEADER\<rparr>) =
    upd_slave h i (\<lambda>s. s\<lparr>sl_length := 0, sl_read := 0, sl_recv_buffer := None, sl_status := STATUS_HEADER\<rparr>)"
    unfolding upd_slave_upd by (rule upd_slave_same) simp
  then show ?thesis unfolding content_done_def forward_local_upd upd_slave_slave Let_def by simp
qed

lemma turn_content_split:
  assumes ok: "slave_ok (hb_s h i)" and st: "sl_status (hb_s h i) = STATUS_CONTENT"
    and d: "length a < nat (sl_length (hb_s h i) - sl_read (hb_s h i))"
  shows "turn_on sys w i (turn_content w st h i (a @ b)) =
    Option.bind (socket_data_loop sys w st h i a) (\<lambda>(st, h). socket_data_loop sys w st h i b)"
proof -
  define s where "s = hb_s h i"
  define rd where "rd = nat (sl_read s)"
  define len where "len = nat (sl_length s)"
  have rd: "sl_read s = int rd" "sl_length s = int len" "length a < len - rd" using ok d st by (auto simp: s_def rd_def len_def slave_ok_def)
  define h1 where "h1 = upd_slave h i (\<lambda>s. s\<lparr>sl_read := int (rd + length a)\<rparr>)"
  have s1: "hb_s h1 i = s\<lparr>sl_read := int (rd + length a)\<rparr>" by (simp add: h1_def s_def)
  let ?w = "mem_write (st_nd st) (sl_recv_buffer s) rd a"
  have h1: "upd_slave h i (\<lambda>s. s\<lparr>sl_read := sl_read s + int (length a)\<rparr>) = h1"
    unfolding h1_def using rd by (intro upd_slave_same) (simp add: s_def [symmetric])
  have n: "nat (int len - int (rd + length a)) = len - (rd + length a)" "nat (int len - int rd) = len - rd" by linarith+
  have "socket_data_turn sys w st h i a = Option.bind ?w (\<lambda>nd. Some (None, st\<lparr>st_nd := nd\<rparr>, h1))"
    using rd st by (simp add: socket_data_turn_def turn_content_def Let_def s_def [symmetric] h1 n)
  then have a: "socket_data_loop sys w st h i a = Option.bind ?w (\<lambda>nd. Some (st\<lparr>st_nd := nd\<rparr>, h1))"
    by (cases ?w) (simp_all add: loop_return loop_fails)
  have b: "socket_data_loop sys w st h1 i b = turn_on sys w i (turn_content w st h1 i b)" for st :: "'a sstate"
    using st s1 by (simp add: loop_turn_on socket_data_turn_def s_def)
  have "turn_content w st h i (a @ b) = Option.bind ?w (\<lambda>nd. turn_content w (st\<lparr>st_nd := nd\<rparr>) h1 i b)"
  proof (cases "length b < len - (rd + length a)")
    case True
    have "upd_slave h1 i (\<lambda>s. s\<lparr>sl_read := sl_read s + int (length b)\<rparr>) = upd_slave h i (\<lambda>s. s\<lparr>sl_read := sl_read s + int (length (a @ b))\<rparr>)"
      unfolding h1_def upd_slave_upd using rd by (intro upd_slave_same) (simp add: s_def [symmetric])
    moreover have "length (a @ b) < len - rd" using True by simp
    ultimately show ?thesis using True rd
      by (simp add: turn_content_def Let_def s1 s_def [symmetric] n del: of_nat_add flip: mem_write_append)
  next
    case False
    have t: "take (len - rd) (a @ b) = a @ take (len - (rd + length a)) b" "drop (len - rd) (a @ b) = drop (len - (rd + length a)) b"
      using rd by simp_all
    have n': "\<not> length (a @ b) < len - rd" using False by simp
    have "content_done w st h1 i r = content_done w st h i r" for st :: "'a sstate" and r
      unfolding h1_def by (rule content_done_read)
    then show ?thesis using n' False rd t
      by (simp add: turn_content_def Let_def s1 s_def [symmetric] n del: of_nat_add flip: mem_write_append)
  qed
  then show ?thesis using b by (simp add: turn_on_def a)
qed

text \<open>The outcome of a completed size or content for the rest \<open>r\<close>, and for the rest with more data behind it.\<close>

lemma turn_on_rest: "turn_on sys w i (Some (if r = [] then None else Some r, st, h)) = (if r = [] then Some (st, h) else socket_data_loop sys w st h i r)"
  by (simp add: turn_on_def)

lemma turn_on_simps [simp]:
  "turn_on sys w i (Some (None, st, h)) = Some (st, h)"
  "turn_on sys w i (Some (Some r, st, h)) = socket_data_loop sys w st h i r"
  by (simp_all add: turn_on_def)

lemma turn_on_bind: "turn_on sys w i (Option.bind r f) = Option.bind r (\<lambda>x. turn_on sys w i (f x))"
  by (cases r) (simp_all add: turn_on_def)

lemma header_done_error:
  assumes "z ! 0 \<noteq> NUL"
  shows "\<exists>r. (\<forall>rest. turn_on sys w i (header_done w st h i z rest) = r) \<and> (\<forall>st' h'. r = Some (st', h') \<longrightarrow> sl_status (hb_s h' i) = STATUS_DOWN)"
proof -
  let ?h = "upd_slave h i (\<lambda>s. s\<lparr>sl_size := z\<rparr>)"
  let ?r = "Option.bind (skynet_error w (st_nd st) (hb_ctx h) (Some (''Message is too long from harbor '' @ fmt_d (int i))))
    (\<lambda>nd. close_harbor (st\<lparr>st_nd := nd\<rparr>) ?h i)"
  have "turn_on sys w i (Option.bind r (\<lambda>(st, h). Some (None, st, h))) = r" for r
    by (cases r) (auto simp: turn_on_def)
  then have "turn_on sys w i (header_done w st h i z rest) = ?r" for rest
    using assms by (simp add: header_done_def Let_def turn_on_bind)
  moreover have "sl_status (hb_s h' i) = STATUS_DOWN" if "?r = Some (st', h')" for st' h'
    using that by (auto split: bind_splits dest!: close_harbor_slave)
  ultimately show ?thesis by blast
qed

lemma header_done_ok:
  assumes "z ! 0 = NUL" "length z = 4"
  obtains st' h' where "\<And>rest. header_done w st h i z rest = Some (if rest = [] then None else Some rest, st', h')"
    "slave_ok (hb_s h' i)" "sl_status (hb_s h' i) = STATUS_CONTENT"
proof
  show "header_done w st h i z rest = Some (if rest = [] then None else Some rest,
    st\<lparr>st_nd := snd (skynet_malloc (st_nd st) (Bytes (replicate (nat (uint (from_bigendian z))) NUL)))\<rparr>,
    upd_slave (upd_slave h i (\<lambda>s. s\<lparr>sl_size := z\<rparr>)) i (\<lambda>s. s\<lparr>sl_length := uint (from_bigendian z), sl_read := 0,
      sl_recv_buffer := Some (fst (skynet_malloc (st_nd st) (Bytes (replicate (nat (uint (from_bigendian z))) NUL)))), sl_status := STATUS_CONTENT\<rparr>))" for rest
    using assms by (simp add: header_done_def Let_def split_beta)
qed (use assms in \<open>simp_all add: slave_ok_def\<close>)

lemma turn_handshake_eq:
  assumes "sl_status (hb_s h i) = STATUS_HANDSHAKE"
  shows "socket_data_loop sys w st h i (c # x) =
    (if of_char c \<noteq> i then Option.bind (skynet_error w (st_nd st) (hb_ctx h) (Some (''Invalid shakehand id ('' @ fmt_d (int i) @ '') from fd = ''
               @ fmt_d (sint (sl_fd (hb_s h i))) @ '' , harbor = '' @ fmt_d (of_char c)))) (\<lambda>nd. close_harbor (st\<lparr>st_nd := nd\<rparr>) h i)
     else Option.bind (dispatch_queue sys w st (upd_slave h i (\<lambda>s. s\<lparr>sl_status := STATUS_HEADER\<rparr>)) i)
       (\<lambda>(st, h). socket_data_loop sys w st h i x))"
proof -
  have "turn_on sys w i (Option.bind r (\<lambda>(st, h). Some (None, st, h))) = r" for r
    by (cases r) (auto simp: turn_on_def)
  moreover have "turn_on sys w i (Option.bind r (\<lambda>(st, h). Some (Some x, st, h))) = Option.bind r (\<lambda>(st, h). socket_data_loop sys w st h i x)" for r
    by (cases r) (auto simp: turn_on_def)
  ultimately show ?thesis
    using assms by (simp add: loop_turn_on [of sys w st h] socket_data_turn_def turn_handshake_def turn_on_bind)
qed

lemma bind_down:
  assumes "\<And>st' h'. r = Some (st', h') \<Longrightarrow> sl_status (hb_s h' i) = STATUS_DOWN"
  shows "Option.bind r (\<lambda>(st, h). socket_data_loop sys w st h i b) = r"
  using assms by (cases r) (auto simp: loop_down)

text \<open>A piece of data may be cut in two.\<close>

lemma loop_cut:
  assumes "slave_ok (hb_s h i)" "a \<noteq> []" "b \<noteq> []"
  shows "settled i (socket_data_loop sys w st h i (a @ b)) =
    settled i (Option.bind (socket_data_loop sys w st h i a) (\<lambda>(st, h). socket_data_loop sys w st h i b))"
  using assms
proof (induction "2 * length a + of_bool (sl_status (hb_s h i) = STATUS_CONTENT)" arbitrary: st h a rule: less_induct)
  case less
  let ?L = "\<lambda>st h b. socket_data_loop sys w st h i b" and ?s = "hb_s h i"
  have IH: "settled i (?L st' h' (r @ b)) = settled i (if r = [] then ?L st' h' b else Option.bind (?L st' h' r) (\<lambda>(st, h). ?L st h b))"
    if "slave_ok (hb_s h' i)" "length r < length a \<or> length r = length a \<and> sl_status ?s = STATUS_CONTENT \<and> sl_status (hb_s h' i) \<noteq> STATUS_CONTENT" for st' h' r
    using that less.prems(3) by (cases "r = []") (auto intro!: less.hyps)
  consider "sl_status ?s = STATUS_WAIT \<or> sl_status ?s = STATUS_DOWN" | "sl_status ?s = STATUS_HANDSHAKE" |
    "sl_status ?s = STATUS_HEADER" | "sl_status ?s = STATUS_CONTENT" by (cases "sl_status ?s") auto
  then show ?case
  proof cases
    case 1
    then show ?thesis by (auto simp: loop_down)
  next
    case 2
    obtain c r where a: "a = c # r" using less.prems(2) by (cases a) auto
    show ?thesis
    proof (cases "of_char c = i")
      case False
      then have e: "?L st h (a @ b) = ?L st h a" by (simp add: a turn_handshake_eq [OF 2])
      have "sl_status (hb_s h' i) = STATUS_DOWN" if "?L st h a = Some (st', h')" for st' h'
        using that False by (auto simp: a turn_handshake_eq [OF 2] split: bind_splits dest!: close_harbor_slave)
      then show ?thesis using bind_down [of "?L st h a"] e by simp
    next
      case True
      let ?d = "dispatch_queue sys w st (upd_slave h i (\<lambda>s. s\<lparr>sl_status := STATUS_HEADER\<rparr>)) i"
      have e: "?L st h (c # x) = Option.bind ?d (\<lambda>(st, h). ?L st h x)" for x
        using True by (simp add: turn_handshake_eq [OF 2])
      show ?thesis
      proof (cases ?d)
        case (Some p)
        obtain st' h' where p: "p = (st', h')" by (cases p)
        have h': "slave_ok (hb_s h' i)" "sl_status (hb_s h' i) = STATUS_HEADER"
          using dispatch_queue_slave [OF Some [unfolded p]] less.prems(1) 2 by (simp_all add: slave_ok_def)
        show ?thesis using IH [OF h'(1), of r st'] a e Some p by (cases "r = []") (simp_all add: loop_header_empty [OF h'])
      qed (simp add: a e)
    qed
  next
    case 3
    show ?thesis
    proof (cases "length a < nat (4 - sl_read ?s)")
      case True
      then show ?thesis using turn_header_split [OF less.prems(1) 3 True] 3 by (simp add: loop_turn_on socket_data_turn_def)
    next
      case False
      obtain rd where rd: "sl_read ?s = int rd" "length (sl_size ?s) = 4" "rd < 4" "4 - rd \<le> length a"
      proof
        show "sl_read ?s = int (nat (sl_read ?s))" "length (sl_size ?s) = 4" "nat (sl_read ?s) < 4" "4 - nat (sl_read ?s) \<le> length a"
          using less.prems(1) 3 False by (simp_all add: slave_ok_def nat_less_iff)
      qed
      define z where "z = take rd (sl_size ?s) @ take (4 - rd) a"
      define r where "r = drop (4 - rd) a"
      have z: "length z = 4" using rd by (simp add: z_def)
      have r: "length r < length a" using rd less.prems(2) by (simp add: r_def)
      have e: "?L st h (a @ b) = turn_on sys w i (header_done w st h i z (r @ b))" "?L st h a = turn_on sys w i (header_done w st h i z r)"
      proof -
        have le: "rd \<le> 4" "4 - rd \<le> length (a @ b)" using rd by simp_all
        have "turn_header w st h i (a @ b) = header_done w st h i z (r @ b)"
          using turn_header_complete [OF rd(1,2) le] rd(4) by (simp add: z_def r_def)
        moreover have "turn_header w st h i a = header_done w st h i z r"
          using turn_header_complete [OF rd(1,2) le(1) rd(4)] by (simp add: z_def r_def)
        ultimately show "?L st h (a @ b) = turn_on sys w i (header_done w st h i z (r @ b))" "?L st h a = turn_on sys w i (header_done w st h i z r)"
          using 3 by (simp_all add: loop_turn_on [of sys w st h] socket_data_turn_def)
      qed
      show ?thesis
      proof (cases "z ! 0 = NUL")
        case True
        obtain st' h' where d: "\<And>rest. header_done w st h i z rest = Some (if rest = [] then None else Some rest, st', h')"
          "slave_ok (hb_s h' i)" using header_done_ok [OF True z] by metis
        then show ?thesis using IH [OF d(2), of r st'] r less.prems(3) by (simp add: e d(1) turn_on_rest)
      next
        case False
        then show ?thesis using header_done_error [OF False, of sys w i st h] bind_down e by metis
      qed
    qed
  next
    case 4
    show ?thesis
    proof (cases "length a < nat (sl_length ?s - sl_read ?s)")
      case True
      have "?L st h (a @ b) = turn_on sys w i (turn_content w st h i (a @ b))"
        using 4 by (simp add: loop_turn_on [of sys w st h] socket_data_turn_def)
      then show ?thesis using turn_content_split [OF less.prems(1) 4 True, of sys w st b] by simp
    next
      case False
      let ?n = "nat (sl_length ?s - sl_read ?s)"
      let ?w = "mem_write (st_nd st) (sl_recv_buffer ?s) (nat (sl_read ?s)) (take ?n a)"
      define r where "r = drop ?n a"
      let ?h = "upd_slave h i (\<lambda>s. s\<lparr>sl_length := 0, sl_read := 0, sl_recv_buffer := None, sl_status := STATUS_HEADER\<rparr>)"
      let ?f = "\<lambda>nd. Option.bind (sl_recv_buffer ?s) (\<lambda>p. forward_local_messsage w nd h p (sl_length ?s))"
      have h': "slave_ok (hb_s ?h i)" "sl_status (hb_s ?h i) \<noteq> STATUS_CONTENT" using less.prems(1) by (simp_all add: slave_ok_def)
      have r: "length r < length a \<or> length r = length a \<and> sl_status ?s = STATUS_CONTENT \<and> sl_status (hb_s ?h i) \<noteq> STATUS_CONTENT"
        using 4 h' by (auto simp: r_def)
      have e: "?L st h (a @ b) = Option.bind ?w (\<lambda>nd. Option.bind (?f nd) (\<lambda>nd. ?L (st\<lparr>st_nd := nd\<rparr>) ?h (r @ b)))"
        using False 4 less.prems(3)
        by (simp add: loop_turn_on [of sys w st h] socket_data_turn_def turn_content_def content_done_def Let_def turn_on_bind turn_on_rest r_def)
      have e': "?L st h a = Option.bind ?w (\<lambda>nd. Option.bind (?f nd) (\<lambda>nd. if r = [] then Some (st\<lparr>st_nd := nd\<rparr>, ?h) else ?L (st\<lparr>st_nd := nd\<rparr>) ?h r))"
        using False 4
        by (simp add: loop_turn_on [of sys w st h] socket_data_turn_def turn_content_def content_done_def Let_def turn_on_bind turn_on_rest r_def)
      show ?thesis unfolding e e' settled_bind bind_assoc IH [OF h'(1) r] by (cases "r = []") (simp_all add: settled_bind)
    qed
  qed
qed

lemma turn_slave_ok:
  assumes t: "socket_data_turn sys w st h i b = Some (k, st', h')" and ok: "slave_ok (hb_s h i)"
  shows "slave_ok (hb_s h' i)"
proof (cases "sl_status (hb_s h i)")
  case STATUS_HANDSHAKE
  obtain c x where b: "b = c # x" using t STATUS_HANDSHAKE by (cases b) (auto simp: socket_data_turn_def turn_handshake_def)
  show ?thesis using t ok STATUS_HANDSHAKE
    by (auto simp: b socket_data_turn_def turn_handshake_def slave_ok_def split: if_splits bind_splits
        dest!: close_harbor_slave dispatch_queue_slave)
next
  case STATUS_HEADER
  show ?thesis
  proof (cases "length b < 4 - nat (sl_read (hb_s h i))")
    case True
    then show ?thesis using t ok STATUS_HEADER
      by (auto simp: socket_data_turn_def turn_header_def slave_ok_def Let_def)
  next
    case False
    define z where "z = take (nat (sl_read (hb_s h i))) (sl_size (hb_s h i)) @ take (4 - nat (sl_read (hb_s h i))) b"
    have rd: "sl_read (hb_s h i) = int (nat (sl_read (hb_s h i)))" "length (sl_size (hb_s h i)) = 4" "nat (sl_read (hb_s h i)) \<le> 4"
      "4 - nat (sl_read (hb_s h i)) \<le> length b" using False ok STATUS_HEADER by (simp_all add: slave_ok_def nat_le_iff)
    have z: "length z = 4" using rd by (simp add: z_def)
    have "header_done w st h i z (drop (4 - nat (sl_read (hb_s h i))) b) = Some (k, st', h')"
      using t STATUS_HEADER turn_header_complete [OF rd, of w st] by (simp add: socket_data_turn_def z_def)
    then show ?thesis using ok z
      by (auto simp: header_done_def Let_def slave_ok_def split: if_splits bind_splits prod.splits dest!: close_harbor_slave)
  qed
next
  case STATUS_CONTENT
  then show ?thesis using t ok
    by (auto simp: socket_data_turn_def turn_content_def content_done_def slave_ok_def Let_def split: if_splits bind_splits)
qed (use t ok in \<open>simp_all add: socket_data_turn_def\<close>)

lemma loop_slave_ok:
  assumes "socket_data_loop sys w st h i b = Some r" "slave_ok (hb_s h i)"
  shows "slave_ok (hb_s (snd r) i)"
proof -
  have "slave_ok (hb_s h i) \<longrightarrow> slave_ok (hb_s (snd r) i)"
  proof (rule socket_data_loop.raw_induct [where P = "\<lambda>_ _ _ h i _ r. slave_ok (hb_s h i) \<longrightarrow> slave_ok (hb_s (snd r) i)", OF _ assms(1)])
    fix f sys w st h i b r
    assume IH: "\<And>sys w st h i b r. f sys w st h i b = Some r \<Longrightarrow> slave_ok (hb_s h i) \<longrightarrow> slave_ok (hb_s (snd r) i)"
      and r: "Option.bind (socket_data_turn sys w st h i b)
        (\<lambda>(rest, st, h). case rest of None \<Rightarrow> Some (st, h) | Some b \<Rightarrow> f sys w st h i b) = Some r"
    then obtain k st' h' where t: "socket_data_turn sys w st h i b = Some (k, st', h')" by (auto split: bind_splits)
    then show "slave_ok (hb_s h i) \<longrightarrow> slave_ok (hb_s (snd r) i)" using r IH turn_slave_ok [OF t] by (cases k) auto
  qed
  then show ?thesis using assms(2) by blast
qed

text \<open>The calls of the loop for the pieces of a stream.\<close>

fun push_pieces :: "'k sys \<Rightarrow> world \<Rightarrow> 'k sstate \<Rightarrow> harbor \<Rightarrow> nat \<Rightarrow> string list \<Rightarrow> ('k sstate \<times> harbor) option" where
  "push_pieces sys w st h i [] = Some (st, h)"
| "push_pieces sys w st h i (p # ps) =
     Option.bind (socket_data_loop sys w st h i p) (\<lambda>(st, h). push_pieces sys w st h i ps)"

lemma push_pieces_concat:
  assumes "slave_ok (hb_s h i)" "ps \<noteq> []" "[] \<notin> set ps"
  shows "settled i (push_pieces sys w st h i ps) = settled i (socket_data_loop sys w st h i (concat ps))"
  using assms
proof (induction ps arbitrary: st h)
  case (Cons p ps)
  show ?case
  proof (cases "ps = []")
    case True
    then show ?thesis by (cases "socket_data_loop sys w st h i p") auto
  next
    case False
    have IH: "settled i (push_pieces sys w st' h' i ps) = settled i (socket_data_loop sys w st' h' i (concat ps))"
      if "socket_data_loop sys w st h i p = Some (st', h')" for st' h'
      by (rule Cons.IH) (use loop_slave_ok [OF that Cons.prems(1)] Cons.prems(3) False in auto)
    have "concat ps \<noteq> []" using False Cons.prems(3) by (cases ps) auto
    then have "settled i (socket_data_loop sys w st h i (p @ concat ps)) =
      settled i (Option.bind (socket_data_loop sys w st h i p) (\<lambda>(st, h). socket_data_loop sys w st h i (concat ps)))"
      using Cons.prems by (intro loop_cut) auto
    then show ?thesis using IH by (cases "socket_data_loop sys w st h i p") auto
  qed
qed simp

subsection \<open>Frames\<close>

lemma bigendian_roundtrip [simp]: "from_bigendian (to_bigendian n) = n"
  using bigendian_bits [of n] by (simp add: from_bigendian_def to_bigendian_def be_byte_def of_char_byte [unfolded low_byte] low_byte del: of_char_of)

lemma length_to_bigendian [simp]: "length (to_bigendian n) = 4"
  by (simp add: to_bigendian_def)

lemma header_message_roundtrip [simp]: "message_to_header (header_to_message header) = header" "length (header_to_message header) = 12"
  by (simp_all add: message_to_header_def header_to_message_def)

definition slave_idle :: "slave \<Rightarrow> bool" where
  "slave_idle s \<longleftrightarrow> sl_status s = STATUS_HEADER \<and> sl_read s = 0 \<and> sl_length s = 0 \<and> sl_recv_buffer s = None \<and> length (sl_size s) = 4"

text \<open>What a frame does to the node: its content gets a block and is sent to the service.\<close>

definition receive_frame :: "world \<Rightarrow> harbor \<Rightarrow> string \<times> remote_message_header \<Rightarrow> 'k sstate \<Rightarrow> 'k sstate option" where
  "receive_frame w h m st = do {
     let (p, nd) = skynet_malloc (st_nd st) (Bytes (fst m @ header_to_message (snd m)));
     nd \<leftarrow> deliver_local w nd h (snd m) p (word_of_nat (length (fst m)));
     Some (st\<lparr>st_nd := nd\<rparr>) }"

definition frame_size :: "string \<times> remote_message_header \<Rightarrow> string" where
  "frame_size m = to_bigendian (word_of_nat (length (fst m) + HEADER_COOKIE_LENGTH))"

definition with_size :: "harbor \<Rightarrow> nat \<Rightarrow> string \<Rightarrow> harbor" where
  "with_size h i z = upd_slave h i (\<lambda>s. s\<lparr>sl_size := z\<rparr>)"

lemma receive_frame_with_size [simp]: "receive_frame w (with_size h i z) = receive_frame w h"
  by (simp add: receive_frame_def with_size_def fun_eq_iff)

lemma with_size_again [simp]: "with_size (with_size h i z) i y = with_size h i y"
  unfolding with_size_def upd_slave_upd by (rule upd_slave_same) simp

lemma frame_size_word:
  assumes "length (fst m) + 12 < 2 ^ 24"
  shows "uint (from_bigendian (frame_size m)) = int (length (fst m) + 12)" "frame_size m ! 0 = NUL" "length (frame_size m) = 4"
proof -
  have u: "unat (word_of_nat (length (fst m) + 12) :: u32) = length (fst m) + 12"
    using assms by (simp add: unat_of_nat del: of_nat_add)
  then show "uint (from_bigendian (frame_size m)) = int (length (fst m) + 12)"
    by (simp add: frame_size_def HEADER_COOKIE_LENGTH_def uint_nat)
  have "unat (drop_bit 24 (word_of_nat (length (fst m) + 12) :: u32)) = 0"
    unfolding unat_drop_bit u using assms by simp
  then have "drop_bit 24 (word_of_nat (length (fst m) + 12) :: u32) = 0" by (simp only: unat_eq_zero)
  then show "frame_size m ! 0 = NUL" by (simp add: frame_size_def to_bigendian_def HEADER_COOKIE_LENGTH_def NUL_def del: of_nat_add)
qed (simp add: frame_size_def)

lemma loop_frame:
  assumes idle: "slave_idle (hb_s h i)" and len: "length (fst m) + 12 < 2 ^ 24"
  shows "socket_data_loop sys w st h i (remote_frame (fst m) (snd m) @ rest) =
    Option.bind (receive_frame w h m st) (\<lambda>st. if rest = [] then Some (st, with_size h i (frame_size m))
      else socket_data_loop sys w st (with_size h i (frame_size m)) i rest)"
proof -
  note size = frame_size_word [OF len]
  define body where "body = fst m @ header_to_message (snd m)"
  define n where "n = length body"
  have n: "n = length (fst m) + 12" by (simp add: n_def body_def)
  have frame: "remote_frame (fst m) (snd m) = frame_size m @ body"
    by (simp add: remote_frame_def frame_size_def body_def)
  define p where "p = nd_brk (st_nd st)"
  define nd1 where "nd1 = snd (skynet_malloc (st_nd st) (Bytes (replicate n NUL)))"
  define nd2 where "nd2 = snd (skynet_malloc (st_nd st) (Bytes body))"
  define h1 where "h1 = upd_slave (with_size h i (frame_size m)) i (\<lambda>s. s\<lparr>sl_length := int n, sl_read := 0, sl_recv_buffer := Some p, sl_status := STATUS_CONTENT\<rparr>)"
  have sz: "uint (from_bigendian (frame_size m)) = int n" using size(1) n by simp
  have nb: "body @ rest \<noteq> []" using n n_def by auto
  have idle': "sl_status (hb_s h i) = STATUS_HEADER" "sl_read (hb_s h i) = int 0" "length (sl_size (hb_s h i)) = 4"
    using idle by (simp_all add: slave_idle_def)
  have "turn_header w st h i (frame_size m @ body @ rest) = header_done w st h i (frame_size m) (body @ rest)"
    using turn_header_complete [OF idle'(2,3), of "frame_size m @ body @ rest" w st] size by simp
  also have "\<dots> = Some (Some (body @ rest), st\<lparr>st_nd := nd1\<rparr>, h1)"
    using size(2) sz nb by (simp add: header_done_def Let_def skynet_malloc_def nd1_def p_def h1_def with_size_def)
  finally have 1: "socket_data_loop sys w st h i (frame_size m @ body @ rest) = socket_data_loop sys w (st\<lparr>st_nd := nd1\<rparr>) h1 i (body @ rest)"
    using idle' by (intro loop_next) (simp add: socket_data_turn_def)
  have s1: "sl_status (hb_s h1 i) = STATUS_CONTENT" "sl_read (hb_s h1 i) = 0" "sl_length (hb_s h1 i) = int n" "sl_recv_buffer (hb_s h1 i) = Some p"
    by (simp_all add: h1_def)
  have w2: "mem_write nd1 (Some p) 0 body = Some nd2"
    by (simp add: mem_write_def nd1_def nd2_def skynet_malloc_def p_def n_def)
  have "turn_content w (st\<lparr>st_nd := nd1\<rparr>) h1 i (body @ rest) = content_done w (st\<lparr>st_nd := nd2\<rparr>) h1 i rest"
    using s1 w2 by (simp add: turn_content_def Let_def n_def)
  moreover have "forward_local_messsage w nd2 h1 p (int n) = deliver_local w nd2 h (snd m) p (word_of_nat (length (fst m)))"
  proof -
    have "nat (int n) - 12 = length (fst m)" "\<not> int n < 12" "int n - 12 = int (length (fst m))" using n by simp_all
    moreover have "mem_load nd2 (p, length (fst m)) 12 = Some (header_to_message (snd m))"
      by (simp add: mem_load_def nd2_def skynet_malloc_def p_def body_def)
    ultimately show ?thesis by (simp add: forward_local_messsage_def HEADER_COOKIE_LENGTH_def h1_def with_size_def)
  qed
  moreover have "upd_slave h1 i (\<lambda>s. s\<lparr>sl_length := 0, sl_read := 0, sl_recv_buffer := None, sl_status := STATUS_HEADER\<rparr>) = with_size h i (frame_size m)"
    unfolding h1_def with_size_def upd_slave_upd using idle by (intro upd_slave_same) (simp add: slave_idle_def)
  ultimately have "content_done w (st\<lparr>st_nd := nd2\<rparr>) h1 i rest = Option.bind (deliver_local w nd2 h (snd m) p (word_of_nat (length (fst m))))
      (\<lambda>nd. Some (if rest = [] then None else Some rest, st\<lparr>st_nd := nd\<rparr>, with_size h i (frame_size m)))"
    "turn_content w (st\<lparr>st_nd := nd1\<rparr>) h1 i (body @ rest) = content_done w (st\<lparr>st_nd := nd2\<rparr>) h1 i rest"
    using s1 by (simp_all add: content_done_def Let_def)
  then have "socket_data_loop sys w (st\<lparr>st_nd := nd1\<rparr>) h1 i (body @ rest) =
    Option.bind (deliver_local w nd2 h (snd m) p (word_of_nat (length (fst m))))
      (\<lambda>nd. if rest = [] then Some (st\<lparr>st_nd := nd\<rparr>, with_size h i (frame_size m)) else socket_data_loop sys w (st\<lparr>st_nd := nd\<rparr>) (with_size h i (frame_size m)) i rest)"
    using s1 by (simp add: loop_turn_on [of sys w _ h1] socket_data_turn_def turn_on_bind turn_on_rest)
  moreover have "receive_frame w h m st = Option.bind (deliver_local w nd2 h (snd m) p (word_of_nat (length (fst m)))) (\<lambda>nd. Some (st\<lparr>st_nd := nd\<rparr>))"
    by (simp add: receive_frame_def nd2_def skynet_malloc_def p_def body_def)
  ultimately show ?thesis by (simp add: frame 1)
qed

lemma idle_with_size: "slave_idle (hb_s h i) \<Longrightarrow> length z = 4 \<Longrightarrow> slave_idle (hb_s (with_size h i z) i)"
  by (simp add: slave_idle_def with_size_def)

lemma loop_frames:
  assumes "slave_idle (hb_s h i)" "ms \<noteq> []" "\<forall>m \<in> set ms. length (fst m) + 12 < 2 ^ 24"
  shows "socket_data_loop sys w st h i (concat (map (\<lambda>m. remote_frame (fst m) (snd m)) ms)) =
    map_option (\<lambda>st. (st, with_size h i (frame_size (last ms)))) (fold_m (receive_frame w h) ms st)"
  using assms
proof (induction ms arbitrary: st h)
  case (Cons m ms)
  let ?f = "\<lambda>m. remote_frame (fst m) (snd m)"
  have m: "length (fst m) + 12 < 2 ^ 24" using Cons.prems(3) by simp
  show ?case
  proof (cases "ms = []")
    case True
    then show ?thesis using loop_frame [OF Cons.prems(1) m, of sys w st "[]"] by (cases "receive_frame w h m st") simp_all
  next
    case False
    define G where "G = concat (map ?f ms)"
    have ne: "G \<noteq> []" using False by (cases ms) (auto simp: G_def remote_frame_def to_bigendian_def)
    have "slave_idle (hb_s (with_size h i (frame_size m)) i)"
      using idle_with_size [OF Cons.prems(1)] frame_size_word [OF m] by simp
    note IH = Cons.IH [OF this False]
    show ?thesis using loop_frame [OF Cons.prems(1) m, of sys w st G] ne IH [folded G_def] Cons.prems(3) False
      by (cases "receive_frame w h m st") (simp_all flip: G_def)
  qed
qed simp

subsection \<open>Closed connections\<close>

text \<open>A slave without a socket is in its first state.\<close>

definition slave_inv :: "harbor \<Rightarrow> bool" where
  "slave_inv h \<longleftrightarrow> (\<forall>i. sl_fd (hb_s h i) = 0 \<longrightarrow> sl_status (hb_s h i) = STATUS_WAIT)"

lemma slave_inv_map [simp]: "slave_inv (h\<lparr>hb_map := m\<rparr>) = slave_inv h"
  by (simp add: slave_inv_def)

lemma slave_inv_fd: "slave_inv h \<Longrightarrow> sl_fd (f (hb_s h i)) \<noteq> 0 \<Longrightarrow> slave_inv (upd_slave h i f)"
  by (simp add: slave_inv_def upd_slave_def)

lemma slave_inv_keep:
  "slave_inv h \<Longrightarrow> sl_fd (f (hb_s h i)) = sl_fd (hb_s h i) \<Longrightarrow> sl_status (f (hb_s h i)) = sl_status (hb_s h i) \<Longrightarrow> slave_inv (upd_slave h i f)"
  by (auto simp: slave_inv_def upd_slave_def)

lemma slave_inv_queue [simp]: "slave_inv h \<Longrightarrow> slave_inv (upd_slave h i (\<lambda>s. s\<lparr>sl_queue := q s\<rparr>))"
  by (rule slave_inv_keep) simp_all

lemma turn_slave_inv:
  assumes t: "socket_data_turn sys w st h i b = Some (k, st', h')" and inv: "slave_inv h"
  shows "slave_inv h'"
proof (cases "sl_status (hb_s h i) = STATUS_WAIT \<or> sl_status (hb_s h i) = STATUS_DOWN")
  case True
  then show ?thesis using t inv by (auto simp: socket_data_turn_def)
next
  case False
  then have fd: "sl_fd (hb_s h i) \<noteq> 0" using inv by (auto simp: slave_inv_def)
  show ?thesis
  proof (cases "sl_status (hb_s h i)")
    case STATUS_HANDSHAKE
    obtain c x where b: "b = c # x" using t STATUS_HANDSHAKE by (cases b) (auto simp: socket_data_turn_def turn_handshake_def)
    show ?thesis using t fd inv STATUS_HANDSHAKE
      by (auto simp: b socket_data_turn_def turn_handshake_def split: if_splits bind_splits
          dest!: close_harbor_slave dispatch_queue_slave intro!: slave_inv_fd)
  next
    case STATUS_HEADER
    then show ?thesis using t fd inv
      by (auto simp: socket_data_turn_def turn_header_def header_done_def Let_def split: if_splits bind_splits prod.splits
          dest!: close_harbor_slave intro!: slave_inv_fd)
  next
    case STATUS_CONTENT
    then show ?thesis using t fd inv
      by (auto simp: socket_data_turn_def turn_content_def content_done_def Let_def split: if_splits bind_splits intro!: slave_inv_fd)
  qed (use False in simp_all)
qed

lemma loop_slave_inv:
  assumes "socket_data_loop sys w st h i b = Some r" "slave_inv h"
  shows "slave_inv (snd r)"
proof -
  have "slave_inv h \<longrightarrow> slave_inv (snd r)"
  proof (rule socket_data_loop.raw_induct [where P = "\<lambda>_ _ _ h _ _ r. slave_inv h \<longrightarrow> slave_inv (snd r)", OF _ assms(1)])
    fix f sys w st h i b r
    assume IH: "\<And>sys w st h i b r. f sys w st h i b = Some r \<Longrightarrow> slave_inv h \<longrightarrow> slave_inv (snd r)"
      and r: "Option.bind (socket_data_turn sys w st h i b)
        (\<lambda>(rest, st, h). case rest of None \<Rightarrow> Some (st, h) | Some b \<Rightarrow> f sys w st h i b) = Some r"
    then obtain k st' h' where t: "socket_data_turn sys w st h i b = Some (k, st', h')" by (auto split: bind_splits)
    then show "slave_inv h \<longrightarrow> slave_inv (snd r)" using r IH turn_slave_inv [OF t] by (cases k) auto
  qed
  then show ?thesis using assms(2) by blast
qed

lemma move_name_queue_inv: "move_name_queue h i node = Some (h', node') \<Longrightarrow> slave_inv h \<Longrightarrow> slave_inv h'"
  by (auto simp: move_name_queue_def split: option.splits bind_splits)

lemma dispatch_name_queue_inv: "dispatch_name_queue sys w st h node = Some (st', h', node') \<Longrightarrow> slave_inv h \<Longrightarrow> slave_inv h'"
  by (auto simp: dispatch_name_queue_def Let_def split: if_splits bind_splits dest!: move_name_queue_inv)

lemma update_name_inv: "update_name sys w st h name handle = Some (st', h') \<Longrightarrow> slave_inv h \<Longrightarrow> slave_inv h'"
  by (auto simp: update_name_def Let_def split: if_splits bind_splits prod.splits dest!: dispatch_name_queue_inv)

lemma remote_send_handle_inv:
  "remote_send_handle sys w st h source destination type session msg sz = Some (k, st', h') \<Longrightarrow> slave_inv h \<Longrightarrow> slave_inv h'"
  by (auto simp: remote_send_handle_def Let_def split: if_splits bind_splits prod.splits)

lemma remote_send_name_inv:
  "remote_send_name sys w st h source name type session msg sz = Some (k, st', h') \<Longrightarrow> slave_inv h \<Longrightarrow> slave_inv h'"
  by (auto simp: remote_send_name_def Let_def split: if_splits bind_splits prod.splits dest!: remote_send_handle_inv)

lemma harbor_error_inv: "harbor_error w st h txt = Some (st', h') \<Longrightarrow> h' = h"
  by (auto simp: harbor_error_def split: bind_splits)

lemma add_slave_inv: "add_slave sys w st h cmd fd i buffer = Some (st', h') \<Longrightarrow> slave_inv h \<Longrightarrow> slave_inv h'"
  by (auto simp: add_slave_def Let_def split: if_splits bind_splits dest!: harbor_error_inv dispatch_queue_slave intro!: slave_inv_fd)

lemma harbor_command_inv: "harbor_command sys w st h msg source = Some (st', h') \<Longrightarrow> slave_inv h \<Longrightarrow> slave_inv h'"
  by (auto simp: harbor_command_def Let_def split: if_splits bind_splits prod.splits
      dest!: harbor_error_inv update_name_inv add_slave_inv)

lemma push_socket_data_inv: "push_socket_data sys w st h message = Some (st', h') \<Longrightarrow> slave_inv h \<Longrightarrow> slave_inv h'"
  by (auto simp: push_socket_data_def Let_def split: if_splits bind_splits dest!: loop_slave_inv)

lemma harbor_socket_inv: "harbor_socket sys w st h message = Some (st', h') \<Longrightarrow> slave_inv h \<Longrightarrow> slave_inv h'"
  by (auto simp: harbor_socket_def Let_def split: if_splits bind_splits dest!: harbor_error_inv push_socket_data_inv)

lemma mainloop_inv: "mainloop sys w st h type session source msg sz = Some (st', h') \<Longrightarrow> slave_inv h \<Longrightarrow> slave_inv h'"
  by (auto simp: mainloop_def split: if_splits bind_splits option.splits cdata.splits
      dest!: harbor_error_inv harbor_socket_inv harbor_command_inv remote_send_name_inv remote_send_handle_inv)

subsection \<open>Names that become known\<close>

lemma key_matches_new [simp]: "key_matches name \<lparr>kv_key = name, kv_hash = name_hash name, kv_value = v, kv_queue = q\<rparr>"
  by (simp add: key_matches_def strncmp_eq_def)

text \<open>An entry at the front of its chain is found, and a write replaces it.\<close>

definition new_node :: "string \<Rightarrow> u32 \<Rightarrow> harbor_msg_queue option \<Rightarrow> keyvalue" where
  "new_node name v q = \<lparr>kv_key = name, kv_hash = name_hash name, kv_value = v, kv_queue = q\<rparr>"

definition with_node :: "hashmap \<Rightarrow> string \<Rightarrow> u32 \<Rightarrow> harbor_msg_queue option \<Rightarrow> hashmap" where
  "with_node hash name v q =
     (let i = unat (name_hash name) mod HASH_SIZE in hash(i := new_node name v q # hash i))"

lemma hash_node_new: "hash_search hash name = None \<Longrightarrow> hash_node hash name = (new_node name 0 None, with_node hash name 0 None)"
  by (simp add: hash_node_def hash_insert_def Let_def new_node_def with_node_def)

lemma hash_node_with: "hash_node (with_node hash name v q) name = (new_node name v q, with_node hash name v q)"
  by (simp add: hash_node_def hash_search_def Let_def new_node_def with_node_def)

lemma hash_write_with: "hash_write (with_node hash name v q) name (new_node name v' q') = with_node hash name v' q'"
  by (simp add: hash_write_def Let_def new_node_def with_node_def)

lemma new_node_fields [simp]: "kv_value (new_node name v q) = v" "kv_queue (new_node name v q) = q"
  "(new_node name v q)\<lparr>kv_value := v'\<rparr> = new_node name v' q" "(new_node name v q)\<lparr>kv_queue := q'\<rparr> = new_node name v q'"
  by (simp_all add: new_node_def)

lemma handle_of_destination:
  "push_bit HANDLE_REMOTE_SHIFT t AND HANDLE_MASK = (0 :: u32)"
  "(push_bit HANDLE_REMOTE_SHIFT t OR (d AND HANDLE_MASK)) AND HANDLE_MASK = (d AND HANDLE_MASK :: u32)"
proof -
  have m: "HANDLE_MASK = mask 24" by (simp add: HANDLE_MASK_def mask_eq_exp_minus_1)
  show "push_bit HANDLE_REMOTE_SHIFT t AND HANDLE_MASK = (0 :: u32)"
    "(push_bit HANDLE_REMOTE_SHIFT t OR (d AND HANDLE_MASK)) AND HANDLE_MASK = (d AND HANDLE_MASK :: u32)"
    by (rule bit_word_eqI, auto simp: m HANDLE_REMOTE_SHIFT_def bit_simps)+
qed

text \<open>
  C35. A message that waits for a global name loses its address. When the name becomes known while the
  node it belongs to is not yet connected, \<open>dispatch_name_queue\<close> moves the message to the queue of
  the node without the handle: its destination has the type but handle 0, and the other node will
  not find a service for it. The same message sent after the name is known is queued behind it with
  the right handle.
\<close>

theorem named_message_loses_handle:
  assumes "hash_search (hb_map h) name = None"
    and "remote_send_name sys w st h source name type session msg sz = Some (kept, st1, h1)"
    and "i = unat (drop_bit HANDLE_REMOTE_SHIFT handle)" "sl_fd (hb_s h i) = 0" "sl_status (hb_s h i) = STATUS_WAIT"
      "sl_queue (hb_s h i) = None"
    and "handle \<noteq> 0" "i \<noteq> unat (drop_bit HANDLE_REMOTE_SHIFT (hb_slave h))" "drop_bit HANDLE_REMOTE_SHIFT handle \<noteq> hb_id h"
  shows "\<exists>h2 h3 q a b. update_name sys w st1 h1 name handle = Some (st1, h2) \<and>
    remote_send_name sys w st1 h2 source name type session msg sz = Some (True, st1, h3) \<and>
    sl_queue (hb_s h3 i) = Some q \<and> queue_list q = [a, b] \<and>
    rh_destination (hm_header a) AND HANDLE_MASK = 0 \<and> rh_destination (hm_header b) AND HANDLE_MASK = handle AND HANDLE_MASK"
proof -
  let ?header = "\<lambda>d. \<lparr>rh_source = source, rh_destination = d, rh_session = session\<rparr>"
  let ?q1 = "push_queue new_queue msg sz (?header (push_bit HANDLE_REMOTE_SHIFT type))"
  let ?q2 = "push_queue ?q1 msg sz (?header (push_bit HANDLE_REMOTE_SHIFT type OR (handle AND HANDLE_MASK)))"
  let ?h2 = "upd_slave (h\<lparr>hb_map := with_node (hb_map h) name handle None\<rparr>) i (\<lambda>s. s\<lparr>sl_queue := Some ?q1\<rparr>)"
  have h1: "h1 = h\<lparr>hb_map := with_node (hb_map h) name 0 (Some ?q1)\<rparr>"
    using assms(2) by (auto simp: remote_send_name_def hash_node_new [OF assms(1)] hash_write_with split: bind_splits)
  have "dispatch_name_queue sys w st1 (h\<lparr>hb_map := m\<rparr>) (new_node name handle (Some ?q1)) =
    Some (st1, upd_slave (h\<lparr>hb_map := m\<rparr>) i (\<lambda>s. s\<lparr>sl_queue := Some ?q1\<rparr>), new_node name handle None)" for m
    using assms(3-8) by (simp add: dispatch_name_queue_def move_name_queue_def)
  then have u: "update_name sys w st1 h1 name handle = Some (st1, ?h2)"
    by (simp add: update_name_def h1 hash_node_with hash_write_with release_queue_def upd_slave_def)
  have s: "remote_send_name sys w st1 ?h2 source name type session msg sz =
    Some (True, st1, upd_slave ?h2 i (\<lambda>s. s\<lparr>sl_queue := Some ?q2\<rparr>))"
    using assms(3-9) by (simp add: remote_send_name_def remote_send_handle_def Let_def hash_node_with upd_slave_def)
  have "hq_ok ?q1" "queue_list ?q1 = [\<lparr>hm_header = ?header (push_bit HANDLE_REMOTE_SHIFT type), hm_buffer = msg, hm_size = sz\<rparr>]"
    using push_queue_msg_ok [OF new_queue_ok(1)] by (simp_all add: push_queue_def new_queue_ok)
  then have l: "queue_list ?q2 = [\<lparr>hm_header = ?header (push_bit HANDLE_REMOTE_SHIFT type), hm_buffer = msg, hm_size = sz\<rparr>,
      \<lparr>hm_header = ?header (push_bit HANDLE_REMOTE_SHIFT type OR (handle AND HANDLE_MASK)), hm_buffer = msg, hm_size = sz\<rparr>]"
    using push_queue_msg_ok [of ?q1] by (simp add: push_queue_def [of ?q1])
  show ?thesis
    by (rule exI [of _ ?h2], rule exI [of _ "upd_slave ?h2 i (\<lambda>s. s\<lparr>sl_queue := Some ?q2\<rparr>)"], rule exI [of _ ?q2],
        rule exI, rule exI, intro conjI, rule u, rule s, simp, rule l)
      (simp_all add: handle_of_destination)
qed

text \<open>A harbor service on the node of \<open>demo_node\<close>, and a name of 16 characters.\<close>

definition demo_name :: string where
  "demo_name = ''cluster'' @ replicate 9 NUL"

definition demo_harbor :: harbor where
  "demo_harbor = harbor_create\<lparr>hb_ctx := Some 10, hb_id := 1\<rparr>"

lemma demo_send_text: "\<exists>nd. send_text w demo_node (Some 10) 0 ''Q cluster'' = Some nd"
proof -
  have sz: "(9 :: size_t) AND MESSAGE_TYPE_MASK = 9" by (simp add: mask_sz)
  have "name_search [] k 0 (- 1) = Absent 0" for k by (simp add: name_search.simps)
  then have l: "skynet_handle_findname (nd_handle demo_node) k = 0" for k
    by (simp add: skynet_handle_findname_def demo_node_def skynet_handle_init_def name_search.simps)
  show ?thesis using l
    by (simp add: send_text_def skynet_send_def sz skynet_malloc_def filter_args_def filter_copy_def demo_node_def demo_context_def
        PTYPE_TEXT_def skynet_context_handle_def skynet_error_def Let_def skynet_free_def PTYPE_TAG_DONTCOPY_def PTYPE_TAG_ALLOCSESSION_def)
qed

theorem named_message_loses_handle_witness:
  "\<forall>(sys :: unit sys) w (st :: unit sstate). \<exists>st1 h1 h2 h3 q a b.
    remote_send_name sys w (st\<lparr>st_nd := demo_node\<rparr>) demo_harbor 1 demo_name 0 0 None 0 = Some (True, st1, h1) \<and>
    update_name sys w st1 h1 demo_name 0x02000007 = Some (st1, h2) \<and>
    remote_send_name sys w st1 h2 1 demo_name 0 0 None 0 = Some (True, st1, h3) \<and> sl_queue (hb_s h3 2) = Some q \<and>
    queue_list q = [a, b] \<and> rh_destination (hm_header a) AND HANDLE_MASK = 0 \<and> rh_destination (hm_header b) AND HANDLE_MASK = 7"
proof (intro allI)
  fix sys :: "unit sys" and w and st :: "unit sstate"
  have n: "hash_search (hb_map demo_harbor) demo_name = None" by (simp add: demo_harbor_def harbor_create_def hash_search_def)
  obtain nd where nd: "send_text w demo_node (Some 10) 0 ''Q cluster'' = Some nd" using demo_send_text by blast
  have d: "hb_ctx demo_harbor = Some 10" "hb_slave demo_harbor = 0" by (simp_all add: demo_harbor_def harbor_create_def)
  have "takeWhile (\<lambda>c. c \<noteq> NUL) demo_name = ''cluster''" by (simp add: demo_name_def NUL_def char_of_def)
  then obtain st1 h1 where s: "remote_send_name sys w (st\<lparr>st_nd := demo_node\<rparr>) demo_harbor 1 demo_name 0 0 None 0 = Some (True, st1, h1)"
    using nd d by (simp add: remote_send_name_def hash_node_new [OF n])
  have i: "2 = unat (drop_bit HANDLE_REMOTE_SHIFT (0x02000007 :: u32))" by (simp add: HANDLE_REMOTE_SHIFT_def)
  from named_message_loses_handle [OF n s i] obtain h2 h3 q a b where "update_name sys w st1 h1 demo_name 0x02000007 = Some (st1, h2)"
    "remote_send_name sys w st1 h2 1 demo_name 0 0 None 0 = Some (True, st1, h3)" "sl_queue (hb_s h3 2) = Some q" "queue_list q = [a, b]"
    "rh_destination (hm_header a) AND HANDLE_MASK = 0" "rh_destination (hm_header b) AND HANDLE_MASK = 0x02000007 AND HANDLE_MASK"
    by (auto simp: demo_harbor_def harbor_create_def empty_slave_def HANDLE_REMOTE_SHIFT_def)
  then show "\<exists>st1 h1 h2 h3 q a b.
    remote_send_name sys w (st\<lparr>st_nd := demo_node\<rparr>) demo_harbor 1 demo_name 0 0 None 0 = Some (True, st1, h1) \<and>
    update_name sys w st1 h1 demo_name 0x02000007 = Some (st1, h2) \<and>
    remote_send_name sys w st1 h2 1 demo_name 0 0 None 0 = Some (True, st1, h3) \<and> sl_queue (hb_s h3 2) = Some q \<and>
    queue_list q = [a, b] \<and> rh_destination (hm_header a) AND HANDLE_MASK = 0 \<and> rh_destination (hm_header b) AND HANDLE_MASK = 7"
    using s by (intro exI conjI) (simp_all add: HANDLE_MASK_def)
qed

subsection \<open>Frames that the receiver does not expect\<close>

text \<open>A frame shorter than its header makes the service read before the block of the frame.\<close>

lemma loop_short_frame:
  assumes idle: "slave_idle (hb_s h i)" and n: "0 < length body" "length body < 12"
  shows "socket_data_loop sys w st h i (to_bigendian (word_of_nat (length body)) @ body) = None"
proof -
  let ?z = "to_bigendian (word_of_nat (length body))"
  have u: "uint (from_bigendian ?z) = int (length body)" using n by (simp add: uint_nat unat_of_nat)
  have "unat (drop_bit 24 (word_of_nat (length body) :: u32)) = 0"
    unfolding unat_drop_bit using n by (simp add: unat_of_nat)
  then have "drop_bit 24 (word_of_nat (length body) :: u32) = 0" by (simp only: unat_eq_zero)
  then have z: "?z ! 0 = NUL" "length ?z = 4" by (simp_all add: to_bigendian_def NUL_def)
  obtain st' h' where d: "\<And>rest. header_done w st h i ?z rest = Some (if rest = [] then None else Some rest, st', h')"
    "sl_status (hb_s h' i) = STATUS_CONTENT" using header_done_ok [OF z] by metis
  have l: "sl_length (hb_s h' i) = int (length body)" "sl_read (hb_s h' i) = 0"
    using d(1) [of "[]"] z(1) u by (auto simp: header_done_def Let_def skynet_malloc_def)
  have idle': "sl_status (hb_s h i) = STATUS_HEADER" "sl_read (hb_s h i) = int 0" "length (sl_size (hb_s h i)) = 4"
    using idle by (simp_all add: slave_idle_def)
  have "turn_header w st h i (?z @ body) = header_done w st h i ?z body"
    using turn_header_complete [OF idle'(2,3), of "?z @ body" w st] z by simp
  then have "socket_data_turn sys w st h i (?z @ body) = Some (Some body, st', h')"
    using idle' n d(1) by (simp add: socket_data_turn_def)
  moreover have "socket_data_turn sys w st' h' i body = None"
    using d(2) l n by (simp add: socket_data_turn_def turn_content_def content_done_def forward_local_messsage_def HEADER_COOKIE_LENGTH_def Let_def)
  ultimately show ?thesis by (simp add: loop_next loop_fails)
qed

text \<open>
  The sender accepts messages below \<open>2 ^ 32\<close> bytes; the receiver closes the connection for a frame of
  \<open>2 ^ 24\<close> bytes or more.
\<close>

lemma loop_long_frame:
  assumes idle: "slave_idle (hb_s h i)" and n: "2 ^ 24 \<le> unat n"
    and r: "socket_data_loop sys w st h i (to_bigendian n @ rest) = Some (st', h')"
  shows "sl_status (hb_s h' i) = STATUS_DOWN"
proof -
  have idle': "sl_status (hb_s h i) = STATUS_HEADER" "sl_read (hb_s h i) = int 0" "length (sl_size (hb_s h i)) = 4"
    using idle by (simp_all add: slave_idle_def)
  have "unat (drop_bit 24 n) < 256" using unat_u32_less [of n] by (simp add: unat_drop_bit)
  then have b: "drop_bit 24 n AND 0xff = drop_bit 24 n"
    unfolding low_byte by (simp add: word_unat_eq_iff take_bit_eq_mod unat_mod)
  have "1 \<le> unat n div 2 ^ 24" using div_le_mono [OF n, of "2 ^ 24"] by simp
  then have "0 < unat (drop_bit 24 n)" by (simp add: unat_drop_bit)
  then have "of_char (char_of (unat (drop_bit 24 n)) :: char) \<noteq> (0 :: nat)" using \<open>unat (drop_bit 24 n) < 256\<close> by simp
  then have z: "to_bigendian n ! 0 \<noteq> NUL" unfolding to_bigendian_def NUL_def using b by auto
  have "turn_header w st h i (to_bigendian n @ rest) = header_done w st h i (to_bigendian n) rest"
    using turn_header_complete [OF idle'(2,3), of "to_bigendian n @ rest" w st] by simp
  then have "socket_data_loop sys w st h i (to_bigendian n @ rest) = turn_on sys w i (header_done w st h i (to_bigendian n) rest)"
    using idle' by (simp add: loop_turn_on [of sys w st h] socket_data_turn_def)
  then show ?thesis using header_done_error [OF z, of sys w i st h] r by metis
qed

text \<open>The messages that wait for a connection are sent in the order in which they came.\<close>

lemma release_empty: "hq_ok q \<Longrightarrow> queue_list q = [] \<Longrightarrow> release_queue nd (Some q) = Some nd"
  by (simp add: release_queue_def drain_list)

lemma emptied_queue: "hq_ok q \<Longrightarrow> hq_ok (q\<lparr>hq_head := hq_tail q\<rparr>) \<and> queue_list (q\<lparr>hq_head := hq_tail q\<rparr>) = []"
  by (simp add: hq_ok_def queue_list_def queue_len_def)

lemma dispatch_queue_sends:
  assumes "sl_fd (hb_s h i) \<noteq> 0" "sl_queue (hb_s h i) = Some q" "hq_ok q"
  shows "dispatch_queue sys w st h i =
    map_option (\<lambda>st. (st, upd_slave h i (\<lambda>s. s\<lparr>sl_queue := None\<rparr>)))
      (fold_m (send_waiting sys w (hb_ctx h) (sl_fd (hb_s h i)) 0) (queue_list q) st)"
  using assms emptied_queue [OF assms(3)]
  by (cases "fold_m (send_waiting sys w (hb_ctx h) (sl_fd (hb_s h i)) 0) (queue_list q) st")
    (simp_all add: dispatch_queue_def Let_def drain_list release_empty)

lemma fold_m_Nil: "fold_m f [] = Some"
  by (simp add: fun_eq_iff)

subsection \<open>Properties\<close>



text \<open>
  C36. The report of a dead node is never reached. \<open>close_harbor\<close> keeps the socket of the slave, so in
  every state behind the callback a slave that is down still has a socket, and a message to its
  node is neither refused with \<open>PTYPE_ERROR\<close> nor reported: it is written to the closed socket.
\<close>

theorem harbor_down_silent:
  assumes "slave_inv h" "mainloop sys w st h type session source msg sz = Some (st', h')"
    and "sl_status (hb_s h' (unat (drop_bit HANDLE_REMOTE_SHIFT destination))) = STATUS_DOWN"
    and "drop_bit HANDLE_REMOTE_SHIFT destination \<noteq> hb_id h'"
  shows "slave_inv h' \<and>
    remote_send_handle sys w st' h' src destination ty ses m n =
      map_option (\<lambda>st. (False, st, h'))
        (send_remote sys w st' (hb_ctx h') (sl_fd (hb_s h' (unat (drop_bit HANDLE_REMOTE_SHIFT destination)))) m n
          \<lparr>rh_source = src, rh_destination = push_bit HANDLE_REMOTE_SHIFT ty OR (destination AND HANDLE_MASK), rh_session = ses\<rparr>)"
proof -
  have inv: "slave_inv h'" using mainloop_inv [OF assms(2,1)] .
  then have "sl_fd (hb_s h' (unat (drop_bit HANDLE_REMOTE_SHIFT destination))) \<noteq> 0"
    using assms(3) by (auto simp: slave_inv_def)
  then show ?thesis using inv assms(3,4)
    by (simp add: remote_send_handle_def Let_def map_option_case split: option.split bind_split)
qed

theorem harbor_down_silent_witness:
  "\<forall>(sys :: unit sys) w st. \<exists>st' h'.
    mainloop sys w (st\<lparr>st_nd := demo_node\<lparr>nd_mem := [40 \<mapsto> Sock \<lparr>ssm_type = SKYNET_SOCKET_TYPE_CONNECT, ssm_id = 5, ssm_ud = 0, ssm_buffer = None, ssm_tail = []\<rparr>]\<rparr>\<rparr>)
      (upd_slave demo_harbor 2 (\<lambda>s. s\<lparr>sl_fd := 5, sl_status := STATUS_DOWN\<rparr>)) PTYPE_SOCKET 0 0 (Some 40) 24 = Some (st', h') \<and>
    remote_send_handle sys w st' h' 1 0x02000007 0 3 None 0 =
      map_option (\<lambda>st. (False, st, h')) (send_remote sys w st' (Some 10) 5 None 0 \<lparr>rh_source = 1, rh_destination = 7, rh_session = 3\<rparr>)"
proof (intro allI)
  fix sys :: "unit sys" and w and st :: "unit sstate"
  let ?h = "upd_slave demo_harbor 2 (\<lambda>s. s\<lparr>sl_fd := 5, sl_status := STATUS_DOWN\<rparr>)"
  let ?st = "st\<lparr>st_nd := demo_node\<lparr>nd_mem := [40 \<mapsto> Sock \<lparr>ssm_type = SKYNET_SOCKET_TYPE_CONNECT, ssm_id = 5, ssm_ud = 0, ssm_buffer = None, ssm_tail = []\<rparr>]\<rparr>\<rparr>"
  have inv: "slave_inv ?h" by (simp add: slave_inv_def upd_slave_def demo_harbor_def harbor_create_def empty_slave_def)
  have m: "mainloop sys w ?st ?h PTYPE_SOCKET 0 0 (Some 40) 24 = Some (?st, ?h)"
    by (simp add: mainloop_def harbor_socket_def Let_def SKYNET_SOCKET_TYPE_CONNECT_def SKYNET_SOCKET_TYPE_DATA_def
        SKYNET_SOCKET_TYPE_ERROR_def SKYNET_SOCKET_TYPE_CLOSE_def)
  have d: "drop_bit HANDLE_REMOTE_SHIFT (0x02000007 :: u32) = 2" "hb_ctx ?h = Some 10" "hb_id ?h = 1" "sl_fd (hb_s ?h 2) = 5" "sl_status (hb_s ?h 2) = STATUS_DOWN"
    by (simp_all add: HANDLE_REMOTE_SHIFT_def demo_harbor_def harbor_create_def)
  have "remote_send_handle sys w ?st ?h 1 0x02000007 0 3 None 0 =
      map_option (\<lambda>st. (False, st, ?h)) (send_remote sys w ?st (Some 10) 5 None 0 \<lparr>rh_source = 1, rh_destination = 7, rh_session = 3\<rparr>)"
    using harbor_down_silent [OF inv m, where destination = "0x02000007" and src = 1 and ty = 0 and ses = 3 and m = None and n = 0] d by (simp add: HANDLE_MASK_def)
  then show "\<exists>st' h'. mainloop sys w ?st ?h PTYPE_SOCKET 0 0 (Some 40) 24 = Some (st', h') \<and>
    remote_send_handle sys w st' h' 1 0x02000007 0 3 None 0 =
      map_option (\<lambda>st. (False, st, h')) (send_remote sys w st' (Some 10) 5 None 0 \<lparr>rh_source = 1, rh_destination = 7, rh_session = 3\<rparr>)"
    using m by blast
qed

end
