(* ===== verification/Skynet_Cluster.thy ===== *)
theory Skynet_Cluster
  imports Skynet_Netpack
begin

text \<open>
  The messages between the nodes of a cluster: \<^verbatim>\<open>lualib-src/lua-cluster.c\<close>, and the two places
  where the Lua scripts put the parts of a large message together again, \<open>dispatch_request\<close> of
  \<^verbatim>\<open>service/clusteragent.lua\<close> (requests) and \<open>dispatch_by_session\<close> of
  \<^verbatim>\<open>lualib/skynet/socketchannel.lua\<close> (responses).

  A request is one frame when its message is short, otherwise a frame that announces the size and
  then parts of at most 32K. The frames of different requests can mix on a connection, since parts
  are written with low priority.

  Arguments and results of the C functions on the Lua stack are \<open>lua_value\<close>s; \<open>VPtr\<close> is a light
  userdata with the bytes of its block (the block has one owner, so \<open>skynet_free\<close> drops it: every
  branch of \<open>packrequest\<close> after the first test frees the message, and so does \<open>lappend\<close>). Numbers
  are integers, not floats. A result \<open>Inl\<close> is a Lua error. \<open>None\<close> is a crash: an access outside a
  block or the temporary buffer, a failed assertion, an allocation that aborts the process.
\<close>

datatype lua_value =
    VNil
  | VBool bool
  | VInt u64
  | VStr string
  | VPtr "string option"

datatype cl_error =
    Invalid_request_message
  | Invalid_request_session cint
  | Name_not_string
  | Name_too_long string
  | Trace_too_long
  | Invalid_size int
  | Invalid_multi_size int
  | Invalid_multi_part
  | Invalid_package_size
  | Invalid_package_type char
  | Need_lightuserdata
  | Bad_argument

subsection \<open>Bytes\<close>

definition TEMP_LENGTH :: nat where "TEMP_LENGTH = 0x8200"
definition MULTI_PART :: u32 where "MULTI_PART = 0x8000"

text \<open>\<open>memcpy\<close> from offset \<open>off\<close> of a block; a negative length is a huge one.\<close>

definition read_mem :: "string \<Rightarrow> nat \<Rightarrow> int \<Rightarrow> string option" where
  "read_mem mem off n =
     (if 0 \<le> n \<and> int off + n \<le> int (length mem) then Some (take (nat n) (drop off mem)) else None)"

text \<open>\<open>lua_pushlstring\<close> of what was written to the buffer of \<open>TEMP_LENGTH\<close> bytes.\<close>

definition push_buf :: "string \<Rightarrow> string option" where
  "push_buf buf = (if length buf \<le> TEMP_LENGTH then Some buf else None)"

definition fill_uint32 :: "u32 \<Rightarrow> string" where
  "fill_uint32 n = map (\<lambda>k. char_of (unat (drop_bit k n AND 0xff))) [0, 8, 16, 24]"

definition fill_header :: "cint \<Rightarrow> string option" where
  "fill_header sz =
     (if sint sz < 0x10000 then Some (map (\<lambda>k. char_of (unat (signed_drop_bit k sz AND 0xff))) [8, 0]) else None)"

definition unpack_uint32 :: "string \<Rightarrow> nat \<Rightarrow> u32 option" where
  "unpack_uint32 mem off = do {
     buf \<leftarrow> read_mem mem off 4;
     Some (of_char (buf ! 0) OR push_bit 8 (of_char (buf ! 1)) OR push_bit 16 (of_char (buf ! 2)) OR push_bit 24 (of_char (buf ! 3))) }"

fun lua_touserdata :: "lua_value \<Rightarrow> string option" where
  "lua_touserdata (VPtr p) = p"
| "lua_touserdata _ = None"

subsection \<open>Packing requests\<close>

text \<open>The result is the frame and the number of parts that follow it.\<close>

definition packreq_number :: "u64 \<Rightarrow> cint \<Rightarrow> string \<Rightarrow> u32 \<Rightarrow> bool \<Rightarrow> (string \<times> cint) option" where
  "packreq_number n session msg sz is_push =
     (let addr = (ucast n :: u32)
      in if sz < MULTI_PART then do {
           header \<leftarrow> fill_header (sz + 9);
           content \<leftarrow> read_mem msg 0 (uint sz);
           buf \<leftarrow> push_buf (header @ [CHR 0x00] @ fill_uint32 addr @ fill_uint32 (if is_push then 0 else session) @ content);
           Some (buf, 0) }
         else do {
           let part = (sz - 1) div MULTI_PART + 1;
           header \<leftarrow> fill_header 13;
           buf \<leftarrow> push_buf (header @ [if is_push then CHR 0x41 else CHR 0x01] @ fill_uint32 addr @ fill_uint32 session @ fill_uint32 sz);
           Some (buf, part) })"

definition packreq_string :: "lua_value \<Rightarrow> cint \<Rightarrow> string \<Rightarrow> u32 \<Rightarrow> bool \<Rightarrow> (cl_error + string \<times> cint) option" where
  "packreq_string addr session msg sz is_push =
     (case addr of
        VStr name \<Rightarrow>
          (let namelen = length name
           in if namelen < 1 \<or> namelen > 255 then Some (Inl (Name_too_long name))
              else if sz < MULTI_PART then do {
                header \<leftarrow> fill_header (word_of_nat (unat sz + 6 + namelen));
                content \<leftarrow> read_mem msg 0 (uint sz);
                buf \<leftarrow> push_buf (header @ [CHR 0x80] @ [char_of namelen] @ name @ fill_uint32 (if is_push then 0 else session) @ content);
                Some (Inr (buf, 0)) }
              else do {
                let part = (sz - 1) div MULTI_PART + 1;
                header \<leftarrow> fill_header (word_of_nat (10 + namelen));
                buf \<leftarrow> push_buf (header @ [if is_push then CHR 0xc1 else CHR 0x81] @ [char_of namelen] @ name @ fill_uint32 session @ fill_uint32 sz);
                Some (Inr (buf, part)) })
      | _ \<Rightarrow> Some (Inl Name_not_string))"

text \<open>The loop over the parts: \<open>ptr\<close> are the bytes from the pointer on.\<close>

fun multi_loop :: "nat \<Rightarrow> cint \<Rightarrow> string \<Rightarrow> u32 \<Rightarrow> string list option" where
  "multi_loop 0 session ptr sz = Some []"
| "multi_loop (Suc n) session ptr sz = do {
     let (s, ty) = (if sz > MULTI_PART then (MULTI_PART, CHR 0x02) else (sz, CHR 0x03));
     header \<leftarrow> fill_header (s + 5);
     content \<leftarrow> read_mem ptr 0 (uint s);
     buf \<leftarrow> push_buf (header @ [ty] @ fill_uint32 session @ content);
     bufs \<leftarrow> multi_loop n session (drop (unat s) ptr) (sz - s);
     Some (buf # bufs) }"

definition packreq_multi :: "cint \<Rightarrow> string \<Rightarrow> u32 \<Rightarrow> string list option" where
  "packreq_multi session msg sz = multi_loop (unat ((sz - 1) div MULTI_PART + 1)) session msg sz"

definition packrequest :: "lua_value \<Rightarrow> u64 \<Rightarrow> lua_value \<Rightarrow> u64 \<Rightarrow> bool \<Rightarrow> (cl_error + string \<times> u32 \<times> string list option) option" where
  "packrequest addr session msg sz is_push =
     (case lua_touserdata msg of
        None \<Rightarrow> Some (Inl Invalid_request_message)
      | Some msg \<Rightarrow>
          (let sz = (ucast sz :: u32); session = (ucast session :: cint)
           in if sint session \<le> 0 then Some (Inl (Invalid_request_session session))
              else do {
                r \<leftarrow> (case addr of VInt n \<Rightarrow> map_option Inr (packreq_number n session msg sz is_push)
                      | _ \<Rightarrow> packreq_string addr session msg sz is_push);
                case r of
                  Inl e \<Rightarrow> Some (Inl e)
                | Inr (buf, multipak) \<Rightarrow> do {
                    let new_session = session + 1;
                    let new_session = (if new_session > 0x7fffffff then 1 else new_session);
                    if multipak \<noteq> 0 then do {
                      bufs \<leftarrow> packreq_multi session msg sz;
                      Some (Inr (buf, new_session, Some bufs)) }
                    else Some (Inr (buf, new_session, None)) } }))"

definition lpackrequest :: "lua_value \<Rightarrow> u64 \<Rightarrow> lua_value \<Rightarrow> u64 \<Rightarrow> (cl_error + string \<times> u32 \<times> string list option) option" where
  "lpackrequest addr session msg sz = packrequest addr session msg sz False"

definition lpackpush :: "lua_value \<Rightarrow> u64 \<Rightarrow> lua_value \<Rightarrow> u64 \<Rightarrow> (cl_error + string \<times> u32 \<times> string list option) option" where
  "lpackpush addr session msg sz = packrequest addr session msg sz True"

definition lpacktrace :: "string \<Rightarrow> (cl_error + string) option" where
  "lpacktrace tag =
     (if length tag > 0x8000 then Some (Inl Trace_too_long)
      else do {
        header \<leftarrow> fill_header (word_of_nat (length tag + 1));
        buf \<leftarrow> push_buf (header @ [CHR 0x04] @ tag);
        Some (Inr buf) })"

subsection \<open>Unpacking requests\<close>

definition return_buffer :: "string \<Rightarrow> nat \<Rightarrow> int \<Rightarrow> (lua_value list) option" where
  "return_buffer mem off sz = do {
     bs \<leftarrow> read_mem mem off sz;
     Some [VPtr (Some bs), VInt (word_of_int sz)] }"

definition unpackreq_number :: "string \<Rightarrow> int \<Rightarrow> (cl_error + lua_value list) option" where
  "unpackreq_number buf sz =
     (if sz < 9 then Some (Inl (Invalid_size sz))
      else do {
        address \<leftarrow> unpack_uint32 buf 1;
        session \<leftarrow> unpack_uint32 buf 5;
        rest \<leftarrow> return_buffer buf 9 (sz - 9);
        Some (Inr ([VInt (ucast address), VInt (ucast session)] @ rest @ (if session = 0 then [VNil, VBool True] else []))) })"

definition unpackmreq_number :: "string \<Rightarrow> int \<Rightarrow> bool \<Rightarrow> (cl_error + lua_value list) option" where
  "unpackmreq_number buf sz is_push =
     (if sz \<noteq> 13 then Some (Inl (Invalid_multi_size sz))
      else do {
        address \<leftarrow> unpack_uint32 buf 1;
        session \<leftarrow> unpack_uint32 buf 5;
        size \<leftarrow> unpack_uint32 buf 9;
        Some (Inr [VInt (ucast address), VInt (ucast session), VNil, VInt (ucast size), VBool True, VBool is_push]) })"

definition unpackmreq_part :: "string \<Rightarrow> int \<Rightarrow> (cl_error + lua_value list) option" where
  "unpackmreq_part buf sz =
     (if sz < 5 then Some (Inl Invalid_multi_part)
      else do {
        ty \<leftarrow> read_mem buf 0 1;
        session \<leftarrow> unpack_uint32 buf 1;
        rest \<leftarrow> return_buffer buf 5 (sz - 5);
        Some (Inr ([VBool False, VInt (ucast session)] @ rest @ [VBool (ty ! 0 = CHR 0x02)])) })"

definition unpacktrace :: "string \<Rightarrow> int \<Rightarrow> (cl_error + lua_value list) option" where
  "unpacktrace buf sz = do {
     tag \<leftarrow> read_mem buf 1 (sz - 1);
     Some (Inr [VStr tag]) }"

definition unpackreq_string :: "string \<Rightarrow> int \<Rightarrow> (cl_error + lua_value list) option" where
  "unpackreq_string buf sz =
     (if sz < 2 then Some (Inl (Invalid_size sz))
      else do {
        b \<leftarrow> read_mem buf 1 1;
        let namesz = (of_char (b ! 0) :: nat);
        if sz < int namesz + 6 then Some (Inl (Invalid_size sz))
        else do {
          name \<leftarrow> read_mem buf 2 (int namesz);
          session \<leftarrow> unpack_uint32 buf (namesz + 2);
          rest \<leftarrow> return_buffer buf (2 + namesz + 4) (sz - int namesz - 6);
          Some (Inr ([VStr name, VInt (ucast session)] @ rest @ (if session = 0 then [VNil, VBool True] else []))) } })"

definition unpackmreq_string :: "string \<Rightarrow> int \<Rightarrow> bool \<Rightarrow> (cl_error + lua_value list) option" where
  "unpackmreq_string buf sz is_push =
     (if sz < 2 then Some (Inl (Invalid_size sz))
      else do {
        b \<leftarrow> read_mem buf 1 1;
        let namesz = (of_char (b ! 0) :: nat);
        if sz < int namesz + 10 then Some (Inl (Invalid_size sz))
        else do {
          name \<leftarrow> read_mem buf 2 (int namesz);
          session \<leftarrow> unpack_uint32 buf (namesz + 2);
          size \<leftarrow> unpack_uint32 buf (namesz + 6);
          Some (Inr [VStr name, VInt (ucast session), VNil, VInt (ucast size), VBool True, VBool is_push]) } })"

text \<open>
  \<open>lunpackrequest\<close> of a string, or of a light userdata and a size. The first byte decides.
\<close>

definition unpack_bytes :: "string \<Rightarrow> int \<Rightarrow> (cl_error + lua_value list) option" where
  "unpack_bytes msg sz =
     (if sz = 0 then Some (Inl Invalid_package_size)
      else do {
        b \<leftarrow> read_mem msg 0 1;
        let ty = b ! 0;
        if ty = CHR 0x00 then unpackreq_number msg sz
        else if ty = CHR 0x01 then unpackmreq_number msg sz False
        else if ty = CHR 0x41 then unpackmreq_number msg sz True
        else if ty = CHR 0x02 \<or> ty = CHR 0x03 then unpackmreq_part msg sz
        else if ty = CHR 0x04 then unpacktrace msg sz
        else if ty = CHR 0x80 then unpackreq_string msg sz
        else if ty = CHR 0x81 then unpackmreq_string msg sz False
        else if ty = CHR 0xc1 then unpackmreq_string msg sz True
        else Some (Inl (Invalid_package_type ty)) })"

definition lunpackrequest :: "lua_value \<Rightarrow> u64 \<Rightarrow> (cl_error + lua_value list) option" where
  "lunpackrequest arg1 arg2 =
     (case arg1 of
        VPtr (Some msg) \<Rightarrow> unpack_bytes msg (sint (ucast arg2 :: cint))
      | VPtr None \<Rightarrow> (if (ucast arg2 :: cint) = 0 then Some (Inl Invalid_package_size) else None)
      | VStr msg \<Rightarrow> unpack_bytes msg (sint (word_of_nat (length msg) :: cint))
      | _ \<Rightarrow> Some (Inl Bad_argument))"

subsection \<open>Responses\<close>

text \<open>The loop over the parts of a response, whose counter of bytes is a \<open>size_t\<close>.\<close>

fun resp_loop :: "nat \<Rightarrow> u32 \<Rightarrow> string \<Rightarrow> size_t \<Rightarrow> string list option" where
  "resp_loop 0 session ptr sz = Some []"
| "resp_loop (Suc n) session ptr sz = do {
     let (s, ty) = (if sz > ucast MULTI_PART then (MULTI_PART, CHR 0x03) else (ucast sz, CHR 0x04));
     header \<leftarrow> fill_header (s + 5);
     content \<leftarrow> read_mem ptr 0 (sint s);
     buf \<leftarrow> push_buf (header @ fill_uint32 session @ [ty] @ content);
     bufs \<leftarrow> resp_loop n session (drop (nat (sint s)) ptr) (sz - scast s);
     Some (buf # bufs) }"

text \<open>The result is a string, or a table of strings.\<close>

definition pack_response :: "u32 \<Rightarrow> bool \<Rightarrow> string \<Rightarrow> size_t \<Rightarrow> (string + string list) option" where
  "pack_response session ok msg sz =
     (if ok \<and> sz > ucast MULTI_PART then do {
        let part = (ucast ((sz - 1) div ucast MULTI_PART + 1) :: cint);
        header \<leftarrow> fill_header 9;
        buf \<leftarrow> push_buf (header @ fill_uint32 session @ [CHR 0x02] @ fill_uint32 (ucast sz));
        bufs \<leftarrow> resp_loop (nat (sint part)) session msg sz;
        Some (Inr (buf # bufs)) }
      else do {
        let sz = (if \<not> ok \<and> sz > ucast MULTI_PART then ucast MULTI_PART else sz);
        header \<leftarrow> fill_header (ucast (sz + 5));
        content \<leftarrow> read_mem msg 0 (uint sz);
        buf \<leftarrow> push_buf (header @ fill_uint32 session @ [if ok then CHR 0x01 else CHR 0x00] @ content);
        Some (Inl buf) })"

definition lpackresponse :: "u64 \<Rightarrow> bool \<Rightarrow> lua_value \<Rightarrow> u64 \<Rightarrow> (string + string list) option" where
  "lpackresponse session ok arg3 arg4 =
     (case arg3 of
        VStr s \<Rightarrow> pack_response (ucast session) ok s (word_of_nat (length s))
      | _ \<Rightarrow> pack_response (ucast session) ok (case lua_touserdata arg3 of None \<Rightarrow> [] | Some msg \<Rightarrow> msg) arg4)"

definition lunpackresponse :: "string \<Rightarrow> lua_value list option" where
  "lunpackresponse buf =
     (let sz = int (length buf)
      in if sz < 5 then Some []
         else do {
           session \<leftarrow> unpack_uint32 buf 0;
           b \<leftarrow> read_mem buf 4 1;
           let ty = b ! 0;
           if ty = CHR 0x00 then do {
             str \<leftarrow> read_mem buf 5 (sz - 5);
             Some [VInt (ucast session), VBool False, VStr str] }
           else if ty = CHR 0x01 \<or> ty = CHR 0x04 then do {
             str \<leftarrow> read_mem buf 5 (sz - 5);
             Some [VInt (ucast session), VBool True, VStr str] }
           else if ty = CHR 0x02 then
             (if sz \<noteq> 9 then Some []
              else do {
                size \<leftarrow> unpack_uint32 buf 5;
                Some [VInt (ucast session), VBool True, VInt (ucast size), VBool True] })
           else if ty = CHR 0x03 then do {
             str \<leftarrow> read_mem buf 5 (sz - 5);
             Some [VInt (ucast session), VBool True, VStr str, VBool True] }
           else Some [] })"

subsection \<open>Collecting the parts\<close>

text \<open>
  A table is the list of its values from index 1 on. \<open>lappend\<close> of a block appends its bytes as a
  string. \<open>lconcat\<close> returns no value when the table is not a size and strings of that size.
\<close>

definition lappend :: "lua_value list \<Rightarrow> lua_value \<Rightarrow> lua_value \<Rightarrow> (cl_error + lua_value list) option" where
  "lappend t arg2 arg3 =
     (if arg2 = VNil then Some (Inr (if arg3 = VNil then t else t @ [arg3]))
      else case lua_touserdata arg2 of
        None \<Rightarrow> Some (Inl Need_lightuserdata)
      | Some buffer \<Rightarrow>
          (case arg3 of
             VInt sz \<Rightarrow> do {
               str \<leftarrow> read_mem buffer 0 (sint (ucast sz :: cint));
               Some (Inr (t @ [VStr str])) }
           | _ \<Rightarrow> Some (Inl Bad_argument)))"

fun concat_loop :: "lua_value list \<Rightarrow> string \<Rightarrow> int \<Rightarrow> string option" where
  "concat_loop (VStr str # t) buff sz =
     (if int (length str) + int (length buff) > sz then None else concat_loop t (buff @ str) sz)"
| "concat_loop _ buff sz = (if int (length buff) \<noteq> sz then None else Some buff)"

definition lconcat :: "lua_value list \<Rightarrow> (lua_value list) option" where
  "lconcat t =
     (case t of
        VInt n # strs \<Rightarrow>
          (let sz = sint (ucast n :: cint)
           in if sz < 0 then None
              else case concat_loop strs [] sz of
                None \<Rightarrow> Some []
              | Some buff \<Rightarrow> Some [VPtr (Some buff), VInt (word_of_int sz)])
      | _ \<Rightarrow> Some [])"

fun lisname :: "lua_value \<Rightarrow> bool" where
  "lisname (VStr name) \<longleftrightarrow> name \<noteq> [] \<and> hd name = CHR ''@''"
| "lisname _ \<longleftrightarrow> False"

subsection \<open>The receiver of requests\<close>

text \<open>
  The local variables of the script: the large requests that are not complete and the tag of the
  trace. \<open>dispatch_request\<close> is the part of the function that puts a request together; its
  outcome is nothing yet, the answer to a large request that is not complete, or the request that
  the rest of the function sends to the service.
\<close>

record large_request =
  lr_addr :: lua_value
  lr_push :: lua_value
  lr_trace :: lua_value
  lr_parts :: "lua_value list"

record cluster_agent =
  ag_large :: "lua_value \<Rightarrow> large_request option"
  ag_trace :: lua_value

datatype ag_event =
    Ag_none
  | Ag_invalid "string + string list"
  | Ag_request lua_value lua_value lua_value lua_value bool lua_value

definition new_agent :: cluster_agent where
  "new_agent = \<lparr>ag_large = (\<lambda>_. None), ag_trace = VNil\<rparr>"

definition arg :: "lua_value list \<Rightarrow> nat \<Rightarrow> lua_value" where
  "arg vs i = (if i < length vs then vs ! i else VNil)"

definition truthy :: "lua_value \<Rightarrow> bool" where
  "truthy v \<longleftrightarrow> v \<noteq> VNil \<and> v \<noteq> VBool False"

definition invalid_large :: "cluster_agent \<Rightarrow> lua_value \<Rightarrow> ((cl_error + ag_event) \<times> cluster_agent) option" where
  "invalid_large ag session =
     (case session of
        VInt s \<Rightarrow> do {
          response \<leftarrow> lpackresponse s False (VStr ''Invalid large req'') 0;
          Some (Inr (Ag_invalid response), ag\<lparr>ag_trace := VNil\<rparr>) }
      | _ \<Rightarrow> Some (Inl Bad_argument, ag\<lparr>ag_trace := VNil\<rparr>))"

definition dispatch_request :: "cluster_agent \<Rightarrow> lua_value list \<Rightarrow> ((cl_error + ag_event) \<times> cluster_agent) option" where
  "dispatch_request ag vs =
     (let addr = arg vs 0; session = arg vs 1; msg = arg vs 2; sz = arg vs 3; padding = arg vs 4; is_push = arg vs 5
      in if session = VNil then Some (Inr Ag_none, ag\<lparr>ag_trace := addr\<rparr>)
         else if truthy padding then do {
           let req = (case ag_large ag session of
                        Some req \<Rightarrow> req
                      | None \<Rightarrow> \<lparr>lr_addr = addr, lr_push = is_push, lr_trace = ag_trace ag, lr_parts = []\<rparr>);
           let ag = ag\<lparr>ag_trace := VNil, ag_large := (ag_large ag)(session \<mapsto> req)\<rparr>;
           r \<leftarrow> lappend (lr_parts req) msg sz;
           case r of
             Inl e \<Rightarrow> Some (Inl e, ag)
           | Inr parts \<Rightarrow> Some (Inr Ag_none, ag\<lparr>ag_large := (ag_large ag)(session \<mapsto> req\<lparr>lr_parts := parts\<rparr>)\<rparr>) }
         else (case ag_large ag session of
           Some req \<Rightarrow> do {
             let ag = ag\<lparr>ag_trace := lr_trace req, ag_large := (ag_large ag)(session := None)\<rparr>;
             r \<leftarrow> lappend (lr_parts req) msg sz;
             case r of
               Inl e \<Rightarrow> Some (Inl e, ag)
             | Inr parts \<Rightarrow> do {
                 ms \<leftarrow> lconcat parts;
                 if \<not> truthy (arg ms 0) then invalid_large ag session
                 else Some (Inr (Ag_request (lr_addr req) session (arg ms 0) (arg ms 1) (truthy (lr_push req)) (ag_trace ag)), ag) } }
         | None \<Rightarrow>
             (if \<not> truthy msg then invalid_large ag session
              else Some (Inr (Ag_request addr session msg sz (truthy is_push) (ag_trace ag)), ag))))"

text \<open>
  The agent of a connection gets the packages that the gate forwards: each one is unpacked and
  dispatched; an error ends the handling of its package only. The rest of \<open>dispatch_request\<close>
  changes none of the two variables, except that the tag is cleared when a traced call has returned;
  other packages are handled while the call waits.
\<close>

definition agent_package :: "cluster_agent \<Rightarrow> netpack \<Rightarrow> ((cl_error + ag_event) \<times> cluster_agent) option" where
  "agent_package ag p = do {
     r \<leftarrow> lunpackrequest (VPtr (Some (np_buffer p))) (word_of_nat (np_size p));
     case r of
       Inl e \<Rightarrow> Some (Inl e, ag)
     | Inr vs \<Rightarrow> dispatch_request ag vs }"

definition traced_call_returned :: "cluster_agent \<Rightarrow> cluster_agent" where
  "traced_call_returned ag = ag\<lparr>ag_trace := VNil\<rparr>"

subsection \<open>The receiver of responses\<close>

text \<open>
  A socket channel in the mode where the responses carry a session. A coroutine is a number;
  \<open>ch_thread\<close> has the coroutine that waits for a session, \<open>ch_result\<close> and \<open>ch_data\<close> what was stored
  for a coroutine (\<open>One VNil\<close> is an absent entry of \<open>__result_data\<close>).
\<close>

datatype ch_result = Result lua_value | Socket_error
datatype ch_data = One lua_value | Many "lua_value list"

record channel =
  ch_open :: bool
  ch_thread :: "lua_value \<Rightarrow> nat option"
  ch_result :: "nat \<Rightarrow> ch_result"
  ch_data :: "nat \<Rightarrow> ch_data"

datatype ch_event = Ch_none | Ch_wake nat | Ch_unknown lua_value | Ch_wakeup_all

definition has_data :: "ch_data \<Rightarrow> bool" where
  "has_data d \<longleftrightarrow> (case d of One v \<Rightarrow> truthy v | Many _ \<Rightarrow> True)"

text \<open>\<open>table.insert\<close> into what is stored for a coroutine fails unless it is a table.\<close>

definition insert_data :: "ch_data \<Rightarrow> lua_value \<Rightarrow> ch_data option" where
  "insert_data d v = (case d of Many vs \<Rightarrow> Some (Many (vs @ [v])) | One _ \<Rightarrow> None)"

definition wakeup_all :: "channel \<Rightarrow> channel" where
  "wakeup_all ch =
     (let woken = ran (ch_thread ch)
      in ch\<lparr>ch_thread := (\<lambda>_. None), ch_result := (\<lambda>co. if co \<in> woken then Socket_error else ch_result ch co),
           ch_data := (\<lambda>co. if co \<in> woken then One VNil else ch_data ch co)\<rparr>)"

text \<open>One round of \<open>dispatch_by_session\<close>, for the values that \<open>response\<close> returned.\<close>

definition dispatch_by_session :: "channel \<Rightarrow> lua_value list \<Rightarrow> (ch_event \<times> channel) option" where
  "dispatch_by_session ch vs =
     (let session = arg vs 0; result_ok = arg vs 1; result_data = arg vs 2; padding = arg vs 3
      in if truthy session then
           (case ch_thread ch session of
              Some co \<Rightarrow>
                (if truthy padding \<and> truthy result_ok then do {
                   let result = (if has_data (ch_data ch co) then ch_data ch co else Many []);
                   result \<leftarrow> insert_data result result_data;
                   Some (Ch_none, ch\<lparr>ch_data := (ch_data ch)(co := result)\<rparr>) }
                 else do {
                   let ch = ch\<lparr>ch_thread := (ch_thread ch)(session := None), ch_result := (ch_result ch)(co := Result result_ok)\<rparr>;
                   data \<leftarrow> (if truthy result_ok \<and> has_data (ch_data ch co) then insert_data (ch_data ch co) result_data
                            else Some (One result_data));
                   Some (Ch_wake co, ch\<lparr>ch_data := (ch_data ch)(co := data)\<rparr>) })
            | None \<Rightarrow> Some (Ch_unknown session, ch\<lparr>ch_thread := (ch_thread ch)(session := None)\<rparr>))
         else Some (Ch_wakeup_all, wakeup_all (ch\<lparr>ch_open := False\<rparr>)))"

text \<open>\<open>socket.header\<close>: a big-endian number of one to four bytes.\<close>

definition lheader :: "string \<Rightarrow> u64 option" where
  "lheader s =
     (if length s > 4 \<or> length s < 1 then None
      else Some (foldl (\<lambda>sz c. push_bit 8 sz OR of_char c) 0 s))"

text \<open>
  The bytes that have arrived for the channel: \<open>read_response\<close> waits until the two bytes of the
  size and that many more are there, so \<open>sender_loop\<close> goes on as long as they are. Its result has
  the bytes that are left.
\<close>

definition ready :: "string \<Rightarrow> nat option" where
  "ready stream =
     (if length stream < 2 then None
      else case lheader (take 2 stream) of
        None \<Rightarrow> None
      | Some sz \<Rightarrow> (if length stream < 2 + unat sz then None else Some (unat sz)))"

function sender_loop :: "channel \<Rightarrow> string \<Rightarrow> (ch_event list \<times> channel \<times> string) option" where
  "sender_loop ch stream =
     (if \<not> ch_open ch then Some ([], ch, stream)
      else case ready stream of
        None \<Rightarrow> Some ([], ch, stream)
      | Some sz \<Rightarrow> do {
          vs \<leftarrow> lunpackresponse (take sz (drop 2 stream));
          (ev, ch) \<leftarrow> dispatch_by_session ch vs;
          (evs, ch, rest) \<leftarrow> sender_loop ch (drop (2 + sz) stream);
          Some (ev # evs, ch, rest) })"
  by pat_completeness auto
termination
  by (relation "measure (\<lambda>(ch, stream). length stream)") (auto simp: ready_def split: if_splits option.splits)

declare sender_loop.simps [simp del]

text \<open>
  \<open>wait_for_response\<close> of a coroutine that was woken: the data, or \<open>Inl\<close> and the value of the error
  that is raised. \<open>command.req\<close> answers with the values that \<open>skynet.ret\<close> sends; \<open>Inl\<close> is the
  error that it logs before it lets the call fail.
\<close>

definition wait_for_response :: "channel \<Rightarrow> nat \<Rightarrow> (ch_data + ch_data) \<times> channel" where
  "wait_for_response ch co =
     ((case ch_result ch co of
         Result v \<Rightarrow> (if truthy v then Inr (ch_data ch co) else Inl (ch_data ch co))
       | Socket_error \<Rightarrow> Inl (ch_data ch co)),
      ch\<lparr>ch_result := (ch_result ch)(co := Result VNil), ch_data := (ch_data ch)(co := One VNil)\<rparr>)"

definition command_req :: "ch_data + ch_data \<Rightarrow> (ch_data + lua_value list) option" where
  "command_req r =
     (case r of
        Inl err \<Rightarrow> Some (Inl err)
      | Inr (Many msg) \<Rightarrow> map_option Inr (lconcat msg)
      | Inr (One msg) \<Rightarrow> Some (Inr [msg]))"

text \<open>The session of the node for its requests, and what \<open>send_request\<close> and \<open>command.push\<close> write.\<close>

definition cluster_send_request :: "u64 \<Rightarrow> lua_value \<Rightarrow> lua_value \<Rightarrow> u64 \<Rightarrow> (cl_error + string list \<times> u64) option" where
  "cluster_send_request session addr msg sz = do {
     r \<leftarrow> lpackrequest addr session msg sz;
     case r of
       Inl e \<Rightarrow> Some (Inl e)
     | Inr (request, new_session, padding) \<Rightarrow>
         Some (Inr (request # (case padding of None \<Rightarrow> [] | Some parts \<Rightarrow> parts), ucast new_session)) }"

definition command_push :: "u64 \<Rightarrow> lua_value \<Rightarrow> lua_value \<Rightarrow> u64 \<Rightarrow> (cl_error + string list \<times> u64) option" where
  "command_push session addr msg sz = do {
     r \<leftarrow> lpackpush addr session msg sz;
     case r of
       Inl e \<Rightarrow> Some (Inl e)
     | Inr (request, new_session, padding) \<Rightarrow>
         Some (Inr (case padding of None \<Rightarrow> ([request], session) | Some parts \<Rightarrow> (request # parts, ucast new_session))) }"

end
