(* ===== verification/Skynet_Cluster_Link.thy ===== *)
theory Skynet_Cluster_Link
  imports Skynet_Cluster
begin

text \<open>
  What the cluster protocol guarantees: the frames of requests and responses have the documented
  layout (\<open>short_body\<close>, \<open>head_body\<close>, \<open>part_body\<close>, \<open>resp_body\<close>), and every request and every response
  arrives whole, however the frames of different ones mix on the connection and however the stream
  is cut by the reads.
\<close>

subsection \<open>Bytes\<close>

lemma length_fill_uint32 [simp]: "length (fill_uint32 n) = 4"
  by (simp add: fill_uint32_def)

lemma read_mem_middle:
  "length pre = off \<Longrightarrow> int (length m) = n \<Longrightarrow> read_mem (pre @ m @ post) off n = Some m"
  by (auto simp: read_mem_def)

lemma read_mem_end:
  "length pre = off \<Longrightarrow> int (length m) = n \<Longrightarrow> read_mem (pre @ m) off n = Some m"
  using read_mem_middle [of pre off m n "[]"] by simp

lemma read_mem_start: "int (length m) = n \<Longrightarrow> read_mem (m @ post) 0 n = Some m"
  using read_mem_middle [of "[]" 0 m n post] by simp

lemma read_mem_take: "n \<le> length mem \<Longrightarrow> read_mem mem 0 (int n) = Some (take n mem)"
  by (simp add: read_mem_def)

lemma fill_uint32_bytes:
  "of_char (fill_uint32 n ! 0) OR push_bit 8 (of_char (fill_uint32 n ! 1)) OR
     push_bit 16 (of_char (fill_uint32 n ! 2)) OR push_bit 24 (of_char (fill_uint32 n ! 3)) = (n :: u32)"
  using bigendian_bits [of n]
  by (simp add: fill_uint32_def of_char_byte [unfolded low_byte] low_byte or.assoc or.commute or.left_commute del: of_char_of)

lemma unpack_fill_uint32: "length pre = off \<Longrightarrow> unpack_uint32 (pre @ fill_uint32 n @ post) off = Some n"
  using fill_uint32_bytes [of n] by (simp add: unpack_uint32_def read_mem_middle)

lemma unpack_fill_uint32_end: "length pre = off \<Longrightarrow> unpack_uint32 (pre @ fill_uint32 n) off = Some n"
  using unpack_fill_uint32 [of pre off n "[]"] by simp

lemma fill_header_size:
  assumes "n < 0x10000"
  shows "fill_header (word_of_nat n) = Some (write_size n)"
proof -
  have n: "unat (word_of_nat n :: cint) = n" using assms by (simp add: unat_of_nat take_bit_eq_mod)
  have s: "sint (word_of_nat n :: cint) = int n" using assms by (simp add: sint_word_of_nat)
  have d: "(signed_drop_bit k (word_of_nat n) :: cint) = drop_bit k (word_of_nat n)" if "k \<le> 8" for k
  proof (rule bit_word_eqI)
    fix i assume "i < LENGTH(32)"
    moreover have "\<not> bit (word_of_nat n :: cint) 31"
      using bit_last_iff [of "word_of_nat n :: cint"] s by simp
    ultimately show "bit (signed_drop_bit k (word_of_nat n :: cint)) i = bit (drop_bit k (word_of_nat n :: cint)) i"
      using assms by (auto simp: bit_signed_drop_bit_iff bit_drop_bit_eq bit_simps not_le min_def)
  qed
  have b: "unat (drop_bit k (word_of_nat n :: cint) AND 0xff) = n div 2 ^ k mod 256" for k
  proof -
    have "unat (drop_bit k (word_of_nat n :: cint) AND (2 ^ 8 - 1)) = unat (drop_bit k (word_of_nat n :: cint)) mod 2 ^ 8"
      by (rule and_exp_minus_1)
    then show ?thesis by (simp add: unat_drop_bit n)
  qed
  show ?thesis using assms b [of 0] b [of 8] by (simp add: fill_header_def s d write_size_def)
qed

definition frame :: "string \<Rightarrow> string" where
  "frame body = write_size (length body) @ body"

lemma push_buf_short: "length bs \<le> 0x8200 \<Longrightarrow> push_buf bs = Some bs"
  by (simp add: push_buf_def TEMP_LENGTH_def)

lemma length_write_size [simp]: "length (write_size n) = 2"
  by (simp add: write_size_def)

lemma frame_built:
  assumes "length body = n" and "n \<le> 0x81fe"
  shows "fill_header (word_of_nat n) = Some (write_size n)" "push_buf (write_size n @ body) = Some (frame body)"
  using assms by (simp_all add: fill_header_size push_buf_short frame_def)

subsection \<open>The layout of requests\<close>

definition addr_bytes :: "lua_value \<Rightarrow> string" where
  "addr_bytes addr = (case addr of VInt n \<Rightarrow> fill_uint32 (ucast n) | VStr name \<Rightarrow> char_of (length name) # name | _ \<Rightarrow> [])"

definition addr_type :: "lua_value \<Rightarrow> char \<Rightarrow> char \<Rightarrow> char" where
  "addr_type addr c d = (case addr of VInt n \<Rightarrow> c | _ \<Rightarrow> d)"

definition short_body :: "lua_value \<Rightarrow> u32 \<Rightarrow> string \<Rightarrow> string" where
  "short_body addr session m = addr_type addr (CHR 0x00) (CHR 0x80) # addr_bytes addr @ fill_uint32 session @ m"

definition head_body :: "lua_value \<Rightarrow> bool \<Rightarrow> u32 \<Rightarrow> u32 \<Rightarrow> string" where
  "head_body addr push session sz =
     (if push then addr_type addr (CHR 0x41) (CHR 0xc1) else addr_type addr (CHR 0x01) (CHR 0x81))
       # addr_bytes addr @ fill_uint32 session @ fill_uint32 sz"

definition part_body :: "char \<Rightarrow> u32 \<Rightarrow> string \<Rightarrow> string" where
  "part_body ty session m = ty # fill_uint32 session @ m"

function part_bodies :: "u32 \<Rightarrow> string \<Rightarrow> string list" where
  "part_bodies session m =
     (if length m > 0x8000 then part_body (CHR 0x02) session (take 0x8000 m) # part_bodies session (drop 0x8000 m)
      else [part_body (CHR 0x03) session m])"
  by pat_completeness auto
termination
  by (relation "measure (\<lambda>(session, m). length m)") auto

declare part_bodies.simps [simp del]

definition good_addr :: "lua_value \<Rightarrow> bool" where
  "good_addr addr \<longleftrightarrow> (case addr of VInt n \<Rightarrow> True | VStr name \<Rightarrow> 1 \<le> length name \<and> length name \<le> 255 | _ \<Rightarrow> False)"

lemma multi_loop_parts:
  assumes "0 < unat sz" and "unat sz \<le> length ptr"
  shows "multi_loop (Suc ((unat sz - 1) div 0x8000)) session ptr sz =
     Some (map frame (part_bodies session (take (unat sz) ptr)))"
  using assms
proof (induction "unat sz" arbitrary: sz ptr rule: less_induct)
  case less
  show ?case
  proof (cases "unat sz \<le> 0x8000")
    case True
    then have c: "\<not> sz > MULTI_PART" by (simp add: MULTI_PART_def word_less_nat_alt)
    have h: "sz + 5 = word_of_nat (unat sz + 5)" by simp
    have k: "(unat sz - 1) div 0x8000 = 0" using True by simp
    let ?m = "take (unat sz) ptr"
    have b: "length (part_body (CHR 0x03) session ?m) = unat sz + 5" using less.prems by (simp add: part_body_def)
    have "fill_header (sz + 5) = Some (write_size (unat sz + 5))"
      "push_buf (write_size (unat sz + 5) @ part_body (CHR 0x03) session ?m) = Some (frame (part_body (CHR 0x03) session ?m))"
      using frame_built [OF b] True unfolding h [symmetric] by simp_all
    moreover have "read_mem ptr 0 (uint sz) = Some ?m" using read_mem_take [OF less.prems(2)] by simp
    ultimately show ?thesis using c k True less.prems by (simp add: part_body_def part_bodies.simps)
  next
    case False
    then have c: "sz > MULTI_PART" by (simp add: MULTI_PART_def word_less_nat_alt)
    let ?sz = "sz - MULTI_PART" and ?m = "take 0x8000 ptr"
    have u: "unat ?sz = unat sz - 0x8000" using c by (simp add: unat_sub word_less_nat_alt MULTI_PART_def word_le_nat_alt)
    have k: "(unat sz - 1) div 0x8000 = Suc ((unat ?sz - 1) div 0x8000)" using False unfolding u by (simp add: le_div_geq)
    have IH: "multi_loop (Suc ((unat ?sz - 1) div 0x8000)) session (drop 0x8000 ptr) ?sz =
      Some (map frame (part_bodies session (take (unat ?sz) (drop 0x8000 ptr))))"
      using False less.prems u by (intro less.hyps) auto
    have "length (part_body (CHR 0x02) session ?m) = 0x8005" using False less.prems by (simp add: part_body_def)
    then have "fill_header (word_of_nat 0x8005) = Some (write_size 0x8005)"
      "push_buf (write_size 0x8005 @ part_body (CHR 0x02) session ?m) = Some (frame (part_body (CHR 0x02) session ?m))"
      by (auto intro: frame_built simp del: of_nat_numeral)
    moreover have "read_mem ptr 0 (uint MULTI_PART) = Some ?m"
      using read_mem_take [of "0x8000" ptr] False less.prems by (simp add: MULTI_PART_def)
    moreover have "part_bodies session (take (unat sz) ptr) = part_body (CHR 0x02) session ?m # part_bodies session (take (unat ?sz) (drop 0x8000 ptr))"
      using False less.prems by (subst part_bodies.simps) (simp add: u take_drop)
    ultimately show ?thesis using c IH unfolding k by (simp add: part_body_def MULTI_PART_def)
  qed
qed

subsection \<open>Packing\<close>

text \<open>A request as it is given to \<open>packrequest\<close>: the message is the first bytes of a block.\<close>

record request =
  rq_addr :: lua_value
  rq_session :: u64
  rq_msg :: string
  rq_sz :: u64
  rq_push :: bool

definition rq_len :: "request \<Rightarrow> nat" where "rq_len r = unat (ucast (rq_sz r) :: u32)"
definition rq_text :: "request \<Rightarrow> string" where "rq_text r = take (rq_len r) (rq_msg r)"
definition rq_short :: "request \<Rightarrow> bool" where "rq_short r \<longleftrightarrow> rq_len r < 0x8000"

text \<open>The session that is sent: a short push has none.\<close>

definition rq_wire :: "request \<Rightarrow> u32" where
  "rq_wire r = (if rq_short r \<and> rq_push r then 0 else ucast (rq_session r))"

definition valid_request :: "request \<Rightarrow> bool" where
  "valid_request r \<longleftrightarrow> good_addr (rq_addr r) \<and> 0 < sint (ucast (rq_session r) :: cint) \<and> rq_len r \<le> length (rq_msg r)"

definition request_bodies :: "request \<Rightarrow> string list" where
  "request_bodies r =
     (if rq_short r then [short_body (rq_addr r) (rq_wire r) (rq_text r)]
      else head_body (rq_addr r) (rq_push r) (rq_wire r) (ucast (rq_sz r)) # part_bodies (rq_wire r) (rq_text r))"

definition next_session :: "u64 \<Rightarrow> u32" where
  "next_session session = (if (ucast session + 1 :: u32) > 0x7fffffff then 1 else ucast session + 1)"

lemma length_rq_text: "valid_request r \<Longrightarrow> length (rq_text r) = rq_len r"
  by (simp add: valid_request_def rq_text_def)

lemma short_less: "rq_short r \<longleftrightarrow> (ucast (rq_sz r) :: u32) < MULTI_PART"
  by (simp add: rq_short_def rq_len_def MULTI_PART_def word_less_nat_alt)

lemma read_text: "valid_request r \<Longrightarrow> read_mem (rq_msg r) 0 (uint (ucast (rq_sz r) :: u32)) = Some (rq_text r)"
  using read_mem_take [of "rq_len r" "rq_msg r"] by (simp add: rq_text_def valid_request_def rq_len_def)

lemma part_count:
  assumes "\<not> (sz :: u32) < MULTI_PART"
  shows "unat ((sz - 1) div MULTI_PART + 1) = Suc ((unat sz - 1) div 0x8000)" "(sz - 1) div MULTI_PART + 1 \<noteq> 0"
proof -
  have ge: "0x8000 \<le> unat sz" using assms by (simp add: MULTI_PART_def word_less_nat_alt)
  then have "unat (sz - 1) = unat sz - 1" by (subst unat_sub) (auto simp: word_le_nat_alt)
  then have d: "unat ((sz - 1) div MULTI_PART) = (unat sz - 1) div 0x8000" by (simp add: unat_div MULTI_PART_def)
  also have "\<dots> < 2 ^ 32 - 1" 
    using unat_u32_less [of sz] ge div_le_dividend [of "unat sz - 1" "0x8000"] by simp
  finally have "unat ((sz - 1) div MULTI_PART) + 1 < 2 ^ 32" by simp
  then show "unat ((sz - 1) div MULTI_PART + 1) = Suc ((unat sz - 1) div 0x8000)"
    using d by (simp add: unat_word_ariths)
  then show "(sz - 1) div MULTI_PART + 1 \<noteq> 0" by auto
qed

lemma packreq_number_frame:
  assumes "valid_request r" and "rq_addr r = VInt n"
  shows "packreq_number n (ucast (rq_session r)) (rq_msg r) (ucast (rq_sz r)) (rq_push r) =
     Some (frame (hd (request_bodies r)), if rq_short r then 0 else (ucast (rq_sz r) - 1) div MULTI_PART + 1)"
proof (cases "rq_short r")
  case True
  let ?b = "short_body (rq_addr r) (rq_wire r) (rq_text r)"
  have b: "length ?b = rq_len r + 9" using assms by (simp add: short_body_def addr_bytes_def length_rq_text)
  have h: "(ucast (rq_sz r) :: u32) + 9 = word_of_nat (rq_len r + 9)" by (simp add: rq_len_def)
  have "fill_header ((ucast (rq_sz r) :: u32) + 9) = Some (write_size (rq_len r + 9))"
    "push_buf (write_size (rq_len r + 9) @ ?b) = Some (frame ?b)"
    using frame_built [OF b] True unfolding h [symmetric] by (simp_all add: rq_short_def)
  then show ?thesis using True assms(2) read_text [OF assms(1)] unfolding short_less
    by (simp add: packreq_number_def request_bodies_def short_body_def addr_bytes_def addr_type_def rq_wire_def short_less)
next
  case False
  let ?b = "head_body (rq_addr r) (rq_push r) (rq_wire r) (ucast (rq_sz r))"
  have b: "length ?b = 13" using assms by (simp add: head_body_def addr_bytes_def)
  have "fill_header 13 = Some (write_size 13)" "push_buf (write_size 13 @ ?b) = Some (frame ?b)"
    using frame_built [OF b] by simp_all
  then show ?thesis using False assms(2) unfolding short_less
    by (auto simp add: packreq_number_def request_bodies_def head_body_def addr_bytes_def addr_type_def rq_wire_def short_less)
qed

lemma packreq_string_frame:
  assumes "valid_request r" and "rq_addr r = VStr name"
  shows "packreq_string (VStr name) (ucast (rq_session r)) (rq_msg r) (ucast (rq_sz r)) (rq_push r) =
     Some (Inr (frame (hd (request_bodies r)), if rq_short r then 0 else (ucast (rq_sz r) - 1) div MULTI_PART + 1))"
proof -
  have n: "1 \<le> length name" "length name \<le> 255" "\<not> length name < 1" "\<not> length name > 255"
    using assms by (auto simp: valid_request_def good_addr_def not_less)
  show ?thesis
  proof (cases "rq_short r")
    case True
    let ?b = "short_body (rq_addr r) (rq_wire r) (rq_text r)" and ?n = "rq_len r + 6 + length name"
    have b: "length ?b = ?n" using assms by (simp add: short_body_def addr_bytes_def length_rq_text)
    have "fill_header (word_of_nat ?n) = Some (write_size ?n)" "push_buf (write_size ?n @ ?b) = Some (frame ?b)"
      using frame_built [OF b] True n(2) by (simp_all add: rq_short_def del: of_nat_add)
    then show ?thesis using True assms(2) read_text [OF assms(1)] n(3,4) unfolding short_less
      by (simp add: packreq_string_def request_bodies_def short_body_def addr_bytes_def addr_type_def rq_wire_def short_less rq_len_def del: of_nat_add)
  next
    case False
    let ?b = "head_body (rq_addr r) (rq_push r) (rq_wire r) (ucast (rq_sz r))" and ?n = "10 + length name"
    have b: "length ?b = ?n" using assms by (simp add: head_body_def addr_bytes_def)
    have "fill_header (word_of_nat ?n) = Some (write_size ?n)" "push_buf (write_size ?n @ ?b) = Some (frame ?b)"
      using frame_built [OF b] n(2) by (simp_all del: of_nat_add)
    then show ?thesis using False assms(2) n(3,4) unfolding short_less
      by (auto simp add: packreq_string_def request_bodies_def head_body_def addr_bytes_def addr_type_def rq_wire_def short_less simp del: of_nat_add)
  qed
qed

lemma packrequest_frames:
  assumes "valid_request r"
  shows "packrequest (rq_addr r) (rq_session r) (VPtr (Some (rq_msg r))) (rq_sz r) (rq_push r) =
     Some (Inr (frame (hd (request_bodies r)), next_session (rq_session r),
       if rq_short r then None else Some (map frame (tl (request_bodies r)))))"
proof -
  let ?k = "if rq_short r then 0 else (ucast (rq_sz r) - 1) div MULTI_PART + 1 :: u32"
  have first: "(case rq_addr r of VInt n \<Rightarrow> map_option Inr (packreq_number n (ucast (rq_session r)) (rq_msg r) (ucast (rq_sz r)) (rq_push r))
      | _ \<Rightarrow> packreq_string (rq_addr r) (ucast (rq_session r)) (rq_msg r) (ucast (rq_sz r)) (rq_push r)) =
    Some (Inr (frame (hd (request_bodies r)), ?k))"
    using assms packreq_number_frame [OF assms] packreq_string_frame [OF assms]
    by (cases "rq_addr r") (auto simp: valid_request_def good_addr_def)
  have multi: "packreq_multi (ucast (rq_session r)) (rq_msg r) (ucast (rq_sz r)) = Some (map frame (tl (request_bodies r)))"
    if "\<not> rq_short r"
  proof -
    have "0 < rq_len r" "rq_len r \<le> length (rq_msg r)" using that assms by (auto simp: rq_short_def valid_request_def)
    then show ?thesis using multi_loop_parts [of "ucast (rq_sz r)" "rq_msg r"] part_count(1) that
      by (simp add: packreq_multi_def short_less request_bodies_def rq_wire_def rq_text_def rq_len_def)
  qed
  have s: "\<not> sint (ucast (rq_session r) :: cint) \<le> 0" using assms by (simp add: valid_request_def)
  show ?thesis
  proof (cases "rq_short r")
    case True
    then show ?thesis using first s by (simp add: packrequest_def next_session_def Let_def)
  next
    case False
    then have "?k \<noteq> 0" using part_count(2) by (simp add: short_less)
    then show ?thesis using first s multi [OF False] False by (simp add: packrequest_def next_session_def Let_def)
  qed
qed

subsection \<open>Unpacking\<close>

definition shown_addr :: "lua_value \<Rightarrow> lua_value" where
  "shown_addr addr = (case addr of VInt n \<Rightarrow> VInt (ucast (ucast n :: u32)) | _ \<Rightarrow> addr)"

definition shown_text :: "string \<Rightarrow> lua_value list" where
  "shown_text m = [VPtr (Some m), VInt (word_of_nat (length m))]"

lemma read_first [simp]: "read_mem (c # bs) 0 1 = Some [c]"
  by (simp add: read_mem_def)

lemma read_second [simp]: "read_mem (c # d # bs) (Suc 0) 1 = Some [d]"
  by (simp add: read_mem_def)

lemma return_buffer_end:
  "length pre = off \<Longrightarrow> int (length m) = n \<Longrightarrow> return_buffer (pre @ m) off n = Some (shown_text m)"
  by (auto simp: return_buffer_def read_mem_end shown_text_def)

text \<open>The places of the fields behind an address that is a number, and behind a name.\<close>

lemma number_fields:
  "unpack_uint32 (c # fill_uint32 a @ fill_uint32 s @ rest) 1 = Some a"
  "unpack_uint32 (c # fill_uint32 a @ fill_uint32 s @ rest) 5 = Some s"
  "unpack_uint32 (c # fill_uint32 a @ fill_uint32 s @ fill_uint32 n) 9 = Some n"
  "int (length rest) = k \<Longrightarrow> return_buffer (c # fill_uint32 a @ fill_uint32 s @ rest) 9 k = Some (shown_text rest)"
  using unpack_fill_uint32 [of "[c]" 1 a "fill_uint32 s @ rest"] unpack_fill_uint32 [of "c # fill_uint32 a" 5 s rest]
    unpack_fill_uint32_end [of "c # fill_uint32 a @ fill_uint32 s" 9 n]
    return_buffer_end [of "c # fill_uint32 a @ fill_uint32 s" 9 rest k] by simp_all

lemma name_fields:
  assumes "length name = n"
  shows "read_mem (c # d # name @ fill_uint32 s @ rest) 2 (int n) = Some name"
    "unpack_uint32 (c # d # name @ fill_uint32 s @ rest) (Suc (Suc n)) = Some s"
    "unpack_uint32 (c # d # name @ fill_uint32 s @ fill_uint32 z) (n + 6) = Some z"
    "int (length rest) = k \<Longrightarrow> return_buffer (c # d # name @ fill_uint32 s @ rest) (6 + n) k = Some (shown_text rest)"
  using read_mem_middle [of "[c, d]" 2 name "int n" "fill_uint32 s @ rest"] unpack_fill_uint32 [of "c # d # name" "Suc (Suc n)" s rest]
    unpack_fill_uint32_end [of "c # d # name @ fill_uint32 s" "n + 6" z]
    return_buffer_end [of "c # d # name @ fill_uint32 s" "6 + n" rest k] assms by simp_all

lemma part_fields:
  "unpack_uint32 (c # fill_uint32 s @ rest) 1 = Some s"
  "int (length rest) = k \<Longrightarrow> return_buffer (c # fill_uint32 s @ rest) 5 k = Some (shown_text rest)"
  using unpack_fill_uint32 [of "[c]" 1 s rest] return_buffer_end [of "c # fill_uint32 s" 5 rest k] by simp_all

lemma name_length: "good_addr (VStr name) \<Longrightarrow> (of_char (char_of (length name) :: char) :: nat) = length name"
  by (simp add: good_addr_def take_bit_eq_mod)

lemma unpack_short:
  assumes "good_addr addr"
  shows "unpack_bytes (short_body addr s m) (int (length (short_body addr s m))) =
     Some (Inr ([shown_addr addr, VInt (ucast s)] @ shown_text m @ (if s = 0 then [VNil, VBool True] else [])))"
proof (cases addr)
  case (VInt n)
  then show ?thesis
    by (simp add: short_body_def addr_bytes_def addr_type_def shown_addr_def unpack_bytes_def unpackreq_number_def number_fields [unfolded One_nat_def])
next
  case (VStr name)
  note n = name_length [OF assms [unfolded VStr]] and f = name_fields [OF refl]
  show ?thesis using VStr
    by (simp add: short_body_def addr_bytes_def addr_type_def shown_addr_def unpack_bytes_def unpackreq_string_def n f Let_def
        del: of_char_of)
qed (use assms in \<open>simp_all add: good_addr_def\<close>)

lemma unpack_head:
  assumes "good_addr addr"
  shows "unpack_bytes (head_body addr push s n) (int (length (head_body addr push s n))) =
     Some (Inr [shown_addr addr, VInt (ucast s), VNil, VInt (ucast n), VBool True, VBool push])"
proof (cases addr)
  case (VInt k)
  then show ?thesis
    by (cases push) (simp_all add: head_body_def addr_bytes_def addr_type_def shown_addr_def unpack_bytes_def unpackmreq_number_def number_fields [unfolded One_nat_def])
next
  case (VStr name)
  note n = name_length [OF assms [unfolded VStr]] and f = name_fields [OF refl]
  show ?thesis using VStr
    by (cases push) (simp_all add: head_body_def addr_bytes_def addr_type_def shown_addr_def unpack_bytes_def unpackmreq_string_def n f Let_def
        del: of_char_of)
qed (use assms in \<open>simp_all add: good_addr_def\<close>)

lemma unpack_part:
  assumes "ty = CHR 0x02 \<or> ty = CHR 0x03"
  shows "unpack_bytes (part_body ty s m) (int (length (part_body ty s m))) =
     Some (Inr ([VBool False, VInt (ucast s)] @ shown_text m @ [VBool (ty = CHR 0x02)]))"
  using assms by (auto simp: part_body_def unpack_bytes_def unpackmreq_part_def part_fields [unfolded One_nat_def])

lemma agent_unpack:
  assumes "length b < 65536" and "unpack_bytes b (int (length b)) = Some (Inr vs)"
  shows "agent_package ag (pack_of fd b) = dispatch_request ag vs"
proof -
  have "sint (ucast (word_of_nat (length b) :: u64) :: cint) = int (length b)"
    using assms(1) by (simp add: unsigned_of_nat take_bit_nat_eq_self sint_word_of_nat)
  then show ?thesis using assms(2) by (simp add: agent_package_def lunpackrequest_def pack_of_def)
qed

subsection \<open>Interleavings\<close>

text \<open>\<open>merges xss ys\<close>: \<open>ys\<close> has the elements of all the lists, those of each list in its order.\<close>

fun merges :: "'a list list \<Rightarrow> 'a list \<Rightarrow> bool" where
  "merges xss [] \<longleftrightarrow> (\<forall>xs \<in> set xss. xs = [])"
| "merges xss (y # ys) \<longleftrightarrow> (\<exists>i < length xss. xss ! i \<noteq> [] \<and> hd (xss ! i) = y \<and> merges (xss[i := tl (xss ! i)]) ys)"

lemma merges_set: "merges xss ys \<Longrightarrow> set ys \<subseteq> \<Union> (set ` set xss)"
proof (induction ys arbitrary: xss)
  case (Cons y ys)
  then obtain i where i: "i < length xss" "xss ! i \<noteq> []" "hd (xss ! i) = y" "merges (xss[i := tl (xss ! i)]) ys" by auto
  have "set (tl (xss ! i)) \<subseteq> set (xss ! i)" using i(2) by (auto dest: list.set_sel(2))
  then have "\<Union> (set ` set (xss[i := tl (xss ! i)])) \<subseteq> \<Union> (set ` set xss)"
    using i(1) set_update_subset_insert [of xss i "tl (xss ! i)"] nth_mem [OF i(1)] by fastforce
  moreover have "y \<in> \<Union> (set ` set xss)" using i nth_mem [OF i(1)] hd_in_set by blast
  ultimately show ?case using Cons.IH [OF i(4)] by auto
qed simp

lemma merges_map: "inj_on f (\<Union> (set ` set xss)) \<Longrightarrow> merges (map (map f) xss) zs \<Longrightarrow> \<exists>ys. zs = map f ys \<and> merges xss ys"
proof (induction zs arbitrary: xss)
  case (Cons z zs)
  then obtain i where i: "i < length xss" "xss ! i \<noteq> []" "hd (map f (xss ! i)) = z"
    "merges ((map (map f) xss)[i := tl (map f (xss ! i))]) zs" by auto
  then have "merges (map (map f) (xss[i := tl (xss ! i)])) zs" by (simp add: map_update map_tl)
  moreover have "inj_on f (\<Union> (set ` set (xss[i := tl (xss ! i)])))"
  proof (rule inj_on_subset [OF Cons.prems(1)])
    show "\<Union> (set ` set (xss[i := tl (xss ! i)])) \<subseteq> \<Union> (set ` set xss)"
      using i(1,2) set_update_subset_insert [of xss i "tl (xss ! i)"] nth_mem [OF i(1)]
      by (fastforce dest: list.set_sel(2))
  qed
  ultimately obtain ys where "zs = map f ys" "merges (xss[i := tl (xss ! i)]) ys" using Cons.IH by blast
  then show ?case using i by (intro exI [of _ "hd (xss ! i) # ys"]) (auto simp: hd_map)
qed simp

text \<open>The elements whose list is not used up.\<close>

definition waiting :: "'b list \<Rightarrow> 'a list list \<Rightarrow> 'b list" where
  "waiting rs xss = map fst (filter (\<lambda>(r, xs). xs \<noteq> []) (zip rs xss))"

lemma waiting_update:
  "i < length xss \<Longrightarrow> length rs = length xss \<Longrightarrow> xss ! i \<noteq> [] \<Longrightarrow>
     mset (waiting rs xss) = mset (waiting rs (xss[i := t])) + (if t = [] then {#rs ! i#} else {#})"
proof (induction rs arbitrary: xss i)
  case (Cons r rs)
  obtain xs xss' where x: "xss = xs # xss'" using Cons.prems(2) by (cases xss) auto
  show ?case
  proof (cases i)
    case 0
    then show ?thesis using Cons.prems x by (auto simp: waiting_def)
  next
    case (Suc j)
    then show ?thesis using Cons.IH [of j xss'] Cons.prems x by (auto simp: waiting_def)
  qed
qed simp

subsection \<open>Receiving requests\<close>

definition rq_key :: "request \<Rightarrow> lua_value" where
  "rq_key r = VInt (ucast (rq_wire r))"

text \<open>What the agent is to do with a request.\<close>

definition request_event :: "request \<Rightarrow> ag_event" where
  "request_event r =
     Ag_request (shown_addr (rq_addr r)) (rq_key r) (VPtr (Some (rq_text r))) (VInt (word_of_nat (rq_len r))) (rq_push r) VNil"

definition collecting :: "request \<Rightarrow> string list \<Rightarrow> large_request" where
  "collecting r chunks =
     \<lparr>lr_addr = shown_addr (rq_addr r), lr_push = VBool (rq_push r), lr_trace = VNil,
      lr_parts = VInt (ucast (ucast (rq_sz r) :: u32)) # map VStr chunks\<rparr>"

text \<open>The bodies that are still to come for a request, and its entry of \<open>large_request\<close>.\<close>

definition rq_phase :: "request \<Rightarrow> string list \<Rightarrow> large_request option \<Rightarrow> bool" where
  "rq_phase r bs e \<longleftrightarrow>
     e = None \<and> (bs = request_bodies r \<or> bs = []) \<or>
     \<not> rq_short r \<and> (\<exists>chunks rest. rest \<noteq> [] \<and> concat chunks @ rest = rq_text r \<and>
       bs = part_bodies (rq_wire r) rest \<and> e = Some (collecting r chunks))"

lemma concat_loop_chunks:
  "sz = int (length buff + length (concat chunks)) \<Longrightarrow> concat_loop (map VStr chunks) buff sz = Some (buff @ concat chunks)"
  by (induction chunks arbitrary: buff) simp_all

lemma short_length:
  assumes "length m < 2 ^ 31"
  shows "sint (ucast (word_of_nat (length m) :: u64) :: cint) = int (length m)"
  using assms by (simp add: unsigned_of_nat take_bit_nat_eq_self sint_word_of_nat)

lemma lappend_text:
  assumes "length m < 2 ^ 31"
  shows "lappend t (VPtr (Some m)) (VInt (word_of_nat (length m))) = Some (Inr (t @ [VStr m]))"
  using short_length [OF assms] by (simp add: lappend_def read_mem_def)

lemma lconcat_chunks:
  assumes "unat (n :: u32) = length (concat chunks)" and "unat n < 2 ^ 31"
  shows "lconcat (VInt (ucast n) # map VStr chunks) = Some [VPtr (Some (concat chunks)), VInt (word_of_nat (length (concat chunks)))]"
proof -
  have "(ucast (ucast n :: u64) :: cint) = n" by (rule bit_word_eqI) (simp add: bit_simps)
  moreover have "sint n = int (length (concat chunks))" using assms sint_unat [of n] by (simp add: sint_nonneg_iff)
  ultimately show ?thesis using concat_loop_chunks [of _ "[]" chunks] by (simp add: lconcat_def Let_def)
qed

lemma part_bodies_length:
  "b \<in> set (part_bodies s m) \<Longrightarrow> length b \<le> 0x8005"
  by (induction s m rule: part_bodies.induct) (subst (asm) (2) part_bodies.simps, auto simp: part_body_def split: if_splits)

lemma request_bodies_length:
  assumes "valid_request r" and "b \<in> set (request_bodies r)"
  shows "length b < 65536"
proof -
  have "length (addr_bytes (rq_addr r)) \<le> 256"
    using assms(1) by (auto simp: valid_request_def good_addr_def addr_bytes_def split: lua_value.splits)
  then show ?thesis using assms part_bodies_length [of b "rq_wire r" "rq_text r"] length_rq_text [OF assms(1)]
    by (auto simp: request_bodies_def short_body_def head_body_def rq_short_def split: if_splits)
qed

lemma wire_nonzero:
  assumes "valid_request r" and "\<not> (rq_short r \<and> rq_push r)"
  shows "rq_wire r \<noteq> 0"
  using assms by (auto simp: valid_request_def rq_wire_def)

lemma arg_simps [simp]: "arg (v # vs) 0 = v" "arg (v # vs) (Suc i) = arg vs i" "arg [] i = VNil"
  by (simp_all add: arg_def)

lemma arg_numeral [simp]: "arg (v # vs) (numeral n) = arg vs (pred_numeral n)"
  by (simp add: numeral_eq_Suc)

lemma arg_one [simp]: "arg (v # vs) 1 = arg vs 0"
  by (simp add: arg_def)

lemma truthy_simps [simp]: "truthy (VBool b) = b" "\<not> truthy VNil" "truthy (VPtr p)" "truthy (VInt n)" "truthy (VStr s)"
  by (auto simp: truthy_def)

lemma short_dispatched:
  assumes "valid_request r" and "rq_short r" and "ag_large ag (rq_key r) = None" and "ag_trace ag = VNil"
  shows "agent_package ag (pack_of fd (short_body (rq_addr r) (rq_wire r) (rq_text r))) = Some (Inr (request_event r), ag)"
proof -
  let ?b = "short_body (rq_addr r) (rq_wire r) (rq_text r)"
  have "?b \<in> set (request_bodies r)" using assms(2) by (simp add: request_bodies_def)
  then have l: "length ?b < 65536" by (rule request_bodies_length [OF assms(1)])
  have "good_addr (rq_addr r)" using assms(1) by (simp add: valid_request_def)
  note u = agent_unpack [OF l unpack_short [OF this]]
  have p: "rq_wire r = 0 \<longleftrightarrow> rq_push r" using wire_nonzero [OF assms(1)] assms(2) by (auto simp: rq_wire_def)
  show ?thesis using assms(3,4) p length_rq_text [OF assms(1)] unfolding u
    by (cases "rq_push r") (simp_all add: dispatch_request_def shown_text_def request_event_def rq_key_def Let_def)
qed

lemma head_dispatched:
  assumes "valid_request r" and "\<not> rq_short r" and "ag_large ag (rq_key r) = None" and "ag_trace ag = VNil"
  shows "agent_package ag (pack_of fd (head_body (rq_addr r) (rq_push r) (rq_wire r) (ucast (rq_sz r)))) =
     Some (Inr Ag_none, ag\<lparr>ag_large := (ag_large ag)(rq_key r \<mapsto> collecting r [])\<rparr>)"
proof -
  let ?b = "head_body (rq_addr r) (rq_push r) (rq_wire r) (ucast (rq_sz r))"
  have "?b \<in> set (request_bodies r)" using assms(2) by (simp add: request_bodies_def)
  then have l: "length ?b < 65536" by (rule request_bodies_length [OF assms(1)])
  have "good_addr (rq_addr r)" using assms(1) by (simp add: valid_request_def)
  note u = agent_unpack [OF l unpack_head [OF this]]
  show ?thesis using assms(3,4)
    by (simp add: u dispatch_request_def lappend_def collecting_def rq_key_def Let_def)
qed

lemma part_dispatched:
  assumes "length m \<le> 0x8000" and "ag_large ag (rq_key r) = Some (collecting r chunks)" and "ag_trace ag = VNil"
  shows "agent_package ag (pack_of fd (part_body (CHR 0x02) (rq_wire r) m)) =
     Some (Inr Ag_none, ag\<lparr>ag_large := (ag_large ag)(rq_key r \<mapsto> collecting r (chunks @ [m]))\<rparr>)"
proof -
  have l: "length (part_body (CHR 0x02) (rq_wire r) m) < 65536" using assms(1) by (simp add: part_body_def)
  note u = agent_unpack [OF l unpack_part]
  show ?thesis using assms lappend_text [of m]
    by (simp add: u dispatch_request_def shown_text_def collecting_def rq_key_def Let_def)
qed

lemma last_dispatched:
  assumes "valid_request r" and "rq_len r < 2 ^ 31" and "\<not> rq_short r"
    and "length m \<le> 0x8000" and "concat chunks @ m = rq_text r"
    and "ag_large ag (rq_key r) = Some (collecting r chunks)" and "ag_trace ag = VNil"
  shows "agent_package ag (pack_of fd (part_body (CHR 0x03) (rq_wire r) m)) =
     Some (Inr (request_event r), ag\<lparr>ag_large := (ag_large ag)(rq_key r := None)\<rparr>)"
proof -
  have l: "length (part_body (CHR 0x03) (rq_wire r) m) < 65536" using assms(4) by (simp add: part_body_def)
  note u = agent_unpack [OF l unpack_part]
  have "unat (ucast (rq_sz r) :: u32) = length (concat (chunks @ [m]))"
    using assms(5) length_rq_text [OF assms(1)] by (simp add: rq_len_def)
  then have c: "lconcat (VInt (ucast (ucast (rq_sz r) :: u32)) # map VStr (chunks @ [m])) =
    Some [VPtr (Some (rq_text r)), VInt (word_of_nat (rq_len r))]"
    using lconcat_chunks [of "ucast (rq_sz r)" "chunks @ [m]"] assms(2,5) length_rq_text [OF assms(1)] by (simp add: rq_len_def)
  show ?thesis using assms(4,6,7) lappend_text [of m] c
    by (simp add: u dispatch_request_def shown_text_def collecting_def rq_key_def request_event_def Let_def)
qed

text \<open>One package of a request.\<close>

lemma part_bodies_long: "0x8000 < length m \<Longrightarrow> part_bodies s m = part_body (CHR 0x02) s (take 0x8000 m) # part_bodies s (drop 0x8000 m)"
  by (subst part_bodies.simps) simp

lemma part_bodies_last: "length m \<le> 0x8000 \<Longrightarrow> part_bodies s m = [part_body (CHR 0x03) s m]"
  by (subst part_bodies.simps) simp

lemma part_bodies_nonempty: "part_bodies s m \<noteq> []"
  by (subst part_bodies.simps) simp

lemma collecting_phase:
  assumes "\<not> rq_short r" and "rest \<noteq> []" and "concat chunks @ rest = rq_text r"
  shows "rq_phase r (part_bodies (rq_wire r) rest) (Some (collecting r chunks))"
  using assms by (auto simp: rq_phase_def)

lemma phase_done: "rq_phase r [] e \<Longrightarrow> e = None"
  by (auto simp: rq_phase_def part_bodies_nonempty [symmetric])

lemma phase_step:
  assumes "valid_request r" and "rq_len r < 2 ^ 31" and "ag_trace ag = VNil"
    and "rq_phase r (b # bs) (ag_large ag (rq_key r))"
  shows "\<exists>e. rq_phase r bs e \<and> agent_package ag (pack_of fd b) =
     Some (Inr (if bs = [] then request_event r else Ag_none), ag\<lparr>ag_large := (ag_large ag)(rq_key r := e)\<rparr>)"
proof -
  consider (first) "ag_large ag (rq_key r) = None" "b # bs = request_bodies r"
    | (part) chunks rest where "\<not> rq_short r" "rest \<noteq> []" "concat chunks @ rest = rq_text r"
        "b # bs = part_bodies (rq_wire r) rest" "ag_large ag (rq_key r) = Some (collecting r chunks)"
    using assms(4) by (auto simp: rq_phase_def)
  then show ?thesis
  proof cases
    case first
    show ?thesis
    proof (cases "rq_short r")
      case True
      then have b: "b = short_body (rq_addr r) (rq_wire r) (rq_text r)" "bs = []" using first(2) by (auto simp: request_bodies_def)
      have "ag\<lparr>ag_large := (ag_large ag)(rq_key r := None)\<rparr> = ag" using first(1) by (simp add: fun_upd_idem)
      then show ?thesis using short_dispatched [OF assms(1) True first(1) assms(3)] b by (auto simp: rq_phase_def)
    next
      case False
      then have b: "b = head_body (rq_addr r) (rq_push r) (rq_wire r) (ucast (rq_sz r))" "bs = part_bodies (rq_wire r) (rq_text r)"
        using first(2) by (auto simp: request_bodies_def)
      have "rq_text r \<noteq> []" using False length_rq_text [OF assms(1)] by (auto simp: rq_short_def)
      then have "rq_phase r bs (Some (collecting r []))" using collecting_phase [OF False, of "rq_text r" "[]"] b(2) by simp
      then show ?thesis using head_dispatched [OF assms(1) False first(1) assms(3)] b part_bodies_nonempty by auto
    qed
  next
    case (part chunks rest)
    show ?thesis
    proof (cases "length rest \<le> 0x8000")
      case True
      then have b: "b = part_body (CHR 0x03) (rq_wire r) rest" "bs = []" using part(4) by (auto simp: part_bodies_last)
      then show ?thesis using last_dispatched [OF assms(1,2) part(1) True part(3,5) assms(3)] by (auto simp: rq_phase_def)
    next
      case False
      then have b: "b = part_body (CHR 0x02) (rq_wire r) (take 0x8000 rest)" "bs = part_bodies (rq_wire r) (drop 0x8000 rest)"
        using part(4) by (auto simp: part_bodies_long)
      have "rq_phase r bs (Some (collecting r (chunks @ [take 0x8000 rest])))"
        unfolding b(2) using False part(3) by (intro collecting_phase [OF part(1)]) auto
      then show ?thesis using part_dispatched [OF _ part(5) assms(3), of "take 0x8000 rest"] b part_bodies_nonempty by auto
    qed
  qed
qed

text \<open>The agent handles one package after the other.\<close>

fun agent_run :: "cluster_agent \<Rightarrow> netpack list \<Rightarrow> ((cl_error + ag_event) list \<times> cluster_agent) option" where
  "agent_run ag [] = Some ([], ag)"
| "agent_run ag (p # ps) = do {
     (ev, ag) \<leftarrow> agent_package ag p;
     (evs, ag) \<leftarrow> agent_run ag ps;
     Some (ev # evs, ag) }"

text \<open>The requests, and answers, among the events; errors included.\<close>

definition outcomes :: "(cl_error + ag_event) list \<Rightarrow> (cl_error + ag_event) list" where
  "outcomes evs = filter (\<lambda>ev. ev \<noteq> Inr Ag_none) evs"

definition separate :: "request list \<Rightarrow> bool" where
  "separate rs \<longleftrightarrow> (\<forall>i < length rs. \<forall>j < length rs. i \<noteq> j \<and> rq_wire (rs ! i) \<noteq> 0 \<longrightarrow> rq_wire (rs ! i) \<noteq> rq_wire (rs ! j))"

definition rq_inv :: "request list \<Rightarrow> string list list \<Rightarrow> cluster_agent \<Rightarrow> bool" where
  "rq_inv rs xss ag \<longleftrightarrow> length xss = length rs \<and> ag_trace ag = VNil \<and>
     (\<forall>i < length rs. rq_phase (rs ! i) (xss ! i) (ag_large ag (rq_key (rs ! i))))"

lemma zero_key_phase: "rq_wire r = 0 \<Longrightarrow> valid_request r \<Longrightarrow> rq_phase r bs e \<Longrightarrow> e = None"
  using wire_nonzero [of r] by (auto simp: rq_phase_def)

lemma rq_key_eq: "rq_key r = rq_key r' \<longleftrightarrow> rq_wire r = rq_wire r'"
proof -
  have "(ucast (ucast a :: u64) :: u32) = a" for a :: u32 by (rule bit_word_eqI) (simp add: bit_simps)
  then have "(ucast a :: u64) = ucast b \<longleftrightarrow> a = b" for a b :: u32 by metis
  then show ?thesis by (simp add: rq_key_def)
qed

lemma inv_step:
  assumes "\<forall>r \<in> set rs. valid_request r \<and> rq_len r < 2 ^ 31" and "separate rs" and "rq_inv rs xss ag"
    and "i < length xss" and "xss ! i = b # bs"
  shows "\<exists>e. agent_package ag (pack_of fd b) =
       Some (Inr (if bs = [] then request_event (rs ! i) else Ag_none), ag\<lparr>ag_large := (ag_large ag)(rq_key (rs ! i) := e)\<rparr>) \<and>
     rq_inv rs (xss[i := bs]) (ag\<lparr>ag_large := (ag_large ag)(rq_key (rs ! i) := e)\<rparr>)"
proof -
  have l: "length xss = length rs" "i < length rs" and t: "ag_trace ag = VNil" using assms(3,4) by (auto simp: rq_inv_def)
  have v: "valid_request r \<and> rq_len r < 2 ^ 31" if "r \<in> set rs" for r using that assms(1) by blast
  have ph: "rq_phase (rs ! j) (xss ! j) (ag_large ag (rq_key (rs ! j)))" if "j < length rs" for j
    using assms(3) that by (simp add: rq_inv_def)
  have vi: "valid_request (rs ! i)" "rq_len (rs ! i) < 2 ^ 31" using v l(2) by auto
  have "rq_phase (rs ! i) (b # bs) (ag_large ag (rq_key (rs ! i)))" using ph [OF l(2)] assms(5) by simp
  then obtain e where e: "rq_phase (rs ! i) bs e" "agent_package ag (pack_of fd b) =
     Some (Inr (if bs = [] then request_event (rs ! i) else Ag_none), ag\<lparr>ag_large := (ag_large ag)(rq_key (rs ! i) := e)\<rparr>)"
    using phase_step [OF vi t] by blast
  have "rq_phase (rs ! j) ((xss[i := bs]) ! j) (((ag_large ag)(rq_key (rs ! i) := e)) (rq_key (rs ! j)))" if j: "j < length rs" for j
  proof (cases "j = i")
    case True
    then show ?thesis using e(1) l by simp
  next
    case False
    show ?thesis
    proof (cases "rq_wire (rs ! i) = rq_wire (rs ! j)")
      case True
      then have z: "rq_wire (rs ! i) = 0" using assms(2) l(2) j False unfolding separate_def by metis
      then have "e = None" using zero_key_phase [OF _ vi(1) e(1)] by simp
      moreover have "ag_large ag (rq_key (rs ! j)) = None" using zero_key_phase [OF _ _ ph [OF j]] z True v j by auto
      ultimately show ?thesis using ph [OF j] False True by (simp add: rq_key_eq)
    next
      case False
      then show ?thesis using ph [OF j] l \<open>j \<noteq> i\<close> by (simp add: rq_key_eq)
    qed
  qed
  then show ?thesis using e(2) l t by (intro exI [of _ e]) (simp add: rq_inv_def)
qed

lemma agent_run_merges:
  assumes "\<forall>r \<in> set rs. valid_request r \<and> rq_len r < 2 ^ 31" and "separate rs"
  shows "rq_inv rs xss ag \<Longrightarrow> merges xss bs \<Longrightarrow> \<exists>evs ag'. agent_run ag (map (pack_of fd) bs) = Some (evs, ag') \<and>
     mset (outcomes evs) = image_mset (\<lambda>r. Inr (request_event r)) (mset (waiting rs xss)) \<and>
     rq_inv rs (map (\<lambda>_. []) rs) ag' \<and> (\<forall>k. k \<notin> rq_key ` set rs \<longrightarrow> ag_large ag' k = ag_large ag k)"
proof (induction bs arbitrary: xss ag)
  case Nil
  then have "length xss = length rs" "\<forall>xs \<in> set xss. xs = []" by (auto simp: rq_inv_def)
  then have "xss = map (\<lambda>_. []) rs" by (metis map_replicate_const replicate_length_same)
  moreover have "waiting rs (map (\<lambda>_. []) rs) = []" by (auto simp: waiting_def filter_empty_conv in_set_zip)
  ultimately show ?case using Nil by (simp add: outcomes_def)
next
  case (Cons b bs)
  then obtain i where i: "i < length xss" "xss ! i \<noteq> []" "hd (xss ! i) = b" "merges (xss[i := tl (xss ! i)]) bs" by auto
  let ?t = "tl (xss ! i)"
  have x: "xss ! i = b # ?t" using i by (metis list.collapse)
  have l: "length rs = length xss" using Cons.prems(1) by (simp add: rq_inv_def)
  obtain e where e: "agent_package ag (pack_of fd b) =
       Some (Inr (if ?t = [] then request_event (rs ! i) else Ag_none), ag\<lparr>ag_large := (ag_large ag)(rq_key (rs ! i) := e)\<rparr>)"
    "rq_inv rs (xss[i := ?t]) (ag\<lparr>ag_large := (ag_large ag)(rq_key (rs ! i) := e)\<rparr>)"
    using inv_step [OF assms Cons.prems(1) i(1) x] by blast
  obtain evs ag' where run: "agent_run (ag\<lparr>ag_large := (ag_large ag)(rq_key (rs ! i) := e)\<rparr>) (map (pack_of fd) bs) = Some (evs, ag')"
    "mset (outcomes evs) = image_mset (\<lambda>r. Inr (request_event r)) (mset (waiting rs (xss[i := ?t])))"
    "rq_inv rs (map (\<lambda>_. []) rs) ag'"
    "\<forall>k. k \<notin> rq_key ` set rs \<longrightarrow> ag_large ag' k = ((ag_large ag)(rq_key (rs ! i) := e)) k"
    using Cons.IH [OF e(2) i(4)] by auto
  have "rq_key (rs ! i) \<in> rq_key ` set rs" using i(1) l by auto
  then have "\<forall>k. k \<notin> rq_key ` set rs \<longrightarrow> ag_large ag' k = ag_large ag k" using run(4) by auto
  moreover have "request_event (rs ! i) \<noteq> Ag_none" by (simp add: request_event_def)
  then have "mset (outcomes (Inr (if ?t = [] then request_event (rs ! i) else Ag_none) # evs)) =
     image_mset (\<lambda>r. Inr (request_event r)) (mset (waiting rs xss))"
    using waiting_update [OF i(1) l i(2), of ?t] run(2) by (auto simp: outcomes_def)
  ultimately show ?case using e(1) run(1,3) by simp
qed

subsection \<open>From one node to the other\<close>

text \<open>The frames that a node writes for a request, in their order.\<close>

definition request_frames :: "request \<Rightarrow> string list option" where
  "request_frames r =
     (case (if rq_push r then command_push else cluster_send_request) (rq_session r) (rq_addr r) (VPtr (Some (rq_msg r))) (rq_sz r) of
        Some (Inr (fs, next)) \<Rightarrow> Some fs
      | _ \<Rightarrow> None)"

lemma request_bodies_nonempty: "request_bodies r \<noteq> []"
  by (simp add: request_bodies_def)

lemma request_frames_bodies:
  assumes "valid_request r"
  shows "request_frames r = Some (map frame (request_bodies r))"
  using packrequest_frames [OF assms] request_bodies_nonempty [of r]
  by (cases "rq_push r"; cases "rq_short r"; cases "request_bodies r")
    (auto simp: request_frames_def cluster_send_request_def command_push_def lpackrequest_def lpackpush_def request_bodies_def)

lemma frame_inj: "frame b = frame b' \<longleftrightarrow> b = b'"
  by (auto simp: frame_def write_size_def)

lemma those_map: "\<forall>x \<in> set xs. f x = Some (g x) \<Longrightarrow> those (map f xs) = Some (map g xs)"
  by (induction xs) simp_all

lemma merges_frames:
  assumes "merges (map (map frame) xss) fs"
  obtains bs where "fs = map frame bs" "merges xss bs"
  using merges_map [OF _ assms] by (auto simp: inj_on_def frame_inj)

text \<open>
  C31. Requests between the nodes of a cluster. Take valid requests (a number or a name of 1 to 255
  bytes as address, a positive session, a message of less than 2 GB) whose sessions differ, short
  pushes aside, which are sent without one. Packing them succeeds. However their frames mix on the
  connection, each request in its own order, and whatever the pieces in which the stream is read:
  the packages that \<open>filter_data\<close> and \<open>lpop\<close> deliver make the agent hand over every request exactly
  once, with its address, session, message and kind; there is no other outcome, no error, and no
  entry of a request is left.
\<close>

theorem cluster_requests_arrive:
  assumes "\<forall>r \<in> set rs. valid_request r \<and> rq_len r < 2 ^ 31" and "separate rs"
    and "np_ok q" and "queued q = []" and "held q fd = []"
    and "ag_trace ag = VNil" and "\<forall>r \<in> set rs. ag_large ag (rq_key r) = None"
  shows "\<exists>fss. those (map request_frames rs) = Some fss \<and>
     (\<forall>fs pieces. merges fss fs \<and> concat pieces = concat fs \<and> [] \<notin> set pieces \<longrightarrow>
       (\<exists>nps q' evs ag'. receive q fd pieces = Some (nps, q') \<and> held q' = held q \<and>
          agent_run ag nps = Some (evs, ag') \<and>
          mset (outcomes evs) = mset (map (\<lambda>r. Inr (request_event r)) rs) \<and> ag_large ag' = ag_large ag))"
proof (intro exI [of _ "map (map frame) (map request_bodies rs)"] conjI allI impI)
  show "those (map request_frames rs) = Some (map (map frame) (map request_bodies rs))"
    using assms(1) by (simp add: those_map [where g = "\<lambda>r. map frame (request_bodies r)"] request_frames_bodies o_def)
  fix fs pieces
  assume fs: "merges (map (map frame) (map request_bodies rs)) fs \<and> concat pieces = concat fs \<and> [] \<notin> set pieces"
  then obtain bs where bs: "fs = map frame bs" "merges (map request_bodies rs) bs" using merges_frames by blast
  have "\<forall>b \<in> set bs. length b < 65536" using merges_set [OF bs(2)] request_bodies_length assms(1) by fastforce
  then have "frames (concat pieces) = (bs, [])" using frames_packed [of bs] fs unfolding bs(1) by (simp add: frame_def [abs_def])
  then obtain q' where q': "receive q fd pieces = Some (map (pack_of fd) bs, q')" "held q' = held q"
    using receive_frames [OF assms(3,4), of pieces fd] assms(5) fs by (auto simp: fun_upd_idem)
  have "rq_inv rs (map request_bodies rs) ag" using assms(6,7) by (simp add: rq_inv_def rq_phase_def)
  then obtain evs ag' where run: "agent_run ag (map (pack_of fd) bs) = Some (evs, ag')"
      "mset (outcomes evs) = image_mset (\<lambda>r. Inr (request_event r)) (mset (waiting rs (map request_bodies rs)))"
      "rq_inv rs (map (\<lambda>_. []) rs) ag'" "\<forall>k. k \<notin> rq_key ` set rs \<longrightarrow> ag_large ag' k = ag_large ag k"
    using agent_run_merges [OF assms(1,2) _ bs(2)] by blast
  have "waiting rs (map request_bodies rs) = rs" by (simp add: waiting_def zip_map2 filter_map o_def case_prod_unfold request_bodies_nonempty zip_same_conv_map)
  then have "mset (outcomes evs) = mset (map (\<lambda>r. Inr (request_event r)) rs)" using run(2) by simp
  moreover have "ag_large ag' = ag_large ag"
  proof
    fix k show "ag_large ag' k = ag_large ag k"
    proof (cases "k \<in> rq_key ` set rs")
      case True
      then obtain i where i: "i < length rs" "k = rq_key (rs ! i)" by (auto simp: in_set_conv_nth)
      then have "rq_phase (rs ! i) [] (ag_large ag' k)" using run(3) by (simp add: rq_inv_def)
      then have "ag_large ag' k = None" by (rule phase_done)
      then show ?thesis using assms(7) True by auto
    qed (use run(4) in blast)
  qed
  ultimately show "\<exists>nps q' evs ag'. receive q fd pieces = Some (nps, q') \<and> held q' = held q \<and>
          agent_run ag nps = Some (evs, ag') \<and>
          mset (outcomes evs) = mset (map (\<lambda>r. Inr (request_event r)) rs) \<and> ag_large ag' = ag_large ag"
    using q' run(1) by blast
qed

definition sample_requests :: "request list" where
  "sample_requests =
     [\<lparr>rq_addr = VInt 7, rq_session = 1, rq_msg = replicate 40000 (CHR ''x''), rq_sz = 40000, rq_push = False\<rparr>,
      \<lparr>rq_addr = VStr ''@db'', rq_session = 2, rq_msg = ''get'', rq_sz = 3, rq_push = True\<rparr>,
      \<lparr>rq_addr = VStr ''@db'', rq_session = 2, rq_msg = ''set'', rq_sz = 3, rq_push = False\<rparr>]"

theorem cluster_requests_arrive_witness:
  "\<exists>fss. those (map request_frames sample_requests) = Some fss \<and>
     (\<forall>fs pieces. merges fss fs \<and> concat pieces = concat fs \<and> [] \<notin> set pieces \<longrightarrow>
       (\<exists>nps q' evs ag'. receive None 5 pieces = Some (nps, q') \<and> held q' = held None \<and>
          agent_run new_agent nps = Some (evs, ag') \<and>
          mset (outcomes evs) = mset (map (\<lambda>r. Inr (request_event r)) sample_requests) \<and> ag_large ag' = ag_large new_agent))"
proof (rule cluster_requests_arrive)
  show "\<forall>r \<in> set sample_requests. valid_request r \<and> rq_len r < 2 ^ 31"
    by (simp add: sample_requests_def valid_request_def good_addr_def rq_len_def)
  show "separate sample_requests"
    by (auto simp: sample_requests_def separate_def rq_wire_def rq_short_def rq_len_def less_Suc_eq)
qed (simp_all add: np_ok_def queued_def held_def entry_def new_agent_def)

end
