(* ===== verification/Skynet_Cluster_Reply.thy ===== *)
theory Skynet_Cluster_Reply
  imports Skynet_Cluster_Link
begin

text \<open>
  The way of the responses: \<open>lpackresponse\<close> on the node of the service, \<open>read_response\<close> and
  \<open>dispatch_by_session\<close> on the node of the caller. Every response wakes the coroutine that waits for
  its session once, with the whole message.
\<close>

subsection \<open>The layout of responses\<close>

definition resp_body :: "char \<Rightarrow> u32 \<Rightarrow> string \<Rightarrow> string" where
  "resp_body ty session m = fill_uint32 session @ ty # m"

function resp_bodies :: "u32 \<Rightarrow> string \<Rightarrow> string list" where
  "resp_bodies session m =
     (if length m > 0x8000 then resp_body (CHR 0x03) session (take 0x8000 m) # resp_bodies session (drop 0x8000 m)
      else [resp_body (CHR 0x04) session m])"
  by pat_completeness auto
termination
  by (relation "measure (\<lambda>(session, m). length m)") auto

declare resp_bodies.simps [simp del]

lemma length_resp_body [simp]: "length (resp_body ty s m) = length m + 5"
  by (simp add: resp_body_def)

lemma unat_size: "unat (sz :: size_t) \<le> 0x8000 \<Longrightarrow> unat (ucast sz :: u32) = unat sz"
  by (simp add: unsigned_ucast_eq take_bit_nat_eq_self)

lemma resp_loop_parts:
  assumes "0 < unat sz" and "unat sz \<le> length ptr"
  shows "resp_loop (Suc ((unat sz - 1) div 0x8000)) session ptr sz =
     Some (map frame (resp_bodies session (take (unat sz) ptr)))"
  using assms
proof (induction "unat sz" arbitrary: sz ptr rule: less_induct)
  case less
  show ?case
  proof (cases "unat sz \<le> 0x8000")
    case True
    then have c: "\<not> sz > ucast MULTI_PART" by (simp add: MULTI_PART_def word_less_nat_alt)
    have h: "(ucast sz :: u32) + 5 = word_of_nat (unat sz + 5)" by simp
    have k: "(unat sz - 1) div 0x8000 = 0" using True by simp
    let ?m = "take (unat sz) ptr"
    have b: "length (resp_body (CHR 0x04) session ?m) = unat sz + 5" using less.prems by simp
    have "fill_header ((ucast sz :: u32) + 5) = Some (write_size (unat sz + 5))"
      "push_buf (write_size (unat sz + 5) @ resp_body (CHR 0x04) session ?m) = Some (frame (resp_body (CHR 0x04) session ?m))"
      using frame_built [OF b] True unfolding h [symmetric] by simp_all
    moreover have "sint (ucast sz :: u32) = int (unat sz)"
      using sint_unat [of "ucast sz :: cint"] unat_size [OF True] True by (simp add: sint_nonneg_iff)
    moreover have "read_mem ptr 0 (int (unat sz)) = Some ?m" by (rule read_mem_take [OF less.prems(2)])
    ultimately show ?thesis using c k True less.prems by (simp add: resp_body_def resp_bodies.simps)
  next
    case False
    then have c: "sz > ucast MULTI_PART" by (simp add: MULTI_PART_def word_less_nat_alt)
    let ?sz = "sz - 0x8000" and ?m = "take 0x8000 ptr"
    have u: "unat ?sz = unat sz - 0x8000" using False by (simp add: unat_sub word_le_nat_alt)
    define j where "j = Suc ((unat ?sz - 1) div 0x8000)"
    have k: "(unat sz - 1) div 0x8000 = j" using False unfolding j_def u by (simp add: le_div_geq)
    have IH: "resp_loop j session (drop 0x8000 ptr) ?sz =
      Some (map frame (resp_bodies session (take (unat ?sz) (drop 0x8000 ptr))))"
      unfolding j_def using False less.prems u by (intro less.hyps) auto
    have "length (resp_body (CHR 0x03) session ?m) = 0x8005" using False less.prems by simp
    then have "fill_header (word_of_nat 0x8005) = Some (write_size 0x8005)"
      "push_buf (write_size 0x8005 @ resp_body (CHR 0x03) session ?m) = Some (frame (resp_body (CHR 0x03) session ?m))"
      by (auto intro: frame_built fill_header_size simp del: of_nat_numeral)
    moreover have "read_mem ptr 0 (sint MULTI_PART) = Some ?m"
      using read_mem_take [of "0x8000" ptr] False less.prems by (simp add: MULTI_PART_def)
    moreover have "resp_bodies session (take (unat sz) ptr) = resp_body (CHR 0x03) session ?m # resp_bodies session (take (unat ?sz) (drop 0x8000 ptr))"
      using False less.prems by (subst resp_bodies.simps) (simp add: u take_drop)
    ultimately show ?thesis using c IH unfolding k by (simp add: resp_body_def MULTI_PART_def)
  qed
qed

text \<open>A response as it is given to \<open>lpackresponse\<close>.\<close>

record response =
  rs_session :: u64
  rs_ok :: bool
  rs_msg :: lua_value
  rs_sz :: u64

definition rs_text :: "response \<Rightarrow> string" where
  "rs_text r = (case rs_msg r of VStr s \<Rightarrow> s | VPtr (Some m) \<Rightarrow> take (unat (rs_sz r)) m | _ \<Rightarrow> [])"

definition rs_wire :: "response \<Rightarrow> u32" where "rs_wire r = ucast (rs_session r)"

definition valid_response :: "response \<Rightarrow> bool" where
  "valid_response r \<longleftrightarrow> length (rs_text r) < 2 ^ 31 \<and>
     (case rs_msg r of VStr s \<Rightarrow> True | VPtr (Some m) \<Rightarrow> unat (rs_sz r) \<le> length m | _ \<Rightarrow> False)"

definition rs_large :: "response \<Rightarrow> bool" where
  "rs_large r \<longleftrightarrow> rs_ok r \<and> length (rs_text r) > 0x8000"

definition response_bodies :: "response \<Rightarrow> string list" where
  "response_bodies r =
     (if rs_large r then resp_body (CHR 0x02) (rs_wire r) (fill_uint32 (word_of_nat (length (rs_text r)))) # resp_bodies (rs_wire r) (rs_text r)
      else [resp_body (if rs_ok r then CHR 0x01 else CHR 0x00) (rs_wire r) (take 0x8000 (rs_text r))])"

definition response_frames :: "response \<Rightarrow> string list option" where
  "response_frames r = map_option (\<lambda>x. case x of Inl s \<Rightarrow> [s] | Inr ss \<Rightarrow> ss) (lpackresponse (rs_session r) (rs_ok r) (rs_msg r) (rs_sz r))"

lemma response_count:
  assumes "0 < unat (sz :: size_t)" and "unat sz < 2 ^ 31"
  shows "nat (sint (ucast ((sz - 1) div 0x8000 + 1) :: cint)) = Suc ((unat sz - 1) div 0x8000)"
proof -
  have "unat (sz - 1) = unat sz - 1" using assms(1) by (subst unat_sub) (auto simp: word_le_nat_alt)
  then have d: "unat ((sz - 1) div 0x8000) = (unat sz - 1) div 0x8000" by (simp add: unat_div)
  have l: "Suc ((unat sz - 1) div 0x8000) < 2 ^ 31" using assms div_le_dividend [of "unat sz - 1" "0x8000"] by linarith
  have "(sz - 1) div 0x8000 + 1 = word_of_nat (Suc ((unat sz - 1) div 0x8000))"
    by (simp add: d [symmetric] del: One_nat_def)
  moreover have "(ucast (word_of_nat (Suc ((unat sz - 1) div 0x8000)) :: u64) :: cint) = word_of_nat (Suc ((unat sz - 1) div 0x8000))"
    using l by (simp add: unsigned_of_nat take_bit_nat_eq_self del: of_nat_Suc)
  ultimately show ?thesis using sint_word_of_nat [OF l] by (simp del: of_nat_Suc)
qed

text \<open>\<open>lpackresponse\<close> in terms of the text.\<close>

lemma pack_response_frames:
  assumes "text = take (unat sz) msg" and "unat sz \<le> length msg" and "unat sz < 2 ^ 31"
  shows "map_option (\<lambda>x. case x of Inl s \<Rightarrow> [s] | Inr ss \<Rightarrow> ss) (pack_response session ok msg sz) =
    Some (map frame (if ok \<and> length text > 0x8000
       then resp_body (CHR 0x02) session (fill_uint32 (word_of_nat (length text))) # resp_bodies session text
       else [resp_body (if ok then CHR 0x01 else CHR 0x00) session (take 0x8000 text)]))"
proof -
  have t: "length text = unat sz" using assms by simp
  have c: "sz > ucast MULTI_PART \<longleftrightarrow> length text > 0x8000" by (simp add: t MULTI_PART_def word_less_nat_alt)
  show ?thesis
  proof (cases "ok \<and> length text > 0x8000")
    case True
    let ?b = "resp_body (CHR 0x02) session (fill_uint32 (word_of_nat (length text)))"
    have b: "length ?b = 9" by simp
    have h: "fill_header 9 = Some (write_size 9)" "push_buf (write_size 9 @ ?b) = Some (frame ?b)"
      using frame_built [OF b] by simp_all
    have z: "0 < unat sz" using True t by simp
    have n: "nat (sint (ucast ((sz - 1) div ucast MULTI_PART + 1) :: cint)) = Suc ((unat sz - 1) div 0x8000)"
      using response_count [OF z assms(3)] by (simp add: MULTI_PART_def)
    have l: "resp_loop (Suc ((unat sz - 1) div 0x8000)) session msg sz = Some (map frame (resp_bodies session text))"
      unfolding assms(1) by (rule resp_loop_parts [OF z assms(2)])
    have s: "(ucast sz :: u32) = word_of_nat (length text)" by (simp add: t)
    show ?thesis using True h unfolding pack_response_def c Let_def n l by (simp add: s resp_body_def)
  next
    case False
    define sz' where "sz' = (if \<not> ok \<and> sz > ucast MULTI_PART then ucast MULTI_PART else sz)"
    let ?t = "take 0x8000 text"
    let ?b = "resp_body (if ok then CHR 0x01 else CHR 0x00) session ?t"
    have s: "unat sz' = length ?t" using False unfolding sz'_def c by (auto simp: t MULTI_PART_def)
    have b: "length ?b = length ?t + 5" by simp
    have w: "(ucast (sz' + 5) :: cint) = word_of_nat (length ?t + 5)"
    proof -
      have "unat (sz' + 5) = length ?t + 5" unfolding s [symmetric] by (rule unat_add_lem [THEN iffD1, of sz' 5, simplified]) (simp add: s)
      then show ?thesis by (metis of_nat_unat)
    qed
    have h: "fill_header (ucast (sz' + 5)) = Some (write_size (length ?t + 5))" "push_buf (write_size (length ?t + 5) @ ?b) = Some (frame ?b)"
      using frame_built [OF b] unfolding w by simp_all
    have "uint sz' = int (length ?t)" using s by (metis uint_nat)
    then have r: "read_mem msg 0 (uint sz') = Some ?t"
      using read_mem_take [of "length ?t" msg] assms t by (simp add: min_def)
    have "\<not> (ok \<and> sz > ucast MULTI_PART)" using False c by simp
    then show ?thesis using False h r unfolding pack_response_def Let_def sz'_def [symmetric]
      by (auto simp: resp_body_def)
  qed
qed

lemma response_frames_bodies:
  assumes "valid_response r"
  shows "response_frames r = Some (map frame (response_bodies r))"
proof (cases "rs_msg r")
  case (VStr s)
  then have t: "rs_text r = s" by (simp add: rs_text_def)
  then have l: "length s < 2 ^ 31" using assms by (simp add: valid_response_def)
  then have "unat (word_of_nat (length s) :: u64) = length s" by (simp add: unat_of_nat take_bit_nat_eq_self)
  then show ?thesis using pack_response_frames [of s "word_of_nat (length s)" s "ucast (rs_session r)" "rs_ok r"] l VStr t
    by (cases "rs_ok r"; cases "0x8000 < length s") (simp_all add: response_frames_def lpackresponse_def response_bodies_def rs_large_def rs_wire_def)
next
  case (VPtr p)
  then obtain m where p: "p = Some m" "unat (rs_sz r) \<le> length m" using assms by (auto simp: valid_response_def split: option.splits)
  then have t: "rs_text r = take (unat (rs_sz r)) m" using VPtr by (simp add: rs_text_def)
  have "unat (rs_sz r) < 2 ^ 31" using assms t p by (simp add: valid_response_def)
  then show ?thesis using pack_response_frames [OF t p(2), of "ucast (rs_session r)" "rs_ok r"] VPtr p(1)
    by (cases "rs_ok r"; cases "0x8000 < length (rs_text r)") (simp_all add: response_frames_def lpackresponse_def response_bodies_def rs_large_def rs_wire_def)
qed (use assms in \<open>simp_all add: valid_response_def\<close>)

subsection \<open>Unpacking\<close>

lemma resp_fields:
  "unpack_uint32 (fill_uint32 s @ ty # m) 0 = Some s"
  "read_mem (fill_uint32 s @ ty # m) 4 1 = Some [ty]"
  "int (length m) = k \<Longrightarrow> read_mem (fill_uint32 s @ ty # m) 5 k = Some m"
  "unpack_uint32 (fill_uint32 s @ ty # fill_uint32 n) 5 = Some n"
  using unpack_fill_uint32 [of "[]" 0 s "ty # m"] read_mem_middle [of "fill_uint32 s" 4 "[ty]" 1 m]
    read_mem_end [of "fill_uint32 s @ [ty]" 5 m k] unpack_fill_uint32_end [of "fill_uint32 s @ [ty]" 5 n] by simp_all

lemma unpack_response:
  "lunpackresponse (resp_body (CHR 0x00) s m) = Some [VInt (ucast s), VBool False, VStr m]"
  "lunpackresponse (resp_body (CHR 0x01) s m) = Some [VInt (ucast s), VBool True, VStr m]"
  "lunpackresponse (resp_body (CHR 0x04) s m) = Some [VInt (ucast s), VBool True, VStr m]"
  "lunpackresponse (resp_body (CHR 0x03) s m) = Some [VInt (ucast s), VBool True, VStr m, VBool True]"
  "lunpackresponse (resp_body (CHR 0x02) s (fill_uint32 n)) = Some [VInt (ucast s), VBool True, VInt (ucast n), VBool True]"
  by (simp_all add: resp_body_def lunpackresponse_def resp_fields Let_def)

subsection \<open>Reading the stream\<close>

lemma lheader_two: "lheader [c, d] = Some (push_bit 8 (of_char c) OR of_char d)"
  by (simp add: lheader_def)

lemma byte_word: "(of_char (char_of (n mod 256) :: char) :: u64) = word_of_nat (n mod 256)"
proof -
  have "(of_char (char_of (n mod 256) :: char) :: nat) = n mod 256" by (simp add: take_bit_eq_mod)
  then show ?thesis by (metis of_nat_of_char)
qed

lemma lheader_write_size:
  assumes "n < 65536"
  shows "\<exists>w. lheader (write_size n) = Some w \<and> unat w = n"
proof -
  let ?h = "word_of_nat (n div 256 mod 256) :: u64" and ?l = "word_of_nat (n mod 256) :: u64"
  have u: "unat ?h = n div 256" "unat ?l = n mod 256" using assms by (simp_all add: unat_of_nat take_bit_nat_eq_self)
  have low: "bit ?l i \<Longrightarrow> i < 8" for i
  proof -
    have "?l = take_bit 8 ?l" unfolding word_unat_eq_iff unsigned_take_bit_eq u(2) by (simp add: take_bit_eq_mod)
    then show "bit ?l i \<Longrightarrow> i < 8" by (metis bit_take_bit_iff)
  qed
  have "push_bit 8 ?h + ?l = push_bit 8 ?h OR ?l" by (intro disjunctive_add) (auto simp: bit_push_bit_iff dest: low)
  moreover have "unat (push_bit 8 ?h + ?l) = n"
  proof -
    have "unat (push_bit 8 ?h) = n div 256 * 256" using u(1) assms by (simp add: push_bit_eq_mult unat_word_ariths)
    then show ?thesis using u(2) assms by (simp add: unat_word_ariths)
  qed
  ultimately show ?thesis unfolding write_size_def lheader_two byte_word by simp
qed

lemma ready_frame: "length b < 65536 \<Longrightarrow> ready (frame b @ rest) = Some (length b)"
  using lheader_write_size [of "length b"] by (auto simp: ready_def frame_def)

lemma ready_append: "ready xs = Some n \<Longrightarrow> ready (xs @ ys) = Some n \<and> 2 + n \<le> length xs"
  by (auto simp: ready_def split: if_splits option.splits)

lemma sender_loop_append:
  "sender_loop ch (xs @ ys) = do {
     (evs, ch, rest) \<leftarrow> sender_loop ch xs;
     (evs', ch, rest) \<leftarrow> sender_loop ch (rest @ ys);
     Some (evs @ evs', ch, rest) }"
proof (induction ch xs rule: sender_loop.induct)
  case (1 ch xs)
  show ?case
  proof (cases "ch_open ch \<and> ready xs \<noteq> None")
    case True
    then obtain n where n: "ch_open ch" "ready xs = Some n" by auto
    note r = ready_append [OF n(2)]
    have z: "n - (length xs - 2) = 0" using r [of "[]"] by simp
    show ?thesis
    proof (cases "Option.bind (lunpackresponse (take n (drop 2 xs))) (dispatch_by_session ch)")
      case None
      then show ?thesis using n r z by (subst (1 2) sender_loop.simps) (auto split: Option.bind_splits)
    next
      case (Some y)
      then obtain vs ev ch' where y: "lunpackresponse (take n (drop 2 xs)) = Some vs" "dispatch_by_session ch vs = Some (ev, ch')"
        by (cases y) (auto split: Option.bind_splits)
      note IH = "1.IH" [OF _ n(2) y(1) y(2) refl]
      show ?thesis using n r y z IH by (subst (1 2) sender_loop.simps) (auto split: Option.bind_splits prod.splits)
    qed
  next
    case False
    then have "sender_loop ch xs = Some ([], ch, xs)" by (subst sender_loop.simps) auto
    then show ?thesis by (cases "sender_loop ch (xs @ ys)") auto
  qed
qed

subsection \<open>Receiving responses\<close>

definition rs_key :: "response \<Rightarrow> lua_value" where
  "rs_key r = VInt (ucast (rs_wire r))"

definition gathered :: "response \<Rightarrow> string list \<Rightarrow> ch_data" where
  "gathered r chunks = Many (VInt (ucast (word_of_nat (length (rs_text r)) :: u32)) # map VStr chunks)"

text \<open>What is stored for the coroutine when it is woken.\<close>

definition rs_done :: "response \<Rightarrow> nat \<Rightarrow> channel \<Rightarrow> bool" where
  "rs_done r co ch \<longleftrightarrow> ch_thread ch (rs_key r) = None \<and> ch_result ch co = Result (VBool (rs_ok r)) \<and>
     (if rs_large r then \<exists>chunks. concat chunks = rs_text r \<and> ch_data ch co = gathered r chunks
      else ch_data ch co = One (VStr (take 0x8000 (rs_text r))))"

definition rs_phase :: "response \<Rightarrow> nat \<Rightarrow> string list \<Rightarrow> channel \<Rightarrow> bool" where
  "rs_phase r co bs ch \<longleftrightarrow>
     ch_thread ch (rs_key r) = Some co \<and> ch_data ch co = One VNil \<and> bs = response_bodies r \<or>
     rs_large r \<and> ch_thread ch (rs_key r) = Some co \<and>
       (\<exists>chunks rest. concat chunks @ rest = rs_text r \<and> bs = resp_bodies (rs_wire r) rest \<and> ch_data ch co = gathered r chunks) \<or>
     bs = [] \<and> rs_done r co ch"

text \<open>Only the entries of a session and its coroutine change.\<close>

definition touches :: "lua_value \<Rightarrow> nat \<Rightarrow> channel \<Rightarrow> channel \<Rightarrow> bool" where
  "touches k co ch ch' \<longleftrightarrow> ch_open ch' = ch_open ch \<and> (\<forall>k'. k' \<noteq> k \<longrightarrow> ch_thread ch' k' = ch_thread ch k') \<and>
     (\<forall>c. c \<noteq> co \<longrightarrow> ch_result ch' c = ch_result ch c \<and> ch_data ch' c = ch_data ch c)"

lemma touches_phase:
  assumes "touches k co ch ch'" and "rs_key r \<noteq> k" and "c \<noteq> co"
  shows "rs_phase r c bs ch' \<longleftrightarrow> rs_phase r c bs ch"
  using assms by (simp add: touches_def rs_phase_def rs_done_def)

lemma has_data_simps [simp]: "\<not> has_data (One VNil)" "has_data (gathered r chunks)" "has_data (Many vs)"
  by (simp_all add: has_data_def gathered_def)

lemma insert_gathered [simp]: "insert_data (gathered r chunks) (VStr m) = Some (gathered r (chunks @ [m]))"
  by (simp add: insert_data_def gathered_def)

lemma insert_first [simp]: "insert_data (Many []) (VInt (ucast (word_of_nat (length (rs_text r)) :: u32))) = Some (gathered r [])"
  by (simp add: insert_data_def gathered_def)

lemma response_step:
  assumes "rs_phase r co (b # bs) ch"
  shows "\<exists>vs ch'. lunpackresponse b = Some vs \<and>
     dispatch_by_session ch vs = Some (if bs = [] then Ch_wake co else Ch_none, ch') \<and>
     rs_phase r co bs ch' \<and> touches (rs_key r) co ch ch'"
proof -
  have th: "ch_thread ch (VInt (ucast (rs_wire r))) = Some co"
    using assms by (auto simp: rs_phase_def rs_key_def)
  consider (small) "\<not> rs_large r" "ch_data ch co = One VNil" "b # bs = response_bodies r"
    | (head) "rs_large r" "ch_data ch co = One VNil" "b # bs = response_bodies r"
    | (part) chunks rest where "rs_large r" "concat chunks @ rest = rs_text r" "b # bs = resp_bodies (rs_wire r) rest"
        "ch_data ch co = gathered r chunks"
    using assms by (auto simp: rs_phase_def)
  then show ?thesis
  proof cases
    case small
    then have "b = resp_body (if rs_ok r then CHR 0x01 else CHR 0x00) (rs_wire r) (take 0x8000 (rs_text r))" "bs = []"
      by (auto simp: response_bodies_def)
    then show ?thesis using small(1,2) th
      by (cases "rs_ok r") (auto simp: unpack_response dispatch_by_session_def Let_def touches_def rs_phase_def rs_done_def rs_key_def)
  next
    case head
    then have "b = resp_body (CHR 0x02) (rs_wire r) (fill_uint32 (word_of_nat (length (rs_text r))))"
      and bs: "bs = resp_bodies (rs_wire r) (rs_text r)" by (auto simp: response_bodies_def)
    moreover have "bs \<noteq> []" unfolding bs by (subst resp_bodies.simps) simp
    moreover have "\<exists>chunks rest. concat chunks @ rest = rs_text r \<and> resp_bodies (rs_wire r) (rs_text r) = resp_bodies (rs_wire r) rest \<and> gathered r [] = gathered r chunks"
      by (intro exI [of _ "[]"] exI [of _ "rs_text r"]) simp
    ultimately show ?thesis using head(1,2) th
      by (simp add: unpack_response dispatch_by_session_def Let_def touches_def rs_phase_def rs_key_def)
  next
    case (part chunks rest)
    show ?thesis
    proof (cases "length rest > 0x8000")
      case True
      then have b: "b = resp_body (CHR 0x03) (rs_wire r) (take 0x8000 rest)" "bs = resp_bodies (rs_wire r) (drop 0x8000 rest)"
        using part(3) by (subst (asm) resp_bodies.simps, simp)+
      moreover have "bs \<noteq> []" unfolding b(2) by (subst resp_bodies.simps) simp
      moreover have "\<exists>chunks' rest'. concat chunks' @ rest' = rs_text r \<and> resp_bodies (rs_wire r) (drop 0x8000 rest) = resp_bodies (rs_wire r) rest' \<and>
         gathered r (chunks @ [take 0x8000 rest]) = gathered r chunks'"
        by (intro exI [of _ "chunks @ [take 0x8000 rest]"] exI [of _ "drop 0x8000 rest"]) (simp add: part(2))
      ultimately show ?thesis using part(1,4) th
        by (simp add: unpack_response dispatch_by_session_def Let_def touches_def rs_phase_def rs_key_def)
    next
      case False
      then have "b = resp_body (CHR 0x04) (rs_wire r) rest" "bs = []"
        using part(3) by (subst (asm) resp_bodies.simps, simp)+
      moreover have "\<exists>chunks'. concat chunks' = rs_text r \<and> gathered r (chunks @ [rest]) = gathered r chunks'"
        by (intro exI [of _ "chunks @ [rest]"]) (simp add: part(2))
      moreover have "rs_ok r" using part(1) by (simp add: rs_large_def)
      ultimately show ?thesis using part(1,4) th
        by (simp add: unpack_response dispatch_by_session_def Let_def touches_def rs_phase_def rs_done_def rs_key_def)
    qed
  qed
qed

lemma resp_bodies_length: "b \<in> set (resp_bodies s m) \<Longrightarrow> length b \<le> 0x8005"
  by (induction s m rule: resp_bodies.induct) (subst (asm) (2) resp_bodies.simps, auto split: if_splits)

lemma response_bodies_length: "b \<in> set (response_bodies r) \<Longrightarrow> length b < 65536"
  using resp_bodies_length [of b "rs_wire r" "rs_text r"] by (auto simp: response_bodies_def split: if_splits)

lemma sender_loop_frame:
  assumes "length b < 65536" and "ch_open ch" and "lunpackresponse b = Some vs" and "dispatch_by_session ch vs = Some (ev, ch')"
    and "sender_loop ch' stream = Some (evs, ch'', rest)"
  shows "sender_loop ch (frame b @ stream) = Some (ev # evs, ch'', rest)"
  using assms ready_frame [OF assms(1), of stream]
  by (subst sender_loop.simps) (simp add: frame_def)

definition rs_inv :: "response list \<Rightarrow> nat list \<Rightarrow> string list list \<Rightarrow> channel \<Rightarrow> bool" where
  "rs_inv rs cos xss ch \<longleftrightarrow> length xss = length rs \<and> ch_open ch \<and> (\<forall>i < length rs. rs_phase (rs ! i) (cos ! i) (xss ! i) ch)"

lemma rs_key_eq: "rs_key r = rs_key r' \<longleftrightarrow> rs_wire r = rs_wire r'"
proof -
  have "(ucast (ucast a :: u64) :: u32) = a" for a :: u32 by (rule bit_word_eqI) (simp add: bit_simps)
  then have "(ucast a :: u64) = ucast b \<longleftrightarrow> a = b" for a b :: u32 by metis
  then show ?thesis by (simp add: rs_key_def)
qed

lemma rs_inv_step:
  assumes "distinct (map rs_wire rs)" and "distinct cos" and "length cos = length rs"
    and "rs_inv rs cos xss ch" and "i < length xss" and "xss ! i = b # bs"
  shows "\<exists>vs ch'. lunpackresponse b = Some vs \<and> dispatch_by_session ch vs = Some (if bs = [] then Ch_wake (cos ! i) else Ch_none, ch') \<and>
     rs_inv rs cos (xss[i := bs]) ch'"
proof -
  have l: "length xss = length rs" "i < length rs" using assms(4,5) by (auto simp: rs_inv_def)
  have "rs_phase (rs ! i) (cos ! i) (b # bs) ch" using assms(4,6) l by (auto simp: rs_inv_def)
  from response_step [OF this] obtain vs ch' where s: "lunpackresponse b = Some vs"
    "dispatch_by_session ch vs = Some (if bs = [] then Ch_wake (cos ! i) else Ch_none, ch')"
    "rs_phase (rs ! i) (cos ! i) bs ch'" "touches (rs_key (rs ! i)) (cos ! i) ch ch'" by blast
  have "rs_phase (rs ! j) (cos ! j) ((xss[i := bs]) ! j) ch'" if j: "j < length rs" for j
  proof (cases "j = i")
    case True
    then show ?thesis using s(3) l by simp
  next
    case False
    then have "rs_key (rs ! j) \<noteq> rs_key (rs ! i)" "cos ! j \<noteq> cos ! i"
      using assms(1-3) l j by (auto simp: rs_key_eq distinct_conv_nth)
    then show ?thesis using touches_phase [OF s(4)] assms(4) j False by (simp add: rs_inv_def)
  qed
  moreover have "ch_open ch'" using s(4) assms(4) by (simp add: touches_def rs_inv_def)
  ultimately show ?thesis using s(1,2) l by (auto simp: rs_inv_def)
qed

lemma sender_loop_merges:
  assumes "distinct (map rs_wire rs)" and "distinct cos" and "length cos = length rs"
  shows "rs_inv rs cos xss ch \<Longrightarrow> merges xss bs \<Longrightarrow> \<forall>b \<in> set bs. length b < 65536 \<Longrightarrow>
     \<exists>evs ch'. sender_loop ch (concat (map frame bs)) = Some (evs, ch', []) \<and>
       mset (filter (\<lambda>ev. ev \<noteq> Ch_none) evs) = image_mset Ch_wake (mset (waiting cos xss)) \<and>
       rs_inv rs cos (map (\<lambda>_. []) rs) ch'"
proof (induction bs arbitrary: xss ch)
  case Nil
  then have "length xss = length rs" "\<forall>xs \<in> set xss. xs = []" by (auto simp: rs_inv_def)
  then have x: "xss = map (\<lambda>_. []) rs" by (metis map_replicate_const replicate_length_same)
  have "sender_loop ch [] = Some ([], ch, [])" by (subst sender_loop.simps) (simp add: ready_def)
  moreover have "waiting cos xss = []" unfolding x by (auto simp: waiting_def filter_empty_conv in_set_zip)
  ultimately show ?case using Nil x by simp
next
  case (Cons b bs)
  then obtain i where i: "i < length xss" "xss ! i \<noteq> []" "hd (xss ! i) = b" "merges (xss[i := tl (xss ! i)]) bs" by auto
  let ?t = "tl (xss ! i)"
  have x: "xss ! i = b # ?t" using i by (metis list.collapse)
  have l: "length cos = length xss" "ch_open ch" using Cons.prems(1) assms(3) by (auto simp: rs_inv_def)
  obtain vs ch1 where s: "lunpackresponse b = Some vs" "dispatch_by_session ch vs = Some (if ?t = [] then Ch_wake (cos ! i) else Ch_none, ch1)"
    "rs_inv rs cos (xss[i := ?t]) ch1"
    using rs_inv_step [OF assms Cons.prems(1) i(1) x] by blast
  obtain evs ch' where run: "sender_loop ch1 (concat (map frame bs)) = Some (evs, ch', [])"
    "mset (filter (\<lambda>ev. ev \<noteq> Ch_none) evs) = image_mset Ch_wake (mset (waiting cos (xss[i := ?t])))"
    "rs_inv rs cos (map (\<lambda>_. []) rs) ch'"
    using Cons.IH [OF s(3) i(4)] Cons.prems(3) by auto
  have "mset (filter (\<lambda>ev. ev \<noteq> Ch_none) ((if ?t = [] then Ch_wake (cos ! i) else Ch_none) # evs)) = image_mset Ch_wake (mset (waiting cos xss))"
    using waiting_update [OF i(1) l(1) i(2), of ?t] run(2) by auto
  moreover have "sender_loop ch (frame b @ concat (map frame bs)) = Some ((if ?t = [] then Ch_wake (cos ! i) else Ch_none) # evs, ch', [])"
    using Cons.prems(3) by (intro sender_loop_frame [OF _ l(2) s(1,2) run(1)]) simp
  ultimately show ?case using run(3) by auto
qed

text \<open>The stream arrives in pieces.\<close>

fun sender_feed :: "channel \<Rightarrow> string \<Rightarrow> string list \<Rightarrow> (ch_event list \<times> channel \<times> string) option" where
  "sender_feed ch buf [] = Some ([], ch, buf)"
| "sender_feed ch buf (p # ps) = do {
     (evs, ch, buf) \<leftarrow> sender_loop ch (buf @ p);
     (evs', ch, buf) \<leftarrow> sender_feed ch buf ps;
     Some (evs @ evs', ch, buf) }"

lemma sender_loop_settled:
  "sender_loop ch stream = Some (evs, ch', rest) \<Longrightarrow> sender_loop ch' rest = Some ([], ch', rest)"
proof (induction ch stream arbitrary: evs rule: sender_loop.induct)
  case (1 ch stream)
  show ?case
  proof (cases "ch_open ch \<and> ready stream \<noteq> None")
    case False
    then have "sender_loop ch stream = Some ([], ch, stream)" by (subst sender_loop.simps) auto
    then show ?thesis using "1.prems" by simp
  next
    case True
    then show ?thesis using "1.prems" "1.IH" by (subst (asm) sender_loop.simps) (auto split: Option.bind_splits)
  qed
qed

lemma sender_feed_loop:
  "sender_loop ch buf = Some ([], ch, buf) \<Longrightarrow> sender_feed ch buf ps = sender_loop ch (buf @ concat ps)"
proof (induction ps arbitrary: ch buf)
  case (Cons p ps)
  show ?case
  proof (cases "sender_loop ch (buf @ p)")
    case (Some y)
    then obtain evs ch' rest where y: "sender_loop ch (buf @ p) = Some (evs, ch', rest)" by (cases y) auto
    show ?thesis using Cons.IH [OF sender_loop_settled [OF y]] y sender_loop_append [of ch "buf @ p" "concat ps"] by simp
  next
    case None
    then show ?thesis using sender_loop_append [of ch "buf @ p" "concat ps"] by simp
  qed
qed simp

lemma resp_bodies_nonempty: "resp_bodies s m \<noteq> []"
  by (subst resp_bodies.simps) simp

lemma response_bodies_nonempty: "response_bodies r \<noteq> []"
  by (simp add: response_bodies_def)

lemma rs_phase_done: "rs_phase r co [] ch \<Longrightarrow> rs_done r co ch"
  by (auto simp: rs_phase_def resp_bodies_nonempty [symmetric] response_bodies_nonempty [symmetric])

subsection \<open>From the service to the caller\<close>

text \<open>What \<open>command.req\<close> answers, or the error that it logs.\<close>

definition response_reply :: "response \<Rightarrow> ch_data + lua_value list" where
  "response_reply r =
     (if \<not> rs_ok r then Inl (One (VStr (take 0x8000 (rs_text r))))
      else if rs_large r then Inr (shown_text (rs_text r))
      else Inr [VStr (rs_text r)])"

lemma done_reply:
  assumes "valid_response r" and "rs_done r co ch"
  shows "command_req (fst (wait_for_response ch co)) = Some (response_reply r)"
proof (cases "rs_large r")
  case True
  then obtain chunks where c: "concat chunks = rs_text r" "ch_data ch co = gathered r chunks" using assms(2) by (auto simp: rs_done_def)
  have "length (rs_text r) < 2 ^ 31" using assms(1) by (simp add: valid_response_def)
  then have n: "unat (word_of_nat (length (rs_text r)) :: u32) = length (rs_text r)" by (simp add: unat_of_nat take_bit_nat_eq_self)
  have "lconcat (VInt (ucast (word_of_nat (length (rs_text r)) :: u32)) # map VStr chunks) = Some (shown_text (rs_text r))"
    unfolding shown_text_def using lconcat_chunks [of "word_of_nat (length (rs_text r))" chunks] n c(1) \<open>length (rs_text r) < 2 ^ 31\<close>
    by (simp del: of_nat_less_iff)
  moreover have "rs_ok r" using True by (simp add: rs_large_def)
  ultimately show ?thesis using True c(2) assms(2)
    by (simp add: rs_done_def wait_for_response_def command_req_def gathered_def response_reply_def)
next
  case False
  then show ?thesis using assms(2)
    by (auto simp: rs_done_def wait_for_response_def command_req_def response_reply_def rs_large_def)
qed

text \<open>
  C32. Responses between the nodes of a cluster. Take responses of less than 2 GB to different
  sessions, each awaited by its own coroutine. Packing them succeeds. However their frames mix on
  the connection and whatever the pieces in which the stream is read: every coroutine is woken
  exactly once and nothing else happens, the whole stream is consumed, and \<open>command.req\<close> answers
  with exactly the message, also when it came in parts; of the message of a failed call it logs
  the first 32K.
\<close>

theorem cluster_responses_arrive:
  assumes "\<forall>r \<in> set rs. valid_response r" and "distinct (map rs_wire rs)"
    and "distinct cos" and "length cos = length rs"
    and "ch_open ch" and "\<forall>i < length rs. ch_thread ch (rs_key (rs ! i)) = Some (cos ! i) \<and> ch_data ch (cos ! i) = One VNil"
  shows "\<exists>fss. those (map response_frames rs) = Some fss \<and>
     (\<forall>fs pieces. merges fss fs \<and> concat pieces = concat fs \<longrightarrow>
       (\<exists>evs ch'. sender_feed ch [] pieces = Some (evs, ch', []) \<and> ch_open ch' \<and>
          mset (filter (\<lambda>ev. ev \<noteq> Ch_none) evs) = mset (map Ch_wake cos) \<and>
          (\<forall>i < length rs. ch_thread ch' (rs_key (rs ! i)) = None \<and>
             command_req (fst (wait_for_response ch' (cos ! i))) = Some (response_reply (rs ! i)))))"
proof (intro exI [of _ "map (map frame) (map response_bodies rs)"] conjI allI impI)
  show "those (map response_frames rs) = Some (map (map frame) (map response_bodies rs))"
    using assms(1) by (simp add: those_map [where g = "\<lambda>r. map frame (response_bodies r)"] response_frames_bodies o_def)
  fix fs pieces
  assume fs: "merges (map (map frame) (map response_bodies rs)) fs \<and> concat pieces = concat fs"
  then obtain bs where bs: "fs = map frame bs" "merges (map response_bodies rs) bs" using merges_frames by blast
  have short: "\<forall>b \<in> set bs. length b < 65536" using merges_set [OF bs(2)] response_bodies_length by fastforce
  have "rs_inv rs cos (map response_bodies rs) ch" using assms(5,6) by (simp add: rs_inv_def rs_phase_def)
  from sender_loop_merges [OF assms(2-4) this bs(2) short]
  obtain evs ch' where run: "sender_loop ch (concat fs) = Some (evs, ch', [])"
    "mset (filter (\<lambda>ev. ev \<noteq> Ch_none) evs) = image_mset Ch_wake (mset (waiting cos (map response_bodies rs)))"
    "rs_inv rs cos (map (\<lambda>_. []) rs) ch'" unfolding bs(1) by blast
  have "waiting cos (map response_bodies rs) = map fst (zip cos rs)"
    by (simp add: waiting_def zip_map2 filter_map o_def case_prod_unfold response_bodies_nonempty)
  then have w: "mset (filter (\<lambda>ev. ev \<noteq> Ch_none) evs) = mset (map Ch_wake cos)" using run(2) assms(4) by simp
  have d: "rs_done (rs ! i) (cos ! i) ch'" if "i < length rs" for i
    using run(3) that by (intro rs_phase_done) (simp add: rs_inv_def)
  then have "\<forall>i < length rs. ch_thread ch' (rs_key (rs ! i)) = None \<and>
      command_req (fst (wait_for_response ch' (cos ! i))) = Some (response_reply (rs ! i))"
    using done_reply assms(1) by (simp add: rs_done_def [of _ _ ch'])
  moreover have "sender_loop ch [] = Some ([], ch, [])" by (subst sender_loop.simps) (simp add: ready_def)
  then have "sender_feed ch [] pieces = Some (evs, ch', [])" using sender_feed_loop [of ch "[]" pieces] fs run(1) by simp
  moreover have "ch_open ch'" using run(3) by (simp add: rs_inv_def)
  ultimately show "\<exists>evs ch'. sender_feed ch [] pieces = Some (evs, ch', []) \<and> ch_open ch' \<and>
          mset (filter (\<lambda>ev. ev \<noteq> Ch_none) evs) = mset (map Ch_wake cos) \<and>
          (\<forall>i < length rs. ch_thread ch' (rs_key (rs ! i)) = None \<and>
             command_req (fst (wait_for_response ch' (cos ! i))) = Some (response_reply (rs ! i)))"
    using w by blast
qed

definition sample_responses :: "response list" where
  "sample_responses =
     [\<lparr>rs_session = 1, rs_ok = True, rs_msg = VPtr (Some (replicate 40000 (CHR ''x''))), rs_sz = 40000\<rparr>,
      \<lparr>rs_session = 2, rs_ok = False, rs_msg = VStr ''Invalid name'', rs_sz = 0\<rparr>]"

definition sample_channel :: channel where
  "sample_channel =
     \<lparr>ch_open = True, ch_thread = [VInt 1 \<mapsto> 10, VInt 2 \<mapsto> 11], ch_result = (\<lambda>_. Result VNil), ch_data = (\<lambda>_. One VNil)\<rparr>"

theorem cluster_responses_arrive_witness:
  "\<exists>fss. those (map response_frames sample_responses) = Some fss \<and>
     (\<forall>fs pieces. merges fss fs \<and> concat pieces = concat fs \<longrightarrow>
       (\<exists>evs ch'. sender_feed sample_channel [] pieces = Some (evs, ch', []) \<and> ch_open ch' \<and>
          mset (filter (\<lambda>ev. ev \<noteq> Ch_none) evs) = mset (map Ch_wake [10, 11]) \<and>
          (\<forall>i < length sample_responses. ch_thread ch' (rs_key (sample_responses ! i)) = None \<and>
             command_req (fst (wait_for_response ch' ([10, 11] ! i))) = Some (response_reply (sample_responses ! i)))))"
proof (rule cluster_responses_arrive)
  show "\<forall>r \<in> set sample_responses. valid_response r"
    by (simp add: sample_responses_def valid_response_def rs_text_def)
  show "\<forall>i < length sample_responses. ch_thread sample_channel (rs_key (sample_responses ! i)) = Some ([10, 11] ! i) \<and>
      ch_data sample_channel ([10, 11] ! i) = One VNil"
    by (auto simp: sample_responses_def sample_channel_def rs_key_def rs_wire_def less_Suc_eq)
qed (simp_all add: sample_responses_def sample_channel_def rs_wire_def)

subsection \<open>Sizes and tags\<close>



text \<open>
  The tag of a trace belongs to the connection, not to the request: a request that arrives while a
  traced call waits is traced with the same tag, and a part of another large request that arrives
  between a tag and its request takes the tag away.
\<close>

lemma trace_tag_shared:
  assumes "valid_request r" and "rq_short r" and "valid_request r'" and "rq_short r'"
    and "ag_large ag (rq_key r) = None" and "ag_large ag (rq_key r') = None" and "ag_trace ag = VStr tag"
  shows "\<exists>a m z p a' m' z' p'. agent_run ag (map (pack_of fd) (request_bodies r @ request_bodies r')) =
     Some ([Inr (Ag_request a (rq_key r) m z p (VStr tag)), Inr (Ag_request a' (rq_key r') m' z' p' (VStr tag))], ag)"
proof -
  have one: "\<exists>a m z p. agent_package ag (pack_of fd (short_body (rq_addr q) (rq_wire q) (rq_text q))) =
      Some (Inr (Ag_request a (rq_key q) m z p (VStr tag)), ag)"
    if q: "valid_request q" "rq_short q" "ag_large ag (rq_key q) = None" for q
  proof -
    let ?b = "short_body (rq_addr q) (rq_wire q) (rq_text q)"
    have "?b \<in> set (request_bodies q)" using q(2) by (simp add: request_bodies_def)
    then have l: "length ?b < 65536" by (rule request_bodies_length [OF q(1)])
    have "good_addr (rq_addr q)" using q(1) by (simp add: valid_request_def)
    note u = agent_unpack [OF l unpack_short [OF this]]
    show ?thesis using q(3) assms(7) unfolding u
      by (cases "rq_wire q = 0") (auto simp: dispatch_request_def shown_text_def rq_key_def Let_def)
  qed
  show ?thesis using one [OF assms(1,2,5)] one [OF assms(3,4,6)] assms(2,4) by (auto simp: request_bodies_def)
qed

lemma trace_tag_lost:
  assumes "length m \<le> 0x8000" and "ag_large ag (rq_key r) = Some (collecting r chunks)"
  shows "\<exists>ag'. agent_package ag (pack_of fd (part_body (CHR 0x02) (rq_wire r) m)) = Some (Inr Ag_none, ag') \<and> ag_trace ag' = VNil"
proof -
  have l: "length (part_body (CHR 0x02) (rq_wire r) m) < 65536" using assms(1) by (simp add: part_body_def)
  note u = agent_unpack [OF l unpack_part]
  show ?thesis using assms lappend_text [of m]
    by (simp add: u dispatch_request_def shown_text_def collecting_def rq_key_def Let_def)
qed

end
